(* ===== verification/Sql_Prelude.thy ===== *)
theory Sql_Prelude
  imports Main
begin

text \<open>
  Shared vocabulary of the development: the status codes and the error record of the public
  header, the machine limits the code tests against, C strings and the \<^verbatim>\<open>ctype.h\<close> tests the
  scanners call, and the one loop shape they share (advance while a byte satisfies a test).

  A C string is the list of its bytes before the terminating NUL; \<open>char_at s i\<close> reads byte
  \<open>i\<close> and yields NUL at the end.  Functions that may fail return \<open>sql_error + 'a\<close>: \<open>Inl\<close> holds
  what the code leaves in \<^verbatim>\<open>*out_error\<close>, and its code is the status the function returns.
\<close>

named_theorems scan_bounds \<open>how far a scanning function can move\<close>
named_theorems error_simps \<open>the error record built by the setters\<close>

section \<open>Status codes and errors\<close>

text \<open>\<^verbatim>\<open>sqlparser_status_t\<close>\<close>

datatype status =
    STATUS_OK | INVALID_ARGUMENT | NO_MEMORY | PARSE_ERROR | INTERNAL_ERROR
  | UNSUPPORTED | RESOURCE_LIMIT

text \<open>\<^verbatim>\<open>sqlparser_error_t\<close>: the message is a buffer of 256 bytes.\<close>

record sql_error =
  err_code :: status
  err_cursor :: int
  err_line :: int
  err_column :: int
  err_message :: string

text \<open>\<^verbatim>\<open>sqlparser_error_clear\<close>: every byte zero, code OK.\<close>

definition error_clear :: sql_error where
  "error_clear = \<lparr>err_code = STATUS_OK, err_cursor = 0, err_line = 0, err_column = 0,
     err_message = []\<rparr>"

text \<open>\<^verbatim>\<open>sqlparser_error_set_message\<close>: \<^verbatim>\<open>snprintf\<close> into the 256-byte buffer keeps 255 bytes.\<close>

definition error_set_message :: "status \<Rightarrow> string \<Rightarrow> sql_error" where
  "error_set_message code message =
     error_clear\<lparr>err_code := code, err_message := take 255 message\<rparr>"

abbreviation fail :: "status \<Rightarrow> string \<Rightarrow> sql_error + 'a" where
  "fail code message \<equiv> Inl (error_set_message code message)"

lemma err_code_set_message [simp, error_simps]: "err_code (error_set_message c m) = c"
  by (simp add: error_set_message_def error_clear_def)

lemma error_set_message_location [simp, error_simps]:
  "err_cursor (error_set_message c m) = 0" "err_line (error_set_message c m) = 0"
  "err_column (error_set_message c m) = 0"
  by (simp_all add: error_set_message_def error_clear_def)

text \<open>The status a call returns, read off its result.\<close>

definition status_of :: "sql_error + 'a \<Rightarrow> status" where
  "status_of r = (case r of Inl e \<Rightarrow> err_code e | Inr _ \<Rightarrow> STATUS_OK)"

lemma status_of_simps [simp]:
  "status_of (Inl e) = err_code e" "status_of (Inr x) = STATUS_OK"
  by (simp_all add: status_of_def)

section \<open>Machine limits\<close>

text \<open>
  The build targets are LP64 (or LLP64) 64-bit: \<^verbatim>\<open>size_t\<close> has 64 bits.  A \<^verbatim>\<open>size_t\<close> is a \<open>nat\<close>;
  a sum the code does not guard is written with \<open>wrap_size\<close>.
\<close>

definition SIZE_MAX :: nat where "SIZE_MAX = 2 ^ 64 - 1"
definition INT_MAX :: nat where "INT_MAX = 2 ^ 31 - 1"
definition INT32_MAX :: nat where "INT32_MAX = 2 ^ 31 - 1"

definition wrap_size :: "nat \<Rightarrow> nat" where "wrap_size n = n mod 2 ^ 64"

lemma wrap_size_id [simp]: "n \<le> SIZE_MAX \<Longrightarrow> wrap_size n = n"
  by (simp add: wrap_size_def SIZE_MAX_def)

text \<open>
  An allocator answers each allocation of a call: \<open>alloc k n\<close> tells whether the \<open>k\<close>-th request of
  the call, for \<open>n\<close> bytes, succeeds.
\<close>

type_synonym allocator = "nat \<Rightarrow> nat \<Rightarrow> bool"

section \<open>C strings and ctype.h\<close>

abbreviation NUL :: char where "NUL \<equiv> CHR 0x00"
abbreviation LF :: char where "LF \<equiv> CHR 0x0A"
abbreviation CR :: char where "CR \<equiv> CHR 0x0D"
abbreviation QUOTE :: char where "QUOTE \<equiv> CHR 0x27"
abbreviation BACKSLASH :: char where "BACKSLASH \<equiv> CHR 0x5C"

definition char_at :: "string \<Rightarrow> nat \<Rightarrow> char" where
  "char_at s i = (if i < length s then s ! i else NUL)"

lemma char_at_beyond [simp]: "length s \<le> i \<Longrightarrow> char_at s i = NUL"
  by (simp add: char_at_def)

lemma char_at_less: "char_at s i \<noteq> NUL \<Longrightarrow> i < length s"
  by (rule ccontr) (simp add: char_at_def)

lemma char_at_append_left: "i < length xs \<Longrightarrow> char_at (xs @ ys) i = char_at xs i"
  by (simp add: char_at_def nth_append)

lemma char_at_append_right [simp]: "char_at (xs @ ys) (length xs + i) = char_at ys i"
  by (simp add: char_at_def nth_append)

lemma char_at_drop: "char_at (drop i s) j = char_at s (i + j)"
  by (auto simp: char_at_def)

lemma char_at_Cons [simp]:
  "char_at (c # s) 0 = c" "char_at (c # s) (Suc i) = char_at s i"
  by (simp_all add: char_at_def)

definition c_isspace :: "char \<Rightarrow> bool" where
  "c_isspace c = (let n = (of_char c :: nat) in n = 32 \<or> (9 \<le> n \<and> n \<le> 13))"

definition c_isdigit :: "char \<Rightarrow> bool" where
  "c_isdigit c = (let n = (of_char c :: nat) in 48 \<le> n \<and> n \<le> 57)"

definition c_isalpha :: "char \<Rightarrow> bool" where
  "c_isalpha c = (let n = (of_char c :: nat) in
     (65 \<le> n \<and> n \<le> 90) \<or> (97 \<le> n \<and> n \<le> 122))"

definition c_isalnum :: "char \<Rightarrow> bool" where
  "c_isalnum c = (c_isalpha c \<or> c_isdigit c)"

definition c_iscntrl :: "char \<Rightarrow> bool" where
  "c_iscntrl c = (let n = (of_char c :: nat) in n < 32 \<or> n = 127)"

definition c_tolower :: "char \<Rightarrow> char" where
  "c_tolower c = (let n = (of_char c :: nat) in
     if 65 \<le> n \<and> n \<le> 90 then char_of (n + 32) else c)"

definition is_high_byte :: "char \<Rightarrow> bool" where
  "is_high_byte c = (128 \<le> (of_char c :: nat))"

lemma ctype_NUL [simp]:
  "\<not> c_isspace NUL" "\<not> c_isdigit NUL" "\<not> c_isalpha NUL" "\<not> c_isalnum NUL"
  "\<not> is_high_byte NUL"
  by (simp_all add: c_isspace_def c_isdigit_def c_isalpha_def c_isalnum_def is_high_byte_def)

lemmas ctype_defs =
  c_isspace_def c_isdigit_def c_isalpha_def c_isalnum_def c_iscntrl_def is_high_byte_def

text \<open>
  \<open>starts_at s i kw\<close> is \<^verbatim>\<open>strncmp(s + i, kw, strlen(kw)) == 0\<close> for a keyword without NUL bytes.
\<close>

definition starts_at :: "string \<Rightarrow> nat \<Rightarrow> string \<Rightarrow> bool" where
  "starts_at s i kw = (take (length kw) (drop i s) = kw)"

section \<open>The scanning loop\<close>

text \<open>
  \<^verbatim>\<open>while (i < end && P(s[i])) i++;\<close> on a NUL-terminated string: no loop of the code passes the
  terminator.  \<^verbatim>\<open>i + strcspn(s + i, stops)\<close> is the case of a test that refuses the stop bytes.
\<close>

function scan_while :: "(char \<Rightarrow> bool) \<Rightarrow> string \<Rightarrow> nat \<Rightarrow> nat \<Rightarrow> nat" where
  "scan_while P s e i =
     (if i < e \<and> i < length s \<and> P (s ! i) then scan_while P s e (Suc i) else i)"
  by pat_completeness auto
termination
  by (relation "measure (\<lambda>(P, s, e, i). length s - i)") auto

declare scan_while.simps [simp del]

lemma scan_while_ge [scan_bounds, simp]: "i \<le> scan_while P s e i"
proof (induction P s e i rule: scan_while.induct)
  case (1 P s e i)
  then show ?case by (subst scan_while.simps) (auto intro: Suc_leD)
qed

lemma scan_while_le_length [scan_bounds]: "i \<le> length s \<Longrightarrow> scan_while P s e i \<le> length s"
proof (induction P s e i rule: scan_while.induct)
  case (1 P s e i)
  then show ?case by (subst scan_while.simps) auto
qed

lemma scan_while_le_end [scan_bounds]: "i \<le> e \<Longrightarrow> scan_while P s e i \<le> e"
proof (induction P s e i rule: scan_while.induct)
  case (1 P s e i)
  then show ?case by (subst scan_while.simps) auto
qed

lemma scan_while_stop:
  "scan_while P s e i < e \<Longrightarrow> scan_while P s e i < length s \<Longrightarrow> \<not> P (s ! scan_while P s e i)"
proof (induction P s e i rule: scan_while.induct)
  case (1 P s e i)
  show ?case
  proof (cases "i < e \<and> i < length s \<and> P (s ! i)")
    case True
    with 1 show ?thesis by (simp add: scan_while.simps [of P s e i])
  next
    case False
    with 1 show ?thesis by (auto simp: scan_while.simps [of P s e i])
  qed
qed

lemma scan_while_all:
  "i \<le> j \<Longrightarrow> j < scan_while P s e i \<Longrightarrow> j < e \<and> j < length s \<and> P (s ! j)"
proof (induction P s e i rule: scan_while.induct)
  case (1 P s e i)
  show ?case
  proof (cases "i < e \<and> i < length s \<and> P (s ! i)")
    case True
    then have "j = i \<or> Suc i \<le> j" using "1.prems"(1) by auto
    with True 1 show ?thesis by (auto simp: scan_while.simps [of P s e i])
  next
    case False
    with 1 show ?thesis by (auto simp: scan_while.simps [of P s e i])
  qed
qed

lemma scan_while_done: "e \<le> i \<or> length s \<le> i \<or> \<not> P (s ! i) \<Longrightarrow> scan_while P s e i = i"
  by (subst scan_while.simps) auto

lemma scan_while_idem [simp]: "scan_while P s e (scan_while P s e i) = scan_while P s e i"
  by (rule scan_while_done) (meson leI scan_while_stop)

section \<open>Lists\<close>

text \<open>The slice of a list between two positions, as \<^verbatim>\<open>memcpy\<close> of a byte range reads it.\<close>

definition slice :: "'a list \<Rightarrow> nat \<Rightarrow> nat \<Rightarrow> 'a list" where
  "slice xs a b = take (b - a) (drop a xs)"

lemma length_slice [simp]: "b \<le> length xs \<Longrightarrow> length (slice xs a b) = b - a"
  by (simp add: slice_def)

lemma slice_empty [simp]: "b \<le> a \<Longrightarrow> slice xs a b = []"
  by (simp add: slice_def)

lemma nth_slice: "a + i < b \<Longrightarrow> b \<le> length xs \<Longrightarrow> slice xs a b ! i = xs ! (a + i)"
  by (simp add: slice_def)

lemma slice_append:
  "a \<le> b \<Longrightarrow> b \<le> c \<Longrightarrow> slice xs a b @ slice xs b c = slice xs a c"
proof -
  assume "a \<le> b" "b \<le> c"
  then have "take (c - a) (drop a xs)
      = take (b - a) (drop a xs) @ take (c - b) (drop (b - a) (drop a xs))"
    by (metis diff_add_assoc2 le_add_diff_inverse2 take_add add.commute diff_add_inverse2
        ordered_cancel_comm_monoid_diff_class.add_diff_assoc)
  with \<open>a \<le> b\<close> show ?thesis by (simp add: slice_def)
qed

lemma slice_full [simp]: "slice xs 0 (length xs) = xs"
  by (simp add: slice_def)

lemma slice_to_end: "slice xs a (length xs) = drop a xs"
  by (simp add: slice_def)

end
