(* ===== verification/Sql_Dialect.thy ===== *)
theory Sql_Dialect
  imports Sql_Prelude
begin

text \<open>
  The dialect registry (\<^verbatim>\<open>src/dialect/sqlparser_dialect_registry.c\<close>): the public dialect codes, the
  operation table each of them resolves to, and the compatibility families the scanners of the
  core branch on.  An operation table is named by the dialect module that owns it; the tables
  themselves are callbacks.
\<close>

text \<open>\<^verbatim>\<open>sqlparser_dialect_t\<close>\<close>

datatype dialect =
    POSTGRESQL | MYSQL | ORACLE | SQLSERVER | DAMENG
  | VASTBASE_ORACLE | VASTBASE_MYSQL | VASTBASE_POSTGRESQL | VASTBASE_SQLSERVER
  | KINGBASE_ORACLE | KINGBASE_MYSQL | KINGBASE_POSTGRESQL | KINGBASE_SQLSERVER

text \<open>The numbering of the public enumeration; a code outside it is no dialect.\<close>

definition dialect_of_code :: "int \<Rightarrow> dialect option" where
  "dialect_of_code n =
     (if n = 0 then Some POSTGRESQL else if n = 1 then Some MYSQL
      else if n = 2 then Some ORACLE else if n = 3 then Some SQLSERVER
      else if n = 4 then Some DAMENG else if n = 5 then Some VASTBASE_ORACLE
      else if n = 6 then Some VASTBASE_MYSQL else if n = 7 then Some VASTBASE_POSTGRESQL
      else if n = 8 then Some VASTBASE_SQLSERVER else if n = 9 then Some KINGBASE_ORACLE
      else if n = 10 then Some KINGBASE_MYSQL else if n = 11 then Some KINGBASE_POSTGRESQL
      else if n = 12 then Some KINGBASE_SQLSERVER else None)"

text \<open>The tables \<^verbatim>\<open>sqlparser_dialect_*_ops()\<close> return.\<close>

datatype ops_table =
    Postgresql_Ops | Mysql_Ops | Oracle_Ops | Sqlserver_Ops | Dameng_Ops
  | Vastbase_Oracle_Ops | Vastbase_Mysql_Ops | Vastbase_Postgresql_Ops | Vastbase_Sqlserver_Ops
  | Kingbase_Oracle_Ops

text \<open>\<^verbatim>\<open>sqlparser_dialect_get_ops\<close>\<close>

fun dialect_get_ops :: "dialect option \<Rightarrow> ops_table option" where
  "dialect_get_ops (Some POSTGRESQL) = Some Postgresql_Ops"
| "dialect_get_ops (Some MYSQL) = Some Mysql_Ops"
| "dialect_get_ops (Some ORACLE) = Some Oracle_Ops"
| "dialect_get_ops (Some SQLSERVER) = Some Sqlserver_Ops"
| "dialect_get_ops (Some DAMENG) = Some Dameng_Ops"
| "dialect_get_ops (Some VASTBASE_ORACLE) = Some Vastbase_Oracle_Ops"
| "dialect_get_ops (Some VASTBASE_MYSQL) = Some Vastbase_Mysql_Ops"
| "dialect_get_ops (Some VASTBASE_POSTGRESQL) = Some Vastbase_Postgresql_Ops"
| "dialect_get_ops (Some VASTBASE_SQLSERVER) = Some Vastbase_Sqlserver_Ops"
| "dialect_get_ops (Some KINGBASE_ORACLE) = Some Kingbase_Oracle_Ops"
| "dialect_get_ops (Some KINGBASE_MYSQL) = Some Mysql_Ops"
| "dialect_get_ops (Some KINGBASE_POSTGRESQL) = Some Postgresql_Ops"
| "dialect_get_ops (Some KINGBASE_SQLSERVER) = Some Sqlserver_Ops"
| "dialect_get_ops None = None"

definition dialect_is_supported :: "dialect option \<Rightarrow> bool" where
  "dialect_is_supported d = (dialect_get_ops d \<noteq> None)"

text \<open>The validation preprocessors of \<^verbatim>\<open>sqlparser_dialect_validation_preprocessor\<close>.\<close>

datatype validation_proof =
    Dameng_Validation | Sqlserver_Validation | Vastbase_Sqlserver_Validation

definition dialect_validation_preprocessor ::
  "dialect option \<Rightarrow> ops_table option \<Rightarrow> validation_proof option" where
  "dialect_validation_preprocessor d ops =
     (if ops = None \<or> ops \<noteq> dialect_get_ops d then None
      else if d = Some DAMENG \<and> ops = Some Dameng_Ops then Some Dameng_Validation
      else if (d = Some SQLSERVER \<or> d = Some KINGBASE_SQLSERVER) \<and> ops = Some Sqlserver_Ops
      then Some Sqlserver_Validation
      else if d = Some VASTBASE_SQLSERVER \<and> ops = Some Vastbase_Sqlserver_Ops
      then Some Vastbase_Sqlserver_Validation
      else None)"

section \<open>Compatibility families\<close>

definition uses_postgresql_placeholders :: "dialect \<Rightarrow> bool" where
  "uses_postgresql_placeholders d =
     (d = POSTGRESQL \<or> d = VASTBASE_POSTGRESQL \<or> d = KINGBASE_POSTGRESQL)"

definition supports_postgresql_dml_results :: "dialect \<Rightarrow> bool" where
  "supports_postgresql_dml_results d =
     (uses_postgresql_placeholders d \<or> d = KINGBASE_ORACLE)"

definition uses_oracle_placeholders :: "dialect \<Rightarrow> bool" where
  "uses_oracle_placeholders d =
     (d = ORACLE \<or> d = DAMENG \<or> d = VASTBASE_ORACLE \<or> d = KINGBASE_ORACLE)"

definition uses_sqlserver_placeholders :: "dialect \<Rightarrow> bool" where
  "uses_sqlserver_placeholders d =
     (d = SQLSERVER \<or> d = VASTBASE_SQLSERVER \<or> d = KINGBASE_SQLSERVER)"

definition is_oracle_compatible :: "dialect \<Rightarrow> bool" where
  "is_oracle_compatible d = (d = ORACLE \<or> d = VASTBASE_ORACLE \<or> d = KINGBASE_ORACLE)"

definition is_oracle_or_dameng_compatible :: "dialect \<Rightarrow> bool" where
  "is_oracle_or_dameng_compatible d = (is_oracle_compatible d \<or> d = DAMENG)"

definition is_mysql_compatible :: "dialect \<Rightarrow> bool" where
  "is_mysql_compatible d = (d = MYSQL \<or> d = VASTBASE_MYSQL \<or> d = KINGBASE_MYSQL)"

definition is_sqlserver_compatible :: "dialect \<Rightarrow> bool" where
  "is_sqlserver_compatible d =
     (d = SQLSERVER \<or> d = VASTBASE_SQLSERVER \<or> d = KINGBASE_SQLSERVER)"

lemmas dialect_family_defs =
  uses_postgresql_placeholders_def supports_postgresql_dml_results_def
  uses_oracle_placeholders_def uses_sqlserver_placeholders_def is_oracle_compatible_def
  is_oracle_or_dameng_compatible_def is_mysql_compatible_def is_sqlserver_compatible_def

text \<open>
  Every dialect of the public enumeration resolves to an operation table and belongs to
  exactly one lexical family: PostgreSQL, Oracle or Dameng, MySQL, or SQL Server.  The scanners
  branch on these families, so no byte opens a quote of two families at once and none is left
  without a family.
\<close>

lemma dialect_has_one_family:
  "dialect_is_supported (Some d) \<and>
   length (filter id [uses_postgresql_placeholders d, is_oracle_or_dameng_compatible d,
     is_mysql_compatible d, is_sqlserver_compatible d]) = 1"
  by (cases d) (simp_all add: dialect_is_supported_def dialect_family_defs)

text \<open>
  A validation preprocessor is only handed out for the exact table registered for the dialect.
\<close>

lemma validation_preprocessor_exact_owner:
  "dialect_validation_preprocessor d ops = Some p \<Longrightarrow>
     ops = dialect_get_ops d \<and> dialect_is_supported d"
  by (auto simp: dialect_validation_preprocessor_def dialect_is_supported_def split: if_splits)

end
