(* ===== verification/Splice.thy ===== *)
theory Splice
  imports Sql_Prelude
begin

text \<open>
  The abstract side of every text rewrite of the core: a list of replacements \<open>(a, b, t)\<close> (bytes
  \<open>a..b\<close> become \<open>t\<close>) in source order, the text it produces, and where an untouched byte of the old
  text lands.  The rewriters of \<^verbatim>\<open>sqlparser_surface.c\<close> and the coordinate rebasing of
  \<^verbatim>\<open>sqlparser_ast_rebase.c\<close> are proved against it.
\<close>

type_synonym replacement_edit = "nat \<times> nat \<times> string"

text \<open>Replacements in order, inside the bytes \<open>c..n\<close>.\<close>

fun edits_in :: "nat \<Rightarrow> nat \<Rightarrow> replacement_edit list \<Rightarrow> bool" where
  "edits_in c n [] = (c \<le> n)"
| "edits_in c n ((a, b, t) # es) = (c \<le> a \<and> a \<le> b \<and> b \<le> n \<and> edits_in b n es)"

text \<open>The text from old position \<open>c\<close> on, with the replacements made.\<close>

fun splice :: "string \<Rightarrow> nat \<Rightarrow> replacement_edit list \<Rightarrow> string" where
  "splice s c [] = drop c s"
| "splice s c ((a, b, t) # es) = slice s c a @ t @ splice s b es"

definition removed_total :: "replacement_edit list \<Rightarrow> nat" where
  "removed_total es = (\<Sum>(a, b, t) \<leftarrow> es. b - a)"

definition added_total :: "replacement_edit list \<Rightarrow> nat" where
  "added_total es = (\<Sum>(a, b, t) \<leftarrow> es. length t)"

lemma totals_Nil [simp]: "removed_total [] = 0" "added_total [] = 0"
  by (simp_all add: removed_total_def added_total_def)

lemma totals_Cons [simp]:
  "removed_total ((a, b, t) # es) = (b - a) + removed_total es"
  "added_total ((a, b, t) # es) = length t + added_total es"
  by (simp_all add: removed_total_def added_total_def)

lemma edits_in_le: "edits_in c n es \<Longrightarrow> c \<le> n"
  by (induction c n es rule: edits_in.induct) auto

lemma removed_total_le: "edits_in c n es \<Longrightarrow> removed_total es \<le> n - c"
proof (induction c n es rule: edits_in.induct)
  case (2 c n a b t es)
  then have "removed_total es \<le> n - b" by simp
  with 2 show ?case by auto
qed simp

lemma length_splice:
  "edits_in c (length s) es \<Longrightarrow>
     length (splice s c es) = length s - c - removed_total es + added_total es"
proof (induction s c es rule: splice.induct)
  case (2 s c a b t es)
  then have "edits_in b (length s) es" and ab: "c \<le> a" "a \<le> b" "b \<le> length s" by auto
  then have "length (splice s b es) = length s - b - removed_total es + added_total es"
    and "removed_total es \<le> length s - b"
    using "2.IH" removed_total_le by auto
  with ab show ?case by auto
qed simp

text \<open>
  Where position \<open>p\<close> of the old text lands when \<open>c\<close> has been written up to \<open>w\<close>.  The start of a
  replaced range keeps its place before the replacement, its end moves behind it, and an inner
  position has no image.
\<close>

fun moved :: "nat \<Rightarrow> nat \<Rightarrow> replacement_edit list \<Rightarrow> nat \<Rightarrow> nat option" where
  "moved c w [] p = Some (w + (p - c))"
| "moved c w ((a, b, t) # es) p =
     (if p \<le> a then Some (w + (p - c))
      else if p < b then None
      else moved b (w + (a - c) + length t) es p)"

text \<open>The positions in no replaced range; an insertion point counts as touched.\<close>

definition untouched :: "replacement_edit list \<Rightarrow> nat \<Rightarrow> bool" where
  "untouched es p = (\<forall>(a, b, t) \<in> set es. p < a \<or> (a < p \<and> b \<le> p))"

lemma untouched_Cons [simp]:
  "untouched ((a, b, t) # es) p = ((p < a \<or> (a < p \<and> b \<le> p)) \<and> untouched es p)"
  by (simp add: untouched_def)

lemma untouched_Nil [simp]: "untouched [] p"
  by (simp add: untouched_def)

lemma moved_ge: "moved c w es p = Some q \<Longrightarrow> w \<le> q"
  by (induction c w es p rule: moved.induct) (auto split: if_splits)

lemma moved_Some:
  "edits_in c n es \<Longrightarrow> untouched es p \<Longrightarrow> c \<le> p \<Longrightarrow> \<exists>q. moved c w es p = Some q"
  by (induction c w es p rule: moved.induct) auto

text \<open>An untouched byte is found at its image.\<close>

lemma nth_splice_moved:
  "edits_in c (length s) es \<Longrightarrow> untouched es p \<Longrightarrow> c \<le> p \<Longrightarrow> p < length s \<Longrightarrow>
   moved c w es p = Some q \<Longrightarrow> w \<le> q \<and> q - w < length (splice s c es)
     \<and> splice s c es ! (q - w) = s ! p"
proof (induction c w es p arbitrary: q rule: moved.induct)
  case (1 c w p)
  then show ?case by auto
next
  case (2 c w a b t es p)
  have ab: "c \<le> a" "a \<le> b" "b \<le> length s" "edits_in b (length s) es" using "2.prems" by auto
  show ?case
  proof (cases "p \<le> a")
    case True
    with "2.prems" have "p < a" by auto
    with "2.prems" ab show ?thesis by (auto simp: nth_append nth_slice)
  next
    case False
    with "2.prems" have p: "b \<le> p" "moved b (w + (a - c) + length t) es p = Some q" by auto
    then have IH: "w + (a - c) + length t \<le> q"
      "q - (w + (a - c) + length t) < length (splice s b es)"
      "splice s b es ! (q - (w + (a - c) + length t)) = s ! p"
      using "2.IH" False "2.prems" ab by auto
    have "q - w = (a - c) + length t + (q - (w + (a - c) + length t))" using IH(1) by simp
    with IH ab show ?thesis by (auto simp: nth_append)
  qed
qed

lemma moved_le:
  "edits_in c n es \<Longrightarrow> moved c w es p = Some q \<Longrightarrow> c \<le> p \<Longrightarrow> p \<le> n \<Longrightarrow>
     q \<le> w + (n - c) - removed_total es + added_total es"
proof (induction c w es p rule: moved.induct)
  case (2 c w a b t es p)
  have ab: "c \<le> a" "a \<le> b" "b \<le> n" "edits_in b n es" using "2.prems" by auto
  then have rem: "removed_total es \<le> n - b" by (simp add: removed_total_le)
  show ?case
  proof (cases "p \<le> a")
    case True
    with "2.prems" ab rem show ?thesis by auto
  next
    case False
    with "2.prems" have "b \<le> p" "moved b (w + (a - c) + length t) es p = Some q"
      by (auto split: if_splits)
    with "2.IH" False "2.prems" ab
    have "q \<le> w + (a - c) + length t + (n - b) - removed_total es + added_total es" by auto
    with ab rem show ?thesis by auto
  qed
qed auto

lemma moved_mono:
  "edits_in c n es \<Longrightarrow> c \<le> p \<Longrightarrow> p \<le> p' \<Longrightarrow> moved c w es p = Some q \<Longrightarrow>
     moved c w es p' = Some q' \<Longrightarrow> q \<le> q' \<and> (p < p' \<and> untouched es p \<longrightarrow> q < q')"
proof (induction c w es p rule: moved.induct)
  case (2 c w a b t es p)
  have ab: "c \<le> a" "a \<le> b" "edits_in b n es" using "2.prems" by auto
  show ?case
  proof (cases "p \<le> a")
    case True
    have "q' \<ge> w + (a - c) + length t" if "\<not> p' \<le> a"
      using that "2.prems" by (auto dest: moved_ge split: if_splits)
    with True "2.prems" ab show ?thesis by (cases "p' \<le> a") auto
  next
    case False
    with "2.prems" have "b \<le> p" "moved b (w + (a - c) + length t) es p = Some q"
      "moved b (w + (a - c) + length t) es p' = Some q'" by (auto split: if_splits)
    with "2.IH" False "2.prems" ab show ?thesis by auto
  qed
qed auto

lemma moved_end:
  "edits_in c n es \<Longrightarrow> list_all (\<lambda>(a, b, t). a < b) es \<Longrightarrow>
     moved c w es n = Some (w + (n - c) - removed_total es + added_total es)"
proof (induction es arbitrary: c w)
  case (Cons e es)
  obtain a b t where e: "e = (a, b, t)" by (cases e)
  with Cons.prems have ab: "c \<le> a" "a < b" "b \<le> n" "edits_in b n es" by auto
  then have "removed_total es \<le> n - b" by (simp add: removed_total_le)
  with Cons e ab show ?case by auto
qed simp

end
