(* ===== verification/Source_Edits.thy ===== *)
theory Source_Edits
  imports Splice
begin

text \<open>
  The ordered list of source edits a patched handle carries (\<^verbatim>\<open>sqlparser_surface_source_edits_*\<close>
  in \<^verbatim>\<open>src/core/sqlparser_surface.c\<close>) and the text it restores.  The list keeps its edits in
  source order, apart from each other, and refuses an edit that touches one it already has;
  restoring copies the source around the replacements under the output limit.
\<close>

section \<open>State and operations\<close>

text \<open>\<^verbatim>\<open>sqlparser_surface_source_edit_t\<close>; \<open>None\<close> is a NULL replacement.\<close>

record source_edit =
  source_start :: nat
  source_end :: nat
  replacement :: "string option"
  replacement_length :: nat

text \<open>
  \<^verbatim>\<open>sqlparser_surface_source_edits_t\<close>: \<^verbatim>\<open>count\<close> is the length of the list, and \<^verbatim>\<open>items\<close> is NULL
  exactly when the capacity is 0.
\<close>

record source_edits =
  edit_items :: "source_edit list"
  edit_capacity :: nat

definition no_edits :: source_edits where
  "no_edits = \<lparr>edit_items = [], edit_capacity = 0\<rparr>"

text \<open>\<^verbatim>\<open>sizeof(sqlparser_surface_source_edit_t)\<close>: two sizes, a pointer, a size.\<close>

definition sizeof_edit :: nat where "sizeof_edit = 32"

text \<open>\<^verbatim>\<open>sqlparser_surface_source_edits_release\<close>\<close>

definition source_edits_release :: "source_edits option \<Rightarrow> source_edits option" where
  "source_edits_release edits = map_option (\<lambda>_. no_edits) edits"

text \<open>
  The copy loop of \<^verbatim>\<open>sqlparser_surface_source_edits_clone\<close>; allocation \<open>Suc i\<close> of the call copies
  replacement \<open>i\<close>.  A failed element releases the copy.
\<close>

fun clone_items :: "allocator \<Rightarrow> nat \<Rightarrow> source_edit list \<Rightarrow> sql_error + source_edit list" where
  "clone_items alloc i [] = Inr []"
| "clone_items alloc i (e # es) =
     (case replacement e of
        None \<Rightarrow> fail INTERNAL_ERROR ''source edit list is invalid''
      | Some t \<Rightarrow>
          if replacement_length e = SIZE_MAX
          then fail INTERNAL_ERROR ''source edit list is invalid''
          else if \<not> alloc (Suc i) (replacement_length e + 1)
          then fail NO_MEMORY ''out of memory''
          else (case clone_items alloc (Suc i) es of
                  Inl err \<Rightarrow> Inl err
                | Inr rest \<Rightarrow>
                    Inr (e\<lparr>replacement := Some (take (replacement_length e) t)\<rparr> # rest)))"

definition source_edits_clone ::
  "allocator \<Rightarrow> source_edits option \<Rightarrow> bool \<Rightarrow> sql_error + source_edits" where
  "source_edits_clone alloc source out_present =
     (case source of
        None \<Rightarrow> fail INVALID_ARGUMENT ''source edit arguments must not be NULL''
      | Some src \<Rightarrow>
          if \<not> out_present
          then fail INVALID_ARGUMENT ''source edit arguments must not be NULL''
          else if edit_items src = [] then Inr no_edits
          else if edit_capacity src = 0 \<or> length (edit_items src) > SIZE_MAX div sizeof_edit
          then fail INTERNAL_ERROR ''source edit list is invalid''
          else if \<not> alloc 0 (length (edit_items src) * sizeof_edit)
          then fail NO_MEMORY ''out of memory''
          else (case clone_items alloc 0 (edit_items src) of
                  Inl err \<Rightarrow> Inl err
                | Inr its \<Rightarrow>
                    Inr \<lparr>edit_items = its, edit_capacity = length (edit_items src)\<rparr>))"

text \<open>\<^verbatim>\<open>sqlparser_surface_source_edits_overlap\<close>\<close>

definition source_edits_overlap :: "source_edit \<Rightarrow> nat \<Rightarrow> nat \<Rightarrow> bool" where
  "source_edits_overlap left right_start right_end =
     (if source_start left = source_end left
      then right_start \<le> source_start left \<and> source_start left \<le> right_end
      else if right_start = right_end
      then source_start left \<le> right_start \<and> right_start \<le> source_end left
      else source_start left < right_end \<and> right_start < source_end left)"

text \<open>The insertion point: behind the last edit when it starts earlier, else the first that does not.\<close>

definition insert_index :: "source_edit list \<Rightarrow> nat \<Rightarrow> nat" where
  "insert_index items start =
     (if items \<noteq> [] \<and> source_start (last items) < start then length items
      else length (takeWhile (\<lambda>e. source_start e < start) items))"

text \<open>The growth step of the insertion: \<open>None\<close> is the out-of-memory exit.\<close>

definition grow_edits :: "allocator \<Rightarrow> source_edits \<Rightarrow> nat option" where
  "grow_edits alloc edits =
     (if length (edit_items edits) \<noteq> edit_capacity edits then Some (edit_capacity edits)
      else let capacity = (if edit_capacity edits = 0 then 4
                           else wrap_size (edit_capacity edits * 2))
        in if capacity < edit_capacity edits \<or> capacity > SIZE_MAX div sizeof_edit then None
           else if alloc 1 (capacity * sizeof_edit) then Some capacity else None)"

text \<open>
  \<^verbatim>\<open>sqlparser_surface_source_edits_insert_internal\<close>.  The result is the list after the call and
  \<^verbatim>\<open>*out_supported\<close>; on an error the list is as before and \<^verbatim>\<open>*out_supported\<close> is 0.  With \<open>owned\<close> the
  caller's buffer is taken over (no copy is allocated), and it is consumed exactly when the edit
  is supported.
\<close>

definition source_edits_insert_internal ::
  "allocator \<Rightarrow> source_edits option \<Rightarrow> nat \<Rightarrow> nat \<Rightarrow> string option \<Rightarrow> nat \<Rightarrow> bool \<Rightarrow> bool
     \<Rightarrow> sql_error + source_edits \<times> bool" where
  "source_edits_insert_internal alloc edits start fin text text_length owned out_present =
     (case (edits, text) of
        (Some es, Some t) \<Rightarrow>
          if \<not> out_present \<or> start > fin \<or> text_length = SIZE_MAX
          then fail INVALID_ARGUMENT ''source edit arguments are invalid''
          else
            let items = edit_items es; index = insert_index items start
            in if (index > 0 \<and> source_edits_overlap (items ! (index - 1)) start fin) \<or>
                  (index < length items \<and> source_edits_overlap (items ! index) start fin)
               then Inr (es, False)
               else if \<not> owned \<and> \<not> alloc 0 (text_length + 1)
               then fail NO_MEMORY ''out of memory''
               else (case grow_edits alloc es of
                       None \<Rightarrow> fail NO_MEMORY ''out of memory''
                     | Some capacity \<Rightarrow>
                         let new = \<lparr>source_start = start, source_end = fin,
                               replacement = Some (if owned then t else take text_length t),
                               replacement_length = text_length\<rparr>
                         in Inr (\<lparr>edit_items = take index items @ new # drop index items,
                               edit_capacity = capacity\<rparr>, True))
      | _ \<Rightarrow> fail INVALID_ARGUMENT ''source edit arguments are invalid'')"

definition source_edits_insert ::
  "allocator \<Rightarrow> source_edits option \<Rightarrow> nat \<Rightarrow> nat \<Rightarrow> string option \<Rightarrow> nat \<Rightarrow> bool
     \<Rightarrow> sql_error + source_edits \<times> bool" where
  "source_edits_insert alloc edits start fin text text_length out_present =
     source_edits_insert_internal alloc edits start fin text text_length False out_present"

text \<open>
  \<^verbatim>\<open>sqlparser_surface_source_edits_insert_owned\<close>: \<open>text\<close> is \<^verbatim>\<open>*replacement\<close> (the outer \<open>None\<close> a NULL
  \<^verbatim>\<open>replacement\<close>); the second component of the result is \<^verbatim>\<open>*replacement\<close> after the call.
\<close>

definition source_edits_insert_owned ::
  "allocator \<Rightarrow> source_edits option \<Rightarrow> nat \<Rightarrow> nat \<Rightarrow> string option option \<Rightarrow> nat \<Rightarrow> bool
     \<Rightarrow> (sql_error + source_edits \<times> bool) \<times> string option option" where
  "source_edits_insert_owned alloc edits start fin text text_length out_present =
     (let r = source_edits_insert_internal alloc edits start fin (Option.bind text id)
                text_length True out_present
      in (r, case r of Inr (_, True) \<Rightarrow> map_option (\<lambda>_. None) text | _ \<Rightarrow> text))"

section \<open>Restoring the source text\<close>

text \<open>
  The measuring loop of \<^verbatim>\<open>sqlparser_surface_restore_source_edits\<close>: it carries \<^verbatim>\<open>final_length\<close> and
  \<^verbatim>\<open>source_cursor\<close> over the edits and checks each of them and the limit.
\<close>

fun measure_edits :: "nat \<Rightarrow> nat \<Rightarrow> nat \<Rightarrow> nat \<Rightarrow> source_edit list \<Rightarrow> sql_error + nat" where
  "measure_edits sql_len limit final_length cursor [] = Inr final_length"
| "measure_edits sql_len limit final_length cursor (e # es) =
     (if replacement e = None \<or> source_start e < cursor \<or> source_end e < source_start e
         \<or> source_end e > sql_len
      then fail INTERNAL_ERROR ''source edit interval is invalid''
      else
        let removed = source_end e - source_start e
        in if removed > final_length
           then fail INTERNAL_ERROR ''source edit interval is invalid''
           else if replacement_length e > limit - (final_length - removed)
           then fail RESOURCE_LIMIT ''deparse output exceeds configured byte limit''
           else measure_edits sql_len limit (final_length - removed + replacement_length e)
                  (source_end e) es)"

text \<open>The copying loop, with the copy of the tail behind the last edit.\<close>

fun write_edits :: "string \<Rightarrow> nat \<Rightarrow> nat \<Rightarrow> source_edit list \<Rightarrow> string" where
  "write_edits sql sql_len cursor [] =
     (if cursor < sql_len then slice sql cursor sql_len else [])"
| "write_edits sql sql_len cursor (e # es) =
     slice sql cursor (source_start e) @ take (replacement_length e) (the (replacement e))
       @ write_edits sql sql_len (source_end e) es"

definition restore_source_edits ::
  "allocator \<Rightarrow> string \<Rightarrow> nat \<Rightarrow> nat \<Rightarrow> source_edits \<Rightarrow> sql_error + string" where
  "restore_source_edits alloc sql sql_len limit edits =
     (if sql_len > limit
      then fail RESOURCE_LIMIT ''deparse output exceeds configured byte limit''
      else case measure_edits sql_len limit sql_len 0 (edit_items edits) of
        Inl err \<Rightarrow> Inl err
      | Inr final_length \<Rightarrow>
          if final_length > limit \<or> final_length = SIZE_MAX
          then fail RESOURCE_LIMIT ''deparse output exceeds configured byte limit''
          else if \<not> alloc 0 (final_length + 1) then fail NO_MEMORY ''out of memory''
          else
            let output = write_edits sql sql_len 0 (edit_items edits)
            in if length output \<noteq> final_length
               then fail INTERNAL_ERROR ''source edit output length is invalid''
               else Inr output)"

section \<open>The order of the edits\<close>

text \<open>
  Two edits stand apart when the first ends before the second starts; an insertion (an empty range)
  may not even touch the other edit.
\<close>

definition apart :: "source_edit \<Rightarrow> source_edit \<Rightarrow> bool" where
  "apart e f = (source_end e \<le> source_start f \<and>
     (source_start e = source_end e \<or> source_start f = source_end f
        \<longrightarrow> source_end e < source_start f))"

definition edit_wf :: "source_edit \<Rightarrow> bool" where
  "edit_wf e = (source_start e \<le> source_end e \<and> replacement_length e < SIZE_MAX \<and>
     (case replacement e of None \<Rightarrow> False | Some t \<Rightarrow> length t = replacement_length e))"

definition edits_inv :: "source_edits \<Rightarrow> bool" where
  "edits_inv es = (sorted_wrt apart (edit_items es) \<and> list_all edit_wf (edit_items es) \<and>
     length (edit_items es) \<le> edit_capacity es \<and> edit_capacity es \<le> SIZE_MAX div sizeof_edit)"

definition edit_view :: "source_edit \<Rightarrow> replacement_edit" where
  "edit_view e = (source_start e, source_end e, the (replacement e))"

lemma edit_wf_le: "edit_wf e \<Longrightarrow> source_start e \<le> source_end e"
  by (simp add: edit_wf_def)

lemma apart_start_less: "edit_wf e \<Longrightarrow> apart e f \<Longrightarrow> source_start e < source_start f"
  by (auto simp: apart_def edit_wf_def)

lemma apart_trans: "edit_wf e \<Longrightarrow> edit_wf f \<Longrightarrow> apart e f \<Longrightarrow> apart f g \<Longrightarrow> apart e g"
  using apart_start_less [of f g] by (auto simp: apart_def edit_wf_def)

lemma overlap_iff_not_apart:
  assumes "edit_wf e" "source_start n \<le> source_end n"
  shows "source_edits_overlap e (source_start n) (source_end n) = (\<not> (apart e n \<or> apart n e))"
proof -
  have "source_start e \<le> source_end e" using assms by (simp add: edit_wf_def)
  with assms(2) show ?thesis by (simp add: source_edits_overlap_def apart_def) linarith
qed

lemma not_overlap_apart:
  assumes "edit_wf e" "source_start n \<le> source_end n"
    "\<not> source_edits_overlap e (source_start n) (source_end n)"
  shows "source_start e < source_start n \<Longrightarrow> apart e n"
    and "\<not> source_start e < source_start n \<Longrightarrow> apart n e"
proof -
  have "source_start e \<le> source_end e" using assms by (simp add: edit_wf_def)
  with assms(2,3) show "source_start e < source_start n \<Longrightarrow> apart e n"
    and "\<not> source_start e < source_start n \<Longrightarrow> apart n e"
    by (auto simp: source_edits_overlap_def apart_def split: if_splits)
qed

lemma edits_inv_no_edits: "edits_inv no_edits"
  by (simp add: edits_inv_def no_edits_def)

text \<open>Both branches of the search find the same place.\<close>

lemma insert_index_takeWhile:
  assumes "sorted_wrt apart items" "list_all edit_wf items"
  shows "insert_index items s = length (takeWhile (\<lambda>e. source_start e < s) items)"
proof (cases "items \<noteq> [] \<and> source_start (last items) < s")
  case True
  then obtain pre l where items: "items = pre @ [l]" and l: "source_start l < s"
    by (metis append_butlast_last_id)
  have "source_start e < s" if "e \<in> set items" for e
  proof -
    from that items assms have "e = l \<or> source_start e < source_start l"
      by (auto simp: sorted_wrt_append list_all_iff dest: apart_start_less)
    with l show ?thesis by auto
  qed
  then have "takeWhile (\<lambda>e. source_start e < s) items = items"
    by (simp add: takeWhile_eq_all_conv)
  with True show ?thesis unfolding insert_index_def by metis
next
  case False
  then show ?thesis by (auto simp: insert_index_def)
qed

lemma sorted_insert_between:
  assumes srt: "sorted_wrt apart (L @ R)" and wf: "list_all edit_wf (L @ R)" and n: "edit_wf n"
    and l: "L \<noteq> [] \<Longrightarrow> apart (last L) n" and r: "R \<noteq> [] \<Longrightarrow> apart n (hd R)"
  shows "sorted_wrt apart (L @ n # R)"
proof -
  have L: "apart e n" if "e \<in> set L" for e
  proof -
    from that obtain pre k where k: "L = pre @ [k]" by (cases L rule: rev_cases) auto
    then have "e = k \<or> apart e k" using that srt by (auto simp: sorted_wrt_append)
    moreover have "apart k n" using l k by simp
    moreover have "edit_wf e" "edit_wf k" using k that wf by (auto simp: list_all_iff)
    ultimately show ?thesis using apart_trans by blast
  qed
  have R: "apart n e" if "e \<in> set R" for e
  proof -
    from that obtain h t where h: "R = h # t" by (cases R) auto
    then have "e = h \<or> apart h e" using that srt by (auto simp: sorted_wrt_append)
    moreover have "apart n h" using r h by simp
    moreover have "edit_wf h" using h wf by (auto simp: list_all_iff)
    ultimately show ?thesis using n apart_trans by blast
  qed
  show ?thesis using srt L R by (auto simp: sorted_wrt_append)
qed

text \<open>The neighbours decide: an edit that stands apart from both stands apart from all.\<close>

lemma neighbours_decide:
  assumes srt: "sorted_wrt apart items" and wf: "list_all edit_wf items"
    and n: "source_start n \<le> source_end n" "edit_wf n"
    and index: "index = insert_index items (source_start n)"
  shows "((index > 0 \<and> source_edits_overlap (items ! (index - 1)) (source_start n) (source_end n))
     \<or> (index < length items \<and>
          source_edits_overlap (items ! index) (source_start n) (source_end n)))
     \<longleftrightarrow> (\<exists>e \<in> set items. source_edits_overlap e (source_start n) (source_end n))"
    (is "?near \<longleftrightarrow> ?any")
    and "\<not> (\<exists>e \<in> set items. source_edits_overlap e (source_start n) (source_end n)) \<Longrightarrow>
      sorted_wrt apart (take index items @ n # drop index items)"
proof -
  let ?P = "\<lambda>e. source_start e < source_start n"
  define L where "L = takeWhile ?P items"
  define R where "R = dropWhile ?P items"
  have items: "items = L @ R" by (simp add: L_def R_def)
  have idx: "index = length L"
    unfolding index L_def by (rule insert_index_takeWhile [OF srt wf])
  have Lt: "?P e" if "e \<in> set L" for e using that by (auto simp: L_def dest: set_takeWhileD)
  have Rt: "\<not> ?P (hd R)" if "R \<noteq> []"
    using that hd_dropWhile [of ?P items] unfolding R_def by (metis dropWhile_eq_Nil_conv)
  have near: "sorted_wrt apart (L @ n # R)" if "\<not> ?near"
  proof (rule sorted_insert_between)
    show "sorted_wrt apart (L @ R)" "list_all edit_wf (L @ R)" using srt wf items by simp_all
    show "edit_wf n" by (rule n)
    show "apart (last L) n" if "L \<noteq> []"
      using \<open>\<not> ?near\<close> that idx items wf n Lt
      by (intro not_overlap_apart) (auto simp: nth_append last_conv_nth list_all_iff)
    show "apart n (hd R)" if "R \<noteq> []"
      using \<open>\<not> ?near\<close> that idx items wf n Rt
      by (intro not_overlap_apart) (auto simp: nth_append hd_conv_nth list_all_iff)
  qed
  have "\<not> ?any" if "\<not> ?near"
  proof -
    have "apart e n \<or> apart n e" if "e \<in> set items" for e
      using near [OF \<open>\<not> ?near\<close>] that items by (auto simp: sorted_wrt_append)
    then show ?thesis using wf n by (auto simp: overlap_iff_not_apart list_all_iff)
  qed
  moreover have "?any" if "?near"
    using that idx by (metis less_imp_diff_less nth_mem diff_less less_le_trans items
        length_append le_add1 zero_less_one)
  ultimately show iff: "?near \<longleftrightarrow> ?any" by blast
  show "sorted_wrt apart (take index items @ n # drop index items)" if "\<not> ?any"
    using near that iff idx items by auto
qed

section \<open>Insertion\<close>

lemma grow_edits_Some:
  assumes "edits_inv es" "grow_edits alloc es = Some c"
  shows "length (edit_items es) < c \<and> c \<le> SIZE_MAX div sizeof_edit"
proof -
  have "edit_capacity es \<le> SIZE_MAX div sizeof_edit" using assms(1) by (simp add: edits_inv_def)
  then have wrap: "wrap_size (edit_capacity es * 2) = edit_capacity es * 2"
    by (intro wrap_size_id) (simp add: SIZE_MAX_def sizeof_edit_def)
  show ?thesis using assms unfolding grow_edits_def Let_def wrap
    by (auto simp: edits_inv_def SIZE_MAX_def sizeof_edit_def split: if_splits)
qed

text \<open>The three exits of a call with valid arguments.\<close>

lemma source_edits_insert_internal_cases:
  assumes "source_edits_insert_internal alloc (Some es) s f (Some t) n owned True = r"
    and "s \<le> f" "n < SIZE_MAX"
  defines "items \<equiv> edit_items es" and "index \<equiv> insert_index (edit_items es) s"
    and "new \<equiv> \<lparr>source_start = s, source_end = f,
            replacement = Some (if owned then t else take n t), replacement_length = n\<rparr>"
  obtains
    (unsupported) "r = Inr (es, False)"
      "(index > 0 \<and> source_edits_overlap (items ! (index - 1)) s f)
         \<or> (index < length items \<and> source_edits_overlap (items ! index) s f)"
  | (no_memory) "r = fail NO_MEMORY ''out of memory''"
      "(\<not> owned \<and> \<not> alloc 0 (n + 1)) \<or> grow_edits alloc es = None"
  | (inserted) c where "grow_edits alloc es = Some c"
      "\<not> ((index > 0 \<and> source_edits_overlap (items ! (index - 1)) s f)
         \<or> (index < length items \<and> source_edits_overlap (items ! index) s f))"
      "r = Inr (\<lparr>edit_items = take index items @ new # drop index items, edit_capacity = c\<rparr>, True)"
  using assms by (auto simp: source_edits_insert_internal_def Let_def split: if_splits option.splits)

lemma edits_wf_new:
  "s \<le> f \<Longrightarrow> n < SIZE_MAX \<Longrightarrow> n \<le> length t \<Longrightarrow> (owned \<longrightarrow> length t = n) \<Longrightarrow>
   edit_wf \<lparr>source_start = s, source_end = f,
      replacement = Some (if owned then t else take n t), replacement_length = n\<rparr>"
  by (simp add: edit_wf_def)

lemma insert_internal_spec:
  assumes "edits_inv es" "n \<le> length t" "owned \<longrightarrow> length t = n"
    and "n \<le> SIZE_MAX" "source_edits_insert_internal alloc (Some es) s f (Some t) n owned True
           = Inr (es', supported)"
  shows "edits_inv es' \<and>
    supported = (\<not> (\<exists>e \<in> set (edit_items es). source_edits_overlap e s f)) \<and>
    (if supported
     then set (edit_items es') = insert \<lparr>source_start = s, source_end = f,
            replacement = Some (take n t), replacement_length = n\<rparr> (set (edit_items es))
     else es' = es)"
proof -
  let ?new = "\<lparr>source_start = s, source_end = f,
      replacement = Some (if owned then t else take n t), replacement_length = n\<rparr>"
  let ?index = "insert_index (edit_items es) s"
  have args: "s \<le> f" "n < SIZE_MAX"
    using assms(4,5) by (auto simp: source_edits_insert_internal_def split: if_splits)
  then have wf: "edit_wf ?new" using assms(2,3) by (rule edits_wf_new)
  have inv: "sorted_wrt apart (edit_items es)" "list_all edit_wf (edit_items es)"
    using assms(1) by (auto simp: edits_inv_def)
  note nb = neighbours_decide [OF inv, of ?new, simplified, OF args(1) _ refl]
  have copied: "(if owned then t else take n t) = take n t" using assms(3) by auto
  show ?thesis
  proof (rule source_edits_insert_internal_cases [OF assms(5) args])
    fix c assume c: "grow_edits alloc es = Some c"
      and apart: "\<not> ((?index > 0 \<and> source_edits_overlap (edit_items es ! (?index - 1)) s f)
         \<or> (?index < length (edit_items es) \<and> source_edits_overlap (edit_items es ! ?index) s f))"
      and r: "Inr (es', supported) = (Inr (\<lparr>edit_items = take ?index (edit_items es) @ ?new #
            drop ?index (edit_items es), edit_capacity = c\<rparr>, True) :: sql_error + _)"
    have "\<not> (\<exists>e \<in> set (edit_items es). source_edits_overlap e s f)"
      and "sorted_wrt apart (take ?index (edit_items es) @ ?new # drop ?index (edit_items es))"
      using nb wf apart by auto
    moreover have "set (take ?index (edit_items es)) \<union> set (drop ?index (edit_items es))
        = set (edit_items es)"
      by (metis append_take_drop_id set_append)
    moreover have "list_all edit_wf (take ?index (edit_items es) @ ?new # drop ?index (edit_items es))"
      using inv(2) wf by (auto simp: list_all_iff dest: in_set_takeD in_set_dropD)
    moreover have "length (take ?index (edit_items es) @ ?new # drop ?index (edit_items es)) \<le> c"
      using grow_edits_Some [OF assms(1) c] by (auto simp: min_def)
    ultimately show ?thesis
      using r grow_edits_Some [OF assms(1) c] copied by (auto simp: edits_inv_def)
  next
    assume "Inr (es', supported) = (Inr (es, False) :: sql_error + _)"
      and "(?index > 0 \<and> source_edits_overlap (edit_items es ! (?index - 1)) s f)
         \<or> (?index < length (edit_items es) \<and> source_edits_overlap (edit_items es ! ?index) s f)"
    then show ?thesis using nb wf assms(1) by auto
  qed auto
qed

text \<open>The same set of edits is the same list: the starts grow strictly.\<close>

lemma apart_list_unique:
  "sorted_wrt apart xs \<Longrightarrow> sorted_wrt apart ys \<Longrightarrow> list_all edit_wf xs \<Longrightarrow> list_all edit_wf ys \<Longrightarrow>
     set xs = set ys \<Longrightarrow> xs = ys"
proof (induction xs arbitrary: ys)
  case Nil
  then show ?case by simp
next
  case (Cons x xs)
  then obtain y ys' where ys: "ys = y # ys'" by (cases ys) auto
  have later: "source_start x < source_start z" if "z \<in> set xs" for z
    using Cons.prems that by (auto dest: apart_start_less)
  have later': "source_start y < source_start z" if "z \<in> set ys'" for z
    using Cons.prems that ys by (auto dest: apart_start_less)
  have "x = y"
  proof (rule ccontr)
    assume "x \<noteq> y"
    then have "x \<in> set ys'" "y \<in> set xs" using Cons.prems ys by auto
    with later later' show False by fastforce
  qed
  moreover have "x \<notin> set xs" "y \<notin> set ys'" using later later' by auto
  then have "set xs = set ys'" using Cons.prems ys \<open>x = y\<close> by auto
  then have "xs = ys'" using Cons ys by auto
  ultimately show ?case using ys by simp
qed

text \<open>
  C11.  Inserting a source edit keeps the list in source order with no two edits touching, whatever
  the caller asks for; the call reports "unsupported" exactly when the new range touches one of
  the edits already there (the code only compares it with its two neighbours), and then changes
  nothing.  Otherwise the list gains exactly that edit.
\<close>

theorem source_edits_insert_spec:
  assumes "edits_inv es" "n \<le> length t" "owned \<longrightarrow> length t = n"
    and "n \<le> SIZE_MAX" "source_edits_insert_internal alloc (Some es) s f (Some t) n owned True
           = Inr (es', supported)"
  shows "edits_inv es' \<and>
    supported = (\<not> (\<exists>e \<in> set (edit_items es). source_edits_overlap e s f)) \<and>
    (if supported
     then set (edit_items es') = insert \<lparr>source_start = s, source_end = f,
            replacement = Some (take n t), replacement_length = n\<rparr> (set (edit_items es))
     else es' = es)"
  using assms by (rule insert_internal_spec)

text \<open>
  The order in which edits are recorded does not matter: two edits that are both accepted,
  one after the other, leave the same list in either order.
\<close>

lemma source_edits_insert_commute:
  assumes "edits_inv es" "n1 \<le> length t1" "n1 \<le> SIZE_MAX" "n2 \<le> length t2" "n2 \<le> SIZE_MAX"
    and a: "source_edits_insert al1 (Some es) s1 f1 (Some t1) n1 True = Inr (esa, True)"
    and ab: "source_edits_insert al2 (Some esa) s2 f2 (Some t2) n2 True = Inr (esab, True)"
    and b: "source_edits_insert al3 (Some es) s2 f2 (Some t2) n2 True = Inr (esb, True)"
    and ba: "source_edits_insert al4 (Some esb) s1 f1 (Some t1) n1 True = Inr (esba, True)"
  shows "edit_items esab = edit_items esba"
proof -
  note spec = insert_internal_spec [where owned = False]
  note ins = assms(6-9) [unfolded source_edits_insert_def]
  let ?e1 = "\<lparr>source_start = s1, source_end = f1, replacement = Some (take n1 t1),
      replacement_length = n1\<rparr>"
  let ?e2 = "\<lparr>source_start = s2, source_end = f2, replacement = Some (take n2 t2),
      replacement_length = n2\<rparr>"
  have a: "edits_inv esa" "set (edit_items esa) = insert ?e1 (set (edit_items es))"
    using spec [OF assms(1,2) _ assms(3) ins(1)] by simp_all
  have b: "edits_inv esb" "set (edit_items esb) = insert ?e2 (set (edit_items es))"
    using spec [OF assms(1,4) _ assms(5) ins(3)] by simp_all
  have ab: "edits_inv esab" "set (edit_items esab) = insert ?e2 (set (edit_items esa))"
    using spec [OF a(1) assms(4) _ assms(5) ins(2)] by simp_all
  have ba: "edits_inv esba" "set (edit_items esba) = insert ?e1 (set (edit_items esb))"
    using spec [OF b(1) assms(2) _ assms(3) ins(4)] by simp_all
  have "set (edit_items esab) = set (edit_items esba)" using a b ab ba by auto
  then show ?thesis
    using ab(1) ba(1) by (intro apart_list_unique) (auto simp: edits_inv_def)
qed

section \<open>Restoration\<close>

abbreviation edit_views :: "source_edits \<Rightarrow> replacement_edit list" where
  "edit_views es \<equiv> map edit_view (edit_items es)"

lemma view_Cons [simp]:
  "edits_in c n (edit_view e # es) = (c \<le> source_start e \<and> source_start e \<le> source_end e
     \<and> source_end e \<le> n \<and> edits_in (source_end e) n es)"
  "removed_total (edit_view e # es) = (source_end e - source_start e) + removed_total es"
  "added_total (edit_view e # es) = length (the (replacement e)) + added_total es"
  "splice sql c (edit_view e # es)
     = slice sql c (source_start e) @ the (replacement e) @ splice sql (source_end e) es"
  "moved c w (edit_view e # es) p =
     (if p \<le> source_start e then Some (w + (p - c)) else if p < source_end e then None
      else moved (source_end e) (w + (source_start e - c) + length (the (replacement e))) es p)"
  "untouched (edit_view e # es) p =
     ((p < source_start e \<or> (source_start e < p \<and> source_end e \<le> p)) \<and> untouched es p)"
  by (simp_all add: edit_view_def)

text \<open>All edits lie inside the source text.\<close>

definition edits_within :: "nat \<Rightarrow> source_edits \<Rightarrow> bool" where
  "edits_within n es = list_all (\<lambda>e. source_end e \<le> n) (edit_items es)"

lemma views_edits_in:
  "sorted_wrt apart items \<Longrightarrow> list_all edit_wf items \<Longrightarrow> list_all (\<lambda>e. source_end e \<le> n) items
     \<Longrightarrow> list_all (\<lambda>e. c \<le> source_start e) items \<Longrightarrow> c \<le> n
     \<Longrightarrow> edits_in c n (map edit_view items)"
proof (induction items arbitrary: c)
  case (Cons e items)
  then have "list_all (\<lambda>f. source_end e \<le> source_start f) items"
    by (auto simp: list_all_iff apart_def)
  with Cons show ?case by (auto simp: edit_wf_def)
qed simp

lemma edits_in_of_inv:
  "edits_inv es \<Longrightarrow> edits_within n es \<Longrightarrow> edits_in 0 n (edit_views es)"
  by (rule views_edits_in) (auto simp: edits_inv_def edits_within_def list_all_iff)

lemma write_edits_splice:
  "edits_in c (length sql) (map edit_view items) \<Longrightarrow> list_all edit_wf items \<Longrightarrow>
     write_edits sql (length sql) c items = splice sql c (map edit_view items)"
  by (induction items arbitrary: c)
     (auto simp: edit_wf_def slice_to_end split: option.splits)

text \<open>The measuring loop either reports the length of the spliced text or the limit.\<close>

lemma measure_edits_cases:
  "edits_in c n (map edit_view items) \<Longrightarrow> list_all edit_wf items \<Longrightarrow> n - c \<le> final \<Longrightarrow>
   final \<le> limit \<Longrightarrow>
   (measure_edits n limit final c items
      = Inr (final - removed_total (map edit_view items) + added_total (map edit_view items))
    \<and> final - removed_total (map edit_view items) + added_total (map edit_view items) \<le> limit)
   \<or> measure_edits n limit final c items
      = fail RESOURCE_LIMIT ''deparse output exceeds configured byte limit''"
proof (induction items arbitrary: c final)
  case (Cons e items)
  let ?a = "source_start e" and ?b = "source_end e" and ?k = "replacement_length e"
  have e: "c \<le> ?a" "?a \<le> ?b" "?b \<le> n" "edits_in ?b n (map edit_view items)" "edit_wf e"
    "list_all edit_wf items"
    using Cons.prems by auto
  then obtain t where t: "replacement e = Some t" "length t = ?k"
    by (auto simp: edit_wf_def split: option.splits)
  have room: "n - ?b \<le> final - (?b - ?a)" "?b - ?a \<le> final" using e Cons.prems by auto
  have removed: "removed_total (map edit_view items) \<le> n - ?b"
    using e(4) by (rule removed_total_le)
  show ?case
  proof (cases "?k > limit - (final - (?b - ?a))")
    case True
    with e t room show ?thesis by (simp add: Let_def)
  next
    case False
    have step: "measure_edits n limit final c (e # items)
        = measure_edits n limit (final - (?b - ?a) + ?k) ?b items"
      using False e t room by (simp add: Let_def)
    have sum: "final - (?b - ?a) + ?k - removed_total (map edit_view items)
          + added_total (map edit_view items)
        = final - removed_total (map edit_view (e # items)) + added_total (map edit_view (e # items))"
      using room removed t by simp
    have "n - ?b \<le> final - (?b - ?a) + ?k" "final - (?b - ?a) + ?k \<le> limit"
      using room False Cons.prems by auto
    from Cons.IH [OF e(4,6) this] show ?thesis unfolding step sum by blast
  qed
qed simp

text \<open>With room for every replacement the loop never meets the limit.\<close>

lemma measure_edits_room:
  "edits_in c n (map edit_view items) \<Longrightarrow> list_all edit_wf items \<Longrightarrow> n - c \<le> final \<Longrightarrow>
   final + added_total (map edit_view items) \<le> limit \<Longrightarrow>
   \<exists>k. measure_edits n limit final c items = Inr k"
proof (induction items arbitrary: c final)
  case (Cons e items)
  let ?a = "source_start e" and ?b = "source_end e" and ?k = "replacement_length e"
  have e: "c \<le> ?a" "?a \<le> ?b" "?b \<le> n" "edits_in ?b n (map edit_view items)" "edit_wf e"
    "list_all edit_wf items"
    using Cons.prems by auto
  then obtain t where t: "replacement e = Some t" "length t = ?k"
    by (auto simp: edit_wf_def split: option.splits)
  have "measure_edits n limit final c (e # items)
      = measure_edits n limit (final - (?b - ?a) + ?k) ?b items"
    using e t Cons.prems by (auto simp: Let_def)
  moreover have "\<exists>k. measure_edits n limit (final - (?b - ?a) + ?k) ?b items = Inr k"
    using e t Cons.prems by (intro Cons.IH) auto
  ultimately show ?case by simp
qed simp

lemma restore_source_edits_cases:
  assumes inv: "edits_inv es" and within: "edits_within (length sql) es"
  obtains
    (limit) "restore_source_edits alloc sql (length sql) limit es
       = fail RESOURCE_LIMIT ''deparse output exceeds configured byte limit''"
      "length sql + added_total (edit_views es) > limit \<or> limit \<ge> SIZE_MAX"
  | (memory) "restore_source_edits alloc sql (length sql) limit es
       = fail NO_MEMORY ''out of memory''"
      "\<not> alloc 0 (length (splice sql 0 (edit_views es)) + 1)"
  | (restored) "restore_source_edits alloc sql (length sql) limit es
       = Inr (splice sql 0 (edit_views es))"
      "length (splice sql 0 (edit_views es)) \<le> limit"
proof -
  let ?v = "edit_views es" and ?n = "length sql"
  let ?m = "measure_edits ?n limit ?n 0 (edit_items es)"
  have ein: "edits_in 0 ?n ?v" using inv within by (rule edits_in_of_inv)
  have wf: "list_all edit_wf (edit_items es)" using inv by (simp add: edits_inv_def)
  have len: "length (splice sql 0 ?v) = ?n - removed_total ?v + added_total ?v"
    using length_splice [OF ein] by simp
  have out: "write_edits sql ?n 0 (edit_items es) = splice sql 0 ?v"
    using ein wf by (rule write_edits_splice)
  have room: "\<exists>k. ?m = Inr k" if "?n + added_total ?v \<le> limit"
    using measure_edits_room [OF ein wf] that by simp
  show ?thesis
  proof (cases "?n > limit")
    case True
    then show ?thesis by (intro limit) (auto simp: restore_source_edits_def)
  next
    case False
    then consider "?m = Inr (length (splice sql 0 ?v))" "length (splice sql 0 ?v) \<le> limit"
      | "?m = fail RESOURCE_LIMIT ''deparse output exceeds configured byte limit''"
      using measure_edits_cases [OF ein wf, of ?n limit] unfolding len by auto
    then show ?thesis
    proof cases
      case 1
      with False out show ?thesis
        by (cases "length (splice sql 0 ?v) = SIZE_MAX"; cases "alloc 0 (length (splice sql 0 ?v) + 1)")
           (auto simp: restore_source_edits_def Let_def intro: limit memory restored)
    next
      case 2
      then have "?n + added_total ?v > limit" using room by (metis leI sum.simps(4) Inl_Inr_False)
      with 2 False show ?thesis by (intro limit) (auto simp: restore_source_edits_def)
    qed
  qed
qed

text \<open>
  C1.  Restoring the source of a handle whose edits are in order and inside the text never trips
  over the edit list: the result is exactly the source with each edited range replaced, no longer
  than the configured limit, and the only failures are the limit itself and memory.  With room for
  all replacements on top of the source, and memory, it succeeds.
\<close>

theorem restore_source_edits_spec:
  assumes "edits_inv es" "edits_within (length sql) es"
  shows "(case restore_source_edits alloc sql (length sql) limit es of
      Inr out \<Rightarrow> out = splice sql 0 (edit_views es) \<and> length out \<le> limit
    | Inl e \<Rightarrow> err_code e \<in> {RESOURCE_LIMIT, NO_MEMORY}) \<and>
    (length sql + added_total (edit_views es) \<le> limit \<and> limit < SIZE_MAX \<and> (\<forall>n. alloc 0 n)
      \<longrightarrow> restore_source_edits alloc sql (length sql) limit es = Inr (splice sql 0 (edit_views es)))"
  by (rule restore_source_edits_cases [OF assms, of alloc limit]) auto

text \<open>
  Every byte of the source outside the edited ranges is found in the restored text, at the
  position its offset moves to.
\<close>

lemma restore_keeps_untouched_bytes:
  assumes "edits_inv es" "edits_within (length sql) es"
    and "restore_source_edits alloc sql (length sql) limit es = Inr out"
    and "p < length sql" "untouched (edit_views es) p"
  shows "\<exists>q. moved 0 0 (edit_views es) p = Some q \<and> q < length out \<and> out ! q = sql ! p"
proof -
  have ein: "edits_in 0 (length sql) (edit_views es)" using assms(1,2) by (rule edits_in_of_inv)
  have out: "out = splice sql 0 (edit_views es)"
    by (rule restore_source_edits_cases [OF assms(1,2), of alloc limit]) (use assms(3) in auto)
  obtain q where q: "moved 0 0 (edit_views es) p = Some q"
    using moved_Some [OF ein assms(5)] by auto
  from nth_splice_moved [OF ein assms(5) _ assms(4) q] q out show ?thesis by auto
qed

text \<open>Ten bytes: byte 0 grows to three, bytes 2 to 8 shrink to one.\<close>

definition grow_then_shrink :: source_edits where
  "grow_then_shrink = \<lparr>edit_items =
     [\<lparr>source_start = 0, source_end = 1, replacement = Some ''abc'', replacement_length = 3\<rparr>,
      \<lparr>source_start = 2, source_end = 8, replacement = Some ''x'', replacement_length = 1\<rparr>],
     edit_capacity = 4\<rparr>"

text \<open>The running total after some of the edits: the length of the text with only these applied.\<close>

lemma edits_in_take: "edits_in c n es \<Longrightarrow> edits_in c n (take k es)"
proof (induction es arbitrary: c k)
  case (Cons e es)
  then show ?case by (cases e; cases k) auto
qed simp

lemma measure_edits_total:
  "edits_in c n (map edit_view items) \<Longrightarrow> list_all edit_wf items \<Longrightarrow> n - c \<le> final \<Longrightarrow> final \<le> limit \<Longrightarrow>
   measure_edits n limit final c items = fail RESOURCE_LIMIT ''deparse output exceeds configured byte limit'' \<longleftrightarrow>
   (\<exists>k \<le> length items. limit < final - removed_total (take k (map edit_view items)) + added_total (take k (map edit_view items)))"
proof (induction items arbitrary: c final)
  case (Cons e items)
  let ?a = "source_start e" and ?b = "source_end e" and ?k = "replacement_length e"
  have e: "c \<le> ?a" "?a \<le> ?b" "?b \<le> n" "edits_in ?b n (map edit_view items)" "edit_wf e" "list_all edit_wf items"
    using Cons.prems by auto
  then obtain t where t: "replacement e = Some t" "length t = ?k" by (auto simp: edit_wf_def split: option.splits)
  have room: "n - ?b \<le> final - (?b - ?a)" "?b - ?a \<le> final" using e Cons.prems by auto
  define next_total where "next_total = final - (?b - ?a) + ?k"
  have total: "final - removed_total (take (Suc k) (map edit_view (e # items))) + added_total (take (Suc k) (map edit_view (e # items))) =
      next_total - removed_total (take k (map edit_view items)) + added_total (take k (map edit_view items))" for k
    using removed_total_le [OF edits_in_take [OF e(4)], of k] room t by (simp add: next_total_def)
  have split: "(\<exists>k \<le> length (e # items). limit < f k) \<longleftrightarrow> limit < f 0 \<or> (\<exists>k \<le> length items. limit < f (Suc k))" for f
    by (metis Suc_le_mono length_Cons list.size(4) not0_implies_Suc zero_le)
  have start: "final - removed_total (take 0 (map edit_view (e # items))) + added_total (take 0 (map edit_view (e # items))) \<le> limit"
    using Cons.prems(4) by simp
  show ?case
  proof (cases "next_total \<le> limit")
    case False
    then have "limit - (final - (?b - ?a)) < ?k" using Cons.prems(4) unfolding next_total_def by linarith
    then have "measure_edits n limit final c (e # items) = fail RESOURCE_LIMIT ''deparse output exceeds configured byte limit''"
      using e t room by (simp add: Let_def)
    moreover have "limit < next_total - removed_total (take 0 (map edit_view items)) + added_total (take 0 (map edit_view items))"
      using False by simp
    ultimately show ?thesis unfolding split total by blast
  next
    case True
    then have step: "measure_edits n limit final c (e # items) = measure_edits n limit next_total ?b items"
      using e t room by (auto simp: Let_def next_total_def)
    have "n - ?b \<le> next_total" using room by (simp add: next_total_def)
    from Cons.IH [OF e(4,6) this True] start show ?thesis unfolding step split total by auto
  qed
qed simp

text \<open>
  C39.  When the restoration is refused.  The limit is tested against the running total: the source
  text with the edits is refused exactly when, for some number of the edits, the text with only the
  first so many of them applied is longer than the limit, even if the text with all of them is not.
  Otherwise only a text of the largest size and a refused allocation fail, and nothing else.
\<close>

theorem restore_refused_by_running_total:
  assumes "edits_inv es" "edits_within (length sql) es"
  shows "restore_source_edits alloc sql (length sql) limit es =
    (let out = splice sql 0 (edit_views es)
     in if (\<exists>k \<le> length (edit_views es). limit < length (splice sql 0 (take k (edit_views es)))) \<or> length out = SIZE_MAX
        then fail RESOURCE_LIMIT ''deparse output exceeds configured byte limit''
        else if \<not> alloc 0 (length out + 1) then fail NO_MEMORY ''out of memory''
        else Inr out)"
proof -
  let ?v = "edit_views es" and ?n = "length sql"
  let ?refused = "\<exists>k \<le> length ?v. limit < length (splice sql 0 (take k ?v))"
  have ein: "edits_in 0 ?n ?v" using assms by (rule edits_in_of_inv)
  have wf: "list_all edit_wf (edit_items es)" using assms(1) by (simp add: edits_inv_def)
  have size: "length (splice sql 0 (take k ?v)) = ?n - removed_total (take k ?v) + added_total (take k ?v)" for k
    using length_splice [OF edits_in_take [OF ein]] by simp
  have out: "write_edits sql ?n 0 (edit_items es) = splice sql 0 ?v" using ein wf by (rule write_edits_splice)
  have whole: "\<not> ?refused \<Longrightarrow> length (splice sql 0 ?v) \<le> limit" by (metis leI order_refl take_all)
  show ?thesis
  proof (cases "limit < ?n")
    case True
    then have "limit < length (splice sql 0 (take 0 ?v))" by (simp add: slice_to_end)
    then have ?refused by blast
    then show ?thesis using True by (simp add: restore_source_edits_def Let_def del: ex_simps)
  next
    case False
    then have fits: "?n - 0 \<le> ?n" "?n \<le> limit" by simp_all
    note total = measure_edits_total [OF ein wf fits, folded size]
    note cases = measure_edits_cases [OF ein wf fits]
    show ?thesis
    proof (cases ?refused)
      case True
      then show ?thesis using total False by (simp add: restore_source_edits_def Let_def)
    next
      case fine: False
      then have "measure_edits ?n limit ?n 0 (edit_items es) = Inr (length (splice sql 0 ?v))"
        using total cases length_splice [OF ein] by auto
      then show ?thesis using False fine whole [OF fine] out by (auto simp: restore_source_edits_def Let_def)
    qed
  qed
qed

text \<open>
  An output of 7 bytes under a limit of 10 is refused, because the first edit grows the text before
  the second one shrinks it.
\<close>

lemma grow_then_shrink_facts:
  "edits_inv grow_then_shrink" "edits_within 10 grow_then_shrink"
  by (simp_all add: edits_inv_def edits_within_def grow_then_shrink_def apart_def edit_wf_def
      sizeof_edit_def SIZE_MAX_def)

theorem restore_refused_by_running_total_witness:
  "length (splice ''0123456789'' 0 (edit_views grow_then_shrink)) = 7 \<and>
   restore_source_edits (\<lambda>_ _. True) ''0123456789'' 10 10 grow_then_shrink
     = fail RESOURCE_LIMIT ''deparse output exceeds configured byte limit''"
proof -
  have ten: "length ''0123456789'' = 10" by simp
  have "1 \<le> length (edit_views grow_then_shrink)"
    "10 < length (splice ''0123456789'' 0 (take 1 (edit_views grow_then_shrink)))"
    "length (splice ''0123456789'' 0 (edit_views grow_then_shrink)) = 7"
    by (simp_all add: grow_then_shrink_def slice_def)
  moreover have "edits_within (length ''0123456789'') grow_then_shrink"
    unfolding ten by (rule grow_then_shrink_facts(2))
  note restore_refused_by_running_total [OF grow_then_shrink_facts(1) this, where alloc = "\<lambda>_ _. True" and limit = 10, unfolded ten]
  ultimately show ?thesis by (auto simp: Let_def)
qed

section \<open>Instances\<close>

lemma grow_then_shrink_on_digits:
  "edits_within (length ''0123456789'') grow_then_shrink" "untouched (edit_views grow_then_shrink) 9"
  by (simp_all add: edits_within_def grow_then_shrink_def edit_view_def)

text \<open>A third edit behind the two is accepted; one that meets the second is refused.\<close>

lemma insert_third_edit:
  "source_edits_insert_internal (\<lambda>_ _. True) (Some grow_then_shrink) 9 10 (Some ''y'') 1 False True
     = Inr (\<lparr>edit_items = edit_items grow_then_shrink @
         [\<lparr>source_start = 9, source_end = 10, replacement = Some ''y'', replacement_length = 1\<rparr>],
         edit_capacity = 4\<rparr>, True)"
  by (simp add: source_edits_insert_internal_def grow_then_shrink_def insert_index_def
      grow_edits_def SIZE_MAX_def source_edits_overlap_def)

theorem source_edits_insert_spec_witness:
  "case source_edits_insert_internal (\<lambda>_ _. True) (Some grow_then_shrink) 9 10 (Some ''y'') 1
     False True of
     Inr (es', supported) \<Rightarrow> supported \<and> edits_inv es' \<and> length (edit_items es') = 3
   | Inl _ \<Rightarrow> False"
  using source_edits_insert_spec [OF grow_then_shrink_facts(1) _ _ _ insert_third_edit]
    insert_third_edit
  by (simp add: SIZE_MAX_def grow_then_shrink_def)

lemma insert_commute_runs:
  defines "ins \<equiv> \<lambda>es s f t. source_edits_insert (\<lambda>_ _. True) (Some es) s f (Some t) 2 True"
  shows "\<exists>a b ab ba. ins no_edits 0 1 ''aa'' = Inr (a, True) \<and> ins a 3 4 ''bb'' = Inr (ab, True)
    \<and> ins no_edits 3 4 ''bb'' = Inr (b, True) \<and> ins b 0 1 ''aa'' = Inr (ba, True)"
  by (simp add: ins_def source_edits_insert_def source_edits_insert_internal_def no_edits_def
      insert_index_def grow_edits_def SIZE_MAX_def source_edits_overlap_def sizeof_edit_def)

lemma source_edits_insert_commute_witness:
  "\<exists>a b ab ba.
     source_edits_insert (\<lambda>_ _. True) (Some no_edits) 0 1 (Some ''aa'') 2 True = Inr (a, True) \<and>
     source_edits_insert (\<lambda>_ _. True) (Some a) 3 4 (Some ''bb'') 2 True = Inr (ab, True) \<and>
     source_edits_insert (\<lambda>_ _. True) (Some no_edits) 3 4 (Some ''bb'') 2 True = Inr (b, True) \<and>
     source_edits_insert (\<lambda>_ _. True) (Some b) 0 1 (Some ''aa'') 2 True = Inr (ba, True) \<and>
     edit_items ab = edit_items ba"
  using insert_commute_runs source_edits_insert_commute [OF edits_inv_no_edits, of 2 "''aa''" 2 "''bb''"]
  by (fastforce simp: SIZE_MAX_def)

theorem restore_source_edits_spec_witness:
  "restore_source_edits (\<lambda>_ _. True) ''0123456789'' 10 20 grow_then_shrink = Inr ''abc1x89''"
proof -
  have ten: "length ''0123456789'' = 10" by simp
  have "10 + added_total (edit_views grow_then_shrink) \<le> 20"
    and "splice ''0123456789'' 0 (edit_views grow_then_shrink) = ''abc1x89''"
    by (simp_all add: grow_then_shrink_def slice_def)
  with restore_source_edits_spec [OF grow_then_shrink_facts(1) grow_then_shrink_on_digits(1),
      where alloc = "\<lambda>_ _. True" and limit = 20, unfolded ten]
  show ?thesis by (simp add: SIZE_MAX_def)
qed

lemma restore_keeps_untouched_bytes_witness:
  "\<exists>q. moved 0 0 (edit_views grow_then_shrink) 9 = Some q \<and> q < length ''abc1x89''
     \<and> ''abc1x89'' ! q = CHR ''9''"
proof -
  have "restore_source_edits (\<lambda>_ _. True) ''0123456789'' (length ''0123456789'') 20 grow_then_shrink
      = Inr ''abc1x89''"
    by (simp add: restore_source_edits_def grow_then_shrink_def SIZE_MAX_def slice_def)
  from restore_keeps_untouched_bytes [OF grow_then_shrink_facts(1) grow_then_shrink_on_digits(1)
      this _ grow_then_shrink_on_digits(2)]
  show ?thesis by simp
qed

end
