(* ===== verification/Ast_Rebase.thy ===== *)
theory Ast_Rebase
  imports Source_Edits
begin

text \<open>
  Rebasing of AST source coordinates after a patch (\<^verbatim>\<open>src/core/sqlparser_ast_rebase.c\<close>): instead
  of parsing the patched text again, every location of the owned AST moves with the edits.  The
  definitions cover the validation of the edit list and of the statement spans, the moving cursor
  that maps one offset, the mapping of a statement's location and length, and the plan of scalar
  writes.  The walk over protobuf descriptors that feeds them is not modelled.
\<close>

section \<open>Validating the edits\<close>

text \<open>The loop of \<^verbatim>\<open>sqlparser_ast_rebase_edits_valid\<close>: the two cursors, or \<open>None\<close> on a bad edit.\<close>

fun edits_valid_loop :: "nat \<Rightarrow> nat \<Rightarrow> nat \<Rightarrow> nat \<Rightarrow> source_edit list \<Rightarrow> (nat \<times> nat) option" where
  "edits_valid_loop old_length new_length old_cursor new_cursor [] = Some (old_cursor, new_cursor)"
| "edits_valid_loop old_length new_length old_cursor new_cursor (e # es) =
     (if source_start e < old_cursor \<or> source_start e \<ge> source_end e
         \<or> source_end e > old_length \<or> replacement e = None \<or> replacement_length e = 0
      then None
      else
        let gap = source_start e - old_cursor
        in if gap > new_length - new_cursor then None
           else if replacement_length e > new_length - (new_cursor + gap) then None
           else edits_valid_loop old_length new_length (source_end e)
                  (new_cursor + gap + replacement_length e) es)"

definition rebase_edits_valid :: "source_edits option \<Rightarrow> nat \<Rightarrow> nat \<Rightarrow> bool" where
  "rebase_edits_valid edits old_length new_length =
     (case edits of None \<Rightarrow> False
      | Some es \<Rightarrow>
          if edit_items es = [] \<or> edit_capacity es = 0
             \<or> length (edit_items es) > SIZE_MAX div sizeof_edit
             \<or> old_length > INT32_MAX \<or> new_length > INT32_MAX
          then False
          else case edits_valid_loop old_length new_length 0 0 (edit_items es) of
            None \<Rightarrow> False
          | Some (old_cursor, new_cursor) \<Rightarrow> old_length - old_cursor = new_length - new_cursor)"

section \<open>The moving cursor\<close>

text \<open>\<^verbatim>\<open>sqlparser_rebase_edit_delta\<close>, in 64-bit signed arithmetic.\<close>

definition edit_delta :: "source_edit \<Rightarrow> int" where
  "edit_delta e = int (replacement_length e) - int (source_end e - source_start e)"

text \<open>
  \<^verbatim>\<open>sqlparser_rebase_context_t\<close> and the plan it fills: the edits, both lengths, the cursor (how many
  edits end at or before the last offset, and the sum of their deltas), the recorded writes with
  the capacity of their array, and the out-of-memory flag.  A slot is the address of an \<^verbatim>\<open>int32_t\<close>.
\<close>

record 's rebase_context =
  rc_edits :: "source_edit list"
  rc_old_length :: nat
  rc_new_length :: nat
  rc_prefix_count :: nat
  rc_prefix_delta :: int
  rc_writes :: "('s \<times> int) list"
  rc_capacity :: nat
  rc_no_memory :: bool

text \<open>The two cursor loops of \<^verbatim>\<open>sqlparser_rebase_point\<close>.\<close>

fun cursor_back :: "source_edit list \<Rightarrow> nat \<Rightarrow> nat \<Rightarrow> int \<Rightarrow> nat \<times> int" where
  "cursor_back items point 0 delta = (0, delta)"
| "cursor_back items point (Suc k) delta =
     (if source_end (items ! k) > point
      then cursor_back items point k (delta - edit_delta (items ! k))
      else (Suc k, delta))"

function cursor_forward :: "source_edit list \<Rightarrow> nat \<Rightarrow> nat \<Rightarrow> int \<Rightarrow> nat \<times> int" where
  "cursor_forward items point k delta =
     (if k < length items \<and> source_end (items ! k) \<le> point
      then cursor_forward items point (Suc k) (delta + edit_delta (items ! k))
      else (k, delta))"
  by pat_completeness auto
termination
  by (relation "measure (\<lambda>(items, point, k, delta). length items - k)") auto

declare cursor_forward.simps [simp del]

text \<open>\<^verbatim>\<open>sqlparser_rebase_point\<close>: the context with the moved cursor, and \<^verbatim>\<open>*mapped\<close>.\<close>

definition rebase_point :: "'s rebase_context \<Rightarrow> nat \<Rightarrow> 's rebase_context \<times> int option" where
  "rebase_point ctx point =
     (if point > rc_old_length ctx then (ctx, None)
      else
        let items = rc_edits ctx;
          (k1, d1) = cursor_back items point (rc_prefix_count ctx) (rc_prefix_delta ctx);
          (k, d) = cursor_forward items point k1 d1;
          ctx' = ctx\<lparr>rc_prefix_count := k, rc_prefix_delta := d\<rparr>
        in if k < length items \<and> source_start (items ! k) < point then (ctx', None)
           else
             let result = int point + d
             in if result < 0 \<or> result > int INT32_MAX \<or> nat result > rc_new_length ctx
                then (ctx', None) else (ctx', Some result))"

section \<open>Recording and applying writes\<close>

text \<open>\<^verbatim>\<open>sizeof(sqlparser_ast_rebase_write_t)\<close> and \<^verbatim>\<open>SQLPARSER_AST_REBASE_INLINE_WRITES\<close>\<close>

definition sizeof_write :: nat where "sizeof_write = 16"
definition INLINE_WRITES :: nat where "INLINE_WRITES = 64"

text \<open>
  \<^verbatim>\<open>sqlparser_rebase_record\<close>: a slot that already holds the value needs no write.  The store maps
  slots to their current values; \<open>alloc k n\<close> answers the growth when \<open>k\<close> writes are recorded.
\<close>

definition rebase_record ::
  "allocator \<Rightarrow> ('s \<Rightarrow> int) \<Rightarrow> 's rebase_context \<Rightarrow> 's \<Rightarrow> int \<Rightarrow> 's rebase_context \<times> bool" where
  "rebase_record alloc store ctx slot value =
     (if store slot = value then (ctx, True)
      else if length (rc_writes ctx) = rc_capacity ctx
      then
        let maximum = SIZE_MAX div sizeof_write
        in if rc_capacity ctx \<ge> maximum then (ctx\<lparr>rc_no_memory := True\<rparr>, False)
           else
             let capacity = (if rc_capacity ctx > maximum div 2 then maximum
                             else rc_capacity ctx * 2)
             in if \<not> alloc (length (rc_writes ctx)) (capacity * sizeof_write)
                then (ctx\<lparr>rc_no_memory := True\<rparr>, False)
                else (ctx\<lparr>rc_capacity := capacity,
                          rc_writes := rc_writes ctx @ [(slot, value)]\<rparr>, True)
      else (ctx\<lparr>rc_writes := rc_writes ctx @ [(slot, value)]\<rparr>, True))"

text \<open>\<^verbatim>\<open>sqlparser_ast_rebase_plan_apply\<close>: the writes in order.\<close>

fun plan_apply :: "('s \<times> int) list \<Rightarrow> ('s \<Rightarrow> int) \<Rightarrow> ('s \<Rightarrow> int)" where
  "plan_apply [] store = store"
| "plan_apply ((slot, value) # ws) store = plan_apply ws (store(slot := value))"

text \<open>
  \<^verbatim>\<open>sqlparser_rebase_statement\<close>: the location and the length of a statement, mapped through its
  end and recorded; a negative location is kept.
\<close>

definition rebase_statement ::
  "allocator \<Rightarrow> ('s \<Rightarrow> int) \<Rightarrow> 's rebase_context \<Rightarrow> 's \<Rightarrow> 's \<Rightarrow> 's rebase_context \<times> bool" where
  "rebase_statement alloc store ctx location_slot length_slot =
     (let location = store location_slot; len = store length_slot;
        finish = (\<lambda>ctx mapped_location mapped_length.
          case rebase_record alloc store ctx location_slot mapped_location of
            (ctx', False) \<Rightarrow> (ctx', False)
          | (ctx', True) \<Rightarrow> rebase_record alloc store ctx' length_slot mapped_length);
        with_location = (\<lambda>ctx mapped_location.
          if len > 0
          then
            if location < 0 then (ctx, False)
            else if nat len > rc_old_length ctx - nat location then (ctx, False)
            else case rebase_point ctx (nat location + nat len) of
              (ctx', None) \<Rightarrow> (ctx', False)
            | (ctx', Some mapped_end) \<Rightarrow>
                if mapped_end < mapped_location then (ctx', False)
                else finish ctx' mapped_location (mapped_end - mapped_location)
          else finish ctx mapped_location len)
      in if len < 0 then (ctx, False)
         else if location \<ge> 0
         then (case rebase_point ctx (nat location) of
                 (ctx', None) \<Rightarrow> (ctx', False)
               | (ctx', Some mapped_location) \<Rightarrow> with_location ctx' mapped_location)
         else with_location ctx location)"

section \<open>Statement spans\<close>





section \<open>What validation establishes\<close>

text \<open>The edits of a rebase: in order inside the old text, and none of them an insertion.\<close>

definition rebase_edits_ok :: "nat \<Rightarrow> source_edit list \<Rightarrow> bool" where
  "rebase_edits_ok n items = (edits_in 0 n (map edit_view items) \<and>
     list_all (\<lambda>e. source_start e < source_end e) items)"

definition sum_deltas :: "source_edit list \<Rightarrow> int" where
  "sum_deltas items = (\<Sum>e \<leftarrow> items. edit_delta e)"

lemma sum_deltas_simps [simp]:
  "sum_deltas [] = 0" "sum_deltas (e # es) = edit_delta e + sum_deltas es"
  "sum_deltas (xs @ ys) = sum_deltas xs + sum_deltas ys"
  by (simp_all add: sum_deltas_def)

lemma sum_deltas_totals:
  "edits_in c n (map edit_view items) \<Longrightarrow> list_all edit_wf items \<Longrightarrow>
     sum_deltas items = int (added_total (map edit_view items))
       - int (removed_total (map edit_view items))"
  by (induction items arbitrary: c) (auto simp: edit_delta_def edit_wf_def split: option.splits)

lemma edits_valid_loop_Some:
  "edits_valid_loop n m c w items = Some (oc, nc) \<Longrightarrow> c \<le> n \<Longrightarrow> w \<le> m \<Longrightarrow>
     edits_in c n (map edit_view items) \<and> list_all (\<lambda>e. source_start e < source_end e) items
     \<and> oc \<le> n \<and> nc \<le> m \<and> int nc - int w = int oc - int c + sum_deltas items"
proof (induction n m c w items rule: edits_valid_loop.induct)
  case (2 n m c w e es)
  let ?gap = "source_start e - c"
  have e: "c \<le> source_start e" "source_start e < source_end e" "source_end e \<le> n"
    "?gap \<le> m - w" "replacement_length e \<le> m - (w + ?gap)"
    "replacement e \<noteq> None" "replacement_length e \<noteq> 0"
    "edits_valid_loop n m (source_end e) (w + ?gap + replacement_length e) es = Some (oc, nc)"
    using "2.prems" by (auto simp: Let_def split: if_splits)
  then have "w + ?gap + replacement_length e \<le> m" using "2.prems" by linarith
  with "2.IH" [OF _ refl] e "2.prems" show ?case by (auto simp: edit_delta_def)
qed (auto simp: edit_view_def)

lemma rebase_edits_validD:
  assumes "rebase_edits_valid (Some es) n m" "list_all edit_wf (edit_items es)"
  shows "rebase_edits_ok n (edit_items es)"
    and "int m = int n + sum_deltas (edit_items es)"
    and "m = n - removed_total (edit_views es) + added_total (edit_views es)"
    and "n \<le> INT32_MAX" "m \<le> INT32_MAX"
proof -
  obtain oc nc where loop: "edits_valid_loop n m 0 0 (edit_items es) = Some (oc, nc)"
    and eq: "n - oc = m - nc" and le: "n \<le> INT32_MAX" "m \<le> INT32_MAX"
    using assms(1) by (auto simp: rebase_edits_valid_def split: if_splits option.splits)
  from edits_valid_loop_Some [OF loop] have ein: "edits_in 0 n (edit_views es)"
    and ne: "list_all (\<lambda>e. source_start e < source_end e) (edit_items es)"
    and bounds: "oc \<le> n" "nc \<le> m" "int nc = int oc + sum_deltas (edit_items es)"
    by auto
  show "rebase_edits_ok n (edit_items es)" using ein ne by (simp add: rebase_edits_ok_def)
  show sum: "int m = int n + sum_deltas (edit_items es)" using eq bounds by linarith
  show "m = n - removed_total (edit_views es) + added_total (edit_views es)"
    using sum sum_deltas_totals [OF ein assms(2)] removed_total_le [OF ein] by linarith
  show "n \<le> INT32_MAX" "m \<le> INT32_MAX" by (rule le)+
qed

section \<open>The cursor computes the abstract image\<close>

text \<open>How many edits end at or before an offset.\<close>

definition edits_before :: "source_edit list \<Rightarrow> nat \<Rightarrow> nat" where
  "edits_before items p = length (takeWhile (\<lambda>e. source_end e \<le> p) items)"

text \<open>The cursor of a context belongs to its edits.\<close>

definition cursor_ok :: "'s rebase_context \<Rightarrow> bool" where
  "cursor_ok ctx = (rc_prefix_count ctx \<le> length (rc_edits ctx) \<and>
     rc_prefix_delta ctx = sum_deltas (take (rc_prefix_count ctx) (rc_edits ctx)))"

lemma ends_sorted:
  "edits_in c n (map edit_view items) \<Longrightarrow> i \<le> j \<Longrightarrow> j < length items \<Longrightarrow>
     c \<le> source_end (items ! i) \<and> source_end (items ! i) \<le> source_end (items ! j)"
proof (induction items arbitrary: c i j)
  case (Cons e items)
  then have e: "c \<le> source_end e" "edits_in (source_end e) n (map edit_view items)" by auto
  show ?case
  proof (cases i)
    case 0
    with Cons e show ?thesis by (cases j) (auto intro: Cons.IH [of _ 0, THEN conjunct1]
        dest: Cons.IH [of "source_end e" "j - 1" "j - 1"])
  next
    case (Suc i')
    with Cons e show ?thesis by (cases j) (force dest: Cons.IH [OF e(2), of i' "j - 1"])+
  qed
qed simp

lemma edits_before_unique:
  assumes "edits_in 0 n (map edit_view items)" "k \<le> length items"
    and "k = 0 \<or> source_end (items ! (k - 1)) \<le> p"
    and "k = length items \<or> source_end (items ! k) > p"
  shows "k = edits_before items p"
proof -
  have before: "source_end (items ! i) \<le> p" if "i < k" for i
  proof -
    have "i \<le> k - 1" "k - 1 < length items" using that assms(2) by auto
    from ends_sorted [OF assms(1) this] show ?thesis using that assms(3) by auto
  qed
  have "takeWhile (\<lambda>e. source_end e \<le> p) items = take k items"
    using before assms(2,4) by (intro takeWhile_eq_take_P_nth) auto
  then show ?thesis using assms(2) by (simp add: edits_before_def)
qed

lemma cursor_back_spec:
  assumes "cursor_back items p k (sum_deltas (take k items)) = (k', d')" "k \<le> length items"
  shows "k' \<le> k \<and> d' = sum_deltas (take k' items) \<and>
    (k' = 0 \<or> source_end (items ! (k' - 1)) \<le> p)"
  using assms
proof (induction k)
  case (Suc k)
  then show ?case by (auto simp: take_Suc_conv_app_nth split: if_splits)
qed simp

lemma cursor_forward_spec:
  assumes "cursor_forward items p k (sum_deltas (take k items)) = (k', d')" "k \<le> length items"
    and "k = 0 \<or> source_end (items ! (k - 1)) \<le> p"
  shows "k \<le> k' \<and> k' \<le> length items \<and> d' = sum_deltas (take k' items) \<and>
    (k' = 0 \<or> source_end (items ! (k' - 1)) \<le> p) \<and>
    (k' = length items \<or> source_end (items ! k') > p)"
  using assms
proof (induction "length items - k" arbitrary: k)
  case 0
  then show ?case by (auto simp: cursor_forward.simps [of items p k])
next
  case (Suc x)
  show ?case
  proof (cases "k < length items \<and> source_end (items ! k) \<le> p")
    case True
    with Suc.prems(1) have "cursor_forward items p (Suc k) (sum_deltas (take (Suc k) items)) = (k', d')"
      by (simp add: cursor_forward.simps [of items p k] take_Suc_conv_app_nth)
    with Suc.hyps True show ?thesis using Suc.hyps(1) [of "Suc k"] by fastforce
  next
    case False
    with Suc.prems show ?thesis by (auto simp: cursor_forward.simps [of items p k])
  qed
qed

text \<open>The image of an offset, without a cursor.\<close>

definition point_image :: "source_edit list \<Rightarrow> nat \<Rightarrow> int option" where
  "point_image items p =
     (let k = edits_before items p
      in if k < length items \<and> source_start (items ! k) < p then None
         else Some (int p + sum_deltas (take k items)))"

lemma point_image_moved_aux:
  "edits_in c n (map edit_view items) \<Longrightarrow> list_all (\<lambda>e. source_start e < source_end e) items \<Longrightarrow>
   list_all edit_wf items \<Longrightarrow> c \<le> p \<Longrightarrow>
   map_option (\<lambda>q. q + int w - int c) (point_image items p)
     = map_option int (moved c w (map edit_view items) p)"
proof (induction items arbitrary: c w)
  case Nil
  then show ?case by (simp add: point_image_def edits_before_def)
next
  case (Cons e items)
  let ?a = "source_start e" and ?b = "source_end e"
  have e: "c \<le> ?a" "?a < ?b" "edits_in ?b n (map edit_view items)" "edit_wf e"
    using Cons.prems by auto
  then obtain t where t: "replacement e = Some t" "length t = replacement_length e"
    by (auto simp: edit_wf_def split: option.splits)
  show ?case
  proof (cases "?b \<le> p")
    case True
    let ?w = "w + (?a - c) + replacement_length e"
    have image: "point_image (e # items) p = map_option (\<lambda>q. q + edit_delta e) (point_image items p)"
      using True by (simp add: point_image_def edits_before_def Let_def)
    have "map_option (\<lambda>q. q + int ?w - int ?b) (point_image items p)
        = map_option int (moved ?b ?w (map edit_view items) p)"
      using Cons.prems True e by (intro Cons.IH) auto
    moreover have "(\<lambda>q. q + edit_delta e + int w - int c) = (\<lambda>q. q + int ?w - int ?b)"
      using e by (intro ext) (simp add: edit_delta_def)
    ultimately show ?thesis
      using True e t by (simp add: image option.map_comp comp_def)
  next
    case False
    then have "edits_before (e # items) p = 0" by (simp add: edits_before_def)
    with False e Cons.prems(4) show ?thesis by (auto simp: point_image_def)
  qed
qed

lemma point_image_moved:
  assumes "rebase_edits_ok n items" "list_all edit_wf items"
  shows "point_image items p = map_option int (moved 0 0 (map edit_view items) p)"
  using point_image_moved_aux [of 0 n items p 0] assms
  by (simp add: rebase_edits_ok_def option.map_ident)

lemma rebase_point_image:
  assumes "cursor_ok ctx" "edits_in 0 n (map edit_view (rc_edits ctx))"
    and "p \<le> rc_old_length ctx"
  defines "k \<equiv> edits_before (rc_edits ctx) p"
  shows "rebase_point ctx p =
    (ctx\<lparr>rc_prefix_count := k, rc_prefix_delta := sum_deltas (take k (rc_edits ctx))\<rparr>,
     case point_image (rc_edits ctx) p of
       None \<Rightarrow> None
     | Some q \<Rightarrow> if q < 0 \<or> q > int INT32_MAX \<or> nat q > rc_new_length ctx then None else Some q)"
proof -
  let ?items = "rc_edits ctx"
  obtain k1 d1 where bk:
    "cursor_back ?items p (rc_prefix_count ctx) (rc_prefix_delta ctx) = (k1, d1)" by fastforce
  then have k1: "k1 \<le> rc_prefix_count ctx" "d1 = sum_deltas (take k1 ?items)"
    "k1 = 0 \<or> source_end (?items ! (k1 - 1)) \<le> p"
    using cursor_back_spec [of ?items p "rc_prefix_count ctx" k1 d1] bk assms(1)
    by (simp_all add: cursor_ok_def)
  then have "k1 \<le> length ?items" using assms(1) by (simp add: cursor_ok_def)
  obtain k2 d2 where fwd: "cursor_forward ?items p k1 d1 = (k2, d2)" by fastforce
  then have k2: "k2 \<le> length ?items" "d2 = sum_deltas (take k2 ?items)"
    "k2 = 0 \<or> source_end (?items ! (k2 - 1)) \<le> p"
    "k2 = length ?items \<or> source_end (?items ! k2) > p"
    using cursor_forward_spec [of ?items p k1 k2 d2] \<open>k1 \<le> length ?items\<close> k1(2,3) by simp_all
  have "k2 = k" unfolding k_def using assms(2) k2 by (intro edits_before_unique) auto
  then show ?thesis
    using assms(3) bk fwd k2(2)
    by (simp add: rebase_point_def point_image_def Let_def k_def)
qed

lemma edits_before_le: "edits_before items p \<le> length items"
  by (simp add: edits_before_def length_takeWhile_le)

text \<open>A context that \<^verbatim>\<open>sqlparser_ast_rebase_plan_build\<close> may walk with.\<close>

definition context_ok :: "'s rebase_context \<Rightarrow> source_edits \<Rightarrow> bool" where
  "context_ok ctx es = (rc_edits ctx = edit_items es \<and> list_all edit_wf (edit_items es) \<and>
     rebase_edits_valid (Some es) (rc_old_length ctx) (rc_new_length ctx) \<and> cursor_ok ctx)"

text \<open>The context the builder starts from.\<close>

definition rebase_start :: "source_edits \<Rightarrow> nat \<Rightarrow> nat \<Rightarrow> 's rebase_context" where
  "rebase_start es old_length new_length =
     \<lparr>rc_edits = edit_items es, rc_old_length = old_length, rc_new_length = new_length,
      rc_prefix_count = 0, rc_prefix_delta = 0, rc_writes = [], rc_capacity = INLINE_WRITES,
      rc_no_memory = False\<rparr>"

lemma context_ok_start:
  "rebase_edits_valid (Some es) n m \<Longrightarrow> list_all edit_wf (edit_items es) \<Longrightarrow>
     context_ok (rebase_start es n m) es"
  by (simp add: context_ok_def rebase_start_def cursor_ok_def)

lemma rebase_point_moved:
  assumes "context_ok ctx es" "p \<le> rc_old_length ctx"
  shows "snd (rebase_point ctx p) = map_option int (moved 0 0 (edit_views es) p)"
    and "\<exists>k d. fst (rebase_point ctx p) = ctx\<lparr>rc_prefix_count := k, rc_prefix_delta := d\<rparr>"
    and "context_ok (fst (rebase_point ctx p)) es"
proof -
  let ?n = "rc_old_length ctx" and ?m = "rc_new_length ctx" and ?items = "edit_items es"
  have ctx: "rc_edits ctx = ?items" "list_all edit_wf ?items" "cursor_ok ctx"
    and valid: "rebase_edits_valid (Some es) ?n ?m"
    using assms(1) by (simp_all add: context_ok_def)
  note v = rebase_edits_validD [OF valid ctx(2)]
  have ein: "edits_in 0 ?n (edit_views es)" using v(1) by (simp add: rebase_edits_ok_def)
  note point = rebase_point_image [OF ctx(3), unfolded ctx(1), OF ein assms(2)]
  have image: "point_image ?items p = map_option int (moved 0 0 (edit_views es) p)"
    using v(1) ctx(2) by (rule point_image_moved)
  have bound: "q \<le> ?m" if "moved 0 0 (edit_views es) p = Some q" for q
    using moved_le [OF ein that _ assms(2)] v(3) by simp
  then show "snd (rebase_point ctx p) = map_option int (moved 0 0 (edit_views es) p)"
    using v(5) unfolding point image by (auto split: option.splits dest!: bound)
  show "\<exists>k d. fst (rebase_point ctx p) = ctx\<lparr>rc_prefix_count := k, rc_prefix_delta := d\<rparr>"
    unfolding point by auto
  show "context_ok (fst (rebase_point ctx p)) es"
    using ctx valid edits_before_le [of ?items p] unfolding point
    by (simp add: context_ok_def cursor_ok_def)
qed

section \<open>The interface of a coordinate map\<close>

text \<open>
  What the walk over the tree relies on: images stay inside the new text, keep their order, and
  the end of the old text maps to the end of the new one.
\<close>

locale coordinate_map =
  fixes valid :: "'e \<Rightarrow> nat \<Rightarrow> nat \<Rightarrow> bool"
    and position :: "'e \<Rightarrow> nat \<Rightarrow> nat \<Rightarrow> nat \<Rightarrow> nat option"
  assumes position_bound: "valid e n m \<Longrightarrow> p \<le> n \<Longrightarrow> position e n m p = Some q \<Longrightarrow> q \<le> m"
    and position_mono: "valid e n m \<Longrightarrow> p \<le> p' \<Longrightarrow> p' \<le> n \<Longrightarrow> position e n m p = Some q \<Longrightarrow>
      position e n m p' = Some q' \<Longrightarrow> q \<le> q'"
    and position_end: "valid e n m \<Longrightarrow> position e n m n = Some m"
begin

lemma span_image:
  assumes "valid e n m" "a \<le> b" "b \<le> n" "position e n m a = Some a'" "position e n m b = Some b'"
  shows "a' \<le> b' \<and> b' \<le> m"
  using position_mono [OF assms(1,2,3,4,5)] position_bound [OF assms(1,3,5)] by (rule conjI)

text \<open>Spans in source order stay in source order, and do not start to overlap.\<close>

lemma spans_stay_disjoint:
  assumes "valid e n m" "a \<le> b" "b \<le> c" "c \<le> d" "d \<le> n"
    and "position e n m a = Some a'" "position e n m b = Some b'"
    and "position e n m c = Some c'" "position e n m d = Some d'"
  shows "a' \<le> b' \<and> b' \<le> c' \<and> c' \<le> d' \<and> d' \<le> m"
proof -
  have "b \<le> n" "c \<le> n" using assms(3,4,5) by simp_all
  have "a' \<le> b'" using position_mono [OF assms(1,2) \<open>b \<le> n\<close> assms(6,7)] .
  moreover have "b' \<le> c'" using position_mono [OF assms(1,3) \<open>c \<le> n\<close> assms(7,8)] .
  moreover have "c' \<le> d'" using position_mono [OF assms(1,4,5,8,9)] .
  moreover have "d' \<le> m" using position_bound [OF assms(1,5,9)] .
  ultimately show ?thesis by (intro conjI)
qed

lemma tail_image:
  assumes "valid e n m" "a \<le> n" "position e n m a = Some a'"
  shows "a' \<le> m"
  using assms by (rule position_bound)

end

text \<open>The code's map: one call of \<^verbatim>\<open>sqlparser_rebase_point\<close> from the builder's context.\<close>

definition rebase_valid :: "source_edits \<Rightarrow> nat \<Rightarrow> nat \<Rightarrow> bool" where
  "rebase_valid es n m = (rebase_edits_valid (Some es) n m \<and> list_all edit_wf (edit_items es))"

definition rebase_position :: "source_edits \<Rightarrow> nat \<Rightarrow> nat \<Rightarrow> nat \<Rightarrow> nat option" where
  "rebase_position es n m p = map_option nat (snd (rebase_point (rebase_start es n m :: nat rebase_context) p))"

lemma rebase_position_moved:
  assumes "rebase_valid es n m" "p \<le> n"
  shows "rebase_position es n m p = moved 0 0 (edit_views es) p"
proof -
  have "context_ok (rebase_start es n m :: nat rebase_context) es"
    using assms(1) by (simp add: rebase_valid_def context_ok_start)
  from rebase_point_moved(1) [OF this] assms(2) show ?thesis
    by (simp add: rebase_position_def rebase_start_def option.map_comp comp_def option.map_ident)
qed

lemma rebase_valid_edits_in:
  "rebase_valid es n m \<Longrightarrow> edits_in 0 n (edit_views es)"
  "rebase_valid es n m \<Longrightarrow> list_all (\<lambda>(a, b, t). a < b) (edit_views es)"
  "rebase_valid es n m \<Longrightarrow> m = n - removed_total (edit_views es) + added_total (edit_views es)"
  by (auto simp: rebase_valid_def rebase_edits_ok_def edit_view_def list_all_iff
      dest: rebase_edits_validD)

interpretation rebase_map: coordinate_map rebase_valid rebase_position
proof unfold_locales
  fix es n m p q
  assume v: "rebase_valid es n m" and "p \<le> n" "rebase_position es n m p = Some q"
  then have "moved 0 0 (edit_views es) p = Some q" by (simp add: rebase_position_moved)
  from moved_le [OF rebase_valid_edits_in(1) [OF v] this] \<open>p \<le> n\<close>
  show "q \<le> m" using rebase_valid_edits_in(3) [OF v] by simp
next
  fix es n m p p' q q'
  assume v: "rebase_valid es n m" and p: "p \<le> p'" "p' \<le> n"
    and "rebase_position es n m p = Some q" "rebase_position es n m p' = Some q'"
  then have "moved 0 0 (edit_views es) p = Some q" "moved 0 0 (edit_views es) p' = Some q'"
    by (simp_all add: rebase_position_moved)
  from moved_mono [OF rebase_valid_edits_in(1) [OF v] _ p(1) this] show "q \<le> q'" by simp
next
  fix es n m
  assume v: "rebase_valid es n m"
  have "moved 0 0 (edit_views es) n = Some m"
    using moved_end [OF rebase_valid_edits_in(1) [OF v] rebase_valid_edits_in(2) [OF v], of 0]
      rebase_valid_edits_in(3) [OF v] by simp
  then show "rebase_position es n m n = Some m" using rebase_position_moved [OF v, of n] by simp
qed

section \<open>The properties of the cursor\<close>

text \<open>
  Mapping an offset through the moving cursor gives exactly the abstract image of the offset
  under the edits, wherever the cursor stood before the call (the offsets may arrive in any order),
  and leaves a context fit for the next call.  An offset strictly inside a replaced range has no
  image.
\<close>

lemma rebase_point_exact:
  assumes "context_ok ctx es" "p \<le> rc_old_length ctx"
  shows "snd (rebase_point ctx p) = map_option int (moved 0 0 (edit_views es) p) \<and>
    context_ok (fst (rebase_point ctx p)) es"
  using rebase_point_moved [OF assms] by simp

lemma restored_text:
  assumes "rebase_valid es (length sql) m" "edits_inv es" "edits_within (length sql) es"
    and "restore_source_edits alloc sql (length sql) limit es = Inr out"
  shows "out = splice sql 0 (edit_views es)" "length out = m"
proof -
  show out: "out = splice sql 0 (edit_views es)"
    by (rule restore_source_edits_cases [OF assms(2,3), of alloc limit]) (use assms(4) in auto)
  show "length out = m"
    using length_splice [OF rebase_valid_edits_in(1) [OF assms(1)]] rebase_valid_edits_in(3) [OF assms(1)]
    unfolding out by simp
qed

text \<open>
  C2.  Rebased coordinates fit the restored text: when the edit list passes the validation for a
  new length, the text restored from the same edits has that length, and every untouched byte of
  the old text stands in the restored text at the offset the rebasing computes for it.
\<close>

theorem rebase_agrees_with_restored_text:
  assumes "context_ok ctx es" "rc_old_length ctx = length sql"
    and "edits_inv es" "edits_within (length sql) es"
    and "restore_source_edits alloc sql (length sql) limit es = Inr out"
  shows "length out = rc_new_length ctx \<and>
    (\<forall>p < length sql. untouched (edit_views es) p \<longrightarrow>
       (\<exists>q. snd (rebase_point ctx p) = Some (int q) \<and> q < length out \<and> out ! q = sql ! p))"
proof -
  let ?v = "edit_views es"
  have valid: "rebase_valid es (length sql) (rc_new_length ctx)"
    using assms(1,2) by (simp add: context_ok_def rebase_valid_def)
  note out = restored_text [OF valid assms(3-5)]
  note ein = rebase_valid_edits_in(1) [OF valid]
  have "\<exists>q. snd (rebase_point ctx p) = Some (int q) \<and> q < length out \<and> out ! q = sql ! p"
    if p: "p < length sql" "untouched ?v p" for p
  proof -
    obtain q where q: "moved 0 0 ?v p = Some q" using moved_Some [OF ein p(2)] by auto
    from nth_splice_moved [OF ein p(2) _ p(1) q] have "q < length out \<and> out ! q = sql ! p"
      using out(1) by simp
    moreover have "snd (rebase_point ctx p) = Some (int q)"
      using rebase_point_moved(1) [OF assms(1), of p] p(1) assms(2) q by simp
    ultimately show ?thesis by blast
  qed
  with out(2) show ?thesis by blast
qed

section \<open>The properties of the plan\<close>

text \<open>Everything but the plan of writes is kept, and a refusal is the out-of-memory exit.\<close>

lemma rebase_record_spec:
  assumes "rebase_record alloc store ctx slot value = (ctx', ok)"
  shows "ok \<Longrightarrow> rc_writes ctx' = rc_writes ctx @ (if store slot = value then [] else [(slot, value)])"
    and "\<not> ok \<Longrightarrow> rc_writes ctx' = rc_writes ctx \<and> rc_no_memory ctx'"
    and "context_ok ctx' es = context_ok ctx es"
    and "ok \<Longrightarrow> rc_no_memory ctx' = rc_no_memory ctx"
  using assms by (auto simp: rebase_record_def Let_def context_ok_def cursor_ok_def
      split: if_splits)

lemma rebase_point_keeps:
  "rc_writes (fst (rebase_point ctx p)) = rc_writes ctx"
  "rc_old_length (fst (rebase_point ctx p)) = rc_old_length ctx"
  "rc_no_memory (fst (rebase_point ctx p)) = rc_no_memory ctx"
  by (simp_all add: rebase_point_def Let_def split: prod.splits)

text \<open>The two writes of a statement.\<close>

lemma rebase_statement_success:
  assumes "rebase_statement alloc store ctx ls len = (ctx', True)" "context_ok ctx es"
    and "store ls \<ge> 0" "ls \<noteq> len"
  shows "\<exists>ws l'. rc_writes ctx' = rc_writes ctx @ ws \<and> context_ok ctx' es \<and>
    store len \<ge> 0 \<and> moved 0 0 (edit_views es) (nat (store ls)) = Some l' \<and>
    (if store len > 0
     then \<exists>e'. moved 0 0 (edit_views es) (nat (store ls) + nat (store len)) = Some e' \<and> l' \<le> e' \<and>
       plan_apply ws store = store(ls := int l', len := int e' - int l')
     else plan_apply ws store = store(ls := int l'))"
proof -
  let ?v = "edit_views es" and ?l = "nat (store ls)" and ?n = "nat (store len)"
  have finish: "\<exists>ws. rc_writes c2 = rc_writes c @ ws \<and> context_ok c2 es \<and>
      plan_apply ws store = store(ls := a, len := b)"
    if r1: "rebase_record alloc store c ls a = (c1, True)"
      and r2: "rebase_record alloc store c1 len b = (c2, True)" and c: "context_ok c es"
    for c c1 c2 a b
  proof -
    let ?ws = "(if store ls = a then [] else [(ls, a)]) @ (if store len = b then [] else [(len, b)])"
    have "rc_writes c2 = rc_writes c @ ?ws" "context_ok c2 es"
      using rebase_record_spec [OF r1] rebase_record_spec [OF r2] c by auto
    moreover have "plan_apply ?ws store = store(ls := a, len := b)" using assms(4) by auto
    ultimately show ?thesis by blast
  qed
  obtain c1 l where p1: "rebase_point ctx ?l = (c1, Some l)" and l0: "store len \<ge> 0"
    using assms(1,3) by (auto simp: rebase_statement_def Let_def split: if_splits prod.splits option.splits)
  have inl: "?l \<le> rc_old_length ctx" using p1 by (auto simp: rebase_point_def split: if_splits)
  have l: "map_option int (moved 0 0 ?v ?l) = Some l" and c1: "context_ok c1 es"
    "rc_writes c1 = rc_writes ctx" "rc_old_length c1 = rc_old_length ctx"
    using rebase_point_moved [OF assms(2) inl] rebase_point_keeps [of ctx ?l] p1 by auto
  then obtain l' where l': "moved 0 0 ?v ?l = Some l'" "l = int l'" by auto
  show ?thesis
  proof (cases "store len > 0")
    case True
    with assms(1,3) p1 l0 obtain c2 e where p2: "rebase_point c1 (?l + ?n) = (c2, Some e)"
      and room: "\<not> ?n > rc_old_length c1 - ?l" and le: "l \<le> e"
      and fin: "(case rebase_record alloc store c2 ls l of
            (c', False) \<Rightarrow> (c', False)
          | (c', True) \<Rightarrow> rebase_record alloc store c' len (e - l)) = (ctx', True)"
      by (auto simp: rebase_statement_def Let_def split: if_splits prod.splits option.splits)
    have "?l + ?n \<le> rc_old_length c1" using p2 by (auto simp: rebase_point_def split: if_splits)
    from rebase_point_moved [OF c1(1) this] rebase_point_keeps [of c1 "?l + ?n"] p2
    have e: "map_option int (moved 0 0 ?v (?l + ?n)) = Some e" and c2: "context_ok c2 es"
      "rc_writes c2 = rc_writes c1" by auto
    then obtain e' where e': "moved 0 0 ?v (?l + ?n) = Some e'" "e = int e'" by auto
    from fin obtain c3 where "rebase_record alloc store c2 ls l = (c3, True)"
      "rebase_record alloc store c3 len (e - l) = (ctx', True)"
      by (auto split: prod.splits bool.splits)
    from finish [OF this c2(1)] show ?thesis using True l0 l' e' le c1 c2 by auto
  next
    case False
    with assms(1,3) p1 l0 have "(case rebase_record alloc store c1 ls l of
            (c', False) \<Rightarrow> (c', False)
          | (c', True) \<Rightarrow> rebase_record alloc store c' len (store len)) = (ctx', True)"
      by (auto simp: rebase_statement_def Let_def)
    then obtain c3 where "rebase_record alloc store c1 ls l = (c3, True)"
      "rebase_record alloc store c3 len (store len) = (ctx', True)"
      by (auto split: prod.splits bool.splits)
    from finish [OF this c1(1)] obtain ws where "rc_writes ctx' = rc_writes c1 @ ws" "context_ok ctx' es"
      "plan_apply ws store = store(ls := l, len := store len)" by blast
    moreover have "store(ls := l, len := store len) = store(ls := l)" using assms(4) by auto
    ultimately show ?thesis using False l0 l' c1 by auto
  qed
qed





text \<open>
  Rebasing a statement span that succeeds plans exactly the writes that move it: after the
  plan is applied the location is the image of the location and, for a statement with a length,
  the length reaches from there to the image of the statement's end; every other slot is kept.
\<close>

lemma rebase_statement_writes_image:
  assumes "rebase_statement alloc store ctx ls len = (ctx', True)" "context_ok ctx es"
    and "store ls \<ge> 0" "ls \<noteq> len"
  shows "\<exists>ws l'. rc_writes ctx' = rc_writes ctx @ ws \<and> context_ok ctx' es \<and>
    store len \<ge> 0 \<and> moved 0 0 (edit_views es) (nat (store ls)) = Some l' \<and>
    (if store len > 0
     then \<exists>e'. moved 0 0 (edit_views es) (nat (store ls) + nat (store len)) = Some e' \<and> l' \<le> e' \<and>
       plan_apply ws store = store(ls := int l', len := int e' - int l')
     else plan_apply ws store = store(ls := int l'))"
  using assms by (rule rebase_statement_success)


text \<open>
  Two spans of the tree that do not overlap before the rebasing do not overlap after it, and
  stay inside the new text.
\<close>

lemma rebase_keeps_spans_disjoint:
  assumes "rebase_valid es n m" "a \<le> b" "b \<le> c" "c \<le> d" "d \<le> n"
    and "rebase_position es n m a = Some a'" "rebase_position es n m b = Some b'"
    and "rebase_position es n m c = Some c'" "rebase_position es n m d = Some d'"
  shows "a' \<le> b' \<and> b' \<le> c' \<and> c' \<le> d' \<and> d' \<le> m"
  using assms by (rule rebase_map.spans_stay_disjoint)

section \<open>Instances\<close>

text \<open>Ten bytes; bytes 2 to 5 become one byte.\<close>

definition one_edit :: source_edits where
  "one_edit = \<lparr>edit_items = [\<lparr>source_start = 2, source_end = 5, replacement = Some ''x'',
     replacement_length = 1\<rparr>], edit_capacity = 4\<rparr>"

lemma one_edit_valid: "rebase_valid one_edit 10 8"
  by (simp add: rebase_valid_def one_edit_def rebase_edits_valid_def sizeof_edit_def SIZE_MAX_def
      INT32_MAX_def edit_wf_def)

lemma one_edit_views: "edit_views one_edit = [(2, 5, ''x'')]"
  by (simp add: one_edit_def edit_view_def)

lemma one_edit_context: "context_ok (rebase_start one_edit 10 8 :: nat rebase_context) one_edit"
  using one_edit_valid unfolding rebase_valid_def by (elim conjE) (rule context_ok_start)

lemma one_edit_inv: "edits_inv one_edit" "edits_within 10 one_edit"
  by (simp_all add: edits_inv_def edits_within_def one_edit_def edit_wf_def sizeof_edit_def
      SIZE_MAX_def)

lemma rebase_point_exact_witness:
  "snd (rebase_point (rebase_start one_edit 10 8 :: nat rebase_context) 7) = Some 5"
  using rebase_point_exact [OF one_edit_context, of 7]
  by (simp add: rebase_start_def one_edit_def edit_view_def)

theorem rebase_agrees_with_restored_text_witness:
  "length ''01x56789'' = rc_new_length (rebase_start one_edit 10 8 :: nat rebase_context)"
proof -
  have "restore_source_edits (\<lambda>_ _. True) ''0123456789'' (length ''0123456789'') 20 one_edit
      = Inr ''01x56789''"
    by (simp add: restore_source_edits_def one_edit_def SIZE_MAX_def slice_def)
  from rebase_agrees_with_restored_text [OF one_edit_context _ one_edit_inv(1) _ this]
  show ?thesis using one_edit_inv(2) by (simp add: rebase_start_def)
qed

lemma statement_run:
  defines "store \<equiv> (\<lambda>s. if s = 0 then 5 else if s = 1 then 4 else 0) :: nat \<Rightarrow> int"
  shows "\<exists>ctx'. rebase_statement (\<lambda>_ _. True) store (rebase_start one_edit 10 8) 0 1 = (ctx', True)"
  by (simp add: store_def rebase_statement_def rebase_start_def one_edit_def rebase_point_def
      cursor_forward.simps edit_delta_def rebase_record_def INLINE_WRITES_def INT32_MAX_def)

lemma rebase_statement_writes_image_witness:
  "\<exists>ctx' ws. rebase_statement (\<lambda>_ _. True) (\<lambda>s::nat. if s = 0 then 5 else if s = 1 then 4 else 0)
      (rebase_start one_edit 10 8) 0 1 = (ctx', True) \<and> rc_writes ctx' = ws \<and>
    plan_apply ws (\<lambda>s::nat. if s = 0 then 5 else if s = 1 then 4 else 0)
      = (\<lambda>s. if s = 0 then 5 else if s = 1 then 4 else 0)(0 := 3, 1 := 4)"
proof -
  obtain ctx' :: "nat rebase_context" where run: "rebase_statement (\<lambda>_ _. True)
      (\<lambda>s. if s = 0 then 5 else if s = 1 then 4 else 0) (rebase_start one_edit 10 8) 0 1 = (ctx', True)"
    using statement_run by auto
  from rebase_statement_writes_image [OF run one_edit_context]
  have "plan_apply (rc_writes ctx') (\<lambda>s. if s = 0 then 5 else if s = 1 then 4 else 0)
      = (\<lambda>s. if s = 0 then 5 else if s = 1 then 4 else 0)(0 := 3, 1 := 4)"
    by (auto simp: one_edit_views rebase_start_def)
  with run show ?thesis by blast
qed


lemma rebase_keeps_spans_disjoint_witness:
  "rebase_position one_edit 10 8 0 = Some 0 \<and> rebase_position one_edit 10 8 2 = Some 2 \<and>
   rebase_position one_edit 10 8 5 = Some 3 \<and> rebase_position one_edit 10 8 9 = Some 7 \<and>
   (0::nat) \<le> 2 \<and> (2::nat) \<le> 3 \<and> (3::nat) \<le> 7 \<and> (7::nat) \<le> 8"
proof -
  have p: "rebase_position one_edit 10 8 0 = Some 0" "rebase_position one_edit 10 8 2 = Some 2"
    "rebase_position one_edit 10 8 5 = Some 3" "rebase_position one_edit 10 8 9 = Some 7"
    by (simp_all add: rebase_position_moved [OF one_edit_valid] one_edit_views)
  from rebase_keeps_spans_disjoint [OF one_edit_valid _ _ _ _ p] p show ?thesis by simp
qed

end
