(* ===== verification/Identifier_Origin.thy ===== *)
theory Identifier_Origin
  imports Sql_Dialect
begin

text \<open>
  Where the identifiers of the parser SQL come from (\<^verbatim>\<open>src/core/sqlparser_identifier_origin.c\<close>).  A
  map lists, for the bytes a dialect preprocessor wrote, runs copied from the source, identifiers
  taken from the source as a whole, and generated identifiers; the bytes in no run are unknown.
  A writer builds the map of one more rewriting step out of the map of the steps before.  The
  abstraction of a map is one cell per byte, and every operation is refined to lists of cells.
\<close>

section \<open>State\<close>

datatype run_kind = SOURCE_LINEAR | SOURCE_IDENTIFIER | GENERATED

record origin_run =
  run_kind :: run_kind
  output_offset :: nat
  output_length :: nat
  run_source_offset :: nat
  run_source_length :: nat

text \<open>\<^verbatim>\<open>sqlparser_identifier_origin_map_t\<close>; \<^verbatim>\<open>run_count\<close> is the length of the list.\<close>

record origin_map =
  map_runs :: "origin_run list"
  map_length :: nat

text \<open>
  \<^verbatim>\<open>sqlparser_identifier_origin_writer_t\<close>.  A released writer has no map.  Every operation treats a
  NULL writer pointer like a writer without a map, and is modelled on the latter.
\<close>

record origin_writer =
  writer_map :: "origin_map option"
  writer_runs :: "origin_run list"
  writer_capacity :: nat
  writer_length :: nat

definition released_writer :: origin_writer where
  "released_writer = \<lparr>writer_map = None, writer_runs = [], writer_capacity = 0, writer_length = 0\<rparr>"

text \<open>\<^verbatim>\<open>sqlparser_identifier_origin_kind_t\<close> with the source range of \<^verbatim>\<open>sqlparser_identifier_origin_t\<close>\<close>

datatype origin = ORIGIN_UNKNOWN | ORIGIN_SOURCE nat nat | ORIGIN_GENERATED

text \<open>A call that returns a status and changes the writer: \<open>None\<close> is OK.\<close>

type_synonym writer_result = "sql_error option \<times> origin_writer"

abbreviation refuse :: "status \<Rightarrow> string \<Rightarrow> origin_writer \<Rightarrow> writer_result" where
  "refuse c m w \<equiv> (Some (error_set_message c m), w)"

section \<open>Runs\<close>

text \<open>\<^verbatim>\<open>sqlparser_identifier_origin_size_add\<close>\<close>

definition size_add :: "nat \<Rightarrow> nat \<Rightarrow> nat option" where
  "size_add left right = (if right > SIZE_MAX - left then None else Some (left + right))"

text \<open>\<^verbatim>\<open>sizeof(sqlparser_identifier_origin_run_t)\<close>\<close>

definition sizeof_run :: nat where "sizeof_run = 40"

text \<open>
  The doubling loop of \<^verbatim>\<open>sqlparser_identifier_origin_reserve_runs\<close>; the loop starts at 8 or more, and
  stopping at 0 only makes the recursion total.
\<close>

function double_capacity :: "nat \<Rightarrow> nat \<Rightarrow> nat option" where
  "double_capacity next required =
     (if required \<le> next \<or> next = 0 then Some next
      else if next > SIZE_MAX div 2 then None
      else double_capacity (next * 2) required)"
  by pat_completeness auto
termination
  by (relation "measure (\<lambda>(next, required). required - next)") auto

declare double_capacity.simps [simp del]

text \<open>The new capacity, or the error; \<open>alloc k n\<close> answers the growth for \<open>k\<close> runs.\<close>

definition reserve_runs :: "allocator \<Rightarrow> nat \<Rightarrow> nat \<Rightarrow> sql_error + nat" where
  "reserve_runs alloc capacity required =
     (if required \<le> capacity then Inr capacity
      else case double_capacity (if capacity = 0 then 8 else capacity) required of
        None \<Rightarrow> fail NO_MEMORY ''identifier origin map is too large''
      | Some next_capacity \<Rightarrow>
          if next_capacity > SIZE_MAX div sizeof_run
          then fail NO_MEMORY ''identifier origin map is too large''
          else if \<not> alloc required (next_capacity * sizeof_run)
          then fail NO_MEMORY ''out of memory''
          else Inr next_capacity)"

definition run_can_merge :: "origin_run \<Rightarrow> origin_run \<Rightarrow> bool" where
  "run_can_merge left right =
     (if run_kind left \<noteq> SOURCE_LINEAR \<or> run_kind right \<noteq> SOURCE_LINEAR then False
      else case size_add (output_offset left) (output_length left) of
        None \<Rightarrow> False
      | Some left_output_end \<Rightarrow>
          if left_output_end \<noteq> output_offset right then False
          else case size_add (run_source_offset left) (run_source_length left) of
            None \<Rightarrow> False
          | Some left_source_end \<Rightarrow> left_source_end = run_source_offset right)"

definition writer_append_run ::
  "allocator \<Rightarrow> origin_writer \<Rightarrow> origin_run \<Rightarrow> writer_result" where
  "writer_append_run alloc w run =
     (if output_length run = 0 then (None, w)
      else if writer_runs w \<noteq> [] \<and> run_can_merge (last (writer_runs w)) run
      then
        let previous = last (writer_runs w); before = butlast (writer_runs w)
        in case size_add (output_length previous) (output_length run) of
             None \<Rightarrow> refuse NO_MEMORY ''identifier origin map is too large'' w
           | Some merged_output_length \<Rightarrow>
               let previous = previous\<lparr>output_length := merged_output_length\<rparr>;
                 w = w\<lparr>writer_runs := before @ [previous]\<rparr>
               in if run_kind previous = SOURCE_LINEAR
                  then case size_add (run_source_length previous) (run_source_length run) of
                         None \<Rightarrow> refuse NO_MEMORY ''identifier origin map is too large'' w
                       | Some merged_source_length \<Rightarrow>
                           (None, w\<lparr>writer_runs :=
                             before @ [previous\<lparr>run_source_length := merged_source_length\<rparr>]\<rparr>)
                  else (None, w)
      else case reserve_runs alloc (writer_capacity w) (length (writer_runs w) + 1) of
             Inl e \<Rightarrow> (Some e, w)
           | Inr capacity \<Rightarrow>
               (None, w\<lparr>writer_capacity := capacity, writer_runs := writer_runs w @ [run]\<rparr>))"

text \<open>The binary search of \<^verbatim>\<open>sqlparser_identifier_origin_first_run\<close>.\<close>

function first_run_search :: "origin_run list \<Rightarrow> nat \<Rightarrow> nat \<Rightarrow> nat \<Rightarrow> nat" where
  "first_run_search runs offset left right =
     (if left < right
      then
        let middle = left + (right - left) div 2
        in case size_add (output_offset (runs ! middle)) (output_length (runs ! middle)) of
             None \<Rightarrow> first_run_search runs offset (middle + 1) right
           | Some run_end \<Rightarrow>
               if run_end \<le> offset then first_run_search runs offset (middle + 1) right
               else first_run_search runs offset left middle
      else left)"
  by pat_completeness auto
termination
  by (relation "measure (\<lambda>(runs, offset, left, right). right - left)") auto

declare first_run_search.simps [simp del]

definition first_run :: "origin_map \<Rightarrow> nat \<Rightarrow> nat" where
  "first_run m offset = first_run_search (map_runs m) offset 0 (length (map_runs m))"

section \<open>Maps\<close>

text \<open>
  \<^verbatim>\<open>sqlparser_identifier_origin_map_new_identity\<close>; allocation 0 is the map, 1 its run.
\<close>

definition map_new_identity :: "allocator \<Rightarrow> nat \<Rightarrow> bool \<Rightarrow> sql_error + origin_map" where
  "map_new_identity alloc input_length out_present =
     (if \<not> out_present
      then fail INVALID_ARGUMENT ''identifier origin map output must not be NULL''
      else if \<not> alloc 0 24 then fail NO_MEMORY ''out of memory''
      else if input_length > 0
      then if \<not> alloc 1 sizeof_run then fail NO_MEMORY ''out of memory''
        else Inr \<lparr>map_runs = [\<lparr>run_kind = SOURCE_LINEAR, output_offset = 0,
               output_length = input_length, run_source_offset = 0,
               run_source_length = input_length\<rparr>], map_length = input_length\<rparr>
      else Inr \<lparr>map_runs = [], map_length = input_length\<rparr>)"

text \<open>\<^verbatim>\<open>sqlparser_identifier_origin_map_clone\<close>: a NULL source is a NULL copy.\<close>

definition map_clone :: "allocator \<Rightarrow> origin_map option \<Rightarrow> sql_error + origin_map option" where
  "map_clone alloc source =
     (case source of
        None \<Rightarrow> Inr None
      | Some m \<Rightarrow>
          if \<not> alloc 0 24 then fail NO_MEMORY ''out of memory''
          else if map_runs m \<noteq> [] \<and> length (map_runs m) > SIZE_MAX div sizeof_run
          then fail NO_MEMORY ''out of memory''
          else if map_runs m \<noteq> [] \<and> \<not> alloc 1 (length (map_runs m) * sizeof_run)
          then fail NO_MEMORY ''out of memory''
          else Inr (Some \<lparr>map_runs = map_runs m, map_length = map_length m\<rparr>))"

definition map_output_length :: "origin_map option \<Rightarrow> nat" where
  "map_output_length m = (case m of None \<Rightarrow> 0 | Some m \<Rightarrow> map_length m)"

text \<open>
  The walk of \<^verbatim>\<open>sqlparser_identifier_origin_map_lookup\<close> over linear runs, from the run at hand: the
  source range found so far is \<open>source_offset..source_end\<close>, and the walk ends with the range or
  with UNKNOWN.
\<close>

fun lookup_linear ::
  "origin_run list \<Rightarrow> nat \<Rightarrow> nat \<Rightarrow> nat \<Rightarrow> nat \<Rightarrow> nat \<Rightarrow> origin" where
  "lookup_linear runs parser_offset parser_end position source_offset source_end =
     (if position < parser_end
      then (case runs of
              [] \<Rightarrow> ORIGIN_UNKNOWN
            | run # rest \<Rightarrow>
                if output_offset run > position then ORIGIN_UNKNOWN
                else case size_add (output_offset run) (output_length run) of
                  None \<Rightarrow> ORIGIN_UNKNOWN
                | Some run_end \<Rightarrow>
                    if run_end \<le> position \<or> run_kind run \<noteq> SOURCE_LINEAR then ORIGIN_UNKNOWN
                    else
                      let overlap_end = min run_end parser_end
                      in case size_add (run_source_offset run) (position - output_offset run) of
                           None \<Rightarrow> ORIGIN_UNKNOWN
                         | Some overlap_source \<Rightarrow>
                             if position \<noteq> parser_offset \<and> overlap_source \<noteq> source_end
                             then ORIGIN_UNKNOWN
                             else case size_add overlap_source (overlap_end - position) of
                               None \<Rightarrow> ORIGIN_UNKNOWN
                             | Some new_end \<Rightarrow>
                                 lookup_linear rest parser_offset parser_end overlap_end
                                   (if position = parser_offset then overlap_source
                                    else source_offset) new_end)
      else ORIGIN_SOURCE source_offset (source_end - source_offset))"

declare lookup_linear.simps [simp del]

definition map_lookup :: "origin_map option \<Rightarrow> nat \<Rightarrow> nat \<Rightarrow> origin" where
  "map_lookup map_opt parser_offset parser_length =
     (case map_opt of
        None \<Rightarrow> ORIGIN_UNKNOWN
      | Some m \<Rightarrow>
          if parser_length = 0 then ORIGIN_UNKNOWN
          else case size_add parser_offset parser_length of
            None \<Rightarrow> ORIGIN_UNKNOWN
          | Some parser_end \<Rightarrow>
              if parser_end > map_length m then ORIGIN_UNKNOWN
              else
                let run_index = first_run m parser_offset
                in if run_index \<ge> length (map_runs m) then ORIGIN_UNKNOWN
                   else
                     let run = map_runs m ! run_index
                     in if output_offset run > parser_offset then ORIGIN_UNKNOWN
                        else if run_kind run = SOURCE_IDENTIFIER \<or> run_kind run = GENERATED
                        then
                          if output_offset run \<noteq> parser_offset then ORIGIN_UNKNOWN
                          else case size_add (output_offset run) (output_length run) of
                            None \<Rightarrow> ORIGIN_UNKNOWN
                          | Some run_end \<Rightarrow>
                              if run_end \<noteq> parser_end then ORIGIN_UNKNOWN
                              else if run_kind run = GENERATED then ORIGIN_GENERATED
                              else ORIGIN_SOURCE (run_source_offset run) (run_source_length run)
                        else lookup_linear (drop run_index (map_runs m)) parser_offset parser_end
                               parser_offset 0 0)"

section \<open>The writer\<close>

text \<open>\<^verbatim>\<open>sqlparser_identifier_origin_writer_begin\<close>; \<open>writer_present\<close> tells a non-NULL writer.\<close>

definition writer_begin :: "bool \<Rightarrow> origin_map option \<Rightarrow> nat \<Rightarrow> sql_error + origin_writer" where
  "writer_begin writer_present map_opt input_length =
     (case map_opt of
        None \<Rightarrow> fail INVALID_ARGUMENT ''identifier origin writer arguments must not be NULL''
      | Some m \<Rightarrow>
          if \<not> writer_present
          then fail INVALID_ARGUMENT ''identifier origin writer arguments must not be NULL''
          else if map_length m \<noteq> input_length
          then fail INTERNAL_ERROR ''identifier origin input length does not match SQL''
          else Inr \<lparr>writer_map = Some m, writer_runs = [], writer_capacity = 0,
                 writer_length = 0\<rparr>)"

text \<open>The part of an input run that \<^verbatim>\<open>append_input\<close> copies; \<open>None\<close> when it skips the run.\<close>

definition clip_run :: "nat \<Rightarrow> nat \<Rightarrow> nat \<Rightarrow> nat \<Rightarrow> origin_run \<Rightarrow> origin_run option" where
  "clip_run written input_offset input_end input_run_end input_run =
     (let overlap_start = max (output_offset input_run) input_offset;
        overlap_end = min input_run_end input_end;
        run = \<lparr>run_kind = run_kind input_run,
          output_offset = wrap_size (written + overlap_start - input_offset),
          output_length = overlap_end - overlap_start,
          run_source_offset = 0, run_source_length = 0\<rparr>
      in if overlap_start \<ge> overlap_end then None
         else if run_kind input_run = SOURCE_LINEAR
         then Some (run\<lparr>run_source_offset :=
                wrap_size (run_source_offset input_run + overlap_start - output_offset input_run),
                run_source_length := output_length run\<rparr>)
         else if overlap_start \<noteq> output_offset input_run \<or> overlap_end \<noteq> input_run_end then None
         else Some (run\<lparr>run_source_offset := run_source_offset input_run,
                run_source_length := run_source_length input_run\<rparr>))"

text \<open>The loop of \<^verbatim>\<open>append_input\<close> over the runs from the first one that reaches the range.\<close>

fun append_input_loop ::
  "allocator \<Rightarrow> nat \<Rightarrow> nat \<Rightarrow> nat \<Rightarrow> origin_writer \<Rightarrow> origin_run list \<Rightarrow> writer_result" where
  "append_input_loop alloc written input_offset input_end w [] = (None, w)"
| "append_input_loop alloc written input_offset input_end w (input_run # rest) =
     (if output_offset input_run \<ge> input_end then (None, w)
      else case size_add (output_offset input_run) (output_length input_run) of
        None \<Rightarrow> refuse INTERNAL_ERROR ''identifier origin map is invalid'' w
      | Some input_run_end \<Rightarrow>
          (case clip_run written input_offset input_end input_run_end input_run of
             None \<Rightarrow> append_input_loop alloc written input_offset input_end w rest
           | Some run \<Rightarrow>
               (case writer_append_run alloc w run of
                  (Some e, w') \<Rightarrow> (Some e, w')
                | (None, w') \<Rightarrow> append_input_loop alloc written input_offset input_end w' rest)))"

definition writer_append_input ::
  "allocator \<Rightarrow> origin_writer \<Rightarrow> nat \<Rightarrow> nat \<Rightarrow> writer_result" where
  "writer_append_input alloc w input_offset len =
     (case (writer_map w, size_add input_offset len, size_add (writer_length w) len) of
        (Some m, Some input_end, Some output_end) \<Rightarrow>
          if input_end > map_length m
          then refuse INVALID_ARGUMENT ''identifier origin input range is invalid'' w
          else if len = 0 then (None, w)
          else (case append_input_loop alloc (writer_length w) input_offset input_end w
                  (drop (first_run m input_offset) (map_runs m)) of
                  (Some e, w') \<Rightarrow> (Some e, w')
                | (None, w') \<Rightarrow> (None, w'\<lparr>writer_length := output_end\<rparr>))
      | _ \<Rightarrow> refuse INVALID_ARGUMENT ''identifier origin input range is invalid'' w)"

definition writer_append_unknown :: "origin_writer \<Rightarrow> nat \<Rightarrow> writer_result" where
  "writer_append_unknown w len =
     (case (writer_map w, size_add (writer_length w) len) of
        (Some m, Some output_end) \<Rightarrow> (None, w\<lparr>writer_length := output_end\<rparr>)
      | _ \<Rightarrow> refuse INVALID_ARGUMENT ''identifier origin output range is invalid'' w)"

definition writer_append_generated ::
  "allocator \<Rightarrow> origin_writer \<Rightarrow> nat \<Rightarrow> writer_result" where
  "writer_append_generated alloc w len =
     (case (writer_map w, size_add (writer_length w) len) of
        (Some m, Some output_end) \<Rightarrow>
          (case writer_append_run alloc w \<lparr>run_kind = GENERATED,
                  output_offset = writer_length w, output_length = len,
                  run_source_offset = 0, run_source_length = 0\<rparr> of
             (Some e, w') \<Rightarrow> (Some e, w')
           | (None, w') \<Rightarrow> (None, w'\<lparr>writer_length := output_end\<rparr>))
      | _ \<Rightarrow> refuse INVALID_ARGUMENT ''generated identifier origin range is invalid'' w)"

definition writer_append_source ::
  "allocator \<Rightarrow> origin_writer \<Rightarrow> nat \<Rightarrow> nat \<Rightarrow> nat \<Rightarrow> writer_result" where
  "writer_append_source alloc w input_offset input_length len =
     (case (writer_map w, size_add (writer_length w) len) of
        (Some m, Some output_end) \<Rightarrow>
          (case map_lookup (Some m) input_offset input_length of
             ORIGIN_UNKNOWN \<Rightarrow> (None, w\<lparr>writer_length := output_end\<rparr>)
           | ORIGIN_GENERATED \<Rightarrow> writer_append_generated alloc w len
           | ORIGIN_SOURCE source_offset source_length \<Rightarrow>
               (case writer_append_run alloc w \<lparr>run_kind = SOURCE_IDENTIFIER,
                       output_offset = writer_length w, output_length = len,
                       run_source_offset = source_offset,
                       run_source_length = source_length\<rparr> of
                  (Some e, w') \<Rightarrow> (Some e, w')
                | (None, w') \<Rightarrow> (None, w'\<lparr>writer_length := output_end\<rparr>)))
      | _ \<Rightarrow> refuse INVALID_ARGUMENT ''source identifier origin range is invalid'' w)"

text \<open>One run of \<^verbatim>\<open>append_map\<close>, behind the unknown bytes before it.\<close>

definition append_map_run ::
  "allocator \<Rightarrow> origin_writer \<Rightarrow> nat \<Rightarrow> origin_run \<Rightarrow> writer_result" where
  "append_map_run alloc w input_offset run =
     (if run_kind run = GENERATED then writer_append_generated alloc w (output_length run)
      else case size_add input_offset (run_source_offset run) of
        None \<Rightarrow> refuse RESOURCE_LIMIT ''identifier origin source offset is too large'' w
      | Some run_offset \<Rightarrow>
          if run_kind run = SOURCE_LINEAR
          then if output_length run \<noteq> run_source_length run
            then refuse INTERNAL_ERROR ''linear identifier origin run is invalid'' w
            else writer_append_input alloc w run_offset (run_source_length run)
          else writer_append_source alloc w run_offset (run_source_length run) (output_length run))"

fun append_map_loop ::
  "allocator \<Rightarrow> nat \<Rightarrow> nat \<Rightarrow> nat \<Rightarrow> origin_writer \<Rightarrow> origin_run list \<Rightarrow> writer_result \<times> nat" where
  "append_map_loop alloc limit input_offset input_cursor w [] = ((None, w), input_cursor)"
| "append_map_loop alloc limit input_offset input_cursor w (run # rest) =
     (let invalid = (refuse INTERNAL_ERROR ''identifier origin input map is invalid'' w, input_cursor)
      in case size_add (output_offset run) (output_length run) of
           None \<Rightarrow> invalid
         | Some run_end \<Rightarrow>
             if run_end > limit \<or> output_offset run < input_cursor then invalid
             else (case writer_append_unknown w (output_offset run - input_cursor) of
                     (Some e, w1) \<Rightarrow> ((Some e, w1), input_cursor)
                   | (None, w1) \<Rightarrow>
                       (case append_map_run alloc w1 input_offset run of
                          (Some e, w2) \<Rightarrow> ((Some e, w2), input_cursor)
                        | (None, w2) \<Rightarrow>
                            append_map_loop alloc limit input_offset run_end w2 rest)))"

definition writer_append_map ::
  "allocator \<Rightarrow> origin_writer \<Rightarrow> origin_map option \<Rightarrow> nat \<Rightarrow> writer_result" where
  "writer_append_map alloc w input_map input_offset =
     (case (writer_map w, input_map) of
        (Some m, Some inp) \<Rightarrow>
          (case size_add (writer_length w) (map_length inp) of
             None \<Rightarrow> refuse INVALID_ARGUMENT ''identifier origin map append is invalid'' w
           | Some output_end \<Rightarrow>
               (case append_map_loop alloc (map_length inp) input_offset 0 w (map_runs inp) of
                  ((Some e, w1), _) \<Rightarrow> (Some e, w1)
                | ((None, w1), input_cursor) \<Rightarrow>
                    (case writer_append_unknown w1 (map_length inp - input_cursor) of
                       (Some e, w2) \<Rightarrow> (Some e, w2)
                     | (None, w2) \<Rightarrow>
                         if writer_length w2 \<noteq> output_end
                         then refuse INTERNAL_ERROR
                                ''identifier origin map append length is invalid'' w2
                         else (None, w2))))
      | _ \<Rightarrow> refuse INVALID_ARGUMENT ''identifier origin map append is invalid'' w)"

text \<open>\<^verbatim>\<open>sqlparser_identifier_origin_writer_commit\<close>: the map after the call, and the reset writer.\<close>

definition writer_commit ::
  "origin_writer \<Rightarrow> nat \<Rightarrow> sql_error + origin_map \<times> origin_writer" where
  "writer_commit w len =
     (case writer_map w of
        None \<Rightarrow> fail INTERNAL_ERROR ''identifier origin output length does not match parser SQL''
      | Some m \<Rightarrow>
          if writer_length w \<noteq> len
          then fail INTERNAL_ERROR ''identifier origin output length does not match parser SQL''
          else Inr (m\<lparr>map_runs := writer_runs w, map_length := writer_length w\<rparr>,
                 released_writer))"

definition writer_release :: "origin_writer \<Rightarrow> origin_writer" where
  "writer_release w = released_writer"

section \<open>The preprocessing entry\<close>

text \<open>
  \<^verbatim>\<open>sqlparser_identifier_origin_preprocess_for_dialect\<close>: the module whose preprocessor runs, named by
  the operation table of that module.
\<close>

fun preprocess_for_dialect :: "dialect option \<Rightarrow> ops_table option" where
  "preprocess_for_dialect (Some POSTGRESQL) = Some Postgresql_Ops"
| "preprocess_for_dialect (Some MYSQL) = Some Mysql_Ops"
| "preprocess_for_dialect (Some ORACLE) = Some Oracle_Ops"
| "preprocess_for_dialect (Some SQLSERVER) = Some Sqlserver_Ops"
| "preprocess_for_dialect (Some DAMENG) = Some Dameng_Ops"
| "preprocess_for_dialect (Some VASTBASE_ORACLE) = Some Vastbase_Oracle_Ops"
| "preprocess_for_dialect (Some VASTBASE_MYSQL) = Some Vastbase_Mysql_Ops"
| "preprocess_for_dialect (Some VASTBASE_POSTGRESQL) = Some Vastbase_Postgresql_Ops"
| "preprocess_for_dialect (Some VASTBASE_SQLSERVER) = Some Vastbase_Sqlserver_Ops"
| "preprocess_for_dialect (Some KINGBASE_ORACLE) = Some Kingbase_Oracle_Ops"
| "preprocess_for_dialect (Some KINGBASE_MYSQL) = Some Mysql_Ops"
| "preprocess_for_dialect (Some KINGBASE_POSTGRESQL) = Some Postgresql_Ops"
| "preprocess_for_dialect (Some KINGBASE_SQLSERVER) = Some Sqlserver_Ops"
| "preprocess_for_dialect None = None"

text \<open>
  What a module's preprocessor leaves behind: its error if any, \<^verbatim>\<open>*out_parser_sql\<close>, \<^verbatim>\<open>*out_state\<close> and
  the map it rewrote in place.  The rewriters themselves are an argument.
\<close>

record 'state preprocess_outcome =
  pre_error :: "sql_error option"
  pre_sql :: "string option"
  pre_state :: "'state option"
  pre_map :: origin_map

text \<open>
  \<^verbatim>\<open>sqlparser_dialect_preprocess_identifier_origins\<close>.  The second component of the result lists the
  states handed to the table's \<^verbatim>\<open>destroy_state\<close> (\<open>destroys\<close> tells the tables that have one).
\<close>

definition preprocess_identifier_origins ::
  "allocator \<Rightarrow> (ops_table \<Rightarrow> string \<Rightarrow> origin_map \<Rightarrow> 'state preprocess_outcome) \<Rightarrow>
   (ops_table \<Rightarrow> bool) \<Rightarrow> dialect option \<Rightarrow> string option \<Rightarrow> bool \<Rightarrow> bool \<Rightarrow> bool \<Rightarrow>
   (sql_error + string \<times> 'state option \<times> origin_map) \<times> (ops_table \<times> 'state) list" where
  "preprocess_identifier_origins alloc preprocess destroys d input_sql sql_present state_present
     origins_present =
     (case input_sql of
        None \<Rightarrow> (fail INVALID_ARGUMENT ''identifier origin preprocess arguments must not be NULL'', [])
      | Some sql \<Rightarrow>
          if \<not> sql_present \<or> \<not> state_present \<or> \<not> origins_present
          then (fail INVALID_ARGUMENT ''identifier origin preprocess arguments must not be NULL'', [])
          else case preprocess_for_dialect d of
            None \<Rightarrow> (fail UNSUPPORTED
                      ''identifier origin preprocess is not implemented for dialect'', [])
          | Some owner \<Rightarrow>
              (case map_new_identity alloc (length sql) True of
                 Inl e \<Rightarrow> (Inl e, [])
               | Inr origins \<Rightarrow>
                   let out = preprocess owner sql origins;
                     err = (case pre_error out of
                         Some e \<Rightarrow> Some e
                       | None \<Rightarrow>
                           if (case pre_sql out of
                                 None \<Rightarrow> True
                               | Some text \<Rightarrow>
                                   map_output_length (Some (pre_map out)) \<noteq> length text)
                           then Some (error_set_message INTERNAL_ERROR
                             ''identifier origin output length does not match parser SQL'')
                           else None)
                   in case err of
                        Some e \<Rightarrow>
                          (Inl e, case (pre_state out, dialect_get_ops d) of
                             (Some st, Some ops) \<Rightarrow> if destroys ops then [(ops, st)] else []
                           | _ \<Rightarrow> [])
                      | None \<Rightarrow> (Inr (the (pre_sql out), pre_state out, pre_map out), [])))"

section \<open>Cells\<close>

text \<open>
  What a map says of one byte: nothing, the byte of the source it copies, or its place in an
  identifier of a given length that stands for a source range or was generated.
\<close>

datatype cell = Unknown | Linear nat | Ident nat nat nat nat | Generated nat nat

definition run_cell :: "origin_run \<Rightarrow> nat \<Rightarrow> cell" where
  "run_cell r k = (case run_kind r of
       SOURCE_LINEAR \<Rightarrow> Linear (run_source_offset r + k)
     | SOURCE_IDENTIFIER \<Rightarrow>
         Ident k (output_length r) (run_source_offset r) (run_source_length r)
     | GENERATED \<Rightarrow> Generated k (output_length r))"

definition run_cells :: "origin_run \<Rightarrow> cell list" where
  "run_cells r = map (run_cell r) [0..<output_length r]"

abbreviation run_end :: "origin_run \<Rightarrow> nat" where
  "run_end r \<equiv> output_offset r + output_length r"

text \<open>The cells of the bytes \<open>c..n\<close>.\<close>

fun cells_from :: "nat \<Rightarrow> nat \<Rightarrow> origin_run list \<Rightarrow> cell list" where
  "cells_from c n [] = replicate (n - c) Unknown"
| "cells_from c n (r # rs) =
     replicate (output_offset r - c) Unknown @ run_cells r @ cells_from (run_end r) n rs"

definition map_cells :: "origin_map \<Rightarrow> cell list" where
  "map_cells m = cells_from 0 (map_length m) (map_runs m)"

definition writer_cells :: "origin_writer \<Rightarrow> cell list" where
  "writer_cells w = cells_from 0 (writer_length w) (writer_runs w)"

text \<open>
  A run of a map over \<open>N\<close> source bytes is not empty, stays inside the source, and a linear run is as
  long as what it copies.
\<close>

definition run_ok :: "nat \<Rightarrow> origin_run \<Rightarrow> bool" where
  "run_ok N r = (0 < output_length r \<and> run_source_offset r + run_source_length r \<le> N \<and>
     (run_kind r = SOURCE_LINEAR \<longrightarrow> run_source_length r = output_length r))"

fun runs_ok :: "nat \<Rightarrow> nat \<Rightarrow> nat \<Rightarrow> origin_run list \<Rightarrow> bool" where
  "runs_ok N c n [] = (c \<le> n)"
| "runs_ok N c n (r # rs) = (c \<le> output_offset r \<and> run_end r \<le> n \<and> run_ok N r \<and>
     runs_ok N (run_end r) n rs)"

definition map_ok :: "nat \<Rightarrow> origin_map \<Rightarrow> bool" where
  "map_ok N m = (N \<le> SIZE_MAX \<and> map_length m \<le> SIZE_MAX \<and> runs_ok N 0 (map_length m) (map_runs m))"

definition writer_ok :: "nat \<Rightarrow> origin_writer \<Rightarrow> bool" where
  "writer_ok N w = ((\<exists>m. writer_map w = Some m \<and> map_ok N m) \<and> writer_length w \<le> SIZE_MAX \<and>
     runs_ok N 0 (writer_length w) (writer_runs w))"

section \<open>Lists of runs\<close>

lemma size_add_0 [simp]: "size_add a 0 = Some a"
  by (simp add: size_add_def)

lemma size_add_fits: "a + b \<le> SIZE_MAX \<Longrightarrow> size_add a b = Some (a + b)"
  by (simp add: size_add_def)

lemma length_run_cells [simp]: "length (run_cells r) = output_length r"
  by (simp add: run_cells_def)

lemma runs_ok_le: "runs_ok N c n rs \<Longrightarrow> c \<le> n"
  by (induction N c n rs rule: runs_ok.induct) auto

lemma length_cells_from [simp]: "runs_ok N c n rs \<Longrightarrow> length (cells_from c n rs) = n - c"
  by (induction N c n rs rule: runs_ok.induct) (auto dest: runs_ok_le)

lemma runs_ok_extend: "runs_ok N c n rs \<Longrightarrow> n \<le> n' \<Longrightarrow> runs_ok N c n' rs"
  by (induction N c n rs rule: runs_ok.induct) auto

lemma replicate_merge: "replicate a x @ replicate b x = replicate (a + b) x"
  by (simp add: replicate_add)

lemma cells_from_extend:
  "runs_ok N c n rs \<Longrightarrow> n \<le> n' \<Longrightarrow>
     cells_from c n' rs = cells_from c n rs @ replicate (n' - n) Unknown"
  by (induction N c n rs rule: runs_ok.induct) (auto simp: replicate_merge)

lemma runs_ok_snoc:
  "runs_ok N c n rs \<Longrightarrow> n \<le> output_offset r \<Longrightarrow> run_ok N r \<Longrightarrow>
     runs_ok N c (run_end r) (rs @ [r])"
  by (induction N c n rs rule: runs_ok.induct) auto

lemma cells_from_snoc:
  "runs_ok N c n rs \<Longrightarrow> n \<le> output_offset r \<Longrightarrow>
     cells_from c (run_end r) (rs @ [r])
       = cells_from c n rs @ replicate (output_offset r - n) Unknown @ run_cells r"
  by (induction N c n rs rule: runs_ok.induct) (auto simp: replicate_merge)

lemma runs_ok_append:
  "runs_ok N c n (xs @ ys) \<Longrightarrow> \<exists>d. runs_ok N c d xs \<and> runs_ok N d n ys \<and> d \<le> n
     \<and> d = (if xs = [] then c else run_end (last xs))"
proof (induction xs arbitrary: c)
  case (Cons x xs)
  then obtain d where "runs_ok N (run_end x) d xs" "runs_ok N d n ys" "d \<le> n"
    "d = (if xs = [] then run_end x else run_end (last xs))" by auto
  with Cons.prems show ?case by (intro exI [of _ d]) (auto dest: runs_ok_le)
qed (auto dest: runs_ok_le)

lemma cells_from_append:
  "runs_ok N c d xs \<Longrightarrow> d = (if xs = [] then c else run_end (last xs)) \<Longrightarrow> 
     cells_from c n (xs @ ys) = cells_from c d xs @ cells_from d n ys"
proof (induction xs arbitrary: c)
  case (Cons x xs)
  then show ?case by (cases "xs = []") auto
qed simp

lemma runs_ok_butlast:
  assumes "runs_ok N c n rs" "rs \<noteq> []"
  obtains d where "runs_ok N c d (butlast rs)" "d \<le> output_offset (last rs)"
    "run_end (last rs) \<le> n" "run_ok N (last rs)"
    "cells_from c (run_end (last rs)) rs
       = cells_from c d (butlast rs) @ replicate (output_offset (last rs) - d) Unknown
           @ run_cells (last rs)"
proof -
  have rs: "butlast rs @ [last rs] = rs" using assms(2) by simp
  from runs_ok_append [of N c n "butlast rs" "[last rs]"] assms rs
  obtain d where d: "runs_ok N c d (butlast rs)" "runs_ok N d n [last rs]" by auto
  then have le: "d \<le> output_offset (last rs)" by simp
  show ?thesis
    using that [of d] d le cells_from_snoc [OF d(1) le] rs by simp
qed

section \<open>Appending a run\<close>

text \<open>Merging two linear runs puts their cells one behind the other.\<close>

lemma merged_run:
  assumes "run_can_merge p r" "run_ok N p" "run_ok N r" "N \<le> SIZE_MAX" "run_end r \<le> SIZE_MAX"
  defines "q \<equiv> p\<lparr>output_length := output_length p + output_length r,
      run_source_length := run_source_length p + run_source_length r\<rparr>"
  shows "run_end p = output_offset r" "run_ok N q" "run_cells q = run_cells p @ run_cells r"
    "run_kind p = SOURCE_LINEAR" "run_end q = run_end r"
    "run_source_length p + run_source_length r \<le> SIZE_MAX"
proof -
  have kinds: "run_kind p = SOURCE_LINEAR" "run_kind r = SOURCE_LINEAR"
    and out: "size_add (output_offset p) (output_length p) = Some (output_offset r)"
    and src: "size_add (run_source_offset p) (run_source_length p) = Some (run_source_offset r)"
    using assms(1) by (auto simp: run_can_merge_def split: if_splits option.splits)
  from out show e: "run_end p = output_offset r" by (auto simp: size_add_def split: if_splits)
  from src have s: "run_source_offset p + run_source_length p = run_source_offset r"
    by (auto simp: size_add_def split: if_splits)
  show "run_kind p = SOURCE_LINEAR" by (rule kinds)
  show "run_ok N q" using assms(2,3) kinds s by (auto simp: q_def run_ok_def)
  show "run_source_length p + run_source_length r \<le> SIZE_MAX"
    using assms(3,4) s by (auto simp: run_ok_def)
  show "run_end q = run_end r" using e by (simp add: q_def)
  have "run_cell q k = (if k < output_length p then run_cell p k
      else run_cell r (k - output_length p))" for k
    using kinds s assms(2) by (auto simp: q_def run_cell_def run_ok_def)
  then show "run_cells q = run_cells p @ run_cells r"
    by (intro nth_equalityI) (auto simp: run_cells_def nth_append q_def)
qed

text \<open>The array always has room for the run that is stored.\<close>

lemma double_capacity_ge: "double_capacity a n = Some c \<Longrightarrow> 0 < a \<Longrightarrow> n \<le> c"
proof (induction a n rule: double_capacity.induct)
  case (1 a n)
  then show ?case by (auto simp: double_capacity.simps [of a n] split: if_splits)
qed

lemma append_run_capacity:
  "writer_append_run alloc w r = (res, w') \<Longrightarrow> length (writer_runs w) \<le> writer_capacity w \<Longrightarrow>
     length (writer_runs w') \<le> writer_capacity w'"
  by (auto simp: writer_append_run_def reserve_runs_def Let_def
      split: if_splits option.splits dest!: double_capacity_ge)

text \<open>
  A run behind what is written: unless memory ends, the cells grow by the gap and the run.  The
  position \<open>cur\<close> is how far the output is written; the writer's own length follows later.
\<close>

lemma append_run_spec:
  assumes "writer_append_run alloc w r = (res, w')"
    and "runs_ok N 0 cur (writer_runs w)" "cur \<le> output_offset r" "run_ok N r"
    and "N \<le> SIZE_MAX" "run_end r \<le> SIZE_MAX"
  shows "writer_length w' = writer_length w \<and> writer_map w' = writer_map w \<and>
    (case res of
       Some e \<Rightarrow> err_code e = NO_MEMORY \<and> w' = w
     | None \<Rightarrow> runs_ok N 0 (run_end r) (writer_runs w') \<and>
         cells_from 0 (run_end r) (writer_runs w')
           = cells_from 0 cur (writer_runs w) @ replicate (output_offset r - cur) Unknown
               @ run_cells r)"
proof (cases "writer_runs w \<noteq> [] \<and> run_can_merge (last (writer_runs w)) r")
  case True
  let ?p = "last (writer_runs w)"
  let ?q = "?p\<lparr>output_length := output_length ?p + output_length r,
      run_source_length := run_source_length ?p + run_source_length r\<rparr>"
  from True obtain d where d: "runs_ok N 0 d (butlast (writer_runs w))" "d \<le> output_offset ?p"
    "run_end ?p \<le> cur" "run_ok N ?p"
    "cells_from 0 (run_end ?p) (writer_runs w)
       = cells_from 0 d (butlast (writer_runs w)) @ replicate (output_offset ?p - d) Unknown
           @ run_cells ?p"
    using runs_ok_butlast [OF assms(2)] by blast
  note m = merged_run [OF True [THEN conjunct2] d(4) assms(4-6)]
  have cur: "cur = run_end ?p" using m(1) d(3) assms(3) by simp
  have "output_length ?p + output_length r \<le> SIZE_MAX" using m(1) assms(6) by simp
  then have w': "res = None" "w' = w\<lparr>writer_runs := butlast (writer_runs w) @ [?q]\<rparr>"
    using assms(1,4) True m(4,6) by (auto simp: writer_append_run_def size_add_fits run_ok_def Let_def)
  have "d \<le> output_offset ?q" using d(2) by simp
  note q = runs_ok_snoc [OF d(1) this m(2)] cells_from_snoc [OF d(1) this]
  have "runs_ok N 0 (run_end r) (writer_runs w')" using q(1) w'(2) unfolding m(5) by simp
  moreover have "cells_from 0 (run_end r) (writer_runs w')
      = cells_from 0 cur (writer_runs w) @ run_cells r"
    using q(2) w'(2) d(5) unfolding m(5) m(3) cur by simp
  ultimately show ?thesis using w' m(1) cur by simp
next
  case False
  have "0 < output_length r" using assms(4) by (simp add: run_ok_def)
  with False have w': "(res, w') = (case reserve_runs alloc (writer_capacity w)
      (length (writer_runs w) + 1) of Inl e \<Rightarrow> (Some e, w)
      | Inr capacity \<Rightarrow> (None, w\<lparr>writer_capacity := capacity, writer_runs := writer_runs w @ [r]\<rparr>))"
    using assms(1) by (auto simp: writer_append_run_def)
  show ?thesis
  proof (cases "reserve_runs alloc (writer_capacity w) (length (writer_runs w) + 1)")
    case (Inl e)
    then have "err_code e = NO_MEMORY"
      by (auto simp: reserve_runs_def split: if_splits option.splits)
    with Inl w' show ?thesis by simp
  next
    case (Inr c)
    with w' show ?thesis
      using runs_ok_snoc [OF assms(2-4)] cells_from_snoc [OF assms(2,3)] by simp
  qed
qed

section \<open>Finding a run\<close>

lemma runs_ok_sorted:
  "runs_ok N c n rs \<Longrightarrow> sorted_wrt (\<lambda>x y. run_end x \<le> output_offset y) rs
     \<and> (\<forall>r \<in> set rs. c \<le> output_offset r \<and> run_end r \<le> n \<and> run_ok N r)"
proof (induction N c n rs rule: runs_ok.induct)
  case (2 N c n r rs)
  then show ?case by auto
qed simp

lemma run_ends_mono:
  assumes "runs_ok N c n rs" "i \<le> j" "j < length rs"
  shows "run_end (rs ! i) \<le> run_end (rs ! j)"
proof (cases "i = j")
  case False
  with assms(2,3) have "run_end (rs ! i) \<le> output_offset (rs ! j)"
    using runs_ok_sorted [OF assms(1)] by (auto simp: sorted_wrt_iff_nth_less)
  then show ?thesis by simp
qed simp

lemma first_run_search_spec:
  assumes ok: "runs_ok N 0 n rs" "n \<le> SIZE_MAX"
  shows "left \<le> right \<Longrightarrow> right \<le> length rs \<Longrightarrow> \<forall>i < left. run_end (rs ! i) \<le> p \<Longrightarrow>
    \<forall>i. right \<le> i \<and> i < length rs \<longrightarrow> p < run_end (rs ! i) \<Longrightarrow>
    first_run_search rs p left right = length (takeWhile (\<lambda>r. run_end r \<le> p) rs)"
proof (induction "right - left" arbitrary: left right rule: less_induct)
  case less
  show ?case
  proof (cases "left < right")
    case False
    with less.prems have "takeWhile (\<lambda>r. run_end r \<le> p) rs = take left rs"
      by (intro takeWhile_eq_take_P_nth) auto
    with False less.prems show ?thesis by (simp add: first_run_search.simps)
  next
    case True
    define m where "m = left + (right - left) div 2"
    have m: "left \<le> m" "m < right" "m < length rs" using True less.prems by (auto simp: m_def)
    then have "run_end (rs ! m) \<le> SIZE_MAX"
      using runs_ok_sorted [OF ok(1)] ok(2) by (meson le_trans nth_mem)
    then have step: "first_run_search rs p left right
        = (if run_end (rs ! m) \<le> p then first_run_search rs p (m + 1) right
           else first_run_search rs p left m)"
      using True by (simp add: first_run_search.simps [of rs p left right] m_def size_add_fits)
    show ?thesis
    proof (cases "run_end (rs ! m) \<le> p")
      case True
      have "run_end (rs ! i) \<le> p" if "i < m + 1" for i
        using run_ends_mono [OF ok(1), of i m] that m True by simp
      with True step m less.prems show ?thesis using less.hyps [of right "m + 1"] by simp
    next
      case False
      have "p < run_end (rs ! i)" if "m \<le> i" "i < length rs" for i
        using run_ends_mono [OF ok(1), of m i] that False by simp
      with False step m less.prems show ?thesis using less.hyps [of m left] by simp
    qed
  qed
qed

text \<open>The binary search skips exactly the runs that end before the offset.\<close>

lemma drop_first_run:
  assumes "map_ok N m"
  shows "first_run m p = length (takeWhile (\<lambda>r. run_end r \<le> p) (map_runs m))"
    and "drop (first_run m p) (map_runs m) = dropWhile (\<lambda>r. run_end r \<le> p) (map_runs m)"
proof -
  show *: "first_run m p = length (takeWhile (\<lambda>r. run_end r \<le> p) (map_runs m))"
    using assms first_run_search_spec [of N "map_length m" "map_runs m" 0 "length (map_runs m)" p]
    by (simp add: map_ok_def first_run_def)
  show "drop (first_run m p) (map_runs m) = dropWhile (\<lambda>r. run_end r \<le> p) (map_runs m)"
    unfolding * by (rule dropWhile_eq_drop [symmetric])
qed

section \<open>Copying input cells\<close>

text \<open>
  Copying a range keeps the cells it holds, except those of an identifier it cuts: \<open>L\<close> is the
  length of the range and \<open>j\<close> the place of the first cell in it.
\<close>

fun keep_cell :: "nat \<Rightarrow> nat \<Rightarrow> cell \<Rightarrow> cell" where
  "keep_cell L j (Ident k len a b) =
     (if k \<le> j \<and> j - k + len \<le> L then Ident k len a b else Unknown)"
| "keep_cell L j (Generated k len) =
     (if k \<le> j \<and> j - k + len \<le> L then Generated k len else Unknown)"
| "keep_cell L j x = x"

definition trim_from :: "nat \<Rightarrow> nat \<Rightarrow> cell list \<Rightarrow> cell list" where
  "trim_from L j xs = map (\<lambda>i. keep_cell L (j + i) (xs ! i)) [0..<length xs]"

definition trim :: "cell list \<Rightarrow> cell list" where
  "trim xs = trim_from (length xs) 0 xs"

lemma length_trim_from [simp]: "length (trim_from L j xs) = length xs"
  by (simp add: trim_from_def)

lemma trim_from_nth: "i < length xs \<Longrightarrow> trim_from L j xs ! i = keep_cell L (j + i) (xs ! i)"
  by (simp add: trim_from_def)

lemma trim_from_append:
  "trim_from L j (xs @ ys) = trim_from L j xs @ trim_from L (j + length xs) ys"
  by (rule nth_equalityI) (auto simp: trim_from_nth nth_append)

lemma trim_from_Unknown [simp]: "trim_from L j (replicate k Unknown) = replicate k Unknown"
  by (rule nth_equalityI) (auto simp: trim_from_nth)

lemma trim_from_Nil [simp]: "trim_from L j [] = []"
  by (simp add: trim_from_def)

lemma slice_append_split:
  "a \<le> length xs \<Longrightarrow> length xs \<le> b \<Longrightarrow>
     slice (xs @ ys) a b = drop a xs @ take (b - length xs) ys"
  by (simp add: slice_def)

lemma slice_append_left: "b \<le> length xs \<Longrightarrow> slice (xs @ ys) a b = slice xs a b"
  by (simp add: slice_def)

lemma slice_append_right:
  "length xs \<le> a \<Longrightarrow> slice (xs @ ys) a b = slice ys (a - length xs) (b - length xs)"
  by (auto simp: slice_def)

lemma slice_Unknown [simp]:
  "b \<le> n \<Longrightarrow> slice (replicate n x) a b = replicate (b - a) x"
  by (simp add: slice_def)

text \<open>The run copied out of one input run holds the trimmed cells of the overlap.\<close>

lemma clip_run_cells:
  assumes "a < run_end r" "output_offset r < e" "a \<le> e" "run_ok N r"
    and "N \<le> SIZE_MAX" "W + (e - a) \<le> SIZE_MAX"
  defines "s \<equiv> max (output_offset r) a" and "t \<equiv> min (run_end r) e"
  shows "case clip_run W a e (run_end r) r of
      None \<Rightarrow> trim_from (e - a) (s - a) (slice (run_cells r) (s - output_offset r)
          (t - output_offset r)) = replicate (t - s) Unknown
    | Some r' \<Rightarrow> output_offset r' = W + (s - a) \<and> output_length r' = t - s \<and> run_ok N r' \<and>
        trim_from (e - a) (s - a) (slice (run_cells r) (s - output_offset r)
          (t - output_offset r)) = run_cells r'"
proof -
  let ?o = "output_offset r"
  let ?cells = "slice (run_cells r) (s - ?o) (t - ?o)"
  consider "a = e" | "a < e" using assms(3) by linarith
  then show ?thesis
  proof cases
    case 1
    then have "s \<ge> t" by (auto simp: s_def t_def)
    then show ?thesis by (simp add: clip_run_def s_def t_def Let_def)
  next
    case 2
    then have st: "s < t" "?o \<le> s" "t \<le> run_end r" "a \<le> s"
      using assms(1-4) by (auto simp: s_def t_def run_ok_def)
    have len: "length ?cells = t - s" using st by simp
    have nth: "?cells ! i = run_cell r (s - ?o + i)" if "i < t - s" for i
      using that st by (simp add: nth_slice run_cells_def)
    let ?base = "\<lparr>run_kind = run_kind r, output_offset = W + s - a, output_length = t - s,
        run_source_offset = 0, run_source_length = 0\<rparr>"
    have clip: "clip_run W a e (run_end r) r =
       (if run_kind r = SOURCE_LINEAR
        then Some (?base\<lparr>run_source_offset := run_source_offset r + s - ?o,
               run_source_length := t - s\<rparr>)
        else if s \<noteq> ?o \<or> t \<noteq> run_end r then None
        else Some (?base\<lparr>run_source_offset := run_source_offset r,
               run_source_length := run_source_length r\<rparr>))"
    proof -
      have "s < e" using st(1) by (simp add: t_def)
      then have "W + s - a \<le> SIZE_MAX" using st(4) assms(6) by linarith
      moreover have "run_source_offset r + s - ?o \<le> SIZE_MAX" if "run_kind r = SOURCE_LINEAR"
      proof -
        have "s < ?o + output_length r" using st by linarith
        moreover have "run_source_offset r + output_length r \<le> N" using assms(4) that by (simp add: run_ok_def)
        ultimately show ?thesis using st(2) assms(5) by linarith
      qed
      ultimately show ?thesis
        using st(1) by (cases "s = ?o") (simp_all add: clip_run_def s_def [symmetric] t_def [symmetric] Let_def)
    qed
    show ?thesis
    proof (cases "run_kind r = SOURCE_LINEAR")
      case True
      let ?r' = "?base\<lparr>run_source_offset := run_source_offset r + s - ?o,
               run_source_length := t - s\<rparr>"
      have "trim_from (e - a) (s - a) ?cells = run_cells ?r'"
        using len nth True st by (intro nth_equalityI)
          (auto simp: trim_from_nth run_cells_def run_cell_def)
      with True clip st assms(4) show ?thesis by (auto simp: run_ok_def)
    next
      case False
      show ?thesis
      proof (cases "s = ?o \<and> t = run_end r")
        case True
        let ?r' = "?base\<lparr>run_source_offset := run_source_offset r,
               run_source_length := run_source_length r\<rparr>"
        have "run_end r \<le> e" using True by (auto simp: t_def min_def split: if_splits)
        then have "trim_from (e - a) (s - a) ?cells = run_cells ?r'"
          using len nth True False st by (intro nth_equalityI)
            (auto simp: trim_from_nth run_cells_def run_cell_def split: run_kind.splits)
        with True False clip st assms(4) show ?thesis by (auto simp: run_ok_def)
      next
        case cut: False
        have "trim_from (e - a) (s - a) ?cells = replicate (t - s) Unknown"
          using len nth cut False st 2 by (intro nth_equalityI)
            (auto simp: trim_from_nth run_cell_def s_def t_def max_def min_def
              split: run_kind.splits if_splits)
        with cut False clip show ?thesis by auto
      qed
    qed
  qed
qed

text \<open>A run before the range and a run behind it change nothing.\<close>

lemma loop_skip:
  "run_end r \<le> a \<Longrightarrow> run_end r \<le> SIZE_MAX \<Longrightarrow> 0 < output_length r \<Longrightarrow> a \<le> e \<Longrightarrow>
     append_input_loop alloc W a e w (r # rs) = append_input_loop alloc W a e w rs"
  by (auto simp: size_add_fits clip_run_def Let_def)

lemma loop_dropWhile:
  "runs_ok N c n rs \<Longrightarrow> n \<le> SIZE_MAX \<Longrightarrow> a \<le> e \<Longrightarrow>
     append_input_loop alloc W a e w (dropWhile (\<lambda>r. run_end r \<le> a) rs)
       = append_input_loop alloc W a e w rs"
proof (induction rs arbitrary: c)
  case (Cons r rs)
  show ?case
  proof (cases "run_end r \<le> a")
    case True
    with Cons.prems have "append_input_loop alloc W a e w (r # rs) = append_input_loop alloc W a e w rs"
      by (intro loop_skip) (auto simp: run_ok_def)
    moreover have "append_input_loop alloc W a e w (dropWhile (\<lambda>r. run_end r \<le> a) rs)
        = append_input_loop alloc W a e w rs"
      using Cons.prems by (intro Cons.IH [of "run_end r"]) auto
    moreover have "dropWhile (\<lambda>r. run_end r \<le> a) (r # rs) = dropWhile (\<lambda>r. run_end r \<le> a) rs"
      using True by simp
    ultimately show ?thesis by (simp only:)
  qed simp
qed simp

lemma loop_done: "runs_ok N c n rs \<Longrightarrow> e \<le> c \<Longrightarrow> append_input_loop alloc W a e w rs = (None, w)"
  by (cases rs) auto

text \<open>
  The whole loop from input position \<open>c\<close> on: the output grows from the image of \<open>max a c\<close> to the
  image of \<open>e\<close> by the trimmed cells in between.
\<close>

lemma append_input_loop_spec:
  assumes "append_input_loop alloc W a e w rs = (res, w')"
    and "runs_ok N c n rs" "c \<le> e" "e \<le> n" "a \<le> e" "n \<le> SIZE_MAX" "N \<le> SIZE_MAX"
    and "W + (e - a) \<le> SIZE_MAX" "runs_ok N 0 (W + (max a c - a)) (writer_runs w)"
  shows "writer_length w' = writer_length w \<and> writer_map w' = writer_map w \<and>
    (case res of
       Some er \<Rightarrow> err_code er = NO_MEMORY
     | None \<Rightarrow> runs_ok N 0 (W + (e - a)) (writer_runs w') \<and>
         cells_from 0 (W + (e - a)) (writer_runs w')
           = cells_from 0 (W + (max a c - a)) (writer_runs w)
               @ trim_from (e - a) (max a c - a) (slice (cells_from c n rs) (max a c - c) (e - c)))"
  using assms(1-3,9)
proof (induction rs arbitrary: c w)
  case Nil
  then have "W + (max a c - a) \<le> W + (e - a)" by auto
  from runs_ok_extend [OF Nil.prems(4) this] cells_from_extend [OF Nil.prems(4) this] Nil assms(4,5)
  show ?case by auto
next
  case (Cons r rs)
  let ?cur = "W + (max a c - a)" and ?o = "output_offset r"
  have r: "c \<le> ?o" "run_end r \<le> n" "run_ok N r" "runs_ok N (run_end r) n rs"
    using Cons.prems(2) by auto
  have fits: "size_add ?o (output_length r) = Some (run_end r)"
    using r(2) assms(6) by (intro size_add_fits) simp
  let ?A = "replicate (?o - c) Unknown @ run_cells r"
  have A: "length ?A = run_end r - c" using r(1) by simp
  have cells: "cells_from c n (r # rs) = ?A @ cells_from (run_end r) n rs" by simp
  consider (behind) "e \<le> ?o" | (before_range) "?o < e" "run_end r \<le> a" | (overlap) "?o < e" "a < run_end r"
    by linarith
  then show ?case
  proof cases
    case behind
    then have res: "res = None" "w' = w" using Cons.prems(1) by simp_all
    have "?cur \<le> W + (e - a)" using Cons.prems(3) assms(5) by auto
    note ext = runs_ok_extend [OF Cons.prems(4) this] cells_from_extend [OF Cons.prems(4) this]
    have "slice (cells_from c n (r # rs)) (max a c - c) (e - c) = replicate (e - max a c) Unknown"
      using behind r(1) unfolding cells append_assoc by (subst slice_append_left) auto
    with res ext show ?thesis by auto
  next
    case before_range
    then have "append_input_loop alloc W a e w (r # rs) = append_input_loop alloc W a e w rs"
      using r assms(5,6) by (intro loop_skip) (auto simp: run_ok_def)
    then have loop: "append_input_loop alloc W a e w rs = (res, w')" using Cons.prems(1) by simp
    have mx: "max a c = a" "max a (run_end r) = a" using before_range r(1) by auto
    have sl: "slice (cells_from c n (r # rs)) (a - c) (e - c)
        = slice (cells_from (run_end r) n rs) (a - run_end r) (e - run_end r)"
      using before_range r(1) A unfolding cells by (subst slice_append_right) auto
    have "run_end r \<le> e" using before_range assms(5) by simp
    from Cons.IH [OF loop r(4) this] Cons.prems(4) show ?thesis unfolding mx sl by simp
  next
    case overlap
    let ?s = "max ?o a" and ?t = "min (run_end r) e" and ?m = "max a c"
    have m: "?m \<le> ?s" "?s \<le> ?t" "?m \<le> ?t" "c \<le> ?m" "a \<le> ?m" "?t \<le> e"
      using overlap r(1,3) assms(5) Cons.prems(3) by (auto simp: run_ok_def)
    have piece: "slice (cells_from c n (r # rs)) (?m - c) (?t - c)
        = replicate (?s - ?m) Unknown @ slice (run_cells r) (?s - ?o) (?t - ?o)"
    proof -
      have "slice (cells_from c n (r # rs)) (?m - c) (?t - c) = slice ?A (?m - c) (?t - c)"
        using A unfolding cells by (subst slice_append_left) auto
      also have "\<dots> = replicate (?s - ?m) Unknown @ slice (run_cells r) (?s - ?o) (?t - ?o)"
      proof (cases "?o \<le> ?m")
        case True
        then have "?s = ?m" using r(1) by auto
        with True r(1) show ?thesis by (subst slice_append_right) (auto simp: algebra_simps)
      next
        case False
        then have "?s = ?o" by auto
        with False r(1) m show ?thesis by (subst slice_append_split) (auto simp: slice_def)
      qed
      finally show ?thesis .
    qed
    let ?piece = "trim_from (e - a) (?m - a) (slice (cells_from c n (r # rs)) (?m - c) (?t - c))"
    let ?rest = "trim_from (e - a) (?t - a) (slice (cells_from c n (r # rs)) (?t - c) (e - c))"
    have join: "trim_from (e - a) (?m - a) (slice (cells_from c n (r # rs)) (?m - c) (e - c))
        = ?piece @ ?rest"
    proof -
      have len: "length (slice (cells_from c n (r # rs)) (?m - c) (?t - c)) = ?t - ?m"
        using Cons.prems(2) m assms(4) by (subst length_slice) auto
      have "slice (cells_from c n (r # rs)) (?m - c) (e - c)
          = slice (cells_from c n (r # rs)) (?m - c) (?t - c)
              @ slice (cells_from c n (r # rs)) (?t - c) (e - c)"
        using m by (intro slice_append [symmetric]) auto
      then show ?thesis using m len by (simp add: trim_from_append)
    qed
    have piece_cells: "?piece = replicate (?s - ?m) Unknown @ trim_from (e - a) (?s - a)
        (slice (run_cells r) (?s - ?o) (?t - ?o))"
      using m unfolding piece by (simp add: trim_from_append)
    note clip = clip_run_cells [OF overlap(2,1) assms(5) r(3) assms(7,8)]
    have follow: "writer_length w' = writer_length w1 \<and> writer_map w' = writer_map w1 \<and>
       (case res of
          Some er \<Rightarrow> err_code er = NO_MEMORY
        | None \<Rightarrow> runs_ok N 0 (W + (e - a)) (writer_runs w') \<and>
            cells_from 0 (W + (e - a)) (writer_runs w')
              = cells_from 0 (W + (?t - a)) (writer_runs w1) @ ?rest)"
      if loop: "append_input_loop alloc W a e w1 rs = (res, w')"
        and ok: "runs_ok N 0 (W + (?t - a)) (writer_runs w1)" for w1
    proof (cases "run_end r \<le> e")
      case True
      then have t: "?t = run_end r" "max a (run_end r) = run_end r" using overlap by auto
      have sl: "slice (cells_from c n (r # rs)) (run_end r - c) (e - c)
          = slice (cells_from (run_end r) n rs) (run_end r - run_end r) (e - run_end r)"
        using r(1) A unfolding cells by (subst slice_append_right) auto
      from Cons.IH [OF loop r(4) True] ok show ?thesis unfolding t sl by simp
    next
      case False
      then have "?t = e" "e \<le> run_end r" by auto
      moreover have "res = None" "w' = w1"
        using loop loop_done [OF r(4) \<open>e \<le> run_end r\<close>] by auto
      ultimately show ?thesis using ok by simp
    qed
    show ?thesis
    proof (cases "clip_run W a e (run_end r) r")
      case None
      then have loop: "append_input_loop alloc W a e w rs = (res, w')"
        using Cons.prems(1) overlap(1) fits by simp
      have "?cur \<le> W + (?t - a)" using m by auto
      note ext = runs_ok_extend [OF Cons.prems(4) this] cells_from_extend [OF Cons.prems(4) this]
      have pc: "?piece = replicate (?t - ?m) Unknown"
        using None clip m unfolding piece_cells by (simp add: replicate_merge)
      have d: "W + (?t - a) - ?cur = ?t - ?m" using m by simp
      from follow [OF loop ext(1)] show ?thesis unfolding join pc ext(2) d append_assoc .
    next
      case (Some r')
      then have r': "output_offset r' = W + (?s - a)" "output_length r' = ?t - ?s" "run_ok N r'"
        "trim_from (e - a) (?s - a) (slice (run_cells r) (?s - ?o) (?t - ?o)) = run_cells r'"
        using clip by simp_all
      then have bound: "run_end r' = W + (?t - a)" "run_end r' \<le> SIZE_MAX"
        using m assms(8) by auto
      have reach: "?cur \<le> output_offset r'"
        unfolding r'(1) using m(1) by (intro add_left_mono diff_le_mono)
      obtain res1 w1 where app: "writer_append_run alloc w r' = (res1, w1)" by fastforce
      note spec = append_run_spec [OF app Cons.prems(4) reach r'(3) assms(7) bound(2)]
      show ?thesis
      proof (cases res1)
        case None
        then have loop: "append_input_loop alloc W a e w1 rs = (res, w')"
          using Cons.prems(1) overlap(1) fits Some app by simp
        have ok: "runs_ok N 0 (W + (?t - a)) (writer_runs w1)"
          and w1: "cells_from 0 (W + (?t - a)) (writer_runs w1) = cells_from 0 ?cur (writer_runs w)
            @ replicate (?s - ?m) Unknown @ run_cells r'"
            "writer_length w1 = writer_length w" "writer_map w1 = writer_map w"
          using spec None m r'(1) unfolding bound(1) by auto
        from follow [OF loop ok] show ?thesis unfolding join piece_cells r'(4) w1 append_assoc .
      next
        case (Some er)
        then show ?thesis using Cons.prems(1) overlap(1) fits \<open>clip_run W a e (run_end r) r = Some r'\<close> app spec
          by auto
      qed
    qed
  qed
qed

section \<open>Looking an identifier up\<close>

text \<open>
  What a lookup answers, read off the cells of the range: consecutive source bytes, or one whole
  identifier; everything else is unknown.
\<close>

definition linear_cells :: "nat \<Rightarrow> nat \<Rightarrow> cell list" where
  "linear_cells s k = map Linear [s..<s + k]"

fun lookup_cells :: "cell list \<Rightarrow> origin" where
  "lookup_cells (Linear s # xs) =
     (if xs = linear_cells (Suc s) (length xs) then ORIGIN_SOURCE s (Suc (length xs))
      else ORIGIN_UNKNOWN)"
| "lookup_cells (Ident k len a b # xs) =
     (if k = 0 \<and> len = Suc (length xs) \<and> xs = map (\<lambda>i. Ident (Suc i) len a b) [0..<length xs]
      then ORIGIN_SOURCE a b else ORIGIN_UNKNOWN)"
| "lookup_cells (Generated k len # xs) =
     (if k = 0 \<and> len = Suc (length xs) \<and> xs = map (\<lambda>i. Generated (Suc i) len) [0..<length xs]
      then ORIGIN_GENERATED else ORIGIN_UNKNOWN)"
| "lookup_cells _ = ORIGIN_UNKNOWN"

lemma length_linear_cells [simp]: "length (linear_cells s k) = k"
  by (simp add: linear_cells_def)

lemma nth_linear_cells [simp]: "i < k \<Longrightarrow> linear_cells s k ! i = Linear (s + i)"
  by (simp add: linear_cells_def)

lemma linear_cells_append: "linear_cells s (a + b) = linear_cells s a @ linear_cells (s + a) b"
  by (rule nth_equalityI) (auto simp: nth_append)

lemma linear_cells_Suc: "linear_cells s (Suc k) = Linear s # linear_cells (Suc s) k"
  by (rule nth_equalityI) (auto simp: nth_Cons')

lemma run_cells_linear:
  "run_kind r = SOURCE_LINEAR \<Longrightarrow> run_cells r = linear_cells (run_source_offset r) (output_length r)"
  by (rule nth_equalityI) (auto simp: run_cells_def run_cell_def)

lemma run_cells_Cons:
  "0 < output_length r \<Longrightarrow> run_cells r
     = run_cell r 0 # map (\<lambda>i. run_cell r (Suc i)) [0..<output_length r - 1]"
  by (rule nth_equalityI) (auto simp: run_cells_def nth_Cons')

lemma take_Cons_neq:
  "0 < k \<Longrightarrow> x \<noteq> y \<Longrightarrow> take k (x # xs) \<noteq> y # ys"
  by (cases k) auto

text \<open>The walk from the end of one run to the next.\<close>

lemma lookup_linear_spec:
  assumes "runs_ok N pos n rs" "pos \<le> e" "e \<le> n" "n \<le> SIZE_MAX" "N \<le> SIZE_MAX" "p < pos"
    "s0 \<le> se"
  shows "lookup_linear rs p e pos s0 se =
    (if take (e - pos) (cells_from pos n rs) = linear_cells se (e - pos)
     then ORIGIN_SOURCE s0 (se + (e - pos) - s0) else ORIGIN_UNKNOWN)"
  using assms
proof (induction rs arbitrary: pos se)
  case Nil
  show ?case
  proof (cases "pos < e")
    case True
    then obtain k where "e - pos = Suc k" by (metis Suc_diff_Suc)
    with True Nil show ?thesis
      by (auto simp: lookup_linear.simps linear_cells_Suc take_replicate min_def)
  next
    case False
    with Nil show ?thesis by (simp add: lookup_linear.simps linear_cells_def)
  qed
next
  case (Cons r rs)
  note step = lookup_linear.simps [of "r # rs"]
  have r: "pos \<le> output_offset r" "run_end r \<le> n" "run_ok N r" "runs_ok N (run_end r) n rs"
    using Cons.prems(1) by auto
  show ?case
  proof (cases "pos < e")
    case False
    with Cons.prems show ?thesis by (simp add: step linear_cells_def)
  next
    case True
    then obtain k where k: "e - pos = Suc k" by (metis Suc_diff_Suc)
    show ?thesis
    proof (cases "pos < output_offset r")
      case True
      then obtain g where "output_offset r - pos = Suc g" by (metis Suc_diff_Suc)
      with True \<open>pos < e\<close> k show ?thesis by (simp add: step linear_cells_Suc)
    next
      case False
      with r(1) have off: "output_offset r = pos" by simp
      have len: "0 < output_length r" using r(3) by (simp add: run_ok_def)
      have fits: "size_add pos (output_length r) = Some (run_end r)"
        using r(2) Cons.prems(4) off by (intro trans [OF size_add_fits]) auto
      show ?thesis
      proof (cases "run_kind r = SOURCE_LINEAR \<and> run_source_offset r = se")
        case False
        then have "run_cell r 0 \<noteq> Linear se"
          by (auto simp: run_cell_def split: run_kind.splits)
        then have "take (e - pos) (cells_from pos n (r # rs)) \<noteq> linear_cells se (e - pos)"
          using len off k by (simp add: run_cells_Cons linear_cells_Suc)
        then show ?thesis
          using False \<open>pos < e\<close> off fits len Cons.prems(6)
          by (auto simp: step Let_def split: option.splits)
      next
        case lin: True
        let ?t = "min (run_end r) e"
        have src: "se + output_length r \<le> N" using r(3) lin by (simp add: run_ok_def)
        have go: "lookup_linear (r # rs) p e pos s0 se
            = lookup_linear rs p e ?t s0 (se + (?t - pos))"
          using lin \<open>pos < e\<close> off fits len Cons.prems(5,6) src
          by (simp add: step Let_def size_add_fits)
        have cells: "cells_from pos n (r # rs)
            = linear_cells se (output_length r) @ cells_from (run_end r) n rs"
          using off lin by (simp add: run_cells_linear)
        show ?thesis
        proof (cases "run_end r \<le> e")
          case True
          then have split: "e - pos = output_length r + (e - run_end r)" using off by simp
          have lc: "linear_cells se (e - pos) = linear_cells se (output_length r)
              @ linear_cells (se + output_length r) (e - run_end r)"
            unfolding split by (rule linear_cells_append)
          have tk: "take (e - pos) (cells_from pos n (r # rs)) = linear_cells se (output_length r)
              @ take (e - run_end r) (cells_from (run_end r) n rs)"
            unfolding cells split by simp
          have so: "se + (e - pos) - s0 = se + output_length r + (e - run_end r) - s0"
            unfolding split by simp
          have "lookup_linear rs p e (run_end r) s0 (se + output_length r) =
              (if take (e - run_end r) (cells_from (run_end r) n rs)
                    = linear_cells (se + output_length r) (e - run_end r)
               then ORIGIN_SOURCE s0 (se + output_length r + (e - run_end r) - s0)
               else ORIGIN_UNKNOWN)"
            using r(4) True Cons.prems off len by (intro Cons.IH) auto
          then have "lookup_linear (r # rs) p e pos s0 se =
              (if take (e - run_end r) (cells_from (run_end r) n rs)
                    = linear_cells (se + output_length r) (e - run_end r)
               then ORIGIN_SOURCE s0 (se + output_length r + (e - run_end r) - s0)
               else ORIGIN_UNKNOWN)" using go True off by simp
          then show ?thesis unfolding lc tk so same_append_eq .
        next
          case False
          then have t: "?t = e" "e - pos \<le> output_length r" using off by auto
          have "linear_cells se (output_length r)
              = linear_cells se (e - pos) @ linear_cells (se + (e - pos)) (output_length r - (e - pos))"
            using t(2) by (simp flip: linear_cells_append)
          then have "take (e - pos) (cells_from pos n (r # rs)) = linear_cells se (e - pos)"
            unfolding cells by simp
          moreover have "lookup_linear rs p e e s0 (se + (e - pos))
              = ORIGIN_SOURCE s0 (se + (e - pos) - s0)" by (simp add: lookup_linear.simps)
          ultimately show ?thesis using go t(1) by simp
        qed
      qed
    qed
  qed
qed

text \<open>
  The range at an offset, seen from the first run that reaches it: what lies before the run is
  unknown.
\<close>

lemma cells_at_first_run:
  assumes "map_ok N m" "dropWhile (\<lambda>r. run_end r \<le> p) (map_runs m) = rs" "p < e" "e \<le> map_length m"
  shows "slice (map_cells m) p e = (case rs of
      [] \<Rightarrow> replicate (e - p) Unknown
    | r # rs' \<Rightarrow>
        if p < output_offset r then take (e - p) (replicate (output_offset r - p) Unknown
             @ run_cells r @ cells_from (run_end r) (map_length m) rs')
        else take (e - p) (drop (p - output_offset r) (run_cells r)
               @ cells_from (run_end r) (map_length m) rs'))"
    and "rs = r # rs' \<Longrightarrow> p < run_end r \<and> run_ok N r \<and> run_end r \<le> map_length m
      \<and> runs_ok N (run_end r) (map_length m) rs'"
proof -
  let ?n = "map_length m" and ?P = "\<lambda>r. run_end r \<le> p"
  let ?before = "takeWhile ?P (map_runs m)"
  have runs: "map_runs m = ?before @ rs" using assms(2) by (metis takeWhile_dropWhile_id)
  have ok: "runs_ok N 0 ?n (?before @ rs)" using assms(1) runs by (simp add: map_ok_def)
  from runs_ok_append [OF ok] obtain d where d: "runs_ok N 0 d ?before" "runs_ok N d ?n rs"
    "d = (if ?before = [] then 0 else run_end (last ?before))" by blast
  have dp: "d \<le> p"
  proof (cases "?before = []")
    case False
    then have "last ?before \<in> set ?before" by (rule last_in_set)
    then have "?P (last ?before)" by (rule set_takeWhileD [THEN conjunct2])
    with False d(3) show ?thesis by simp
  qed (use d(3) in simp)
  have cells: "map_cells m = cells_from 0 d ?before @ cells_from d ?n rs"
    unfolding map_cells_def by (subst runs) (rule cells_from_append [OF d(1,3)])
  have sl: "slice (map_cells m) p e = slice (cells_from d ?n rs) (p - d) (e - d)"
    unfolding cells using dp d(1) by (subst slice_append_right) auto
  show "slice (map_cells m) p e = (case rs of
      [] \<Rightarrow> replicate (e - p) Unknown
    | r # rs' \<Rightarrow>
        if p < output_offset r then take (e - p) (replicate (output_offset r - p) Unknown
             @ run_cells r @ cells_from (run_end r) ?n rs')
        else take (e - p) (drop (p - output_offset r) (run_cells r)
               @ cells_from (run_end r) ?n rs'))"
  proof (cases rs)
    case Nil
    then show ?thesis unfolding sl using assms(3,4) dp by simp
  next
    case (Cons r rs')
    have "p < run_end r" using hd_dropWhile [of ?P "map_runs m"] unfolding assms(2) Cons by simp
    moreover have "d \<le> output_offset r" using d(2) Cons by simp
    ultimately show ?thesis unfolding sl using Cons dp assms(3) by (auto simp: slice_def add.commute)
  qed
  show "rs = r # rs' \<Longrightarrow> p < run_end r \<and> run_ok N r \<and> run_end r \<le> ?n \<and> runs_ok N (run_end r) ?n rs'"
    using d(2) hd_dropWhile [of ?P "map_runs m"] unfolding assms(2) by simp
qed

lemma take_Cons_pos: "0 < k \<Longrightarrow> take k (x # xs) = x # take (k - 1) xs"
  by (cases k) auto

lemma lookup_cells_Unknown: "0 < k \<Longrightarrow> lookup_cells (take k (Unknown # xs)) = ORIGIN_UNKNOWN"
  by (simp add: take_Cons_pos)

lemma lookup_cells_linear:
  "0 < k \<Longrightarrow> length xs = k \<Longrightarrow> xs ! 0 = Linear s \<Longrightarrow> lookup_cells xs =
     (if xs = linear_cells s k then ORIGIN_SOURCE s k else ORIGIN_UNKNOWN)"
  by (cases xs) (auto simp: linear_cells_Suc)

text \<open>A range that starts in an identifier run is known only if it is the whole run.\<close>

lemma lookup_cells_run:
  assumes "run_ok N r" "output_offset r \<le> p" "p < run_end r" "p < e" "run_kind r \<noteq> SOURCE_LINEAR"
    and "e \<le> run_end r + length xs"
  shows "lookup_cells (take (e - p) (drop (p - output_offset r) (run_cells r) @ xs)) =
    (if p = output_offset r \<and> e = run_end r
     then (if run_kind r = GENERATED then ORIGIN_GENERATED
           else ORIGIN_SOURCE (run_source_offset r) (run_source_length r))
     else ORIGIN_UNKNOWN)"
proof -
  let ?k = "p - output_offset r"
  let ?cells = "take (e - p) (drop ?k (run_cells r) @ xs)"
  have k: "?k < output_length r" using assms(2,3) by simp
  have len: "length ?cells = e - p" using assms(2,3,6) k by simp
  obtain ys where ys: "?cells = run_cell r ?k # ys"
    using assms(4) k by (cases ?cells) (auto simp: take_Cons_pos run_cells_def
        simp flip: Cons_nth_drop_Suc [of ?k] dest: arg_cong [where f = hd])
  show ?thesis
  proof (cases "p = output_offset r \<and> e = run_end r")
    case True
    then have "?cells = run_cells r" by simp
    with True assms(1,5) show ?thesis
      by (cases "run_kind r") (simp_all add: run_cells_Cons run_ok_def run_cell_def)
  next
    case False
    have "length (run_cell r ?k # ys) = e - p" using len unfolding ys .
    then have "length ys = e - p - 1" by simp
    with False assms(2-5) show ?thesis unfolding ys
      by (cases "run_kind r") (auto simp: run_cell_def)
  qed
qed

lemma map_lookup_cells:
  assumes ok: "map_ok N m" and range: "0 < k" "p + k \<le> map_length m"
  shows "map_lookup (Some m) p k = lookup_cells (slice (map_cells m) p (p + k))"
proof -
  let ?n = "map_length m" and ?e = "p + k" and ?i = "first_run m p"
  obtain rs where rs: "dropWhile (\<lambda>r. run_end r \<le> p) (map_runs m) = rs" by blast
  have drp: "drop ?i (map_runs m) = rs" using drop_first_run(2) [OF ok] rs by simp
  have bounds: "?n \<le> SIZE_MAX" "N \<le> SIZE_MAX" using ok by (simp_all add: map_ok_def)
  have fits: "size_add p k = Some ?e" using range(2) bounds by (intro size_add_fits) simp
  have "p < ?e" using range(1) by simp
  note at = cells_at_first_run [OF ok rs this range(2)]
  show ?thesis
  proof (cases rs)
    case Nil
    then have "?i \<ge> length (map_runs m)" using drp by simp
    moreover have "slice (map_cells m) p ?e = take k (Unknown # replicate (k - 1) Unknown)"
      using at(1) Nil range(1) by (simp add: take_Cons_pos flip: replicate_Suc)
    ultimately show ?thesis
      using fits range by (simp add: map_lookup_def lookup_cells_Unknown)
  next
    case (Cons r rs')
    note r = at(2) [OF Cons]
    have rest_len: "length (cells_from (run_end r) ?n rs') = ?n - run_end r"
      using length_cells_from [of N "run_end r" ?n rs'] r by blast
    have i: "?i < length (map_runs m)" "map_runs m ! ?i = r"
      using nth_via_drop [of ?i "map_runs m" r rs'] drp Cons
      by (metis drop_all linorder_not_le list.distinct(1)) (simp add: drp Cons nth_via_drop)
    have run_fits: "size_add (output_offset r) (output_length r) = Some (run_end r)"
      using r bounds by (intro size_add_fits) simp
    have unfolded: "map_lookup (Some m) p k =
       (if output_offset r > p then ORIGIN_UNKNOWN
        else if run_kind r = SOURCE_IDENTIFIER \<or> run_kind r = GENERATED
        then if output_offset r \<noteq> p \<or> run_end r \<noteq> ?e then ORIGIN_UNKNOWN
             else if run_kind r = GENERATED then ORIGIN_GENERATED
             else ORIGIN_SOURCE (run_source_offset r) (run_source_length r)
        else lookup_linear (r # rs') p ?e p 0 0)"
      using fits range i drp Cons run_fits
      by (cases "output_offset r = p") (simp_all add: map_lookup_def Let_def)
    show ?thesis
    proof (cases "p < output_offset r")
      case True
      then obtain g where "output_offset r - p = Suc g" by (metis Suc_diff_Suc)
      with True at(1) Cons show ?thesis
        using range(1) by (simp add: unfolded lookup_cells_Unknown)
    next
      case False
      then have cells: "slice (map_cells m) p ?e = take (?e - p) (drop (p - output_offset r) (run_cells r)
          @ cells_from (run_end r) ?n rs')" using at(1) Cons by simp
      show ?thesis
      proof (cases "run_kind r = SOURCE_LINEAR")
        case False
        have "?e \<le> run_end r + length (cells_from (run_end r) ?n rs')" 
          using range(2) r rest_len by simp
        from lookup_cells_run [OF _ _ _ \<open>p < ?e\<close> False this, of N] r \<open>\<not> p < output_offset r\<close>
        show ?thesis using False unfolding unfolded cells by (cases "run_kind r") auto
      next
        case True
        let ?t = "min (run_end r) ?e"
        define s where "s = run_source_offset r + (p - output_offset r)"
        let ?rest = "cells_from (run_end r) ?n rs'"
        have p: "output_offset r \<le> p" "p < run_end r" using False r by simp_all
        have src: "run_source_offset r + output_length r \<le> N"
          using r True by (simp add: run_ok_def)
        then have fit: "s \<le> SIZE_MAX" "s + (?t - p) \<le> SIZE_MAX"
          using p bounds unfolding s_def by auto
        have src_fits: "size_add (run_source_offset r) (p - output_offset r) = Some s"
          using fit(1) unfolding s_def by (rule size_add_fits)
        have src_fits': "size_add s (?t - p) = Some (s + (?t - p))"
          using fit(2) by (rule size_add_fits)
        have go: "lookup_linear (r # rs') p ?e p 0 0 = lookup_linear rs' p ?e ?t s (s + (?t - p))"
          using True p range(1) run_fits src_fits src_fits'
          by (simp add: lookup_linear.simps [of "r # rs'"] Let_def)
        have "drop (p - output_offset r) (run_cells r) = linear_cells s (run_end r - p)"
          using True p by (simp add: run_cells_linear s_def) (rule nth_equalityI; simp)
        then have seg: "slice (map_cells m) p ?e = take (?e - p) (linear_cells s (run_end r - p) @ ?rest)"
          unfolding cells by simp
        let ?xs = "take (?e - p) (linear_cells s (run_end r - p) @ ?rest)"
        have "length ?xs = k" using r range p rest_len by simp
        moreover have "?xs ! 0 = Linear s" using range(1) p by (simp add: nth_append)
        ultimately have spec: "lookup_cells ?xs
            = (if ?xs = linear_cells s k then ORIGIN_SOURCE s k else ORIGIN_UNKNOWN)"
          using range(1) by (intro lookup_cells_linear)
        show ?thesis
        proof (cases "run_end r \<le> ?e")
          case ends: True
          then have split: "linear_cells s k
              = linear_cells s (run_end r - p) @ linear_cells (s + (run_end r - p)) (?e - run_end r)"
          proof -
            have "(run_end r - p) + (?e - run_end r) = k" using p ends by simp
            then show ?thesis using linear_cells_append [of s "run_end r - p" "?e - run_end r"]
              by (simp only:)
          qed
          have xs: "?xs = linear_cells s (run_end r - p) @ take (?e - run_end r) ?rest"
            using p ends by (simp add: add.commute)
          have t: "?t = run_end r" using ends by simp
          have xs_spec: "lookup_cells (slice (map_cells m) p ?e) =
              (if take (?e - run_end r) ?rest = linear_cells (s + (run_end r - p)) (?e - run_end r)
               then ORIGIN_SOURCE s k else ORIGIN_UNKNOWN)"
            unfolding seg spec unfolding xs split same_append_eq ..
          have "lookup_linear rs' p ?e (run_end r) s (s + (run_end r - p)) =
              (if take (?e - run_end r) ?rest = linear_cells (s + (run_end r - p)) (?e - run_end r)
               then ORIGIN_SOURCE s (s + (run_end r - p) + (?e - run_end r) - s)
               else ORIGIN_UNKNOWN)"
            using r ends range(2) bounds p by (intro lookup_linear_spec [where N = N]) auto
          moreover have "s + (run_end r - p) + (?e - run_end r) - s = k" using ends p by simp
          ultimately show ?thesis
            using True False xs_spec unfolding unfolded go t by (simp only: run_kind.distinct if_False if_True simp_thms)
        next
          case runs_on: False
          then have t: "?t = ?e" by simp
          have "?xs = linear_cells s k"
            using runs_on p by (intro nth_equalityI) (auto simp: nth_append)
          then show ?thesis
            using True False unfolding unfolded seg spec go t by (simp add: lookup_linear.simps)
        qed
      qed
    qed
  qed
qed

section \<open>The writer on cells\<close>

text \<open>
  The contract of a writer call that succeeds: the writer stays fit for use, keeps the map it reads
  from, and its cells grow by \<open>cs\<close>.  A failed call leaves a writer that is only good to release.
\<close>

definition writer_grows :: "nat \<Rightarrow> writer_result \<Rightarrow> origin_writer \<Rightarrow> cell list \<Rightarrow> bool" where
  "writer_grows N result w cs = (case result of
       (None, w') \<Rightarrow> writer_ok N w' \<and> writer_map w' = writer_map w \<and>
         writer_cells w' = writer_cells w @ cs
     | (Some e, w') \<Rightarrow> True)"

definition ident_cells :: "nat \<Rightarrow> origin \<Rightarrow> cell list" where
  "ident_cells len x = (case x of
       ORIGIN_UNKNOWN \<Rightarrow> replicate len Unknown
     | ORIGIN_GENERATED \<Rightarrow> map (\<lambda>k. Generated k len) [0..<len]
     | ORIGIN_SOURCE a b \<Rightarrow> map (\<lambda>k. Ident k len a b) [0..<len])"

lemma length_ident_cells [simp]: "length (ident_cells len x) = len"
  by (simp add: ident_cells_def split: origin.splits)

lemma length_map_cells: "map_ok N m \<Longrightarrow> length (map_cells m) = map_length m"
  by (auto simp: map_ok_def map_cells_def dest: length_cells_from)

lemma length_writer_cells: "writer_ok N w \<Longrightarrow> length (writer_cells w) = writer_length w"
  by (auto simp: writer_ok_def writer_cells_def dest: length_cells_from)

lemma append_unknown_cells:
  assumes "writer_ok N w"
  shows "writer_grows N (writer_append_unknown w len) w (replicate len Unknown)"
proof -
  obtain m where m: "writer_map w = Some m" and w: "runs_ok N 0 (writer_length w) (writer_runs w)"
    using assms by (auto simp: writer_ok_def)
  show ?thesis
  proof (cases "writer_length w + len \<le> SIZE_MAX")
    case True
    have le: "writer_length w \<le> writer_length w + len" by simp
    from True m assms cells_from_extend [OF w le] runs_ok_extend [OF w le] show ?thesis
      by (simp add: writer_append_unknown_def writer_grows_def writer_ok_def writer_cells_def
          size_add_fits)
  next
    case False
    with m assms show ?thesis
      by (auto simp: writer_append_unknown_def writer_grows_def writer_ok_def size_add_def)
  qed
qed

lemma append_input_cells:
  assumes "writer_ok N w" "writer_map w = Some m" 
  shows "writer_grows N (writer_append_input alloc w a k) w (trim (slice (map_cells m) a (a + k)))"
    and "a + k \<le> map_length m \<or> fst (writer_append_input alloc w a k)
      = Some (error_set_message INVALID_ARGUMENT ''identifier origin input range is invalid'')"
proof -
  have m: "map_ok N m" using assms by (auto simp: writer_ok_def)
  then have bounds: "map_length m \<le> SIZE_MAX" "N \<le> SIZE_MAX" "runs_ok N 0 (map_length m) (map_runs m)"
    by (simp_all add: map_ok_def)
  show "a + k \<le> map_length m \<or> fst (writer_append_input alloc w a k)
      = Some (error_set_message INVALID_ARGUMENT ''identifier origin input range is invalid'')"
    using assms(2) by (auto simp: writer_append_input_def size_add_def split: option.splits)
  show "writer_grows N (writer_append_input alloc w a k) w (trim (slice (map_cells m) a (a + k)))"
  proof (cases "a + k \<le> map_length m \<and> writer_length w + k \<le> SIZE_MAX")
    case False
    then have "fst (writer_append_input alloc w a k) \<noteq> None"
      using assms by (auto simp: writer_append_input_def size_add_def writer_ok_def
          split: option.splits if_splits)
    then show ?thesis by (auto simp: writer_grows_def split: option.splits prod.splits)
  next
    case True
    then have fits: "size_add a k = Some (a + k)" "size_add (writer_length w) k = Some (writer_length w + k)"
      using bounds by (auto intro: size_add_fits)
    show ?thesis
    proof (cases "k = 0")
      case True
      then show ?thesis using assms fits \<open>a + k \<le> map_length m \<and> _\<close>
        by (simp add: writer_append_input_def writer_grows_def trim_def)
    next
      case False
      obtain res w' where loop: "append_input_loop alloc (writer_length w) a (a + k) w (map_runs m) = (res, w')"
        by fastforce
      have call: "writer_append_input alloc w a k = (case res of Some e \<Rightarrow> (Some e, w')
          | None \<Rightarrow> (None, w'\<lparr>writer_length := writer_length w + k\<rparr>))"
        using True False assms(2) fits loop drop_first_run(2) [OF m]
          loop_dropWhile [OF bounds(3,1), of a "a + k"]
        by (simp add: writer_append_input_def split: option.splits)
      have "runs_ok N 0 (writer_length w + (max a 0 - a)) (writer_runs w)"
        using assms(1) by (simp add: writer_ok_def)
      note spec = append_input_loop_spec [OF loop bounds(3) _ _ _ bounds(1,2) _ this]
      show ?thesis
      proof (cases res)
        case None
        have "writer_map w' = writer_map w" "runs_ok N 0 (writer_length w + k) (writer_runs w')"
          "cells_from 0 (writer_length w + k) (writer_runs w')
             = writer_cells w @ trim_from k 0 (slice (map_cells m) a (a + k))"
          using spec None True by (simp_all add: writer_cells_def map_cells_def)
        moreover have "length (slice (map_cells m) a (a + k)) = k"
          using True length_map_cells [OF m] by simp
        ultimately show ?thesis using None call assms True
          by (simp add: writer_grows_def writer_ok_def trim_def writer_cells_def)
      next
        case (Some e)
        then show ?thesis using call by (simp add: writer_grows_def)
      qed
    qed
  qed
qed

text \<open>Appending one run right behind the output.\<close>

lemma append_tail_run:
  assumes "writer_ok N w" "writer_append_run alloc w r = (None, w')"
    and "output_offset r = writer_length w" "writer_length w + output_length r \<le> SIZE_MAX"
    and "run_source_offset r + run_source_length r \<le> N"
    and "run_kind r = SOURCE_LINEAR \<longrightarrow> run_source_length r = output_length r"
  shows "writer_grows N (None, w'\<lparr>writer_length := writer_length w + output_length r\<rparr>) w (run_cells r)"
proof (cases "output_length r = 0")
  case True
  with assms(1,2) show ?thesis
    by (auto simp: writer_append_run_def writer_grows_def writer_ok_def writer_cells_def run_cells_def)
next
  case False
  then have "run_ok N r" using assms(5,6) by (simp add: run_ok_def)
  then show ?thesis
    using append_run_spec [OF assms(2), of N "writer_length w"] assms(1,3,4)
    by (auto simp: writer_grows_def writer_ok_def writer_cells_def map_ok_def)
qed

lemma append_generated_cells:
  assumes "writer_ok N w"
  shows "writer_grows N (writer_append_generated alloc w len) w (ident_cells len ORIGIN_GENERATED)"
proof -
  let ?r = "\<lparr>run_kind = GENERATED, output_offset = writer_length w, output_length = len,
      run_source_offset = 0, run_source_length = 0\<rparr>"
  obtain m where m: "writer_map w = Some m" using assms by (auto simp: writer_ok_def)
  obtain res w' where app: "writer_append_run alloc w ?r = (res, w')" by fastforce
  show ?thesis
  proof (cases "res = None \<and> writer_length w + len \<le> SIZE_MAX")
    case True
    have "run_cells ?r = ident_cells len ORIGIN_GENERATED"
      by (simp add: run_cells_def run_cell_def ident_cells_def)
    then show ?thesis using append_tail_run [OF assms, of alloc ?r w'] True app m
      by (simp add: writer_append_generated_def size_add_fits)
  next
    case False
    have "writer_length w \<le> SIZE_MAX" using assms by (simp add: writer_ok_def)
    with False app m show ?thesis
      by (auto simp: writer_append_generated_def writer_grows_def size_add_def
          split: option.splits)
  qed
qed

text \<open>The source ranges in a map stay inside the source, and so does what a lookup answers.\<close>

fun cell_ok :: "nat \<Rightarrow> cell \<Rightarrow> bool" where
  "cell_ok N (Linear s) = (s < N)"
| "cell_ok N (Ident k len a b) = (a + b \<le> N)"
| "cell_ok N _ = True"

lemma cells_from_ok: "runs_ok N c n rs \<Longrightarrow> list_all (cell_ok N) (cells_from c n rs)"
proof (induction N c n rs rule: runs_ok.induct)
  case (2 N c n r rs)
  moreover have "list_all (cell_ok N) (run_cells r)"
    using 2 by (cases "run_kind r") (auto simp: list_all_iff run_cells_def run_cell_def run_ok_def)
  ultimately show ?case by (auto simp: list_all_iff)
qed (simp add: list_all_iff)

lemma lookup_cells_bound:
  "list_all (cell_ok N) cs \<Longrightarrow> lookup_cells cs = ORIGIN_SOURCE a b \<Longrightarrow> a + b \<le> N"
proof (induction cs rule: lookup_cells.induct)
  case (1 s xs)
  then have xs: "xs = linear_cells (Suc s) (length xs)" and ab: "a = s" "b = Suc (length xs)"
    by (auto split: if_splits)
  show ?case
  proof (cases "length xs")
    case (Suc k)
    then have "xs ! k = Linear (Suc s + k)" by (subst xs) (simp add: nth_linear_cells)
    moreover have "xs ! k \<in> set xs" using Suc by simp
    ultimately have "cell_ok N (Linear (Suc s + k))" using 1(1) by (metis list.pred_set list.set_intros(2))
    with ab Suc show ?thesis by simp
  qed (use 1 ab in simp)
qed (auto split: if_splits)

lemma map_lookup_bound:
  assumes "map_ok N m" "map_lookup (Some m) p k = ORIGIN_SOURCE a b"
  shows "a + b \<le> N"
proof -
  have range: "0 < k" "p + k \<le> map_length m"
    using assms(2) by (auto simp: map_lookup_def size_add_def split: if_splits)
  have "list_all (cell_ok N) (slice (map_cells m) p (p + k))"
    using cells_from_ok assms(1)
    by (auto simp: map_ok_def map_cells_def slice_def list_all_iff dest!: in_set_takeD in_set_dropD)
  then show ?thesis
    using lookup_cells_bound assms(2) unfolding map_lookup_cells [OF assms(1) range] by blast
qed

lemma append_source_cells:
  assumes "writer_ok N w" "writer_map w = Some m"
  shows "writer_grows N (writer_append_source alloc w p k len) w
    (ident_cells len (map_lookup (Some m) p k))"
proof (cases "writer_length w + len \<le> SIZE_MAX")
  case False
  have "writer_length w \<le> SIZE_MAX" using assms by (simp add: writer_ok_def)
  with False assms(2) show ?thesis
    by (auto simp: writer_append_source_def writer_grows_def size_add_def)
next
  case True
  then have fits: "size_add (writer_length w) len = Some (writer_length w + len)"
    by (rule size_add_fits)
  show ?thesis
  proof (cases "map_lookup (Some m) p k")
    case ORIGIN_UNKNOWN
    with fits assms append_unknown_cells [OF assms(1), of len] show ?thesis
      by (simp add: writer_append_source_def writer_append_unknown_def ident_cells_def)
  next
    case ORIGIN_GENERATED
    with fits assms append_generated_cells [OF assms(1), of alloc len] show ?thesis
      by (simp add: writer_append_source_def)
  next
    case (ORIGIN_SOURCE a b)
    let ?r = "\<lparr>run_kind = SOURCE_IDENTIFIER, output_offset = writer_length w,
        output_length = len, run_source_offset = a, run_source_length = b\<rparr>"
    obtain res w' where app: "writer_append_run alloc w ?r = (res, w')" by fastforce
    have "a + b \<le> N"
      using assms ORIGIN_SOURCE by (auto simp: writer_ok_def intro: map_lookup_bound)
    moreover have "run_cells ?r = ident_cells len (ORIGIN_SOURCE a b)"
      by (simp add: run_cells_def run_cell_def ident_cells_def)
    ultimately show ?thesis
      using append_tail_run [OF assms(1), of alloc ?r w'] app fits assms(2) ORIGIN_SOURCE True
      by (cases res) (simp_all add: writer_append_source_def writer_grows_def)
  qed
qed

text \<open>What one run of an appended map turns into, over the cells the writer reads from.\<close>

definition image_of_run :: "origin_map \<Rightarrow> nat \<Rightarrow> origin_run \<Rightarrow> cell list" where
  "image_of_run m off r = (case run_kind r of
       GENERATED \<Rightarrow> ident_cells (output_length r) ORIGIN_GENERATED
     | SOURCE_LINEAR \<Rightarrow> trim (slice (map_cells m) (off + run_source_offset r)
         (off + run_source_offset r + run_source_length r))
     | SOURCE_IDENTIFIER \<Rightarrow> ident_cells (output_length r)
         (map_lookup (Some m) (off + run_source_offset r) (run_source_length r)))"

fun image_of_runs :: "origin_map \<Rightarrow> nat \<Rightarrow> nat \<Rightarrow> origin_run list \<Rightarrow> cell list" where
  "image_of_runs m off c [] = []"
| "image_of_runs m off c (r # rs) =
     replicate (output_offset r - c) Unknown @ image_of_run m off r
       @ image_of_runs m off (run_end r) rs"

lemma append_map_run_cells:
  assumes "writer_ok N w" "writer_map w = Some m"
  shows "writer_grows N (append_map_run alloc w off r) w (image_of_run m off r)"
proof (cases "run_kind r = GENERATED")
  case True
  then show ?thesis using append_generated_cells [OF assms(1)]
    by (simp add: append_map_run_def image_of_run_def)
next
  case False
  show ?thesis
  proof (cases "size_add off (run_source_offset r)")
    case None
    with False show ?thesis by (simp add: append_map_run_def writer_grows_def)
  next
    case (Some p)
    then have p: "p = off + run_source_offset r" by (auto simp: size_add_def split: if_splits)
    show ?thesis
      using append_source_cells [OF assms, of alloc p "run_source_length r" "output_length r"]
        append_input_cells(1) [OF assms, of alloc p "run_source_length r"] Some False p
      by (cases "run_kind r") (auto simp: append_map_run_def image_of_run_def writer_grows_def)
  qed
qed

lemma writer_grows_trans:
  assumes "writer_grows N (None, w1) w cs" "writer_grows N r w1 ds"
  shows "writer_grows N r w (cs @ ds)"
  using assms by (auto simp: writer_grows_def split: option.splits prod.splits)

lemma append_map_loop_cells:
  assumes "append_map_loop alloc n off c w rs = ((res, w'), c')" "writer_ok N w"
    "writer_map w = Some m"
  shows "writer_grows N (res, w') w (image_of_runs m off c rs)"
  using assms
proof (induction rs arbitrary: c w)
  case Nil
  then show ?case by (auto simp: writer_grows_def)
next
  case (Cons r rs)
  show ?case
  proof (cases res)
    case (Some e)
    then show ?thesis by (simp add: writer_grows_def)
  next
    case None
    with Cons.prems(1) obtain w1 w2 where
      un: "writer_append_unknown w (output_offset r - c) = (None, w1)"
      and run: "append_map_run alloc w1 off r = (None, w2)"
      and rest: "append_map_loop alloc n off (run_end r) w2 rs = ((res, w'), c')"
      by (auto simp: Let_def size_add_def split: if_splits option.splits prod.splits)
    have g1: "writer_grows N (None, w1) w (replicate (output_offset r - c) Unknown)"
      using append_unknown_cells [OF Cons.prems(2)] un by metis
    then have w1: "writer_ok N w1" "writer_map w1 = Some m"
      using Cons.prems(3) by (simp_all add: writer_grows_def)
    have g2: "writer_grows N (None, w2) w1 (image_of_run m off r)"
      using append_map_run_cells [OF w1] run by metis
    then have w2: "writer_ok N w2" "writer_map w2 = Some m"
      using w1(2) by (simp_all add: writer_grows_def)
    show ?thesis
      using writer_grows_trans [OF g1 writer_grows_trans [OF g2 Cons.IH [OF rest w2]]] by simp
  qed
qed

lemma append_map_loop_cursor:
  "append_map_loop alloc n off c w rs = ((None, w'), c') \<Longrightarrow> c \<le> n \<Longrightarrow>
     c' = (if rs = [] then c else run_end (last rs)) \<and> c' \<le> n"
  by (induction rs arbitrary: c w)
     (auto simp: Let_def size_add_def split: if_splits option.splits prod.splits)

text \<open>The cells of a whole map seen through the map it was written over.\<close>

definition image_of_map :: "origin_map \<Rightarrow> nat \<Rightarrow> origin_map \<Rightarrow> cell list" where
  "image_of_map m off inp = image_of_runs m off 0 (map_runs inp) @
     replicate (map_length inp - (if map_runs inp = [] then 0 else run_end (last (map_runs inp)))) Unknown"

lemma append_map_cells:
  assumes "writer_ok N w" "writer_map w = Some m" "writer_append_map alloc w (Some inp) off = (None, w')"
  shows "writer_ok N w' \<and> writer_map w' = Some m \<and>
    writer_cells w' = writer_cells w @ image_of_map m off inp \<and>
    length (image_of_map m off inp) = map_length inp"
proof -
  have "writer_length w \<le> SIZE_MAX" using assms(1) by (simp add: writer_ok_def)
  with assms(2,3) obtain w1 c where
    fits: "writer_length w + map_length inp \<le> SIZE_MAX"
    and loop: "append_map_loop alloc (map_length inp) off 0 w (map_runs inp) = ((None, w1), c)"
    and un: "writer_append_unknown w1 (map_length inp - c) = (None, w')"
    and len: "writer_length w' = writer_length w + map_length inp"
    by (auto simp: writer_append_map_def size_add_def split: if_splits option.splits prod.splits)
  have g1: "writer_grows N (None, w1) w (image_of_runs m off 0 (map_runs inp))"
    by (rule append_map_loop_cells [OF loop assms(1,2)])
  then have w1: "writer_ok N w1" by (simp add: writer_grows_def)
  have g2: "writer_grows N (None, w') w1 (replicate (map_length inp - c) Unknown)"
    using append_unknown_cells [OF w1] un by metis
  have c: "c = (if map_runs inp = [] then 0 else run_end (last (map_runs inp)))"
    using append_map_loop_cursor [OF loop] by simp
  have grown: "writer_grows N (None, w') w (image_of_map m off inp)"
    using writer_grows_trans [OF g1 g2] unfolding image_of_map_def c .
  then have w': "writer_ok N w'" "writer_cells w' = writer_cells w @ image_of_map m off inp"
    "writer_map w' = Some m" using assms(2) by (simp_all add: writer_grows_def)
  then have "length (image_of_map m off inp) = map_length inp"
    using length_writer_cells [OF w'(1)] length_writer_cells [OF assms(1)] len by simp
  with w' show ?thesis by blast
qed

lemma commit_cells:
  assumes "writer_ok N w" "writer_commit w n = Inr (m', w')"
  shows "map_ok N m' \<and> map_cells m' = writer_cells w \<and> w' = released_writer \<and> n = map_length m'"
  using assms by (auto simp: writer_commit_def writer_ok_def map_ok_def map_cells_def
      writer_cells_def split: if_splits)

lemma begin_cells:
  assumes "map_ok N m" "writer_begin True (Some m) n = Inr w"
  shows "writer_ok N w \<and> writer_map w = Some m \<and> writer_cells w = [] \<and> n = map_length m"
  using assms by (auto simp: writer_begin_def writer_ok_def map_ok_def writer_cells_def split: if_splits)

section \<open>The interface of a provenance writer\<close>

text \<open>
  What a dialect preprocessor relies on when it records what it writes: copying input bytes appends
  their trimmed cells, and bytes of its own are appended as unknown.
\<close>

definition faithful :: "string \<Rightarrow> string \<Rightarrow> cell list \<Rightarrow> bool" where
  "faithful src text cs = list_all2 (\<lambda>ch c. case c of Linear s \<Rightarrow> s < length src \<and> src ! s = ch
     | _ \<Rightarrow> True) text cs"

lemma faithful_append:
  "faithful src xs cs \<Longrightarrow> faithful src ys ds \<Longrightarrow> faithful src (xs @ ys) (cs @ ds)"
  by (simp add: faithful_def list_all2_appendI)

lemma faithful_length: "faithful src text cs \<Longrightarrow> length text = length cs"
  by (simp add: faithful_def list_all2_lengthD)

lemma faithful_slice: "faithful src text cs \<Longrightarrow> faithful src (slice text a b) (slice cs a b)"
  by (simp add: faithful_def slice_def list_all2_takeI list_all2_dropI)

lemma faithful_trim: "faithful src text cs \<Longrightarrow> faithful src text (trim cs)"
proof -
  have "keep_cell L j c = Linear s \<Longrightarrow> c = Linear s" for L j c s
    by (cases c) (auto split: if_splits)
  then show "faithful src text cs \<Longrightarrow> faithful src text (trim cs)"
    by (fastforce simp: faithful_def trim_def list_all2_conv_all_nth trim_from_nth split: cell.splits)
qed

lemma faithful_opaque:
  "length text = length cs \<Longrightarrow> list_all (\<lambda>c. \<forall>s. c \<noteq> Linear s) cs \<Longrightarrow> faithful src text cs"
  by (fastforce simp: faithful_def list_all2_conv_all_nth list_all_length split: cell.splits)

text \<open>
  A map written for a rewritten part of the input, appended: where it is faithful to that part, and the
  input to the source, the appended cells are faithful to the source.
\<close>

lemma faithful_split:
  "faithful src (xs @ ys) (cs @ ds) \<Longrightarrow> length xs = length cs \<Longrightarrow> faithful src xs cs \<and> faithful src ys ds"
  by (simp add: faithful_def list_all2_append)

lemma image_run_faithful:
  assumes "faithful src source_text (map_cells m)" "faithful (drop off source_text) t (run_cells r)"
    and "length (image_of_run m off r) = length t"
  shows "faithful src t (image_of_run m off r)"
proof (cases "run_kind r = SOURCE_LINEAR")
  case False
  then show ?thesis
    using assms(3) by (intro faithful_opaque)
      (auto simp: image_of_run_def ident_cells_def list_all_iff split: run_kind.splits origin.splits)
next
  case True
  let ?a = "off + run_source_offset r" and ?n = "run_source_length r"
  have image: "image_of_run m off r = trim (slice (map_cells m) ?a (?a + ?n))" using True by (simp add: image_of_run_def)
  have f: "faithful src (slice source_text ?a (?a + ?n)) (image_of_run m off r)"
    unfolding image using assms(1) by (intro faithful_trim faithful_slice)
  have "length t = output_length r" "\<forall>i < length t. run_source_offset r + i < length (drop off source_text) \<and>
      drop off source_text ! (run_source_offset r + i) = t ! i"
    using assms(2) True by (auto simp: faithful_def list_all2_conv_all_nth run_cells_def run_cell_def)
  then have bytes: "\<forall>i < length t. ?a + i < length source_text \<and> source_text ! (?a + i) = t ! i"
    by (auto simp: ac_simps)
  have same: "length (slice source_text ?a (?a + ?n)) = length t" using faithful_length [OF f] assms(3) by simp
  then have "length t \<le> ?n" by (simp add: slice_def)
  then have "slice source_text ?a (?a + ?n) = t"
    using same bytes by (intro nth_equalityI) (simp_all add: slice_def)
  then show ?thesis using f by simp
qed

lemma append_map_run_length:
  assumes "writer_ok N w" "writer_map w = Some m" "append_map_run alloc w off r = (None, w')"
  shows "length (image_of_run m off r) = output_length r"
proof (cases "run_kind r = SOURCE_LINEAR")
  case False
  then show ?thesis by (auto simp: image_of_run_def ident_cells_def split: run_kind.splits origin.splits)
next
  case True
  then have copy: "writer_append_input alloc w (off + run_source_offset r) (run_source_length r) = (None, w')"
    and "output_length r = run_source_length r"
    using assms(3) by (auto simp: append_map_run_def size_add_def split: if_splits)
  moreover have "off + run_source_offset r + run_source_length r \<le> map_length m"
    using append_input_cells(2) [OF assms(1,2), where alloc = alloc and a = "off + run_source_offset r" and k = "run_source_length r"] copy
    by simp
  moreover have "length (map_cells m) = map_length m"
    using assms(1,2) by (auto simp: writer_ok_def intro: length_map_cells)
  ultimately show ?thesis using True by (simp add: image_of_run_def trim_def)
qed

lemma append_map_loop_lengths:
  "append_map_loop alloc n off c w rs = ((None, w'), c') \<Longrightarrow> writer_ok N w \<Longrightarrow> writer_map w = Some m \<Longrightarrow>
     list_all (\<lambda>r. length (image_of_run m off r) = output_length r) rs"
proof (induction rs arbitrary: c w)
  case (Cons r rs)
  then obtain w1 w2 where un: "writer_append_unknown w (output_offset r - c) = (None, w1)"
    and run: "append_map_run alloc w1 off r = (None, w2)"
    and rest: "append_map_loop alloc n off (run_end r) w2 rs = ((None, w'), c')"
    by (auto simp: Let_def size_add_def split: if_splits option.splits prod.splits)
  have w1: "writer_ok N w1" "writer_map w1 = Some m"
    using append_unknown_cells [OF Cons.prems(2), of "output_offset r - c"] un Cons.prems(3) by (simp_all add: writer_grows_def)
  have w2: "writer_ok N w2" "writer_map w2 = Some m"
    using append_map_run_cells [OF w1, of alloc off r] run w1(2) by (simp_all add: writer_grows_def)
  from append_map_run_length [OF w1 run] Cons.IH [OF rest w2] show ?case by simp
qed simp

lemma image_runs_faithful:
  assumes "faithful src source_text (map_cells m)"
  shows "runs_ok N c n rs \<Longrightarrow> faithful (drop off source_text) t (cells_from c n rs) \<Longrightarrow>
    list_all (\<lambda>r. length (image_of_run m off r) = output_length r) rs \<Longrightarrow>
    faithful src t (image_of_runs m off c rs @ replicate (n - (if rs = [] then c else run_end (last rs))) Unknown)"
proof (induction rs arbitrary: c t)
  case Nil
  then show ?case using faithful_length [OF Nil.prems(2)] by (intro faithful_opaque) (simp_all add: list_all_length)
next
  case (Cons r rs)
  let ?k = "output_offset r - c" and ?l = "output_length r"
  define a b d where "a = take ?k t" and "b = take ?l (drop ?k t)" and "d = drop ?l (drop ?k t)"
  have t: "t = a @ b @ d" unfolding a_def b_def d_def by (simp only: append_take_drop_id)
  have size: "length t = ?k + (?l + length (cells_from (run_end r) n rs))"
    using faithful_length [OF Cons.prems(2)] by (simp add: run_cells_def)
  have lens: "length a = ?k" "length b = ?l" using size by (simp_all add: a_def b_def)
  from Cons.prems(2) have parts: "faithful (drop off source_text) b (run_cells r)"
    "faithful (drop off source_text) d (cells_from (run_end r) n rs)"
    unfolding t using lens by (auto dest!: faithful_split simp: run_cells_def)
  have blank: "faithful src a (replicate ?k Unknown)" using lens by (intro faithful_opaque) (simp_all add: list_all_length)
  have run: "faithful src b (image_of_run m off r)"
    using Cons.prems(3) lens by (intro image_run_faithful [OF assms parts(1)]) simp
  have "faithful src d (image_of_runs m off (run_end r) rs @
      replicate (n - (if rs = [] then run_end r else run_end (last rs))) Unknown)"
    using Cons by (intro Cons.IH [OF _ parts(2)]) simp_all
  from faithful_append [OF blank faithful_append [OF run this]] show ?case unfolding t by (cases "rs = []") simp_all
qed

lemma image_map_faithful:
  assumes "writer_ok N w" "writer_map w = Some m" "writer_append_map alloc w (Some inp) off = (None, w')"
    and "faithful src source_text (map_cells m)" "map_ok K inp" "faithful (drop off source_text) t (map_cells inp)"
  shows "faithful src t (image_of_map m off inp)"
proof -
  obtain w1 c where "append_map_loop alloc (map_length inp) off 0 w (map_runs inp) = ((None, w1), c)"
    using assms(2,3) by (auto simp: writer_append_map_def size_add_def split: if_splits option.splits prod.splits)
  from append_map_loop_lengths [OF this assms(1,2)] show ?thesis
    using image_runs_faithful [OF assms(4), of K 0 "map_length inp" "map_runs inp" off t] assms(5,6)
    by (simp add: image_of_map_def map_ok_def map_cells_def)
qed

locale provenance_writer =
  fixes ok :: "'w \<Rightarrow> bool" and input :: "'w \<Rightarrow> cell list" and cells :: "'w \<Rightarrow> cell list"
    and copy :: "'w \<Rightarrow> nat \<Rightarrow> nat \<Rightarrow> 'w option" and own :: "'w \<Rightarrow> nat \<Rightarrow> 'w option"
  assumes copy_grows: "ok w \<Longrightarrow> copy w a k = Some w' \<Longrightarrow> ok w' \<and> input w' = input w \<and>
      a + k \<le> length (input w) \<and> cells w' = cells w @ trim (slice (input w) a (a + k))"
    and own_grows: "ok w \<Longrightarrow> own w k = Some w' \<Longrightarrow> ok w' \<and> input w' = input w \<and>
      cells w' = cells w @ replicate k Unknown"
begin

lemma copy_faithful:
  assumes "ok w" "copy w a k = Some w'" "faithful src text (input w)" "faithful src out (cells w)"
  shows "faithful src (out @ slice text a (a + k)) (cells w')"
  using copy_grows [OF assms(1,2)] assms(3,4)
  by (simp add: faithful_append faithful_trim faithful_slice)

lemma own_faithful:
  assumes "ok w" "own w (length t) = Some w'" "faithful src out (cells w)"
  shows "faithful src (out @ t) (cells w')"
  using own_grows [OF assms(1,2)] assms(3)
  by (simp add: faithful_append faithful_opaque list_all_length)

end

definition success :: "writer_result \<Rightarrow> origin_writer option" where
  "success r = (case r of (None, w) \<Rightarrow> Some w | (Some e, w) \<Rightarrow> None)"

definition input_cells :: "origin_writer \<Rightarrow> cell list" where
  "input_cells w = (case writer_map w of None \<Rightarrow> [] | Some m \<Rightarrow> map_cells m)"

interpretation origin: provenance_writer "writer_ok N" input_cells writer_cells
  "\<lambda>w a k. success (writer_append_input alloc w a k)" "\<lambda>w k. success (writer_append_unknown w k)"
  for N alloc
proof unfold_locales
  fix w a k w'
  assume w: "writer_ok N w" and s: "success (writer_append_input alloc w a k) = Some w'"
  then obtain m where m: "writer_map w = Some m" "map_ok N m" by (auto simp: writer_ok_def)
  have r: "writer_append_input alloc w a k = (None, w')"
    using s by (auto simp: success_def split: prod.splits option.splits)
  show "writer_ok N w' \<and> input_cells w' = input_cells w \<and> a + k \<le> length (input_cells w)
      \<and> writer_cells w' = writer_cells w @ trim (slice (input_cells w) a (a + k))"
    using append_input_cells [OF w m(1), where alloc = alloc and a = a and k = k] m r length_map_cells [OF m(2)]
    by (simp add: writer_grows_def input_cells_def)
next
  fix w k w'
  assume w: "writer_ok N w" and s: "success (writer_append_unknown w k) = Some w'"
  have r: "writer_append_unknown w k = (None, w')"
    using s by (auto simp: success_def split: prod.splits option.splits)
  show "writer_ok N w' \<and> input_cells w' = input_cells w
      \<and> writer_cells w' = writer_cells w @ replicate k Unknown"
    using append_unknown_cells [OF w, of k] r by (simp add: writer_grows_def input_cells_def)
qed

end
