(* ===== verification/Origin_Properties.thy ===== *)
theory Origin_Properties
  imports Identifier_Origin
begin

text \<open>
  The properties of identifier provenance: what a lookup means, what the writer operations do to
  the cells of a map, and that no call of the writer can make the map claim a source byte that is not
  the byte it stands for.
\<close>

section \<open>Lookup and search\<close>

text \<open>
  C28.  A lookup answers exactly what the cells of the range say: a range of consecutive source
  bytes is reported with its source range, however many runs it spans, a range that is exactly one
  recorded identifier with the range or the mark recorded for it, and any other range (a cut or
  joined identifier, a gap, a jump in the source, a range outside the parser SQL) as unknown.
\<close>

theorem map_lookup_exact:
  assumes "map_ok N m"
  shows "map_lookup (Some m) p k =
    (if 0 < k \<and> p + k \<le> map_length m then lookup_cells (slice (map_cells m) p (p + k))
     else ORIGIN_UNKNOWN)"
proof (cases "0 < k \<and> p + k \<le> map_length m")
  case True
  then show ?thesis using map_lookup_cells [OF assms] by simp
next
  case False
  then show ?thesis by (auto simp: map_lookup_def size_add_def)
qed

text \<open>
  The binary search finds the first run that ends behind the offset, for every offset.
\<close>

lemma first_run_is_first:
  assumes "map_ok N m"
  shows "first_run m p \<le> length (map_runs m) \<and>
    (\<forall>i < first_run m p. run_end (map_runs m ! i) \<le> p) \<and>
    (first_run m p < length (map_runs m) \<longrightarrow> p < run_end (map_runs m ! first_run m p))"
proof -
  let ?P = "\<lambda>r. run_end r \<le> p" and ?rs = "map_runs m"
  have "?P (?rs ! i)" if "i < length (takeWhile ?P ?rs)" for i
    using set_takeWhileD [OF nth_mem [OF that]] takeWhile_nth [OF that] by metis
  moreover have "p < run_end (?rs ! length (takeWhile ?P ?rs))"
    if "length (takeWhile ?P ?rs) < length ?rs"
    using nth_length_takeWhile [OF that] by simp
  ultimately show ?thesis
    unfolding drop_first_run(1) [OF assms] by (simp add: length_takeWhile_le)
qed

section \<open>Writing\<close>

text \<open>
  Copying an input range into the output appends the cells of that range, less the
  identifiers the range cuts, and nothing else: earlier cells and the input map are kept, and the
  call refuses a range outside the input.
\<close>

lemma writer_append_input_refines:
  assumes "writer_ok N w" "writer_map w = Some m"
    and "writer_append_input alloc w a k = (None, w')"
  shows "writer_ok N w' \<and> writer_map w' = Some m \<and> a + k \<le> map_length m \<and>
    writer_cells w' = writer_cells w @ trim (slice (map_cells m) a (a + k))"
  using append_input_cells [OF assms(1,2), where alloc = alloc and a = a and k = k] assms(2,3)
  by (simp add: writer_grows_def)

text \<open>
  Appending a whole map (a rewritten part of the input) appends, run by run, what its source
  ranges hold in the input, exactly as many cells as the map has bytes.
\<close>

lemma writer_append_map_refines:
  assumes "writer_ok N w" "writer_map w = Some m"
    and "writer_append_map alloc w (Some inp) off = (None, w')"
  shows "writer_ok N w' \<and> writer_map w' = Some m \<and>
    writer_cells w' = writer_cells w @ image_of_map m off inp \<and>
    length (image_of_map m off inp) = map_length inp"
  using assms by (rule append_map_cells)

section \<open>Provenance\<close>

text \<open>
  \<open>faithful src text cells\<close>: every byte of the text that its cell says was copied is the byte of the source
  at that place.  A writer that starts over the identity map starts with this, and every call keeps it.
\<close>

lemma identity_faithful:
  assumes "length src \<le> SIZE_MAX" "map_new_identity alloc (length src) True = Inr m"
  shows "map_ok (length src) m \<and> faithful src src (map_cells m)"
proof (cases src)
  case Nil
  with assms(2) have "m = \<lparr>map_runs = [], map_length = 0\<rparr>"
    by (auto simp: map_new_identity_def split: if_splits)
  then show ?thesis using Nil by (simp add: map_ok_def map_cells_def faithful_def)
next
  case Cons
  with assms(2) have m: "m = \<lparr>map_runs = [\<lparr>run_kind = SOURCE_LINEAR, output_offset = 0,
      output_length = length src, run_source_offset = 0, run_source_length = length src\<rparr>],
      map_length = length src\<rparr>"
    by (auto simp: map_new_identity_def split: if_splits)
  have "map_cells m = map Linear [0..<length src]"
    by (simp add: m map_cells_def run_cells_def run_cell_def)
  moreover have "map_ok (length src) m"
    using assms(1) Cons by (auto simp: m map_ok_def run_ok_def)
  ultimately show ?thesis by (simp add: faithful_def list_all2_conv_all_nth)
qed

text \<open>What a lookup may be trusted with.\<close>

lemma lookup_cells_bytes:
  assumes "faithful src text cs" "lookup_cells cs = ORIGIN_SOURCE a b"
  shows "text = slice src a (a + b) \<or> (\<exists>len. hd cs = Ident 0 len a b \<and> len = length cs)"
  using assms
proof (induction cs rule: lookup_cells.induct)
  case (1 s xs)
  then have ab: "a = s" "b = Suc (length xs)" and xs: "Linear s # xs = linear_cells s (Suc (length xs))"
    by (auto simp: linear_cells_Suc split: if_splits)
  have "faithful src text (linear_cells s b)" using 1(1) ab xs by simp
  then have len: "length text = b" and byte: "\<forall>i < b. s + i < length src \<and> src ! (s + i) = text ! i"
    by (auto simp: faithful_def list_all2_conv_all_nth)
  have "s + (b - 1) < length src" using byte ab by auto
  then have "s + b \<le> length src" using ab by simp
  then have "text = slice src s (s + b)"
    using len byte by (intro nth_equalityI) (auto simp: nth_slice)
  with ab show ?case by simp
qed (auto split: if_splits)

lemma faithful_lookup:
  assumes "map_ok (length src) m" "faithful src out (map_cells m)" "map_lookup (Some m) p k = ORIGIN_SOURCE a b"
  shows "a + b \<le> length src \<and> (slice out p (p + k) = slice src a (a + b) \<or> map_cells m ! p = Ident 0 k a b)"
proof -
  have range: "0 < k" "p + k \<le> map_length m"
    using assms(3) by (auto simp: map_lookup_def size_add_def split: if_splits)
  have "lookup_cells (slice (map_cells m) p (p + k)) = ORIGIN_SOURCE a b"
    using assms(3) map_lookup_cells [OF assms(1) range] by simp
  from lookup_cells_bytes [OF faithful_slice [OF assms(2)] this]
  have "slice out p (p + k) = slice src a (a + b) \<or> map_cells m ! p = Ident 0 k a b"
    using range length_map_cells [OF assms(1)] by (auto simp: hd_conv_nth nth_slice slice_def)
  then show ?thesis using map_lookup_bound [OF assms(1,3)] by blast
qed

lemma faithful_ident: "faithful src t (ident_cells (length t) x)"
  by (rule faithful_opaque) (auto simp: ident_cells_def list_all_iff split: origin.splits)

lemma append_input_faithful:
  assumes "writer_ok N w" "writer_map w = Some m" "faithful src source_text (map_cells m)" "faithful src out (writer_cells w)"
    and "writer_append_input alloc w a k = (None, w')"
  shows "faithful src (out @ slice source_text a (a + k)) (writer_cells w')"
proof -
  have "success (writer_append_input alloc w a k) = Some w'" using assms(5) by (simp add: success_def)
  from origin.copy_faithful [OF assms(1) this] assms(2-4) show ?thesis by (simp add: input_cells_def)
qed

lemma append_unknown_faithful:
  assumes "writer_ok N w" "faithful src out (writer_cells w)" "writer_append_unknown w (length t) = (None, w')"
  shows "faithful src (out @ t) (writer_cells w')"
proof -
  have "success (writer_append_unknown w (length t)) = Some w'" using assms(3) by (simp add: success_def)
  from origin.own_faithful [OF assms(1) this assms(2)] show ?thesis .
qed

text \<open>A writer over the map \<open>m\<close> that has written \<open>out\<close>.\<close>

definition has_written :: "string \<Rightarrow> origin_map \<Rightarrow> string \<Rightarrow> origin_writer \<Rightarrow> bool" where
  "has_written src m out w \<longleftrightarrow> writer_ok (length src) w \<and> writer_map w = Some m \<and> faithful src out (writer_cells w)"

lemma grows_written:
  assumes "has_written src m out w" "writer_grows (length src) (None, w') w cs" "faithful src t cs"
  shows "has_written src m (out @ t) w'"
  using assms by (auto simp: has_written_def writer_grows_def faithful_append)

text \<open>
  C25.  The calls with which a dialect preprocessor writes its map keep provenance.  Let the input text and
  the output written so far be faithful to the source.  Then so is the output behind every call that
  succeeds, and the writer goes on over the same input: a copied range is the bytes of the input there;
  bytes of the preprocessor's own, an identifier that stands for an input range and one it made up may
  be anything; and a map appended for a rewritten part of the input, faithful to the input from the offset
  on, brings its text.  What is committed can be trusted: when a lookup reports a source range for a range
  of the output, that range lies in the source, and the output holds the very same bytes unless the range
  is one identifier that was rewritten.
\<close>

theorem writer_keeps_provenance:
  assumes "has_written src m out w" "faithful src source_text (map_cells m)"
  shows "(writer_append_input alloc w a k = (None, w') \<longrightarrow> has_written src m (out @ slice source_text a (a + k)) w') \<and>
    (writer_append_unknown w (length t) = (None, w') \<longrightarrow> has_written src m (out @ t) w') \<and>
    (writer_append_source alloc w a k (length t) = (None, w') \<longrightarrow> has_written src m (out @ t) w') \<and>
    (writer_append_generated alloc w (length t) = (None, w') \<longrightarrow> has_written src m (out @ t) w') \<and>
    (writer_append_map alloc w (Some inp) off = (None, w') \<and> map_ok n inp \<and>
        faithful (drop off source_text) t (map_cells inp) \<longrightarrow> has_written src m (out @ t) w') \<and>
    (writer_commit w (length out) = Inr (done_map, w') \<and> map_lookup (Some done_map) p k = ORIGIN_SOURCE a b \<longrightarrow>
        map_length done_map = length out \<and> a + b \<le> length src \<and>
        (slice out p (p + k) = slice src a (a + b) \<or> map_cells done_map ! p = Ident 0 k a b))"
proof -
  have w: "writer_ok (length src) w" "writer_map w = Some m" "faithful src out (writer_cells w)"
    using assms(1) by (simp_all add: has_written_def)
  note grow = grows_written [OF assms(1)]
  show ?thesis
  proof (intro conjI impI; (elim conjE)?)
    assume r: "writer_append_input alloc w a k = (None, w')"
    from append_input_faithful [OF w(1,2) assms(2) w(3) r] append_input_cells(1) [OF w(1,2), of alloc a k] r w(2)
    show "has_written src m (out @ slice source_text a (a + k)) w'" by (simp add: has_written_def writer_grows_def)
  next
    assume r: "writer_append_unknown w (length t) = (None, w')"
    from append_unknown_faithful [OF w(1,3) r] append_unknown_cells [OF w(1), of "length t"] r w(2)
    show "has_written src m (out @ t) w'" by (simp add: has_written_def writer_grows_def)
  next
    assume "writer_append_source alloc w a k (length t) = (None, w')"
    then show "has_written src m (out @ t) w'"
      using grow [OF _ faithful_ident] append_source_cells [OF w(1,2), of alloc a k "length t"] by simp
  next
    assume "writer_append_generated alloc w (length t) = (None, w')"
    then show "has_written src m (out @ t) w'"
      using grow [OF _ faithful_ident] append_generated_cells [OF w(1), of alloc "length t"] by simp
  next
    assume r: "writer_append_map alloc w (Some inp) off = (None, w')" "map_ok n inp"
      "faithful (drop off source_text) t (map_cells inp)"
    from append_map_cells [OF w(1,2) r(1)] faithful_append [OF w(3) image_map_faithful [OF w(1,2) r(1) assms(2) r(2,3)]]
    show "has_written src m (out @ t) w'" by (simp add: has_written_def)
  next
    assume r: "writer_commit w (length out) = Inr (done_map, w')" "map_lookup (Some done_map) p k = ORIGIN_SOURCE a b"
    have c: "map_ok (length src) done_map" "map_cells done_map = writer_cells w" "length out = map_length done_map"
      using commit_cells [OF w(1) r(1)] by simp_all
    show "map_length done_map = length out" using c(3) by simp
    have "faithful src out (map_cells done_map)" using c(2) w(3) by simp
    from faithful_lookup [OF c(1) this r(2)]
    show "a + b \<le> length src" "slice out p (p + k) = slice src a (a + b) \<or> map_cells done_map ! p = Ident 0 k a b"
      by simp_all
  qed
qed

text \<open>
  The preprocessing entry never returns a map that does not fit its parser SQL, and a state
  built by a preprocessor that then fails is released at most once, by the operation table of the
  module that built it.
\<close>

lemma preprocess_result_fits:
  assumes "preprocess_identifier_origins alloc preprocess destroys d (Some sql) True True True = (r, ds)"
  shows "case r of
      Inr (out, st, m) \<Rightarrow> map_length m = length out \<and> ds = []
    | Inl e \<Rightarrow> length ds \<le> 1 \<and> (\<forall>(ops, st) \<in> set ds. preprocess_for_dialect d = Some ops \<and>
        (\<exists>m. pre_state (preprocess ops sql m) = Some st))"
proof -
  have owner: "preprocess_for_dialect d = dialect_get_ops d"
    by (cases d rule: dialect_get_ops.cases) auto
  show ?thesis using assms owner
    by (auto simp: preprocess_identifier_origins_def Let_def map_output_length_def
        split: option.splits sum.splits if_splits)
qed

section \<open>Instances\<close>

text \<open>Two source bytes, and a map over them with runs of all kinds.\<close>

definition two_bytes :: origin_map where
  "two_bytes = \<lparr>map_runs = [\<lparr>run_kind = SOURCE_LINEAR, output_offset = 0, output_length = 2,
     run_source_offset = 0, run_source_length = 2\<rparr>], map_length = 2\<rparr>"

definition mixed_map :: origin_map where
  "mixed_map = \<lparr>map_runs =
     [\<lparr>run_kind = SOURCE_LINEAR, output_offset = 0, output_length = 1,
        run_source_offset = 0, run_source_length = 1\<rparr>,
      \<lparr>run_kind = GENERATED, output_offset = 3, output_length = 1,
        run_source_offset = 0, run_source_length = 0\<rparr>,
      \<lparr>run_kind = SOURCE_IDENTIFIER, output_offset = 4, output_length = 2,
        run_source_offset = 1, run_source_length = 1\<rparr>], map_length = 6\<rparr>"

lemma two_bytes_new: "map_new_identity (\<lambda>_ _. True) (length ''ab'') True = Inr two_bytes"
  by (simp add: map_new_identity_def two_bytes_def)

lemma two_bytes_ok: "map_ok 2 two_bytes"
  by (simp add: two_bytes_def map_ok_def run_ok_def SIZE_MAX_def)

lemma mixed_map_ok: "map_ok 2 mixed_map"
  by (simp add: mixed_map_def map_ok_def run_ok_def SIZE_MAX_def)

lemmas origin_eval = writer_begin_def writer_append_input_def writer_append_unknown_def
  writer_append_generated_def writer_append_source_def writer_append_run_def writer_commit_def
  reserve_runs_def double_capacity.simps run_can_merge_def clip_run_def first_run_def
  first_run_search.simps map_lookup_def lookup_linear.simps size_add_def SIZE_MAX_def sizeof_run_def
  success_def slice_def

lemma mixed_map_cells:
  "map_cells mixed_map = [Linear 0, Unknown, Unknown, Generated 0 1, Ident 0 2 1 1, Ident 1 2 1 1]"
  by (simp add: map_cells_def mixed_map_def run_cells_def run_cell_def numeral_2_eq_2)

definition mixed_writer :: origin_writer where
  "mixed_writer = \<lparr>writer_map = Some mixed_map, writer_runs = [], writer_capacity = 0,
     writer_length = 0\<rparr>"

lemma mixed_writer_ok: "writer_ok 2 mixed_writer" "writer_map mixed_writer = Some mixed_map"
  using mixed_map_ok by (simp_all add: writer_ok_def mixed_writer_def)

theorem map_lookup_exact_witness:
  "map_lookup (Some mixed_map) 4 2 = ORIGIN_SOURCE 1 1"
  using map_lookup_exact [OF mixed_map_ok, of 4 2]
  by (simp add: mixed_map_cells slice_def) (simp add: mixed_map_def)

lemma first_run_is_first_witness: "first_run mixed_map 3 = 1"
proof -
  let ?k = "first_run mixed_map 3"
  have first: "\<forall>i < ?k. run_end (map_runs mixed_map ! i) \<le> 3"
    and ends: "?k < 3 \<longrightarrow> 3 < run_end (map_runs mixed_map ! ?k)"
    using first_run_is_first [OF mixed_map_ok, of 3] by (simp_all add: mixed_map_def)
  have "run_end (map_runs mixed_map ! 0) = 1" "run_end (map_runs mixed_map ! 1) = 4"
    by (simp_all add: mixed_map_def)
  note ends_at = this
  have "\<not> 1 < ?k" using first ends_at(2) by force
  moreover have "?k \<noteq> 0" using ends ends_at(1) by (metis not_numeral_less_one zero_less_numeral)
  ultimately show ?thesis by simp
qed

lemma writer_append_input_refines_witness:
  "\<exists>w'. writer_append_input (\<lambda>_ _. True) mixed_writer 3 2 = (None, w') \<and>
     writer_cells w' = [Generated 0 1, Unknown]"
proof -
  obtain w' where run: "writer_append_input (\<lambda>_ _. True) mixed_writer 3 2 = (None, w')"
    by (simp add: origin_eval mixed_writer_def mixed_map_def)
  from writer_append_input_refines [OF mixed_writer_ok run]
  have "writer_cells w' = [Generated 0 1, Unknown]"
    by (simp add: mixed_map_cells slice_def trim_def trim_from_def mixed_writer_def writer_cells_def)
  with run show ?thesis by blast
qed

lemma writer_append_map_refines_witness:
  "\<exists>w'. writer_append_map (\<lambda>_ _. True) mixed_writer (Some two_bytes) 0 = (None, w') \<and>
     writer_cells w' = [Linear 0, Unknown]"
proof -
  obtain w' where run: "writer_append_map (\<lambda>_ _. True) mixed_writer (Some two_bytes) 0 = (None, w')"
    by (simp add: origin_eval writer_append_map_def append_map_run_def mixed_writer_def mixed_map_def
        two_bytes_def)
  from writer_append_map_refines [OF mixed_writer_ok run]
  have "writer_cells w' = [Linear 0, Unknown]"
    by (simp add: image_of_map_def image_of_run_def two_bytes_def mixed_map_cells slice_def trim_def
        trim_from_def mixed_writer_def writer_cells_def)
  with run show ?thesis by blast
qed

theorem writer_keeps_provenance_witness:
  "\<exists>w'. writer_append_map (\<lambda>_ _. True) mixed_writer (Some two_bytes) 0 = (None, w') \<and>
     has_written ''ab'' mixed_map ''a-'' w'"
proof -
  obtain w' where run: "writer_append_map (\<lambda>_ _. True) mixed_writer (Some two_bytes) 0 = (None, w')"
    by (simp add: origin_eval writer_append_map_def append_map_run_def mixed_writer_def mixed_map_def
        two_bytes_def)
  have "has_written ''ab'' mixed_map [] mixed_writer"
    using mixed_writer_ok by (simp add: has_written_def numeral_2_eq_2) (simp add: faithful_def writer_cells_def mixed_writer_def)
  moreover have "faithful ''ab'' ''a--gxy'' (map_cells mixed_map)" by (simp add: faithful_def mixed_map_cells)
  moreover have "faithful (drop 0 ''a--gxy'') ''a-'' (map_cells two_bytes)"
    by (simp add: faithful_def two_bytes_def map_cells_def run_cells_def run_cell_def numeral_2_eq_2)
  ultimately have "has_written ''ab'' mixed_map ([] @ ''a-'') w'"
    using writer_keeps_provenance [of "''ab''" mixed_map "[]" mixed_writer "''a--gxy''"] run two_bytes_ok by blast
  with run show ?thesis by auto
qed

lemma preprocess_result_fits_witness:
  "map_length two_bytes = length ''ab''"
proof -
  let ?pre = "\<lambda>ops sql m. \<lparr>pre_error = None, pre_sql = Some sql, pre_state = Some (0::nat), pre_map = m\<rparr>"
  have "preprocess_identifier_origins (\<lambda>_ _. True) ?pre (\<lambda>_. True) (Some ORACLE) (Some ''ab'')
      True True True = (Inr (''ab'', Some 0, two_bytes), [])"
    using two_bytes_new
    by (simp add: preprocess_identifier_origins_def map_output_length_def two_bytes_def)
  from preprocess_result_fits [OF this] show ?thesis by simp
qed

end
