(* ===== verification/Selector.thy ===== *)
theory Selector
  imports Sql_Prelude
begin

text \<open>
  Selectors (\<^verbatim>\<open>src/core/sqlparser_selector.c\<close>): the textual addresses of the parts of a parsed
  script that the public interface hands out and takes back.  The theory models the parser, which
  fills the caller's selector as it goes, the formatter with its 128-byte buffer and the formatter
  of insert cells that avoids \<^verbatim>\<open>snprintf\<close>, and proves that the two directions agree.
\<close>

section \<open>Data\<close>

text \<open>\<^verbatim>\<open>sqlparser_selector_kind_t\<close>\<close>

datatype selector_kind =
    KIND_UNKNOWN | KIND_RELATION | KIND_NAME | KIND_LITERAL | KIND_WHERE_LITERAL
  | KIND_ASSIGNMENT | KIND_INSERT_CELL | KIND_INSERT_COLUMNS | KIND_INSERT_ROW | KIND_VALUE
  | KIND_SELECT_TARGETS | KIND_SELECT_TARGET | KIND_WHERE | KIND_CLAUSE
  | KIND_INSERT_BRANCH_COLUMNS | KIND_INSERT_BRANCH_CONDITION | KIND_DML_RESULT_TARGETS
  | KIND_DML_RESULT_TARGET | KIND_DML_RESULT_SINK | KIND_DML_RESULT_SINK_COLUMNS
  | KIND_DML_RESULT_SINK_COLUMN | KIND_MERGE_ASSIGNMENT | KIND_MERGE_BRANCH_CONDITION
  | KIND_MERGE_INSERT_COLUMN | KIND_MERGE_INSERT_CELL | KIND_MERGE_DELETE_CONDITION
  | KIND_EXPRESSION | KIND_EXPRESSION_ARG | KIND_EXPRESSION_ARGS

text \<open>\<^verbatim>\<open>sqlparser_selector_t\<close>\<close>

record selector =
  sel_kind :: selector_kind
  statement_index :: nat
  item_index :: nat
  row_index :: nat
  column_index :: nat

text \<open>\<^verbatim>\<open>sqlparser_selector_clear\<close>\<close>

definition selector_clear :: selector where
  "selector_clear = \<lparr>sel_kind = KIND_UNKNOWN, statement_index = 0, item_index = 0, row_index = 0,
     column_index = 0\<rparr>"

section \<open>Parsing\<close>

definition quoted :: "string \<Rightarrow> string" where
  "quoted s = QUOTE # s @ [QUOTE]"

text \<open>The digit loop of \<^verbatim>\<open>sqlparser_selector_parse_index\<close>; \<open>None\<close> when the value leaves \<^verbatim>\<open>size_t\<close>.\<close>

definition digit_value :: "char \<Rightarrow> nat" where
  "digit_value c = of_char c - 48"

fun index_digits :: "nat \<Rightarrow> nat \<Rightarrow> string \<Rightarrow> (nat \<times> nat) option" where
  "index_digits value index [] = Some (value, index)"
| "index_digits value index (c # rest) =
     (if c_isdigit c
      then let digit = digit_value c
        in if value > (SIZE_MAX - digit) div 10 then None
           else index_digits (value * 10 + digit) (index + 1) rest
      else Some (value, index))"

text \<open>\<^verbatim>\<open>sqlparser_selector_parse_index\<close>: the value and the new offset.\<close>

definition parse_index :: "string \<Rightarrow> nat \<Rightarrow> sql_error + nat \<times> nat" where
  "parse_index text offset =
     (if char_at text offset \<noteq> CHR ''['' then fail INVALID_ARGUMENT (''selector is missing '' @ quoted ''['')
      else if \<not> c_isdigit (char_at text (offset + 1))
      then fail INVALID_ARGUMENT ''selector index must be numeric''
      else case index_digits 0 (offset + 1) (drop (offset + 1) text) of
        None \<Rightarrow> fail INVALID_ARGUMENT ''selector index is out of range''
      | Some (value, index) \<Rightarrow>
          if char_at text index \<noteq> CHR '']'' then fail INVALID_ARGUMENT (''selector is missing '' @ quoted '']'')
          else Inr (value, index + 1))"

text \<open>
  The parser keeps an offset and the caller's selector; a call that fails leaves the selector as
  far as it was filled.
\<close>

type_synonym parse_state = "sql_error option \<times> nat \<times> selector"

definition refused :: "string \<Rightarrow> nat \<Rightarrow> selector \<Rightarrow> parse_state" where
  "refused message offset sel = (Some (error_set_message INVALID_ARGUMENT message), offset, sel)"

text \<open>One \<^verbatim>\<open>parse_index\<close> call with the selector's field as its output, if nothing failed before.\<close>

definition read_into ::
  "(nat \<Rightarrow> selector \<Rightarrow> selector) \<Rightarrow> string \<Rightarrow> parse_state \<Rightarrow> parse_state" where
  "read_into store text st = (case st of
       (Some e, offset, sel) \<Rightarrow> st
     | (None, offset, sel) \<Rightarrow>
         (case parse_index text offset of
            Inl e \<Rightarrow> (Some e, offset, sel)
          | Inr (value, offset') \<Rightarrow> (None, offset', store value sel)))"

abbreviation read_statement :: "string \<Rightarrow> parse_state \<Rightarrow> parse_state" where
  "read_statement \<equiv> read_into (\<lambda>v. statement_index_update (\<lambda>_. v))"
abbreviation read_item :: "string \<Rightarrow> parse_state \<Rightarrow> parse_state" where
  "read_item \<equiv> read_into (\<lambda>v. item_index_update (\<lambda>_. v))"
abbreviation read_row :: "string \<Rightarrow> parse_state \<Rightarrow> parse_state" where
  "read_row \<equiv> read_into (\<lambda>v. row_index_update (\<lambda>_. v))"
abbreviation read_column :: "string \<Rightarrow> parse_state \<Rightarrow> parse_state" where
  "read_column \<equiv> read_into (\<lambda>v. column_index_update (\<lambda>_. v))"

text \<open>
  \<^verbatim>\<open>if (status == OK && text[offset] == '[')\<close>: an index more, after the fields moved over.
\<close>

definition if_more :: "string \<Rightarrow> (nat \<Rightarrow> selector \<Rightarrow> parse_state) \<Rightarrow> parse_state \<Rightarrow> parse_state" where
  "if_more text extra st = (case st of
       (Some e, offset, sel) \<Rightarrow> st
     | (None, offset, sel) \<Rightarrow> if char_at text offset = CHR ''['' then extra offset sel else st)"

text \<open>The optional DML index of an assignment, stored with one added.\<close>

definition more_assignment :: "string \<Rightarrow> nat \<Rightarrow> selector \<Rightarrow> parse_state" where
  "more_assignment text offset sel =
     (if item_index sel = SIZE_MAX
      then refused ''assignment DML index is out of range'' offset sel
      else read_item text (None, offset, sel\<lparr>row_index := item_index sel + 1\<rparr>))"

text \<open>The optional DML index in front of two indices, and in front of one.\<close>

definition more_pair :: "string \<Rightarrow> nat \<Rightarrow> selector \<Rightarrow> parse_state" where
  "more_pair text offset sel =
     read_column text (None, offset,
       sel\<lparr>row_index := item_index sel, item_index := column_index sel\<rparr>)"

definition more_single :: "string \<Rightarrow> nat \<Rightarrow> selector \<Rightarrow> parse_state" where
  "more_single text offset sel =
     read_item text (None, offset, sel\<lparr>row_index := item_index sel\<rparr>)"

text \<open>
  The chain of item kinds, at the offset behind the dot: the second half of it, from the conditions
  of MERGE on, and the whole chain.
\<close>

definition parse_kind_rest :: "string \<Rightarrow> nat \<Rightarrow> selector \<Rightarrow> parse_state" where
  "parse_kind_rest text offset sel =
     (let at = starts_at text offset;
        go = (\<lambda>kw kind. (None, offset + length kw, sel\<lparr>sel_kind := kind\<rparr>) :: parse_state)
      in if at ''merge_branch_condition''
      then if_more text (more_single text)
             (read_item text (go ''merge_branch_condition'' KIND_MERGE_BRANCH_CONDITION))
      else if at ''merge_delete_condition''
      then if_more text (more_single text)
             (read_item text (go ''merge_delete_condition'' KIND_MERGE_DELETE_CONDITION))
      else if at ''insert_cell''
      then read_column text (read_row text (go ''insert_cell'' KIND_INSERT_CELL))
      else if at ''insert_columns'' then go ''insert_columns'' KIND_INSERT_COLUMNS
      else if at ''insert_branch_columns''
      then if_more text (more_single text)
             (read_item text (go ''insert_branch_columns'' KIND_INSERT_BRANCH_COLUMNS))
      else if at ''insert_branch_condition''
      then read_item text (go ''insert_branch_condition'' KIND_INSERT_BRANCH_CONDITION)
      else if at ''insert_row'' then read_row text (go ''insert_row'' KIND_INSERT_ROW)
      else if at ''select_targets''
      then read_item text (go ''select_targets'' KIND_SELECT_TARGETS)
      else if at ''select_target''
      then read_column text (read_item text (go ''select_target'' KIND_SELECT_TARGET))
      else if at ''dml_result_targets''
      then read_row text (read_item text (go ''dml_result_targets'' KIND_DML_RESULT_TARGETS))
      else if at ''dml_result_target''
      then read_column text (read_row text (read_item text
             (go ''dml_result_target'' KIND_DML_RESULT_TARGET)))
      else if at ''dml_result_sink_columns''
      then read_row text (read_item text
             (go ''dml_result_sink_columns'' KIND_DML_RESULT_SINK_COLUMNS))
      else if at ''dml_result_sink_column''
      then read_column text (read_row text (read_item text
             (go ''dml_result_sink_column'' KIND_DML_RESULT_SINK_COLUMN)))
      else if at ''dml_result_sink''
      then read_row text (read_item text (go ''dml_result_sink'' KIND_DML_RESULT_SINK))
      else refused ''selector kind is not supported'' offset sel)"

definition parse_kind :: "string \<Rightarrow> nat \<Rightarrow> selector \<Rightarrow> parse_state" where
  "parse_kind text offset sel =
     (let at = starts_at text offset;
        go = (\<lambda>kw kind. (None, offset + length kw, sel\<lparr>sel_kind := kind\<rparr>) :: parse_state)
      in if at ''relation'' then read_item text (go ''relation'' KIND_RELATION)
      else if at ''name'' then read_item text (go ''name'' KIND_NAME)
      else if at ''literal'' then read_item text (go ''literal'' KIND_LITERAL)
      else if at ''value'' then read_item text (go ''value'' KIND_VALUE)
      else if at ''expression_args''
      then read_item text (go ''expression_args'' KIND_EXPRESSION_ARGS)
      else if at ''expression_arg''
      then read_column text (read_item text (go ''expression_arg'' KIND_EXPRESSION_ARG))
      else if at ''expression'' then read_item text (go ''expression'' KIND_EXPRESSION)
      else if at ''where_literal'' then read_item text (go ''where_literal'' KIND_WHERE_LITERAL)
      else if at ''where'' then read_item text (go ''where'' KIND_WHERE)
      else if at ''clause'' then read_item text (go ''clause'' KIND_CLAUSE)
      else if at ''assignment''
      then if_more text (more_assignment text) (read_item text (go ''assignment'' KIND_ASSIGNMENT))
      else if at ''merge_assignment''
      then if_more text (more_pair text)
             (read_column text (read_item text (go ''merge_assignment'' KIND_MERGE_ASSIGNMENT)))
      else if at ''merge_insert_column'' \<or> at ''merge_insert_cell''
      then if_more text (more_pair text)
             (read_column text (read_item text
                (if at ''merge_insert_column''
                 then go ''merge_insert_column'' KIND_MERGE_INSERT_COLUMN
                 else go ''merge_insert_cell'' KIND_MERGE_INSERT_CELL)))
      else parse_kind_rest text offset sel)"

text \<open>
  \<^verbatim>\<open>sqlparser_selector_parse\<close> with a non-NULL \<^verbatim>\<open>out_selector\<close>: the error if any, and the selector
  after the call.  A NULL \<^verbatim>\<open>out_selector\<close> is refused before anything is written.
\<close>

definition selector_parse :: "string option \<Rightarrow> sql_error option \<times> selector" where
  "selector_parse text_opt =
     (case text_opt of
        None \<Rightarrow> (Some (error_set_message INVALID_ARGUMENT
                   ''selector text must not be NULL or empty''), selector_clear)
      | Some text \<Rightarrow>
          if char_at text 0 = NUL
          then (Some (error_set_message INVALID_ARGUMENT
                  ''selector text must not be NULL or empty''), selector_clear)
          else if \<not> starts_at text 0 ''stmt''
          then (Some (error_set_message INVALID_ARGUMENT
                  (''selector must start with '' @ quoted ''stmt'')), selector_clear)
          else case read_statement text (None, 4, selector_clear) of
            (Some e, offset, sel) \<Rightarrow> (Some e, sel)
          | (None, offset, sel) \<Rightarrow>
              if char_at text offset \<noteq> CHR ''.'' \<or> char_at text (offset + 1) = NUL
              then (Some (error_set_message INVALID_ARGUMENT ''selector is missing item kind''), sel)
              else case parse_kind text (offset + 1) sel of
                (Some e, offset, sel) \<Rightarrow> (Some e, sel)
              | (None, offset, sel) \<Rightarrow>
                  if char_at text offset \<noteq> NUL
                  then (Some (error_set_message INVALID_ARGUMENT
                          ''selector has trailing characters''), sel)
                  else (None, sel))"

definition selector_parse_call ::
  "string option \<Rightarrow> selector option \<Rightarrow> sql_error option \<times> selector option" where
  "selector_parse_call text out_selector =
     (case out_selector of
        None \<Rightarrow> (Some (error_set_message INVALID_ARGUMENT ''out_selector must not be NULL''), None)
      | Some _ \<Rightarrow> map_prod id Some (selector_parse text))"

section \<open>Formatting\<close>

text \<open>\<^verbatim>\<open>%zu\<close>\<close>

definition digit_char :: "nat \<Rightarrow> char" where
  "digit_char d = char_of (48 + d)"

fun show_size :: "nat \<Rightarrow> string" where
  "show_size n = (if n < 10 then [digit_char n] else show_size (n div 10) @ [digit_char (n mod 10)])"

declare show_size.simps [simp del]

text \<open>\<^verbatim>\<open>[%zu]\<close>\<close>

definition show_index :: "nat \<Rightarrow> string" where
  "show_index n = CHR ''['' # show_size n @ [CHR '']'']"

text \<open>\<^verbatim>\<open>stmt[%zu].\<close> and the item\<close>

definition show_item :: "selector \<Rightarrow> string \<Rightarrow> nat list \<Rightarrow> string" where
  "show_item sel kw indices =
     ''stmt'' @ show_index (statement_index sel) @ ''.'' @ kw @ concat (map show_index indices)"

text \<open>
  The digits of \<^verbatim>\<open>sqlparser_selector_append_index\<close>, last digit first.
\<close>

fun digit_loop :: "nat \<Rightarrow> string" where
  "digit_loop value = digit_char (value mod 10) #
     (if value div 10 = 0 then [] else digit_loop (value div 10))"

declare digit_loop.simps [simp del]

text \<open>
  \<^verbatim>\<open>sqlparser_selector_append_index\<close>: \<open>buffer\<close> holds the \<^verbatim>\<open>*length\<close> bytes written so far; \<open>None\<close> is \<open>-1\<close>.
\<close>

definition append_index :: "nat \<Rightarrow> string \<Rightarrow> nat \<Rightarrow> string option" where
  "append_index capacity buffer value =
     (let digits = digit_loop value; count = length digits; len = length buffer
      in if len \<ge> capacity \<or> capacity - len \<le> 2 \<or> count \<ge> capacity - len - 2 then None
         else Some (buffer @ CHR ''['' # rev digits @ [CHR '']'']))"

text \<open>\<^verbatim>\<open>sqlparser_selector_format_insert_cell\<close>; \<^verbatim>\<open>sizeof(suffix)\<close> counts the NUL.\<close>

definition format_insert_cell :: "selector \<Rightarrow> nat \<Rightarrow> string option" where
  "format_insert_cell sel capacity =
     (if capacity \<le> 4 then None
      else case append_index capacity ''stmt'' (statement_index sel) of
        None \<Rightarrow> None
      | Some buffer \<Rightarrow>
          if length ''.insert_cell'' + 1 > capacity - length buffer then None
          else case append_index capacity (buffer @ ''.insert_cell'') (row_index sel) of
            None \<Rightarrow> None
          | Some buffer \<Rightarrow>
              (case append_index capacity buffer (column_index sel) of
                 None \<Rightarrow> None
               | Some buffer \<Rightarrow> if length buffer > INT_MAX then None else Some buffer))"

text \<open>
  The text each kind prints, before the length of the buffer is looked at; the outer \<open>None\<close> is an
  invalid kind, the inner one a formatter that returned \<open>-1\<close>.  The flag is
  \<^verbatim>\<open>SQLPARSER_INSERT_SELECTOR_FAST_PATH_ENABLED\<close>.
\<close>

definition BUFFER_SIZE :: nat where "BUFFER_SIZE = 128"

definition format_text_rest :: "bool \<Rightarrow> selector \<Rightarrow> string option option" where
  "format_text_rest fast_path sel =
     (let item = item_index sel; row = row_index sel; column = column_index sel;
        show = (\<lambda>kw indices. Some (Some (show_item sel kw indices)));
        show_row = (\<lambda>kw indices. show kw (if row = 0 then indices else row # indices))
      in case sel_kind sel of
        KIND_INSERT_CELL \<Rightarrow>
          if fast_path then Some (format_insert_cell sel BUFFER_SIZE)
          else show ''insert_cell'' [row, column]
      | KIND_INSERT_COLUMNS \<Rightarrow> show ''insert_columns'' []
      | KIND_INSERT_BRANCH_COLUMNS \<Rightarrow> show_row ''insert_branch_columns'' [item]
      | KIND_INSERT_BRANCH_CONDITION \<Rightarrow> show ''insert_branch_condition'' [item]
      | KIND_INSERT_ROW \<Rightarrow> show ''insert_row'' [row]
      | KIND_SELECT_TARGETS \<Rightarrow> show ''select_targets'' [item]
      | KIND_SELECT_TARGET \<Rightarrow> show ''select_target'' [item, column]
      | KIND_DML_RESULT_TARGETS \<Rightarrow> show ''dml_result_targets'' [item, row]
      | KIND_DML_RESULT_TARGET \<Rightarrow> show ''dml_result_target'' [item, row, column]
      | KIND_DML_RESULT_SINK \<Rightarrow> show ''dml_result_sink'' [item, row]
      | KIND_DML_RESULT_SINK_COLUMNS \<Rightarrow> show ''dml_result_sink_columns'' [item, row]
      | KIND_DML_RESULT_SINK_COLUMN \<Rightarrow> show ''dml_result_sink_column'' [item, row, column]
      | _ \<Rightarrow> None)"

definition format_text :: "bool \<Rightarrow> selector \<Rightarrow> string option option" where
  "format_text fast_path sel =
     (let item = item_index sel; row = row_index sel; column = column_index sel;
        show = (\<lambda>kw indices. Some (Some (show_item sel kw indices)));
        show_row = (\<lambda>kw indices. show kw (if row = 0 then indices else row # indices))
      in case sel_kind sel of
        KIND_RELATION \<Rightarrow> show ''relation'' [item]
      | KIND_NAME \<Rightarrow> show ''name'' [item]
      | KIND_LITERAL \<Rightarrow> show ''literal'' [item]
      | KIND_VALUE \<Rightarrow> show ''value'' [item]
      | KIND_EXPRESSION \<Rightarrow> show ''expression'' [item]
      | KIND_EXPRESSION_ARG \<Rightarrow> show ''expression_arg'' [item, column]
      | KIND_EXPRESSION_ARGS \<Rightarrow> show ''expression_args'' [item]
      | KIND_WHERE_LITERAL \<Rightarrow> show ''where_literal'' [item]
      | KIND_WHERE \<Rightarrow> show ''where'' [item]
      | KIND_CLAUSE \<Rightarrow> show ''clause'' [item]
      | KIND_ASSIGNMENT \<Rightarrow> show ''assignment'' (if row = 0 then [item] else [row - 1, item])
      | KIND_MERGE_ASSIGNMENT \<Rightarrow> show_row ''merge_assignment'' [item, column]
      | KIND_MERGE_INSERT_COLUMN \<Rightarrow> show_row ''merge_insert_column'' [item, column]
      | KIND_MERGE_INSERT_CELL \<Rightarrow> show_row ''merge_insert_cell'' [item, column]
      | KIND_MERGE_BRANCH_CONDITION \<Rightarrow> show_row ''merge_branch_condition'' [item]
      | KIND_MERGE_DELETE_CONDITION \<Rightarrow> show_row ''merge_delete_condition'' [item]
      | _ \<Rightarrow> format_text_rest fast_path sel)"

text \<open>\<^verbatim>\<open>sqlparser_selector_format\<close>\<close>

definition selector_format ::
  "bool \<Rightarrow> allocator \<Rightarrow> selector option \<Rightarrow> bool \<Rightarrow> sql_error + string" where
  "selector_format fast_path alloc sel_opt out_present =
     (if \<not> out_present then fail INVALID_ARGUMENT ''out_text must not be NULL''
      else case sel_opt of
        None \<Rightarrow> fail INVALID_ARGUMENT ''selector must not be NULL''
      | Some sel \<Rightarrow>
          (case format_text fast_path sel of
             None \<Rightarrow> fail INVALID_ARGUMENT ''selector kind is invalid''
           | Some None \<Rightarrow> fail INTERNAL_ERROR ''failed to format selector''
           | Some (Some text) \<Rightarrow>
               if length text \<ge> BUFFER_SIZE then fail INTERNAL_ERROR ''failed to format selector''
               else if \<not> alloc 0 (length text + 1) then fail NO_MEMORY ''out of memory''
               else Inr text))"

section \<open>Indices\<close>

lemma of_char_digit_char: "d < 10 \<Longrightarrow> (of_char (digit_char d) :: nat) = 48 + d"
  by (simp add: digit_char_def of_char_of take_bit_nat_def)

lemma digit_char_facts [simp]:
  "d < 10 \<Longrightarrow> c_isdigit (digit_char d)" "d < 10 \<Longrightarrow> digit_value (digit_char d) = d"
  by (simp_all add: c_isdigit_def digit_value_def of_char_digit_char)

lemma show_size_digits: "c \<in> set (show_size n) \<Longrightarrow> c_isdigit c"
proof (induction n rule: show_size.induct)
  case (1 n)
  then show ?case by (auto simp: show_size.simps [of n] split: if_splits)
qed

lemma show_size_not_Nil [simp]: "show_size n \<noteq> []"
  by (subst show_size.simps) simp

lemma index_digits_append:
  "(\<forall>c \<in> set ds. c_isdigit c) \<Longrightarrow> index_digits v i (ds @ rest) =
     (case index_digits v i ds of None \<Rightarrow> None | Some (v', i') \<Rightarrow> index_digits v' i' rest)"
  by (induction ds arbitrary: v i) (auto simp: Let_def)

lemma index_digits_show:
  "n \<le> SIZE_MAX \<Longrightarrow> index_digits 0 i (show_size n) = Some (n, i + length (show_size n))"
proof (induction n arbitrary: i rule: show_size.induct)
  case (1 n)
  show ?case
  proof (cases "n < 10")
    case True
    then show ?thesis by (simp add: show_size.simps [of n])
  next
    case False
    have IH: "index_digits 0 i (show_size (n div 10)) = Some (n div 10, i + length (show_size (n div 10)))"
      using "1.IH" [OF False, of i] "1.prems" by simp
    have split: "n div 10 * 10 + n mod 10 = n" by (rule div_mult_mod_eq)
    then have "n div 10 * 10 \<le> SIZE_MAX - n mod 10" using "1.prems" by linarith
    then have "(n div 10 * 10) div 10 \<le> (SIZE_MAX - n mod 10) div 10" by (rule div_le_mono)
    then have fits: "\<not> n div 10 > (SIZE_MAX - n mod 10) div 10" by simp
    have "show_size n = show_size (n div 10) @ [digit_char (n mod 10)]"
      using False by (subst show_size.simps) simp
    moreover have "index_digits (n div 10) i' [digit_char (n mod 10)] = Some (n, i' + 1)" for i'
      using fits split by (simp add: Let_def)
    ultimately show ?thesis using IH
      by (simp only: index_digits_append [OF ballI [OF show_size_digits]] option.case prod.case)
         simp
  qed
qed

text \<open>The length of a printed index grows with the value.\<close>

lemma length_show_size_le: "n < 10 ^ k \<Longrightarrow> 0 < k \<Longrightarrow> length (show_size n) \<le> k"
proof (induction n arbitrary: k rule: show_size.induct)
  case (1 n)
  show ?case
  proof (cases "n < 10")
    case False
    obtain k' where k': "k = Suc k'" using "1.prems"(2) by (cases k) auto
    with False "1.prems"(1) have "0 < k'" by (cases k') auto
    note k = k' this
    then have "n div 10 < 10 ^ k'" using "1.prems" by (simp add: less_mult_imp_div_less mult.commute)
    with "1.IH" [OF False this k(2)] False k show ?thesis by (simp add: show_size.simps [of n])
  qed (use "1.prems" in \<open>simp add: show_size.simps [of n]\<close>)
qed

lemma length_show_index: "n \<le> SIZE_MAX \<Longrightarrow> length (show_index n) \<le> 22"
  using length_show_size_le [of n 20] by (simp add: show_index_def SIZE_MAX_def)

text \<open>Parsing an index looks at nothing before the offset.\<close>

definition parse_suffix :: "string \<Rightarrow> sql_error + nat \<times> nat" where
  "parse_suffix rest = parse_index rest 0"

lemma index_digits_shift:
  "index_digits v (i + k) cs = map_option (map_prod id (\<lambda>j. j + k)) (index_digits v i cs)"
proof (induction cs arbitrary: v i)
  case (Cons c cs)
  then show ?case using Cons.IH [of _ "i + 1"] by (simp add: Let_def)
qed simp

lemma char_at_via_drop: "char_at text n = (case drop n text of [] \<Rightarrow> NUL | c # _ \<Rightarrow> c)"
  by (auto simp: char_at_def Cons_nth_drop_Suc [symmetric])

lemma parse_index_drop:
  "parse_index text off = (case parse_suffix (drop off text) of
       Inl e \<Rightarrow> Inl e | Inr (v, k) \<Rightarrow> Inr (v, off + k))"
proof -
  have at: "char_at (drop off text) k = char_at text (off + k)" for k by (simp add: char_at_drop)
  have dig: "index_digits 0 (off + 1) (drop (off + 1) text)
      = map_option (map_prod id (\<lambda>j. j + off)) (index_digits 0 1 (drop 1 (drop off text)))"
    using index_digits_shift [of 0 1 off] by (simp add: add.commute)
  show ?thesis unfolding parse_suffix_def parse_index_def dig at
    by (simp add: add.commute split: option.splits)
qed

lemma read_into_drop:
  "read_into store text (None, off, sel) = (case parse_suffix (drop off text) of
       Inl e \<Rightarrow> (Some e, off, sel) | Inr (v, k) \<Rightarrow> (None, off + k, store v sel))"
  by (simp add: read_into_def parse_index_drop split: sum.splits)

lemma c_isdigit_brackets [simp]: "\<not> c_isdigit (CHR ''['')" "\<not> c_isdigit (CHR '']'')"
  by (simp_all add: c_isdigit_def)

lemma parse_suffix_show [simp]:
  assumes "n \<le> SIZE_MAX"
  shows "parse_suffix (show_index n @ rest) = Inr (n, length (show_index n))"
proof -
  let ?text = "show_index n @ rest"
  have d: "c_isdigit (char_at ?text 1)"
  proof -
    obtain c cs where "show_size n = c # cs" by (cases "show_size n") auto
    then show ?thesis using show_size_digits [of c n] by (simp add: show_index_def)
  qed
  have "drop 1 ?text = show_size n @ CHR '']'' # rest" by (simp add: show_index_def)
  then have "index_digits 0 1 (drop 1 ?text) = Some (n, 1 + length (show_size n))"
    using assms by (simp add: index_digits_append show_size_digits index_digits_show)
  moreover have "char_at ?text (1 + length (show_size n)) = CHR '']''"
    by (simp add: char_at_def show_index_def nth_append)
  ultimately show ?thesis using d
    by (simp add: parse_suffix_def parse_index_def) (simp add: show_index_def)
qed

section \<open>Normal selectors\<close>

text \<open>Which of item, row and column a kind uses; a normal selector keeps the others at zero.\<close>

fun kind_fields :: "selector_kind \<Rightarrow> bool \<times> bool \<times> bool" where
  "kind_fields KIND_INSERT_COLUMNS = (False, False, False)"
| "kind_fields KIND_INSERT_ROW = (False, True, False)"
| "kind_fields KIND_INSERT_CELL = (False, True, True)"
| "kind_fields KIND_EXPRESSION_ARG = (True, False, True)"
| "kind_fields KIND_SELECT_TARGET = (True, False, True)"
| "kind_fields KIND_ASSIGNMENT = (True, True, False)"
| "kind_fields KIND_MERGE_BRANCH_CONDITION = (True, True, False)"
| "kind_fields KIND_MERGE_DELETE_CONDITION = (True, True, False)"
| "kind_fields KIND_INSERT_BRANCH_COLUMNS = (True, True, False)"
| "kind_fields KIND_DML_RESULT_TARGETS = (True, True, False)"
| "kind_fields KIND_DML_RESULT_SINK = (True, True, False)"
| "kind_fields KIND_DML_RESULT_SINK_COLUMNS = (True, True, False)"
| "kind_fields KIND_MERGE_ASSIGNMENT = (True, True, True)"
| "kind_fields KIND_MERGE_INSERT_COLUMN = (True, True, True)"
| "kind_fields KIND_MERGE_INSERT_CELL = (True, True, True)"
| "kind_fields KIND_DML_RESULT_TARGET = (True, True, True)"
| "kind_fields KIND_DML_RESULT_SINK_COLUMN = (True, True, True)"
| "kind_fields _ = (True, False, False)"

definition indices_fit :: "selector \<Rightarrow> bool" where
  "indices_fit sel = (statement_index sel \<le> SIZE_MAX \<and> item_index sel \<le> SIZE_MAX \<and>
     row_index sel \<le> SIZE_MAX \<and> column_index sel \<le> SIZE_MAX)"

definition selector_normal :: "selector \<Rightarrow> bool" where
  "selector_normal sel = (sel_kind sel \<noteq> KIND_UNKNOWN \<and> indices_fit sel \<and>
     (case kind_fields (sel_kind sel) of (uses_item, uses_row, uses_column) \<Rightarrow>
        (uses_item \<or> item_index sel = 0) \<and> (uses_row \<or> row_index sel = 0) \<and>
        (uses_column \<or> column_index sel = 0)))"

section \<open>Parsing what was formatted\<close>

lemma drop_plus: "drop (a + b) xs = drop b (drop a xs)"
  by (simp add: add.commute)

lemma drop_Suc_tl: "drop (Suc n) xs = tl (drop n xs)"
  by (simp add: drop_Suc tl_drop)

text \<open>The comparison with a keyword, character by character.\<close>

fun has_prefix :: "string \<Rightarrow> string \<Rightarrow> bool" where
  "has_prefix [] xs = True"
| "has_prefix (k # ks) [] = False"
| "has_prefix (k # ks) (x # xs) = (k = x \<and> has_prefix ks xs)"

lemma starts_at_prefix: "starts_at text off kw = has_prefix kw (drop off text)"
proof -
  have "take (length kw) xs = kw \<longleftrightarrow> has_prefix kw xs" for xs
    by (induction kw xs rule: has_prefix.induct) auto
  then show ?thesis by (simp add: starts_at_def)
qed

lemma no_keyword_at_index [simp]:
  "k \<noteq> CHR ''['' \<Longrightarrow> \<not> has_prefix (k # ks) (show_index n @ rest)"
  "k \<noteq> CHR ''['' \<Longrightarrow> \<not> has_prefix (k # ks) (show_index n)"
  by (simp_all add: show_index_def)

lemma show_index_hd [simp]:
  "(case show_index n @ rest of [] \<Rightarrow> x | c # _ \<Rightarrow> f c) = f (CHR ''['')"
  "(case show_index n of [] \<Rightarrow> x | c # _ \<Rightarrow> f c) = f (CHR ''['')"
  by (simp_all add: show_index_def)

lemma parse_suffix_last [simp]:
  "n \<le> SIZE_MAX \<Longrightarrow> parse_suffix (show_index n) = Inr (n, length (show_index n))"
  using parse_suffix_show [of n "[]"] by simp

lemmas parse_eval = parse_kind_def parse_kind_rest_def read_into_drop if_more_def char_at_via_drop starts_at_prefix
  drop_plus drop_Suc_tl tl_drop more_assignment_def more_pair_def more_single_def Let_def

text \<open>The two parts every kind prints: its keyword and its indices.\<close>

fun kind_keyword :: "selector_kind \<Rightarrow> string" where
  "kind_keyword KIND_ASSIGNMENT = ''assignment''"
| "kind_keyword KIND_CLAUSE = ''clause''"
| "kind_keyword KIND_DML_RESULT_SINK = ''dml_result_sink''"
| "kind_keyword KIND_DML_RESULT_SINK_COLUMN = ''dml_result_sink_column''"
| "kind_keyword KIND_DML_RESULT_SINK_COLUMNS = ''dml_result_sink_columns''"
| "kind_keyword KIND_DML_RESULT_TARGET = ''dml_result_target''"
| "kind_keyword KIND_DML_RESULT_TARGETS = ''dml_result_targets''"
| "kind_keyword KIND_EXPRESSION = ''expression''"
| "kind_keyword KIND_EXPRESSION_ARG = ''expression_arg''"
| "kind_keyword KIND_EXPRESSION_ARGS = ''expression_args''"
| "kind_keyword KIND_INSERT_BRANCH_COLUMNS = ''insert_branch_columns''"
| "kind_keyword KIND_INSERT_BRANCH_CONDITION = ''insert_branch_condition''"
| "kind_keyword KIND_INSERT_CELL = ''insert_cell''"
| "kind_keyword KIND_INSERT_COLUMNS = ''insert_columns''"
| "kind_keyword KIND_INSERT_ROW = ''insert_row''"
| "kind_keyword KIND_LITERAL = ''literal''"
| "kind_keyword KIND_MERGE_ASSIGNMENT = ''merge_assignment''"
| "kind_keyword KIND_MERGE_BRANCH_CONDITION = ''merge_branch_condition''"
| "kind_keyword KIND_MERGE_DELETE_CONDITION = ''merge_delete_condition''"
| "kind_keyword KIND_MERGE_INSERT_CELL = ''merge_insert_cell''"
| "kind_keyword KIND_MERGE_INSERT_COLUMN = ''merge_insert_column''"
| "kind_keyword KIND_NAME = ''name''"
| "kind_keyword KIND_RELATION = ''relation''"
| "kind_keyword KIND_SELECT_TARGET = ''select_target''"
| "kind_keyword KIND_SELECT_TARGETS = ''select_targets''"
| "kind_keyword KIND_VALUE = ''value''"
| "kind_keyword KIND_WHERE = ''where''"
| "kind_keyword KIND_WHERE_LITERAL = ''where_literal''"
| "kind_keyword KIND_UNKNOWN = []"

fun kind_indices :: "selector_kind \<Rightarrow> nat \<Rightarrow> nat \<Rightarrow> nat \<Rightarrow> nat list" where
  "kind_indices KIND_ASSIGNMENT i r c = (if r = 0 then [i] else [r - 1, i])"
| "kind_indices KIND_MERGE_ASSIGNMENT i r c = (if r = 0 then [i, c] else [r, i, c])"
| "kind_indices KIND_MERGE_INSERT_COLUMN i r c = (if r = 0 then [i, c] else [r, i, c])"
| "kind_indices KIND_MERGE_INSERT_CELL i r c = (if r = 0 then [i, c] else [r, i, c])"
| "kind_indices KIND_MERGE_BRANCH_CONDITION i r c = (if r = 0 then [i] else [r, i])"
| "kind_indices KIND_MERGE_DELETE_CONDITION i r c = (if r = 0 then [i] else [r, i])"
| "kind_indices KIND_INSERT_BRANCH_COLUMNS i r c = (if r = 0 then [i] else [r, i])"
| "kind_indices KIND_INSERT_CELL i r c = [r, c]"
| "kind_indices KIND_INSERT_COLUMNS i r c = []"
| "kind_indices KIND_INSERT_ROW i r c = [r]"
| "kind_indices KIND_EXPRESSION_ARG i r c = [i, c]"
| "kind_indices KIND_SELECT_TARGET i r c = [i, c]"
| "kind_indices KIND_DML_RESULT_TARGETS i r c = [i, r]"
| "kind_indices KIND_DML_RESULT_TARGET i r c = [i, r, c]"
| "kind_indices KIND_DML_RESULT_SINK i r c = [i, r]"
| "kind_indices KIND_DML_RESULT_SINK_COLUMNS i r c = [i, r]"
| "kind_indices KIND_DML_RESULT_SINK_COLUMN i r c = [i, r, c]"
| "kind_indices _ i r c = [i]"

definition selector_text :: "selector \<Rightarrow> string" where
  "selector_text sel = show_item sel (kind_keyword (sel_kind sel))
     (kind_indices (sel_kind sel) (item_index sel) (row_index sel) (column_index sel))"

lemma format_text_slow:
  "sel_kind sel \<noteq> KIND_UNKNOWN \<Longrightarrow> format_text False sel = Some (Some (selector_text sel))"
  by (cases "sel_kind sel") (simp_all add: format_text_def format_text_rest_def selector_text_def)

text \<open>Every text a normal selector prints is read back by the chain of kinds.\<close>

lemma parse_kind_text:
  assumes "selector_normal \<lparr>sel_kind = k, statement_index = s, item_index = i, row_index = r,
      column_index = c\<rparr>"
    and "drop off text = kind_keyword k @ concat (map show_index (kind_indices k i r c))"
  shows "parse_kind text off (selector_clear\<lparr>statement_index := s\<rparr>)
    = (None, off + length (kind_keyword k @ concat (map show_index (kind_indices k i r c))),
       \<lparr>sel_kind = k, statement_index = s, item_index = i, row_index = r, column_index = c\<rparr>)"
  using assms
  by (cases k, simp_all add: selector_normal_def indices_fit_def selector_clear_def parse_eval
      del: drop_drop split: if_splits) auto

lemma kind_keyword_hd:
  "k \<noteq> KIND_UNKNOWN \<Longrightarrow> \<exists>c cs. kind_keyword k = c # cs \<and> c \<noteq> NUL"
  by (cases k) auto

lemma parse_selector_text:
  assumes "selector_normal sel"
  shows "selector_parse (Some (selector_text sel)) = (None, sel)"
proof -
  obtain k s i r c where sel: "sel = \<lparr>sel_kind = k, statement_index = s, item_index = i,
      row_index = r, column_index = c\<rparr>" by (cases sel) auto
  let ?body = "kind_keyword k @ concat (map show_index (kind_indices k i r c))"
  let ?off = "4 + length (show_index s)"
  define t where "t = ''stmt'' @ show_index s @ ''.'' @ ?body"
  have sel_text: "selector_text sel = t" by (simp add: selector_text_def show_item_def sel t_def)
  have "k \<noteq> KIND_UNKNOWN" and s: "s \<le> SIZE_MAX"
    using assms by (simp_all add: sel selector_normal_def indices_fit_def)
  then obtain b bs where body: "?body = b # bs" "b \<noteq> NUL" using kind_keyword_hd [of k] by auto
  have four: "drop 4 t = show_index s @ ''.'' @ ?body" by (simp add: t_def)
  then have stmt: "read_statement t (None, 4, selector_clear)
      = (None, ?off, selector_clear\<lparr>statement_index := s\<rparr>)"
    using s by (simp add: read_into_drop)
  have dot: "drop ?off t = CHR ''.'' # ?body" by (simp only: drop_plus four) simp
  have rest: "drop (?off + 1) t = ?body" by (simp only: drop_plus [of ?off] dot) simp
  have kind: "parse_kind t (?off + 1) (selector_clear\<lparr>statement_index := s\<rparr>)
      = (None, ?off + 1 + length ?body, sel)"
    using parse_kind_text [OF assms [unfolded sel] rest] by (simp only: sel)
  have here: "char_at t ?off = CHR ''.''" "char_at t (?off + 1) \<noteq> NUL"
    unfolding char_at_via_drop dot rest body by (simp_all add: body)
  have "length t = ?off + 1 + length ?body" by (simp add: t_def)
  then have over: "char_at t (?off + 1 + length ?body) = NUL" by (simp only: char_at_beyond order_refl)
  have first: "char_at t 0 \<noteq> NUL" "starts_at t 0 ''stmt''" by (simp_all add: t_def starts_at_def)
  show ?thesis
    unfolding sel_text selector_parse_def option.case stmt prod.case kind over
    by (simp only: first here if_False if_True simp_thms)
qed

section \<open>What the parser accepts\<close>

lemma index_digits_bound:
  "index_digits v i cs = Some (v', i') \<Longrightarrow> v \<le> SIZE_MAX \<Longrightarrow> v' \<le> SIZE_MAX"
proof (induction cs arbitrary: v i)
  case (Cons c cs)
  show ?case
  proof (cases "c_isdigit c")
    case True
    let ?d = "digit_value c"
    have "?d \<le> 9" using True by (auto simp: digit_value_def c_isdigit_def Let_def)
    then have d: "?d \<le> SIZE_MAX" by (simp add: SIZE_MAX_def)
    from True Cons.prems(1) have "\<not> v > (SIZE_MAX - ?d) div 10"
      and rest: "index_digits (v * 10 + ?d) (i + 1) cs = Some (v', i')"
      by (auto simp: Let_def split: if_splits)
    then have "v * 10 \<le> SIZE_MAX - ?d" by (simp add: not_less less_eq_div_iff_mult_less_eq)
    then have "v * 10 + ?d \<le> SIZE_MAX" using d by linarith
    with Cons.IH rest show ?thesis by blast
  next
    case False
    with Cons.prems show ?thesis by simp
  qed
qed simp

lemma parse_index_bound: "parse_index text off = Inr (v, off') \<Longrightarrow> v \<le> SIZE_MAX"
  by (auto simp: parse_index_def split: if_splits option.splits dest: index_digits_bound)

text \<open>
  What holds of the selector when a parsing call succeeds, with a rule for each building block.
\<close>

definition holds :: "(selector \<Rightarrow> bool) \<Rightarrow> parse_state \<Rightarrow> bool" where
  "holds P st = (case st of (None, off, sel) \<Rightarrow> P sel | _ \<Rightarrow> True)"

lemma holds_simps [simp]:
  "holds P (None, off, sel) = P sel" "holds P (refused message off sel)"
  by (simp_all add: holds_def refused_def)

lemma holds_if: "(c \<Longrightarrow> holds P a) \<Longrightarrow> (\<not> c \<Longrightarrow> holds P b) \<Longrightarrow> holds P (if c then a else b)"
  by simp

lemma holds_read:
  "holds (\<lambda>sel. \<forall>v \<le> SIZE_MAX. P (store v sel)) st \<Longrightarrow> holds P (read_into store text st)"
  by (auto simp: holds_def read_into_def split: prod.splits option.splits sum.splits
      dest: parse_index_bound)

lemma holds_more:
  "holds (\<lambda>sel. P sel \<and> (\<forall>off. holds P (extra off sel))) st \<Longrightarrow> holds P (if_more text extra st)"
  by (auto simp: holds_def if_more_def split: prod.splits option.splits)

lemma holds_more_assignment:
  "(item_index sel \<noteq> SIZE_MAX \<Longrightarrow>
      \<forall>v \<le> SIZE_MAX. P (sel\<lparr>row_index := item_index sel + 1, item_index := v\<rparr>)) \<Longrightarrow>
     holds P (more_assignment text off sel)"
  unfolding more_assignment_def by (rule holds_if, simp, rule holds_read, simp)

lemma holds_more_pair:
  "\<forall>v \<le> SIZE_MAX. P (sel\<lparr>row_index := item_index sel, item_index := column_index sel,
      column_index := v\<rparr>) \<Longrightarrow> holds P (more_pair text off sel)"
  unfolding more_pair_def by (rule holds_read) simp

lemma holds_more_single:
  "\<forall>v \<le> SIZE_MAX. P (sel\<lparr>row_index := item_index sel, item_index := v\<rparr>) \<Longrightarrow>
     holds P (more_single text off sel)"
  unfolding more_single_def by (rule holds_read) simp

lemma parse_kind_normal:
  assumes "s \<le> SIZE_MAX"
  shows "holds selector_normal (parse_kind text off (selector_clear\<lparr>statement_index := s\<rparr>))"
  unfolding parse_kind_def parse_kind_rest_def Let_def
  using assms
  by (intro holds_if holds_read holds_more)
     (auto simp: selector_normal_def indices_fit_def selector_clear_def
       intro!: holds_more_assignment holds_more_pair holds_more_single)

lemma selector_parse_normal:
  assumes "selector_parse (Some text) = (None, sel)"
  shows "selector_normal sel"
proof -
  from assms obtain off st off' where "read_statement text (None, 4, selector_clear) = (None, off, st)"
    and kind: "parse_kind text (off + 1) st = (None, off', sel)"
    by (auto simp: selector_parse_def split: if_splits prod.splits option.splits)
  then obtain s where "st = selector_clear\<lparr>statement_index := s\<rparr>" "s \<le> SIZE_MAX"
    by (auto simp: read_into_def split: sum.splits dest: parse_index_bound)
  with parse_kind_normal [of s "text" "off + 1"] kind show ?thesis by simp
qed

section \<open>The formatter\<close>

lemma length_selector_text: "selector_normal sel \<Longrightarrow> length (selector_text sel) < BUFFER_SIZE"
proof -
  assume "selector_normal sel"
  then have fit: "statement_index sel \<le> SIZE_MAX" "item_index sel \<le> SIZE_MAX"
    "row_index sel \<le> SIZE_MAX" "column_index sel \<le> SIZE_MAX" "row_index sel - 1 \<le> SIZE_MAX"
    by (auto simp: selector_normal_def indices_fit_def)
  note b = fit [THEN length_show_index]
  show ?thesis
    using b by (cases "sel_kind sel") (simp_all add: selector_text_def show_item_def BUFFER_SIZE_def)
qed

lemma digit_loop_show: "rev (digit_loop n) = show_size n"
proof (induction n rule: digit_loop.induct)
  case (1 n)
  show ?case
  proof (cases "n div 10 = 0")
    case True
    then have "n < 10" by (simp add: div_eq_0_iff)
    with True show ?thesis by (simp add: digit_loop.simps [of n] show_size.simps [of n])
  next
    case False
    then have "\<not> n < 10" by (simp add: div_eq_0_iff)
    with False 1 show ?thesis by (simp add: digit_loop.simps [of n] show_size.simps [of n])
  qed
qed

lemma append_index_show:
  "append_index capacity buffer v =
     (if length buffer + length (show_index v) < capacity then Some (buffer @ show_index v) else None)"
proof -
  have "length (digit_loop v) = length (show_size v)"
    using digit_loop_show [of v] by (metis length_rev)
  moreover have "0 < length (show_size v)" by simp
  ultimately show ?thesis
    by (simp add: append_index_def Let_def digit_loop_show show_index_def) linarith
qed

text \<open>The formatter of insert cells gives up exactly where \<^verbatim>\<open>snprintf\<close> would cut the text.\<close>

lemma format_insert_cell_text:
  assumes "capacity \<le> INT_MAX"
  shows "format_insert_cell sel capacity =
    (let text = show_item sel ''insert_cell'' [row_index sel, column_index sel]
     in if length text < capacity then Some text else None)"
  using assms
  by (auto simp: format_insert_cell_def append_index_show show_item_def Let_def split: option.splits)

lemma format_text_fast: "indices_fit sel \<Longrightarrow> format_text True sel = format_text False sel"
proof -
  assume fit: "indices_fit sel"
  let ?text = "show_item sel ''insert_cell'' [row_index sel, column_index sel]"
  have "length ?text < BUFFER_SIZE"
    using fit [unfolded indices_fit_def] length_show_index [of "statement_index sel"]
      length_show_index [of "row_index sel"] length_show_index [of "column_index sel"]
    by (simp add: show_item_def BUFFER_SIZE_def)
  then show ?thesis
    by (cases "sel_kind sel")
       (simp_all add: format_text_def format_text_rest_def format_insert_cell_text BUFFER_SIZE_def INT_MAX_def Let_def)
qed

lemma selector_format_normal:
  assumes "selector_normal sel"
  shows "selector_format fast alloc (Some sel) True =
    (if alloc 0 (length (selector_text sel) + 1) then Inr (selector_text sel)
     else fail NO_MEMORY ''out of memory'')"
proof -
  have "format_text fast sel = format_text False sel"
    using assms by (cases fast) (auto simp: selector_normal_def format_text_fast)
  moreover have "format_text False sel = Some (Some (selector_text sel))"
    using assms by (intro format_text_slow) (simp add: selector_normal_def)
  ultimately show ?thesis
    using length_selector_text [OF assms] by (simp add: selector_format_def)
qed

section \<open>The interface of an address codec\<close>

text \<open>
  What the patch entry points rely on: they print the caller's selector and hand the text to
  \<^verbatim>\<open>sqlparser_apply_patch\<close>, which parses it again.
\<close>

locale address_codec =
  fixes normal :: "'a \<Rightarrow> bool" and encode :: "'a \<Rightarrow> 't" and decode :: "'t \<Rightarrow> 'a option"
  assumes decode_encode: "normal a \<Longrightarrow> decode (encode a) = Some a"
    and decode_normal: "decode t = Some a \<Longrightarrow> normal a"
begin

lemma encode_inj: "normal a \<Longrightarrow> normal b \<Longrightarrow> encode a = encode b \<Longrightarrow> a = b"
  by (metis decode_encode option.inject)

lemma canonical: "decode t = Some a \<Longrightarrow> decode (encode a) = Some a"
  by (rule decode_encode) (rule decode_normal)

end

definition parsed_selector :: "string \<Rightarrow> selector option" where
  "parsed_selector t = (case selector_parse (Some t) of (None, sel) \<Rightarrow> Some sel | _ \<Rightarrow> None)"

lemma parsed_selector_Some: "parsed_selector t = Some sel \<longleftrightarrow> selector_parse (Some t) = (None, sel)"
  by (auto simp: parsed_selector_def split: prod.splits option.splits)

interpretation selector: address_codec selector_normal selector_text parsed_selector
  by unfold_locales (auto simp: parsed_selector_Some parse_selector_text dest: selector_parse_normal)

section \<open>Properties\<close>

text \<open>
  C15.  Printing a selector and parsing the text gives the selector back, for every kind and every
  index a \<^verbatim>\<open>size_t\<close> can hold; the text always fits the 128-byte buffer, and memory is the only
  reason for the printing to fail.
\<close>

theorem selector_round_trip:
  assumes "selector_normal sel"
  shows "case selector_format fast alloc (Some sel) True of
      Inr t \<Rightarrow> selector_parse (Some t) = (None, sel) \<and> length t < BUFFER_SIZE
    | Inl e \<Rightarrow> err_code e = NO_MEMORY"
  using parse_selector_text [OF assms] length_selector_text [OF assms]
  by (simp add: selector_format_normal [OF assms])

text \<open>
  C35.  Whatever text the parser accepts, the selector it yields is normal: its indices fit, its
  kind is known and the fields its kind does not use are zero.  Formatting it gives a text that parses
  to the same selector and fits the buffer, and fails only when its allocation is refused.  With
  memory, two accepted texts are formatted to the same text exactly when they were parsed to the same
  selector.
\<close>

theorem accepted_text_has_canonical_form:
  assumes "selector_parse (Some t1) = (None, sel1)" "selector_parse (Some t2) = (None, sel2)"
  shows "selector_normal sel1 \<and>
    (case selector_format fast alloc (Some sel1) True of
       Inr t \<Rightarrow> selector_parse (Some t) = (None, sel1) \<and> length t < BUFFER_SIZE
     | Inl e \<Rightarrow> e = error_set_message NO_MEMORY ''out of memory'' \<and> (\<exists>n \<le> BUFFER_SIZE. \<not> alloc 0 n)) \<and>
    ((\<forall>n \<le> BUFFER_SIZE. alloc 0 n) \<longrightarrow>
       (selector_format fast alloc (Some sel1) True = selector_format fast alloc (Some sel2) True \<longleftrightarrow> sel1 = sel2))"
proof -
  have n: "selector_normal sel1" "selector_normal sel2"
    using assms by (auto dest: selector_parse_normal)
  have "parsed_selector t1 = Some sel1" using assms(1) by (simp add: parsed_selector_Some)
  then have again: "selector_parse (Some (selector_text sel1)) = (None, sel1)"
    using selector.canonical by (simp add: parsed_selector_Some)
  have size: "length (selector_text sel1) + 1 \<le> BUFFER_SIZE" "length (selector_text sel2) + 1 \<le> BUFFER_SIZE"
    using length_selector_text n by (simp_all add: Suc_le_eq)
  have one: "case selector_format fast alloc (Some sel1) True of
      Inr t \<Rightarrow> selector_parse (Some t) = (None, sel1) \<and> length t < BUFFER_SIZE
    | Inl e \<Rightarrow> e = error_set_message NO_MEMORY ''out of memory'' \<and> (\<exists>n \<le> BUFFER_SIZE. \<not> alloc 0 n)"
    using again size(1) by (auto simp: selector_format_normal [OF n(1)])
  have "selector_format fast alloc (Some sel1) True = selector_format fast alloc (Some sel2) True \<longleftrightarrow> sel1 = sel2"
    if "\<forall>n \<le> BUFFER_SIZE. alloc 0 n"
    using that size selector.encode_inj [OF n] by (auto simp: selector_format_normal n)
  with n(1) one show ?thesis by blast
qed

text \<open>
  C37.  The formatter of insert cells that avoids \<^verbatim>\<open>snprintf\<close> is equivalent to the printing it
  replaces: with and without it every selector whose indices are \<^verbatim>\<open>size_t\<close> values gives the same
  result, errors included.
\<close>

theorem fast_path_equals_snprintf:
  assumes "\<forall>sel. sel_opt = Some sel \<longrightarrow> indices_fit sel"
  shows "selector_format True alloc sel_opt out_present = selector_format False alloc sel_opt out_present"
proof (cases sel_opt)
  case (Some sel)
  with assms have "format_text True sel = format_text False sel" by (simp add: format_text_fast)
  with Some show ?thesis by (simp add: selector_format_def)
qed (simp add: selector_format_def)

text \<open>The value the digits denote.\<close>

definition decimal :: "nat \<Rightarrow> string \<Rightarrow> nat" where
  "decimal v ds = foldl (\<lambda>v c. v * 10 + digit_value c) v ds"

lemma decimal_ge: "v \<le> decimal v ds"
proof (induction ds arbitrary: v)
  case (Cons c ds)
  have "v \<le> v * 10 + digit_value c" by simp
  also have "\<dots> \<le> decimal (v * 10 + digit_value c) ds" by (rule Cons.IH)
  finally show ?case by (simp add: decimal_def)
qed (simp add: decimal_def)

lemma index_digits_decimal:
  "v \<le> SIZE_MAX \<Longrightarrow> index_digits v i cs =
    (let ds = takeWhile c_isdigit cs
     in if decimal v ds \<le> SIZE_MAX then Some (decimal v ds, i + length ds) else None)"
proof (induction cs arbitrary: v i)
  case (Cons c cs)
  show ?case
  proof (cases "c_isdigit c")
    case True
    let ?d = "digit_value c" and ?ds = "takeWhile c_isdigit cs"
    have "?d \<le> 9" using True by (auto simp: digit_value_def c_isdigit_def Let_def)
    then have d: "?d \<le> SIZE_MAX" by (simp add: SIZE_MAX_def)
    have step: "decimal v (c # ?ds) = decimal (v * 10 + ?d) ?ds" by (simp add: decimal_def)
    have guard: "v > (SIZE_MAX - ?d) div 10 \<longleftrightarrow> v * 10 + ?d > SIZE_MAX"
    proof -
      have "v \<le> (SIZE_MAX - ?d) div 10 \<longleftrightarrow> v * 10 \<le> SIZE_MAX - ?d"
        by (simp add: less_eq_div_iff_mult_less_eq)
      then show ?thesis using d by linarith
    qed
    show ?thesis
    proof (cases "v * 10 + ?d > SIZE_MAX")
      case over: True
      then have "decimal v (c # ?ds) > SIZE_MAX" using decimal_ge [of "v * 10 + ?d" ?ds] step by simp
      then show ?thesis using True over guard by (simp add: Let_def)
    next
      case False
      then show ?thesis using True guard Cons.IH [of "v * 10 + ?d" "i + 1"] step by (simp add: Let_def)
    qed
  next
    case False
    with Cons.prems show ?thesis by (simp add: decimal_def Let_def)
  qed
qed (simp add: decimal_def)

text \<open>
  C40.  An index is read exactly: after an opening bracket the value is the decimal value of all the
  digits that follow, which must be closed by a bracket, and a value that does not fit \<^verbatim>\<open>size_t\<close> is
  refused; the overflow test never lets a wrapped value through and refuses nothing that fits.
\<close>

theorem parse_index_exact:
  "parse_index text off =
    (let ds = takeWhile c_isdigit (drop (off + 1) text); close = off + 1 + length ds
     in if char_at text off \<noteq> CHR ''[''
        then fail INVALID_ARGUMENT (''selector is missing '' @ quoted ''['')
        else if ds = [] then fail INVALID_ARGUMENT ''selector index must be numeric''
        else if decimal 0 ds > SIZE_MAX then fail INVALID_ARGUMENT ''selector index is out of range''
        else if char_at text close \<noteq> CHR '']''
        then fail INVALID_ARGUMENT (''selector is missing '' @ quoted '']'')
        else Inr (decimal 0 ds, close + 1))"
proof -
  let ?ds = "takeWhile c_isdigit (drop (off + 1) text)"
  have first: "c_isdigit (char_at text (off + 1)) \<longleftrightarrow> ?ds \<noteq> []"
    unfolding char_at_via_drop by (cases "drop (off + 1) text") simp_all
  show ?thesis
    unfolding parse_index_def first
    by (simp add: index_digits_decimal Let_def not_le)
qed

section \<open>Instances\<close>

definition a_cell :: selector where
  "a_cell = \<lparr>sel_kind = KIND_MERGE_INSERT_CELL, statement_index = 0, item_index = 3,
     row_index = 0, column_index = 12\<rparr>"

lemma a_cell_normal: "selector_normal a_cell"
  by (simp add: a_cell_def selector_normal_def indices_fit_def SIZE_MAX_def)

lemma digit_chars:
  "digit_char 0 = CHR ''0''" "digit_char 1 = CHR ''1''" "digit_char 2 = CHR ''2''"
  "digit_char 3 = CHR ''3''"
  by code_simp+

lemma a_cell_text: "selector_text a_cell = ''stmt[0].merge_insert_cell[3][12]''"
  using digit_chars
  by (simp add: a_cell_def selector_text_def show_item_def show_index_def show_size.simps)

theorem selector_round_trip_witness:
  "selector_parse (Some ''stmt[0].merge_insert_cell[3][12]'') = (None, a_cell)"
  using selector_round_trip [OF a_cell_normal, of True "\<lambda>_ _. True"]
  by (simp add: selector_format_normal [OF a_cell_normal] a_cell_text)

text \<open>An explicit DML index 0 is another text for the same cell.\<close>

lemma explicit_row_zero:
  "selector_parse (Some ''stmt[0].merge_insert_cell[0][3][12]'') = (None, a_cell)"
  by (simp add: selector_parse_def parse_kind_def parse_kind_rest_def read_into_def parse_index_def if_more_def
      more_pair_def starts_at_def char_at_def Let_def c_isdigit_def digit_value_def SIZE_MAX_def
      selector_clear_def a_cell_def)

theorem accepted_text_has_canonical_form_witness:
  "selector_normal a_cell \<and> selector_format True (\<lambda>_ _. True) (Some a_cell) True = Inr ''stmt[0].merge_insert_cell[3][12]'' \<and>
   selector_parse (Some ''stmt[0].merge_insert_cell[3][12]'') = (None, a_cell)"
  using accepted_text_has_canonical_form [OF explicit_row_zero explicit_row_zero, where fast = True and alloc = "\<lambda>_ _. True"] a_cell_text
    selector_format_normal [OF a_cell_normal, where fast = True and alloc = "\<lambda>_ _. True"]
  by simp

theorem fast_path_equals_snprintf_witness:
  "selector_format True (\<lambda>_ _. True) (Some a_cell) True
     = selector_format False (\<lambda>_ _. True) (Some a_cell) True"
  using fast_path_equals_snprintf [of "Some a_cell" "\<lambda>_ _. True" True] a_cell_normal
  by (simp add: selector_normal_def)

end
