(* ===== verification/Selector_Patch.thy ===== *)
theory Selector_Patch
  imports Selector
begin

text \<open>
  The selector-addressed entry points of \<^verbatim>\<open>src/core/sqlparser_selector.c\<close>: each checks the kind of the
  caller's selector and either reads the addressed part or sends one patch.  What they delegate to
  (\<^verbatim>\<open>sqlparser_apply_patch\<close>, the readers of a handle, the renderers) is an argument of the
  definition, with the handle already applied.
\<close>

section \<open>Patches\<close>

text \<open>\<^verbatim>\<open>sqlparser_patch_op_t\<close>; \<open>OP_NONE\<close> is the zero \<^verbatim>\<open>memset\<close> leaves.\<close>

datatype patch_op =
    OP_NONE | PATCH_REPLACE | PATCH_INSERT_COLUMN | PATCH_DELETE_COLUMN | PATCH_DELETE_ROW
  | PATCH_APPEND_CONDITION | PATCH_INSERT_ASSIGNMENT | PATCH_DELETE_ASSIGNMENT
  | PATCH_REPLACE_ASSIGNMENT | PATCH_INSERT_ARGUMENT | PATCH_DELETE_ARGUMENT

text \<open>\<^verbatim>\<open>sqlparser_patch_t\<close>; the bool operator is its number, as callers may pass any.\<close>

record ('lit, 'bind) patch =
  p_op :: patch_op
  p_selector :: "string option"
  p_index :: nat
  p_name :: "string option"
  p_sql :: "string option"
  p_default_sql :: "string option"
  p_source_selector :: "string option"
  p_literal :: "'lit option"
  p_bind :: "'bind option"
  p_bool_operator :: int

text \<open>\<^verbatim>\<open>memset(&patch, 0, sizeof(patch))\<close> and the operation\<close>

definition patch_of :: "patch_op \<Rightarrow> ('lit, 'bind) patch" where
  "patch_of operation = \<lparr>p_op = operation, p_selector = None, p_index = 0, p_name = None, p_sql = None,
     p_default_sql = None, p_source_selector = None, p_literal = None, p_bind = None,
     p_bool_operator = 0\<rparr>"

text \<open>
  How an entry point reaches the rest of the program: the formatter's build flag and allocator, and
  \<^verbatim>\<open>sqlparser_apply_patch\<close> on the caller's handle.
\<close>

record ('lit, 'bind, 'r) patch_target =
  t_fast_path :: bool
  t_alloc :: allocator
  t_apply :: "('lit, 'bind) patch list \<Rightarrow> sql_error + 'r"

text \<open>\<^verbatim>\<open>sqlparser_selector_apply_single_patch\<close>\<close>

definition apply_single_patch ::
  "('lit, 'bind, 'r) patch_target \<Rightarrow> selector option \<Rightarrow> ('lit, 'bind) patch option \<Rightarrow> sql_error + 'r" where
  "apply_single_patch target sel_opt patch_opt =
     (case patch_opt of
        None \<Rightarrow> fail INVALID_ARGUMENT ''patch must not be NULL''
      | Some p \<Rightarrow>
          (case selector_format (t_fast_path target) (t_alloc target) sel_opt True of
             Inl e \<Rightarrow> Inl e
           | Inr sel_text \<Rightarrow> t_apply target [p\<lparr>p_selector := Some sel_text\<rparr>]))"

section \<open>Identifier paths\<close>

text \<open>
  A path view is its parts, NULL parts included; the outer \<open>None\<close> is a NULL path or a NULL array.
\<close>

type_synonym identifier_path = "string option list option"

fun validate_parts :: "string option list \<Rightarrow> sql_error option" where
  "validate_parts [] = None"
| "validate_parts (part # parts) =
     (if part = None \<or> part = Some []
      then Some (error_set_message INVALID_ARGUMENT ''identifier path part must not be NULL or empty'')
      else validate_parts parts)"

definition validate_identifier_path :: "identifier_path option \<Rightarrow> sql_error option" where
  "validate_identifier_path path =
     (case path of
        Some (Some parts) \<Rightarrow>
          if parts = []
          then Some (error_set_message INVALID_ARGUMENT ''identifier path must not be NULL or empty'')
          else validate_parts parts
      | _ \<Rightarrow> Some (error_set_message INVALID_ARGUMENT ''identifier path must not be NULL or empty''))"

fun validate_paths :: "identifier_path list \<Rightarrow> sql_error option" where
  "validate_paths [] = None"
| "validate_paths (path # paths) =
     (case validate_identifier_path (Some path) of
        Some e \<Rightarrow> Some e
      | None \<Rightarrow> validate_paths paths)"

definition validate_identifier_path_array :: "identifier_path list option \<Rightarrow> sql_error option" where
  "validate_identifier_path_array paths =
     (case paths of
        None \<Rightarrow> Some (error_set_message INVALID_ARGUMENT ''columns must not be NULL or empty'')
      | Some ps \<Rightarrow>
          if ps = [] then Some (error_set_message INVALID_ARGUMENT ''columns must not be NULL or empty'')
          else validate_paths ps)"

text \<open>
  The measuring loop of \<^verbatim>\<open>sqlparser_selector_render_identifier_path_list_sql\<close>: every path is rendered
  and the output size, which starts at 1, grows by it and by a separator from the second on.
\<close>

fun render_paths ::
  "(identifier_path \<Rightarrow> sql_error + string) \<Rightarrow> bool \<Rightarrow> nat \<Rightarrow> identifier_path list
     \<Rightarrow> sql_error + string list \<times> nat" where
  "render_paths render first output_size [] = Inr ([], output_size)"
| "render_paths render first output_size (path # paths) =
     (case render path of
        Inl e \<Rightarrow> Inl e
      | Inr item \<Rightarrow>
          let separator_length = (if first then 0 else 2)
          in if separator_length > SIZE_MAX - output_size
                \<or> length item > SIZE_MAX - output_size - separator_length
             then fail RESOURCE_LIMIT ''identifier path SQL is too large''
             else (case render_paths render False (output_size + (separator_length + length item)) paths of
                     Inl e \<Rightarrow> Inl e
                   | Inr (items, final_size) \<Rightarrow> Inr (item # items, final_size)))"

text \<open>The copying loop.\<close>

fun join_items :: "bool \<Rightarrow> string list \<Rightarrow> string" where
  "join_items first [] = []"
| "join_items first (item # items) = (if first then [] else '', '') @ item @ join_items False items"

definition render_identifier_path_list_sql ::
  "allocator \<Rightarrow> (identifier_path \<Rightarrow> sql_error + string) \<Rightarrow> identifier_path list \<Rightarrow> sql_error + string" where
  "render_identifier_path_list_sql alloc render paths =
     (if length paths > SIZE_MAX div 8
      then fail RESOURCE_LIMIT ''identifier path list is too large''
      else if \<not> alloc 0 (length paths * 8) then fail NO_MEMORY ''out of memory''
      else case render_paths render True 1 paths of
        Inl e \<Rightarrow> Inl e
      | Inr (items, output_size) \<Rightarrow>
          if \<not> alloc 1 output_size then fail NO_MEMORY ''out of memory''
          else Inr (join_items True items))"

section \<open>Reading entry points\<close>

text \<open>The guard every entry point starts with.\<close>

definition require_kind ::
  "selector_kind list \<Rightarrow> string \<Rightarrow> selector option \<Rightarrow> (selector \<Rightarrow> sql_error + 'r) \<Rightarrow> sql_error + 'r" where
  "require_kind kinds message sel_opt action =
     (case sel_opt of
        None \<Rightarrow> fail INVALID_ARGUMENT message
      | Some sel \<Rightarrow> if sel_kind sel \<notin> set kinds then fail INVALID_ARGUMENT message else action sel)"

abbreviation by_item :: "(nat \<Rightarrow> nat \<Rightarrow> 'r) \<Rightarrow> selector \<Rightarrow> 'r" where
  "by_item read \<equiv> (\<lambda>sel. read (statement_index sel) (item_index sel))"

abbreviation by_cell :: "(nat \<Rightarrow> nat \<Rightarrow> nat \<Rightarrow> 'r) \<Rightarrow> selector \<Rightarrow> 'r" where
  "by_cell read \<equiv> (\<lambda>sel. read (statement_index sel) (row_index sel) (column_index sel))"

definition selector_relation where
  "selector_relation statement_relation sel =
     require_kind [KIND_RELATION] ''selector kind must be relation'' sel (by_item statement_relation)"

definition selector_name where
  "selector_name statement_name sel =
     require_kind [KIND_NAME] ''selector kind must be name'' sel (by_item statement_name)"

definition selector_literal where
  "selector_literal statement_literal sel =
     require_kind [KIND_LITERAL] ''selector kind must be literal'' sel (by_item statement_literal)"

definition selector_where_literal where
  "selector_where_literal statement_where_literal sel =
     require_kind [KIND_WHERE_LITERAL] ''selector kind must be where_literal'' sel
       (by_item statement_where_literal)"

definition selector_where_sql where
  "selector_where_sql statement_where_sql sel =
     require_kind [KIND_WHERE] ''selector kind must be where'' sel (by_item statement_where_sql)"

definition selector_clause where
  "selector_clause statement_clause sel =
     require_kind [KIND_CLAUSE] ''selector kind must be clause'' sel (by_item statement_clause)"

text \<open>A clause may also be the condition of an insert branch or of a MERGE branch.\<close>

definition selector_clause_sql ::
  "(nat \<Rightarrow> nat \<Rightarrow> sql_error + 'r) \<Rightarrow> (nat \<Rightarrow> nat \<Rightarrow> nat \<Rightarrow> sql_error + 'r) \<Rightarrow>
   (nat \<Rightarrow> nat \<Rightarrow> nat \<Rightarrow> sql_error + 'r) \<Rightarrow> (nat \<Rightarrow> nat \<Rightarrow> sql_error + 'r) \<Rightarrow> selector option \<Rightarrow>
   sql_error + 'r" where
  "selector_clause_sql multi_insert_condition merge_branch_condition merge_delete_condition
     statement_clause sel_opt =
     (case sel_opt of
        Some sel \<Rightarrow>
          if sel_kind sel = KIND_INSERT_BRANCH_CONDITION then by_item multi_insert_condition sel
          else if sel_kind sel = KIND_MERGE_BRANCH_CONDITION
          then merge_branch_condition (statement_index sel) (row_index sel) (item_index sel)
          else if sel_kind sel = KIND_MERGE_DELETE_CONDITION
          then merge_delete_condition (statement_index sel) (row_index sel) (item_index sel)
          else require_kind [KIND_CLAUSE] ''selector kind must be clause'' sel_opt
                 (by_item statement_clause)
      | None \<Rightarrow> require_kind [KIND_CLAUSE] ''selector kind must be clause'' sel_opt
                 (by_item statement_clause))"

definition assignment_kinds :: "selector_kind list" where
  "assignment_kinds = [KIND_ASSIGNMENT, KIND_MERGE_ASSIGNMENT]"

definition selector_update_assignment where
  "selector_update_assignment assignment_by_selector sel =
     require_kind assignment_kinds ''selector kind must be assignment'' sel assignment_by_selector"

definition selector_update_assignment_sql where
  "selector_update_assignment_sql assignment_sql_by_selector sel =
     require_kind assignment_kinds ''selector kind must be assignment'' sel assignment_sql_by_selector"

definition selector_insert_cell_literal where
  "selector_insert_cell_literal insert_cell_literal sel =
     require_kind [KIND_INSERT_CELL] ''selector kind must be insert_cell'' sel
       (by_cell insert_cell_literal)"

definition selector_insert_cell_sql where
  "selector_insert_cell_sql insert_cell_sql sel =
     require_kind [KIND_INSERT_CELL] ''selector kind must be insert_cell'' sel (by_cell insert_cell_sql)"

definition selector_select_target_sql where
  "selector_select_target_sql select_target_sql sel =
     require_kind [KIND_SELECT_TARGET] ''selector kind must be select_target'' sel
       (\<lambda>s. select_target_sql (statement_index s) (item_index s) (column_index s))"

section \<open>Writing entry points\<close>

text \<open>
  \<^verbatim>\<open>sqlparser_selector_set_relation_name\<close>: the index of the patch is the source encoding that
  \<^verbatim>\<open>sqlparser_statement_relation_patch_source_encoding\<close> computes.
\<close>

definition selector_set_relation_name where
  "selector_set_relation_name target source_encoding sel schema_name table_name =
     require_kind [KIND_RELATION] ''selector kind must be relation'' sel
       (\<lambda>s. case source_encoding (statement_index s) (item_index s) schema_name table_name of
          Inl e \<Rightarrow> Inl e
        | Inr encoding \<Rightarrow>
            apply_single_patch target sel (Some ((patch_of PATCH_REPLACE)
              \<lparr>p_name := table_name, p_default_sql := schema_name, p_index := encoding\<rparr>)))"

definition selector_set_name where
  "selector_set_name target sel value =
     require_kind [KIND_NAME] ''selector kind must be name'' sel
       (\<lambda>_. apply_single_patch target sel (Some ((patch_of PATCH_REPLACE)\<lparr>p_default_sql := value\<rparr>)))"

definition selector_set_literal where
  "selector_set_literal target sel value =
     require_kind [KIND_LITERAL] ''selector kind must be literal'' sel
       (\<lambda>_. apply_single_patch target sel (Some ((patch_of PATCH_REPLACE)\<lparr>p_literal := value\<rparr>)))"

definition selector_set_where_literal where
  "selector_set_where_literal target sel value =
     require_kind [KIND_WHERE_LITERAL] ''selector kind must be where_literal'' sel
       (\<lambda>_. apply_single_patch target sel (Some ((patch_of PATCH_REPLACE)\<lparr>p_literal := value\<rparr>)))"

definition selector_set_where_sql where
  "selector_set_where_sql target sel sql_text =
     require_kind [KIND_WHERE] ''selector kind must be where'' sel
       (\<lambda>_. apply_single_patch target sel (Some ((patch_of PATCH_REPLACE)\<lparr>p_sql := sql_text\<rparr>)))"

text \<open>Appending a condition checks the operator (AND is 1, OR is 2) after the kind.\<close>

definition append_condition where
  "append_condition kind message target sel bool_operator sql_text =
     require_kind [kind] message sel
       (\<lambda>_. if bool_operator \<noteq> 1 \<and> bool_operator \<noteq> 2
            then fail INVALID_ARGUMENT ''bool_operator must be AND or OR''
            else apply_single_patch target sel (Some ((patch_of PATCH_APPEND_CONDITION)
                   \<lparr>p_sql := sql_text, p_bool_operator := bool_operator\<rparr>)))"

definition selector_append_where_sql where
  "selector_append_where_sql = append_condition KIND_WHERE ''selector kind must be where''"

definition selector_append_clause_condition where
  "selector_append_clause_condition = append_condition KIND_CLAUSE ''selector kind must be clause''"

definition selector_set_clause_sql where
  "selector_set_clause_sql target sel sql_text =
     require_kind [KIND_CLAUSE, KIND_MERGE_BRANCH_CONDITION, KIND_MERGE_DELETE_CONDITION] ''selector kind must be clause'' sel
       (\<lambda>_. apply_single_patch target sel (Some ((patch_of PATCH_REPLACE)\<lparr>p_sql := sql_text\<rparr>)))"

definition selector_set_update_assignment_literal where
  "selector_set_update_assignment_literal target sel value =
     require_kind assignment_kinds ''selector kind must be assignment'' sel
       (\<lambda>_. apply_single_patch target sel (Some ((patch_of PATCH_REPLACE)\<lparr>p_literal := value\<rparr>)))"

definition selector_set_update_assignment_sql where
  "selector_set_update_assignment_sql target sel sql_text =
     require_kind assignment_kinds ''selector kind must be assignment'' sel
       (\<lambda>_. apply_single_patch target sel (Some ((patch_of PATCH_REPLACE)\<lparr>p_sql := sql_text\<rparr>)))"

definition selector_insert_update_assignment_sql where
  "selector_insert_update_assignment_sql target sel assignment_sql =
     require_kind assignment_kinds ''selector kind must be assignment'' sel
       (\<lambda>_. apply_single_patch target sel (Some ((patch_of PATCH_INSERT_ASSIGNMENT)\<lparr>p_sql := assignment_sql\<rparr>)))"

definition selector_delete_update_assignment where
  "selector_delete_update_assignment target sel =
     require_kind assignment_kinds ''selector kind must be assignment'' sel
       (\<lambda>_. apply_single_patch target sel (Some (patch_of PATCH_DELETE_ASSIGNMENT)))"

definition selector_set_update_assignment_full_sql where
  "selector_set_update_assignment_full_sql target sel assignment_sql =
     require_kind assignment_kinds ''selector kind must be assignment'' sel
       (\<lambda>_. apply_single_patch target sel (Some ((patch_of PATCH_REPLACE_ASSIGNMENT)\<lparr>p_sql := assignment_sql\<rparr>)))"

text \<open>
  \<^verbatim>\<open>sqlparser_selector_insert_update_assignment_from_assignment_value\<close>: the patch carries the text of
  the source selector beside that of the target.
\<close>

definition selector_insert_assignment_from_value ::
  "('lit, 'bind, 'r) patch_target \<Rightarrow> (identifier_path option \<Rightarrow> sql_error + string) \<Rightarrow> bool \<Rightarrow>
   selector option \<Rightarrow> identifier_path option \<Rightarrow> selector option \<Rightarrow> sql_error + 'r" where
  "selector_insert_assignment_from_value target render handle_present insert_sel path source_sel =
     (if \<not> handle_present then fail INVALID_ARGUMENT ''handle must not be NULL''
      else case (insert_sel, source_sel) of
        (Some ins, Some src) \<Rightarrow>
          if sel_kind ins \<notin> set assignment_kinds \<or> sel_kind src \<notin> set assignment_kinds
          then fail INVALID_ARGUMENT ''selectors must be assignment selectors''
          else if statement_index ins \<noteq> statement_index src
          then fail UNSUPPORTED ''assignment value clone across statements is not supported''
          else (case validate_identifier_path path of
                  Some e \<Rightarrow> Inl e
                | None \<Rightarrow>
                    (case render path of
                       Inl e \<Rightarrow> Inl e
                     | Inr target_sql \<Rightarrow>
                         (case selector_format (t_fast_path target) (t_alloc target) source_sel True of
                            Inl e \<Rightarrow> Inl e
                          | Inr source_text \<Rightarrow>
                              apply_single_patch target insert_sel (Some
                                ((patch_of PATCH_INSERT_ASSIGNMENT)\<lparr>p_name := Some target_sql,
                                   p_source_selector := Some source_text\<rparr>)))))
      | _ \<Rightarrow> fail INVALID_ARGUMENT ''selectors must be assignment selectors'')"

text \<open>
  \<^verbatim>\<open>sqlparser_selector_set_insert_cell_literal\<close>: a multi-table insert renders the value to SQL, any
  other insert checks that the cell holds a literal and sends the value itself.
\<close>

definition selector_set_insert_cell_literal where
  "selector_set_insert_cell_literal target multi_insert render_literal insert_cell_literal sel value =
     require_kind [KIND_INSERT_CELL] ''selector kind must be insert_cell'' sel
       (\<lambda>_. if multi_insert
            then (case render_literal value of
                    Inl e \<Rightarrow> Inl e
                  | Inr rendered_sql \<Rightarrow>
                      apply_single_patch target sel (Some ((patch_of PATCH_REPLACE)
                        \<lparr>p_sql := Some rendered_sql, p_literal := None\<rparr>)))
            else (case selector_insert_cell_literal insert_cell_literal sel of
                    Inl e \<Rightarrow> Inl e
                  | Inr current \<Rightarrow>
                      apply_single_patch target sel (Some ((patch_of PATCH_REPLACE)
                        \<lparr>p_sql := None, p_literal := value\<rparr>))))"

definition selector_set_insert_cell_bind where
  "selector_set_insert_cell_bind target multi_insert render_bind sel bind =
     require_kind [KIND_INSERT_CELL] ''selector kind must be insert_cell'' sel
       (\<lambda>_. if multi_insert
            then (case render_bind bind of
                    Inl e \<Rightarrow> Inl e
                  | Inr rendered_sql \<Rightarrow>
                      apply_single_patch target sel (Some ((patch_of PATCH_REPLACE)
                        \<lparr>p_sql := Some rendered_sql, p_bind := None\<rparr>)))
            else apply_single_patch target sel (Some ((patch_of PATCH_REPLACE)
                   \<lparr>p_sql := None, p_bind := bind\<rparr>)))"

definition selector_set_insert_cell_sql where
  "selector_set_insert_cell_sql target sel sql_text =
     require_kind [KIND_INSERT_CELL] ''selector kind must be insert_cell'' sel
       (\<lambda>_. apply_single_patch target sel (Some ((patch_of PATCH_REPLACE)\<lparr>p_sql := sql_text\<rparr>)))"

definition selector_set_select_target_sql where
  "selector_set_select_target_sql target sel sql_text =
     require_kind [KIND_SELECT_TARGET] ''selector kind must be select_target'' sel
       (\<lambda>_. apply_single_patch target sel (Some ((patch_of PATCH_REPLACE)\<lparr>p_sql := sql_text\<rparr>)))"

definition selector_set_select_targets_sql where
  "selector_set_select_targets_sql target sel sql_text =
     require_kind [KIND_SELECT_TARGETS] ''selector kind must be select_targets'' sel
       (\<lambda>_. apply_single_patch target sel (Some ((patch_of PATCH_REPLACE)\<lparr>p_sql := sql_text\<rparr>)))"

definition selector_replace_target_with_columns ::
  "('lit, 'bind, 'r) patch_target \<Rightarrow> (identifier_path \<Rightarrow> sql_error + string) \<Rightarrow> bool \<Rightarrow>
   selector option \<Rightarrow> identifier_path list option \<Rightarrow> sql_error + 'r" where
  "selector_replace_target_with_columns target render handle_present sel columns =
     (if \<not> handle_present then fail INVALID_ARGUMENT ''handle must not be NULL''
      else require_kind [KIND_SELECT_TARGET] ''selector kind must be select_target'' sel
        (\<lambda>_. case validate_identifier_path_array columns of
           Some e \<Rightarrow> Inl e
         | None \<Rightarrow>
             (case render_identifier_path_list_sql (t_alloc target) render (the columns) of
                Inl e \<Rightarrow> Inl e
              | Inr target_sql \<Rightarrow>
                  apply_single_patch target sel
                    (Some ((patch_of PATCH_REPLACE)\<lparr>p_sql := Some target_sql\<rparr>)))))"

section \<open>What is delivered\<close>

lemma apply_single_patch_normal:
  assumes "selector_normal sel"
  shows "apply_single_patch target (Some sel) (Some p) =
    (if t_alloc target 0 (length (selector_text sel) + 1)
     then t_apply target [p\<lparr>p_selector := Some (selector_text sel)\<rparr>]
     else fail NO_MEMORY ''out of memory'')"
  by (simp add: apply_single_patch_def selector_format_normal [OF assms])

text \<open>
  C36.  One patch reaches the handle, it is the caller's patch with nothing but the selector text
  filled in, and parsing that text addresses the very part the caller's selector addresses; only
  memory can keep it from being sent.
\<close>

theorem single_patch_addresses_selector:
  assumes "selector_normal sel"
  shows "\<exists>t. selector_parse (Some t) = (None, sel) \<and>
    apply_single_patch target (Some sel) (Some p) =
      (if t_alloc target 0 (length t + 1) then t_apply target [p\<lparr>p_selector := Some t\<rparr>]
       else fail NO_MEMORY ''out of memory'')"
  using apply_single_patch_normal [OF assms] parse_selector_text [OF assms] by blast

text \<open>
  The contract of a setter: a missing selector or one of another kind is refused as an invalid
  argument, whatever the handle would do, and for a normal selector of the right kind exactly the
  patch \<open>p\<close>, addressed to it, is applied.
\<close>

definition delivers ::
  "selector_kind list \<Rightarrow> (('lit, 'bind, 'r) patch_target \<Rightarrow> selector option \<Rightarrow> sql_error + 'r) \<Rightarrow>
   ('lit, 'bind) patch \<Rightarrow> bool" where
  "delivers kinds setter p = (\<forall>target sel_opt. case sel_opt of
       None \<Rightarrow> status_of (setter target sel_opt) = INVALID_ARGUMENT
     | Some sel \<Rightarrow>
         if sel_kind sel \<notin> set kinds then status_of (setter target sel_opt) = INVALID_ARGUMENT
         else selector_normal sel \<and> (\<forall>n. t_alloc target 0 n) \<longrightarrow>
           setter target sel_opt = t_apply target [p\<lparr>p_selector := Some (selector_text sel)\<rparr>])"

lemma require_kind_delivers:
  "delivers kinds (\<lambda>target sel. require_kind kinds message sel
     (\<lambda>_. apply_single_patch target sel (Some p))) p"
  by (auto simp: delivers_def require_kind_def apply_single_patch_normal split: option.splits)

lemma append_condition_delivers:
  assumes "b = 1 \<or> b = 2"
  shows "delivers [kind] (\<lambda>target sel. append_condition kind message target sel b q)
    ((patch_of PATCH_APPEND_CONDITION)\<lparr>p_sql := q, p_bool_operator := b\<rparr>)"
  using assms
  by (auto simp: delivers_def append_condition_def require_kind_def apply_single_patch_normal
      split: option.splits)

lemmas setter_defs = selector_set_name_def selector_set_literal_def selector_set_where_literal_def
  selector_set_where_sql_def selector_set_clause_sql_def selector_set_update_assignment_literal_def
  selector_set_update_assignment_sql_def selector_insert_update_assignment_sql_def
  selector_delete_update_assignment_def selector_set_update_assignment_full_sql_def
  selector_set_insert_cell_sql_def selector_set_select_target_sql_def
  selector_set_select_targets_sql_def

text \<open>
  Every plain setter delivers its own patch: the operation and the field its caller names, and
  nothing else; names go to the default SQL field, literals to the literal field, texts to the SQL
  field.
\<close>

lemma setters_deliver_their_patch:
  "delivers [KIND_NAME] (\<lambda>t s. selector_set_name t s v) ((patch_of PATCH_REPLACE)\<lparr>p_default_sql := v\<rparr>) \<and>
   delivers [KIND_LITERAL] (\<lambda>t s. selector_set_literal t s l) ((patch_of PATCH_REPLACE)\<lparr>p_literal := l\<rparr>) \<and>
   delivers [KIND_WHERE_LITERAL] (\<lambda>t s. selector_set_where_literal t s l)
     ((patch_of PATCH_REPLACE)\<lparr>p_literal := l\<rparr>) \<and>
   delivers [KIND_WHERE] (\<lambda>t s. selector_set_where_sql t s q) ((patch_of PATCH_REPLACE)\<lparr>p_sql := q\<rparr>) \<and>
   delivers [KIND_CLAUSE, KIND_MERGE_BRANCH_CONDITION, KIND_MERGE_DELETE_CONDITION]
     (\<lambda>t s. selector_set_clause_sql t s q) ((patch_of PATCH_REPLACE)\<lparr>p_sql := q\<rparr>) \<and>
   delivers assignment_kinds (\<lambda>t s. selector_set_update_assignment_literal t s l)
     ((patch_of PATCH_REPLACE)\<lparr>p_literal := l\<rparr>) \<and>
   delivers assignment_kinds (\<lambda>t s. selector_set_update_assignment_sql t s q)
     ((patch_of PATCH_REPLACE)\<lparr>p_sql := q\<rparr>) \<and>
   delivers assignment_kinds (\<lambda>t s. selector_insert_update_assignment_sql t s q)
     ((patch_of PATCH_INSERT_ASSIGNMENT)\<lparr>p_sql := q\<rparr>) \<and>
   delivers assignment_kinds selector_delete_update_assignment (patch_of PATCH_DELETE_ASSIGNMENT) \<and>
   delivers assignment_kinds (\<lambda>t s. selector_set_update_assignment_full_sql t s q)
     ((patch_of PATCH_REPLACE_ASSIGNMENT)\<lparr>p_sql := q\<rparr>) \<and>
   delivers [KIND_INSERT_CELL] (\<lambda>t s. selector_set_insert_cell_sql t s q)
     ((patch_of PATCH_REPLACE)\<lparr>p_sql := q\<rparr>) \<and>
   delivers [KIND_SELECT_TARGET] (\<lambda>t s. selector_set_select_target_sql t s q)
     ((patch_of PATCH_REPLACE)\<lparr>p_sql := q\<rparr>) \<and>
   delivers [KIND_SELECT_TARGETS] (\<lambda>t s. selector_set_select_targets_sql t s q)
     ((patch_of PATCH_REPLACE)\<lparr>p_sql := q\<rparr>)"
  unfolding setter_defs by (intro conjI require_kind_delivers)

lemma render_paths_spec:
  "render_paths render first n paths = Inr (items, total_size) \<Longrightarrow> n \<le> SIZE_MAX \<Longrightarrow>
     map render paths = map Inr items \<and> total_size = n + length (join_items first items) \<and>
     total_size \<le> SIZE_MAX"
proof (induction render first n paths arbitrary: items total_size rule: render_paths.induct)
  case (2 render first n path paths)
  let ?sep = "if first then 0 else 2 :: nat"
  from "2.prems"(1) obtain item rest where item: "render path = Inr item"
    and room: "\<not> ?sep > SIZE_MAX - n" "\<not> length item > SIZE_MAX - n - ?sep"
    and rec: "render_paths render False (n + (?sep + length item)) paths = Inr (rest, total_size)"
    and items: "items = item # rest"
    by (auto simp: Let_def split: sum.splits if_splits)
  have fits: "n + (?sep + length item) \<le> SIZE_MAX" using room "2.prems"(2) by linarith
  have "map render paths = map Inr rest \<and> total_size = n + (?sep + length item)
      + length (join_items False rest) \<and> total_size \<le> SIZE_MAX"
    by (rule "2.IH" [OF item refl _ rec fits]) (use room in simp)
  then show ?case using item items by auto
qed auto

lemma join_items_concat: "join_items True items = concat (case items of [] \<Rightarrow> [] | i # is \<Rightarrow>
    i # map (\<lambda>j. '', '' @ j) is)"
proof -
  have "join_items False items = concat (map (\<lambda>j. '', '' @ j) items)" for items
    by (induction items) auto
  then show ?thesis by (cases items) (auto intro!: arg_cong [where f = concat] map_cong)
qed

text \<open>
  The list of identifier paths is the rendered paths joined by a comma and a space, in order;
  the buffer that is allocated for it is exactly as large as the text and its terminator, so the
  copying loop writes inside it.
\<close>

lemma path_list_is_joined_in_exact_buffer:
  assumes "render_identifier_path_list_sql alloc render paths = Inr sql"
  shows "\<exists>items. map render paths = map Inr items \<and>
    sql = concat (case items of [] \<Rightarrow> [] | i # is \<Rightarrow> i # map (\<lambda>j. '', '' @ j) is) \<and>
    alloc 1 (length sql + 1) \<and> length sql + 1 \<le> SIZE_MAX"
proof -
  from assms obtain items total_size where r: "render_paths render True 1 paths = Inr (items, total_size)"
    and sql: "sql = join_items True items" and al: "alloc 1 total_size"
    by (auto simp: render_identifier_path_list_sql_def split: if_splits sum.splits)
  from render_paths_spec [OF r] have "map render paths = map Inr items"
    "total_size = length sql + 1" "total_size \<le> SIZE_MAX" by (simp_all add: sql SIZE_MAX_def)
  with sql al join_items_concat show ?thesis by metis
qed

section \<open>Instances\<close>

theorem single_patch_addresses_selector_witness:
  "apply_single_patch \<lparr>t_fast_path = True, t_alloc = \<lambda>_ _. True, t_apply = (\<lambda>ps. Inr (map p_selector ps))\<rparr>
     (Some a_cell) (Some (patch_of PATCH_REPLACE :: (nat, nat) patch))
   = Inr [Some ''stmt[0].merge_insert_cell[3][12]'']"
proof -
  let ?target = "\<lparr>t_fast_path = True, t_alloc = \<lambda>_ _. True,
      t_apply = (\<lambda>ps. Inr (map p_selector ps))\<rparr> :: (nat, nat, string option list) patch_target"
  obtain t where t: "selector_parse (Some t) = (None, a_cell)"
    and app: "apply_single_patch ?target (Some a_cell) (Some (patch_of PATCH_REPLACE))
      = Inr [Some t]"
    using single_patch_addresses_selector [OF a_cell_normal, of ?target "patch_of PATCH_REPLACE"] by auto
  have "apply_single_patch ?target (Some a_cell) (Some (patch_of PATCH_REPLACE))
      = Inr [Some (selector_text a_cell)]"
    by (simp add: apply_single_patch_normal [OF a_cell_normal])
  then show ?thesis using a_cell_text app by simp
qed

definition plain_path :: "string option list option \<Rightarrow> sql_error + string" where
  "plain_path path = (case path of Some [Some t] \<Rightarrow> Inr t | _ \<Rightarrow> fail INVALID_ARGUMENT [])"

lemma path_list_is_joined_in_exact_buffer_witness:
  "\<exists>items. map plain_path [Some [Some ''a''], Some [Some ''b'']] = map Inr items \<and>
     ''a, b'' = concat (case items of [] \<Rightarrow> [] | i # is \<Rightarrow> i # map (\<lambda>j. '', '' @ j) is)"
proof -
  have "render_identifier_path_list_sql (\<lambda>_ _. True) plain_path [Some [Some ''a''], Some [Some ''b'']]
      = Inr ''a, b''"
    by (simp add: render_identifier_path_list_sql_def plain_path_def SIZE_MAX_def)
  from path_list_is_joined_in_exact_buffer [OF this] show ?thesis by blast
qed

end
