(* ===== verification/Sqlserver_Scan.thy ===== *)
theory Sqlserver_Scan
  imports Sql_Prelude
begin

text \<open>
  The SQL Server scanner (\<^verbatim>\<open>src/dialect/sqlparser_dialect_sqlserver_scan.c\<close>): quoted text and
  comments, words, the GO line, and the token scanner that follows parentheses, CASE expressions
  and BEGIN blocks, with the searches built on it.

  A text is the bytes before its NUL; reading at or behind the end yields NUL.  The static helpers
  are only called with non-NULL pointers, and the guards against NULL are kept where a caller can
  pass one: there a text is an option.
\<close>

section \<open>Characters and errors\<close>

text \<open>\<^verbatim>\<open>sqlparser_sqlserver_char_at\<close>\<close>

definition ss_char_at :: "string \<Rightarrow> nat \<Rightarrow> nat \<Rightarrow> char" where
  "ss_char_at sql pos end_pos = (if pos \<ge> end_pos then NUL else char_at sql pos)"

text \<open>The line and column loop of \<^verbatim>\<open>sqlparser_sqlserver_error_at\<close> over the bytes before the position.\<close>

fun line_column :: "int \<Rightarrow> int \<Rightarrow> string \<Rightarrow> int \<times> int" where
  "line_column line column [] = (line, column)"
| "line_column line column (c # cs) =
     (if c = LF then line_column (line + 1) 1 cs else line_column line (column + 1) cs)"

definition sqlserver_error_at :: "string \<Rightarrow> nat \<Rightarrow> string \<Rightarrow> sql_error" where
  "sqlserver_error_at sql pos message =
     (let (line, column) = line_column 1 1 (take pos sql)
      in (error_set_message PARSE_ERROR message)
           \<lparr>err_cursor := (if pos < INT_MAX then int pos + 1 else int INT_MAX),
            err_line := line, err_column := column\<rparr>)"

definition ss_is_ident_start :: "char \<Rightarrow> bool" where
  "ss_is_ident_start c = (c_isalpha c \<or> c = CHR ''_'' \<or> c = CHR ''#'')"

definition ss_is_ident_char :: "char \<Rightarrow> bool" where
  "ss_is_ident_char c = (c_isalnum c \<or> c = CHR ''_'' \<or> c = CHR ''$'' \<or> c = CHR ''#'' \<or> c = CHR ''@'')"

definition ss_is_word_boundary :: "string \<Rightarrow> nat \<Rightarrow> nat \<Rightarrow> bool" where
  "ss_is_word_boundary s pos len =
     (let prev = (if pos = 0 then NUL else char_at s (pos - 1)); next = char_at s (pos + len)
      in \<not> ss_is_ident_char prev \<and> \<not> ss_is_ident_char next)"

text \<open>The comparison loop of \<^verbatim>\<open>sqlparser_sqlserver_ascii_word_equal\<close>, over the rest of the text.\<close>

fun word_matches :: "string \<Rightarrow> string \<Rightarrow> bool" where
  "word_matches s [] = True"
| "word_matches [] (w # ws) = False"
| "word_matches (c # cs) (w # ws) = (if c_tolower c \<noteq> c_tolower w then False else word_matches cs ws)"

definition ss_ascii_word_equal :: "string option \<Rightarrow> nat \<Rightarrow> string option \<Rightarrow> bool" where
  "ss_ascii_word_equal text_opt pos word_opt =
     (case (text_opt, word_opt) of
        (Some s, Some word) \<Rightarrow>
          word_matches (drop pos s) word \<and> ss_is_word_boundary s pos (length word)
      | _ \<Rightarrow> False)"

abbreviation word_at :: "string \<Rightarrow> nat \<Rightarrow> string \<Rightarrow> bool" where
  "word_at s pos word \<equiv> ss_ascii_word_equal (Some s) pos (Some word)"

section \<open>Quoted text and comments\<close>

definition can_copy_quoted_or_comment :: "string option \<Rightarrow> nat \<Rightarrow> bool" where
  "can_copy_quoted_or_comment sql_opt i =
     (case sql_opt of
        None \<Rightarrow> False
      | Some s \<Rightarrow>
          if char_at s i = NUL then False
          else char_at s i = CHR ''['' \<or> char_at s i = QUOTE \<or> char_at s i = CHR 0x22 \<or>
               (char_at s i = CHR ''-'' \<and> char_at s (i + 1) = CHR ''-'') \<or>
               (char_at s i = CHR ''/'' \<and> char_at s (i + 1) = CHR ''*''))"

text \<open>
  The loop shared by bracketed and quoted text: a doubled closing character is text, a single one
  ends it.  The result tells whether it ended, and \<^verbatim>\<open>pos\<close>.
\<close>

lemma ss_char_at_less: "ss_char_at s pos e \<noteq> NUL \<Longrightarrow> pos < length s \<and> pos < e"
  by (auto simp: ss_char_at_def char_at_def split: if_splits)

function delimited_loop :: "string \<Rightarrow> nat \<Rightarrow> char \<Rightarrow> nat \<Rightarrow> bool \<times> nat" where
  "delimited_loop s e close pos =
     (if ss_char_at s pos e = NUL then (False, pos)
      else if char_at s pos = close \<and> ss_char_at s (pos + 1) e = close
      then delimited_loop s e close (pos + 2)
      else if char_at s pos = close then (True, pos + 1)
      else delimited_loop s e close (pos + 1))"
  by pat_completeness auto
termination
  by (relation "measure (\<lambda>(s, e, close, pos). length s - pos)") (auto dest!: ss_char_at_less)

declare delimited_loop.simps [simp del]

function comment_loop :: "string \<Rightarrow> nat \<Rightarrow> nat \<Rightarrow> nat \<Rightarrow> bool \<times> nat" where
  "comment_loop s e depth pos =
     (if ss_char_at s pos e = NUL then (False, pos)
      else if char_at s pos = CHR ''/'' \<and> ss_char_at s (pos + 1) e = CHR ''*''
      then comment_loop s e (depth + 1) (pos + 2)
      else if char_at s pos = CHR ''*'' \<and> ss_char_at s (pos + 1) e = CHR ''/''
      then if depth - 1 = 0 then (True, pos + 2) else comment_loop s e (depth - 1) (pos + 2)
      else comment_loop s e depth (pos + 1))"
  by pat_completeness auto
termination
  by (relation "measure (\<lambda>(s, e, depth, pos). length s - pos)") (auto dest!: ss_char_at_less)

declare comment_loop.simps [simp del]

text \<open>The end of a line comment, with its line break.\<close>

definition line_comment_end :: "string \<Rightarrow> nat \<Rightarrow> nat \<Rightarrow> nat" where
  "line_comment_end s e pos =
     (let pos = scan_while (\<lambda>c. c \<noteq> NUL \<and> c \<noteq> CR \<and> c \<noteq> LF) s e pos
      in if ss_char_at s pos e = CR
         then (if ss_char_at s (pos + 1) e = LF then pos + 2 else pos + 1)
         else if ss_char_at s pos e = LF then pos + 1
         else pos)"

text \<open>
  \<^verbatim>\<open>sqlparser_sqlserver_scan_non_code_span\<close>: the error if any, and \<^verbatim>\<open>*out_next\<close> after the call, which
  held \<open>out_next\<close> before it.
\<close>

definition scan_non_code_span :: "string \<Rightarrow> nat \<Rightarrow> nat \<Rightarrow> nat \<Rightarrow> sql_error option \<times> nat" where
  "scan_non_code_span s i e out_next =
     (if i \<ge> e \<or> char_at s i = NUL
      then (Some (error_set_message INVALID_ARGUMENT ''SQL Server span arguments are invalid''), out_next)
      else
        let current = char_at s i;
          finish = (\<lambda>message (closed, pos).
            if closed then (None, pos) else (Some (sqlserver_error_at s i message), pos))
        in if current = CHR ''[''
           then finish ''unterminated SQL Server bracket-delimited identifier''
                  (delimited_loop s e (CHR '']'') (i + 1))
           else if current = QUOTE \<or> current = CHR 0x22
           then finish (if current = QUOTE then ''unterminated SQL Server string literal''
                        else ''unterminated SQL Server quoted identifier'')
                  (delimited_loop s e current (i + 1))
           else if current = CHR ''-'' \<and> ss_char_at s (i + 1) e = CHR ''-''
           then (None, line_comment_end s e (i + 2))
           else if current = CHR ''/'' \<and> ss_char_at s (i + 1) e = CHR ''*''
           then finish ''unterminated SQL Server block comment'' (comment_loop s e 1 (i + 2))
           else (Some (error_set_message INVALID_ARGUMENT
                   ''SQL Server span does not start with quoted text or a comment''), i))"

definition quoted_or_comment_span :: "string \<Rightarrow> nat \<Rightarrow> nat \<Rightarrow> sql_error option \<times> nat" where
  "quoted_or_comment_span s i out_next = scan_non_code_span s i SIZE_MAX out_next"

definition skip_quoted_or_comment_span :: "string \<Rightarrow> nat \<Rightarrow> nat" where
  "skip_quoted_or_comment_span s i =
     (if \<not> can_copy_quoted_or_comment (Some s) i then i else snd (quoted_or_comment_span s i i))"

section \<open>How far a span reaches\<close>

lemma delimited_loop_bounds:
  "pos \<le> length s \<Longrightarrow> pos \<le> e \<Longrightarrow> case delimited_loop s e q pos of (closed, p) \<Rightarrow>
     pos \<le> p \<and> p \<le> length s \<and> p \<le> e \<and> (closed \<longrightarrow> pos < p) \<and>
     (\<not> closed \<longrightarrow> p = min e (length s) \<or> char_at s p = NUL)"
proof (induction s e q pos rule: delimited_loop.induct)
  case (1 s e q pos)
  show ?case
  proof (cases "ss_char_at s pos e = NUL")
    case True
    with "1.prems" show ?thesis
      by (auto simp: delimited_loop.simps [of s e q pos] ss_char_at_def char_at_def split: if_splits)
  next
    case False
    then have less: "pos < length s" "pos < e" by (auto dest: ss_char_at_less)
    show ?thesis
    proof (cases "char_at s pos = q")
      case q: True
      show ?thesis
      proof (cases "ss_char_at s (pos + 1) e = q")
        case True
        then have "pos + 1 < length s \<and> pos + 1 < e"
          using False q less by (intro ss_char_at_less) (auto simp: ss_char_at_def)
        then show ?thesis using "1.IH"(1) False q True
          by (auto simp: delimited_loop.simps [of s e q pos] split: prod.splits)
      next
        case other: False
        then show ?thesis using False q less by (simp add: delimited_loop.simps [of s e q pos])
      qed
    next
      case other: False
      then show ?thesis using "1.IH"(2) False less
        by (auto simp: delimited_loop.simps [of s e q pos] split: prod.splits)
    qed
  qed
qed

lemma comment_loop_bounds:
  "pos \<le> length s \<Longrightarrow> pos \<le> e \<Longrightarrow> case comment_loop s e depth pos of (closed, p) \<Rightarrow>
     pos \<le> p \<and> p \<le> length s \<and> p \<le> e \<and> (closed \<longrightarrow> pos < p) \<and>
     (\<not> closed \<longrightarrow> p = min e (length s) \<or> char_at s p = NUL)"
proof (induction s e depth pos rule: comment_loop.induct)
  case (1 s e depth pos)
  show ?case
  proof (cases "ss_char_at s pos e = NUL")
    case True
    with "1.prems" show ?thesis
      by (auto simp: comment_loop.simps [of s e depth pos] ss_char_at_def char_at_def split: if_splits)
  next
    case False
    then have less: "pos < length s" "pos < e" by (auto dest: ss_char_at_less)
    have two: "pos + 2 \<le> length s \<and> pos + 2 \<le> e"
      if "ss_char_at s (pos + 1) e = c" "c \<noteq> NUL" for c
      using ss_char_at_less [of s "pos + 1" e] that by auto
    show ?thesis
    proof (cases "char_at s pos = CHR ''/'' \<and> ss_char_at s (pos + 1) e = CHR ''*''")
      case opens: True
      then show ?thesis using "1.IH"(1) False two [of "CHR ''*''"]
        by (auto simp: comment_loop.simps [of s e depth pos] split: prod.splits)
    next
      case not_open: False
      show ?thesis
      proof (cases "char_at s pos = CHR ''*'' \<and> ss_char_at s (pos + 1) e = CHR ''/''")
        case True
        then show ?thesis using "1.IH"(2) False not_open two [of "CHR ''/''"]
          by (auto simp: comment_loop.simps [of s e depth pos] split: prod.splits)
      next
        case other: False
        then show ?thesis using "1.IH"(3) False not_open less
          by (auto simp: comment_loop.simps [of s e depth pos] split: prod.splits)
      qed
    qed
  qed
qed

lemma line_comment_end_bounds:
  assumes "pos \<le> length s" "pos \<le> e"
  shows "pos \<le> line_comment_end s e pos \<and> line_comment_end s e pos \<le> length s \<and>
    line_comment_end s e pos \<le> e"
proof -
  let ?P = "\<lambda>c. c \<noteq> NUL \<and> c \<noteq> CR \<and> c \<noteq> LF"
  define p where "p = scan_while ?P s e pos"
  have p: "pos \<le> p" "p \<le> length s" "p \<le> e"
    using assms by (simp_all add: p_def scan_while_le_length scan_while_le_end)
  have "p + 1 \<le> length s \<and> p + 1 \<le> e" if "ss_char_at s p e \<noteq> NUL"
    using ss_char_at_less [OF that] by simp
  moreover have "p + 2 \<le> length s \<and> p + 2 \<le> e" if "ss_char_at s (p + 1) e = LF"
    using ss_char_at_less [of s "p + 1" e] that by simp
  ultimately show ?thesis using p unfolding line_comment_end_def Let_def p_def [symmetric] by auto
qed

text \<open>A span that is found is not empty and stays inside the text and the bound.\<close>

lemma scan_span_bounds:
  assumes "scan_non_code_span s i e n0 = (None, next)"
  shows "i < next \<and> next \<le> length s \<and> next \<le> e"
proof -
  have i: "i < e" "char_at s i \<noteq> NUL" using assms by (auto simp: scan_non_code_span_def split: if_splits)
  then have len: "i < length s" by (intro char_at_less)
  have two: "i + 2 \<le> length s \<and> i + 2 \<le> e" if "ss_char_at s (i + 1) e = c" "c \<noteq> NUL" for c
    using ss_char_at_less [of s "i + 1" e] that by auto
  note one = delimited_loop_bounds [of "i + 1" s e]
  show ?thesis
    using assms i len one [of "CHR '']''"] one [of "char_at s i"] two [of "CHR ''-''"] two [of "CHR ''*''"]
      line_comment_end_bounds [of "i + 2" s e] comment_loop_bounds [of "i + 2" s e 1]
    by (auto simp: scan_non_code_span_def Let_def split: if_splits prod.splits)
qed

lemma quoted_span_bounds:
  "quoted_or_comment_span s i n0 = (None, next) \<Longrightarrow> i < next \<and> next \<le> length s"
  unfolding quoted_or_comment_span_def by (blast dest: scan_span_bounds)

section \<open>Words, lines and blanks\<close>

text \<open>
  \<^verbatim>\<open>sqlparser_sqlserver_candidate_mask\<close>: the bits 1, 2, 4, 8, 16 as a set of names, and the test made
  at one byte.
\<close>

datatype candidate =
    CANDIDATE_INSERT | CANDIDATE_MERGE | CANDIDATE_OUTPUT | CANDIDATE_CONTROL | CANDIDATE_DELETE

definition candidate_at :: "string \<Rightarrow> nat \<Rightarrow> candidate set" where
  "candidate_at s pos =
     (let c = c_tolower (char_at s pos)
      in if c = CHR ''d'' then (if word_at s pos ''delete'' then {CANDIDATE_DELETE} else {})
         else if c = CHR ''e'' then (if word_at s pos ''else'' then {CANDIDATE_CONTROL} else {})
         else if c = CHR ''i''
         then (if word_at s pos ''if'' then {CANDIDATE_CONTROL}
               else if word_at s pos ''insert'' then {CANDIDATE_INSERT} else {})
         else if c = CHR ''m'' then (if word_at s pos ''merge'' then {CANDIDATE_MERGE} else {})
         else if c = CHR ''o'' then (if word_at s pos ''output'' then {CANDIDATE_OUTPUT} else {})
         else {})"

function candidate_loop :: "string \<Rightarrow> nat \<Rightarrow> candidate set \<Rightarrow> candidate set" where
  "candidate_loop s pos found =
     (if char_at s pos = NUL then found
      else if can_copy_quoted_or_comment (Some s) pos \<and> skip_quoted_or_comment_span s pos > pos
      then candidate_loop s (skip_quoted_or_comment_span s pos) found
      else candidate_loop s (pos + 1) (found \<union> candidate_at s pos))"
  by pat_completeness auto
termination
  by (relation "measure (\<lambda>(s, pos, found). length s - pos)") (auto dest!: char_at_less)

definition candidate_mask :: "string option \<Rightarrow> candidate set" where
  "candidate_mask text_opt = (case text_opt of None \<Rightarrow> {} | Some s \<Rightarrow> candidate_loop s 0 {})"

definition is_line_break :: "char \<Rightarrow> bool" where
  "is_line_break c = (c = LF \<or> c = CR)"

text \<open>The start of the line: the first loop of \<^verbatim>\<open>sqlparser_sqlserver_line_is_go\<close>.\<close>

fun line_start_of :: "string \<Rightarrow> nat \<Rightarrow> nat" where
  "line_start_of s 0 = 0"
| "line_start_of s (Suc p) = (if is_line_break (char_at s p) then Suc p else line_start_of s p)"

text \<open>The second loop: only blanks and comments between the start of the line and the word.\<close>

function only_blanks :: "string \<Rightarrow> nat \<Rightarrow> nat \<Rightarrow> bool" where
  "only_blanks s line_start pos =
     (if line_start < pos
      then if c_isspace (char_at s line_start) then only_blanks s (line_start + 1) pos
           else if char_at s line_start \<noteq> CHR ''/'' \<or> char_at s (line_start + 1) \<noteq> CHR ''*''
           then False
           else case quoted_or_comment_span s line_start 0 of
                  (Some e, n) \<Rightarrow> False
                | (None, n) \<Rightarrow> if n > pos then False else only_blanks s n pos
      else line_start = pos)"
  by pat_completeness auto
termination
  by (relation "measure (\<lambda>(s, line_start, pos). pos - line_start)")
     (auto dest!: quoted_span_bounds [OF sym] intro: diff_less_mono2)

text \<open>The rest of the line behind the word; \<open>None\<close> when it is not the line of a GO.\<close>

function go_tail :: "string \<Rightarrow> nat \<Rightarrow> nat option" where
  "go_tail s pos =
     (if char_at s pos = NUL \<or> is_line_break (char_at s pos) then Some pos
      else if c_isspace (char_at s pos) \<or> c_isdigit (char_at s pos) then go_tail s (pos + 1)
      else if char_at s pos = CHR ''-'' \<and> char_at s (pos + 1) = CHR ''-''
      then Some (scan_while (\<lambda>c. c \<noteq> NUL \<and> \<not> is_line_break c) s (length s) pos)
      else if char_at s pos \<noteq> CHR ''/'' \<or> char_at s (pos + 1) \<noteq> CHR ''*'' then None
      else case quoted_or_comment_span s pos 0 of
             (Some e, n) \<Rightarrow> None
           | (None, n) \<Rightarrow>
               if (\<exists>c \<in> set (slice s pos n). is_line_break c) then None else go_tail s n)"
  by pat_completeness auto
termination
  by (relation "measure (\<lambda>(s, pos). length s - pos)")
     (auto dest!: quoted_span_bounds [OF sym] char_at_less intro: diff_less_mono2)

declare only_blanks.simps [simp del] go_tail.simps [simp del] candidate_loop.simps [simp del]

text \<open>\<^verbatim>\<open>sqlparser_sqlserver_line_is_go\<close>: \<^verbatim>\<open>*out_next\<close> when the line is a batch separator.\<close>

definition line_is_go :: "string option \<Rightarrow> nat \<Rightarrow> nat option" where
  "line_is_go text_opt pos =
     (if \<not> ss_ascii_word_equal text_opt pos (Some ''go'') then None
      else case text_opt of
        None \<Rightarrow> None
      | Some s \<Rightarrow>
          if \<not> only_blanks s (line_start_of s pos) pos then None
          else map_option (scan_while is_line_break s (length s)) (go_tail s (pos + 2)))"

definition ss_skip_space :: "string \<Rightarrow> nat \<Rightarrow> nat" where
  "ss_skip_space s pos = scan_while c_isspace s (length s) pos"

function ss_skip_trivia :: "string \<Rightarrow> nat \<Rightarrow> nat" where
  "ss_skip_trivia s pos =
     (if char_at s pos = NUL then pos
      else if c_isspace (char_at s pos) then ss_skip_trivia s (pos + 1)
      else if (char_at s pos \<noteq> CHR ''/'' \<or> char_at s (pos + 1) \<noteq> CHR ''*'') \<and>
              (char_at s pos \<noteq> CHR ''-'' \<or> char_at s (pos + 1) \<noteq> CHR ''-'')
      then pos
      else case quoted_or_comment_span s pos 0 of
             (Some e, n) \<Rightarrow> pos
           | (None, n) \<Rightarrow> ss_skip_trivia s n)"
  by pat_completeness auto
termination
  by (relation "measure (\<lambda>(s, pos). length s - pos)")
     (auto dest!: quoted_span_bounds [OF sym] char_at_less intro: diff_less_mono2)

declare ss_skip_trivia.simps [simp del]

definition ss_trim_left :: "string \<Rightarrow> nat \<Rightarrow> nat \<Rightarrow> nat" where
  "ss_trim_left s start end_pos = scan_while c_isspace s end_pos start"

fun ss_trim_right :: "string \<Rightarrow> nat \<Rightarrow> nat \<Rightarrow> nat" where
  "ss_trim_right s start 0 = 0"
| "ss_trim_right s start (Suc e) =
     (if Suc e > start \<and> c_isspace (char_at s e) then ss_trim_right s start e else Suc e)"

lemma go_tail_bounds: "go_tail s pos = Some q \<Longrightarrow> pos \<le> length s \<Longrightarrow> pos \<le> q \<and> q \<le> length s"
proof (induction s pos rule: go_tail.induct)
  case (1 s pos)
  consider (stop) "char_at s pos = NUL \<or> is_line_break (char_at s pos)"
    | (blank) "\<not> (char_at s pos = NUL \<or> is_line_break (char_at s pos))"
        "c_isspace (char_at s pos) \<or> c_isdigit (char_at s pos)"
    | (line) "\<not> (char_at s pos = NUL \<or> is_line_break (char_at s pos))"
        "\<not> (c_isspace (char_at s pos) \<or> c_isdigit (char_at s pos))"
        "char_at s pos = CHR ''-'' \<and> char_at s (pos + 1) = CHR ''-''"
    | (other) "\<not> (char_at s pos = NUL \<or> is_line_break (char_at s pos))"
        "\<not> (c_isspace (char_at s pos) \<or> c_isdigit (char_at s pos))"
        "\<not> (char_at s pos = CHR ''-'' \<and> char_at s (pos + 1) = CHR ''-'')"
    by blast
  then show ?case
  proof cases
    case stop
    with "1.prems" show ?thesis by (simp add: go_tail.simps [of s pos])
  next
    case blank
    then have "pos + 1 \<le> length s" using char_at_less [of s pos] by simp
    with blank 1(1) "1.prems"(1) show ?thesis by (simp add: go_tail.simps [of s pos])
  next
    case line
    with "1.prems" show ?thesis by (auto simp: go_tail.simps [of s pos] scan_while_le_length)
  next
    case other
    with "1.prems" obtain n where span: "quoted_or_comment_span s pos 0 = (None, n)"
      and "go_tail s n = Some q" and nb: "\<not> (\<exists>c \<in> set (slice s pos n). is_line_break c)"
      and c: "\<not> (char_at s pos \<noteq> CHR ''/'' \<or> char_at s (pos + 1) \<noteq> CHR ''*'')"
      by (auto simp: go_tail.simps [of s pos] split: if_splits prod.splits option.splits)
    with 1(2) [OF other c span [symmetric] refl nb] quoted_span_bounds [OF span]
    show ?thesis by simp
  qed
qed

lemma word_matches_length: "word_matches s w \<Longrightarrow> length w \<le> length s"
  by (induction s w rule: word_matches.induct) (auto split: if_splits)

lemma line_is_go_bounds:
  assumes "line_is_go (Some s) pos = Some n"
  shows "pos < n \<and> n \<le> length s"
proof -
  from assms obtain q where go: "word_at s pos ''go''" "go_tail s (pos + 2) = Some q"
    "n = scan_while is_line_break s (length s) q"
    by (auto simp: line_is_go_def split: if_splits)
  from go(1) have "word_matches (drop pos s) ''go''" by (simp add: ss_ascii_word_equal_def)
  from word_matches_length [OF this] have "pos + 2 \<le> length s" by simp
  with go_tail_bounds [OF go(2)] have "pos + 2 \<le> q" "q \<le> length s" by auto
  moreover from \<open>pos + 2 \<le> q\<close> have "pos < n"
    unfolding go(3) using scan_while_ge [of q is_line_break s "length s"] by linarith
  ultimately show ?thesis by (simp add: go(3) scan_while_le_length)
qed

section \<open>Tokens\<close>

text \<open>\<^verbatim>\<open>sqlparser_sqlserver_token_kind_t\<close> and \<^verbatim>\<open>sqlparser_sqlserver_token_t\<close>\<close>

datatype token_kind =
    TOKEN_EOF | TOKEN_WORD | TOKEN_STRING | TOKEN_QUOTED_IDENTIFIER | TOKEN_SYMBOL

record token =
  tk_kind :: token_kind
  tk_start :: nat
  tk_end :: nat
  tk_paren_depth :: nat
  tk_block_depth :: nat
  tk_case_depth :: nat
  tk_symbol :: char

definition token_word_start :: "char \<Rightarrow> bool" where
  "token_word_start c = (ss_is_ident_start c \<or> c = CHR ''@'' \<or> c = CHR ''$'')"

definition span_word_equal :: "string \<Rightarrow> nat \<Rightarrow> nat \<Rightarrow> string \<Rightarrow> bool" where
  "span_word_equal s start end_pos word =
     (end_pos - start = length word \<and>
      list_all (\<lambda>i. c_tolower (char_at s (start + i)) = c_tolower (word ! i)) [0..<length word])"

definition token_word_equal :: "string \<Rightarrow> token option \<Rightarrow> string \<Rightarrow> bool" where
  "token_word_equal s token_opt word =
     (case token_opt of
        None \<Rightarrow> False
      | Some t \<Rightarrow> tk_kind t = TOKEN_WORD \<and> span_word_equal s (tk_start t) (tk_end t) word)"

lemma gap_progress:
  assumes "scan_non_code_span s (scan_while P s e pos) e n0 = (None, n)"
  shows "pos < n \<and> n \<le> length s \<and> n \<le> e"
  using scan_span_bounds [OF assms] scan_while_ge [of pos P s e] by linarith

text \<open>The loop of \<^verbatim>\<open>sqlparser_sqlserver_peek_word\<close> over blanks and comments; \<open>None\<close> is its \<^verbatim>\<open>return 0\<close>.\<close>

function peek_gap :: "string \<Rightarrow> nat \<Rightarrow> nat \<Rightarrow> nat option" where
  "peek_gap s e pos =
     (if pos < e \<and> char_at s pos \<noteq> NUL
      then if scan_while c_isspace s e pos \<ge> e \<or> char_at s (scan_while c_isspace s e pos) = NUL
           then None
           else if \<not> can_copy_quoted_or_comment (Some s) (scan_while c_isspace s e pos) \<or>
                   char_at s (scan_while c_isspace s e pos) \<notin> {CHR ''-'', CHR ''/''}
           then Some (scan_while c_isspace s e pos)
           else case scan_non_code_span s (scan_while c_isspace s e pos) e
                       (scan_while c_isspace s e pos) of
                  (Some err, n) \<Rightarrow> None
                | (None, n) \<Rightarrow> peek_gap s e n
      else Some pos)"
  by pat_completeness auto

termination
  by (relation "measure (\<lambda>(s, e, pos). length s - pos)")
     (auto dest!: gap_progress [OF sym] char_at_less intro: diff_less_mono2)

declare peek_gap.simps [simp del]

definition peek_word :: "string \<Rightarrow> nat \<Rightarrow> nat \<Rightarrow> (nat \<times> nat) option" where
  "peek_word s pos e =
     (case peek_gap s e pos of
        None \<Rightarrow> None
      | Some p \<Rightarrow>
          if p \<ge> e \<or> \<not> token_word_start (char_at s p) then None
          else Some (p, scan_while ss_is_ident_char s e (p + 1)))"

section \<open>The token scanner\<close>

text \<open>\<^verbatim>\<open>sqlparser_sqlserver_scanner_t\<close>\<close>

record scanner =
  ss_sql :: string
  ss_end :: nat
  ss_pos :: nat
  ss_paren_depth :: nat
  ss_block_depth :: nat
  ss_case_depth :: nat
  ss_status :: status
  ss_done :: bool

definition begin_opens_block :: "scanner \<Rightarrow> nat \<Rightarrow> bool" where
  "begin_opens_block sc pos =
     (case peek_word (ss_sql sc) pos (ss_end sc) of
        None \<Rightarrow> True
      | Some (s1, e1) \<Rightarrow>
          if span_word_equal (ss_sql sc) s1 e1 ''tran'' \<or>
             span_word_equal (ss_sql sc) s1 e1 ''transaction'' \<or>
             span_word_equal (ss_sql sc) s1 e1 ''dialog'' then False
          else case peek_word (ss_sql sc) e1 (ss_end sc) of
                 None \<Rightarrow> True
               | Some (s2, e2) \<Rightarrow>
                   if span_word_equal (ss_sql sc) s1 e1 ''distributed'' \<and>
                      (span_word_equal (ss_sql sc) s2 e2 ''tran'' \<or>
                       span_word_equal (ss_sql sc) s2 e2 ''transaction'') then False
                   else if span_word_equal (ss_sql sc) s1 e1 ''conversation'' \<and>
                           span_word_equal (ss_sql sc) s2 e2 ''timer'' then False
                   else True)"

definition end_is_conversation :: "scanner \<Rightarrow> nat \<Rightarrow> bool" where
  "end_is_conversation sc pos =
     (case peek_word (ss_sql sc) pos (ss_end sc) of
        None \<Rightarrow> False
      | Some (s1, e1) \<Rightarrow> span_word_equal (ss_sql sc) s1 e1 ''conversation'')"

definition scanner_init :: "string option \<Rightarrow> nat \<Rightarrow> nat \<Rightarrow> sql_error + scanner" where
  "scanner_init sql_opt start end_pos =
     (case sql_opt of
        None \<Rightarrow> fail INVALID_ARGUMENT ''SQL Server scanner arguments are invalid''
      | Some s \<Rightarrow>
          if start > end_pos then fail INVALID_ARGUMENT ''SQL Server scanner arguments are invalid''
          else Inr \<lparr>ss_sql = s, ss_end = end_pos, ss_pos = start, ss_paren_depth = 0,
                 ss_block_depth = 0, ss_case_depth = 0, ss_status = STATUS_OK, ss_done = False\<rparr>)"

text \<open>
  One call of the scanner delivers a token, fails with the error it stores in \<^verbatim>\<open>*out_error\<close>, or
  repeats an earlier failure's status without touching the error.
\<close>

datatype scan_result = Got token | Failed sql_error | Stopped status

definition eof_token :: "nat \<Rightarrow> token" where
  "eof_token pos = \<lparr>tk_kind = TOKEN_EOF, tk_start = pos, tk_end = pos, tk_paren_depth = 0,
     tk_block_depth = 0, tk_case_depth = 0, tk_symbol = NUL\<rparr>"

definition scanner_failed :: "scanner \<Rightarrow> sql_error \<Rightarrow> scan_result \<times> scanner" where
  "scanner_failed sc err = (Failed err, sc\<lparr>ss_status := err_code err\<rparr>)"

definition scanner_finish :: "scanner \<Rightarrow> scan_result \<times> scanner" where
  "scanner_finish sc =
     (if ss_paren_depth sc \<noteq> 0
      then scanner_failed sc (sqlserver_error_at (ss_sql sc) (ss_pos sc)
             ''unterminated SQL Server parenthesized expression'')
      else if ss_case_depth sc \<noteq> 0
      then scanner_failed sc (sqlserver_error_at (ss_sql sc) (ss_pos sc)
             ''unterminated SQL Server CASE expression'')
      else if ss_block_depth sc \<noteq> 0
      then scanner_failed sc (sqlserver_error_at (ss_sql sc) (ss_pos sc)
             ''unterminated SQL Server BEGIN block'')
      else (Got (eof_token (ss_pos sc)), sc\<lparr>ss_done := True\<rparr>))"

text \<open>The first loop of \<^verbatim>\<open>sqlparser_sqlserver_scanner_next\<close>: blanks and comments.\<close>

function skip_gap :: "string \<Rightarrow> nat \<Rightarrow> nat \<Rightarrow> sql_error + nat" where
  "skip_gap s e pos =
     (if pos < e \<and> char_at s pos \<noteq> NUL
      then if scan_while c_isspace s e pos \<ge> e \<or> char_at s (scan_while c_isspace s e pos) = NUL
           then Inr (scan_while c_isspace s e pos)
           else if \<not> ((char_at s (scan_while c_isspace s e pos) = CHR ''-'' \<and>
                        ss_char_at s (scan_while c_isspace s e pos + 1) e = CHR ''-'') \<or>
                       (char_at s (scan_while c_isspace s e pos) = CHR ''/'' \<and>
                        ss_char_at s (scan_while c_isspace s e pos + 1) e = CHR ''*''))
           then Inr (scan_while c_isspace s e pos)
           else case scan_non_code_span s (scan_while c_isspace s e pos) e
                       (scan_while c_isspace s e pos) of
                  (Some err, n) \<Rightarrow> Inl err
                | (None, n) \<Rightarrow> skip_gap s e n
      else Inr pos)"
  by pat_completeness auto
termination
  by (relation "measure (\<lambda>(s, e, pos). length s - pos)")
     (auto dest!: gap_progress [OF sym] char_at_less intro: diff_less_mono2)

declare skip_gap.simps [simp del]

text \<open>
  The word branch of \<^verbatim>\<open>sqlparser_sqlserver_scanner_next\<close>, from the test for CASE on: \<open>sc\<close> already
  stands behind the word, which starts at \<open>pos\<close>.
\<close>

definition scan_word :: "scanner \<Rightarrow> nat \<Rightarrow> token \<Rightarrow> scan_result \<times> scanner" where
  "scan_word sc pos t =
     (let s = ss_sql sc; len = tk_end t - pos; c = c_tolower (char_at s pos)
      in if len = 4 \<and> c = CHR ''c'' \<and> token_word_equal s (Some t) ''case''
         then (Got t, sc\<lparr>ss_case_depth := ss_case_depth sc + 1\<rparr>)
         else if len = 5 \<and> c = CHR ''b'' \<and> token_word_equal s (Some t) ''begin''
         then if begin_opens_block sc (tk_end t)
              then (Got t, sc\<lparr>ss_block_depth := ss_block_depth sc + 1\<rparr>)
              else (Got t, sc)
         else if len = 3 \<and> c = CHR ''e'' \<and> token_word_equal s (Some t) ''end''
         then if ss_case_depth sc > 0
              then (Got t, sc\<lparr>ss_case_depth := ss_case_depth sc - 1\<rparr>)
              else if \<not> end_is_conversation sc (tk_end t)
              then if ss_block_depth sc = 0
                   then scanner_failed sc (sqlserver_error_at s pos ''unmatched SQL Server END'')
                   else (Got t, sc\<lparr>ss_block_depth := ss_block_depth sc - 1\<rparr>)
              else (Got t, sc)
         else (Got t, sc))"

text \<open>The last branch: any other byte is a symbol.\<close>

definition scan_symbol :: "scanner \<Rightarrow> nat \<Rightarrow> token \<Rightarrow> scan_result \<times> scanner" where
  "scan_symbol sc pos t =
     (let c = char_at (ss_sql sc) pos;
          t = t\<lparr>tk_kind := TOKEN_SYMBOL, tk_symbol := c, tk_end := pos + 1\<rparr>;
          sc = sc\<lparr>ss_pos := pos + 1\<rparr>
      in if c = CHR ''('' then (Got t, sc\<lparr>ss_paren_depth := ss_paren_depth sc + 1\<rparr>)
         else if c = CHR '')''
         then if ss_paren_depth sc = 0
              then scanner_failed sc (sqlserver_error_at (ss_sql sc) pos
                     ''unmatched SQL Server closing parenthesis'')
              else (Got t, sc\<lparr>ss_paren_depth := ss_paren_depth sc - 1\<rparr>)
         else (Got t, sc))"

text \<open>Quoted text of one kind, from \<open>from\<close> on, as the token \<open>t\<close>.\<close>

definition scan_quoted :: "scanner \<Rightarrow> nat \<Rightarrow> token \<Rightarrow> scan_result \<times> scanner" where
  "scan_quoted sc start t =
     (case scan_non_code_span (ss_sql sc) start (ss_end sc) start of
        (Some err, next) \<Rightarrow> scanner_failed sc err
      | (None, next) \<Rightarrow> (Got (t\<lparr>tk_end := next\<rparr>), sc\<lparr>ss_pos := next\<rparr>))"

text \<open>The token that starts at \<^verbatim>\<open>scanner->pos\<close>, which holds a byte.\<close>

definition scan_token :: "scanner \<Rightarrow> scan_result \<times> scanner" where
  "scan_token sc =
     (let s = ss_sql sc; pos = ss_pos sc; c = char_at s pos;
          t = \<lparr>tk_kind = TOKEN_EOF, tk_start = pos, tk_end = 0, tk_paren_depth = ss_paren_depth sc,
               tk_block_depth = ss_block_depth sc, tk_case_depth = ss_case_depth sc,
               tk_symbol = NUL\<rparr>
      in if (c = CHR ''N'' \<or> c = CHR ''n'') \<and> ss_char_at s (pos + 1) (ss_end sc) = QUOTE
         then scan_quoted sc (pos + 1) (t\<lparr>tk_kind := TOKEN_STRING\<rparr>)
         else if c = QUOTE \<or> c = CHR 0x22 \<or> c = CHR ''[''
         then scan_quoted sc pos
                (t\<lparr>tk_kind := (if c = QUOTE then TOKEN_STRING else TOKEN_QUOTED_IDENTIFIER)\<rparr>)
         else if token_word_start c
         then let next = scan_while ss_is_ident_char s (ss_end sc) (pos + 1)
              in scan_word (sc\<lparr>ss_pos := next\<rparr>) pos (t\<lparr>tk_kind := TOKEN_WORD, tk_end := next\<rparr>)
         else scan_symbol sc pos t)"

definition scanner_next :: "scanner \<Rightarrow> scan_result \<times> scanner" where
  "scanner_next sc =
     (if ss_status sc \<noteq> STATUS_OK then (Stopped (ss_status sc), sc)
      else if ss_done sc then (Got (eof_token (ss_pos sc)), sc)
      else case skip_gap (ss_sql sc) (ss_end sc) (ss_pos sc) of
             Inl err \<Rightarrow> scanner_failed sc err
           | Inr pos \<Rightarrow>
               if pos \<ge> ss_end sc \<or> char_at (ss_sql sc) pos = NUL
               then scanner_finish (sc\<lparr>ss_pos := pos\<rparr>)
               else scan_token (sc\<lparr>ss_pos := pos\<rparr>))"

section \<open>One call of the scanner\<close>

lemma skip_gap_bounds:
  "skip_gap s e pos = Inr p \<Longrightarrow>
     pos \<le> p \<and> (pos \<le> e \<longrightarrow> p \<le> e) \<and> (pos \<le> length s \<longrightarrow> p \<le> length s)"
proof (induction s e pos rule: skip_gap.induct)
  case (1 s e pos)
  let ?q = "scan_while c_isspace s e pos"
  have q: "pos \<le> ?q" "pos \<le> e \<longrightarrow> ?q \<le> e" "pos \<le> length s \<longrightarrow> ?q \<le> length s"
    by (simp_all add: scan_while_le_end scan_while_le_length)
  show ?case
  proof (cases "scan_non_code_span s ?q e ?q")
    case (Pair err n)
    show ?thesis
    proof (cases "skip_gap s e pos = Inr ?q \<or> skip_gap s e pos = Inr pos")
      case True
      then have "p = ?q \<or> p = pos" using "1.prems" by auto
      then show ?thesis using q by blast
    next
      case False
      then have step: "err = None" "skip_gap s e n = Inr p"
        using "1.prems"(1) Pair
        by (simp_all add: skip_gap.simps [of s e pos] split: if_splits option.splits)
      have "pos < n \<and> n \<le> length s \<and> n \<le> e" using gap_progress Pair step(1) by metis
      moreover have "n \<le> p \<and> (n \<le> e \<longrightarrow> p \<le> e) \<and> (n \<le> length s \<longrightarrow> p \<le> length s)"
        using False step Pair
        by (intro "1.IH" [OF _ _ _ Pair [symmetric]])
           (auto simp: skip_gap.simps [of s e pos] split: if_splits)
      ultimately show ?thesis by simp
    qed
  qed
qed

text \<open>
  What a token says of the scanner that found it and of the one that stands behind it.  The state
  of the scanner is well-formed when its position is inside the bound and the text.
\<close>

definition scanner_ok :: "scanner \<Rightarrow> bool" where
  "scanner_ok sc = (ss_pos sc \<le> ss_end sc \<and> ss_pos sc \<le> length (ss_sql sc))"

definition token_fits :: "scanner \<Rightarrow> token \<Rightarrow> scanner \<Rightarrow> bool" where
  "token_fits sc t sc' =
     (ss_sql sc' = ss_sql sc \<and> ss_end sc' = ss_end sc \<and> ss_status sc' = ss_status sc \<and>
      ss_done sc' = ss_done sc \<and> tk_kind t \<noteq> TOKEN_EOF \<and>
      tk_start t = ss_pos sc \<and> tk_start t < tk_end t \<and> tk_end t = ss_pos sc' \<and>
      tk_end t \<le> ss_end sc \<and> tk_end t \<le> length (ss_sql sc) \<and>
      tk_paren_depth t = ss_paren_depth sc \<and> tk_block_depth t = ss_block_depth sc \<and>
      tk_case_depth t = ss_case_depth sc)"

lemma scan_quoted_fits:
  assumes "scan_quoted sc start t = (Got t', sc')" "ss_pos sc \<le> start" "tk_kind t \<noteq> TOKEN_EOF"
    "tk_start t = ss_pos sc" "tk_paren_depth t = ss_paren_depth sc"
    "tk_block_depth t = ss_block_depth sc" "tk_case_depth t = ss_case_depth sc"
  shows "token_fits sc t' sc'"
  using assms scan_span_bounds [of "ss_sql sc" start "ss_end sc" start]
  by (auto simp: scan_quoted_def scanner_failed_def token_fits_def split: prod.splits option.splits)

lemma scan_word_fits:
  assumes "scan_word sc pos t = (Got t', sc')"
  shows "t' = t \<and> ss_sql sc' = ss_sql sc \<and> ss_end sc' = ss_end sc \<and> ss_pos sc' = ss_pos sc \<and>
    ss_status sc' = ss_status sc \<and> ss_done sc' = ss_done sc \<and>
    ss_paren_depth sc' = ss_paren_depth sc"
  using assms by (auto simp: scan_word_def scanner_failed_def Let_def split: if_splits)

lemma scan_token_fits:
  assumes "scan_token sc = (Got t, sc')" "ss_pos sc < ss_end sc" "char_at (ss_sql sc) (ss_pos sc) \<noteq> NUL"
  shows "token_fits sc t sc'"
proof -
  let ?c = "char_at (ss_sql sc) (ss_pos sc)"
  let ?n = "scan_while ss_is_ident_char (ss_sql sc) (ss_end sc) (ss_pos sc + 1)"
  have len: "ss_pos sc < length (ss_sql sc)" using assms(3) by (rule char_at_less)
  have n: "ss_pos sc + 1 \<le> ?n" "?n \<le> ss_end sc" "?n \<le> length (ss_sql sc)"
    using assms(2) len by (simp_all only: scan_while_ge, simp_all add: scan_while_le_end scan_while_le_length)
  consider (national) "(?c = CHR ''N'' \<or> ?c = CHR ''n'') \<and>
        ss_char_at (ss_sql sc) (ss_pos sc + 1) (ss_end sc) = QUOTE"
    | (quoted) "\<not> ((?c = CHR ''N'' \<or> ?c = CHR ''n'') \<and>
        ss_char_at (ss_sql sc) (ss_pos sc + 1) (ss_end sc) = QUOTE)"
        "?c = QUOTE \<or> ?c = CHR 0x22 \<or> ?c = CHR ''[''"
    | (word) "\<not> ((?c = CHR ''N'' \<or> ?c = CHR ''n'') \<and>
        ss_char_at (ss_sql sc) (ss_pos sc + 1) (ss_end sc) = QUOTE)"
        "\<not> (?c = QUOTE \<or> ?c = CHR 0x22 \<or> ?c = CHR ''['')" "token_word_start ?c"
    | (symbol) "\<not> ((?c = CHR ''N'' \<or> ?c = CHR ''n'') \<and>
        ss_char_at (ss_sql sc) (ss_pos sc + 1) (ss_end sc) = QUOTE)"
        "\<not> (?c = QUOTE \<or> ?c = CHR 0x22 \<or> ?c = CHR ''['')" "\<not> token_word_start ?c"
    by blast
  then show ?thesis
  proof cases
    case national
    with assms(1) show ?thesis
      unfolding scan_token_def Let_def if_P [OF national]
      by (intro scan_quoted_fits [of sc "ss_pos sc + 1"]) (auto split: if_splits)
  next
    case quoted
    with assms(1) show ?thesis
      unfolding scan_token_def Let_def if_not_P [OF quoted(1)] if_P [OF quoted(2)]
      by (intro scan_quoted_fits [of sc "ss_pos sc"]) (auto split: if_splits)
  next
    case word
    from assms(1) have eq: "scan_word (sc\<lparr>ss_pos := ?n\<rparr>) (ss_pos sc)
        \<lparr>tk_kind = TOKEN_WORD, tk_start = ss_pos sc, tk_end = ?n,
         tk_paren_depth = ss_paren_depth sc, tk_block_depth = ss_block_depth sc,
         tk_case_depth = ss_case_depth sc, tk_symbol = NUL\<rparr> = (Got t, sc')"
      unfolding scan_token_def Let_def if_not_P [OF word(1)] if_not_P [OF word(2)] if_P [OF word(3)]
      by simp
    have "ss_pos sc < ?n" by (rule Suc_le_lessD) simp
    with scan_word_fits [OF eq] n(2,3) show ?thesis by (simp add: token_fits_def)
  next
    case symbol
    from assms(1) show ?thesis
      unfolding scan_token_def Let_def if_not_P [OF symbol(1)] if_not_P [OF symbol(2)]
        if_not_P [OF symbol(3)]
      using assms(2) len
      by (auto simp: scan_symbol_def scanner_failed_def token_fits_def Let_def split: if_splits)
  qed
qed

lemma scanner_finish_got:
  assumes "scanner_finish sc = (Got t, sc')"
  shows "t = eof_token (ss_pos sc) \<and> sc' = sc\<lparr>ss_done := True\<rparr> \<and>
    ss_paren_depth sc = 0 \<and> ss_case_depth sc = 0 \<and> ss_block_depth sc = 0"
  using assms by (auto simp: scanner_finish_def scanner_failed_def split: if_splits)

text \<open>A call that delivers a token other than the end skipped a gap and scanned that token.\<close>

lemma scanner_next_token:
  assumes "scanner_next sc = (Got t, sc')" "tk_kind t \<noteq> TOKEN_EOF"
  shows "ss_status sc = STATUS_OK \<and> \<not> ss_done sc \<and> ss_pos sc \<le> tk_start t \<and>
    token_fits (sc\<lparr>ss_pos := tk_start t\<rparr>) t sc' \<and>
    scan_token (sc\<lparr>ss_pos := tk_start t\<rparr>) = (Got t, sc')"
proof (cases "ss_status sc \<noteq> STATUS_OK \<or> ss_done sc")
  case True
  with assms show ?thesis by (auto simp: scanner_next_def eof_token_def split: if_splits)
next
  case False
  then show ?thesis
  proof (cases "skip_gap (ss_sql sc) (ss_end sc) (ss_pos sc)")
    case (Inl err)
    with False assms show ?thesis by (simp add: scanner_next_def scanner_failed_def)
  next
    case (Inr pos)
    let ?sc = "sc\<lparr>ss_pos := pos\<rparr>"
    have inside: "\<not> (pos \<ge> ss_end sc \<or> char_at (ss_sql sc) pos = NUL)"
      using False Inr assms scanner_finish_got [of ?sc t sc']
      by (auto simp: scanner_next_def eof_token_def split: if_splits)
    then have tok: "scan_token ?sc = (Got t, sc')" using False Inr assms(1) by (simp add: scanner_next_def)
    have fits: "token_fits ?sc t sc'" using inside by (intro scan_token_fits [OF tok]) auto
    then have "tk_start t = pos" by (simp add: token_fits_def)
    with False tok fits skip_gap_bounds [OF Inr] show ?thesis by simp
  qed
qed

text \<open>A call that delivers the end has no open depth, or the end had been delivered before.\<close>

lemma scanner_next_eof:
  assumes "scanner_next sc = (Got t, sc')" "tk_kind t = TOKEN_EOF"
  shows "ss_status sc = STATUS_OK \<and> t = eof_token (ss_pos sc') \<and> ss_done sc' \<and> ss_pos sc \<le> ss_pos sc' \<and>
    ss_status sc' = STATUS_OK \<and> (ss_done sc \<longrightarrow> sc' = sc) \<and>
    (\<not> ss_done sc \<longrightarrow> ss_paren_depth sc = 0 \<and> ss_case_depth sc = 0 \<and> ss_block_depth sc = 0 \<and>
       (ss_end sc \<le> ss_pos sc' \<or> char_at (ss_sql sc) (ss_pos sc') = NUL))"
proof (cases "ss_status sc \<noteq> STATUS_OK \<or> ss_done sc")
  case True
  with assms show ?thesis by (auto simp: scanner_next_def split: if_splits)
next
  case False
  then show ?thesis
  proof (cases "skip_gap (ss_sql sc) (ss_end sc) (ss_pos sc)")
    case (Inl err)
    with False assms show ?thesis by (simp add: scanner_next_def scanner_failed_def)
  next
    case (Inr pos)
    let ?sc = "sc\<lparr>ss_pos := pos\<rparr>"
    have outside: "pos \<ge> ss_end sc \<or> char_at (ss_sql sc) pos = NUL"
      using False Inr assms scan_token_fits [of ?sc t sc']
      by (force simp: scanner_next_def token_fits_def split: if_splits)
    then have "scanner_finish ?sc = (Got t, sc')" using False Inr assms(1) by (simp add: scanner_next_def)
    from scanner_finish_got [OF this] False outside skip_gap_bounds [OF Inr] show ?thesis by auto
  qed
qed

section \<open>The searches\<close>

lemma scanner_next_progress:
  assumes "scanner_next sc = (Got t, sc')" "tk_kind t \<noteq> TOKEN_EOF"
  shows "length (ss_sql sc') - ss_pos sc' < length (ss_sql sc) - ss_pos sc"
  using scanner_next_token [OF assms] by (auto simp: token_fits_def)

text \<open>
  The loop of \<^verbatim>\<open>sqlparser_sqlserver_statement_end\<close>, \<^verbatim>\<open>find_top_level_char\<close> and
  \<^verbatim>\<open>find_top_level_word\<close>: call the scanner until it fails, delivers the end, or delivers a token
  the search accepts.
\<close>

function scan_find :: "(token \<Rightarrow> bool) \<Rightarrow> scanner \<Rightarrow> token option" where
  "scan_find accept sc =
     (case scanner_next sc of
        (Got t, sc') \<Rightarrow>
          if tk_kind t = TOKEN_EOF then None
          else if accept t then Some t
          else scan_find accept sc'
      | (Failed err, sc') \<Rightarrow> None
      | (Stopped st, sc') \<Rightarrow> None)"
  by pat_completeness auto

termination
  by (relation "measure (\<lambda>(accept, sc). length (ss_sql sc) - ss_pos sc)")
     (auto dest: scanner_next_progress [OF sym])

declare scan_find.simps [simp del]

definition top_level_symbol :: "char \<Rightarrow> token \<Rightarrow> bool" where
  "top_level_symbol target t =
     (tk_kind t = TOKEN_SYMBOL \<and> tk_symbol t = target \<and> tk_paren_depth t = 0 \<and>
      tk_block_depth t = 0 \<and> tk_case_depth t = 0)"

definition statement_end :: "string option \<Rightarrow> nat \<Rightarrow> nat \<Rightarrow> nat" where
  "statement_end sql_opt start end_pos =
     (case sql_opt of
        None \<Rightarrow> start
      | Some s \<Rightarrow>
          if start \<ge> end_pos \<or> CHR '';'' \<notin> set (slice s start end_pos) then end_pos
          else case scanner_init sql_opt start end_pos of
                 Inl err \<Rightarrow> end_pos
               | Inr sc \<Rightarrow>
                   (case scan_find (top_level_symbol (CHR '';'')) sc of
                      None \<Rightarrow> end_pos
                    | Some t \<Rightarrow> tk_start t))"

definition find_top_level_char :: "string option \<Rightarrow> nat \<Rightarrow> nat \<Rightarrow> char \<Rightarrow> nat option" where
  "find_top_level_char input start end_pos target =
     (if input = None \<or> start > end_pos then None
      else case scanner_init input start end_pos of
             Inl err \<Rightarrow> None
           | Inr sc \<Rightarrow> map_option tk_start (scan_find (top_level_symbol target) sc))"

definition find_top_level_word ::
  "string option \<Rightarrow> nat \<Rightarrow> nat \<Rightarrow> string option \<Rightarrow> nat option" where
  "find_top_level_word input start end_pos word_opt =
     (case (input, word_opt) of
        (Some s, Some word) \<Rightarrow>
          if word = [] \<or> start > end_pos then None
          else (case scanner_init input start end_pos of
                  Inl err \<Rightarrow> None
                | Inr sc \<Rightarrow>
                    map_option tk_start
                      (scan_find (\<lambda>t. tk_paren_depth t = 0 \<and> tk_block_depth t = 0 \<and>
                          tk_case_depth t = 0 \<and> token_word_equal s (Some t) word) sc))
      | _ \<Rightarrow> None)"

lemma char_at_parens:
  "char_at s i = CHR ''('' \<Longrightarrow> i < length s" "char_at s i = CHR '')'' \<Longrightarrow> i < length s"
  by (auto intro: char_at_less)

text \<open>
  The loop of \<^verbatim>\<open>sqlparser_sqlserver_find_matching_paren\<close>: the position of the parenthesis that
  closes the last of \<open>depth\<close> open ones.
\<close>

function matching_loop :: "string \<Rightarrow> nat \<Rightarrow> nat \<Rightarrow> nat option" where
  "matching_loop s depth pos =
     (if char_at s pos = NUL then None
      else if can_copy_quoted_or_comment (Some s) pos
      then case quoted_or_comment_span s pos pos of
             (Some err, n) \<Rightarrow> None
           | (None, n) \<Rightarrow> matching_loop s depth n
      else if char_at s pos = CHR ''('' then matching_loop s (depth + 1) (pos + 1)
      else if char_at s pos = CHR '')''
      then if depth - 1 = 0 then Some pos else matching_loop s (depth - 1) (pos + 1)
      else matching_loop s depth (pos + 1))"
  by pat_completeness auto
termination
  by (relation "measure (\<lambda>(s, depth, pos). length s - pos)")
     (auto dest!: quoted_span_bounds [OF sym] char_at_less char_at_parens intro: diff_less_mono2)

declare matching_loop.simps [simp del]

definition find_matching_paren :: "string option \<Rightarrow> nat \<Rightarrow> (nat \<times> nat) option" where
  "find_matching_paren input open_pos =
     (case input of
        None \<Rightarrow> None
      | Some s \<Rightarrow>
          if char_at s open_pos \<noteq> CHR ''('' then None
          else map_option (\<lambda>p. (p, p + 1)) (matching_loop s 1 (open_pos + 1)))"

section \<open>Sources of tokens\<close>

text \<open>
  What a source delivers in a run of calls, and the contract of a source that always moves on: a
  delivered item starts at or behind the position, is not empty and ends where the source goes on.
\<close>

primrec delivers :: "('s \<Rightarrow> ('t \<times> 's) option) \<Rightarrow> 's \<Rightarrow> 't list \<Rightarrow> 's \<Rightarrow> bool" where
  "delivers step s [] s' = (s' = s)"
| "delivers step s (t # ts) s' =
     (case step s of None \<Rightarrow> False | Some (u, s1) \<Rightarrow> u = t \<and> delivers step s1 ts s')"

lemma delivers_append:
  "delivers step s (ts @ us) s' \<longleftrightarrow> (\<exists>s1. delivers step s ts s1 \<and> delivers step s1 us s')"
  by (induction ts arbitrary: s) (auto split: option.splits)

locale item_source =
  fixes step :: "'s \<Rightarrow> ('t \<times> 's) option"
    and pos :: "'s \<Rightarrow> nat"
    and limit :: "'s \<Rightarrow> nat"
    and first :: "'t \<Rightarrow> nat"
    and behind :: "'t \<Rightarrow> nat"
  assumes moves_on: "step s = Some (t, s') \<Longrightarrow>
      pos s \<le> first t \<and> first t < behind t \<and> behind t \<le> pos s' \<and> pos s' \<le> limit s \<and>
      limit s' = limit s"
begin

lemma run_end:
  "delivers step s ts s' \<Longrightarrow> limit s' = limit s \<and> pos s + length ts \<le> pos s' \<and>
     (ts \<noteq> [] \<longrightarrow> pos s' \<le> limit s)"
proof (induction ts arbitrary: s)
  case (Cons t ts)
  then obtain s1 where "step s = Some (t, s1)" "delivers step s1 ts s'"
    by (auto split: option.splits)
  with Cons.IH [of s1] moves_on [of s t s1] show ?case by (cases ts) auto
qed simp

lemma run_inside:
  "delivers step s ts s' \<Longrightarrow> t \<in> set ts \<Longrightarrow>
     pos s \<le> first t \<and> first t < behind t \<and> behind t \<le> limit s"
proof (induction ts arbitrary: s)
  case (Cons u ts)
  then obtain s1 where "step s = Some (u, s1)" "delivers step s1 ts s'"
    by (auto split: option.splits)
  with Cons.IH [of s1] Cons.prems(2) moves_on [of s u s1] show ?case by fastforce
qed simp

lemma run_ordered:
  "delivers step s ts s' \<Longrightarrow> sorted_wrt (\<lambda>t u. behind t \<le> first u) ts"
proof (induction ts arbitrary: s)
  case (Cons t ts)
  then obtain s1 where "step s = Some (t, s1)" "delivers step s1 ts s'"
    by (auto split: option.splits)
  with Cons.IH [of s1] moves_on [of s t s1] run_inside [of s1 ts s'] show ?case by fastforce
qed simp

end

text \<open>A call of the scanner that is neither a failure nor the end.\<close>

definition next_token :: "scanner \<Rightarrow> (token \<times> scanner) option" where
  "next_token sc =
     (case scanner_next sc of
        (Got t, sc') \<Rightarrow> if tk_kind t = TOKEN_EOF then None else Some (t, sc')
      | (Failed err, sc') \<Rightarrow> None
      | (Stopped st, sc') \<Rightarrow> None)"

lemma next_token_Some:
  "next_token sc = Some (t, sc') \<longleftrightarrow> scanner_next sc = (Got t, sc') \<and> tk_kind t \<noteq> TOKEN_EOF"
  by (auto simp: next_token_def split: prod.splits scan_result.splits if_splits)

interpretation tokens: item_source next_token ss_pos "\<lambda>sc. min (ss_end sc) (length (ss_sql sc))"
  tk_start tk_end
  by unfold_locales (auto simp: next_token_Some token_fits_def dest!: scanner_next_token)

text \<open>The same for the bytes of code that \<^verbatim>\<open>sqlparser_sqlserver_find_matching_paren\<close> looks at.\<close>

function next_code :: "string \<Rightarrow> nat \<Rightarrow> (nat \<times> nat) option" where
  "next_code s pos =
     (if char_at s pos = NUL then None
      else if can_copy_quoted_or_comment (Some s) pos
      then case quoted_or_comment_span s pos pos of
             (Some err, n) \<Rightarrow> None
           | (None, n) \<Rightarrow> next_code s n
      else Some (pos, pos + 1))"
  by pat_completeness auto
termination
  by (relation "measure (\<lambda>(s, pos). length s - pos)")
     (auto dest!: quoted_span_bounds [OF sym] char_at_less intro: diff_less_mono2)

declare next_code.simps [simp del]

lemma next_code_bounds:
  "next_code s pos = Some (p, n) \<Longrightarrow> pos \<le> p \<and> n = p + 1 \<and> p < length s"
proof (induction s pos rule: next_code.induct)
  case (1 s pos)
  show ?case
  proof (cases "char_at s pos = NUL \<or> \<not> can_copy_quoted_or_comment (Some s) pos")
    case True
    with "1.prems" show ?thesis
      by (auto simp: next_code.simps [of s pos] split: if_splits dest: char_at_less)
  next
    case False
    then obtain m where "quoted_or_comment_span s pos pos = (None, m)" "next_code s m = Some (p, n)"
      using "1.prems"
      by (auto simp: next_code.simps [of s pos] split: if_splits option.splits prod.splits)
    with 1(1) False quoted_span_bounds [of s pos pos m] show ?thesis by fastforce
  qed
qed

interpretation code_bytes: item_source "next_code s" id "\<lambda>_. length s" id Suc for s
  by unfold_locales (auto dest: next_code_bounds)

lemma matching_loop_step:
  "matching_loop s depth pos =
     (case next_code s pos of
        None \<Rightarrow> None
      | Some (p, n) \<Rightarrow>
          if char_at s p = CHR ''('' then matching_loop s (depth + 1) n
          else if char_at s p = CHR '')''
          then if depth - 1 = 0 then Some p else matching_loop s (depth - 1) n
          else matching_loop s depth n)"
proof (induction s depth pos rule: matching_loop.induct)
  case (1 s depth pos)
  show ?case
  proof (cases "char_at s pos = NUL \<or> \<not> can_copy_quoted_or_comment (Some s) pos")
    case True
    then show ?thesis by (auto simp: matching_loop.simps [of s depth pos] next_code.simps [of s pos])
  next
    case False
    with 1(1) show ?thesis
      by (simp add: matching_loop.simps [of s depth pos] next_code.simps [of s pos]
            split: prod.split option.split)
  qed
qed

section \<open>Matching parentheses\<close>

definition opens :: "string \<Rightarrow> nat list \<Rightarrow> nat" where
  "opens s ps = length (filter (\<lambda>p. char_at s p = CHR ''('') ps)"

definition closes :: "string \<Rightarrow> nat list \<Rightarrow> nat" where
  "closes s ps = length (filter (\<lambda>p. char_at s p = CHR '')'') ps)"

text \<open>With \<open>depth\<close> open parentheses before it, no prefix of the run closes all of them.\<close>

definition stays_open :: "string \<Rightarrow> nat \<Rightarrow> nat list \<Rightarrow> bool" where
  "stays_open s depth ps =
     list_all (\<lambda>k. closes s (take k ps) < depth + opens s (take k ps)) [0..<length ps + 1]"

lemma stays_open_Nil: "stays_open s depth [] = (0 < depth)"
  by (simp add: stays_open_def opens_def closes_def)

lemma stays_open_iff:
  "stays_open s depth ps \<longleftrightarrow> (\<forall>k \<le> length ps. closes s (take k ps) < depth + opens s (take k ps))"
  by (auto simp: stays_open_def list_all_iff simp flip: less_Suc_eq_le)

lemma stays_open_none [simp]: "\<not> stays_open s 0 ps"
  by (auto simp: stays_open_iff opens_def closes_def intro!: exI [of _ "0"])

lemma all_prefixes_Cons:
  "(\<forall>k \<le> length (p # ps). P (take k (p # ps))) \<longleftrightarrow> P [] \<and> (\<forall>k \<le> length ps. P (p # take k ps))"
  by (auto simp: take_Cons split: nat.splits)

lemma stays_open_Cons:
  "stays_open s depth (p # ps) \<longleftrightarrow> 0 < depth \<and>
     (if char_at s p = CHR ''('' then stays_open s (depth + 1) ps
      else if char_at s p = CHR '')'' then stays_open s (depth - 1) ps
      else stays_open s depth ps)"
  unfolding stays_open_iff
    all_prefixes_Cons [where P = "\<lambda>xs. closes s xs < depth + opens s xs"]
  by (auto simp: opens_def closes_def less_diff_conv)

lemma matching_loop_sound:
  "matching_loop s depth pos = Some q \<Longrightarrow> 0 < depth \<Longrightarrow>
     \<exists>ps. delivers (next_code s) pos (ps @ [q]) (q + 1) \<and> char_at s q = CHR '')'' \<and>
       stays_open s depth ps \<and> depth + opens s ps = closes s ps + 1"
proof (induction "length s - pos" arbitrary: pos depth rule: less_induct)
  case less
  then obtain p n where code: "next_code s pos = Some (p, n)"
    by (subst (asm) matching_loop_step) (auto split: option.splits)
  note n = next_code_bounds [OF code]
  show ?case
  proof (cases "char_at s p = CHR '')'' \<and> depth - 1 = 0")
    case True
    with less.prems code n have "q = p" by (subst (asm) matching_loop_step) auto
    with True code n less.prems(2) show ?thesis
      by (intro exI [of _ "[]"]) (auto simp: stays_open_Nil opens_def closes_def)
  next
    case False
    define d where "d = (if char_at s p = CHR ''('' then depth + 1
      else if char_at s p = CHR '')'' then depth - 1 else depth)"
    have "matching_loop s d n = Some q" "0 < d"
      using less.prems False code by (subst (asm) matching_loop_step, auto simp: d_def)+
    moreover have "length s - n < length s - pos" using n by (intro diff_less_mono2) auto
    ultimately obtain ps where
      "delivers (next_code s) n (ps @ [q]) (q + 1)" "char_at s q = CHR '')''"
      "stays_open s d ps" "d + opens s ps = closes s ps + 1" using less.hyps by blast
    with code False less.prems(2) show ?thesis
      by (intro exI [of _ "p # ps"])
         (auto simp: stays_open_Cons d_def opens_def closes_def split: if_splits)
  qed
qed

lemma matching_loop_complete:
  "delivers (next_code s) pos (ps @ [q]) n \<Longrightarrow> char_at s q = CHR '')'' \<Longrightarrow> stays_open s depth ps \<Longrightarrow>
     depth + opens s ps = closes s ps + 1 \<Longrightarrow> matching_loop s depth pos = Some q"
proof (induction ps arbitrary: pos depth)
  case Nil
  then show ?case
    by (subst matching_loop_step) (auto simp: opens_def closes_def split: option.splits)
next
  case (Cons p ps)
  then obtain m where code: "next_code s pos = Some (p, m)" "delivers (next_code s) m (ps @ [q]) n"
    by (auto split: option.splits)
  with Cons show ?case
    by (subst matching_loop_step)
       (auto simp: stays_open_Cons opens_def closes_def split: if_splits)
qed

section \<open>Depths and searches\<close>

text \<open>The symbol tokens for one byte in a run.\<close>

definition symbols :: "char \<Rightarrow> token list \<Rightarrow> nat" where
  "symbols c ts = length (filter (\<lambda>t. tk_kind t = TOKEN_SYMBOL \<and> tk_symbol t = c) ts)"

lemma symbols_simps [simp]:
  "symbols c [] = 0"
  "symbols c (t # ts) = (if tk_kind t = TOKEN_SYMBOL \<and> tk_symbol t = c then 1 else 0) + symbols c ts"
  by (simp_all add: symbols_def)

lemma scan_quoted_kind:
  "scan_quoted sc start t = (Got t', sc') \<Longrightarrow>
     tk_kind t' = tk_kind t \<and> ss_paren_depth sc' = ss_paren_depth sc"
  by (auto simp: scan_quoted_def scanner_failed_def split: prod.splits option.splits)

lemma scan_symbol_kind:
  assumes "scan_symbol sc pos t = (Got t', sc')"
  shows "tk_kind t' = TOKEN_SYMBOL \<and> tk_symbol t' = char_at (ss_sql sc) pos \<and>
    ss_paren_depth sc' + (if tk_symbol t' = CHR '')'' then 1 else 0)
      = ss_paren_depth sc + (if tk_symbol t' = CHR ''('' then 1 else 0)"
  using assms by (auto simp: scan_symbol_def scanner_failed_def Let_def split: if_splits)

lemma scan_token_paren:
  assumes "scan_token sc = (Got t, sc')"
  shows "(tk_kind t = TOKEN_SYMBOL \<longrightarrow> tk_symbol t = char_at (ss_sql sc) (ss_pos sc)) \<and>
    ss_paren_depth sc' + symbols (CHR '')'') [t] = ss_paren_depth sc + symbols (CHR ''('') [t]"
  using assms
  by (fastforce simp: scan_token_def Let_def split: if_splits
      dest: scan_quoted_kind scan_word_fits scan_symbol_kind)

lemma next_token_paren:
  assumes "next_token sc = Some (t, sc')"
  shows "(tk_kind t = TOKEN_SYMBOL \<longrightarrow> tk_symbol t = char_at (ss_sql sc) (tk_start t)) \<and>
    tk_paren_depth t = ss_paren_depth sc \<and>
    ss_paren_depth sc' + symbols (CHR '')'') [t] = ss_paren_depth sc + symbols (CHR ''('') [t] \<and>
    ss_sql sc' = ss_sql sc"
proof -
  from assms have "scanner_next sc = (Got t, sc')" "tk_kind t \<noteq> TOKEN_EOF"
    by (simp_all add: next_token_Some)
  note * = scanner_next_token [OF this]
  from * scan_token_paren [of "sc\<lparr>ss_pos := tk_start t\<rparr>" t sc'] show ?thesis
    by (auto simp: token_fits_def)
qed

lemma run_paren_depth:
  "delivers next_token sc ts sc' \<Longrightarrow>
     ss_paren_depth sc' + symbols (CHR '')'') ts = ss_paren_depth sc + symbols (CHR ''('') ts \<and>
     ss_sql sc' = ss_sql sc"
proof (induction ts arbitrary: sc)
  case (Cons t ts)
  then obtain s1 where "next_token sc = Some (t, s1)" "delivers next_token s1 ts sc'"
    by (auto split: option.splits)
  with Cons.IH [of s1] next_token_paren [of sc t s1] show ?case by auto
qed simp

text \<open>A search delivers the first accepted token of the run.\<close>

lemma scan_find_step:
  "scan_find accept sc =
     (case next_token sc of
        None \<Rightarrow> None
      | Some (t, sc') \<Rightarrow> if accept t then Some t else scan_find accept sc')"
  by (subst scan_find.simps) (auto simp: next_token_def split: prod.splits scan_result.splits)

lemma scan_find_iff:
  "scan_find accept sc = Some t \<longleftrightarrow>
     (\<exists>ts sc'. delivers next_token sc (ts @ [t]) sc' \<and> accept t \<and> (\<forall>u \<in> set ts. \<not> accept u))"
proof
  show "scan_find accept sc = Some t \<Longrightarrow>
      \<exists>ts sc'. delivers next_token sc (ts @ [t]) sc' \<and> accept t \<and> (\<forall>u \<in> set ts. \<not> accept u)"
  proof (induction "length (ss_sql sc) - ss_pos sc" arbitrary: sc rule: less_induct)
    case less
    then obtain u s1 where u: "next_token sc = Some (u, s1)"
      by (subst (asm) scan_find_step) (auto split: option.splits)
    show ?case
    proof (cases "accept u")
      case True
      with less.prems u have "u = t" by (subst (asm) scan_find_step) simp
      with True u show ?thesis by (intro exI [of _ "[]"]) auto
    next
      case False
      with less.prems u have "scan_find accept s1 = Some t" by (subst (asm) scan_find_step) simp
      moreover have "length (ss_sql s1) - ss_pos s1 < length (ss_sql sc) - ss_pos sc"
        using u by (auto simp: next_token_Some intro: scanner_next_progress)
      ultimately obtain ts sc' where "delivers next_token s1 (ts @ [t]) sc'" "accept t"
        "\<forall>u \<in> set ts. \<not> accept u" using less.hyps by blast
      with False u show ?thesis by (intro exI [of _ "u # ts"]) auto
    qed
  qed
next
  show "\<exists>ts sc'. delivers next_token sc (ts @ [t]) sc' \<and> accept t \<and> (\<forall>u \<in> set ts. \<not> accept u) \<Longrightarrow>
      scan_find accept sc = Some t"
  proof (elim exE conjE)
    fix ts sc'
    show "delivers next_token sc (ts @ [t]) sc' \<Longrightarrow> accept t \<Longrightarrow> \<forall>u \<in> set ts. \<not> accept u \<Longrightarrow>
        scan_find accept sc = Some t"
    proof (induction ts arbitrary: sc)
      case Nil
      then show ?case by (subst scan_find_step) (auto split: option.splits)
    next
      case (Cons u ts)
      then show ?case by (subst scan_find_step) (auto split: option.splits)
    qed
  qed
qed

text \<open>The scanner a search starts with.\<close>

lemma scanner_init_some:
  "scanner_init (Some s) start e = Inr sc \<longleftrightarrow>
     start \<le> e \<and> sc = \<lparr>ss_sql = s, ss_end = e, ss_pos = start, ss_paren_depth = 0,
       ss_block_depth = 0, ss_case_depth = 0, ss_status = STATUS_OK, ss_done = False\<rparr>"
  by (auto simp: scanner_init_def)

lemma found_symbol_inside:
  assumes "scan_find (top_level_symbol c) sc = Some t"
  shows "ss_pos sc \<le> tk_start t \<and> tk_start t < ss_end sc \<and> tk_start t < length (ss_sql sc) \<and>
    char_at (ss_sql sc) (tk_start t) = c"
proof -
  from assms obtain ts sc' where run: "delivers next_token sc (ts @ [t]) sc'" and
    acc: "top_level_symbol c t" by (auto simp: scan_find_iff)
  from run obtain s1 where s1: "delivers next_token sc ts s1" "next_token s1 = Some (t, sc')"
    by (auto simp: delivers_append split: option.splits)
  have "ss_pos sc \<le> tk_start t \<and> tk_start t < tk_end t \<and>
      tk_end t \<le> min (ss_end sc) (length (ss_sql sc))"
    using tokens.run_inside [OF run] by simp
  moreover have "char_at (ss_sql sc) (tk_start t) = c"
    using next_token_paren [OF s1(2)] run_paren_depth [OF s1(1)] acc by (simp add: top_level_symbol_def)
  ultimately show ?thesis by auto
qed

lemma slice_member: "a \<le> p \<Longrightarrow> p < b \<Longrightarrow> p < length s \<Longrightarrow> char_at s p \<in> set (slice s a b)"
  by (auto simp: slice_def char_at_def in_set_conv_nth intro!: exI [of _ "p - a"])

lemma statement_end_finds:
  assumes "start \<le> e"
  shows "statement_end (Some s) start e =
    (case find_top_level_char (Some s) start e (CHR '';'') of None \<Rightarrow> e | Some p \<Rightarrow> p)"
proof -
  obtain sc where sc: "scanner_init (Some s) start e = Inr sc"
    using assms by (simp add: scanner_init_some)
  then have fields: "ss_sql sc = s" "ss_end sc = e" "ss_pos sc = start"
    by (auto simp: scanner_init_some)
  have "scan_find (top_level_symbol (CHR '';'')) sc = None"
    if "start \<ge> e \<or> CHR '';'' \<notin> set (slice s start e)"
  proof (rule ccontr)
    assume "scan_find (top_level_symbol (CHR '';'')) sc \<noteq> None"
    then obtain t where "scan_find (top_level_symbol (CHR '';'')) sc = Some t" by auto
    from found_symbol_inside [OF this] that fields slice_member [of start "tk_start t" e s]
    show False by auto
  qed
  with assms sc show ?thesis
    by (auto simp: statement_end_def find_top_level_char_def split: option.splits)
qed

lemma statement_end_range:
  assumes "start \<le> e" "statement_end (Some s) start e = p"
  shows "start \<le> p \<and> p \<le> e \<and> (p < e \<longrightarrow> p < length s \<and> s ! p = CHR '';'')"
proof -
  obtain sc where sc: "scanner_init (Some s) start e = Inr sc"
    using assms by (simp add: scanner_init_some)
  then have fields: "ss_sql sc = s" "ss_end sc = e" "ss_pos sc = start"
    by (auto simp: scanner_init_some)
  show ?thesis
  proof (cases "scan_find (top_level_symbol (CHR '';'')) sc")
    case None
    with sc assms show ?thesis by (auto simp: statement_end_finds find_top_level_char_def)
  next
    case (Some t)
    with sc assms have "p = tk_start t" by (auto simp: statement_end_finds find_top_level_char_def)
    with found_symbol_inside [OF Some] fields show ?thesis by (auto simp: char_at_def)
  qed
qed

section \<open>What is open\<close>

text \<open>
  The parentheses, blocks and CASE expressions that the tokens before a point have opened and not
  closed, read off the tokens and the text alone: BEGIN opens a block unless what follows makes it the
  begin of a transaction or a conversation, and END closes the CASE that is open, or else the block.
\<close>

definition starts_block :: "string \<Rightarrow> nat \<Rightarrow> token \<Rightarrow> bool" where
  "starts_block s e t \<longleftrightarrow>
     pred_option (\<lambda>(a, b).
       \<not> list_ex (span_word_equal s a b) [''tran'', ''transaction'', ''dialog''] \<and>
       pred_option (\<lambda>(c, d).
         \<not> (span_word_equal s a b ''distributed'' \<and> list_ex (span_word_equal s c d) [''tran'', ''transaction'']) \<and>
         \<not> (span_word_equal s a b ''conversation'' \<and> span_word_equal s c d ''timer''))
       (peek_word s b e))
     (peek_word s (tk_end t) e)"

definition nest :: "string \<Rightarrow> nat \<Rightarrow> token \<Rightarrow> nat \<times> nat \<times> nat \<Rightarrow> nat \<times> nat \<times> nat" where
  "nest s e t = (\<lambda>(parens, blocks, cases).
     if tk_kind t = TOKEN_SYMBOL \<and> tk_symbol t = CHR ''('' then (parens + 1, blocks, cases)
     else if tk_kind t = TOKEN_SYMBOL \<and> tk_symbol t = CHR '')'' then (parens - 1, blocks, cases)
     else if token_word_equal s (Some t) ''case'' then (parens, blocks, cases + 1)
     else if token_word_equal s (Some t) ''begin'' \<and> starts_block s e t then (parens, blocks + 1, cases)
     else if token_word_equal s (Some t) ''end'' \<and> 0 < cases then (parens, blocks, cases - 1)
     else if token_word_equal s (Some t) ''end'' \<and>
        \<not> (\<exists>w \<in> set_option (peek_word s (tk_end t) e). span_word_equal s (fst w) (snd w) ''conversation'')
     then (parens, blocks - 1, cases)
     else (parens, blocks, cases))"

text \<open>The semicolon \<open>t\<close> behind the tokens \<open>ts\<close> separates statements.\<close>

definition separates :: "string \<Rightarrow> nat \<Rightarrow> token list \<Rightarrow> token \<Rightarrow> bool" where
  "separates s e ts t \<longleftrightarrow>
     tk_kind t = TOKEN_SYMBOL \<and> tk_symbol t = CHR '';'' \<and> fold (nest s e) ts (0, 0, 0) = (0, 0, 0)"

abbreviation depths :: "scanner \<Rightarrow> nat \<times> nat \<times> nat" where
  "depths sc \<equiv> (ss_paren_depth sc, ss_block_depth sc, ss_case_depth sc)"

lemma starts_block_opens: "begin_opens_block sc (tk_end t) = starts_block (ss_sql sc) (ss_end sc) t"
  by (simp add: begin_opens_block_def starts_block_def split: option.splits prod.splits) blast

lemma conversation_end:
  "end_is_conversation sc (tk_end t) \<longleftrightarrow>
     (\<exists>w \<in> set_option (peek_word (ss_sql sc) (tk_end t) (ss_end sc)).
        span_word_equal (ss_sql sc) (fst w) (snd w) ''conversation'')"
  by (simp add: end_is_conversation_def split: option.splits prod.splits)

lemma token_word_shape:
  assumes "token_word_equal s (Some t) w" "w \<noteq> []"
  shows "tk_end t - tk_start t = length w \<and> c_tolower (char_at s (tk_start t)) = c_tolower (hd w) \<and> tk_kind t = TOKEN_WORD"
  using assms by (cases w) (auto simp: token_word_equal_def span_word_equal_def list_all_iff dest!: bspec [of _ _ 0])

lemma scan_word_nest:
  assumes "scan_word sc (tk_start t) t = (Got t', sc')" "tk_kind t = TOKEN_WORD"
  shows "depths sc' = nest (ss_sql sc) (ss_end sc) t (depths sc)"
proof -
  let ?is = "token_word_equal (ss_sql sc) (Some t)"
  note shape = token_word_shape [of "ss_sql sc" t]
  have words: "(tk_end t - tk_start t = 4 \<and> c_tolower (char_at (ss_sql sc) (tk_start t)) = CHR ''c'' \<and> ?is ''case'') = ?is ''case''"
    "(tk_end t - tk_start t = 5 \<and> c_tolower (char_at (ss_sql sc) (tk_start t)) = CHR ''b'' \<and> ?is ''begin'') = ?is ''begin''"
    "(tk_end t - tk_start t = 3 \<and> c_tolower (char_at (ss_sql sc) (tk_start t)) = CHR ''e'' \<and> ?is ''end'') = ?is ''end''"
    using shape [of "''case''"] shape [of "''begin''"] shape [of "''end''"] by (auto simp: c_tolower_def)
  have apart: "\<not> (?is ''begin'' \<and> ?is ''end'')"
    using shape [of "''begin''"] shape [of "''end''"] by auto
  show ?thesis
    using assms(1) apart unfolding scan_word_def Let_def words
    by (auto simp: scanner_failed_def nest_def starts_block_opens conversation_end [symmetric] assms(2) split: if_splits)
qed

lemma scan_token_nest:
  assumes "scan_token sc = (Got t, sc')"
  shows "(tk_paren_depth t, tk_block_depth t, tk_case_depth t) = depths sc \<and>
    depths sc' = nest (ss_sql sc) (ss_end sc) t (depths sc)"
proof -
  let ?c = "char_at (ss_sql sc) (ss_pos sc)"
  have plain: "nest s e u d = d" if "tk_kind u \<noteq> TOKEN_SYMBOL" "tk_kind u \<noteq> TOKEN_WORD" for s e u d
    using that by (auto simp: nest_def token_word_equal_def split: prod.splits)
  have quoted: ?thesis
    if "scan_quoted sc from u = (Got t, sc')" "tk_kind u \<noteq> TOKEN_SYMBOL" "tk_kind u \<noteq> TOKEN_WORD"
      "(tk_paren_depth u, tk_block_depth u, tk_case_depth u) = depths sc" for "from" u
    using that by (auto simp: scan_quoted_def scanner_failed_def plain split: prod.splits option.splits)
  consider (national) "(?c = CHR ''N'' \<or> ?c = CHR ''n'') \<and> ss_char_at (ss_sql sc) (ss_pos sc + 1) (ss_end sc) = QUOTE"
    | (quote) "\<not> ((?c = CHR ''N'' \<or> ?c = CHR ''n'') \<and> ss_char_at (ss_sql sc) (ss_pos sc + 1) (ss_end sc) = QUOTE)"
      "?c = QUOTE \<or> ?c = CHR 0x22 \<or> ?c = CHR ''[''"
    | (word) "\<not> ((?c = CHR ''N'' \<or> ?c = CHR ''n'') \<and> ss_char_at (ss_sql sc) (ss_pos sc + 1) (ss_end sc) = QUOTE)"
      "\<not> (?c = QUOTE \<or> ?c = CHR 0x22 \<or> ?c = CHR ''['')" "token_word_start ?c"
    | (symbol) "\<not> ((?c = CHR ''N'' \<or> ?c = CHR ''n'') \<and> ss_char_at (ss_sql sc) (ss_pos sc + 1) (ss_end sc) = QUOTE)"
      "\<not> (?c = QUOTE \<or> ?c = CHR 0x22 \<or> ?c = CHR ''['')" "\<not> token_word_start ?c"
    by blast
  then show ?thesis
  proof cases
    case national
    show ?thesis
      using assms unfolding scan_token_def Let_def if_P [OF national] by (rule quoted) simp_all
  next
    case quote
    show ?thesis
      using assms unfolding scan_token_def Let_def if_not_P [OF quote(1)] if_P [OF quote(2)]
      by (rule quoted) simp_all
  next
    case word
    let ?n = "scan_while ss_is_ident_char (ss_sql sc) (ss_end sc) (ss_pos sc + 1)"
    let ?u = "\<lparr>tk_kind = TOKEN_WORD, tk_start = ss_pos sc, tk_end = ?n, tk_paren_depth = ss_paren_depth sc,
      tk_block_depth = ss_block_depth sc, tk_case_depth = ss_case_depth sc, tk_symbol = NUL\<rparr>"
    have eq: "scan_word (sc\<lparr>ss_pos := ?n\<rparr>) (tk_start ?u) ?u = (Got t, sc')"
      using assms unfolding scan_token_def Let_def if_not_P [OF word(1)] if_not_P [OF word(2)] if_P [OF word(3)] by simp
    from scan_word_nest [OF eq] scan_word_fits [OF eq] show ?thesis by simp
  next
    case symbol
    have eq: "scan_symbol sc (ss_pos sc) \<lparr>tk_kind = TOKEN_EOF, tk_start = ss_pos sc, tk_end = 0,
        tk_paren_depth = ss_paren_depth sc, tk_block_depth = ss_block_depth sc, tk_case_depth = ss_case_depth sc,
        tk_symbol = NUL\<rparr> = (Got t, sc')"
      using assms unfolding scan_token_def Let_def if_not_P [OF symbol(1)] if_not_P [OF symbol(2)] if_not_P [OF symbol(3)] .
    from eq scan_symbol_kind [OF eq] show ?thesis
      by (simp add: scan_symbol_def scanner_failed_def Let_def nest_def token_word_equal_def split: if_splits) auto
  qed
qed

lemma next_token_nest:
  assumes "next_token sc = Some (t, sc')"
  shows "(tk_paren_depth t, tk_block_depth t, tk_case_depth t) = depths sc \<and>
    depths sc' = nest (ss_sql sc) (ss_end sc) t (depths sc) \<and> ss_sql sc' = ss_sql sc \<and> ss_end sc' = ss_end sc"
proof -
  from assms have "scanner_next sc = (Got t, sc')" "tk_kind t \<noteq> TOKEN_EOF" by (simp_all add: next_token_Some)
  from scanner_next_token [OF this] scan_token_nest [of "sc\<lparr>ss_pos := tk_start t\<rparr>" t sc'] show ?thesis
    by (auto simp: token_fits_def)
qed

lemma run_nest:
  "delivers next_token sc ts sc' \<Longrightarrow>
     depths sc' = fold (nest (ss_sql sc) (ss_end sc)) ts (depths sc) \<and> ss_sql sc' = ss_sql sc \<and> ss_end sc' = ss_end sc"
proof (induction ts arbitrary: sc)
  case (Cons t ts)
  then obtain s1 where "next_token sc = Some (t, s1)" "delivers next_token s1 ts sc'" by (auto split: option.splits)
  with Cons.IH [of s1] next_token_nest [of sc t s1] show ?case by auto
qed simp

text \<open>A semicolon at depth zero is one with nothing open.\<close>

lemma top_level_separates:
  assumes "delivers next_token sc (ts @ t # us) sc'" "depths sc = (0, 0, 0)"
  shows "top_level_symbol (CHR '';'') t \<longleftrightarrow> separates (ss_sql sc) (ss_end sc) ts t"
proof -
  from assms(1) obtain s1 s2 where run: "delivers next_token sc ts s1" "next_token s1 = Some (t, s2)"
    by (auto simp: delivers_append split: option.splits)
  from next_token_nest [OF run(2)] run_nest [OF run(1)] assms(2)
  have "(tk_paren_depth t, tk_block_depth t, tk_case_depth t) = fold (nest (ss_sql sc) (ss_end sc)) ts (0, 0, 0)" by simp
  then show ?thesis unfolding top_level_symbol_def separates_def by (metis prod.inject)
qed

lemma scan_find_separates:
  assumes "scanner_init (Some s) start e = Inr sc"
  shows "scan_find (top_level_symbol (CHR '';'')) sc = Some t \<longleftrightarrow>
    (\<exists>ts sc'. delivers next_token sc (ts @ [t]) sc' \<and> separates s e ts t \<and>
      (\<forall>k < length ts. \<not> separates s e (take k ts) (ts ! k)))"
proof -
  have fields: "ss_sql sc = s" "ss_end sc = e" "depths sc = (0, 0, 0)" using assms by (auto simp: scanner_init_some)
  have "(top_level_symbol (CHR '';'') t \<and> (\<forall>u \<in> set ts. \<not> top_level_symbol (CHR '';'') u)) \<longleftrightarrow>
      (separates s e ts t \<and> (\<forall>k < length ts. \<not> separates s e (take k ts) (ts ! k)))"
    if run: "delivers next_token sc (ts @ [t]) sc'" for ts sc'
  proof -
    have "top_level_symbol (CHR '';'') (ts ! k) = separates s e (take k ts) (ts ! k)" if "k < length ts" for k
    proof -
      from run that have "delivers next_token sc (take k ts @ ts ! k # (drop (Suc k) ts @ [t])) sc'"
        by (simp add: id_take_nth_drop [symmetric] del: append_assoc flip: append_assoc append_Cons)
      from top_level_separates [OF this fields(3)] fields show ?thesis by simp
    qed
    moreover from top_level_separates [OF run fields(3)] fields
    have "top_level_symbol (CHR '';'') t = separates s e ts t" by simp
    ultimately show ?thesis by (auto simp: all_set_conv_all_nth)
  qed
  then show ?thesis unfolding scan_find_iff by blast
qed

section \<open>Failures\<close>

lemma span_error_code:
  "scan_non_code_span s i e n0 = (Some err, n) \<Longrightarrow> err_code err \<noteq> STATUS_OK"
  by (auto simp: scan_non_code_span_def sqlserver_error_at_def error_set_message_def Let_def
      split: if_splits prod.splits)

lemma error_at_code [simp]: "err_code (sqlserver_error_at s pos m) = PARSE_ERROR"
  by (simp add: sqlserver_error_at_def split: prod.split)

lemma skip_gap_error: "skip_gap s e pos = Inl err \<Longrightarrow> err_code err \<noteq> STATUS_OK"
proof (induction s e pos rule: skip_gap.induct)
  case (1 s e pos)
  let ?q = "scan_while c_isspace s e pos"
  show ?case
  proof (cases "scan_non_code_span s ?q e ?q")
    case (Pair f n)
    with 1 show ?thesis
      by (cases f) (auto simp: skip_gap.simps [of s e pos] split: if_splits dest: span_error_code)
  qed
qed

lemma scan_token_error: "scan_token sc = (Failed err, sc') \<Longrightarrow> err_code err \<noteq> STATUS_OK \<and> ss_status sc' = err_code err"
  by (auto simp: scan_token_def scan_quoted_def scan_word_def scan_symbol_def scanner_failed_def Let_def
      dest!: span_error_code split: if_splits prod.splits option.splits)

lemma scanner_next_failed:
  assumes "scanner_next sc = (Failed err, sc')"
  shows "err_code err \<noteq> STATUS_OK \<and> ss_status sc' = err_code err"
proof (cases "ss_status sc \<noteq> STATUS_OK \<or> ss_done sc")
  case True
  with assms show ?thesis by (auto simp: scanner_next_def split: if_splits)
next
  case False
  then show ?thesis
  proof (cases "skip_gap (ss_sql sc) (ss_end sc) (ss_pos sc)")
    case (Inl e)
    with False assms skip_gap_error [OF Inl] show ?thesis
      by (simp add: scanner_next_def scanner_failed_def) auto
  next
    case (Inr pos)
    show ?thesis
    proof (cases "pos \<ge> ss_end sc \<or> char_at (ss_sql sc) pos = NUL")
      case True
      with False Inr assms have "scanner_finish (sc\<lparr>ss_pos := pos\<rparr>) = (Failed err, sc')"
        by (simp add: scanner_next_def)
      then show ?thesis by (auto simp: scanner_finish_def scanner_failed_def split: if_splits)
    next
      case inside: False
      with False Inr assms have "scan_token (sc\<lparr>ss_pos := pos\<rparr>) = (Failed err, sc')"
        by (simp add: scanner_next_def)
      then show ?thesis by (rule scan_token_error)
    qed
  qed
qed

lemma run_depth_of_prefix:
  assumes "delivers next_token sc (ts @ us) sc'" "ss_paren_depth sc = 0"
  shows "symbols (CHR '')'') ts \<le> symbols (CHR ''('') ts \<and>
    (us \<noteq> [] \<longrightarrow> tk_paren_depth (hd us) + symbols (CHR '')'') ts = symbols (CHR ''('') ts)"
proof -
  from assms(1) obtain s1 where run: "delivers next_token sc ts s1" "delivers next_token s1 us sc'"
    by (auto simp: delivers_append)
  from run_paren_depth [OF run(1)] assms(2)
  have eq: "ss_paren_depth s1 + symbols (CHR '')'') ts = symbols (CHR ''('') ts" by simp
  show ?thesis
  proof (cases us)
    case (Cons t vs)
    with run(2) obtain s2 where "next_token s1 = Some (t, s2)" by (auto split: option.splits)
    from next_token_paren [OF this] eq Cons show ?thesis by simp
  qed (use eq in simp)
qed

section \<open>Properties\<close>

text \<open>
  C27.  The scanner moves through the text without going back and without leaving it.  In any run
  of calls the tokens are in order and disjoint, none is empty, each lies between the position the
  run started from and both the bound and the end of the text, and the run has no more calls than
  bytes it passed: every loop over the scanner ends.
\<close>

theorem token_stream_is_ordered:
  assumes "delivers next_token sc ts sc'"
  shows "sorted_wrt (\<lambda>t u. tk_end t \<le> tk_start u) ts \<and>
    (\<forall>t \<in> set ts. ss_pos sc \<le> tk_start t \<and> tk_start t < tk_end t \<and> tk_end t \<le> ss_end sc \<and>
       tk_end t \<le> length (ss_sql sc)) \<and>
    ss_pos sc + length ts \<le> ss_pos sc'"
  using tokens.run_ordered [OF assms] tokens.run_inside [OF assms] tokens.run_end [OF assms] by auto

text \<open>
  C16.  A scan that reaches the end of the text has balanced parentheses.  From a fresh scanner, when
  the end is delivered after the tokens \<open>ts\<close>, there are as many opening as closing parentheses
  among them (quoted text and comments aside), no prefix closes more than it opened, and the depth
  recorded in each token is the number of parentheses open before it.
\<close>

theorem complete_scan_is_balanced:
  assumes "scanner_init (Some s) start e = Inr sc" "delivers next_token sc ts sc1"
    "scanner_next sc1 = (Got t, sc2)" "tk_kind t = TOKEN_EOF"
  shows "symbols (CHR ''('') ts = symbols (CHR '')'') ts \<and>
    (\<forall>k < length ts. symbols (CHR '')'') (take k ts) \<le> symbols (CHR ''('') (take k ts) \<and>
       tk_paren_depth (ts ! k) = symbols (CHR ''('') (take k ts) - symbols (CHR '')'') (take k ts))"
proof -
  from assms(1) have zero: "ss_paren_depth sc = 0" "\<not> ss_done sc" by (auto simp: scanner_init_some)
  have alive: "\<not> ss_done sc1" using assms(2) zero(2)
    by (induction ts arbitrary: sc)
       (auto split: option.splits dest!: scanner_next_token simp: next_token_Some token_fits_def)
  have "symbols (CHR ''('') ts = symbols (CHR '')'') ts"
    using run_paren_depth [OF assms(2)] scanner_next_eof [OF assms(3,4)] alive zero by simp
  moreover have "symbols (CHR '')'') (take k ts) \<le> symbols (CHR ''('') (take k ts) \<and>
      tk_paren_depth (ts ! k) = symbols (CHR ''('') (take k ts) - symbols (CHR '')'') (take k ts)"
    if "k < length ts" for k
  proof -
    from assms(2) have "delivers next_token sc (take k ts @ drop k ts) sc1" by simp
    from run_depth_of_prefix [OF this zero(1)] that show ?thesis by (auto simp: hd_drop_conv_nth)
  qed
  ultimately show ?thesis by blast
qed

text \<open>
  Failing is final.  The scanner keeps the status of the first error, which is never OK, and
  every later call returns it without scanning on or writing an error; in the same way the end,
  once delivered, is delivered again and again from the same position.
\<close>

lemma scanner_failure_is_final:
  "(scanner_next sc = (Failed err, sc') \<longrightarrow>
      err_code err \<noteq> STATUS_OK \<and> scanner_next sc' = (Stopped (err_code err), sc')) \<and>
   (scanner_next sc = (Got t, sc') \<and> tk_kind t = TOKEN_EOF \<longrightarrow> scanner_next sc' = (Got t, sc'))"
proof (intro conjI impI; (elim conjE)?)
  assume "scanner_next sc = (Failed err, sc')"
  from scanner_next_failed [OF this] show "err_code err \<noteq> STATUS_OK" by simp
next
  assume "scanner_next sc = (Failed err, sc')"
  from scanner_next_failed [OF this] show "scanner_next sc' = (Stopped (err_code err), sc')"
    by (simp add: scanner_next_def)
next
  assume "scanner_next sc = (Got t, sc')" "tk_kind t = TOKEN_EOF"
  from scanner_next_eof [OF this] show "scanner_next sc' = (Got t, sc')" by (simp add: scanner_next_def)
qed

text \<open>
  A search for a word delivers the start of the first token of the text that is the word (in
  any case of its letters) with no parenthesis, block or CASE open; there is none exactly when the
  search fails, also when the text itself cannot be scanned to its end.
\<close>

lemma find_word_finds_first:
  assumes "scanner_init (Some s) start e = Inr sc" "word \<noteq> []"
  shows "find_top_level_word (Some s) start e (Some word) = Some p \<longleftrightarrow>
    (\<exists>ts t sc'. delivers next_token sc (ts @ [t]) sc' \<and> tk_start t = p \<and>
       (tk_paren_depth t = 0 \<and> tk_block_depth t = 0 \<and> tk_case_depth t = 0 \<and>
        token_word_equal s (Some t) word) \<and>
       (\<forall>u \<in> set ts. \<not> (tk_paren_depth u = 0 \<and> tk_block_depth u = 0 \<and> tk_case_depth u = 0 \<and>
          token_word_equal s (Some u) word)))"
  using assms unfolding scanner_init_some
  by (simp add: find_top_level_word_def scanner_init_def scan_find_iff) blast

text \<open>
  C17.  \<^verbatim>\<open>sqlparser_sqlserver_statement_end\<close> gives the first semicolon with nothing open, or the
  bound when the tokens that can be scanned hold none; its test with \<^verbatim>\<open>memchr\<close> never changes the
  answer.  What is open is counted over the tokens: parentheses, the blocks between a BEGIN that opens
  one and its END, and CASE expressions.
\<close>

theorem statement_end_is_first_semicolon:
  assumes "scanner_init (Some s) start e = Inr sc"
  shows "(p < e \<longrightarrow> statement_end (Some s) start e = p \<longleftrightarrow>
      (\<exists>ts t sc'. delivers next_token sc (ts @ [t]) sc' \<and> tk_start t = p \<and> separates s e ts t \<and>
        (\<forall>k < length ts. \<not> separates s e (take k ts) (ts ! k)))) \<and>
    (find_top_level_char (Some s) start e (CHR '';'') = Some p \<longleftrightarrow> p < e \<and> statement_end (Some s) start e = p) \<and>
    start \<le> statement_end (Some s) start e \<and> statement_end (Some s) start e \<le> e \<and>
    (statement_end (Some s) start e < e \<longrightarrow>
       statement_end (Some s) start e < length s \<and> s ! statement_end (Some s) start e = CHR '';'')"
proof -
  have le: "start \<le> e" using assms by (simp add: scanner_init_some)
  have found: "find_top_level_char (Some s) start e (CHR '';'') = map_option tk_start (scan_find (top_level_symbol (CHR '';'')) sc)"
    using assms le by (simp add: find_top_level_char_def)
  have inside: "tk_start t < e" if "scan_find (top_level_symbol (CHR '';'')) sc = Some t" for t
    using found_symbol_inside [OF that] assms by (auto simp: scanner_init_some)
  have at: "find_top_level_char (Some s) start e (CHR '';'') = Some p \<longleftrightarrow> p < e \<and> statement_end (Some s) start e = p"
    unfolding statement_end_finds [OF le] found by (auto dest: inside split: option.splits)
  have "find_top_level_char (Some s) start e (CHR '';'') = Some p \<longleftrightarrow>
      (\<exists>ts t sc'. delivers next_token sc (ts @ [t]) sc' \<and> tk_start t = p \<and> separates s e ts t \<and>
        (\<forall>k < length ts. \<not> separates s e (take k ts) (ts ! k)))"
    unfolding found using scan_find_separates [OF assms] by (auto simp: map_option_eq_Some)
  with at statement_end_range [OF le refl] show ?thesis by blast
qed

text \<open>
  C26.  \<^verbatim>\<open>sqlparser_sqlserver_find_matching_paren\<close> finds the parenthesis that closes the given one:
  it answers \<open>p\<close> exactly when \<open>p\<close> is a closing parenthesis of the code behind the opening one,
  the code between them opens as many as it closes, and at no point before \<open>p\<close> has it closed more
  than it opened.  Quoted text and comments do not count.
\<close>

theorem matching_paren_is_balanced:
  assumes "char_at s start = CHR ''(''"
  shows "find_matching_paren (Some s) start = Some (p, n) \<longleftrightarrow> n = p + 1 \<and>
    (\<exists>ps. delivers (next_code s) (start + 1) (ps @ [p]) n \<and> char_at s p = CHR '')'' \<and>
       opens s ps = closes s ps \<and>
       (\<forall>k \<le> length ps. closes s (take k ps) \<le> opens s (take k ps)))"
proof -
  have "matching_loop s 1 (start + 1) = Some p \<longleftrightarrow>
      (\<exists>ps. delivers (next_code s) (start + 1) (ps @ [p]) (p + 1) \<and> char_at s p = CHR '')'' \<and>
         stays_open s 1 ps \<and> 1 + opens s ps = closes s ps + 1)"
    using matching_loop_sound [of s 1 "start + 1" p] matching_loop_complete [of s "start + 1" _ p _ 1]
    by (auto simp del: delivers.simps)
  with assms show ?thesis
    by (auto simp: find_matching_paren_def stays_open_iff less_Suc_eq_le)
qed

text \<open>Concrete runs, on the text \<^verbatim>\<open>(;)n';';\<close> and on \<^verbatim>\<open>(if) IF\<close>.\<close>

definition nested_text :: string where "nested_text = ''(;)n'' @ [QUOTE] @ '';'' @ [QUOTE] @ '';''"

definition nested_scanner :: "nat \<Rightarrow> nat \<Rightarrow> bool \<Rightarrow> scanner" where
  "nested_scanner pos depth done =
     \<lparr>ss_sql = nested_text, ss_end = 8, ss_pos = pos, ss_paren_depth = depth, ss_block_depth = 0,
      ss_case_depth = 0, ss_status = STATUS_OK, ss_done = done\<rparr>"

definition nested_token :: "token_kind \<Rightarrow> nat \<Rightarrow> nat \<Rightarrow> nat \<Rightarrow> char \<Rightarrow> token" where
  "nested_token kind a b depth c =
     \<lparr>tk_kind = kind, tk_start = a, tk_end = b, tk_paren_depth = depth, tk_block_depth = 0,
      tk_case_depth = 0, tk_symbol = c\<rparr>"

definition nested_tokens :: "token list" where
  "nested_tokens =
     [nested_token TOKEN_SYMBOL 0 1 0 (CHR ''(''), nested_token TOKEN_SYMBOL 1 2 1 (CHR '';''),
      nested_token TOKEN_SYMBOL 2 3 1 (CHR '')''), nested_token TOKEN_STRING 3 7 0 NUL,
      nested_token TOKEN_SYMBOL 7 8 0 (CHR '';'')]"

lemma nested_init: "scanner_init (Some nested_text) 0 8 = Inr (nested_scanner 0 0 False)" by code_simp
lemma nested_steps:
  "next_token (nested_scanner 0 0 False) = Some (nested_token TOKEN_SYMBOL 0 1 0 (CHR ''(''), nested_scanner 1 1 False)"
  "next_token (nested_scanner 1 1 False) = Some (nested_token TOKEN_SYMBOL 1 2 1 (CHR '';''), nested_scanner 2 1 False)"
  "next_token (nested_scanner 2 1 False) = Some (nested_token TOKEN_SYMBOL 2 3 1 (CHR '')''), nested_scanner 3 0 False)"
  "next_token (nested_scanner 7 0 False) = Some (nested_token TOKEN_SYMBOL 7 8 0 (CHR '';''), nested_scanner 8 0 False)"
  by code_simp+

lemma nested_string:
  "next_token (nested_scanner 3 0 False) = Some (nested_token TOKEN_STRING 3 7 0 NUL, nested_scanner 7 0 False)"
  by code_simp

lemma nested_run: "delivers next_token (nested_scanner 0 0 False) nested_tokens (nested_scanner 8 0 False)"
  by (simp add: nested_tokens_def nested_steps nested_string del: One_nat_def)
lemma nested_end: "scanner_next (nested_scanner 8 0 False) = (Got (eof_token 8), nested_scanner 8 0 True)" by code_simp
lemma nested_match: "find_matching_paren (Some nested_text) 0 = Some (2, 3)" by code_simp

lemma stray_paren: "skip_gap nested_text 8 2 = Inr 2" "char_at nested_text 2 = CHR '')''" by code_simp+
lemma failing_call:
  "scanner_next (nested_scanner 2 0 False) =
     (Failed (sqlserver_error_at nested_text 2 ''unmatched SQL Server closing parenthesis''),
      (nested_scanner 3 0 False)\<lparr>ss_status := PARSE_ERROR\<rparr>)"
  using stray_paren
  by (simp add: scanner_next_def nested_scanner_def scan_token_def scan_symbol_def scanner_failed_def
      token_word_start_def ss_is_ident_start_def c_isalpha_def)
lemma word_search: "find_top_level_word (Some ''(if) IF'') 0 7 (Some ''if'') = Some 5"
  by code_simp

theorem token_stream_is_ordered_witness:
  "sorted_wrt (\<lambda>t u. tk_end t \<le> tk_start u) nested_tokens \<and> length nested_tokens \<le> 8"
  using token_stream_is_ordered [OF nested_run] by (simp add: nested_scanner_def)

theorem complete_scan_is_balanced_witness:
  "symbols (CHR ''('') nested_tokens = symbols (CHR '')'') nested_tokens"
  using complete_scan_is_balanced [OF nested_init nested_run nested_end] by (simp add: eof_token_def)

lemma scanner_failure_is_final_witness:
  "scanner_next ((nested_scanner 3 0 False)\<lparr>ss_status := PARSE_ERROR\<rparr>)
     = (Stopped PARSE_ERROR, (nested_scanner 3 0 False)\<lparr>ss_status := PARSE_ERROR\<rparr>)"
  using scanner_failure_is_final [of "nested_scanner 2 0 False"] failing_call by simp

lemma find_word_finds_first_witness:
  "\<exists>sc ts t sc'. scanner_init (Some ''(if) IF'') 0 7 = Inr sc \<and>
     delivers next_token sc (ts @ [t]) sc' \<and> tk_start t = 5"
proof -
  obtain sc where sc: "scanner_init (Some ''(if) IF'') 0 7 = Inr sc" by (simp add: scanner_init_some)
  from find_word_finds_first [OF sc, of "''if''" 5] word_search sc show ?thesis by auto
qed

theorem statement_end_is_first_semicolon_witness:
  "\<exists>ts t sc'. delivers next_token (nested_scanner 0 0 False) (ts @ [t]) sc' \<and> tk_start t = 7 \<and> separates nested_text 8 ts t"
proof -
  have "statement_end (Some nested_text) 0 8 = 7" by code_simp
  with statement_end_is_first_semicolon [OF nested_init, of 7] show ?thesis by (simp del: delivers.simps) blast
qed

theorem matching_paren_is_balanced_witness:
  "\<exists>ps. delivers (next_code nested_text) 1 (ps @ [2]) 3 \<and> opens nested_text ps = closes nested_text ps"
proof -
  have "char_at nested_text 0 = CHR ''(''" by code_simp
  from matching_paren_is_balanced [OF this, of 2 3] nested_match show ?thesis
    by (simp del: delivers.simps) blast
qed

end
