(* ===== verification/Public_Scan.thy ===== *)
theory Public_Scan
  imports Sql_Dialect Sqlserver_Scan
begin

text \<open>
  The dialect-aware scan of the caller's SQL (\<^verbatim>\<open>src/core/sqlparser_surface.c\<close>, the functions
  \<^verbatim>\<open>sqlparser_public_*\<close>): quotes and comments of every dialect family, comments that carry meaning,
  the end of the last statement body and the cut of a text into statement bodies.

  A text is the bytes before its NUL.  The static helpers are only called with non-NULL pointers;
  where a caller can pass NULL the text is an option.
\<close>

section \<open>Quotes and comments\<close>

definition public_char_is_ident :: "char \<Rightarrow> bool" where
  "public_char_is_ident c =
     (c_isalnum c \<or> c = CHR ''_'' \<or> c = CHR ''$'' \<or> c = CHR ''#'' \<or> is_high_byte c)"

definition dollar_tag_char_is_ident :: "char \<Rightarrow> bool" where
  "dollar_tag_char_is_ident c = (c_isalnum c \<or> c = CHR ''_'' \<or> is_high_byte c)"

text \<open>The search loop of \<^verbatim>\<open>sqlparser_public_skip_dollar_quote\<close> for the closing delimiter.\<close>

function find_delimiter :: "string \<Rightarrow> nat \<Rightarrow> string \<Rightarrow> nat option" where
  "find_delimiter s body delimiter =
     (if char_at s body = NUL then None
      else if starts_at s body delimiter then Some (body + length delimiter)
      else find_delimiter s (body + 1) delimiter)"
  by pat_completeness auto
termination
  by (relation "measure (\<lambda>(s, body, delimiter). length s - body)") (auto dest!: char_at_less)

definition skip_dollar_quote :: "string \<Rightarrow> nat \<Rightarrow> nat" where
  "skip_dollar_quote s index =
     (if char_at s index \<noteq> CHR ''$'' \<or>
         (index > 0 \<and>
          (let prev = char_at s (index - 1)
           in c_isalnum prev \<or> prev = CHR ''_'' \<or> prev = CHR ''$'' \<or> is_high_byte prev))
      then index
      else
        let tag_end = scan_while dollar_tag_char_is_ident s (length s) (index + 1)
        in if char_at s tag_end \<noteq> CHR ''$'' then index
           else case find_delimiter s (tag_end + 1) (slice s index (tag_end + 1)) of
                  None \<Rightarrow> index
                | Some behind \<Rightarrow> behind)"

definition q_quote_close :: "char \<Rightarrow> char" where
  "q_quote_close c =
     (if c = CHR ''['' then CHR '']'' else if c = CHR ''{'' then CHR ''}''
      else if c = CHR ''('' then CHR '')'' else if c = CHR ''<'' then CHR ''>'' else c)"

function q_quote_loop :: "string \<Rightarrow> char \<Rightarrow> nat \<Rightarrow> nat" where
  "q_quote_loop s close pos =
     (if char_at s pos = NUL then pos
      else if char_at s pos = close \<and> char_at s (pos + 1) = QUOTE then pos + 2
      else q_quote_loop s close (pos + 1))"
  by pat_completeness auto
termination
  by (relation "measure (\<lambda>(s, close, pos). length s - pos)") (auto dest!: char_at_less)

definition skip_oracle_q_quote :: "dialect \<Rightarrow> string \<Rightarrow> nat \<Rightarrow> nat" where
  "skip_oracle_q_quote d s index =
     (if \<not> is_oracle_or_dameng_compatible d then index
      else
        let pos = (if char_at s index \<in> {CHR ''n'', CHR ''N''} \<and>
                      char_at s (index + 1) \<in> {CHR ''q'', CHR ''Q''} then index + 1 else index)
        in if char_at s pos \<notin> {CHR ''q'', CHR ''Q''} \<or> char_at s (pos + 1) \<noteq> QUOTE \<or>
              char_at s (pos + 2) = NUL
           then index
           else q_quote_loop s (q_quote_close (char_at s (pos + 2))) (pos + 3))"

definition public_nested_comments :: "dialect \<Rightarrow> bool" where
  "public_nested_comments d =
     (uses_postgresql_placeholders d \<or> is_sqlserver_compatible d \<or> d = KINGBASE_ORACLE)"

text \<open>\<^verbatim>\<open>pos + strcspn(sql + pos, "\n")\<close>\<close>

definition to_line_end :: "string \<Rightarrow> nat \<Rightarrow> nat" where
  "to_line_end s pos = scan_while (\<lambda>c. c \<noteq> NUL \<and> c \<noteq> LF) s (length s) pos"

definition is_comment_stop :: "bool \<Rightarrow> char \<Rightarrow> bool" where
  "is_comment_stop nested c = (c = NUL \<or> c = CHR ''*'' \<or> (nested \<and> c = CHR ''/''))"

text \<open>The loops of \<^verbatim>\<open>sqlparser_public_skip_quoted_or_comment\<close>.\<close>

lemma stop_progress:
  assumes "char_at s (scan_while P s e pos) \<noteq> NUL"
  shows "length s - Suc (scan_while P s e pos) < length s - pos"
    "length s - Suc (Suc (scan_while P s e pos)) < length s - pos"
  using char_at_less [OF assms] scan_while_ge [of pos P s e] by linarith+

function block_comment :: "bool \<Rightarrow> string \<Rightarrow> nat \<Rightarrow> nat \<Rightarrow> nat" where
  "block_comment nested s depth pos =
     (let p = scan_while (\<lambda>c. \<not> is_comment_stop nested c) s (length s) pos
      in if char_at s p = NUL then p
         else if char_at s (p + 1) = NUL then p + 1
         else if nested \<and> char_at s p = CHR ''/'' \<and> char_at s (p + 1) = CHR ''*''
         then block_comment nested s (depth + 1) (p + 2)
         else if char_at s p = CHR ''*'' \<and> char_at s (p + 1) = CHR ''/''
         then if depth - 1 = 0 then p + 2 else block_comment nested s (depth - 1) (p + 2)
         else block_comment nested s depth (p + 1))"
  by pat_completeness auto
termination
  by (relation "measure (\<lambda>(nested, s, depth, pos). length s - pos)")
     (simp_all add: stop_progress)

function bracket_loop :: "string \<Rightarrow> nat \<Rightarrow> nat" where
  "bracket_loop s pos =
     (let p = scan_while (\<lambda>c. c \<noteq> NUL \<and> c \<noteq> CHR '']'') s (length s) pos
      in if char_at s p = NUL then p
         else if char_at s (p + 1) \<noteq> CHR '']'' then p + 1
         else bracket_loop s (p + 2))"
  by pat_completeness auto
termination
  by (relation "measure (\<lambda>(s, pos). length s - pos)") (simp_all add: stop_progress)

function quote_loop :: "string \<Rightarrow> char \<Rightarrow> bool \<Rightarrow> nat \<Rightarrow> nat" where
  "quote_loop s quote backslash pos =
     (let p = scan_while (\<lambda>c. c \<noteq> NUL \<and> c \<noteq> quote \<and> \<not> (backslash \<and> c = BACKSLASH)) s (length s) pos
      in if char_at s p = NUL then p
         else if char_at s p = BACKSLASH \<and> backslash
         then if char_at s (p + 1) = NUL then p + 1 else quote_loop s quote backslash (p + 2)
         else if char_at s (p + 1) \<noteq> quote then p + 1
         else quote_loop s quote backslash (p + 2))"
  by pat_completeness auto
termination
  by (relation "measure (\<lambda>(s, quote, backslash, pos). length s - pos)") (simp_all add: stop_progress)

declare find_delimiter.simps [simp del] q_quote_loop.simps [simp del] block_comment.simps [simp del]
  bracket_loop.simps [simp del] quote_loop.simps [simp del]

definition backslash_escapes :: "dialect \<Rightarrow> string \<Rightarrow> nat \<Rightarrow> bool" where
  "backslash_escapes d s index =
     (is_mysql_compatible d \<or>
      (char_at s index = QUOTE \<and> index > 0 \<and> char_at s (index - 1) \<in> {CHR ''e'', CHR ''E''} \<and>
       (index = 1 \<or> \<not> public_char_is_ident (char_at s (index - 2)))))"

text \<open>\<^verbatim>\<open>sqlparser_public_skip_quoted_or_comment\<close>, on a text and with its guard.\<close>

definition skip_span :: "dialect \<Rightarrow> string \<Rightarrow> nat \<Rightarrow> nat" where
  "skip_span d s index =
     (let c = char_at s index
      in if c = CHR ''$''
         then if uses_postgresql_placeholders d \<or> is_oracle_compatible d
              then skip_dollar_quote s index else index
         else if c \<in> {CHR ''q'', CHR ''Q'', CHR ''n'', CHR ''N''} then skip_oracle_q_quote d s index
         else if c = CHR ''-''
         then if char_at s (index + 1) \<noteq> CHR ''-'' then index
              else if is_mysql_compatible d \<and> char_at s (index + 2) \<noteq> NUL \<and>
                      \<not> c_isspace (char_at s (index + 2)) \<and> \<not> c_iscntrl (char_at s (index + 2))
              then index
              else to_line_end s (index + 2)
         else if c = CHR ''#''
         then if \<not> is_mysql_compatible d then index else to_line_end s (index + 1)
         else if c = CHR ''/''
         then if char_at s (index + 1) \<noteq> CHR ''*'' then index
              else block_comment (public_nested_comments d) s 1 (index + 2)
         else if c = CHR ''[''
         then if \<not> is_sqlserver_compatible d then index else bracket_loop s (index + 1)
         else if (c = CHR 0x60 \<and> is_mysql_compatible d) \<or> c = QUOTE \<or> c = CHR 0x22
         then quote_loop s c (backslash_escapes d s index) (index + 1)
         else index)"

definition public_skip_quoted_or_comment :: "dialect \<Rightarrow> string option \<Rightarrow> nat \<Rightarrow> nat" where
  "public_skip_quoted_or_comment d sql_opt index =
     (case sql_opt of None \<Rightarrow> index | Some s \<Rightarrow> skip_span d s index)"

definition public_comment_at :: "dialect \<Rightarrow> string \<Rightarrow> nat \<Rightarrow> bool" where
  "public_comment_at d s pos =
     (if char_at s pos = CHR ''/'' \<and> char_at s (pos + 1) = CHR ''*'' then True
      else if char_at s pos = CHR ''-'' \<and> char_at s (pos + 1) = CHR ''-''
      then \<not> is_mysql_compatible d \<or> char_at s (pos + 2) = NUL \<or>
           c_isspace (char_at s (pos + 2)) \<or> c_iscntrl (char_at s (pos + 2))
      else is_mysql_compatible d \<and> char_at s pos = CHR ''#'')"

text \<open>\<^verbatim>\<open>sqlparser_public_semantic_comment_kind_at\<close>: a hint, a versioned comment, a line hint, or none.\<close>

definition semantic_comment_kind_at :: "string \<Rightarrow> nat \<Rightarrow> nat" where
  "semantic_comment_kind_at s pos =
     (if char_at s pos = CHR ''/'' \<and> char_at s (pos + 1) = CHR ''*'' \<and>
         char_at s (pos + 2) \<in> {CHR ''+'', CHR ''!''}
      then if char_at s (pos + 2) = CHR ''+'' then 1 else 2
      else if char_at s pos = CHR ''-'' \<and> char_at s (pos + 1) = CHR ''-'' \<and>
              char_at s (pos + 2) = CHR ''+''
      then 3 else 0)"

section \<open>How far a span reaches\<close>

lemma find_delimiter_bounds:
  "find_delimiter s body dl = Some p \<Longrightarrow> body \<le> p \<and> p \<le> length s"
proof (induction s body dl rule: find_delimiter.induct)
  case (1 s body dl)
  show ?case
  proof (cases "char_at s body \<noteq> NUL \<and> starts_at s body dl")
    case True
    then have "length (take (length dl) (drop body s)) = length dl" "body < length s"
      by (auto simp: starts_at_def dest: char_at_less)
    then have "body + length dl \<le> length s" by auto
    with 1 True show ?thesis by (simp add: find_delimiter.simps [of s body dl])
  next
    case False
    with 1 show ?thesis by (auto simp: find_delimiter.simps [of s body dl] split: if_splits)
  qed
qed

lemma skip_dollar_quote_bounds:
  assumes "index \<le> length s"
  shows "index \<le> skip_dollar_quote s index \<and> skip_dollar_quote s index \<le> length s"
proof -
  define t where "t = scan_while dollar_tag_char_is_ident s (length s) (index + 1)"
  have "index + 1 \<le> t" by (simp add: t_def del: Suc_eq_plus1 add_Suc_right)
  with assms show ?thesis
    unfolding skip_dollar_quote_def Let_def t_def [symmetric]
    by (fastforce dest!: find_delimiter_bounds split: option.splits)
qed

lemma char_at_two: "char_at s (i + 1) = c \<Longrightarrow> c \<noteq> NUL \<Longrightarrow> i + 2 \<le> length s"
  using char_at_less [of s "i + 1"] by simp

lemma q_quote_loop_bounds: "pos \<le> length s \<Longrightarrow> pos \<le> q_quote_loop s q pos \<and> q_quote_loop s q pos \<le> length s"
proof (induction s q pos rule: q_quote_loop.induct)
  case (1 s q pos)
  then show ?case
    using char_at_two [of s pos QUOTE] char_at_less [of s pos]
    by (subst (1 2) q_quote_loop.simps) (auto split: if_splits)
qed

lemma skip_oracle_q_quote_bounds:
  assumes "index \<le> length s"
  shows "index \<le> skip_oracle_q_quote d s index \<and> skip_oracle_q_quote d s index \<le> length s"
proof -
  have "index \<le> q_quote_loop s q (pos + 3) \<and> q_quote_loop s q (pos + 3) \<le> length s"
    if "char_at s (pos + 2) \<noteq> NUL" "index \<le> pos" for q pos
    using char_at_less [OF that(1)] q_quote_loop_bounds [of "pos + 3" s q] that(2) by simp
  from this [of index] this [of "index + 1"] assms show ?thesis
    by (auto simp: skip_oracle_q_quote_def Let_def)
qed

lemma to_line_end_bounds: "pos \<le> length s \<Longrightarrow> pos \<le> to_line_end s pos \<and> to_line_end s pos \<le> length s"
  by (simp add: to_line_end_def scan_while_le_length)

lemma block_comment_bounds:
  "pos \<le> length s \<Longrightarrow> pos \<le> block_comment nested s depth pos \<and> block_comment nested s depth pos \<le> length s"
proof (induction nested s depth pos rule: block_comment.induct)
  case (1 nested s depth pos)
  define p where "p = scan_while (\<lambda>c. \<not> is_comment_stop nested c) s (length s) pos"
  have p: "pos \<le> p" "p \<le> length s" using "1.prems" by (simp_all add: p_def scan_while_le_length)
  note eq = block_comment.simps [of nested s depth pos, unfolded Let_def, folded p_def]
  note IH = "1.IH" [OF p_def]
  consider (nul) "char_at s p = NUL \<or> char_at s (p + 1) = NUL"
    | (opens) "nested \<and> char_at s p = CHR ''/'' \<and> char_at s (p + 1) = CHR ''*''"
    | (closes) "\<not> (nested \<and> char_at s p = CHR ''/'' \<and> char_at s (p + 1) = CHR ''*'')"
        "char_at s p = CHR ''*'' \<and> char_at s (p + 1) = CHR ''/''"
    | (other) "char_at s p \<noteq> NUL" "char_at s (p + 1) \<noteq> NUL"
        "\<not> (nested \<and> char_at s p = CHR ''/'' \<and> char_at s (p + 1) = CHR ''*'')"
        "\<not> (char_at s p = CHR ''*'' \<and> char_at s (p + 1) = CHR ''/'')"
    by blast
  then show ?case
  proof cases
    case nul
    with p char_at_less [of s p] show ?thesis unfolding eq by auto
  next
    case opens
    with char_at_two [of s p "CHR ''*''"] have "p + 2 \<le> length s" by simp
    with opens p(1) IH(1) show ?thesis unfolding eq by auto
  next
    case closes
    with char_at_two [of s p "CHR ''/''"] have "p + 2 \<le> length s" by simp
    with closes p(1) IH(2) show ?thesis unfolding eq by auto
  next
    case other
    with char_at_less [of s p] have "p + 1 \<le> length s" by simp
    with other p(1) IH(3) show ?thesis unfolding eq by auto
  qed
qed

lemma bracket_loop_bounds:
  "pos \<le> length s \<Longrightarrow> pos \<le> bracket_loop s pos \<and> bracket_loop s pos \<le> length s"
proof (induction s pos rule: bracket_loop.induct)
  case (1 s pos)
  define p where "p = scan_while (\<lambda>c. c \<noteq> NUL \<and> c \<noteq> CHR '']'') s (length s) pos"
  have p: "pos \<le> p" "p \<le> length s" using "1.prems" by (simp_all add: p_def scan_while_le_length)
  note eq = bracket_loop.simps [of s pos, unfolded Let_def, folded p_def]
  show ?case
  proof (cases "char_at s p = NUL \<or> char_at s (p + 1) \<noteq> CHR '']''")
    case True
    with p char_at_less [of s p] show ?thesis unfolding eq by auto
  next
    case False
    with char_at_two [of s p "CHR '']''"] have "p + 2 \<le> length s" by simp
    with False p(1) "1.IH" [OF p_def] show ?thesis unfolding eq by auto
  qed
qed

lemma quote_loop_bounds:
  "pos \<le> length s \<Longrightarrow> quote \<noteq> NUL \<Longrightarrow>
     pos \<le> quote_loop s quote backslash pos \<and> quote_loop s quote backslash pos \<le> length s"
proof (induction s quote backslash pos rule: quote_loop.induct)
  case (1 s quote backslash pos)
  define p where
    "p = scan_while (\<lambda>c. c \<noteq> NUL \<and> c \<noteq> quote \<and> \<not> (backslash \<and> c = BACKSLASH)) s (length s) pos"
  have p: "pos \<le> p" "p \<le> length s" using "1.prems" by (simp_all add: p_def scan_while_le_length)
  note eq = quote_loop.simps [of s quote backslash pos, unfolded Let_def, folded p_def]
  note IH = "1.IH" [OF p_def]
  show ?case
  proof (cases "char_at s p = NUL \<or> char_at s (p + 1) = NUL")
    case True
    with p "1.prems" char_at_less [of s p] show ?thesis unfolding eq by auto
  next
    case False
    with char_at_two [of s p] have two: "p + 2 \<le> length s" by simp
    show ?thesis
    proof (cases "char_at s p = BACKSLASH \<and> backslash")
      case True
      with False two p(1) IH(1) "1.prems"(2) show ?thesis unfolding eq by auto
    next
      case other: False
      with False two p(1) IH(2) "1.prems"(2) show ?thesis unfolding eq by auto
    qed
  qed
qed

text \<open>A span starts where it is asked for and ends in the text; a comment is never empty.\<close>

lemma skip_span_cases:
  obtains (none) "skip_span d s index = index"
  | (dollar) "skip_span d s index = skip_dollar_quote s index"
  | (q_quote) "skip_span d s index = skip_oracle_q_quote d s index"
  | (line) "skip_span d s index = to_line_end s (index + 2)" "char_at s (index + 1) = CHR ''-''"
  | (hash) "skip_span d s index = to_line_end s (index + 1)" "char_at s index = CHR ''#''"
  | (block) "skip_span d s index = block_comment (public_nested_comments d) s 1 (index + 2)"
      "char_at s (index + 1) = CHR ''*''"
  | (bracket) "skip_span d s index = bracket_loop s (index + 1)" "char_at s index = CHR ''[''"
  | (quote) "skip_span d s index
        = quote_loop s (char_at s index) (backslash_escapes d s index) (index + 1)"
      "char_at s index \<in> {CHR 0x60, QUOTE, CHR 0x22}"
proof -
  let ?c = "char_at s index" and ?n = "char_at s (index + 1)"
  consider "?c = CHR ''$''" | "?c \<in> {CHR ''q'', CHR ''Q'', CHR ''n'', CHR ''N''}"
    | "?c = CHR ''-''" | "?c = CHR ''#''" | "?c = CHR ''/''" | "?c = CHR ''[''"
    | "?c = CHR 0x60" | "?c = QUOTE" | "?c = CHR 0x22"
    | "?c \<notin> {CHR ''$'', CHR ''q'', CHR ''Q'', CHR ''n'', CHR ''N'', CHR ''-'', CHR ''#'', CHR ''/'',
        CHR ''['', CHR 0x60, QUOTE, CHR 0x22}"
    by blast
  then show ?thesis
  proof cases
    case 1
    then show ?thesis using none dollar
      by (cases "uses_postgresql_placeholders d \<or> is_oracle_compatible d") (simp_all add: skip_span_def)
  next
    case 2
    then have "skip_span d s index = skip_oracle_q_quote d s index" by (auto simp: skip_span_def)
    then show ?thesis by (rule q_quote)
  next
    case 3
    then show ?thesis using none line
      by (cases "?n = CHR ''-'' \<and> skip_span d s index \<noteq> index") (auto simp: skip_span_def split: if_split_asm)
  next
    case 4
    then show ?thesis using none hash
      by (cases "is_mysql_compatible d") (simp_all add: skip_span_def)
  next
    case 5
    then show ?thesis using none block by (cases "?n = CHR ''*''") (simp_all add: skip_span_def)
  next
    case 6
    then show ?thesis using none bracket
      by (cases "is_sqlserver_compatible d") (simp_all add: skip_span_def)
  next
    case 7
    then show ?thesis using none quote
      by (cases "is_mysql_compatible d") (simp_all add: skip_span_def)
  next
    case 8
    then show ?thesis using quote by (simp add: skip_span_def)
  next
    case 9
    then show ?thesis using quote by (simp add: skip_span_def)
  next
    case 10
    then have "skip_span d s index = index" by (simp add: skip_span_def)
    then show ?thesis by (rule none)
  qed
qed

lemma skip_span_bounds:
  assumes "index \<le> length s"
  shows "index \<le> skip_span d s index \<and> skip_span d s index \<le> length s"
proof (cases rule: skip_span_cases [of d s index])
  case none
  with assms show ?thesis by simp
next
  case dollar
  with skip_dollar_quote_bounds [OF assms] show ?thesis by simp
next
  case q_quote
  with skip_oracle_q_quote_bounds [OF assms, of d] show ?thesis by simp
next
  case line
  with char_at_two [OF line(2)] to_line_end_bounds [of "index + 2" s] show ?thesis by simp
next
  case hash
  with char_at_less [of s index] to_line_end_bounds [of "index + 1" s] show ?thesis by simp
next
  case block
  with char_at_two [OF block(2)] block_comment_bounds [of "index + 2" s "public_nested_comments d" 1]
  show ?thesis by simp
next
  case bracket
  with char_at_less [of s index] bracket_loop_bounds [of "index + 1" s] show ?thesis by simp
next
  case quote
  then have "index < length s" "char_at s index \<noteq> NUL" by (auto intro: char_at_less)
  with quote(1) quote_loop_bounds [of "index + 1" s "char_at s index" "backslash_escapes d s index"]
  show ?thesis by simp
qed

lemma comment_progress:
  assumes "public_comment_at d s pos"
  shows "pos < skip_span d s pos"
proof -
  consider (block) "char_at s pos = CHR ''/''" "char_at s (pos + 1) = CHR ''*''"
    | (line) "char_at s pos = CHR ''-''" "char_at s (pos + 1) = CHR ''-''"
    | (hash) "char_at s pos = CHR ''#''" "is_mysql_compatible d"
    using assms unfolding public_comment_at_def by meson
  then show ?thesis
  proof cases
    case block
    with char_at_two [OF block(2)] block_comment_bounds [of "pos + 2" s "public_nested_comments d" 1]
    show ?thesis by (simp add: skip_span_def)
  next
    case line
    with assms have "skip_span d s pos = to_line_end s (pos + 2)"
      by (simp add: skip_span_def public_comment_at_def) blast
    with char_at_two [OF line(2)] to_line_end_bounds [of "pos + 2" s] show ?thesis by simp
  next
    case hash
    with char_at_less [of s pos] to_line_end_bounds [of "pos + 1" s] show ?thesis
      by (simp add: skip_span_def)
  qed
qed

section \<open>Blanks, lines and batch separators\<close>

lemma comment_shrinks:
  assumes "public_comment_at d s pos"
  shows "length s - skip_span d s pos < length s - pos"
proof -
  have "pos < length s"
    using assms by (auto simp: public_comment_at_def intro!: char_at_less split: if_splits)
  with comment_progress [OF assms] show ?thesis by (simp add: diff_less_mono2)
qed

function public_skip_trivia :: "dialect \<Rightarrow> string \<Rightarrow> nat \<Rightarrow> nat" where
  "public_skip_trivia d s pos =
     (if char_at s pos = NUL then pos
      else if c_isspace (char_at s pos) then public_skip_trivia d s (pos + 1)
      else if \<not> public_comment_at d s pos then pos
      else if skip_span d s pos = pos then pos
      else public_skip_trivia d s (skip_span d s pos))"
  by pat_completeness auto
termination
  by (relation "measure (\<lambda>(d, s, pos). length s - pos)")
     (auto dest!: char_at_less simp: comment_shrinks)

declare public_skip_trivia.simps [simp del]

definition public_skip_space :: "string \<Rightarrow> nat \<Rightarrow> nat" where
  "public_skip_space s pos = scan_while (\<lambda>c. c \<noteq> NUL \<and> c_isspace c) s (length s) pos"

definition public_sqlserver_go_at :: "dialect \<Rightarrow> string option \<Rightarrow> nat \<Rightarrow> nat option" where
  "public_sqlserver_go_at d sql_opt pos =
     (if \<not> is_sqlserver_compatible d \<or> sql_opt = None then None else line_is_go sql_opt pos)"

text \<open>The loop of \<^verbatim>\<open>sqlparser_public_line_prefix_after\<close> over the bytes it passes.\<close>

fun prefix_after :: "bool \<Rightarrow> bool \<Rightarrow> string \<Rightarrow> bool" where
  "prefix_after comment line_prefix [] = line_prefix"
| "prefix_after comment line_prefix (c # cs) =
     prefix_after comment
       (if c = CR \<or> c = LF then True
        else if \<not> comment \<and> \<not> c_isspace c then False else line_prefix) cs"

definition line_prefix_after :: "string \<Rightarrow> nat \<Rightarrow> nat \<Rightarrow> bool \<Rightarrow> bool \<Rightarrow> bool" where
  "line_prefix_after s start fin line_prefix comment =
     prefix_after comment line_prefix (slice s start fin)"

section \<open>The pieces of a text\<close>

text \<open>
  The cascade that \<^verbatim>\<open>sqlparser_public_terminal_scan\<close> and \<^verbatim>\<open>sqlparser_public_statement_scan_next\<close> make
  at every position: the piece that starts there, where it ends, and the line prefix behind it.
\<close>

datatype piece = Blank | Comment | Semicolon | Batch | Body

definition next_piece :: "dialect \<Rightarrow> string \<Rightarrow> bool \<Rightarrow> nat \<Rightarrow> piece \<times> nat \<times> bool" where
  "next_piece d s line_prefix pos =
     (let c = char_at s pos; skipped = skip_span d s pos
      in if c_isspace c then (Blank, pos + 1, c = CR \<or> c = LF \<or> line_prefix)
         else if public_comment_at d s pos
         then (Comment, skipped, line_prefix_after s pos skipped line_prefix True)
         else if c = CHR '';'' then (Semicolon, pos + 1, False)
         else case (if line_prefix \<and> c \<in> {CHR ''g'', CHR ''G''}
                    then public_sqlserver_go_at d (Some s) pos else None) of
                Some behind \<Rightarrow> (Batch, behind, True)
              | None \<Rightarrow>
                  let skipped = (if skipped \<noteq> pos then skipped else pos + 1)
                  in (Body, skipped, line_prefix_after s pos skipped line_prefix False))"

lemma skip_span_beyond: "length s \<le> pos \<Longrightarrow> skip_span d s pos = pos"
  by (simp add: skip_span_def)

lemma skip_span_ge: "pos \<le> skip_span d s pos"
  using skip_span_bounds [of pos s d] skip_span_beyond [of s pos d] by (cases "pos \<le> length s") auto

lemma next_piece_progress:
  assumes "next_piece d s lp pos = (k, n, lp')"
  shows "pos < n \<and> (pos < length s \<longrightarrow> n \<le> length s)"
proof -
  consider "n = pos + 1" | "public_comment_at d s pos" "n = skip_span d s pos"
    | "line_is_go (Some s) pos = Some n" | "n = skip_span d s pos" "n \<noteq> pos"
    using assms
    by (auto simp: next_piece_def public_sqlserver_go_at_def Let_def split: if_splits option.splits)
  then show ?thesis
    using skip_span_ge [of pos d s] skip_span_bounds [of pos s d] comment_progress [of d s pos]
      line_is_go_bounds [of s pos n]
    by cases auto
qed

text \<open>\<^verbatim>\<open>sqlparser_terminal_scan_t\<close>\<close>

record terminal_scan =
  ts_body_end :: nat
  ts_last_semantic_end :: nat
  ts_length :: nat
  ts_semantic_count :: nat
  ts_has_batch_separator :: bool

function terminal_loop :: "dialect \<Rightarrow> string \<Rightarrow> bool \<Rightarrow> nat \<Rightarrow> terminal_scan \<Rightarrow> terminal_scan" where
  "terminal_loop d s line_prefix pos scan =
     (if char_at s pos = NUL then scan\<lparr>ts_length := pos\<rparr>
      else case next_piece d s line_prefix pos of
        (Blank, n, lp) \<Rightarrow> terminal_loop d s lp n scan
      | (Comment, n, lp) \<Rightarrow>
          terminal_loop d s lp n
            (if semantic_comment_kind_at s pos \<noteq> 0
             then scan\<lparr>ts_semantic_count := ts_semantic_count scan + 1, ts_last_semantic_end := n\<rparr>
             else scan)
      | (Semicolon, n, lp) \<Rightarrow> terminal_loop d s lp n scan
      | (Batch, n, lp) \<Rightarrow> terminal_loop d s lp n (scan\<lparr>ts_has_batch_separator := True\<rparr>)
      | (Body, n, lp) \<Rightarrow>
          terminal_loop d s lp n
            (scan\<lparr>ts_body_end := n, ts_semantic_count := 0, ts_last_semantic_end := 0\<rparr>))"
  by pat_completeness auto
termination
  by (relation "measure (\<lambda>(d, s, lp, pos, scan). length s - pos)")
     (auto dest!: next_piece_progress [OF sym] char_at_less intro: diff_less_mono2)

definition terminal_start :: terminal_scan where
  "terminal_start = \<lparr>ts_body_end = 0, ts_last_semantic_end = 0, ts_length = 0,
     ts_semantic_count = 0, ts_has_batch_separator = False\<rparr>"

text \<open>\<^verbatim>\<open>sqlparser_public_terminal_scan\<close>; \<open>None\<close> when it returns 0.\<close>

definition public_terminal_scan :: "dialect \<Rightarrow> string option \<Rightarrow> terminal_scan option" where
  "public_terminal_scan d sql_opt =
     (case sql_opt of
        None \<Rightarrow> None
      | Some s \<Rightarrow>
          let scan = terminal_loop d s True 0 terminal_start
          in if ts_body_end scan > 0 \<or> ts_semantic_count scan > 0 then Some scan else None)"

text \<open>
  \<^verbatim>\<open>sqlparser_public_next_semantic\<close>: the comment that carries meaning and the position behind it, or
  none and the position the search stopped at.
\<close>

record semantic_comment =
  sem_start :: nat
  sem_end :: nat
  sem_kind :: nat

function next_semantic :: "dialect \<Rightarrow> string \<Rightarrow> nat \<Rightarrow> nat \<Rightarrow> semantic_comment option \<times> nat" where
  "next_semantic d s len pos =
     (if pos < len
      then if public_comment_at d s pos
           then if semantic_comment_kind_at s pos \<noteq> 0
                then (Some \<lparr>sem_start = pos, sem_end = skip_span d s pos,
                        sem_kind = semantic_comment_kind_at s pos\<rparr>, skip_span d s pos)
                else next_semantic d s len (skip_span d s pos)
           else next_semantic d s len (if skip_span d s pos \<noteq> pos then skip_span d s pos else pos + 1)
      else (None, pos))"
  by pat_completeness auto
termination
proof (relation "measure (\<lambda>(d, s, len, pos). len - pos)", simp)
  fix d s len pos assume "pos < len" "public_comment_at d s pos"
  then show "((d, s, len, skip_span d s pos), d, s, len, pos) \<in> measure (\<lambda>(d, s, len, pos). len - pos)"
    using comment_progress [of d s pos] by (simp add: diff_less_mono2)
next
  fix d s len and pos :: nat assume "pos < len"
  then show "((d, s, len, if skip_span d s pos \<noteq> pos then skip_span d s pos else pos + 1), d, s, len, pos)
      \<in> measure (\<lambda>(d, s, len, pos). len - pos)"
    using skip_span_ge [of pos d s] by (simp add: diff_less_mono2)
qed

declare terminal_loop.simps [simp del] next_semantic.simps [simp del]

section \<open>Statement bodies\<close>

text \<open>\<^verbatim>\<open>sqlparser_statement_scan_t\<close> and \<^verbatim>\<open>sqlparser_statement_span_t\<close>\<close>

record statement_scan =
  st_dialect :: dialect
  st_sql :: string
  st_length :: nat
  st_pos :: nat
  st_line_prefix :: bool

record statement_span =
  body_start :: nat
  body_end :: nat

definition statement_scan_init :: "dialect \<Rightarrow> string \<Rightarrow> nat \<Rightarrow> statement_scan" where
  "statement_scan_init d s len =
     \<lparr>st_dialect = d, st_sql = s, st_length = len, st_pos = 0, st_line_prefix = True\<rparr>"

text \<open>
  The inner loop of \<^verbatim>\<open>sqlparser_public_statement_scan_next\<close>: the position and line prefix it leaves,
  and the body if it met one (\<open>None\<close> is \<^verbatim>\<open>body_start == SIZE_MAX\<close>).
\<close>

function statement_loop ::
  "dialect \<Rightarrow> string \<Rightarrow> nat \<Rightarrow> nat \<Rightarrow> bool \<Rightarrow> statement_span option
     \<Rightarrow> nat \<times> bool \<times> statement_span option" where
  "statement_loop d s len pos line_prefix body =
     (if pos < len
      then case next_piece d s line_prefix pos of
        (Blank, n, lp) \<Rightarrow> statement_loop d s len n lp body
      | (Comment, n, lp) \<Rightarrow> statement_loop d s len n lp body
      | (Semicolon, n, lp) \<Rightarrow> (n, lp, body)
      | (Batch, n, lp) \<Rightarrow> (n, lp, body)
      | (Body, n, lp) \<Rightarrow>
          statement_loop d s len n lp
            (Some \<lparr>body_start = (case body of None \<Rightarrow> pos | Some b \<Rightarrow> body_start b), body_end = n\<rparr>)
      else (pos, line_prefix, body))"
  by pat_completeness auto
termination
  by (relation "measure (\<lambda>(d, s, len, pos, lp, body). len - pos)")
     (auto dest!: next_piece_progress [OF sym] intro: diff_less_mono2)

declare statement_loop.simps [simp del]

lemma statement_loop_progress:
  "statement_loop d s len pos lp body = (n, lp', body') \<Longrightarrow> pos \<le> n \<and> (pos < len \<longrightarrow> pos < n)"
proof (induction d s len pos lp body rule: statement_loop.induct)
  case (1 d s len pos lp body)
  obtain k m l where np: "next_piece d s lp pos = (k, m, l)" by (cases "next_piece d s lp pos")
  have m: "pos < m" using next_piece_progress [OF np] by simp
  show ?case
  proof (cases "pos < len")
    case True
    note IH = "1.IH" [OF True np [symmetric] _ refl]
    show ?thesis
      using "1.prems" True np m IH
      by (cases k) (fastforce simp: statement_loop.simps [of d s len pos lp body])+
  next
    case False
    with "1.prems" show ?thesis by (simp add: statement_loop.simps [of d s len pos lp body])
  qed
qed

text \<open>\<^verbatim>\<open>sqlparser_public_statement_scan_next\<close>; \<open>None\<close> when it returns 0.\<close>

function statement_scan_next :: "statement_scan \<Rightarrow> statement_span option \<times> statement_scan" where
  "statement_scan_next scan =
     (if st_pos scan < st_length scan
      then case statement_loop (st_dialect scan) (st_sql scan) (st_length scan) (st_pos scan)
                  (st_line_prefix scan) None of
             (n, lp, Some body) \<Rightarrow> (Some body, scan\<lparr>st_pos := n, st_line_prefix := lp\<rparr>)
           | (n, lp, None) \<Rightarrow> statement_scan_next (scan\<lparr>st_pos := n, st_line_prefix := lp\<rparr>)
      else (None, scan))"
  by pat_completeness auto
termination
  by (relation "measure (\<lambda>scan. st_length scan - st_pos scan)")
     (auto dest!: statement_loop_progress [OF sym] intro: diff_less_mono2)

declare statement_scan_next.simps [simp del]

text \<open>
  \<^verbatim>\<open>sqlparser_public_statement_bodies_compatible\<close>: two bodies begin with the same word, in any case
  of its letters, or with the same byte.
\<close>

definition statement_bodies_compatible ::
  "string \<Rightarrow> statement_span \<Rightarrow> string \<Rightarrow> statement_span \<Rightarrow> bool" where
  "statement_bodies_compatible source source_span output output_span =
     (if body_start source_span \<ge> body_end source_span \<or>
         body_start output_span \<ge> body_end output_span then False
      else
        let a = body_start source_span; b = body_start output_span
        in if \<not> public_char_is_ident (char_at source a) \<or> \<not> public_char_is_ident (char_at output b)
           then char_at source a = char_at output b
           else
             let ae = scan_while public_char_is_ident source (body_end source_span) a;
                 be = scan_while public_char_is_ident output (body_end output_span) b
             in if ae - a \<noteq> be - b then False
                else map c_tolower (slice source a ae) = map c_tolower (slice output b be))"

section \<open>Positions the scans stop at\<close>

text \<open>
  All scans of a text step over a quote, a comment or a byte.  \<open>aligned d s p q\<close>: stepping from \<open>p\<close>
  arrives at \<open>q\<close>.
\<close>

definition scan_step :: "dialect \<Rightarrow> string \<Rightarrow> nat \<Rightarrow> nat" where
  "scan_step d s p = (if skip_span d s p \<noteq> p then skip_span d s p else p + 1)"

lemma scan_step_greater: "p < scan_step d s p"
  using skip_span_ge [of p d s] by (simp add: scan_step_def)

lemma scan_step_comment: "public_comment_at d s p \<Longrightarrow> scan_step d s p = skip_span d s p"
  using comment_progress [of d s p] by (simp add: scan_step_def)

function aligned :: "dialect \<Rightarrow> string \<Rightarrow> nat \<Rightarrow> nat \<Rightarrow> bool" where
  "aligned d s p q = (if p < q then aligned d s (scan_step d s p) q else p = q)"
  by pat_completeness auto
termination
  by (relation "measure (\<lambda>(d, s, p, q). q - p)") (auto intro: diff_less_mono2 scan_step_greater)

declare aligned.simps [simp del]

lemma aligned_refl [simp]: "aligned d s p p"
  by (simp add: aligned.simps)

lemma aligned_le: "aligned d s p q \<Longrightarrow> p \<le> q"
  by (auto simp: aligned.simps [of d s p] split: if_splits)

lemma aligned_step: "p < q \<Longrightarrow> aligned d s p q = aligned d s (scan_step d s p) q"
  by (simp add: aligned.simps [of d s p])

lemma aligned_step_self: "aligned d s p (scan_step d s p)"
  by (simp add: aligned_step scan_step_greater)

lemma aligned_trans: "aligned d s p q \<Longrightarrow> aligned d s q r \<Longrightarrow> aligned d s p r"
proof (induction d s p q rule: aligned.induct)
  case (1 d s p q)
  show ?case
  proof (cases "p < q")
    case True
    with 1 have "aligned d s (scan_step d s p) r" by (simp add: aligned_step)
    moreover have "p < r" using True aligned_le [OF "1.prems"(2)] by simp
    ultimately show ?thesis by (simp add: aligned_step)
  next
    case False
    with 1 show ?thesis by (simp add: aligned.simps [of d s p q])
  qed
qed

text \<open>A search for a comment with meaning stops at every position it is aligned with.\<close>

lemma next_semantic_aligned:
  "next_semantic d s q p = (Some c, n) \<Longrightarrow> aligned d s p q \<Longrightarrow> sem_end c \<le> q \<and> aligned d s (sem_end c) q"
proof (induction d s q p rule: next_semantic.induct)
  case (1 d s q p)
  show ?case
  proof (cases "p < q")
    case False
    with "1.prems" show ?thesis by (simp add: next_semantic.simps [of d s q p])
  next
    case inside: True
    note al = "1.prems"(2) [unfolded aligned_step [OF inside]]
    show ?thesis
    proof (cases "public_comment_at d s p")
      case True
      note step = scan_step_comment [OF True]
      show ?thesis
      proof (cases "semantic_comment_kind_at s p = 0")
        case False
        with "1.prems" inside True al step aligned_le [OF al] show ?thesis
          by (auto simp: next_semantic.simps [of d s q p])
      next
        case zero: True
        with "1.prems" inside True have "next_semantic d s q (skip_span d s p) = (Some c, n)"
          by (simp add: next_semantic.simps [of d s q p])
        with "1.IH"(1) [OF inside True _ this] zero al step show ?thesis by simp
      qed
    next
      case False
      with "1.prems" inside have "next_semantic d s q (scan_step d s p) = (Some c, n)"
        by (simp add: next_semantic.simps [of d s q p] scan_step_def)
      with "1.IH"(2) [OF inside False] al show ?thesis by (simp add: scan_step_def)
    qed
  qed
qed

text \<open>Without GO lines every piece is one step.\<close>

lemma skip_span_plain: "c_isspace (char_at s p) \<or> char_at s p = CHR '';'' \<Longrightarrow> skip_span d s p = p"
proof -
  assume c: "c_isspace (char_at s p) \<or> char_at s p = CHR '';''"
  have "char_at s p \<notin> {CHR ''$'', CHR ''q'', CHR ''Q'', CHR ''n'', CHR ''N'', CHR ''-'', CHR ''#'',
      CHR ''/'', CHR ''['', CHR 0x60, QUOTE, CHR 0x22}"
  proof
    assume "char_at s p \<in> {CHR ''$'', CHR ''q'', CHR ''Q'', CHR ''n'', CHR ''N'', CHR ''-'',
        CHR ''#'', CHR ''/'', CHR ''['', CHR 0x60, QUOTE, CHR 0x22}"
    with c show False unfolding insert_iff empty_iff by (elim disjE) (simp_all add: c_isspace_def)
  qed
  then show ?thesis by (simp add: skip_span_def)
qed

lemma next_piece_step:
  assumes "\<not> is_sqlserver_compatible d" "next_piece d s lp p = (k, n, lp')"
  shows "n = scan_step d s p \<and> k \<noteq> Batch"
proof -
  have "public_sqlserver_go_at d (Some s) p = None"
    using assms(1) by (simp add: public_sqlserver_go_at_def)
  with assms(2) show ?thesis
    using scan_step_comment [of d s p] skip_span_plain [of s p d]
    by (auto simp: next_piece_def Let_def scan_step_def split: if_splits)
qed

lemma statement_loop_aligned:
  "\<not> is_sqlserver_compatible d \<Longrightarrow> statement_loop d s len pos lp body = (n, lp', body') \<Longrightarrow>
   (case body of None \<Rightarrow> True | Some b \<Rightarrow> aligned d s (body_end b) pos) \<Longrightarrow>
   (case body' of
      None \<Rightarrow> body = None \<and> aligned d s pos n
    | Some b' \<Rightarrow> aligned d s (body_end b') n \<and>
        (case body of None \<Rightarrow> aligned d s pos (body_start b') | Some b \<Rightarrow> body_start b' = body_start b))"
proof (induction d s len pos lp body rule: statement_loop.induct)
  case (1 d s len pos lp body)
  show ?case
  proof (cases "pos < len")
    case False
    with "1.prems" show ?thesis
      by (auto simp: statement_loop.simps [of d s len pos lp body] split: option.splits)
  next
    case True
    obtain k m l where np: "next_piece d s lp pos = (k, m, l)" by (cases "next_piece d s lp pos")
    have m: "m = scan_step d s pos" "k \<noteq> Batch" using next_piece_step [OF "1.prems"(1) np] by auto
    have al: "aligned d s pos m" using aligned_step_self m(1) by simp
    have on: "case body of None \<Rightarrow> True | Some b \<Rightarrow> aligned d s (body_end b) m"
      using "1.prems"(3) al by (auto split: option.splits intro: aligned_trans)
    note IH = "1.IH" [OF True np [symmetric] _ refl "1.prems"(1)]
    show ?thesis
    proof (cases "k = Body")
      case body: True
      then have run: "statement_loop d s len m l
          (Some \<lparr>body_start = (case body of None \<Rightarrow> pos | Some b \<Rightarrow> body_start b), body_end = m\<rparr>)
          = (n, lp', body')"
        using "1.prems"(2) True np by (simp add: statement_loop.simps [of d s len pos lp body])
      from IH(3) [OF body this] show ?thesis
        by (auto split: option.splits)
    next
      case other: False
      show ?thesis
      proof (cases "k = Semicolon")
        case True
        then have "n = m" "body' = body"
          using "1.prems"(2) \<open>pos < len\<close> np by (simp_all add: statement_loop.simps [of d s len pos lp body])
        with on al show ?thesis by (auto split: option.splits)
      next
        case False
        then have k: "k = Blank \<or> k = Comment" using other m(2) by (cases k) auto
        then have run: "statement_loop d s len m l body = (n, lp', body')"
          using "1.prems"(2) \<open>pos < len\<close> np by (auto simp: statement_loop.simps [of d s len pos lp body])
        from k IH(1) [OF _ run on] IH(2) [OF _ run on] al show ?thesis
          by (auto split: option.splits intro: aligned_trans)
      qed
    qed
  qed
qed

section \<open>The bodies a statement scan delivers\<close>

lemma next_piece_bound:
  assumes "next_piece d s lp pos = (k, n, lp')" "pos < len"
  shows "n \<le> max len (length s)"
proof (cases "pos < length s")
  case True
  with next_piece_progress [OF assms(1)] show ?thesis by auto
next
  case False
  then have nul: "char_at s pos = NUL" and skip: "skip_span d s pos = pos"
    by (simp_all add: skip_span_beyond)
  then have "\<not> public_comment_at d s pos" by (auto simp: public_comment_at_def)
  with nul skip assms show ?thesis by (auto simp: next_piece_def Let_def)
qed

lemma statement_loop_bounds:
  "statement_loop d s len pos lp body = (n, lp', body') \<Longrightarrow> pos \<le> max len (length s) \<Longrightarrow>
   (case body of None \<Rightarrow> True | Some b \<Rightarrow> body_start b < body_end b \<and> body_end b \<le> pos) \<Longrightarrow>
   n \<le> max len (length s) \<and>
   (case body' of
      None \<Rightarrow> True
    | Some b' \<Rightarrow> body_start b' < body_end b' \<and> body_end b' \<le> n \<and>
        (case body of None \<Rightarrow> pos \<le> body_start b' | Some b \<Rightarrow> body_start b' = body_start b))"
proof (induction d s len pos lp body rule: statement_loop.induct)
  case (1 d s len pos lp body)
  show ?case
  proof (cases "pos < len")
    case False
    with "1.prems" show ?thesis
      by (auto simp: statement_loop.simps [of d s len pos lp body] split: option.splits)
  next
    case True
    obtain k m l where np: "next_piece d s lp pos = (k, m, l)" by (cases "next_piece d s lp pos")
    have m: "pos < m" "m \<le> max len (length s)"
      using next_piece_progress [OF np] next_piece_bound [OF np True] by simp_all
    have on: "case body of None \<Rightarrow> True | Some b \<Rightarrow> body_start b < body_end b \<and> body_end b \<le> m"
      using "1.prems"(3) m by (auto split: option.splits)
    note IH = "1.IH" [OF True np [symmetric] _ refl _ m(2)]
    consider "k = Blank \<or> k = Comment" | "k = Semicolon \<or> k = Batch" | "k = Body" by (cases k) auto
    then show ?thesis
    proof cases
      case 1
      then have run: "statement_loop d s len m l body = (n, lp', body')"
        using "1.prems"(1) True np by (auto simp: statement_loop.simps [of d s len pos lp body])
      from 1 IH(1) [OF _ run on] IH(2) [OF _ run on] m show ?thesis by (auto split: option.splits)
    next
      case 2
      then have "n = m" "body' = body"
        using "1.prems"(1) True np by (auto simp: statement_loop.simps [of d s len pos lp body])
      with on m show ?thesis by (auto split: option.splits)
    next
      case 3
      let ?b = "\<lparr>body_start = (case body of None \<Rightarrow> pos | Some b \<Rightarrow> body_start b), body_end = m\<rparr>"
      have run: "statement_loop d s len m l (Some ?b) = (n, lp', body')"
        using "1.prems"(1) True np 3 by (simp add: statement_loop.simps [of d s len pos lp body])
      have "body_start ?b < body_end ?b \<and> body_end ?b \<le> m"
        using "1.prems"(3) m by (auto split: option.splits)
      then have "case Some ?b of None \<Rightarrow> True | Some b \<Rightarrow> body_start b < body_end b \<and> body_end b \<le> m"
        by simp
      from IH(3) [OF 3 run this] show ?thesis by (auto split: option.splits)
    qed
  qed
qed

text \<open>The first call of the inner loop that meets a body, behind calls that meet none.\<close>

lemma statement_scan_next_cases:
  assumes "statement_scan_next scan = (found, scan')"
  obtains (none) "found = None" "st_length scan \<le> st_pos scan'"
  | (found) b where "found = Some b" "st_pos scan < st_length scan"
  using assms
proof (induction scan rule: statement_scan_next.induct)
  case (1 scan)
  show ?case
  proof (cases "st_pos scan < st_length scan")
    case False
    with "1.prems" show ?thesis by (simp add: statement_scan_next.simps [of scan])
  next
    case True
    obtain n lp body where run: "statement_loop (st_dialect scan) (st_sql scan) (st_length scan)
        (st_pos scan) (st_line_prefix scan) None = (n, lp, body)" by (metis prod_cases3)
    show ?thesis
    proof (cases body)
      case None
      with True run "1.prems"(3)
      have rest: "statement_scan_next (scan\<lparr>st_pos := n, st_line_prefix := lp\<rparr>) = (found, scan')"
        by (simp add: statement_scan_next.simps [of scan])
      show ?thesis
        using "1.IH" [OF True run [symmetric] refl None _ _ rest] "1.prems"(1,2) True by simp
    next
      case (Some b)
      with True run "1.prems" show ?thesis by (auto simp: statement_scan_next.simps [of scan])
    qed
  qed
qed

lemma statement_scan_next_bounds:
  "statement_scan_next scan = (found, scan') \<Longrightarrow> st_pos scan \<le> max (st_length scan) (length (st_sql scan)) \<Longrightarrow>
   st_length scan' = st_length scan \<and> st_sql scan' = st_sql scan \<and> st_dialect scan' = st_dialect scan \<and>
   st_pos scan \<le> st_pos scan' \<and> st_pos scan' \<le> max (st_length scan) (length (st_sql scan)) \<and>
   (\<forall>b. found = Some b \<longrightarrow> st_pos scan \<le> body_start b \<and> body_start b < body_end b \<and>
      body_end b \<le> st_pos scan')"
proof (induction scan rule: statement_scan_next.induct)
  case (1 scan)
  show ?case
  proof (cases "st_pos scan < st_length scan")
    case False
    with "1.prems" show ?thesis by (auto simp: statement_scan_next.simps [of scan])
  next
    case True
    obtain n lp body where run: "statement_loop (st_dialect scan) (st_sql scan) (st_length scan)
        (st_pos scan) (st_line_prefix scan) None = (n, lp, body)" by (metis prod_cases3)
    note b = statement_loop_bounds [OF run "1.prems"(2)]
    show ?thesis
    proof (cases body)
      case None
      with True run "1.prems"(1)
      have rest: "statement_scan_next (scan\<lparr>st_pos := n, st_line_prefix := lp\<rparr>) = (found, scan')"
        by (simp add: statement_scan_next.simps [of scan])
      show ?thesis
        using "1.IH" [OF True run [symmetric] refl None rest] b statement_loop_progress [OF run] by auto
    next
      case (Some b')
      with True run "1.prems" b statement_loop_progress [OF run] show ?thesis
        by (auto simp: statement_scan_next.simps [of scan])
    qed
  qed
qed

lemma statement_scan_next_aligned:
  "statement_scan_next scan = (found, scan') \<Longrightarrow> \<not> is_sqlserver_compatible (st_dialect scan) \<Longrightarrow>
   (case found of
      None \<Rightarrow> aligned (st_dialect scan) (st_sql scan) (st_pos scan) (st_pos scan')
    | Some b \<Rightarrow> aligned (st_dialect scan) (st_sql scan) (st_pos scan) (body_start b) \<and>
        aligned (st_dialect scan) (st_sql scan) (body_end b) (st_pos scan'))"
proof (induction scan rule: statement_scan_next.induct)
  case (1 scan)
  show ?case
  proof (cases "st_pos scan < st_length scan")
    case False
    with "1.prems" show ?thesis by (auto simp: statement_scan_next.simps [of scan])
  next
    case True
    obtain n lp body where run: "statement_loop (st_dialect scan) (st_sql scan) (st_length scan)
        (st_pos scan) (st_line_prefix scan) None = (n, lp, body)" by (metis prod_cases3)
    note b = statement_loop_aligned [OF "1.prems"(2) run]
    show ?thesis
    proof (cases body)
      case None
      with True run "1.prems"(1)
      have rest: "statement_scan_next (scan\<lparr>st_pos := n, st_line_prefix := lp\<rparr>) = (found, scan')"
        by (simp add: statement_scan_next.simps [of scan])
      show ?thesis
        using "1.IH" [OF True run [symmetric] refl None rest] "1.prems"(2) b None
        by (auto split: option.splits intro: aligned_trans)
    next
      case (Some b')
      with True run "1.prems" b show ?thesis by (auto simp: statement_scan_next.simps [of scan])
    qed
  qed
qed

text \<open>A call that delivers a body.\<close>

definition next_body :: "statement_scan \<Rightarrow> (statement_span \<times> statement_scan) option" where
  "next_body scan =
     (case statement_scan_next scan of (None, _) \<Rightarrow> None | (Some b, scan') \<Rightarrow> Some (b, scan'))"

lemma next_body_Some:
  "next_body scan = Some (b, scan') \<longleftrightarrow> statement_scan_next scan = (Some b, scan')"
  by (auto simp: next_body_def split: prod.splits option.splits)

interpretation bodies: item_source next_body st_pos
  "\<lambda>scan. max (st_length scan) (length (st_sql scan))" body_start body_end
proof
  fix scan b scan' assume "next_body scan = Some (b, scan')"
  then have run: "statement_scan_next scan = (Some b, scan')" by (simp add: next_body_Some)
  have "st_pos scan \<le> max (st_length scan) (length (st_sql scan))"
    by (rule statement_scan_next_cases [OF run]) auto
  from statement_scan_next_bounds [OF run this]
  show "st_pos scan \<le> body_start b \<and> body_start b < body_end b \<and> body_end b \<le> st_pos scan' \<and>
      st_pos scan' \<le> max (st_length scan) (length (st_sql scan)) \<and>
      max (st_length scan') (length (st_sql scan')) = max (st_length scan) (length (st_sql scan))"
    by simp
qed

end
