(* ===== verification/Source_Envelope.thy ===== *)
theory Source_Envelope
  imports Public_Scan Source_Edits
begin

text \<open>
  The source envelope (\<^verbatim>\<open>sqlparser_restore_source_envelope\<close> in \<^verbatim>\<open>src/core/sqlparser_surface.c\<close>): the
  printed SQL gets back what the caller wrote around the statement bodies - blanks, comments,
  separators - while comments that carry meaning stay as they were printed.  The gaps between the
  bodies of both texts are compared, a plan of edits is made (once to count, once to fill an array
  of that size), and the plan is applied under the output limit.
\<close>

section \<open>Edits on the output\<close>

text \<open>\<^verbatim>\<open>sqlparser_surface_edit_t\<close>: bytes of the output and the source bytes that replace them.\<close>

record surface_edit =
  ed_output_start :: nat
  ed_output_end :: nat
  ed_source :: "string option"
  ed_source_length :: nat
  ed_source_start :: nat
  ed_source_end :: nat

definition sizeof_surface_edit :: nat where "sizeof_surface_edit = 48"

text \<open>The difference of two \<^verbatim>\<open>size_t\<close> values, which wraps when the second is larger.\<close>

definition size_sub :: "nat \<Rightarrow> nat \<Rightarrow> nat" where
  "size_sub a b = (if b \<le> a then a - b else a + 2 ^ 64 - b)"

text \<open>\<^verbatim>\<open>sqlparser_surface_ranges_equal\<close>\<close>

definition ranges_equal :: "string \<Rightarrow> nat \<Rightarrow> nat \<Rightarrow> string \<Rightarrow> nat \<Rightarrow> nat \<Rightarrow> bool" where
  "ranges_equal l ls le r rs re =
     (let left_length = size_sub le ls; right_length = size_sub re rs
      in left_length = right_length \<and>
         (left_length = 0 \<or> take left_length (drop ls l) = take left_length (drop rs r)))"

text \<open>
  The array of edits and the count of \<^verbatim>\<open>sqlparser_surface_plan_gap_edits\<close>: no array (\<^verbatim>\<open>edits == NULL\<close>)
  while counting, else an array whose entries are not initialised (\<open>None\<close>) until they are written.
\<close>

type_synonym edit_plan = "surface_edit option list option \<times> nat"

definition put_edit :: "nat \<Rightarrow> surface_edit \<Rightarrow> edit_plan \<Rightarrow> edit_plan option" where
  "put_edit capacity e plan =
     (case plan of (edits, count) \<Rightarrow>
        if count = SIZE_MAX \<or> (edits \<noteq> None \<and> count \<ge> capacity) then None
        else Some (map_option (\<lambda>es. es[count := Some e]) edits, count + 1))"

text \<open>One comparison of the planner: bytes that differ get an edit.\<close>

definition plan_range ::
  "string \<Rightarrow> nat \<Rightarrow> string \<Rightarrow> nat \<Rightarrow> nat \<Rightarrow> nat \<Rightarrow> nat \<Rightarrow> nat \<Rightarrow> edit_plan \<Rightarrow> edit_plan option" where
  "plan_range source source_length output capacity sa sb oa ob plan =
     (if \<not> ranges_equal source sa sb output oa ob
      then put_edit capacity
             \<lparr>ed_output_start = oa, ed_output_end = ob, ed_source = Some source,
              ed_source_length = source_length, ed_source_start = sa, ed_source_end = sb\<rparr> plan
      else Some plan)"

text \<open>The loop of \<^verbatim>\<open>sqlparser_surface_plan_gap_edits\<close> over the comments that carry meaning.\<close>

lemma next_semantic_progress:
  "next_semantic d s len pos = (Some c, n) \<Longrightarrow>
     pos \<le> sem_start c \<and> sem_start c < len \<and> sem_start c < sem_end c \<and> n = sem_end c"
proof (induction d s len pos rule: next_semantic.induct)
  case (1 d s len pos)
  show ?case
  proof (cases "pos < len")
    case False
    with "1.prems" show ?thesis by (simp add: next_semantic.simps [of d s len pos])
  next
    case inside: True
    show ?thesis
    proof (cases "public_comment_at d s pos")
      case True
      note progress = comment_progress [OF True]
      show ?thesis
      proof (cases "semantic_comment_kind_at s pos = 0")
        case False
        with "1.prems" inside True progress show ?thesis
          by (auto simp: next_semantic.simps [of d s len pos])
      next
        case zero: True
        with "1.prems" inside True have "next_semantic d s len (skip_span d s pos) = (Some c, n)"
          by (simp add: next_semantic.simps [of d s len pos])
        from "1.IH"(1) [OF inside True _ this] zero progress show ?thesis by simp
      qed
    next
      case False
      let ?m = "if skip_span d s pos \<noteq> pos then skip_span d s pos else pos + 1"
      from "1.prems" inside False have "next_semantic d s len ?m = (Some c, n)"
        by (simp add: next_semantic.simps [of d s len pos])
      from "1.IH"(2) [OF inside False this] skip_span_ge [of pos d s] show ?thesis
        by (auto split: if_splits)
    qed
  qed
qed

function gap_loop ::
  "dialect \<Rightarrow> string \<Rightarrow> nat \<Rightarrow> nat \<Rightarrow> string \<Rightarrow> nat \<Rightarrow> nat \<Rightarrow> nat \<Rightarrow> nat \<Rightarrow> nat \<Rightarrow> nat
     \<Rightarrow> edit_plan \<Rightarrow> edit_plan option" where
  "gap_loop d source source_length src_end output output_end capacity sc oc sp op plan =
     (case next_semantic d source src_end sp of (source_found, sp') \<Rightarrow>
      case next_semantic d output output_end op of (output_found, op') \<Rightarrow>
        (case (source_found, output_found) of
           (None, None) \<Rightarrow>
             plan_range source source_length output capacity sc src_end oc output_end plan
         | (Some a, Some b) \<Rightarrow>
             if sem_kind a \<noteq> sem_kind b then None
             else (case plan_range source source_length output capacity sc (sem_start a) oc
                          (sem_start b) plan of
                     None \<Rightarrow> None
                   | Some plan' \<Rightarrow>
                       gap_loop d source source_length src_end output output_end capacity
                         (sem_end a) (sem_end b) sp' op' plan')
         | _ \<Rightarrow> None))"
  by pat_completeness auto
termination
  by (relation "measure (\<lambda>(d, source, source_length, src_end, output, output_end, capacity, sc,
        oc, sp, op, plan). src_end - sp)")
     (auto dest!: next_semantic_progress [OF sym] intro: diff_less_mono2)

declare gap_loop.simps [simp del]

definition plan_gap_edits ::
  "dialect \<Rightarrow> string option \<Rightarrow> nat \<Rightarrow> nat \<Rightarrow> nat \<Rightarrow> string option \<Rightarrow> nat \<Rightarrow> nat \<Rightarrow> nat \<Rightarrow> nat
     \<Rightarrow> edit_plan \<Rightarrow> edit_plan option" where
  "plan_gap_edits d source_opt source_length src_start src_end output_opt output_length
      output_start output_end capacity plan =
     (case (source_opt, output_opt) of
        (Some source, Some output) \<Rightarrow>
          if src_start > src_end \<or> src_end > source_length \<or>
             output_start > output_end \<or> output_end > output_length then None
          else gap_loop d source source_length src_end output output_end capacity
                 src_start output_start src_start output_start plan
      | _ \<Rightarrow> None)"

lemma statement_scan_shrinks:
  assumes "statement_scan_next scan = (Some b, scan')"
  shows "st_length scan' - st_pos scan' < st_length scan - st_pos scan"
proof -
  have "st_pos scan < st_length scan" by (rule statement_scan_next_cases [OF assms]) auto
  moreover from this have "st_pos scan \<le> max (st_length scan) (length (st_sql scan))" by simp
  ultimately show ?thesis
    using statement_scan_next_bounds [OF assms] by (auto intro!: diff_less_mono2)
qed

text \<open>
  The loop of \<^verbatim>\<open>sqlparser_surface_plan_statement_gap_edits\<close>, with the plan of the last gap; \<open>saw\<close> is
  \<^verbatim>\<open>saw_body\<close>.
\<close>

function statements_loop ::
  "dialect \<Rightarrow> string \<Rightarrow> nat \<Rightarrow> string \<Rightarrow> nat \<Rightarrow> nat \<Rightarrow> statement_scan \<Rightarrow> statement_scan
     \<Rightarrow> nat \<Rightarrow> nat \<Rightarrow> bool \<Rightarrow> edit_plan \<Rightarrow> edit_plan option" where
  "statements_loop d source source_length output output_length capacity ss os sc oc saw plan =
     (case statement_scan_next ss of (source_found, ss') \<Rightarrow>
      case statement_scan_next os of (output_found, os') \<Rightarrow>
        (case (source_found, output_found) of
           (None, None) \<Rightarrow>
             if \<not> saw then None
             else plan_gap_edits d (Some source) source_length sc source_length (Some output)
                    output_length oc output_length capacity plan
         | (Some a, Some b) \<Rightarrow>
             if \<not> statement_bodies_compatible source a output b then None
             else (case plan_gap_edits d (Some source) source_length sc (body_start a) (Some output)
                          output_length oc (body_start b) capacity plan of
                     None \<Rightarrow> None
                   | Some plan' \<Rightarrow>
                       statements_loop d source source_length output output_length capacity ss' os'
                         (body_end a) (body_end b) True plan')
         | _ \<Rightarrow> None))"
  by pat_completeness auto
termination
  by (relation "measure (\<lambda>(d, source, source_length, output, output_length, capacity, ss, os, sc, oc,
        saw, plan). st_length ss - st_pos ss)")
     (auto dest!: statement_scan_shrinks [OF sym])

declare statements_loop.simps [simp del]

text \<open>The fields of the handle the envelope reads.\<close>

record envelope_handle =
  eh_dialect :: dialect
  eh_sql :: "string option"
  eh_sql_len :: nat
  eh_source_complete :: bool
  eh_source_edits :: source_edits
  eh_max_output_bytes :: nat

definition plan_statement_gap_edits ::
  "envelope_handle \<Rightarrow> nat \<Rightarrow> string option \<Rightarrow> nat \<Rightarrow> surface_edit option list option \<Rightarrow> nat
     \<Rightarrow> edit_plan option" where
  "plan_statement_gap_edits h source_length output_opt output_length edits capacity =
     (case (eh_sql h, output_opt) of
        (Some source, Some output) \<Rightarrow>
          statements_loop (eh_dialect h) source source_length output output_length capacity
            (statement_scan_init (eh_dialect h) source source_length)
            (statement_scan_init (eh_dialect h) output output_length) 0 0 False (edits, 0)
      | _ \<Rightarrow> None)"

section \<open>Applying the edits\<close>

text \<open>The measuring loop of \<^verbatim>\<open>sqlparser_surface_apply_edits\<close>.\<close>

fun measure_surface :: "nat \<Rightarrow> nat \<Rightarrow> nat \<Rightarrow> nat \<Rightarrow> surface_edit list \<Rightarrow> sql_error + nat" where
  "measure_surface output_length limit final cursor [] = Inr final"
| "measure_surface output_length limit final cursor (e # es) =
     (if ed_source e = None \<or> ed_output_start e < cursor \<or> ed_output_end e < ed_output_start e \<or>
         ed_output_end e > output_length \<or> ed_source_start e > ed_source_length e \<or>
         ed_source_end e < ed_source_start e \<or> ed_source_end e > ed_source_length e
      then fail INTERNAL_ERROR ''surface edit interval is invalid''
      else
        let removed = ed_output_end e - ed_output_start e;
          added = ed_source_end e - ed_source_start e
        in if removed > final then fail INTERNAL_ERROR ''surface edit interval is invalid''
           else if added > limit - (final - removed)
           then fail RESOURCE_LIMIT ''deparse output exceeds configured byte limit''
           else measure_surface output_length limit (final - removed + added) (ed_output_end e) es)"

text \<open>The copying loop, with the copy of the tail.\<close>

fun write_surface :: "string \<Rightarrow> nat \<Rightarrow> nat \<Rightarrow> surface_edit list \<Rightarrow> string" where
  "write_surface output output_length cursor [] =
     (if cursor < output_length then slice output cursor output_length else [])"
| "write_surface output output_length cursor (e # es) =
     slice output cursor (ed_output_start e) @
     slice (the (ed_source e)) (ed_source_start e) (ed_source_end e) @
     write_surface output output_length (ed_output_end e) es"

text \<open>
  \<^verbatim>\<open>sqlparser_surface_apply_edits\<close>: the new \<^verbatim>\<open>*in_out_sql\<close>.  \<open>grant\<close> answers its only allocation.
\<close>

definition apply_edits ::
  "(nat \<Rightarrow> bool) \<Rightarrow> string option \<Rightarrow> nat \<Rightarrow> surface_edit list option \<Rightarrow> nat \<Rightarrow> sql_error + string" where
  "apply_edits grant sql_opt output_length edits_opt limit =
     (case (sql_opt, edits_opt) of
        (Some output, Some edits) \<Rightarrow>
          if edits = [] then Inr output
          else if output_length > limit
          then fail RESOURCE_LIMIT ''deparse output exceeds configured byte limit''
          else (case measure_surface output_length limit output_length 0 edits of
            Inl err \<Rightarrow> Inl err
          | Inr final_length \<Rightarrow>
              if final_length = SIZE_MAX
              then fail RESOURCE_LIMIT ''deparse output exceeds configured byte limit''
              else if \<not> grant (final_length + 1) then fail NO_MEMORY ''out of memory''
              else
                let written = write_surface output output_length 0 edits
                in if length written \<noteq> final_length
                   then fail INTERNAL_ERROR ''surface edit output length is invalid''
                   else Inr written)
      | _ \<Rightarrow> fail INVALID_ARGUMENT ''surface edit arguments must not be NULL'')"

section \<open>The envelope\<close>

text \<open>
  The two planning calls and the allocation between them, as both callers of the planner make
  them; \<open>plan\<close> is the planner for an array and its capacity.  The messages name the caller.
\<close>

datatype planned = Unplanned | Nothing_To_Do | Plan_Error sql_error | Planned "surface_edit list"

definition plan_twice ::
  "allocator \<Rightarrow> string \<Rightarrow> string \<Rightarrow> (surface_edit option list option \<Rightarrow> nat \<Rightarrow> edit_plan option)
     \<Rightarrow> planned" where
  "plan_twice alloc too_many unstable plan =
     (case plan None 0 of
        None \<Rightarrow> Unplanned
      | Some (_, count) \<Rightarrow>
          if count = 0 then Nothing_To_Do
          else if count > SIZE_MAX div sizeof_surface_edit
          then Plan_Error (error_set_message RESOURCE_LIMIT too_many)
          else if \<not> alloc 0 (count * sizeof_surface_edit)
          then Plan_Error (error_set_message NO_MEMORY ''out of memory'')
          else (case plan (Some (replicate count None)) count of
                  Some (Some edits, planned_count) \<Rightarrow>
                    if planned_count \<noteq> count
                    then Plan_Error (error_set_message INTERNAL_ERROR unstable)
                    else Planned (map the edits)
                | _ \<Rightarrow> Plan_Error (error_set_message INTERNAL_ERROR unstable)))"

text \<open>
  \<^verbatim>\<open>sqlparser_surface_try_restore_statement_gaps\<close>: \<open>None\<close> when it succeeds with \<^verbatim>\<open>*out_handled == 0\<close>.
\<close>

definition try_restore_statement_gaps ::
  "allocator \<Rightarrow> envelope_handle \<Rightarrow> terminal_scan \<Rightarrow> terminal_scan \<Rightarrow> string
     \<Rightarrow> (sql_error + string) option" where
  "try_restore_statement_gaps alloc h source_scan output_scan sql =
     (if is_sqlserver_compatible (eh_dialect h) \<and> \<not> ts_has_batch_separator source_scan then None
      else case plan_twice alloc ''statement source envelope has too many intervals''
                  ''statement source envelope plan is unstable''
                  (plan_statement_gap_edits h (ts_length source_scan) (Some sql)
                     (ts_length output_scan)) of
             Unplanned \<Rightarrow> None
           | Nothing_To_Do \<Rightarrow> Some (Inr sql)
           | Plan_Error err \<Rightarrow> Some (Inl err)
           | Planned edits \<Rightarrow>
               Some (apply_edits (alloc 1) (Some sql) (ts_length output_scan) (Some edits)
                       (eh_max_output_bytes h)))"

text \<open>
  The end of \<^verbatim>\<open>sqlparser_restore_source_envelope\<close>, once both texts are scanned and the statement gaps
  are not restored: the text behind the last body.
\<close>

definition restore_tail ::
  "allocator \<Rightarrow> envelope_handle \<Rightarrow> string \<Rightarrow> terminal_scan \<Rightarrow> terminal_scan \<Rightarrow> string
     \<Rightarrow> sql_error + string" where
  "restore_tail alloc h source source_scan output_scan sql =
     (if ranges_equal source (ts_body_end source_scan) (ts_length source_scan)
           sql (ts_body_end output_scan) (ts_length output_scan)
      then Inr sql
      else case
        (if ts_semantic_count source_scan = ts_semantic_count output_scan \<and>
            ts_semantic_count source_scan > 0
         then plan_twice alloc ''source envelope has too many intervals''
                ''source envelope plan is unstable''
                (\<lambda>edits capacity.
                   plan_gap_edits (eh_dialect h) (Some source) (ts_length source_scan)
                     (ts_body_end source_scan) (ts_length source_scan) (Some sql)
                     (ts_length output_scan) (ts_body_end output_scan) (ts_length output_scan)
                     capacity (edits, 0))
         else Unplanned) of
          Nothing_To_Do \<Rightarrow> Inr sql
        | Plan_Error err \<Rightarrow> Inl err
        | Planned edits \<Rightarrow>
            apply_edits (alloc 1) (Some sql) (ts_length output_scan) (Some edits)
              (eh_max_output_bytes h)
        | Unplanned \<Rightarrow>
            let sc = (if ts_last_semantic_end source_scan > 0 then ts_last_semantic_end source_scan
                      else ts_body_end source_scan);
              oc = (if ts_last_semantic_end output_scan > 0 then ts_last_semantic_end output_scan
                    else ts_body_end output_scan)
            in if ranges_equal source sc (ts_length source_scan) sql oc (ts_length output_scan)
               then Inr sql
               else apply_edits (alloc 0) (Some sql) (ts_length output_scan)
                      (Some [\<lparr>ed_output_start = oc, ed_output_end = ts_length output_scan,
                         ed_source = Some source, ed_source_length = ts_length source_scan,
                         ed_source_start = sc, ed_source_end = ts_length source_scan\<rparr>])
                      (eh_max_output_bytes h))"

text \<open>
  \<^verbatim>\<open>sqlparser_restore_source_envelope\<close>: the new \<^verbatim>\<open>*in_out_sql\<close>; the outer \<open>None\<close> is a NULL pointer
  to it, the inner one a NULL text.
\<close>

definition restore_source_envelope ::
  "allocator \<Rightarrow> envelope_handle option \<Rightarrow> string option option \<Rightarrow> sql_error + string" where
  "restore_source_envelope alloc h_opt in_out_sql =
     (case (h_opt, in_out_sql) of
        (Some h, Some sql_opt) \<Rightarrow>
          (case eh_sql h of
             None \<Rightarrow> fail INVALID_ARGUMENT ''source envelope arguments must not be NULL''
           | Some source \<Rightarrow>
               if eh_source_complete h
               then restore_source_edits alloc source (eh_sql_len h) (eh_max_output_bytes h)
                      (eh_source_edits h)
               else (case sql_opt of
                 None \<Rightarrow> fail INVALID_ARGUMENT ''source envelope SQL must not be NULL''
               | Some sql \<Rightarrow>
                   (case (public_terminal_scan (eh_dialect h) (Some source),
                          public_terminal_scan (eh_dialect h) (Some sql)) of
                      (Some source_scan, Some output_scan) \<Rightarrow>
                        if ts_length source_scan \<noteq> eh_sql_len h
                        then fail INTERNAL_ERROR ''source envelope has no statement body''
                        else (case try_restore_statement_gaps alloc h source_scan output_scan sql of
                                Some result \<Rightarrow> result
                              | None \<Rightarrow> restore_tail alloc h source source_scan output_scan sql)
                    | _ \<Rightarrow> fail INTERNAL_ERROR ''source envelope has no statement body'')))
      | _ \<Rightarrow> fail INVALID_ARGUMENT ''source envelope arguments must not be NULL'')"

section \<open>What a plan does to the text\<close>

definition surface_view :: "surface_edit \<Rightarrow> replacement_edit" where
  "surface_view e = (ed_output_start e, ed_output_end e,
     slice (the (ed_source e)) (ed_source_start e) (ed_source_end e))"

lemma surface_view_Cons [simp]:
  "edits_in c n (surface_view e # es) = (c \<le> ed_output_start e \<and> ed_output_start e \<le> ed_output_end e \<and>
     ed_output_end e \<le> n \<and> edits_in (ed_output_end e) n es)"
  by (simp add: surface_view_def)

text \<open>
  The text of a gap: the source of the gap, with the comments that carry meaning as the output has
  them.
\<close>

function woven :: "dialect \<Rightarrow> string \<Rightarrow> nat \<Rightarrow> string \<Rightarrow> nat \<Rightarrow> nat \<Rightarrow> nat \<Rightarrow> string" where
  "woven d source src_end output output_end sc oc =
     (case (next_semantic d source src_end sc, next_semantic d output output_end oc) of
        ((Some a, _), (Some b, _)) \<Rightarrow>
          slice source sc (sem_start a) @ slice output (sem_start b) (sem_end b) @
          woven d source src_end output output_end (sem_end a) (sem_end b)
      | _ \<Rightarrow> slice source sc src_end)"
  by pat_completeness auto
termination
  by (relation "measure (\<lambda>(d, source, src_end, output, output_end, sc, oc). src_end - sc)")
     (auto dest!: next_semantic_progress [OF sym] intro!: diff_less_mono2)

declare woven.simps [simp del]

lemma splice_skip:
  "edits_in b n es \<Longrightarrow> c \<le> b \<Longrightarrow> b \<le> length s \<Longrightarrow> n \<le> length s \<Longrightarrow>
     splice s c es = slice s c b @ splice s b es"
proof (cases es)
  case Nil
  assume "c \<le> b" "b \<le> length s"
  then have "slice s c b @ slice s b (length s) = slice s c (length s)" by (simp add: slice_append)
  then show ?thesis by (simp add: Nil slice_to_end)
next
  case (Cons e es')
  assume "edits_in b n es" "c \<le> b" "b \<le> length s" "n \<le> length s"
  then show ?thesis by (cases e) (simp add: Cons slice_append flip: append_assoc)
qed

lemma ranges_equal_slice:
  assumes "ranges_equal l ls le r rs re" "ls \<le> le" "rs \<le> re"
  shows "slice l ls le = slice r rs re"
  using assms by (auto simp: ranges_equal_def size_sub_def slice_def Let_def)

text \<open>The edits of one plan: well-formed, with their effect on the text up to \<open>ob\<close>.\<close>

definition edit_sound :: "nat \<Rightarrow> surface_edit \<Rightarrow> bool" where
  "edit_sound source_length e =
     (ed_source e \<noteq> None \<and> ed_source_start e \<le> ed_source_end e \<and>
      ed_source_end e \<le> source_length \<and> ed_source_length e = source_length \<and>
      length (the (ed_source e)) = source_length)"

definition turns :: "string \<Rightarrow> string \<Rightarrow> nat \<Rightarrow> nat \<Rightarrow> string \<Rightarrow> surface_edit list \<Rightarrow> bool" where
  "turns source output oa ob t es =
     (list_all (edit_sound (length source)) es \<and>
      (\<forall>rest. edits_in ob (length output) rest \<longrightarrow>
         edits_in oa (length output) (map surface_view es @ rest) \<and>
         splice output oa (map surface_view es @ rest) = t @ splice output ob rest))"

lemma turns_append:
  assumes "turns source output oa ob t es" "turns source output ob oc u fs"
  shows "turns source output oa oc (t @ u) (es @ fs)"
  unfolding turns_def
proof (intro conjI allI impI)
  show "list_all (edit_sound (length source)) (es @ fs)" using assms by (simp add: turns_def)
next
  fix rest assume "edits_in oc (length output) rest"
  with assms(2) have fs: "edits_in ob (length output) (map surface_view fs @ rest)"
    "splice output ob (map surface_view fs @ rest) = u @ splice output oc rest"
    by (simp_all add: turns_def)
  with assms(1) show "edits_in oa (length output) (map surface_view (es @ fs) @ rest)"
    and "splice output oa (map surface_view (es @ fs) @ rest) = (t @ u) @ splice output oc rest"
    by (simp_all add: turns_def)
qed

lemma turns_keep:
  assumes "oa \<le> ob" "ob \<le> length output"
  shows "turns source output oa ob (slice output oa ob) []"
  unfolding turns_def
proof (intro conjI allI impI)
  fix rest assume rest: "edits_in ob (length output) rest"
  show "edits_in oa (length output) (map surface_view [] @ rest)"
    using rest assms(1) by (cases rest) auto
  show "splice output oa (map surface_view [] @ rest) = slice output oa ob @ splice output ob rest"
    using splice_skip [OF rest assms] by simp
qed simp

lemma turns_edit:
  assumes "oa \<le> ob" "ob \<le> length output" "sa \<le> sb" "sb \<le> length source"
  shows "turns source output oa ob (slice source sa sb)
    [\<lparr>ed_output_start = oa, ed_output_end = ob, ed_source = Some source,
      ed_source_length = length source, ed_source_start = sa, ed_source_end = sb\<rparr>]"
  using assms by (simp add: turns_def edit_sound_def surface_view_def)

section \<open>Planning\<close>

text \<open>
  \<open>plans f es c\<close>: from the count \<open>c\<close>, the planner \<open>f\<close> (given an array and a capacity) counts the
  edits \<open>es\<close> and, given room, writes exactly them.
\<close>

definition plans ::
  "(nat \<Rightarrow> edit_plan \<Rightarrow> edit_plan option) \<Rightarrow> nat \<Rightarrow> surface_edit list \<Rightarrow> bool" where
  "plans f c es =
     (f 0 (None, c) = Some (None, c + length es) \<and>
      (\<forall>arr. c + length es \<le> length arr \<longrightarrow>
         f (length arr) (Some arr, c)
           = Some (Some (take c arr @ map Some es @ drop (c + length es) arr), c + length es)))"

lemma plans_Nil: "(\<And>capacity plan. f capacity plan = Some plan) \<Longrightarrow> plans f c []"
  by (simp add: plans_def)

lemma plans_put:
  assumes "\<And>capacity plan. f capacity plan = put_edit capacity e plan" "c \<noteq> SIZE_MAX"
  shows "plans f c [e]"
  using assms(2) by (auto simp: plans_def assms(1) put_edit_def upd_conv_take_nth_drop)

lemma plans_bind:
  assumes "plans f c es" "plans g (c + length es) fs"
    and "\<And>capacity plan. h capacity plan = Option.bind (f capacity plan) (g capacity)"
  shows "plans h c (es @ fs)"
  unfolding plans_def
proof (intro conjI allI impI)
  show "h 0 (None, c) = Some (None, c + length (es @ fs))"
    using assms(1,2) by (simp add: assms(3) plans_def add.assoc)
next
  fix arr :: "surface_edit option list"
  assume room: "c + length (es @ fs) \<le> length arr"
  define mid where "mid = take c arr @ map Some es @ drop (c + length es) arr"
  have len: "length mid = length arr" using room by (simp add: mid_def)
  have "f (length arr) (Some arr, c) = Some (Some mid, c + length es)"
    using assms(1) room by (simp add: plans_def mid_def)
  then have h: "h (length arr) (Some arr, c) = g (length mid) (Some mid, c + length es)"
    by (simp add: assms(3) len)
  have g: "g (length mid) (Some mid, c + length es) =
      Some (Some (take (c + length es) mid @ map Some fs @ drop (c + length es + length fs) mid),
        c + length es + length fs)"
    using assms(2) [unfolded plans_def, THEN conjunct2, THEN spec, of mid] room by (simp add: len)
  have "take (c + length es) mid = take c arr @ map Some es" using room by (simp add: mid_def)
  moreover have "drop (c + length es + length fs) mid = drop (c + length (es @ fs)) arr"
    using room by (simp add: mid_def ac_simps)
  ultimately show "h (length arr) (Some arr, c) =
      Some (Some (take c arr @ map Some (es @ fs) @ drop (c + length (es @ fs)) arr), c + length (es @ fs))"
    unfolding h g by simp
qed

lemma plan_range_plans:
  assumes "plan_range source (length source) output 0 sa sb oa ob (None, c) = Some x"
    and "oa \<le> ob" "ob \<le> length output" "sa \<le> sb" "sb \<le> length source"
  obtains es where
    "plans (\<lambda>capacity. plan_range source (length source) output capacity sa sb oa ob) c es"
    "turns source output oa ob (slice source sa sb) es"
proof (cases "ranges_equal source sa sb output oa ob")
  case True
  show ?thesis
  proof (rule that)
    show "plans (\<lambda>capacity. plan_range source (length source) output capacity sa sb oa ob) c []"
      using True by (intro plans_Nil) (simp add: plan_range_def)
    show "turns source output oa ob (slice source sa sb) []"
      using turns_keep [OF assms(2,3)] ranges_equal_slice [OF True assms(4,2)] by simp
  qed
next
  case False
  have c: "c \<noteq> SIZE_MAX" using assms(1) False by (auto simp: plan_range_def put_edit_def)
  show ?thesis
    by (rule that, rule plans_put [OF _ c], simp add: plan_range_def False,
        rule turns_edit [OF assms(2-5)])
qed

text \<open>One gap.\<close>

lemma gap_loop_plans:
  "gap_loop d source (length source) src_end output output_end 0 sc oc sc oc (None, c) = Some x \<Longrightarrow>
   aligned d source sc src_end \<Longrightarrow> aligned d output oc output_end \<Longrightarrow>
   src_end \<le> length source \<Longrightarrow> output_end \<le> length output \<Longrightarrow>
   \<exists>es. plans (\<lambda>capacity. gap_loop d source (length source) src_end output output_end capacity
           sc oc sc oc) c es \<and>
     turns source output oc output_end (woven d source src_end output output_end sc oc) es"
proof (induction "src_end - sc" arbitrary: sc oc c x rule: less_induct)
  case less
  note le = aligned_le [OF less.prems(2)] aligned_le [OF less.prems(3)]
  obtain f sp' g op' where
    nf: "next_semantic d source src_end sc = (f, sp')" and
    ng: "next_semantic d output output_end oc = (g, op')" by (metis surj_pair)
  note loop = gap_loop.simps [of d source "length source" src_end "output" output_end _ sc oc sc oc,
      unfolded nf ng split_conv]
  note weave = woven.simps [of d source src_end "output" output_end sc oc, unfolded nf ng split_conv]
  show ?case
  proof (cases f)
    case None
    with less.prems(1) have g: "g = None" by (cases g) (simp_all add: loop)
    with None less.prems(1) have "plan_range source (length source) output 0 sc src_end oc output_end
        (None, c) = Some x" by (simp add: loop)
    from plan_range_plans [OF this le(2) less.prems(5) le(1) less.prems(4)] obtain es where
      "plans (\<lambda>capacity. plan_range source (length source) output capacity sc src_end oc output_end) c es"
      "turns source output oc output_end (slice source sc src_end) es" .
    moreover have "gap_loop d source (length source) src_end output output_end capacity sc oc sc oc
        = plan_range source (length source) output capacity sc src_end oc output_end" for capacity
      by (rule ext) (simp add: loop None g)
    moreover have "woven d source src_end output output_end sc oc = slice source sc src_end"
      by (simp add: weave None g)
    ultimately show ?thesis by auto
  next
    case (Some a)
    with less.prems(1) obtain b where g: "g = Some b" by (cases g) (simp_all add: loop)
    with Some less.prems(1) have kind: "sem_kind a = sem_kind b" by (auto simp: loop split: if_splits)
    have a: "sc \<le> sem_start a" "sem_start a < src_end" "sem_start a < sem_end a" "sp' = sem_end a"
      using next_semantic_progress [OF nf [unfolded Some]] by simp_all
    have b: "oc \<le> sem_start b" "sem_start b < output_end" "sem_start b < sem_end b" "op' = sem_end b"
      using next_semantic_progress [OF ng [unfolded g]] by simp_all
    have al: "sem_end a \<le> src_end" "aligned d source (sem_end a) src_end"
      "sem_end b \<le> output_end" "aligned d output (sem_end b) output_end"
      using next_semantic_aligned [OF nf [unfolded Some] less.prems(2)]
        next_semantic_aligned [OF ng [unfolded g] less.prems(3)] by simp_all
    let ?first = "\<lambda>capacity. plan_range source (length source) output capacity sc (sem_start a) oc
      (sem_start b)"
    let ?rest = "\<lambda>capacity. gap_loop d source (length source) src_end output output_end capacity
      (sem_end a) (sem_end b) (sem_end a) (sem_end b)"
    have bind: "gap_loop d source (length source) src_end output output_end capacity sc oc sc oc plan
        = Option.bind (?first capacity plan) (?rest capacity)" for capacity plan
      using Some g kind a b by (simp add: loop split: option.split)
    then obtain y where first: "?first 0 (None, c) = Some y" and rest: "?rest 0 y = Some x"
      using less.prems(1) by (auto simp: bind_eq_Some_conv)
    have "sem_start b \<le> length output" "sem_start a \<le> length source"
      using a b less.prems(4,5) by simp_all
    then obtain es where es: "plans ?first c es"
      "turns source output oc (sem_start b) (slice source sc (sem_start a)) es"
      using plan_range_plans [OF first b(1) _ a(1)] by blast
    then have y: "y = (None, c + length es)" using first by (simp add: plans_def)
    have "src_end - sem_end a < src_end - sc" using a by (intro diff_less_mono2) auto
    from less.hyps [OF this rest [unfolded y] al(2,4) less.prems(4,5)] obtain fs where
      fs: "plans ?rest (c + length es) fs"
      "turns source output (sem_end b) output_end
         (woven d source src_end output output_end (sem_end a) (sem_end b)) fs" by blast
    have keep: "turns source output (sem_start b) (sem_end b) (slice output (sem_start b) (sem_end b)) []"
      using b al less.prems(5) by (intro turns_keep) auto
    have "turns source output oc output_end (woven d source src_end output output_end sc oc) (es @ fs)"
      using turns_append [OF es(2) turns_append [OF keep fs(2)]] Some g by (simp add: weave)
    moreover have "plans (\<lambda>capacity. gap_loop d source (length source) src_end output output_end capacity
        sc oc sc oc) c (es @ fs)"
      by (rule plans_bind [OF es(1) fs(1) bind])
    ultimately show ?thesis by blast
  qed
qed

text \<open>
  The whole text: the bodies of the output, each gap woven from both texts.
\<close>

function enveloped ::
  "dialect \<Rightarrow> string \<Rightarrow> string \<Rightarrow> statement_scan \<Rightarrow> statement_scan \<Rightarrow> nat \<Rightarrow> nat \<Rightarrow> string" where
  "enveloped d source output ss os sc oc =
     (case (statement_scan_next ss, statement_scan_next os) of
        ((Some a, ss'), (Some b, os')) \<Rightarrow>
          woven d source (body_start a) output (body_start b) sc oc @
          slice output (body_start b) (body_end b) @
          enveloped d source output ss' os' (body_end a) (body_end b)
      | _ \<Rightarrow> woven d source (length source) output (length output) sc oc)"
  by pat_completeness auto
termination
  by (relation "measure (\<lambda>(d, source, output, ss, os, sc, oc). st_length ss - st_pos ss)")
     (auto dest!: statement_scan_shrinks [OF sym])

declare enveloped.simps [simp del]

text \<open>A scan of a whole text of a dialect without GO lines, with the cursor of the gap before it.\<close>

definition scanning :: "dialect \<Rightarrow> string \<Rightarrow> nat \<Rightarrow> statement_scan \<Rightarrow> bool" where
  "scanning d s c scan =
     (\<not> is_sqlserver_compatible d \<and> st_dialect scan = d \<and> st_sql scan = s \<and>
      st_length scan = length s \<and> st_pos scan \<le> length s \<and> aligned d s c (st_pos scan))"

lemma scanning_init: "\<not> is_sqlserver_compatible d \<Longrightarrow> scanning d s 0 (statement_scan_init d s (length s))"
  by (simp add: scanning_def statement_scan_init_def)

lemma scanning_found:
  assumes "scanning d s c scan" "statement_scan_next scan = (Some b, scan')"
  shows "scanning d s (body_end b) scan' \<and> aligned d s c (body_start b) \<and>
    body_start b < body_end b \<and> body_end b \<le> length s"
  using assms statement_scan_next_bounds [OF assms(2)] statement_scan_next_aligned [OF assms(2)]
  by (auto simp: scanning_def intro: aligned_trans)

lemma scanning_end:
  assumes "scanning d s c scan" "statement_scan_next scan = (None, scan')"
  shows "aligned d s c (length s)"
proof -
  have "length s \<le> st_pos scan'"
    using assms(1) by (rule_tac statement_scan_next_cases [OF assms(2)]) (auto simp: scanning_def)
  then have "st_pos scan' = length s"
    using assms statement_scan_next_bounds [OF assms(2)] by (auto simp: scanning_def)
  with assms statement_scan_next_aligned [OF assms(2)] show ?thesis
    by (auto simp: scanning_def intro: aligned_trans)
qed

lemma plan_gap_edits_Some:
  assumes "plan_gap_edits d (Some source) sl sa sb (Some output) ol oa ob capacity plan = Some x"
  shows "sa \<le> sb \<and> sb \<le> sl \<and> oa \<le> ob \<and> ob \<le> ol \<and>
    plan_gap_edits d (Some source) sl sa sb (Some output) ol oa ob
      = (\<lambda>capacity. gap_loop d source sl sb output ob capacity sa oa sa oa)"
  using assms by (auto simp: plan_gap_edits_def fun_eq_iff split: if_splits)

lemma gap_plans:
  assumes "plan_gap_edits d (Some source) (length source) sa sb (Some output) (length output) oa ob 0
      (None, c) = Some x"
    and "aligned d source sa sb" "aligned d output oa ob"
  obtains es where
    "plans (plan_gap_edits d (Some source) (length source) sa sb (Some output) (length output) oa ob) c es"
    "turns source output oa ob (woven d source sb output ob sa oa) es"
proof -
  note shape = plan_gap_edits_Some [OF assms(1)]
  with assms(1) have run: "gap_loop d source (length source) sb output ob 0 sa oa sa oa (None, c) = Some x"
    by simp
  from gap_loop_plans [OF run assms(2,3)] shape that show ?thesis by auto
qed

lemma statements_plans:
  "statements_loop d source (length source) output (length output) 0 ss os sc oc saw (None, c) = Some x \<Longrightarrow>
   scanning d source sc ss \<Longrightarrow> scanning d output oc os \<Longrightarrow>
   \<exists>es. plans (\<lambda>capacity. statements_loop d source (length source) output (length output) capacity
           ss os sc oc saw) c es \<and>
     turns source output oc (length output) (enveloped d source output ss os sc oc) es"
proof (induction "st_length ss - st_pos ss" arbitrary: ss os sc oc saw c x rule: less_induct)
  case less
  obtain f ss' g os' where
    nf: "statement_scan_next ss = (f, ss')" and
    ng: "statement_scan_next os = (g, os')" by (metis surj_pair)
  note loop = statements_loop.simps [of d source "length source" "output" "length output" _ ss os sc oc
      saw, unfolded nf ng split_conv]
  note whole = enveloped.simps [of d source "output" ss os sc oc, unfolded nf ng split_conv]
  show ?case
  proof (cases f)
    case None
    have g: "g = None" using less.prems(1) None by (cases g) (simp_all add: loop)
    have saw using less.prems(1) [unfolded loop None g] by (simp split: if_splits)
    have run: "plan_gap_edits d (Some source) (length source) sc (length source)
        (Some output) (length output) oc (length output) 0 (None, c) = Some x"
      using less.prems(1) [unfolded loop None g] by (simp split: if_splits)
    obtain es where
      "plans (plan_gap_edits d (Some source) (length source) sc (length source) (Some output)
         (length output) oc (length output)) c es"
      "turns source output oc (length output) (woven d source (length source) output (length output) sc oc) es"
      by (rule gap_plans [OF run scanning_end [OF less.prems(2) nf [unfolded None]]
            scanning_end [OF less.prems(3) ng [unfolded g]]])
    moreover have "statements_loop d source (length source) output (length output) capacity ss os sc oc
        saw = plan_gap_edits d (Some source) (length source) sc (length source) (Some output)
          (length output) oc (length output) capacity" for capacity
      by (rule ext, unfold loop None g) (simp add: \<open>saw\<close>)
    moreover have "enveloped d source output ss os sc oc
        = woven d source (length source) output (length output) sc oc" by (simp add: whole None g)
    ultimately show ?thesis by auto
  next
    case (Some a)
    with less.prems(1) obtain b where g: "g = Some b" by (cases g) (simp_all add: loop)
    note sa = scanning_found [OF less.prems(2) nf [unfolded Some]]
      and sb = scanning_found [OF less.prems(3) ng [unfolded g]]
    have compatible: "statement_bodies_compatible source a output b"
      using less.prems(1) Some g by (auto simp: loop split: if_splits)
    let ?first = "plan_gap_edits d (Some source) (length source) sc (body_start a) (Some output)
      (length output) oc (body_start b)"
    let ?rest = "\<lambda>capacity. statements_loop d source (length source) output (length output) capacity
      ss' os' (body_end a) (body_end b) True"
    have bind: "statements_loop d source (length source) output (length output) capacity ss os sc oc saw
        plan = Option.bind (?first capacity plan) (?rest capacity)" for capacity plan
      using Some g compatible by (simp add: loop split: option.split)
    then obtain y where first: "?first 0 (None, c) = Some y" and rest: "?rest 0 y = Some x"
      using less.prems(1) by (auto simp: bind_eq_Some_conv)
    obtain es where es: "plans ?first c es"
      "turns source output oc (body_start b) (woven d source (body_start a) output (body_start b) sc oc) es"
      using gap_plans [OF first] sa sb by blast
    then have y: "y = (None, c + length es)" using first by (simp add: plans_def)
    have "st_length ss' - st_pos ss' < st_length ss - st_pos ss"
      using statement_scan_shrinks nf Some by blast
    from less.hyps [OF this rest [unfolded y]] sa sb obtain fs where
      fs: "plans ?rest (c + length es) fs"
      "turns source output (body_end b) (length output)
         (enveloped d source output ss' os' (body_end a) (body_end b)) fs" by blast
    have keep: "turns source output (body_start b) (body_end b) (slice output (body_start b) (body_end b)) []"
      using sb by (intro turns_keep) auto
    have "turns source output oc (length output) (enveloped d source output ss os sc oc) (es @ fs)"
      using turns_append [OF es(2) turns_append [OF keep fs(2)]] by (simp add: whole Some g)
    moreover have "plans (\<lambda>capacity. statements_loop d source (length source) output (length output) capacity
        ss os sc oc saw) c (es @ fs)"
      by (rule plans_bind [OF es(1) fs(1) bind])
    ultimately show ?thesis by blast
  qed
qed

section \<open>Applying a plan\<close>

text \<open>An edit of the output as an edit of the kind the surface records.\<close>

definition as_source_edit :: "surface_edit \<Rightarrow> source_edit" where
  "as_source_edit e =
     (let t = slice (the (ed_source e)) (ed_source_start e) (ed_source_end e)
      in \<lparr>source_start = ed_output_start e, source_end = ed_output_end e,
          replacement = Some t, replacement_length = length t\<rparr>)"

lemma as_source_edit_fields [simp]:
  "source_start (as_source_edit e) = ed_output_start e"
  "source_end (as_source_edit e) = ed_output_end e"
  "replacement (as_source_edit e)
     = Some (slice (the (ed_source e)) (ed_source_start e) (ed_source_end e))"
  "replacement_length (as_source_edit e)
     = length (slice (the (ed_source e)) (ed_source_start e) (ed_source_end e))"
  by (simp_all add: as_source_edit_def Let_def)

lemma as_source_edit_facts [simp]:
  "edit_view (as_source_edit e) = surface_view e"
  "edit_sound n e \<Longrightarrow> n < SIZE_MAX \<Longrightarrow> ed_output_start e \<le> ed_output_end e \<Longrightarrow>
     edit_wf (as_source_edit e)"
  by (auto simp: as_source_edit_def edit_view_def surface_view_def edit_wf_def edit_sound_def Let_def)

lemma views_of_edits [simp]: "map (edit_view \<circ> as_source_edit) es = map surface_view es"
  by simp

lemma write_surface_eq: "write_surface s n c es = write_edits s n c (map as_source_edit es)"
  by (induction es arbitrary: c) (simp_all add: as_source_edit_def Let_def)

lemma edits_in_views_wf:
  "edits_in c n (map surface_view es) \<Longrightarrow> list_all (edit_sound m) es \<Longrightarrow> m < SIZE_MAX \<Longrightarrow>
     list_all edit_wf (map as_source_edit es)"
  by (induction es arbitrary: c) auto

lemma measure_surface_eq:
  "edits_in c n (map surface_view es) \<Longrightarrow> list_all (edit_sound m) es \<Longrightarrow> n - c \<le> final \<Longrightarrow>
     measure_surface n limit final c es = measure_edits n limit final c (map as_source_edit es)"
proof (induction es arbitrary: c final)
  case (Cons e es)
  let ?a = "ed_output_start e" and ?b = "ed_output_end e"
  have e: "c \<le> ?a" "?a \<le> ?b" "?b \<le> n" "edits_in ?b n (map surface_view es)" "edit_sound m e"
    "list_all (edit_sound m) es"
    using Cons.prems by auto
  have room: "?b - ?a \<le> final" "n - ?b \<le> final - (?b - ?a)" using e Cons.prems by auto
  have added: "length (slice (the (ed_source e)) (ed_source_start e) (ed_source_end e))
      = ed_source_end e - ed_source_start e"
    using e(5) by (simp add: edit_sound_def)
  define final' where "final' = final - (?b - ?a) + (ed_source_end e - ed_source_start e)"
  have IH: "measure_surface n limit final' ?b es = measure_edits n limit final' ?b (map as_source_edit es)"
    using Cons.IH [OF e(4,6)] room by (simp add: final'_def)
  have ok: "\<not> (ed_source e = None \<or> ?a < c \<or> ?b < ?a \<or> n < ?b \<or> ed_source_length e < ed_source_start e \<or>
      ed_source_end e < ed_source_start e \<or> ed_source_length e < ed_source_end e)"
    using e by (auto simp: edit_sound_def)
  have ok': "\<not> (replacement (as_source_edit e) = None \<or> ?a < c \<or> ?b < ?a \<or> n < ?b)"
    using e by simp
  show ?case
    unfolding measure_surface.simps list.map measure_edits.simps Let_def as_source_edit_fields(1,2,4) added
      if_not_P [OF ok] if_not_P [OF ok' [unfolded as_source_edit_fields(1,2)]]
    using room(1) IH [unfolded final'_def] by simp
qed simp

lemma apply_edits_turns:
  assumes "turns source output 0 (length output) t es" "length source < SIZE_MAX"
  shows "apply_edits grant (Some output) (length output) (Some es) limit = Inr t \<or>
    (\<exists>e. apply_edits grant (Some output) (length output) (Some es) limit = Inl e \<and>
       err_code e \<in> {RESOURCE_LIMIT, NO_MEMORY})"
proof (cases "es = []")
  case True
  from assms(1) have "splice output 0 (map surface_view es @ []) = t @ splice output (length output) []"
    unfolding turns_def by (metis edits_in.simps(1) order_refl)
  with True show ?thesis by (simp add: apply_edits_def)
next
  case False
  let ?items = "map as_source_edit es" and ?n = "length output"
  have sound: "list_all (edit_sound (length source)) es"
    and ein: "edits_in 0 ?n (map surface_view es)" and spl: "splice output 0 (map surface_view es) = t"
    using assms(1) unfolding turns_def by (metis append_Nil2 drop_eq_Nil edits_in.simps(1) order_refl
        splice.simps(1))+
  have ein': "edits_in 0 ?n (map edit_view ?items)" using ein by simp
  note wf = edits_in_views_wf [OF ein sound assms(2)]
  have out: "write_surface output ?n 0 es = t"
    using write_edits_splice [OF ein' wf] spl by (simp add: write_surface_eq)
  have len: "length t = ?n - removed_total (map surface_view es) + added_total (map surface_view es)"
    using length_splice [OF ein] spl by simp
  show ?thesis
  proof (cases "?n > limit")
    case True
    with False show ?thesis by (simp add: apply_edits_def)
  next
    case fits: False
    then consider "measure_surface ?n limit ?n 0 es = Inr (length t)"
      | "measure_surface ?n limit ?n 0 es = fail RESOURCE_LIMIT ''deparse output exceeds configured byte limit''"
      using measure_edits_cases [OF ein' wf, of ?n limit] measure_surface_eq [OF ein sound, of ?n limit]
      by (auto simp: len)
    then show ?thesis
      using False fits out by cases (auto simp: apply_edits_def Let_def)
  qed
qed

lemma plan_twice_cases:
  assumes "\<And>edits capacity. plan edits capacity = f capacity (edits, 0)"
    and "(\<exists>x. f 0 (None, 0) = Some x) \<longrightarrow> (\<exists>es. plans f 0 es \<and> P es)"
  obtains (unplanned) "plan_twice alloc too_many unstable plan = Unplanned" "f 0 (None, 0) = None"
  | (nothing) "plan_twice alloc too_many unstable plan = Nothing_To_Do" "P []"
  | (failed) e where "plan_twice alloc too_many unstable plan = Plan_Error e" "err_code e \<in> {RESOURCE_LIMIT, NO_MEMORY}"
  | (planned) es where "plan_twice alloc too_many unstable plan = Planned es" "es \<noteq> []" "P es"
proof (cases "f 0 (None, 0)")
  case None
  then show ?thesis by (intro unplanned) (simp_all add: plan_twice_def assms(1))
next
  case (Some x)
  then obtain es where es: "plans f 0 es" "P es" using assms(2) by auto
  let ?n = "length es"
  have count: "f 0 (None, 0) = Some (None, ?n)" using es(1) by (simp add: plans_def)
  have fill: "f ?n (Some (replicate ?n None), 0) = Some (Some (map Some es), ?n)"
    using es(1) [unfolded plans_def, THEN conjunct2, THEN spec, of "replicate ?n None"] by simp
  show ?thesis
  proof (cases "?n = 0")
    case True
    have "plan_twice alloc too_many unstable plan = Nothing_To_Do"
      using True count by (simp add: plan_twice_def assms(1))
    moreover have "P []" using True es(2) by simp
    ultimately show ?thesis by (rule nothing)
  next
    case False
    show ?thesis
    proof (cases "?n > SIZE_MAX div sizeof_surface_edit \<or> \<not> alloc 0 (?n * sizeof_surface_edit)")
      case True
      with False count show ?thesis
        by (intro failed [of "if ?n > SIZE_MAX div sizeof_surface_edit then error_set_message RESOURCE_LIMIT too_many
              else error_set_message NO_MEMORY ''out of memory''"])
           (auto simp: plan_twice_def assms(1))
    next
      case ok: False
      with False count fill es show ?thesis
        by (intro planned [of es]) (auto simp: plan_twice_def assms(1) comp_def)
    qed
  qed
qed

section \<open>The terminal scan\<close>

text \<open>What holds of the record at position \<open>pos\<close> of the scan.\<close>

definition terminal_ok :: "dialect \<Rightarrow> string \<Rightarrow> nat \<Rightarrow> terminal_scan \<Rightarrow> bool" where
  "terminal_ok d s pos scan =
     (ts_body_end scan \<le> pos \<and> ts_last_semantic_end scan \<le> pos \<and>
      (\<not> is_sqlserver_compatible d \<longrightarrow> aligned d s (ts_body_end scan) pos))"

lemma terminal_loop_ok:
  "terminal_ok d s pos scan \<Longrightarrow> pos \<le> length s \<Longrightarrow>
     ts_length (terminal_loop d s lp pos scan) \<le> length s \<and>
     char_at s (ts_length (terminal_loop d s lp pos scan)) = NUL \<and>
     terminal_ok d s (ts_length (terminal_loop d s lp pos scan)) (terminal_loop d s lp pos scan)"
proof (induction "length s - pos" arbitrary: lp pos scan rule: less_induct)
  case less
  show ?case
  proof (cases "char_at s pos = NUL")
    case True
    with less.prems show ?thesis
      by (simp add: terminal_loop.simps [of d s lp pos scan] terminal_ok_def)
  next
    case False
    obtain k m l where np: "next_piece d s lp pos = (k, m, l)" by (cases "next_piece d s lp pos")
    have pos: "pos < length s" using False by (rule char_at_less)
    have m: "pos < m" "m \<le> length s" using next_piece_progress [OF np] pos by simp_all
    have al: "aligned d s c m" if "\<not> is_sqlserver_compatible d" "aligned d s c pos" for c
      using next_piece_step [OF that(1) np] that(2) aligned_step_self [of d s pos] aligned_trans by metis
    have ok: "terminal_ok d s m scan'"
      if "ts_body_end scan' = ts_body_end scan \<and> ts_last_semantic_end scan' = ts_last_semantic_end scan \<or>
        ts_body_end scan' = ts_body_end scan \<and> ts_last_semantic_end scan' \<le> m \<or>
        ts_body_end scan' = m \<and> ts_last_semantic_end scan' = 0" for scan'
      using that less.prems(1) m(1) al by (auto simp: terminal_ok_def)
    have "length s - m < length s - pos" using m(1) pos by (rule diff_less_mono2)
    from less.hyps [OF this _ m(2)] ok False np show ?thesis
      by (cases k) (simp_all add: terminal_loop.simps [of d s lp pos scan])
  qed
qed

lemma terminal_scan_facts:
  assumes "public_terminal_scan d (Some s) = Some scan" "NUL \<notin> set s"
  shows "ts_length scan = length s" "ts_body_end scan \<le> length s" "ts_last_semantic_end scan \<le> length s"
    "\<not> is_sqlserver_compatible d \<Longrightarrow> aligned d s (ts_body_end scan) (length s)"
proof -
  have scan: "scan = terminal_loop d s True 0 terminal_start"
    using assms(1) by (simp add: public_terminal_scan_def Let_def split: if_splits)
  have "terminal_ok d s 0 terminal_start" by (simp add: terminal_ok_def terminal_start_def)
  from terminal_loop_ok [OF this, of True]
  have *: "ts_length scan \<le> length s" "char_at s (ts_length scan) = NUL"
    "terminal_ok d s (ts_length scan) scan" by (simp_all add: scan)
  have "\<not> ts_length scan < length s"
  proof
    assume "ts_length scan < length s"
    with *(2) have "NUL \<in> set s" by (metis char_at_def nth_mem)
    with assms(2) show False by simp
  qed
  with *(1) show len: "ts_length scan = length s" by simp
  from *(3) len show "ts_body_end scan \<le> length s" "ts_last_semantic_end scan \<le> length s"
    "\<not> is_sqlserver_compatible d \<Longrightarrow> aligned d s (ts_body_end scan) (length s)"
    by (simp_all add: terminal_ok_def)
qed

section \<open>The envelope of a text without GO lines\<close>

text \<open>The position the tail is restored from when the comments of both tails do not agree.\<close>

definition tail_cursor :: "terminal_scan \<Rightarrow> nat" where
  "tail_cursor scan =
     (if ts_last_semantic_end scan > 0 then ts_last_semantic_end scan else ts_body_end scan)"

lemma turns_whole: "turns source output oa (length output) t es \<Longrightarrow> oa \<le> length output \<Longrightarrow>
    turns source output 0 (length output) (take oa output @ t) es"
  using turns_append [OF turns_keep [of 0 oa "output" source]] by (simp add: slice_def)

lemma turns_Nil: "turns source output 0 (length output) t [] \<Longrightarrow> t = output"
  unfolding turns_def by (metis append_Nil2 drop0 drop_eq_Nil edits_in.simps(1) list.simps(8)
      order_refl self_append_conv2 splice.simps(1))

lemma plan_twice_Unplanned: "plan_twice alloc m n plan = Unplanned \<longleftrightarrow> plan None 0 = None"
  by (auto simp: plan_twice_def split: option.splits prod.splits if_splits)

lemma try_restore_None:
  "try_restore_statement_gaps alloc h a b sql = None \<longleftrightarrow>
     is_sqlserver_compatible (eh_dialect h) \<and> \<not> ts_has_batch_separator a \<or>
     plan_statement_gap_edits h (ts_length a) (Some sql) (ts_length b) None 0 = None"
  unfolding try_restore_statement_gaps_def
  by (auto simp flip: plan_twice_Unplanned [of alloc
        "''statement source envelope has too many intervals''"
        "''statement source envelope plan is unstable''"] split: planned.splits)

lemma try_restore_cases:
  assumes h: "eh_dialect h = d" "\<not> is_sqlserver_compatible d" "eh_sql h = Some source"
    and size: "length source < SIZE_MAX"
    and len: "ts_length source_scan = length source" "ts_length output_scan = length sql"
    and r: "try_restore_statement_gaps alloc h source_scan output_scan sql = r"
  shows "case r of
      None \<Rightarrow> True
    | Some (Inr out) \<Rightarrow> out = enveloped d source sql (statement_scan_init d source (length source))
        (statement_scan_init d sql (length sql)) 0 0
    | Some (Inl e) \<Rightarrow> err_code e \<in> {RESOURCE_LIMIT, NO_MEMORY}"
proof -
  let ?ss = "statement_scan_init d source (length source)"
  let ?os = "statement_scan_init d sql (length sql)"
  let ?f = "\<lambda>capacity. statements_loop d source (length source) sql (length sql) capacity ?ss ?os 0 0 False"
  let ?t = "enveloped d source sql ?ss ?os 0 0"
  let ?plan = "plan_statement_gap_edits h (length source) (Some sql) (length sql)"
  have plan: "?plan edits capacity = ?f capacity (edits, 0)" for edits capacity
    by (simp add: plan_statement_gap_edits_def h)
  have sound: "(\<exists>x. ?f 0 (None, 0) = Some x) \<longrightarrow>
      (\<exists>es. plans ?f 0 es \<and> turns source sql 0 (length sql) ?t es)"
    using statements_plans scanning_init [OF h(2)] by blast
  note r' = r [symmetric, unfolded try_restore_statement_gaps_def len h(1)]
  show ?thesis
  proof (cases rule: plan_twice_cases [OF plan sound, where alloc = alloc and
        too_many = "''statement source envelope has too many intervals''" and
        unstable = "''statement source envelope plan is unstable''", case_names unplanned nothing failed planned])
    case unplanned
    with r' h(2) plan show ?thesis by simp
  next
    case nothing
    with r' h(2) show ?thesis by (auto dest: turns_Nil)
  next
    case (failed e)
    with r' h(2) show ?thesis by simp
  next
    case (planned es)
    with r' h(2) have "r = Some (apply_edits (alloc 1) (Some sql) (length sql) (Some es) (eh_max_output_bytes h))"
      by simp
    with apply_edits_turns [OF planned(3) size, of "alloc 1" "eh_max_output_bytes h"] show ?thesis
      by auto
  qed
qed

lemma restore_tail_cases:
  assumes d: "eh_dialect h = d" "\<not> is_sqlserver_compatible d"
    and size: "length source < SIZE_MAX" "NUL \<notin> set source" "NUL \<notin> set sql"
    and scans: "public_terminal_scan d (Some source) = Some a" "public_terminal_scan d (Some sql) = Some b"
    and r: "restore_tail alloc h source a b sql = r"
  shows "case r of
      Inr out \<Rightarrow> out =
        (if drop (ts_body_end a) source = drop (ts_body_end b) sql then sql
         else if ts_semantic_count a = ts_semantic_count b \<and> ts_semantic_count a > 0 \<and>
           plan_gap_edits d (Some source) (length source) (ts_body_end a) (length source)
             (Some sql) (length sql) (ts_body_end b) (length sql) 0 (None, 0) \<noteq> None
         then take (ts_body_end b) sql @ woven d source (length source) sql (length sql) (ts_body_end a) (ts_body_end b)
         else take (tail_cursor b) sql @ drop (tail_cursor a) source)
    | Inl e \<Rightarrow> err_code e \<in> {RESOURCE_LIMIT, NO_MEMORY}"
proof -
  note fa = terminal_scan_facts [OF scans(1) size(2)] and fb = terminal_scan_facts [OF scans(2) size(3)]
  let ?f = "\<lambda>capacity. plan_gap_edits d (Some source) (length source) (ts_body_end a) (length source)
      (Some sql) (length sql) (ts_body_end b) (length sql) capacity"
  let ?w = "woven d source (length source) sql (length sql) (ts_body_end a) (ts_body_end b)"
  have cur: "tail_cursor a \<le> length source" "tail_cursor b \<le> length sql"
    using fa fb by (auto simp: tail_cursor_def)
  have same: "sql = take ob sql @ drop oa source"
    if "ranges_equal source oa (length source) sql ob (length sql)" "oa \<le> length source" "ob \<le> length sql"
    for oa ob
    using ranges_equal_slice [OF that] by (metis append_take_drop_id slice_to_end)
  have tails: "ranges_equal source (ts_body_end a) (length source) sql (ts_body_end b) (length sql) \<longleftrightarrow>
      drop (ts_body_end a) source = drop (ts_body_end b) sql"
  proof -
    have "drop (ts_body_end a) source = drop (ts_body_end b) sql \<Longrightarrow>
        length source - ts_body_end a = length sql - ts_body_end b" by (metis length_drop)
    then show ?thesis using fa(2) fb(2) by (auto simp: ranges_equal_def size_sub_def Let_def)
  qed
  have sound: "(\<exists>x. ?f 0 (None, 0) = Some x) \<longrightarrow>
      (\<exists>es. plans ?f 0 es \<and> turns source sql 0 (length sql) (take (ts_body_end b) sql @ ?w) es)"
    using gap_plans [OF _ fa(4) [OF d(2)] fb(4) [OF d(2)]] turns_whole [OF _ fb(2)] by metis
  note r' = r [symmetric, unfolded restore_tail_def Let_def fa(1) fb(1) d(1) tail_cursor_def [symmetric]]
  show ?thesis
  proof (cases "ranges_equal source (ts_body_end a) (length source) sql (ts_body_end b) (length sql)")
    case True
    with r' tails show ?thesis by simp
  next
    case False
    let ?twice = "plan_twice alloc ''source envelope has too many intervals''
      ''source envelope plan is unstable'' (\<lambda>edits capacity. ?f capacity (edits, 0))"
    define p where "p = (if ts_semantic_count a = ts_semantic_count b \<and> ts_semantic_count a > 0
      then ?twice else Unplanned)"
    have differs: "drop (ts_body_end a) source \<noteq> drop (ts_body_end b) sql" using False tails by simp
    have last: ?thesis if "p = Unplanned"
    proof -
      have unplanned: "\<not> (ts_semantic_count a = ts_semantic_count b \<and> ts_semantic_count a > 0 \<and> ?f 0 (None, 0) \<noteq> None)"
        using that plan_twice_Unplanned [of alloc _ _ "\<lambda>edits capacity. ?f capacity (edits, 0)"]
        by (auto simp: p_def split: if_splits)
      show ?thesis
      proof (cases "ranges_equal source (tail_cursor a) (length source) sql (tail_cursor b) (length sql)")
      case True
      have "r = Inr sql" using r' False that True by (simp add: p_def)
      then show ?thesis
        using same [OF True cur] by (simp only: sum.case if_not_P [OF differs] if_not_P [OF unplanned])
    next
      case differ: False
      let ?e = "\<lparr>ed_output_start = tail_cursor b, ed_output_end = length sql, ed_source = Some source,
          ed_source_length = length source, ed_source_start = tail_cursor a, ed_source_end = length source\<rparr>"
      have "turns source sql 0 (length sql) (take (tail_cursor b) sql @ drop (tail_cursor a) source) [?e]"
        using turns_whole [OF turns_edit [OF cur(2) order_refl cur(1) order_refl] cur(2)]
        by (simp add: slice_to_end)
      note applied = apply_edits_turns [OF this size(1), of "alloc 0" "eh_max_output_bytes h"]
      have "r = apply_edits (alloc 0) (Some sql) (length sql) (Some [?e]) (eh_max_output_bytes h)"
        using r' False that differ by (simp add: p_def)
      with applied show ?thesis
        unfolding if_not_P [OF differs] if_not_P [OF unplanned] by (auto split: sum.splits)
      qed
    qed
    show ?thesis
    proof (cases "ts_semantic_count a = ts_semantic_count b \<and> ts_semantic_count a > 0")
      case False
      then show ?thesis by (intro last) (auto simp: p_def)
    next
      case counts: True
      then have p: "p = ?twice" by (simp add: p_def)
      have exists: "?twice \<noteq> Unplanned \<Longrightarrow> ?f 0 (None, 0) \<noteq> None" by (simp only: plan_twice_Unplanned) simp
      show ?thesis
      proof (cases rule: plan_twice_cases [OF refl sound, where alloc = alloc and
            too_many = "''source envelope has too many intervals''" and
            unstable = "''source envelope plan is unstable''", case_names unplanned nothing failed planned])
        case unplanned
        then show ?thesis by (intro last) (simp add: p)
      next
        case nothing
        with r' False counts differs exists show ?thesis by (auto dest!: turns_Nil)
      next
        case (failed e)
        with r' False counts show ?thesis by simp
      next
        case (planned es)
        with r' False counts apply_edits_turns [OF planned(3) size(1), of "alloc 1" "eh_max_output_bytes h"] differs exists
        show ?thesis by auto
      qed
    qed
  qed
qed

section \<open>A text put back into its own envelope\<close>

lemma plan_range_same: "plan_range s n s capacity a b a b plan = Some plan"
  by (simp add: plan_range_def ranges_equal_def)

lemma gap_loop_same: "gap_loop d s n e s e capacity c c c c plan = Some plan"
proof (induction "e - c" arbitrary: c rule: less_induct)
  case less
  obtain f c' where nf: "next_semantic d s e c = (f, c')" by (metis surj_pair)
  note loop = gap_loop.simps [of d s n e s e capacity c c c c plan, unfolded nf split_conv]
  show ?case
  proof (cases f)
    case None
    then show ?thesis unfolding loop by (simp add: plan_range_same)
  next
    case (Some a)
    from next_semantic_progress [OF nf [unfolded Some]]
    have a: "e - sem_end a < e - c" "c' = sem_end a" by (auto intro!: diff_less_mono2)
    from less.hyps [OF a(1)] Some a(2) show ?thesis unfolding loop by (simp add: plan_range_same)
  qed
qed

lemma compatible_same: "body_start a < body_end a \<Longrightarrow> statement_bodies_compatible s a s a"
  by (simp add: statement_bodies_compatible_def Let_def)

lemma statements_loop_same:
  "scanning d s c ss \<Longrightarrow>
     statements_loop d s (length s) s (length s) capacity ss ss c c saw plan = Some plan \<or>
     statements_loop d s (length s) s (length s) capacity ss ss c c saw plan = None \<and> \<not> saw"
proof (induction "st_length ss - st_pos ss" arbitrary: ss c saw rule: less_induct)
  case less
  obtain f ss' where nf: "statement_scan_next ss = (f, ss')" by (metis surj_pair)
  note loop = statements_loop.simps [of d s "length s" s "length s" capacity ss ss c c saw plan,
      unfolded nf split_conv]
  have gap: "plan_gap_edits d (Some s) (length s) a b (Some s) (length s) a b capacity plan = Some plan"
    if "a \<le> b" "b \<le> length s" for a b
    using that by (simp add: plan_gap_edits_def gap_loop_same)
  show ?case
  proof (cases f)
    case None
    with scanning_end [OF less.prems nf [unfolded None]] gap [of c "length s"] show ?thesis
      unfolding loop by (auto dest: aligned_le)
  next
    case (Some a)
    note found = scanning_found [OF less.prems nf [unfolded Some]]
    have "st_length ss' - st_pos ss' < st_length ss - st_pos ss"
      using statement_scan_shrinks nf Some by blast
    from less.hyps [OF this, of "body_end a" True] found
    have "statements_loop d s (length s) s (length s) capacity ss' ss' (body_end a) (body_end a) True plan
        = Some plan" by blast
    with Some found gap [of c "body_start a"] compatible_same [of a s] show ?thesis
      unfolding loop by (auto dest: aligned_le)
  qed
qed

lemma envelope_same:
  assumes d: "eh_dialect h = d" "\<not> is_sqlserver_compatible d"
    and h: "eh_sql h = Some source" "eh_sql_len h = length source" "\<not> eh_source_complete h"
    and scan: "public_terminal_scan d (Some source) = Some a" "NUL \<notin> set source"
  shows "restore_source_envelope alloc (Some h) (Some (Some source)) = Inr source"
proof -
  note len = terminal_scan_facts(1) [OF scan]
  let ?plan = "plan_statement_gap_edits h (length source) (Some source) (length source)"
  have "?plan None 0 = Some (None, 0) \<or> ?plan None 0 = None"
    using statements_loop_same [OF scanning_init [OF d(2), of source], of 0 False "(None, 0)"]
    by (auto simp: plan_statement_gap_edits_def d h)
  then show ?thesis
  proof
    assume "?plan None 0 = Some (None, 0)"
    then have "try_restore_statement_gaps alloc h a a source = Some (Inr source)"
      using d by (simp add: try_restore_statement_gaps_def plan_twice_def len)
    with d h scan(1) len show ?thesis by (simp add: restore_source_envelope_def)
  next
    assume "?plan None 0 = None"
    then have "try_restore_statement_gaps alloc h a a source = None" by (simp add: try_restore_None len)
    moreover have "restore_tail alloc h source a a source = Inr source"
      by (simp add: restore_tail_def ranges_equal_def)
    ultimately show ?thesis using d h scan(1) len by (simp add: restore_source_envelope_def)
  qed
qed

end
