(* ===== verification/Envelope_Properties.thy ===== *)
theory Envelope_Properties
  imports Source_Envelope
begin

text \<open>
  The properties of the source envelope: what it restores and how it fails, on the lemmas of
  \<open>Source_Envelope\<close> and \<open>Public_Scan\<close>, with runs on concrete texts.
\<close>

section \<open>A handle and two small texts\<close>

definition plain_handle :: "dialect \<Rightarrow> string \<Rightarrow> envelope_handle" where
  "plain_handle d s = \<lparr>eh_dialect = d, eh_sql = Some s, eh_sql_len = length s, eh_source_complete = False,
     eh_source_edits = no_edits, eh_max_output_bytes = 100\<rparr>"

lemma plain_handle_fields [simp]:
  "eh_dialect (plain_handle d s) = d" "eh_sql (plain_handle d s) = Some s"
  "eh_sql_len (plain_handle d s) = length s" "\<not> eh_source_complete (plain_handle d s)"
  "eh_max_output_bytes (plain_handle d s) = 100"
  by (simp_all add: plain_handle_def)

lemma two_edits: "map the ((replicate 2 None)[0 := Some a, 1 := Some b]) = [a, b]"
  for a b :: surface_edit
  by (simp add: numeral_2_eq_2)

definition spaced_scan :: "nat \<Rightarrow> statement_scan" where
  "spaced_scan pos = \<lparr>st_dialect = POSTGRESQL, st_sql = '' a;'', st_length = 3, st_pos = pos,
     st_line_prefix = (pos = 0)\<rparr>"

definition printed_scan :: "nat \<Rightarrow> statement_scan" where
  "printed_scan pos = \<lparr>st_dialect = POSTGRESQL, st_sql = ''A'', st_length = 1, st_pos = pos,
     st_line_prefix = (pos = 0)\<rparr>"

lemma spaced_scans:
  "statement_scan_next (spaced_scan 0) = (Some \<lparr>body_start = 1, body_end = 2\<rparr>, spaced_scan 3)"
  "statement_scan_next (spaced_scan 3) = (None, spaced_scan 3)"
  "statement_scan_next (printed_scan 0) = (Some \<lparr>body_start = 0, body_end = 1\<rparr>, printed_scan 1)"
  "statement_scan_next (printed_scan 1) = (None, printed_scan 1)"
  by code_simp+

lemma spaced_gaps:
  "next_semantic POSTGRESQL '' a;'' 1 0 = (None, 1)" "next_semantic POSTGRESQL '' a;'' 3 2 = (None, 3)"
  "next_semantic POSTGRESQL ''A'' 0 0 = (None, 0)" "next_semantic POSTGRESQL ''A'' 1 1 = (None, 1)"
  by code_simp+

lemma spaced_bodies:
  "statement_bodies_compatible '' a;'' \<lparr>body_start = 1, body_end = 2\<rparr> ''A'' \<lparr>body_start = 0, body_end = 1\<rparr>"
  by code_simp

lemma spaced_terminal:
  "public_terminal_scan POSTGRESQL (Some '' a;'') = Some \<lparr>ts_body_end = 2, ts_last_semantic_end = 0,
     ts_length = 3, ts_semantic_count = 0, ts_has_batch_separator = False\<rparr>"
  "public_terminal_scan POSTGRESQL (Some ''A'') = Some \<lparr>ts_body_end = 1, ts_last_semantic_end = 0,
     ts_length = 1, ts_semantic_count = 0, ts_has_batch_separator = False\<rparr>"
  by code_simp+

lemma spaced_inits:
  "statement_scan_init POSTGRESQL '' a;'' 3 = spaced_scan 0" "statement_scan_init POSTGRESQL ''A'' 1 = printed_scan 0"
  by (simp_all add: statement_scan_init_def spaced_scan_def printed_scan_def)

definition spaced_edits :: "surface_edit list" where
  "spaced_edits =
     [\<lparr>ed_output_start = 0, ed_output_end = 0, ed_source = Some '' a;'', ed_source_length = 3,
       ed_source_start = 0, ed_source_end = 1\<rparr>,
      \<lparr>ed_output_start = 1, ed_output_end = 1, ed_source = Some '' a;'', ed_source_length = 3,
       ed_source_start = 2, ed_source_end = 3\<rparr>]"

lemma spaced_apply:
  "measure_surface 1 100 1 0 spaced_edits = Inr 3" "write_surface ''A'' 1 0 spaced_edits = '' A;''"
  "spaced_edits \<noteq> []" "length '' A;'' = 3"
  by code_simp+

lemma spaced_plan:
  "plan_statement_gap_edits (plain_handle POSTGRESQL '' a;'') 3 (Some ''A'') 1 edits capacity =
     Option.bind (put_edit capacity (spaced_edits ! 0) (edits, 0)) (put_edit capacity (spaced_edits ! 1))"
  by (simp add: plan_statement_gap_edits_def spaced_inits spaced_scans spaced_bodies statements_loop.simps
      plan_gap_edits_def gap_loop.simps spaced_gaps plan_range_def ranges_equal_def size_sub_def
      spaced_edits_def nth_Cons_numeral nth_Cons' del: One_nat_def split: option.split)

lemma spaced_twice:
  "plan_twice (\<lambda>_ _. True) a b (plan_statement_gap_edits (plain_handle POSTGRESQL '' a;'') 3 (Some ''A'') 1)
     = Planned spaced_edits"
proof -
  have "[spaced_edits ! 0, spaced_edits ! 1] = spaced_edits" by (simp add: spaced_edits_def)
  then show ?thesis
    by (simp add: plan_twice_def spaced_plan put_edit_def SIZE_MAX_def sizeof_surface_edit_def two_edits
        del: One_nat_def)
qed

lemma spaced_run:
  "restore_source_envelope (\<lambda>_ _. True) (Some (plain_handle POSTGRESQL '' a;'')) (Some (Some ''A''))
     = Inr '' A;''"
  by (simp add: restore_source_envelope_def spaced_terminal try_restore_statement_gaps_def spaced_twice
      is_sqlserver_compatible_def SIZE_MAX_def apply_edits_def spaced_apply del: One_nat_def)

section \<open>A batch separator with a hint\<close>

definition go_source :: string where "go_source = ''GO --+'' @ [CR] @ ''S''"
definition go_printed :: string where "go_printed = ''--+'' @ [LF] @ ''S''"

definition go_scan :: "string \<Rightarrow> nat \<Rightarrow> nat \<Rightarrow> statement_scan" where
  "go_scan s n pos = \<lparr>st_dialect = SQLSERVER, st_sql = s, st_length = n, st_pos = pos,
     st_line_prefix = (pos = 0)\<rparr>"

lemma go_scans:
  "statement_scan_next (go_scan go_source 8 0) = (Some \<lparr>body_start = 7, body_end = 8\<rparr>, go_scan go_source 8 8)"
  "statement_scan_next (go_scan go_source 8 8) = (None, go_scan go_source 8 8)"
  "statement_scan_next (go_scan go_printed 5 0) = (Some \<lparr>body_start = 4, body_end = 5\<rparr>, go_scan go_printed 5 5)"
  "statement_scan_next (go_scan go_printed 5 5) = (None, go_scan go_printed 5 5)"
  by code_simp+

lemma go_gaps:
  "next_semantic SQLSERVER go_source 7 0 = (Some \<lparr>sem_start = 3, sem_end = 8, sem_kind = 3\<rparr>, 8)"
  "next_semantic SQLSERVER go_source 7 8 = (None, 8)" "next_semantic SQLSERVER go_source 8 8 = (None, 8)"
  "next_semantic SQLSERVER go_printed 4 0 = (Some \<lparr>sem_start = 0, sem_end = 3, sem_kind = 3\<rparr>, 3)"
  "next_semantic SQLSERVER go_printed 4 3 = (None, 4)" "next_semantic SQLSERVER go_printed 5 5 = (None, 5)"
  by code_simp+

lemma go_bodies:
  "statement_bodies_compatible go_source \<lparr>body_start = 7, body_end = 8\<rparr> go_printed \<lparr>body_start = 4, body_end = 5\<rparr>"
  by code_simp

lemma go_terminal:
  "public_terminal_scan SQLSERVER (Some go_source) = Some \<lparr>ts_body_end = 8, ts_last_semantic_end = 0,
     ts_length = 8, ts_semantic_count = 0, ts_has_batch_separator = True\<rparr>"
  "public_terminal_scan SQLSERVER (Some go_printed) = Some \<lparr>ts_body_end = 5, ts_last_semantic_end = 0,
     ts_length = 5, ts_semantic_count = 0, ts_has_batch_separator = False\<rparr>"
  "length go_source = 8"
  by code_simp+

lemma go_inits:
  "statement_scan_init SQLSERVER go_source 8 = go_scan go_source 8 0"
  "statement_scan_init SQLSERVER go_printed 5 = go_scan go_printed 5 0"
  by (simp_all add: statement_scan_init_def go_scan_def)

definition go_edits :: "surface_edit list" where
  "go_edits =
     [\<lparr>ed_output_start = 0, ed_output_end = 0, ed_source = Some go_source, ed_source_length = 8,
       ed_source_start = 0, ed_source_end = 3\<rparr>,
      \<lparr>ed_output_start = 3, ed_output_end = 4, ed_source = Some go_source, ed_source_length = 8,
       ed_source_start = 8, ed_source_end = 7\<rparr>]"

lemma go_plan:
  "plan_statement_gap_edits (plain_handle SQLSERVER go_source) 8 (Some go_printed) 5 edits capacity =
     Option.bind (put_edit capacity (go_edits ! 0) (edits, 0)) (put_edit capacity (go_edits ! 1))"
  by (simp add: plan_statement_gap_edits_def go_inits go_scans go_bodies statements_loop.simps
      plan_gap_edits_def gap_loop.simps go_gaps plan_range_def ranges_equal_def size_sub_def
      go_edits_def del: One_nat_def split: option.split)

lemma go_measure: "measure_surface 5 100 5 0 go_edits = fail INTERNAL_ERROR ''surface edit interval is invalid''"
  by (simp add: go_edits_def)

lemma go_twice:
  "plan_twice (\<lambda>_ _. True) a b (plan_statement_gap_edits (plain_handle SQLSERVER go_source) 8 (Some go_printed) 5)
     = Planned go_edits"
proof -
  have "[go_edits ! 0, go_edits ! 1] = go_edits" by (simp add: go_edits_def)
  then show ?thesis
    by (simp add: plan_twice_def go_plan put_edit_def SIZE_MAX_def sizeof_surface_edit_def two_edits del: One_nat_def)
qed

section \<open>Texts that pair up\<close>

text \<open>
  What the planner compares, text by text: the statement bodies, how each begins (its first word, in
  any case of the letters, or its first byte), and the kinds of the comments with meaning in the gap
  before each body and behind the last.
\<close>

function statement_spans :: "statement_scan \<Rightarrow> statement_span list" where
  "statement_spans scan =
     (case statement_scan_next scan of (Some b, scan') \<Rightarrow> b # statement_spans scan' | (None, _) \<Rightarrow> [])"
  by pat_completeness auto
termination
  by (relation "measure (\<lambda>scan. st_length scan - st_pos scan)") (auto dest!: statement_scan_shrinks [OF sym])

declare statement_spans.simps [simp del]

definition body_opening :: "string \<Rightarrow> statement_span \<Rightarrow> string" where
  "body_opening s b =
     (let t = slice s (body_start b) (body_end b)
      in if public_char_is_ident (hd t) then map c_tolower (takeWhile public_char_is_ident t) else [hd t])"

function comment_kinds :: "dialect \<Rightarrow> string \<Rightarrow> nat \<Rightarrow> nat \<Rightarrow> nat list" where
  "comment_kinds d s end_pos pos =
     (case next_semantic d s end_pos pos of
        (Some a, _) \<Rightarrow> sem_kind a # comment_kinds d s end_pos (sem_end a)
      | (None, _) \<Rightarrow> [])"
  by pat_completeness auto
termination
  by (relation "measure (\<lambda>(d, s, end_pos, pos). end_pos - pos)")
     (auto dest!: next_semantic_progress [OF sym] intro!: diff_less_mono2)

declare comment_kinds.simps [simp del]

fun gap_comments :: "dialect \<Rightarrow> string \<Rightarrow> nat \<Rightarrow> statement_span list \<Rightarrow> nat list list" where
  "gap_comments d s pos [] = [comment_kinds d s (length s) pos]"
| "gap_comments d s pos (b # bs) = comment_kinds d s (body_start b) pos # gap_comments d s (body_end b) bs"

definition texts_pair :: "dialect \<Rightarrow> string \<Rightarrow> string \<Rightarrow> bool" where
  "texts_pair d source sql =
     (let bs = statement_spans (statement_scan_init d source (length source));
          cs = statement_spans (statement_scan_init d sql (length sql))
      in bs \<noteq> [] \<and> map (body_opening source) bs = map (body_opening sql) cs \<and>
         gap_comments d source 0 bs = gap_comments d sql 0 cs)"

text \<open>How a body begins.\<close>

lemma slice_scan_while: "i \<le> e \<Longrightarrow> e \<le> length s \<Longrightarrow> slice s i (scan_while P s e i) = takeWhile P (slice s i e)"
proof (induction P s e i rule: scan_while.induct)
  case (1 P s e i)
  show ?case
  proof (cases "i < e")
    case False
    then show ?thesis using "1.prems" by (simp add: scan_while_done slice_def)
  next
    case True
    then have i: "i < length s" using "1.prems" by simp
    have whole: "slice s i q = s ! i # slice s (Suc i) q" if "i < q" for q
      using that i by (simp add: slice_def Cons_nth_drop_Suc [symmetric] Suc_diff_Suc [symmetric])
    show ?thesis
    proof (cases "P (s ! i)")
      case False
      then show ?thesis using whole [OF True] by (simp add: scan_while_done)
    next
      case P: True
      then have "scan_while P s e i = scan_while P s e (Suc i)" using True i by (simp add: scan_while.simps [of P s e i])
      moreover have "i < scan_while P s e (Suc i)" by (rule less_le_trans [OF lessI scan_while_ge])
      ultimately show ?thesis using whole True P "1.IH" i "1.prems" by simp
    qed
  qed
qed

lemma ident_tolower: "public_char_is_ident c \<Longrightarrow> public_char_is_ident (c_tolower c)"
  by (auto simp: public_char_is_ident_def c_isalnum_def c_isalpha_def c_tolower_def Let_def)

lemma compatible_opening:
  assumes "body_start a < body_end a" "body_end a \<le> length source" "body_start b < body_end b" "body_end b \<le> length sql"
  shows "statement_bodies_compatible source a sql b \<longleftrightarrow> body_opening source a = body_opening sql b"
proof -
  define t u where "t = slice source (body_start a) (body_end a)" and "u = slice sql (body_start b) (body_end b)"
  define ae be where "ae = scan_while public_char_is_ident source (body_end a) (body_start a)"
    and "be = scan_while public_char_is_ident sql (body_end b) (body_start b)"
  let ?v = "takeWhile public_char_is_ident t" and ?w = "takeWhile public_char_is_ident u"
  have words: "slice source (body_start a) ae = ?v" "slice sql (body_start b) be = ?w"
    using assms by (simp_all add: ae_def be_def t_def u_def slice_scan_while)
  have "ae \<le> length source" "be \<le> length sql"
    using assms by (simp_all add: ae_def be_def scan_while_le_length)
  then have sizes: "ae - body_start a = length ?v" "be - body_start b = length ?w"
    using words by (metis length_slice)+
  have heads: "char_at source (body_start a) = hd t" "char_at sql (body_start b) = hd u" "t \<noteq> []" "u \<noteq> []"
    using assms by (simp_all add: t_def u_def slice_def hd_drop_conv_nth char_at_def)
  have compatible: "statement_bodies_compatible source a sql b \<longleftrightarrow>
      (if \<not> public_char_is_ident (hd t) \<or> \<not> public_char_is_ident (hd u) then hd t = hd u
       else length ?v = length ?w \<and> map c_tolower ?v = map c_tolower ?w)"
    using assms(1,3) by (simp add: statement_bodies_compatible_def Let_def heads ae_def [symmetric] be_def [symmetric] sizes words)
  have begins: "body_opening source a = (if public_char_is_ident (hd t) then map c_tolower ?v else [hd t])"
    "body_opening sql b = (if public_char_is_ident (hd u) then map c_tolower ?w else [hd u])"
    by (simp_all add: body_opening_def t_def u_def Let_def)
  have lower: "public_char_is_ident (hd x) \<Longrightarrow> x \<noteq> [] \<Longrightarrow> map c_tolower (takeWhile public_char_is_ident x) \<noteq> [y]"
    if "\<not> public_char_is_ident y" for x y
    using that ident_tolower by (cases x) auto
  show ?thesis
    unfolding compatible begins
    using lower [of "hd t" u] lower [of "hd u" t] heads(3,4) by (auto dest: map_eq_imp_length_eq)
qed

text \<open>The planner counts at most one edit for each comment and each body, and one more.\<close>

lemma gap_loop_counts:
  assumes "src_end \<le> length source" "length source < SIZE_MAX"
  shows "aligned d source sc src_end \<Longrightarrow> c \<le> sc \<Longrightarrow>
    (if comment_kinds d source src_end sc = comment_kinds d sql output_end oc
     then \<exists>c' \<le> Suc src_end. gap_loop d source (length source) src_end sql output_end 0 sc oc sc oc (None, c) = Some (None, c')
     else gap_loop d source (length source) src_end sql output_end 0 sc oc sc oc (None, c) = None)"
proof (induction "src_end - sc" arbitrary: sc oc c rule: less_induct)
  case less
  note le = aligned_le [OF less.prems(1)]
  have range: "\<exists>c' \<le> Suc c. plan_range source (length source) sql 0 sa sb oa ob (None, c) = Some (None, c')" for sa sb oa ob
    using less.prems(2) le assms by (auto simp: plan_range_def put_edit_def)
  obtain f sp' g op' where
    nf: "next_semantic d source src_end sc = (f, sp')" and
    ng: "next_semantic d sql output_end oc = (g, op')" by (metis surj_pair)
  note loop = gap_loop.simps [of d source "length source" src_end sql output_end 0 sc oc sc oc "(None, c)",
      unfolded nf ng split_conv]
  note kinds = comment_kinds.simps [of d source src_end sc, unfolded nf] comment_kinds.simps [of d sql output_end oc, unfolded ng]
  show ?case
  proof (cases "f = None \<or> g = None")
    case True
    then show ?thesis
      using range [of sc src_end oc output_end] less.prems(2) le
      by (cases f; cases g) (auto simp: loop kinds intro: le_trans)
  next
    case False
    then obtain a b where fg: "f = Some a" "g = Some b" by auto
    note a = next_semantic_progress [OF nf [unfolded fg]] next_semantic_aligned [OF nf [unfolded fg] less.prems(1)]
    note b = next_semantic_progress [OF ng [unfolded fg]]
    obtain c' where c': "c' \<le> Suc c" "plan_range source (length source) sql 0 sc (sem_start a) oc (sem_start b) (None, c) = Some (None, c')"
      using range by blast
    have "src_end - sem_end a < src_end - sc" using a by (intro diff_less_mono2) auto
    from less.hyps [OF this _, of c' "sem_end b"] a c'(1) less.prems(2)
    have "if comment_kinds d source src_end (sem_end a) = comment_kinds d sql output_end (sem_end b)
       then \<exists>c'' \<le> Suc src_end. gap_loop d source (length source) src_end sql output_end 0 (sem_end a) (sem_end b)
         (sem_end a) (sem_end b) (None, c') = Some (None, c'')
       else gap_loop d source (length source) src_end sql output_end 0 (sem_end a) (sem_end b) (sem_end a) (sem_end b) (None, c') = None"
      by linarith
    then show ?thesis using a b by (simp add: loop kinds fg c'(2))
  qed
qed

lemma gap_counts:
  assumes "aligned d source sa sb" "sb \<le> length source" "length source < SIZE_MAX" "c \<le> sa"
    and "oa \<le> ob" "ob \<le> length sql"
  shows "if comment_kinds d source sb sa = comment_kinds d sql ob oa
    then \<exists>c' \<le> Suc sb. plan_gap_edits d (Some source) (length source) sa sb (Some sql) (length sql) oa ob 0 (None, c) = Some (None, c')
    else plan_gap_edits d (Some source) (length source) sa sb (Some sql) (length sql) oa ob 0 (None, c) = None"
  using gap_loop_counts [OF assms(2,3,1,4), of sql ob oa] aligned_le [OF assms(1)] assms
  by (simp add: plan_gap_edits_def)

lemma statements_counts:
  assumes "length source < SIZE_MAX"
  shows "scanning d source sc ss \<Longrightarrow> scanning d sql oc os \<Longrightarrow> c \<le> sc \<Longrightarrow>
    statements_loop d source (length source) sql (length sql) 0 ss os sc oc saw (None, c) \<noteq> None \<longleftrightarrow>
    (saw \<or> statement_spans ss \<noteq> []) \<and>
    map (body_opening source) (statement_spans ss) = map (body_opening sql) (statement_spans os) \<and>
    gap_comments d source sc (statement_spans ss) = gap_comments d sql oc (statement_spans os)"
proof (induction "st_length ss - st_pos ss" arbitrary: ss os sc oc saw c rule: less_induct)
  case less
  obtain f ss' g os' where nf: "statement_scan_next ss = (f, ss')" and ng: "statement_scan_next os = (g, os')"
    by (metis surj_pair)
  note loop = statements_loop.simps [of d source "length source" sql "length sql" 0 ss os sc oc saw "(None, c)",
      unfolded nf ng split_conv]
  note spans = statement_spans.simps [of ss, unfolded nf] statement_spans.simps [of os, unfolded ng]
  show ?case
  proof (cases "f = None \<or> g = None")
    case True
    have "aligned d source sc (length source)" if "f = None"
      using scanning_end [OF less.prems(1)] nf that by simp
    moreover have "oc \<le> length sql" if "g = None"
      using aligned_le scanning_end [OF less.prems(2)] ng that by simp
    ultimately show ?thesis
      using True gap_counts [of d source sc "length source" c oc "length sql" sql] assms less.prems(3)
      by (cases f; cases g) (auto simp: loop spans split: if_splits)
  next
    case False
    then obtain a b where fg: "f = Some a" "g = Some b" by auto
    note sa = scanning_found [OF less.prems(1) nf [unfolded fg]] and sb = scanning_found [OF less.prems(2) ng [unfolded fg]]
    have compatible: "statement_bodies_compatible source a sql b \<longleftrightarrow> body_opening source a = body_opening sql b"
      using compatible_opening sa sb by blast
    let ?plan = "plan_gap_edits d (Some source) (length source) sc (body_start a) (Some sql) (length sql) oc (body_start b) 0 (None, c)"
    have gap: "if comment_kinds d source (body_start a) sc = comment_kinds d sql (body_start b) oc
        then \<exists>c' \<le> Suc (body_start a). ?plan = Some (None, c') else ?plan = None"
      using sa sb aligned_le [of d sql oc "body_start b"] assms less.prems(3) by (intro gap_counts) auto
    show ?thesis
    proof (cases "comment_kinds d source (body_start a) sc = comment_kinds d sql (body_start b) oc")
      case False
      then show ?thesis using gap by (auto simp: loop spans fg split: if_splits)
    next
      case True
      then obtain c' where c': "c' \<le> Suc (body_start a)" "?plan = Some (None, c')" using gap by auto
      have "st_length ss' - st_pos ss' < st_length ss - st_pos ss" using statement_scan_shrinks nf fg by blast
      from less.hyps [OF this, of "body_end a" "body_end b" os' c' True] sa sb c'(1)
      have "statements_loop d source (length source) sql (length sql) 0 ss' os' (body_end a) (body_end b) True (None, c') \<noteq> None \<longleftrightarrow>
          map (body_opening source) (statement_spans ss') = map (body_opening sql) (statement_spans os') \<and>
          gap_comments d source (body_end a) (statement_spans ss') = gap_comments d sql (body_end b) (statement_spans os')"
        by simp
      then show ?thesis using True c'(2) by (simp add: loop spans fg compatible)
    qed
  qed
qed

lemma plan_exists:
  assumes "eh_dialect h = d" "\<not> is_sqlserver_compatible d" "eh_sql h = Some source" "length source < SIZE_MAX"
  shows "plan_statement_gap_edits h (length source) (Some sql) (length sql) None 0 \<noteq> None \<longleftrightarrow> texts_pair d source sql"
  using statements_counts [OF assms(4) scanning_init [of d source] scanning_init [of d sql], where c = 0 and saw = False] assms(1-3)
  by (simp add: plan_statement_gap_edits_def texts_pair_def Let_def)

section \<open>Properties\<close>

text \<open>
  C3.  What the envelope restores, for every dialect without GO lines.  When the texts pair up - as
  many statement bodies in both, at least one, each pair beginning with the same word or byte, and the
  same kinds of comments with meaning, in order, in every gap - the result has the bodies as they were
  printed and every gap before, between and behind them as the caller wrote it, byte for byte, but for
  the comments that carry meaning, which stay as they were printed.  Otherwise only the tail behind
  the last body is restored: equal tails are left alone; tails with as many comments with meaning, of
  the same kinds, are woven in the same way; and else the printed text is kept up to its last comment
  with meaning, or to its body if it has none, and what the caller wrote behind his follows.
\<close>

theorem envelope_restores_gaps:
  assumes "eh_dialect h = d" "\<not> is_sqlserver_compatible d" "eh_sql h = Some source"
    and "\<not> eh_source_complete h" "length source < SIZE_MAX" "NUL \<notin> set source" "NUL \<notin> set sql"
    and "restore_source_envelope alloc (Some h) (Some (Some sql)) = Inr out"
  shows "if texts_pair d source sql
    then out = enveloped d source sql (statement_scan_init d source (length source))
           (statement_scan_init d sql (length sql)) 0 0
    else \<exists>a b. public_terminal_scan d (Some source) = Some a \<and>
      public_terminal_scan d (Some sql) = Some b \<and>
      out =
        (if drop (ts_body_end a) source = drop (ts_body_end b) sql then sql
         else if ts_semantic_count a = ts_semantic_count b \<and> ts_semantic_count a > 0 \<and>
           comment_kinds d source (length source) (ts_body_end a) = comment_kinds d sql (length sql) (ts_body_end b)
         then take (ts_body_end b) sql @
           woven d source (length source) sql (length sql) (ts_body_end a) (ts_body_end b)
         else take (tail_cursor b) sql @ drop (tail_cursor a) source)"
proof -
  from assms obtain a b where scans: "public_terminal_scan d (Some source) = Some a"
      "public_terminal_scan d (Some sql) = Some b"
    and run: "(case try_restore_statement_gaps alloc h a b sql of Some r \<Rightarrow> r
      | None \<Rightarrow> restore_tail alloc h source a b sql) = Inr out"
    by (auto simp: restore_source_envelope_def split: option.splits if_splits)
  note fa = terminal_scan_facts [OF scans(1) assms(6)] and fb = terminal_scan_facts [OF scans(2) assms(7)]
  note none = try_restore_None [of alloc h a b sql, unfolded fa(1) fb(1) assms(1)] plan_exists [OF assms(1-3,5), of sql]
  show ?thesis
  proof (cases "try_restore_statement_gaps alloc h a b sql")
    case None
    have "comment_kinds d source (length source) (ts_body_end a) = comment_kinds d sql (length sql) (ts_body_end b) \<longleftrightarrow>
        plan_gap_edits d (Some source) (length source) (ts_body_end a) (length source)
          (Some sql) (length sql) (ts_body_end b) (length sql) 0 (None, 0) \<noteq> None"
      using gap_counts [OF fa(4) [OF assms(2)] order_refl assms(5) _ fb(2) order_refl, of 0] by (auto split: if_splits)
    moreover have "\<not> texts_pair d source sql" using none None assms(2) by auto
    moreover have "restore_tail alloc h source a b sql = Inr out" using run None by simp
    note restore_tail_cases [OF assms(1,2,5,6,7) scans this]
    ultimately show ?thesis using scans by simp
  next
    case (Some r)
    with run try_restore_cases [OF assms(1,2,3,5) fa(1) fb(1) Some] none assms(2) show ?thesis by auto
  qed
qed

text \<open>
  C24.  The internal errors of the envelope cannot occur, for every dialect without GO lines: once
  both texts have something to scan, the plan made twice is the same, its intervals are valid and
  the written length is the measured one; the only failures are the output limit and memory.
\<close>

theorem envelope_fails_only_for_resources:
  assumes "eh_dialect h = d" "\<not> is_sqlserver_compatible d" "eh_sql h = Some source"
    and "eh_sql_len h = length source" "\<not> eh_source_complete h" "length source < SIZE_MAX"
    and "NUL \<notin> set source" "NUL \<notin> set sql"
    and "public_terminal_scan d (Some source) \<noteq> None" "public_terminal_scan d (Some sql) \<noteq> None"
    and "restore_source_envelope alloc (Some h) (Some (Some sql)) = Inl e"
  shows "err_code e \<in> {RESOURCE_LIMIT, NO_MEMORY}"
proof -
  from assms(9,10) obtain a b where scans: "public_terminal_scan d (Some source) = Some a"
    "public_terminal_scan d (Some sql) = Some b" by auto
  note la = terminal_scan_facts(1) [OF scans(1) assms(7)] and lb = terminal_scan_facts(1) [OF scans(2) assms(8)]
  from assms scans la have run: "(case try_restore_statement_gaps alloc h a b sql of Some r \<Rightarrow> r
      | None \<Rightarrow> restore_tail alloc h source a b sql) = Inl e"
    by (simp add: restore_source_envelope_def)
  show ?thesis
  proof (cases "try_restore_statement_gaps alloc h a b sql")
    case None
    with run restore_tail_cases [OF assms(1,2,6,7,8) scans, of alloc] show ?thesis by auto
  next
    case (Some r)
    with run try_restore_cases [OF assms(1,2,3,6) la lb Some] show ?thesis by auto
  qed
qed

text \<open>
  C29.  A text put back into its own envelope is unchanged, for every dialect without GO lines.  Let the
  handle hold a source text without NUL bytes, record its length, and not be marked as restored from
  source edits, and let the terminal scan find a body or a comment with meaning in the text.  Then with
  the printed SQL equal to the source the restoration succeeds, whatever the limit and the memory, and
  returns the same bytes.
\<close>

theorem envelope_of_source_is_source:
  assumes "\<not> is_sqlserver_compatible (eh_dialect h)" "eh_sql h = Some source"
    and "eh_sql_len h = length source" "\<not> eh_source_complete h" "NUL \<notin> set source"
    and "public_terminal_scan (eh_dialect h) (Some source) \<noteq> None"
  shows "restore_source_envelope alloc (Some h) (Some (Some source)) = Inr source"
  using assms envelope_same [OF refl assms(1-4) _ assms(5)] by auto

text \<open>
  The bodies a statement scan delivers are in order and disjoint, none is empty, and all lie
  between the position of the scan and the end of the text, for every dialect; the scan ends after
  at most as many calls as it has bytes to pass.
\<close>

lemma statement_bodies_in_order:
  assumes "delivers next_body scan bs scan'" "st_length scan = length (st_sql scan)"
  shows "sorted_wrt (\<lambda>a b. body_end a \<le> body_start b) bs \<and>
    (\<forall>b \<in> set bs. st_pos scan \<le> body_start b \<and> body_start b < body_end b \<and>
       body_end b \<le> length (st_sql scan)) \<and>
    st_pos scan + length bs \<le> st_pos scan'"
  using bodies.run_ordered [OF assms(1)] bodies.run_inside [OF assms(1)] bodies.run_end [OF assms(1)]
    assms(2) by auto

text \<open>
  The internal error can be reached with GO lines.  The line of a GO ends at a carriage
  return, but the comment scan of the planner goes on to a line feed, so a hint behind GO on a line
  that ends in a carriage return runs past its gap into the next body: the planner then compares and
  plans a range that ends before it starts, and the restoration fails with an internal error.
\<close>

lemma go_hint_breaks_envelope:
  "restore_source_envelope (\<lambda>_ _. True) (Some (plain_handle SQLSERVER go_source)) (Some (Some go_printed))
     = fail INTERNAL_ERROR ''surface edit interval is invalid''"
  by (simp add: restore_source_envelope_def go_terminal try_restore_statement_gaps_def go_twice
     apply_edits_def go_measure)
     (simp add: go_edits_def)

section \<open>Instances\<close>

theorem envelope_restores_gaps_witness:
  "enveloped POSTGRESQL '' a;'' ''A'' (statement_scan_init POSTGRESQL '' a;'' (length '' a;''))
     (statement_scan_init POSTGRESQL ''A'' (length ''A'')) 0 0 = '' A;''"
proof -
  have "length '' a;'' < SIZE_MAX" "\<not> is_sqlserver_compatible POSTGRESQL"
    by (simp_all add: SIZE_MAX_def is_sqlserver_compatible_def)
  moreover have "texts_pair POSTGRESQL '' a;'' ''A''" by code_simp
  ultimately show ?thesis
    using envelope_restores_gaps [OF _ _ _ _ _ _ _ spaced_run, of POSTGRESQL "'' a;''"] by simp
qed

theorem envelope_fails_only_for_resources_witness:
  "err_code (error_set_message NO_MEMORY ''out of memory'') \<in> {RESOURCE_LIMIT, NO_MEMORY}"
proof -
  have run: "restore_source_envelope (\<lambda>_ _. False) (Some (plain_handle POSTGRESQL '' a;'')) (Some (Some ''A''))
      = Inl (error_set_message NO_MEMORY ''out of memory'')"
    by (simp add: restore_source_envelope_def spaced_terminal try_restore_statement_gaps_def plan_twice_def
        spaced_plan put_edit_def is_sqlserver_compatible_def SIZE_MAX_def sizeof_surface_edit_def
        del: One_nat_def)
  have "length '' a;'' < SIZE_MAX" "\<not> is_sqlserver_compatible POSTGRESQL"
    by (simp_all add: SIZE_MAX_def is_sqlserver_compatible_def)
  with envelope_fails_only_for_resources [OF _ _ _ _ _ _ _ _ _ _ run, of POSTGRESQL "'' a;''"] spaced_terminal
  show ?thesis by simp
qed

theorem envelope_of_source_is_source_witness:
  "restore_source_envelope (\<lambda>_ _. False) (Some (plain_handle POSTGRESQL '' a;'')) (Some (Some '' a;''))
     = Inr '' a;''"
  using envelope_of_source_is_source [of "plain_handle POSTGRESQL '' a;''" "'' a;''"] spaced_terminal
  by (simp add: is_sqlserver_compatible_def)

lemma statement_bodies_in_order_witness:
  "delivers next_body (spaced_scan 0) [\<lparr>body_start = 1, body_end = 2\<rparr>] (spaced_scan 3) \<and>
   st_pos (spaced_scan 0) + 1 \<le> st_pos (spaced_scan 3)"
proof -
  have run: "delivers next_body (spaced_scan 0) [\<lparr>body_start = 1, body_end = 2\<rparr>] (spaced_scan 3)"
    by (simp add: next_body_def spaced_scans)
  moreover have "st_length (spaced_scan 0) = length (st_sql (spaced_scan 0))" by (simp add: spaced_scan_def)
  ultimately show ?thesis using statement_bodies_in_order [OF run] by simp
qed

end
