(* ===== verification/Wire_Codec.thy ===== *)
theory Wire_Codec
  imports Sql_Prelude "HOL-Library.Word"
begin

unbundle bit_operations_syntax

text \<open>
  The protobuf wire primitives of \<^verbatim>\<open>src/core/sqlparser_wire_insert.c\<close>: the strict readers, the
  bounded readers used once a row is certified, the size computations and the writers.  Each
  strict reader is characterised exactly: it accepts a prefix of its input if and only if the
  prefix is the minimal encoding of the value it returns.  The interface of that contract is the
  locale \<open>codec\<close>; the encodings \<open>varint_bytes\<close>, \<open>message_bytes\<close>, \<open>scalar_bytes\<close> are its reference.

  A pair of pointers into the immutable wire is a \<open>wi_reader\<close>: the offset of \<^verbatim>\<open>next\<close> from the base
  of the wire and the bytes from \<^verbatim>\<open>next\<close> to \<^verbatim>\<open>end\<close>.  A \<^verbatim>\<open>uint32_t\<close> is a 32-bit word, a \<^verbatim>\<open>uint8_t\<close> an
  8-bit word.
\<close>

type_synonym byte = "8 word"
type_synonym u32 = "32 word"

definition UINT32_MAX :: nat where "UINT32_MAX = 2 ^ 32 - 1"
definition PTRDIFF_MAX :: nat where "PTRDIFF_MAX = 2 ^ 63 - 1"

section \<open>Readers\<close>

record wi_reader =
  r_at :: nat
  r_bytes :: "byte list"

text \<open>Moving \<^verbatim>\<open>next\<close> over \<open>n\<close> bytes.\<close>

definition advance :: "nat \<Rightarrow> wi_reader \<Rightarrow> wi_reader" where
  "advance n r = \<lparr>r_at = r_at r + n, r_bytes = drop n (r_bytes r)\<rparr>"

text \<open>The loop of \<^verbatim>\<open>wi_varint_long\<close>, from a given shift and partial value.\<close>

fun varint_loop :: "nat \<Rightarrow> u32 \<Rightarrow> nat \<Rightarrow> byte list \<Rightarrow> (u32 \<times> wi_reader) option" where
  "varint_loop shift val pos [] = None"
| "varint_loop shift val pos (b # bs) =
     (if shift > 28 then None
      else if shift = 28 \<and> b AND 0xf0 \<noteq> 0 then None
      else let v = val OR push_bit shift (ucast (b AND 0x7f))
        in if b AND 0x80 = 0
           then (if shift \<noteq> 0 \<and> b = 0 then None
                 else Some (v, \<lparr>r_at = pos + 1, r_bytes = bs\<rparr>))
           else varint_loop (shift + 7) v (pos + 1) bs)"

definition wi_varint_long :: "wi_reader \<Rightarrow> (u32 \<times> wi_reader) option" where
  "wi_varint_long r = varint_loop 0 0 (r_at r) (r_bytes r)"

definition wi_varint :: "wi_reader \<Rightarrow> (u32 \<times> wi_reader) option" where
  "wi_varint r =
     (case r_bytes r of
        [] \<Rightarrow> None
      | b # bs \<Rightarrow> if b < 0x80 then Some (ucast b, advance 1 r) else wi_varint_long r)"

text \<open>The key of a field: its number and its wire type.\<close>

definition wi_tag :: "u32 \<Rightarrow> u32 \<Rightarrow> u32" where
  "wi_tag field kind = push_bit 3 field OR kind"

definition wi_key_is :: "wi_reader \<Rightarrow> u32 \<Rightarrow> u32 \<Rightarrow> bool" where
  "wi_key_is r field kind =
     (case wi_varint r of None \<Rightarrow> False | Some (key, _) \<Rightarrow> key = wi_tag field kind)"

text \<open>\<^verbatim>\<open>wi_message\<close>: the reader of the child and the reader behind it.\<close>

definition wi_message :: "u32 \<Rightarrow> wi_reader \<Rightarrow> (wi_reader \<times> wi_reader) option" where
  "wi_message field r =
     (case wi_varint r of
        None \<Rightarrow> None
      | Some (key, r1) \<Rightarrow>
          if key \<noteq> wi_tag field 2 then None
          else (case wi_varint r1 of
                  None \<Rightarrow> None
                | Some (len, r2) \<Rightarrow>
                    if unat len > length (r_bytes r2) then None
                    else Some (\<lparr>r_at = r_at r2, r_bytes = take (unat len) (r_bytes r2)\<rparr>,
                               advance (unat len) r2)))"

definition wi_scalar :: "u32 \<Rightarrow> wi_reader \<Rightarrow> (u32 \<times> wi_reader) option" where
  "wi_scalar field r =
     (case wi_varint r of
        None \<Rightarrow> None
      | Some (key, r1) \<Rightarrow>
          if key \<noteq> push_bit 3 field then None
          else (case wi_varint r1 of
                  None \<Rightarrow> None
                | Some (v, r2) \<Rightarrow>
                    if v \<noteq> 0 \<and> unat v \<le> INT32_MAX then Some (v, r2) else None))"

definition wi_optional_scalar :: "u32 \<Rightarrow> wi_reader \<Rightarrow> (u32 \<times> wi_reader) option" where
  "wi_optional_scalar field r =
     (if \<not> wi_key_is r field 0 then Some (0, r) else wi_scalar field r)"

definition wi_enum :: "u32 \<Rightarrow> u32 \<Rightarrow> wi_reader \<Rightarrow> wi_reader option" where
  "wi_enum field expected r =
     (case wi_scalar field r of
        None \<Rightarrow> None
      | Some (v, r') \<Rightarrow> if v = expected then Some r' else None)"

text \<open>\<^verbatim>\<open>wi_text\<close>: the bytes of a non-empty string field.\<close>

definition wi_text :: "u32 \<Rightarrow> wi_reader \<Rightarrow> (byte list \<times> wi_reader) option" where
  "wi_text field r =
     (case wi_message field r of
        None \<Rightarrow> None
      | Some (bytes, r') \<Rightarrow> if r_bytes bytes = [] then None else Some (r_bytes bytes, r'))"

section \<open>Readers of certified bytes\<close>

fun certified_loop :: "nat \<Rightarrow> u32 \<Rightarrow> byte list \<Rightarrow> (u32 \<times> byte list) option" where
  "certified_loop shift val [] = None"
| "certified_loop shift val (b # bs) =
     (if shift > 28 then None
      else if shift = 28 \<and> b AND 0xf0 \<noteq> 0 then None
      else let v = val OR push_bit shift (ucast (b AND 0x7f))
        in if b < 0x80 then Some (v, bs) else certified_loop (shift + 7) v bs)"

text \<open>\<^verbatim>\<open>wi_certified_u32\<close>: \<^verbatim>\<open>*cursor\<close> and \<^verbatim>\<open>end\<close> are the bytes between them.\<close>

definition wi_certified_u32 :: "byte list \<Rightarrow> (u32 \<times> byte list) option" where
  "wi_certified_u32 p =
     (case p of
        [] \<Rightarrow> None
      | b # bs \<Rightarrow> if b < 0x80 then Some (ucast (b AND 0x7f), bs)
                 else certified_loop 7 (ucast (b AND 0x7f)) bs)"

text \<open>The length varint skipped by \<^verbatim>\<open>wi_certified_envelope\<close>: at most \<open>n\<close> bytes.\<close>

fun skip_length :: "nat \<Rightarrow> byte list \<Rightarrow> byte list option" where
  "skip_length 0 p = None"
| "skip_length (Suc n) [] = None"
| "skip_length (Suc n) (b # bs) = (if b < 0x80 then Some bs else skip_length n bs)"

definition wi_certified_envelope :: "nat \<Rightarrow> byte list \<Rightarrow> byte list option" where
  "wi_certified_envelope tag_bytes p =
     (if length p \<le> tag_bytes then None else skip_length 5 (drop tag_bytes p))"

section \<open>Sizes and writers\<close>

definition wi_varint_size :: "u32 \<Rightarrow> nat" where
  "wi_varint_size val =
     (if val < push_bit 7 1 then 1 else if val < push_bit 14 1 then 2
      else if val < push_bit 21 1 then 3 else if val < push_bit 28 1 then 4 else 5)"

text \<open>\<^verbatim>\<open>wi_envelope\<close>: a 64-bit sum of a 32-bit payload and at most ten bytes, so it does not wrap.\<close>

definition wi_envelope :: "u32 \<Rightarrow> u32 \<Rightarrow> nat" where
  "wi_envelope tag payload =
     wi_varint_size (wi_tag tag 2) + wi_varint_size payload + unat payload"

definition wi_scalar_size :: "u32 \<Rightarrow> u32 \<Rightarrow> nat" where
  "wi_scalar_size tag val =
     (if val = 0 then 0 else wi_varint_size (push_bit 3 tag) + wi_varint_size val)"

text \<open>The writer: the bytes before \<^verbatim>\<open>next\<close>, the room up to \<^verbatim>\<open>end\<close>, the failure flag.\<close>

record wi_writer =
  w_bytes :: "byte list"
  w_room :: nat
  w_failed :: bool

definition put_byte :: "byte \<Rightarrow> wi_writer \<Rightarrow> wi_writer" where
  "put_byte b w = w\<lparr>w_bytes := w_bytes w @ [b], w_room := w_room w - 1\<rparr>"

definition low_byte :: "u32 \<Rightarrow> byte" where
  "low_byte val = ucast ((val AND 0x7f) OR (if val \<ge> 0x80 then 0x80 else 0))"

text \<open>A right shift by seven makes a value that is not zero smaller.\<close>

lemma drop_bit_7_less: "drop_bit 7 val \<noteq> 0 \<Longrightarrow> unat (drop_bit 7 val) < unat (val :: u32)"
proof -
  assume "drop_bit 7 val \<noteq> 0"
  then have "unat val \<noteq> 0" by (metis drop_bit_of_0 unat_eq_zero)
  then show ?thesis by (simp add: drop_bit_eq_div unat_div)
qed

function wi_write_varint :: "u32 \<Rightarrow> wi_writer \<Rightarrow> wi_writer" where
  "wi_write_varint val w =
     (if w_room w = 0 then w\<lparr>w_failed := True\<rparr>
      else let w' = put_byte (low_byte val) w
        in if drop_bit 7 val \<noteq> 0 then wi_write_varint (drop_bit 7 val) w' else w')"
  by pat_completeness auto
termination
  by (relation "measure (\<lambda>(val, _). unat val)") (auto simp: drop_bit_7_less)

declare wi_write_varint.simps [simp del]

definition wi_write_header :: "u32 \<Rightarrow> u32 \<Rightarrow> wi_writer \<Rightarrow> wi_writer" where
  "wi_write_header tag payload w = wi_write_varint payload (wi_write_varint (wi_tag tag 2) w)"

definition wi_write_scalar :: "u32 \<Rightarrow> u32 \<Rightarrow> wi_writer \<Rightarrow> wi_writer" where
  "wi_write_scalar tag val w =
     (if val \<noteq> 0 then wi_write_varint val (wi_write_varint (push_bit 3 tag) w) else w)"

definition wi_write_bytes :: "byte list \<Rightarrow> wi_writer \<Rightarrow> wi_writer" where
  "wi_write_bytes bs w =
     (if length bs > w_room w then w\<lparr>w_failed := True\<rparr>
      else w\<lparr>w_bytes := w_bytes w @ bs, w_room := w_room w - length bs\<rparr>)"

section \<open>The reference encoding\<close>

text \<open>Minimal base-128 digits, lowest first, every byte but the last with its top bit set.\<close>

fun varint_bytes :: "nat \<Rightarrow> byte list" where
  "varint_bytes n =
     (if n < 128 then [of_nat n] else of_nat (128 + n mod 128) # varint_bytes (n div 128))"

declare varint_bytes.simps [simp del]

definition u32_bytes :: "u32 \<Rightarrow> byte list" where
  "u32_bytes v = varint_bytes (unat v)"

definition message_bytes :: "u32 \<Rightarrow> byte list \<Rightarrow> byte list" where
  "message_bytes field payload =
     u32_bytes (wi_tag field 2) @ u32_bytes (of_nat (length payload)) @ payload"

definition scalar_bytes :: "u32 \<Rightarrow> u32 \<Rightarrow> byte list" where
  "scalar_bytes field v =
     (if v = 0 then [] else u32_bytes (push_bit 3 field) @ u32_bytes v)"


section \<open>The contract of a codec\<close>

text \<open>
  A reader of items \<open>'a\<close> and their encoding.  The law is exact: the reader succeeds if and only if
  its input starts with the encoding of an admissible item, and then it stops right behind it.
  \<open>good\<close> may depend on the offset the item starts at (a child reader records its own offset).
\<close>

locale codec =
  fixes read_item :: "wi_reader \<Rightarrow> ('a \<times> wi_reader) option"
    and encode :: "'a \<Rightarrow> byte list"
    and good :: "nat \<Rightarrow> 'a \<Rightarrow> bool"
  assumes exact: "read_item r = Some (x, r') \<longleftrightarrow>
      good (r_at r) x \<and> r_bytes r = encode x @ r_bytes r' \<and> r_at r' = r_at r + length (encode x)"
begin

lemma reads_encoding:
  assumes "good at x"
  shows "read_item \<lparr>r_at = at, r_bytes = encode x @ rest\<rparr> =
           Some (x, \<lparr>r_at = at + length (encode x), r_bytes = rest\<rparr>)"
  using assms by (simp add: exact)

lemma accepts_only_encoding:
  assumes "read_item r = Some (x, r')"
  shows "r_bytes r = encode x @ r_bytes r'" "r_at r' = r_at r + length (encode x)" "good (r_at r) x"
  using assms by (simp_all add: exact)

lemma prefix_free:
  assumes "good at x" "good at y" "encode x @ s = encode y @ t"
  shows "x = y \<and> s = t"
proof -
  have "Some (x, \<lparr>r_at = at + length (encode x), r_bytes = s\<rparr>) =
        Some (y, \<lparr>r_at = at + length (encode y), r_bytes = t\<rparr>)"
    using reads_encoding [OF assms(1), of s] reads_encoding [OF assms(2), of t]
    unfolding assms(3) by (rule trans [OF sym])
  then show ?thesis by simp
qed

lemma injective: "good at x \<Longrightarrow> good at y \<Longrightarrow> encode x = encode y \<Longrightarrow> x = y"
  using prefix_free [of at x y "[]" "[]"] by simp

lemma fails_without_encoding:
  "read_item r = None \<longleftrightarrow> (\<forall>x s. good (r_at r) x \<longrightarrow> r_bytes r \<noteq> encode x @ s)"
proof
  assume none: "read_item r = None"
  show "\<forall>x s. good (r_at r) x \<longrightarrow> r_bytes r \<noteq> encode x @ s"
  proof (intro allI impI notI)
    fix x s assume "good (r_at r) x" "r_bytes r = encode x @ s"
    then have "read_item r = Some (x, \<lparr>r_at = r_at r + length (encode x), r_bytes = s\<rparr>)"
      by (simp add: exact)
    with none show False by simp
  qed
next
  assume no: "\<forall>x s. good (r_at r) x \<longrightarrow> r_bytes r \<noteq> encode x @ s"
  show "read_item r = None"
  proof (rule ccontr)
    assume "read_item r \<noteq> None"
    then obtain x r' where "read_item r = Some (x, r')" by auto
    with no accepts_only_encoding show False by blast
  qed
qed

lemma remaining_bound: "read_item r = Some (x, r') \<Longrightarrow>
    r_at r' + length (r_bytes r') = r_at r + length (r_bytes r)"
  by (simp add: exact)

end

text \<open>The law from its two directions.\<close>

lemma codec_exactI:
  assumes accepts: "\<And>r x r'. read_item r = Some (x, r') \<Longrightarrow>
      good (r_at r) x \<and> r_bytes r = encode x @ r_bytes r' \<and> r_at r' = r_at r + length (encode x)"
    and reads: "\<And>at x s. good at x \<Longrightarrow> read_item \<lparr>r_at = at, r_bytes = encode x @ s\<rparr> =
      Some (x, \<lparr>r_at = at + length (encode x), r_bytes = s\<rparr>)"
  shows "read_item r = Some (x, r') \<longleftrightarrow>
      good (r_at r) x \<and> r_bytes r = encode x @ r_bytes r' \<and> r_at r' = r_at r + length (encode x)"
proof
  assume R: "good (r_at r) x \<and> r_bytes r = encode x @ r_bytes r' \<and> r_at r' = r_at r + length (encode x)"
  then have "r = \<lparr>r_at = r_at r, r_bytes = encode x @ r_bytes r'\<rparr>"
    "r' = \<lparr>r_at = r_at r + length (encode x), r_bytes = r_bytes r'\<rparr>" by simp_all
  with R reads [of "r_at r" x "r_bytes r'"] show "read_item r = Some (x, r')" by simp
qed (rule accepts)

section \<open>Bytes and bits\<close>

lemma byte_range: "unat (b :: byte) < 256"
  using unsigned_less [of b] by simp

lemma unat_low7: "unat (b AND 0x7f :: byte) = unat b mod 128"
proof -
  have "b AND 0x7f = take_bit 7 b" by (simp only: take_bit_eq_mask) (simp add: mask_eq_exp_minus_1)
  then show ?thesis
    by (simp only: unsigned_take_bit_eq) (simp add: take_bit_eq_mod)
qed

lemma and_128: "(n AND 128 = 0) = (n < 128)" if "n < (256 :: nat)"
proof -
  have "n div 128 = (if n < 128 then 0 else 1)" using that by (simp add: div_nat_eqI)
  moreover have "n AND 128 = 0 \<longleftrightarrow> \<not> bit n 7" using and_exp_eq_0_iff_not_bit [of n 7] by simp
  ultimately show ?thesis by (simp add: bit_iff_odd)
qed

lemma and_240: "(n AND 240 = 0) = (n < 16)" if "n < (256 :: nat)"
proof -
  have "n div 16 AND 15 = n div 16 AND mask 4" by (simp add: mask_eq_exp_minus_1)
  also have "... = n div 16" using that by (simp add: take_bit_nat_eq_self flip: take_bit_eq_mask)
  finally have high: "n div 16 AND 15 = n div 16" .
  have halve: "m AND 2 * k = 2 * (m div 2 AND k)" for m k :: nat
    by (simp add: and_nat_rec [of m "2 * k"])
  have "n AND 240 = 16 * (n div 16 AND 15)"
    using halve [of n 120] halve [of "n div 2" 60] halve [of "n div 2 div 2" 30]
      halve [of "n div 2 div 2 div 2" 15] by (simp flip: div_mult2_eq)
  then show ?thesis using that high by (simp add: div_eq_0_iff)
qed

lemma byte_tests:
  "(b AND 0x80 = (0 :: byte)) = (unat b < 128)"
  "(b AND 0xf0 = (0 :: byte)) = (unat b < 16)"
  "(b < (0x80 :: byte)) = (unat b < 128)"
proof -
  have "unat (b AND 0x80) = unat b AND 128" "unat (b AND 0xf0) = unat b AND 240"
    unfolding unsigned_and_eq by simp_all
  then show "(b AND 0x80 = 0) = (unat b < 128)" "(b AND 0xf0 = 0) = (unat b < 16)"
    using and_128 [OF byte_range [of b]] and_240 [OF byte_range [of b]]
      unat_eq_zero [of "b AND 0x80"] unat_eq_zero [of "b AND 0xf0"] by argo+
  show "(b < 0x80) = (unat b < 128)" by (simp add: word_less_nat_alt)
qed

lemma or_shifted:
  assumes "unat (u :: u32) < 2 ^ s" "2 ^ s * unat x < 2 ^ 32"
  shows "unat (u OR push_bit s x) = unat u + 2 ^ s * unat x"
proof -
  have "unat (push_bit s x) = take_bit 32 (push_bit s (unat x))"
    by (simp only: unsigned_push_bit_eq) simp
  also have "... = push_bit s (unat x)"
    using assms(2) by (simp only: take_bit_nat_eq_self_iff push_bit_eq_mult mult.commute)
  finally have shifted: "unat (push_bit s x) = push_bit s (unat x)" .
  have low: "\<not> bit (unat u) n" if "s \<le> n" for n
  proof -
    have "unat u < 2 ^ n"
      using assms(1) that by (meson le_less_trans not_le power_increasing_iff one_less_numeral_iff
          less_le_trans power_increasing one_le_numeral)
    then show ?thesis by (simp add: bit_iff_odd)
  qed
  have "unat u AND push_bit s (unat x) = 0"
    using low by (auto simp: bit_eq_iff bit_simps)
  then have "unat u + push_bit s (unat x) = unat u OR push_bit s (unat x)"
    by (rule disjunctive_add_eq_or)
  then show ?thesis
    unfolding unsigned_or_eq shifted by (simp only: push_bit_eq_mult mult.commute)
qed

lemma unat_ucast_low7: "unat (ucast (b AND 0x7f :: byte) :: u32) = unat b mod 128"
proof -
  have "unat (ucast (b AND 0x7f :: byte) :: u32) = take_bit 32 (unat (b AND 0x7f))"
    by (simp only: unsigned_ucast_eq) simp
  then show ?thesis unfolding unat_low7 by (simp add: take_bit_nat_eq_self_iff)
qed

section \<open>The varint readers and writer\<close>

lemma byte_zero_iff: "(b = (0 :: byte)) = (unat b = 0)"
  by (simp add: unat_eq_zero)

lemma varint_bytes_not_Nil [simp]: "varint_bytes n \<noteq> []"
  by (simp add: varint_bytes.simps [of n])

lemma of_nat_byte_eq: "n < 256 \<Longrightarrow> (b = of_nat n) = (n = unat (b :: byte))"
  by (auto simp: unat_of_nat take_bit_nat_eq_self)

lemma varint_bytes_Cons_iff:
  "b # bs = varint_bytes n @ s \<longleftrightarrow>
     (if unat b < 128 then n = unat b \<and> bs = s
      else \<exists>m > 0. n = unat b - 128 + 128 * m \<and> bs = varint_bytes m @ s)"
proof (cases "n < 128")
  case True
  then show ?thesis by (auto simp: varint_bytes.simps [of n] of_nat_byte_eq)
next
  case False
  have digit: "b = of_nat (128 + n mod 128) \<longleftrightarrow> 128 + n mod 128 = unat b"
    by (rule of_nat_byte_eq) simp
  show ?thesis
  proof (cases "unat b < 128")
    case True
    with False digit show ?thesis by (auto simp: varint_bytes.simps [of n])
  next
    case high: False
    have "b # bs = varint_bytes n @ s \<longleftrightarrow>
        128 + n mod 128 = unat b \<and> bs = varint_bytes (n div 128) @ s"
      using False digit by (simp add: varint_bytes.simps [of n])
    also have "... \<longleftrightarrow> (\<exists>m > 0. n = unat b - 128 + 128 * m \<and> bs = varint_bytes m @ s)" (is "?L \<longleftrightarrow> ?R")
    proof
      assume ?L
      then have "n = unat b - 128 + 128 * (n div 128)" "n div 128 > 0"
        using False mult_div_mod_eq [of 128 n] by (linarith, simp add: div_greater_zero_iff)
      with \<open>?L\<close> show ?R by blast
    next
      assume ?R
      then obtain m where m: "n = unat b - 128 + 128 * m" "bs = varint_bytes m @ s" by blast
      have "unat b - 128 < 128" using byte_range [of b] high by simp
      then have "n div 128 = m" "n mod 128 = unat b - 128" unfolding m(1) by simp_all
      with m(2) high show ?L by simp
    qed
    finally show ?thesis using high by simp
  qed
qed

lemma digit_bound:
  assumes "k \<le> 3" "x < 128"
  shows "(2 ^ (7 * k) * (x + 128 * m) < 2 ^ 32) = (2 ^ (7 * Suc k) * m < (2 ^ 32 :: nat))"
proof -
  have "7 * k + (7 + (25 - 7 * k)) = 32" using assms(1) by simp
  then have "(2 ^ 32 :: nat) = 2 ^ (7 * k) * (2 ^ 7 * 2 ^ (25 - 7 * k))"
    by (simp only: power_add [symmetric])
  then have total: "(2 ^ 32 :: nat) = 2 ^ (7 * k) * (128 * 2 ^ (25 - 7 * k))" by simp
  have "x + 128 * m < 128 * r \<longleftrightarrow> m < r" for r using assms(2) by arith
  then show ?thesis unfolding total by (simp add: power_add)
qed

lemma varint_loop_step:
  assumes "shift \<le> 28" "shift = 28 \<longrightarrow> unat b < 16"
  shows "varint_loop shift val pos (b # bs) =
    (let v = val OR push_bit shift (ucast (b AND 0x7f))
     in if unat b < 128
        then if shift \<noteq> 0 \<and> unat b = 0 then None else Some (v, \<lparr>r_at = pos + 1, r_bytes = bs\<rparr>)
        else varint_loop (shift + 7) v (pos + 1) bs)"
proof -
  have "(b = 0) = (unat b = 0)" by (rule byte_zero_iff)
  then show ?thesis
    using assms unfolding varint_loop.simps byte_tests by (simp only: not_less not_le Let_def if_False
        linorder_not_less) auto
qed

text \<open>
  The loop from shift \<open>7 * k\<close>: it reads the digits of the rest \<open>n\<close> of the value, which must be
  minimal (a later digit is not zero) and fit the 32 bits.
\<close>

lemma varint_loop_exact:
  assumes "k \<le> 4" "unat val < 2 ^ (7 * k)"
  shows "varint_loop (7 * k) val pos bs = Some (v, r') \<longleftrightarrow>
    (\<exists>n. (k \<noteq> 0 \<longrightarrow> n \<noteq> 0) \<and> 2 ^ (7 * k) * n < 2 ^ 32 \<and> bs = varint_bytes n @ r_bytes r' \<and>
       r_at r' = pos + length (varint_bytes n) \<and> unat v = unat val + 2 ^ (7 * k) * n)"
  using assms
proof (induction bs arbitrary: k val pos)
  case Nil
  then show ?case by auto
next
  case (Cons b bs)
  let ?x = "unat b mod 128"
  let ?v = "val OR push_bit (7 * k) (ucast (b AND 0x7f))"
  have shift: "\<not> 7 * k > 28" "(7 * k = 28) = (k = 4)" using Cons.prems(1) by simp_all
  show ?case
  proof (cases "k = 4 \<and> 16 \<le> unat b")
    case True
    then have "\<not> (2 ^ (7 * k) * n < 2 ^ 32 \<and> b # bs = varint_bytes n @ r_bytes r')" for n
      by (auto simp: varint_bytes_Cons_iff)
    moreover have "varint_loop (7 * k) val pos (b # bs) = None"
      unfolding varint_loop.simps byte_tests using True by simp
    ultimately show ?thesis by auto
  next
    case False
    have fits: "2 ^ (7 * k) * ?x < (2 ^ 32 :: nat)"
    proof (cases "k = 4")
      case True
      with False have "?x < 16" by simp
      with True show ?thesis by simp
    next
      case lower: False
      then have "k \<le> 3" using Cons.prems(1) by simp
      then show ?thesis using digit_bound [of k ?x 0] by simp
    qed
    have v: "unat ?v = unat val + 2 ^ (7 * k) * ?x"
      using or_shifted [OF Cons.prems(2), of "ucast (b AND 0x7f)"] fits
      unfolding unat_ucast_low7 by blast
    have step: "varint_loop (7 * k) val pos (b # bs) =
        (if unat b < 128
         then if 7 * k \<noteq> 0 \<and> unat b = 0 then None else Some (?v, \<lparr>r_at = pos + 1, r_bytes = bs\<rparr>)
         else varint_loop (7 * k + 7) ?v (pos + 1) bs)"
      using varint_loop_step [of "7 * k" b val pos bs] Cons.prems(1) False unfolding Let_def by linarith
    show ?thesis
    proof (cases "unat b < 128")
      case True
      have "varint_loop (7 * k) val pos (b # bs) = Some (v, r') \<longleftrightarrow>
          (k = 0 \<or> unat b \<noteq> 0) \<and> ?v = v \<and> r_at r' = pos + 1 \<and> r_bytes r' = bs"
        using step True by (cases r') auto
      also have "?v = v \<longleftrightarrow> unat v = unat val + 2 ^ (7 * k) * unat b"
        unfolding word_unat_eq_iff v using True by auto
      finally show ?thesis
        using fits True by (auto simp: varint_bytes_Cons_iff varint_bytes.simps [of "unat b"])
    next
      case high: False
      then have k: "k \<le> 3" using False Cons.prems(1) by linarith
      have x: "?x = unat b - 128" using high byte_range [of b] by (simp add: le_mod_geq)
      have below: "unat ?v < 2 ^ (7 * Suc k)"
      proof -
        have "2 ^ (7 * k) * ?x \<le> 2 ^ (7 * k) * 127" by (intro mult_le_mono2) simp
        then have "unat ?v < 2 ^ (7 * k) * 128" using v Cons.prems(2) by linarith
        then show ?thesis by (simp add: power_add)
      qed
      have loop: "varint_loop (7 * k) val pos (b # bs) = varint_loop (7 * Suc k) ?v (pos + 1) bs"
        using step high by (simp add: add.commute)
      have rest: "varint_loop (7 * Suc k) ?v (pos + 1) bs = Some (v, r') \<longleftrightarrow>
        (\<exists>m. m \<noteq> 0 \<and> 2 ^ (7 * Suc k) * m < 2 ^ 32 \<and> bs = varint_bytes m @ r_bytes r' \<and>
          r_at r' = pos + 1 + length (varint_bytes m) \<and> unat v = unat ?v + 2 ^ (7 * Suc k) * m)"
        using Cons.IH [of "Suc k" ?v "pos + 1"] k below by simp
      have digits: "(\<exists>m. m \<noteq> 0 \<and> 2 ^ (7 * Suc k) * m < 2 ^ 32 \<and> bs = varint_bytes m @ r_bytes r' \<and>
          r_at r' = pos + 1 + length (varint_bytes m) \<and> unat v = unat ?v + 2 ^ (7 * Suc k) * m) \<longleftrightarrow>
        (\<exists>m. m \<noteq> 0 \<and> 2 ^ (7 * k) * (?x + 128 * m) < 2 ^ 32 \<and> bs = varint_bytes m @ r_bytes r' \<and>
          r_at r' = pos + length (varint_bytes (?x + 128 * m)) \<and>
          unat v = unat val + 2 ^ (7 * k) * (?x + 128 * m))"
      proof (rule ex_cong1)
        fix m
        have "unat ?v + 2 ^ (7 * Suc k) * m = unat val + 2 ^ (7 * k) * (?x + 128 * m)"
          unfolding v by (simp add: power_add add_mult_distrib2)
        moreover have "pos + 1 + length (varint_bytes m) = pos + length (varint_bytes (?x + 128 * m))"
          if "m \<noteq> 0" using that by (simp add: varint_bytes.simps [of "?x + 128 * m"])
        moreover have "(2 ^ (7 * k) * (?x + 128 * m) < 2 ^ 32) = (2 ^ (7 * Suc k) * m < (2 ^ 32 :: nat))"
          using k by (rule digit_bound) simp
        ultimately show "(m \<noteq> 0 \<and> 2 ^ (7 * Suc k) * m < 2 ^ 32 \<and> bs = varint_bytes m @ r_bytes r' \<and>
            r_at r' = pos + 1 + length (varint_bytes m) \<and> unat v = unat ?v + 2 ^ (7 * Suc k) * m) =
          (m \<noteq> 0 \<and> 2 ^ (7 * k) * (?x + 128 * m) < 2 ^ 32 \<and> bs = varint_bytes m @ r_bytes r' \<and>
            r_at r' = pos + length (varint_bytes (?x + 128 * m)) \<and>
            unat v = unat val + 2 ^ (7 * k) * (?x + 128 * m))"
          by metis
      qed
      show ?thesis
        unfolding loop rest digits varint_bytes_Cons_iff x using high by auto
    qed
  qed
qed


lemma wi_varint_is_loop: "wi_varint r = wi_varint_long r"
proof (cases "r_bytes r")
  case Nil
  then show ?thesis by (simp add: wi_varint_def wi_varint_long_def)
next
  case (Cons b bs)
  have "ucast (b AND 0x7f) = (ucast b :: u32)" if "unat b < 128"
  proof -
    have "b AND 0x7f = b" using that by (simp add: word_unat_eq_iff unat_low7)
    then show ?thesis by simp
  qed
  with Cons show ?thesis
    by (simp add: wi_varint_def wi_varint_long_def byte_tests advance_def)
qed

lemma wi_varint_exact:
  "wi_varint r = Some (v, r') \<longleftrightarrow>
     r_bytes r = u32_bytes v @ r_bytes r' \<and> r_at r' = r_at r + length (u32_bytes v)"
  using varint_loop_exact [of 0 0 "r_at r" "r_bytes r" v r'] unsigned_less [of v]
  by (auto simp: wi_varint_is_loop wi_varint_long_def u32_bytes_def)

interpretation varint: codec wi_varint u32_bytes "\<lambda>_ _. True"
  by unfold_locales (simp add: wi_varint_exact)

lemma u32_bytes_not_Nil [simp]: "u32_bytes v \<noteq> []"
  by (simp add: u32_bytes_def)

lemma wi_varint_reads [simp]:
  "wi_varint \<lparr>r_at = at, r_bytes = u32_bytes v @ s\<rparr> =
     Some (v, \<lparr>r_at = at + length (u32_bytes v), r_bytes = s\<rparr>)"
  by (rule varint.reads_encoding) simp

text \<open>The reader of certified bytes agrees with the strict one wherever that one accepts.\<close>

lemma certified_loop_agrees:
  "varint_loop shift val pos bs = Some (v, r') \<Longrightarrow> certified_loop shift val bs = Some (v, r_bytes r')"
  by (induction shift val pos bs rule: varint_loop.induct)
    (auto simp: byte_tests Let_def split: if_splits)

lemma certified_u32_is_loop: "wi_certified_u32 p = certified_loop 0 0 p"
proof (cases p)
  case (Cons b bs)
  then show ?thesis by (simp add: wi_certified_u32_def byte_tests Let_def)
qed (simp add: wi_certified_u32_def)

lemma certified_u32_reads [simp]: "wi_certified_u32 (u32_bytes v @ s) = Some (v, s)"
proof -
  have "varint_loop 0 0 0 (u32_bytes v @ s) = Some (v, \<lparr>r_at = length (u32_bytes v), r_bytes = s\<rparr>)"
    using wi_varint_reads [of 0 v s] by (simp add: wi_varint_is_loop wi_varint_long_def)
  from certified_loop_agrees [OF this] show ?thesis by (simp add: certified_u32_is_loop)
qed

section \<open>Messages, scalars and text\<close>

lemma wi_message_exact:
  "wi_message f r = Some (c, r') \<longleftrightarrow>
     (length (r_bytes c) < 2 ^ 32 \<and>
      r_at c = r_at r + length (u32_bytes (wi_tag f 2)) + length (u32_bytes (of_nat (length (r_bytes c))))) \<and>
     r_bytes r = message_bytes f (r_bytes c) @ r_bytes r' \<and>
     r_at r' = r_at r + length (message_bytes f (r_bytes c))" (is "?L \<longleftrightarrow> ?R")
proof
  assume ?L
  then obtain r1 len r2 where 1: "wi_varint r = Some (wi_tag f 2, r1)" and 2: "wi_varint r1 = Some (len, r2)"
    and le: "unat len \<le> length (r_bytes r2)"
    and c: "c = \<lparr>r_at = r_at r2, r_bytes = take (unat len) (r_bytes r2)\<rparr>"
    and r': "r' = advance (unat len) r2"
    by (auto simp: wi_message_def split: option.splits if_splits)
  have len: "length (r_bytes c) = unat len" using le c by simp
  have small: "length (r_bytes c) < 2 ^ 32" unfolding len using unsigned_less [of len] by simp
  have again: "of_nat (length (r_bytes c)) = len" unfolding len by simp
  have split: "r_bytes r2 = r_bytes c @ r_bytes r'" "r_at r' = r_at r2 + length (r_bytes c)"
    using le by (simp_all add: c r' advance_def)
  have "r_bytes r = u32_bytes (wi_tag f 2) @ u32_bytes len @ r_bytes r2"
    "r_at r2 = r_at r + length (u32_bytes (wi_tag f 2)) + length (u32_bytes len)" "r_at c = r_at r2"
    using 1 2 c by (simp_all add: wi_varint_exact)
  with small split show ?R
    unfolding message_bytes_def again by simp
next
  assume R: ?R
  let ?len = "of_nat (length (r_bytes c)) :: u32"
  have len: "unat ?len = length (r_bytes c)" using R by (simp add: unat_of_nat take_bit_nat_eq_self)
  obtain r1 where 1: "wi_varint r = Some (wi_tag f 2, r1)"
    and r1: "r1 = \<lparr>r_at = r_at r + length (u32_bytes (wi_tag f 2)), r_bytes = u32_bytes ?len @ r_bytes c @ r_bytes r'\<rparr>"
    using R by (simp add: wi_varint_exact message_bytes_def)
  have 2: "wi_varint r1 = Some (?len, \<lparr>r_at = r_at c, r_bytes = r_bytes c @ r_bytes r'\<rparr>)"
    using R unfolding r1 by simp
  have "r_at r' = r_at c + length (r_bytes c)"
    using R by (simp add: message_bytes_def)
  then have "advance (length (r_bytes c)) \<lparr>r_at = r_at c, r_bytes = r_bytes c @ r_bytes r'\<rparr> = r'"
    "\<lparr>r_at = r_at c, r_bytes = r_bytes c\<rparr> = c"
    by (simp_all add: advance_def)
  then show ?L
    unfolding wi_message_def 1 by (simp add: 2 len)
qed

lemma wi_scalar_exact:
  "wi_scalar f r = Some (v, r') \<longleftrightarrow>
     (v \<noteq> 0 \<and> unat v \<le> INT32_MAX) \<and> r_bytes r = scalar_bytes f v @ r_bytes r' \<and>
     r_at r' = r_at r + length (scalar_bytes f v)" (is "?L \<longleftrightarrow> ?R")
proof
  assume ?L
  then show ?R
    by (auto simp: wi_scalar_def wi_varint_exact scalar_bytes_def split: option.splits if_splits)
next
  assume R: ?R
  then obtain r1 where "wi_varint r = Some (push_bit 3 f, r1)"
    "r1 = \<lparr>r_at = r_at r + length (u32_bytes (push_bit 3 f)), r_bytes = u32_bytes v @ r_bytes r'\<rparr>"
    by (simp add: wi_varint_exact scalar_bytes_def)
  with R show ?L by (cases r') (simp add: wi_scalar_def scalar_bytes_def add.assoc)
qed

lemma wi_text_exact:
  "wi_text f r = Some (bs, r') \<longleftrightarrow>
     (bs \<noteq> [] \<and> length bs < 2 ^ 32) \<and> r_bytes r = message_bytes f bs @ r_bytes r' \<and>
     r_at r' = r_at r + length (message_bytes f bs)" (is "?L \<longleftrightarrow> ?R")
proof
  assume ?L
  then show ?R
    by (auto simp: wi_text_def wi_message_exact split: option.splits if_splits)
next
  assume R: ?R
  let ?at = "r_at r + length (u32_bytes (wi_tag f 2)) + length (u32_bytes (of_nat (length bs)))"
  have "wi_message f r = Some (\<lparr>r_at = ?at, r_bytes = bs\<rparr>, r')"
    unfolding wi_message_exact using R by simp
  with R show ?L by (simp add: wi_text_def)
qed

lemma wi_enum_exact:
  "wi_enum f e r = Some r' \<longleftrightarrow>
     e \<noteq> 0 \<and> unat e \<le> INT32_MAX \<and> r_bytes r = scalar_bytes f e @ r_bytes r' \<and>
     r_at r' = r_at r + length (scalar_bytes f e)"
  using wi_scalar_exact [of f r e r']
  by (auto simp: wi_enum_def split: option.splits if_splits dest: wi_scalar_exact [THEN iffD1])

interpretation message: codec "wi_message f" "\<lambda>c. message_bytes f (r_bytes c)"
  "\<lambda>at c. length (r_bytes c) < 2 ^ 32 \<and>
     r_at c = at + length (u32_bytes (wi_tag f 2)) + length (u32_bytes (of_nat (length (r_bytes c))))"
  for f
  by unfold_locales (rule wi_message_exact)

interpretation scalar: codec "wi_scalar f" "scalar_bytes f" "\<lambda>_ v. v \<noteq> 0 \<and> unat v \<le> INT32_MAX" for f
  by unfold_locales (rule wi_scalar_exact)

interpretation text_field: codec "wi_text f" "message_bytes f" "\<lambda>_ bs. bs \<noteq> [] \<and> length bs < 2 ^ 32" for f
  by unfold_locales (rule wi_text_exact)

text \<open>What \<open>wi_key_is\<close> sees at the start of an encoded field, and at the end of the input.\<close>

lemma key_is_message [simp]:
  "wi_key_is \<lparr>r_at = at, r_bytes = message_bytes f p @ s\<rparr> g k = (wi_tag f 2 = wi_tag g k)"
  by (simp add: wi_key_is_def message_bytes_def)

lemma key_is_scalar [simp]:
  "v \<noteq> 0 \<Longrightarrow> wi_key_is \<lparr>r_at = at, r_bytes = scalar_bytes f v @ s\<rparr> g k = (push_bit 3 f = wi_tag g k)"
  by (simp add: wi_key_is_def scalar_bytes_def)

lemma key_is_Nil [simp]: "\<not> wi_key_is \<lparr>r_at = at, r_bytes = []\<rparr> g k"
  by (simp add: wi_key_is_def wi_varint_def)

lemma message_bytes_not_Nil [simp]: "message_bytes f p \<noteq> []"
  by (simp add: message_bytes_def)

text \<open>An optional scalar: zero is written as nothing, and read back when another field follows.\<close>

lemma wi_optional_scalar_accepts:
  assumes "wi_optional_scalar f r = Some (v, r')"
  shows "unat v \<le> INT32_MAX" "r_bytes r = scalar_bytes f v @ r_bytes r'"
    "r_at r' = r_at r + length (scalar_bytes f v)"
  using assms by (auto simp: wi_optional_scalar_def scalar_bytes_def wi_scalar_exact split: if_splits)

lemma wi_optional_scalar_reads:
  assumes "unat v \<le> INT32_MAX" "\<not> wi_key_is \<lparr>r_at = at, r_bytes = s\<rparr> f 0"
  shows "wi_optional_scalar f \<lparr>r_at = at, r_bytes = scalar_bytes f v @ s\<rparr> =
           Some (v, \<lparr>r_at = at + length (scalar_bytes f v), r_bytes = s\<rparr>)"
proof (cases "v = 0")
  case True
  with assms show ?thesis by (simp add: wi_optional_scalar_def scalar_bytes_def)
next
  case False
  have "wi_key_is \<lparr>r_at = at, r_bytes = scalar_bytes f v @ s\<rparr> f 0"
    using False by (simp add: wi_tag_def)
  then show ?thesis
    using False assms(1) by (simp add: wi_optional_scalar_def wi_scalar_exact)
qed

section \<open>Certified envelopes\<close>

lemma skip_length_varint: "length (varint_bytes n) \<le> k \<Longrightarrow> skip_length k (varint_bytes n @ s) = Some s"
proof (induction n arbitrary: k rule: varint_bytes.induct)
  case (1 n)
  have small: "(of_nat n :: byte) < 0x80" if "n < 128"
    using that by (simp add: byte_tests unat_of_nat take_bit_nat_eq_self)
  have high: "\<not> (of_nat (128 + n mod 128) :: byte) < 0x80"
  proof -
    have "unat (of_nat (128 + n mod 128) :: byte) = 128 + n mod 128"
      by (simp only: unat_of_nat) (simp add: take_bit_nat_eq_self)
    then show ?thesis by (simp only: byte_tests)
  qed
  show ?case
  proof (cases "n < 128")
    case True
    then show ?thesis using 1 small by (cases k) (simp_all add: varint_bytes.simps [of n])
  next
    case False
    then obtain j where "k = Suc j" using 1(2) by (cases k) simp_all
    then show ?thesis
      using False 1 high by (simp add: varint_bytes.simps [of n])
  qed
qed

lemma varint_bytes_length:
  "length (varint_bytes n) =
     (if n < 2 ^ 7 then 1 else if n < 2 ^ 14 then 2 else if n < 2 ^ 21 then 3
      else if n < 2 ^ 28 then 4 else 4 + length (varint_bytes (n div 2 ^ 28)))"
  by (simp add: varint_bytes.simps [of n] varint_bytes.simps [of "n div 128"]
      varint_bytes.simps [of "n div 16384"] varint_bytes.simps [of "n div 2097152"]
      div_mult2_eq [symmetric] less_mult_imp_div_less div_less_iff_less_mult)

lemma u32_range: "unat (v :: u32) < 2 ^ 32"
  using unsigned_less [of v] by simp

lemma wi_varint_size_spec: "wi_varint_size v = length (u32_bytes v)"
proof -
  have "unat v div 2 ^ 28 < 128"
    using u32_range [of v] by (simp add: div_less_iff_less_mult)
  then have "length (varint_bytes (unat v div 2 ^ 28)) = 1"
    by (simp add: varint_bytes.simps [of "unat v div 268435456"])
  then show ?thesis
    unfolding wi_varint_size_def u32_bytes_def varint_bytes_length [of "unat v"]
    by (simp add: word_less_nat_alt)
qed

lemma u32_bytes_length: "0 < length (u32_bytes v)" "length (u32_bytes v) \<le> 5"
  unfolding wi_varint_size_spec [symmetric] by (simp_all add: wi_varint_size_def)

lemma certified_envelope_reads:
  "length tag = n \<Longrightarrow> wi_certified_envelope n (tag @ u32_bytes v @ s) = Some s"
  using u32_bytes_length [of v] skip_length_varint [of "unat v" 5 s]
  by (simp add: wi_certified_envelope_def u32_bytes_def)

section \<open>Sizes and writers against the reference\<close>

lemma wi_envelope_spec:
  "length p < 2 ^ 32 \<Longrightarrow> wi_envelope f (of_nat (length p)) = length (message_bytes f p)"
  by (simp add: wi_envelope_def message_bytes_def wi_varint_size_spec unat_of_nat take_bit_nat_eq_self)

lemma wi_scalar_size_spec: "wi_scalar_size f v = length (scalar_bytes f v)"
  by (simp add: wi_scalar_size_def scalar_bytes_def wi_varint_size_spec)

lemma scalar_bytes_length: "length (scalar_bytes f v) \<le> 10"
  using u32_bytes_length(2) [of "push_bit 3 f"] u32_bytes_length(2) [of v]
  by (simp add: scalar_bytes_def)

lemma message_bytes_length: "length (message_bytes f p) \<le> length p + 10"
  using u32_bytes_length(2) [of "wi_tag f 2"] u32_bytes_length(2) [of "of_nat (length p)"]
  by (simp add: message_bytes_def)

text \<open>Appending to a writer with enough room.\<close>

definition emit :: "byte list \<Rightarrow> wi_writer \<Rightarrow> wi_writer" where
  "emit bs w = w\<lparr>w_bytes := w_bytes w @ bs, w_room := w_room w - length bs\<rparr>"

lemma emit_simps [simp]:
  "w_bytes (emit bs w) = w_bytes w @ bs" "w_room (emit bs w) = w_room w - length bs"
  "w_failed (emit bs w) = w_failed w"
  by (simp_all add: emit_def)

lemma emit_emit [simp]: "emit bs (emit as w) = emit (as @ bs) w"
  by (simp add: emit_def)

lemma emit_Nil [simp]: "emit [] w = w"
  by (simp add: emit_def)

lemma low_byte_spec:
  "low_byte v = of_nat (if unat v < 128 then unat v else 128 + unat v mod 128)"
proof -
  have low: "v AND 0x7f = take_bit 7 v" by (simp only: take_bit_eq_mask) (simp add: mask_eq_exp_minus_1)
  have unat_low: "unat (take_bit 7 v) = unat v mod 128"
    by (simp only: unsigned_take_bit_eq) (simp add: take_bit_eq_mod)
  have "unat (take_bit 7 v OR push_bit 7 (1 :: u32)) = unat v mod 128 + 128"
    using or_shifted [of "take_bit 7 v" 7 1] unat_low by simp
  then have n: "unat ((v AND 0x7f) OR (if v \<ge> 0x80 then 0x80 else 0)) =
      (if unat v < 128 then unat v else 128 + unat v mod 128)"
    unfolding low using unat_low by (simp add: word_le_nat_alt)
  show ?thesis
    unfolding low_byte_def n [symmetric] by simp
qed

lemma drop_bit_7_spec: "unat (drop_bit 7 (v :: u32)) = unat v div 128"
  by (simp add: drop_bit_eq_div unat_div)

lemma write_varint_emits:
  "length (u32_bytes v) \<le> w_room w \<Longrightarrow> wi_write_varint v w = emit (u32_bytes v) w"
proof (induction v w rule: wi_write_varint.induct)
  case (1 v w)
  have put: "put_byte b w = emit [b] w" for b by (simp add: put_byte_def emit_def)
  have more: "drop_bit 7 v \<noteq> 0 \<longleftrightarrow> \<not> unat v < 128"
    using drop_bit_7_spec [of v] by (simp add: unat_eq_zero [symmetric] div_eq_0_iff)
  show ?case
  proof (cases "unat v < 128")
    case True
    with 1(2) more show ?thesis
      by (simp add: wi_write_varint.simps [of v] put low_byte_spec u32_bytes_def varint_bytes.simps [of "unat v"])
  next
    case False
    have bytes: "u32_bytes v = low_byte v # u32_bytes (drop_bit 7 v)"
      unfolding u32_bytes_def drop_bit_7_spec low_byte_spec using False
      by (simp add: varint_bytes.simps [of "unat v"])
    with 1 False more show ?thesis
      by (simp add: wi_write_varint.simps [of v] put)
  qed
qed

lemma write_header_emits:
  assumes "length p < 2 ^ 32" "n = of_nat (length p)"
    "length (message_bytes f p) \<le> w_room w + length p"
  shows "wi_write_header f n w = emit (u32_bytes (wi_tag f 2) @ u32_bytes n) w"
  using assms by (simp add: wi_write_header_def write_varint_emits message_bytes_def)

lemma write_scalar_emits:
  "length (scalar_bytes f v) \<le> w_room w \<Longrightarrow> wi_write_scalar f v w = emit (scalar_bytes f v) w"
  by (auto simp: wi_write_scalar_def scalar_bytes_def write_varint_emits split: if_splits)

lemma write_bytes_emits: "length bs \<le> w_room w \<Longrightarrow> wi_write_bytes bs w = emit bs w"
  by (simp add: wi_write_bytes_def emit_def)

end
