(* ===== verification/Wire_Insert.thy ===== *)
theory Wire_Insert
  imports Wire_Codec Source_Edits "HOL-Library.Monad_Syntax"
begin

text \<open>
  The two-column INSERT certificate of \<^verbatim>\<open>src/core/sqlparser_wire_insert.c\<close>: the strict reader of
  a cell and of a row, the bounded readers for rows that are already certified, the rows after
  the pending source edits, and the packer that writes the new protobuf wire.  The reference is
  the byte string \<open>row_bytes\<close> of a row and \<open>insert_bytes\<close> of a whole statement.

  The field numbers \<open>NODE_*\<close> and \<open>VAL_*\<close> are those of the generated schema the program is built
  with (\<^verbatim>\<open>vendor/libpg_query/protobuf/pg_query.pb-c.h\<close>).
\<close>

abbreviation NODE_INSERT_STMT :: u32 where "NODE_INSERT_STMT \<equiv> 132"
abbreviation NODE_SELECT_STMT :: u32 where "NODE_SELECT_STMT \<equiv> 136"
abbreviation NODE_LIST :: u32 where "NODE_LIST \<equiv> 265"
abbreviation NODE_A_CONST :: u32 where "NODE_A_CONST \<equiv> 268"
abbreviation NODE_RES_TARGET :: u32 where "NODE_RES_TARGET \<equiv> 77"
abbreviation VAL_IVAL :: u32 where "VAL_IVAL \<equiv> 1"
abbreviation VAL_SVAL :: u32 where "VAL_SVAL \<equiv> 4"

text \<open>The other field numbers, from the enumeration at the head of the file.\<close>

abbreviation WI_PARSE_VERSION :: u32 where "WI_PARSE_VERSION \<equiv> 1"
abbreviation WI_PARSE_STMTS :: u32 where "WI_PARSE_STMTS \<equiv> 2"
abbreviation WI_RAW_STMT :: u32 where "WI_RAW_STMT \<equiv> 1"
abbreviation WI_RAW_LENGTH :: u32 where "WI_RAW_LENGTH \<equiv> 3"
abbreviation WI_INSERT_RELATION :: u32 where "WI_INSERT_RELATION \<equiv> 1"
abbreviation WI_INSERT_COLS :: u32 where "WI_INSERT_COLS \<equiv> 2"
abbreviation WI_INSERT_SELECT :: u32 where "WI_INSERT_SELECT \<equiv> 3"
abbreviation WI_INSERT_OVERRIDE :: u32 where "WI_INSERT_OVERRIDE \<equiv> 7"
abbreviation WI_SELECT_VALUES :: u32 where "WI_SELECT_VALUES \<equiv> 10"
abbreviation WI_SELECT_LIMIT :: u32 where "WI_SELECT_LIMIT \<equiv> 14"
abbreviation WI_SELECT_OP :: u32 where "WI_SELECT_OP \<equiv> 17"
abbreviation WI_LIST_ITEMS :: u32 where "WI_LIST_ITEMS \<equiv> 1"
abbreviation WI_CONST_LOCATION :: u32 where "WI_CONST_LOCATION \<equiv> 11"
abbreviation WI_INTEGER_VALUE :: u32 where "WI_INTEGER_VALUE \<equiv> 1"
abbreviation WI_STRING_VALUE :: u32 where "WI_STRING_VALUE \<equiv> 1"

text \<open>A guard of the code whose failure is \<^verbatim>\<open>return 0\<close>.\<close>

definition check :: "bool \<Rightarrow> unit option" where
  "check b = (if b then Some () else None)"

lemma check_eq_Some [simp]: "check b = Some x \<longleftrightarrow> b"
  by (simp add: check_def)

lemma check_True [simp]: "check True = Some ()"
  by (simp add: check_def)

text \<open>Taking a chain of fallible steps apart.\<close>

lemma step_Some:
  assumes "m \<bind> f = Some x"
  obtains y where "m = Some y" "f y = Some x"
  using assms by (cases m) simp_all

lemma pair_step_Some:
  assumes "(case p of (a, b) \<Rightarrow> f a b) = Some x"
  obtains a b where "p = (a, b)" "f a b = Some x"
  using assms by (cases p) simp

section \<open>Cells and rows, read strictly\<close>

text \<open>
  \<^verbatim>\<open>sqlparser_wire_insert_cell_t\<close>: \<^verbatim>\<open>text\<close> and \<^verbatim>\<open>length\<close> are the bytes they delimit.
\<close>

record insert_cell =
  c_text :: "byte list"
  c_integer :: int
  c_location :: int

definition cell_kind :: "nat \<Rightarrow> u32" where
  "cell_kind column = (if column = 0 then VAL_IVAL else VAL_SVAL)"

text \<open>The payload of the constant: the integer arm of the first column, the string arm of the second.\<close>

definition cell_value :: "nat \<Rightarrow> wi_reader \<Rightarrow> (insert_cell \<times> wi_reader) option" where
  "cell_value column val =
     (if column = 0 then do {
        (number, val') \<leftarrow> wi_optional_scalar WI_INTEGER_VALUE val;
        Some (\<lparr>c_text = [], c_integer = sint number, c_location = 0\<rparr>, val') }
      else if r_bytes val \<noteq> [] then do {
        (t, val') \<leftarrow> wi_text WI_STRING_VALUE val;
        Some (\<lparr>c_text = t, c_integer = 0, c_location = 0\<rparr>, val') }
      else Some (\<lparr>c_text = [], c_integer = 0, c_location = 0\<rparr>, val))"

definition wi_cell :: "nat \<Rightarrow> wi_reader \<Rightarrow> (insert_cell \<times> wi_reader) option" where
  "wi_cell column list = do {
     (node, list') \<leftarrow> wi_message WI_LIST_ITEMS list;
     (const, node') \<leftarrow> wi_message NODE_A_CONST node;
     check (r_bytes node' = []);
     (val, const') \<leftarrow> wi_message (cell_kind column) const;
     (cell, val') \<leftarrow> cell_value column val;
     check (r_bytes val' = []);
     (number, const'') \<leftarrow> wi_scalar WI_CONST_LOCATION const';
     check (r_bytes const'' = []);
     Some (cell\<lparr>c_location := sint number\<rparr>, list') }"

definition wi_row :: "wi_reader \<Rightarrow> ((insert_cell \<times> insert_cell) \<times> wi_reader) option" where
  "wi_row values = do {
     (node, values') \<leftarrow> wi_message WI_SELECT_VALUES values;
     (list, node') \<leftarrow> wi_message NODE_LIST node;
     check (r_bytes node' = []);
     (cell0, list1) \<leftarrow> wi_cell 0 list;
     (cell1, list2) \<leftarrow> wi_cell 1 list1;
     check (r_bytes list2 = []);
     Some ((cell0, cell1), values') }"

text \<open>
  \<^verbatim>\<open>sqlparser_wire_insert_t\<close>; a \<open>None\<close> is a NULL pointer, and \<^verbatim>\<open>wire_length\<close> the length of the wire.
\<close>

record wire_insert =
  i_wire :: "byte list option"
  i_row_count :: nat
  i_text_bytes :: nat
  i_version :: u32
  i_raw_length :: u32
  i_prefix_offset :: u32
  i_prefix_length :: u32
  i_names :: "byte list list"
  i_row_offsets :: "u32 list option"

text \<open>The guards shared by the row accessors, and the reader they start from.\<close>

definition row_reader :: "wire_insert option \<Rightarrow> nat \<Rightarrow> wi_reader option" where
  "row_reader ins row =
     (case ins of
        None \<Rightarrow> None
      | Some i \<Rightarrow>
          (case (i_wire i, i_row_offsets i) of
             (Some wire, Some offsets) \<Rightarrow>
               if row \<ge> i_row_count i \<or> length wire > PTRDIFF_MAX \<or>
                  unat (offsets ! row) \<ge> length wire
               then None
               else Some \<lparr>r_at = unat (offsets ! row), r_bytes = drop (unat (offsets ! row)) wire\<rparr>
           | _ \<Rightarrow> None))"

definition wire_insert_row :: "wire_insert option \<Rightarrow> nat \<Rightarrow> (insert_cell \<times> insert_cell) option" where
  "wire_insert_row ins row = do {
     r \<leftarrow> row_reader ins row;
     (cells, _) \<leftarrow> wi_row r;
     Some cells }"

section \<open>Rows of a certificate\<close>

text \<open>Its payload of \<open>len\<close> bytes; a payload that is not empty starts with a one-byte tag.\<close>

definition certified_value :: "nat \<Rightarrow> u32 \<Rightarrow> byte list \<Rightarrow> (insert_cell \<times> byte list) option" where
  "certified_value column len p =
     (if len = 0 then Some (\<lparr>c_text = [], c_integer = 0, c_location = 0\<rparr>, p)
      else if column = 0 then do {
        check (p \<noteq> []);
        (val, p') \<leftarrow> wi_certified_u32 (tl p);
        check (unat val \<le> INT32_MAX);
        Some (\<lparr>c_text = [], c_integer = sint val, c_location = 0\<rparr>, p') }
      else do {
        check (p \<noteq> []);
        (val, p') \<leftarrow> wi_certified_u32 (tl p);
        check (unat val \<le> length p');
        Some (\<lparr>c_text = take (unat val) p', c_integer = 0, c_location = 0\<rparr>, drop (unat val) p') })"

definition wi_certified_cell :: "nat \<Rightarrow> byte list \<Rightarrow> (insert_cell \<times> byte list) option" where
  "wi_certified_cell column p0 = do {
     p1 \<leftarrow> wi_certified_envelope 1 p0;
     p2 \<leftarrow> wi_certified_envelope 2 p1;
     check (p2 \<noteq> []);
     (len, p3) \<leftarrow> wi_certified_u32 (tl p2);
     (cell, p4) \<leftarrow> certified_value column len p3;
     check (p4 \<noteq> []);
     (val, p5) \<leftarrow> wi_certified_u32 (tl p4);
     check (unat val \<le> INT32_MAX);
     Some (cell\<lparr>c_location := sint val\<rparr>, p5) }"

text \<open>\<^verbatim>\<open>sqlparser_wire_insert_certified_row\<close>, in the build without defensive rows.\<close>

definition wire_insert_certified_row :: "wire_insert option \<Rightarrow> nat \<Rightarrow> (insert_cell \<times> insert_cell) option" where
  "wire_insert_certified_row ins row = do {
     r \<leftarrow> row_reader ins row;
     (len, p) \<leftarrow> wi_certified_u32 (tl (r_bytes r));
     check (unat len \<le> length p);
     p1 \<leftarrow> wi_certified_envelope 2 (take (unat len) p);
     (cell0, p2) \<leftarrow> wi_certified_cell 0 p1;
     (cell1, p3) \<leftarrow> wi_certified_cell 1 p2;
     check (p3 = []);
     Some (cell0, cell1) }"

section \<open>The reference encoding of a row\<close>

definition value_bytes :: "nat \<Rightarrow> insert_cell \<Rightarrow> byte list" where
  "value_bytes column c =
     (if column = 0 then scalar_bytes WI_INTEGER_VALUE (of_int (c_integer c))
      else if c_text c = [] then [] else message_bytes WI_STRING_VALUE (c_text c))"

definition const_bytes :: "nat \<Rightarrow> insert_cell \<Rightarrow> byte list" where
  "const_bytes column c =
     message_bytes (cell_kind column) (value_bytes column c) @
     scalar_bytes WI_CONST_LOCATION (of_int (c_location c))"

definition node_bytes :: "nat \<Rightarrow> insert_cell \<Rightarrow> byte list" where
  "node_bytes column c = message_bytes NODE_A_CONST (const_bytes column c)"

definition cell_bytes :: "nat \<Rightarrow> insert_cell \<Rightarrow> byte list" where
  "cell_bytes column c = message_bytes WI_LIST_ITEMS (node_bytes column c)"

definition list_bytes :: "insert_cell \<times> insert_cell \<Rightarrow> byte list" where
  "list_bytes cs = cell_bytes 0 (fst cs) @ cell_bytes 1 (snd cs)"

definition row_bytes :: "insert_cell \<times> insert_cell \<Rightarrow> byte list" where
  "row_bytes cs = message_bytes WI_SELECT_VALUES (message_bytes NODE_LIST (list_bytes cs))"

text \<open>The cells the wire can hold: values that are not negative, a positive location, 32-bit sizes.\<close>

definition good_cell :: "nat \<Rightarrow> insert_cell \<Rightarrow> bool" where
  "good_cell column c \<longleftrightarrow>
     0 < c_location c \<and> c_location c \<le> int INT32_MAX \<and>
     (if column = 0 then c_text c = [] \<and> 0 \<le> c_integer c \<and> c_integer c \<le> int INT32_MAX
      else c_integer c = 0) \<and>
     length (node_bytes column c) < 2 ^ 32"

definition good_row :: "insert_cell \<times> insert_cell \<Rightarrow> bool" where
  "good_row cs \<longleftrightarrow> good_cell 0 (fst cs) \<and> good_cell 1 (snd cs) \<and>
     length (message_bytes NODE_LIST (list_bytes cs)) < 2 ^ 32"

section \<open>The strict readers accept exactly the reference encoding\<close>

lemma wi_message_reads:
  "length p < 2 ^ 32 \<Longrightarrow>
   wi_message f \<lparr>r_at = at, r_bytes = message_bytes f p @ s\<rparr> =
     Some (\<lparr>r_at = at + length (u32_bytes (wi_tag f 2)) + length (u32_bytes (of_nat (length p))), r_bytes = p\<rparr>,
           \<lparr>r_at = at + length (message_bytes f p), r_bytes = s\<rparr>)"
  unfolding wi_message_exact by simp

lemmas wi_message_reads_whole = wi_message_reads [where s = "[]", simplified append_Nil2]

lemma wi_scalar_reads:
  "v \<noteq> 0 \<Longrightarrow> unat v \<le> INT32_MAX \<Longrightarrow>
   wi_scalar f \<lparr>r_at = at, r_bytes = scalar_bytes f v @ s\<rparr> =
     Some (v, \<lparr>r_at = at + length (scalar_bytes f v), r_bytes = s\<rparr>)"
  unfolding wi_scalar_exact by simp

lemmas wi_scalar_reads_whole = wi_scalar_reads [where s = "[]", simplified append_Nil2]

lemma wi_optional_scalar_reads_whole:
  "unat v \<le> INT32_MAX \<Longrightarrow>
   wi_optional_scalar f \<lparr>r_at = at, r_bytes = scalar_bytes f v\<rparr> =
     Some (v, \<lparr>r_at = at + length (scalar_bytes f v), r_bytes = []\<rparr>)"
  using wi_optional_scalar_reads [of v at "[]" f] by simp

lemma wi_text_reads_whole:
  "bs \<noteq> [] \<Longrightarrow> length bs < 2 ^ 32 \<Longrightarrow>
   wi_text f \<lparr>r_at = at, r_bytes = message_bytes f bs\<rparr> =
     Some (bs, \<lparr>r_at = at + length (message_bytes f bs), r_bytes = []\<rparr>)"
  unfolding wi_text_exact by simp

lemmas field_reads = wi_message_reads wi_message_reads_whole wi_scalar_reads wi_scalar_reads_whole
  wi_optional_scalar_reads_whole wi_text_reads_whole

text \<open>Signed reading of a 32-bit value that is known not to be negative.\<close>

lemma sint_small:
  assumes "unat (v :: u32) \<le> INT32_MAX"
  shows "sint v = int (unat v)"
proof -
  have "uint v \<le> 2147483647"
    using assms by (simp only: unat_eq_nat_uint nat_le_iff INT32_MAX_def) simp
  moreover have "0 \<le> uint v" by simp
  ultimately have "- 2147483648 \<le> uint v" "uint v < 2147483648" by linarith+
  then have "signed_take_bit 31 (uint v) = uint v"
    unfolding signed_take_bit_int_eq_self_iff by simp
  then show ?thesis by (simp add: sint_uint)
qed

lemma sint_bounds:
  assumes "unat (v :: u32) \<le> INT32_MAX"
  shows "0 \<le> sint v" "sint v \<le> int INT32_MAX" "v \<noteq> 0 \<Longrightarrow> 0 < sint v"
proof -
  show "0 \<le> sint v" "sint v \<le> int INT32_MAX"
    unfolding sint_small [OF assms] of_nat_le_iff using assms by simp_all
  show "0 < sint v" if "v \<noteq> 0"
    unfolding sint_small [OF assms] of_nat_0_less_iff using that unat_eq_zero [of v] by linarith
qed

lemma of_int_sint_small [simp]: "of_int (sint (v :: u32)) = v"
  by simp

lemma of_int_small:
  assumes "0 \<le> i" "i \<le> int INT32_MAX"
  shows "unat (of_int i :: u32) = nat i" "sint (of_int i :: u32) = i"
    "(of_int i = (0 :: u32)) = (i = 0)"
proof -
  have "uint (of_int i :: u32) = i"
    using assms by (simp add: uint_word_of_int INT32_MAX_def take_bit_int_eq_self)
  then show n: "unat (of_int i :: u32) = nat i" by (simp only: unat_eq_nat_uint)
  with assms show "sint (of_int i :: u32) = i" by (simp add: sint_small)
  show "(of_int i = (0 :: u32)) = (i = 0)"
    using n assms by (auto simp flip: unat_eq_zero)
qed


lemma good_cell_sizes:
  assumes "good_cell column c"
  shows "length (const_bytes column c) < 2 ^ 32" "length (value_bytes column c) < 2 ^ 32"
    "length (c_text c) < 2 ^ 32" "length (node_bytes column c) < 2 ^ 32"
proof -
  show node: "length (node_bytes column c) < 2 ^ 32" using assms by (simp add: good_cell_def)
  then show const: "length (const_bytes column c) < 2 ^ 32"
    by (simp add: node_bytes_def message_bytes_def)
  then show val: "length (value_bytes column c) < 2 ^ 32"
    by (simp add: const_bytes_def message_bytes_def)
  then show "length (c_text c) < 2 ^ 32"
    using assms by (auto simp: value_bytes_def message_bytes_def good_cell_def split: if_splits)
qed

lemma cell_value_reads:
  assumes "good_cell column c"
  shows "\<exists>val'. cell_value column \<lparr>r_at = at, r_bytes = value_bytes column c\<rparr> =
           Some (c\<lparr>c_location := 0\<rparr>, val') \<and> r_bytes val' = []"
proof (cases "column = 0")
  case True
  then have "unat (of_int (c_integer c) :: u32) \<le> INT32_MAX" "sint (of_int (c_integer c) :: u32) = c_integer c"
    using assms of_int_small [of "c_integer c"] by (auto simp: good_cell_def)
  with True assms show ?thesis
    by (cases c) (simp add: cell_value_def value_bytes_def good_cell_def field_reads)
next
  case False
  with assms good_cell_sizes [OF assms] show ?thesis
    by (cases c) (simp add: cell_value_def value_bytes_def good_cell_def field_reads)
qed

lemma wi_cell_reads:
  assumes "good_cell column c"
  shows "wi_cell column \<lparr>r_at = at, r_bytes = cell_bytes column c @ s\<rparr> =
           Some (c, \<lparr>r_at = at + length (cell_bytes column c), r_bytes = s\<rparr>)"
proof -
  note sizes = good_cell_sizes [OF assms]
  have loc: "of_int (c_location c) \<noteq> (0 :: u32)" "unat (of_int (c_location c) :: u32) \<le> INT32_MAX"
    "sint (of_int (c_location c) :: u32) = c_location c"
    using assms of_int_small [of "c_location c"] by (auto simp: good_cell_def)
  obtain val' where val: "cell_value column \<lparr>r_at = at', r_bytes = value_bytes column c\<rparr> =
      Some (c\<lparr>c_location := 0\<rparr>, val' at') \<and> r_bytes (val' at') = []" for at'
    using cell_value_reads [OF assms] by metis
  show ?thesis
    using sizes loc
    by (simp add: wi_cell_def cell_bytes_def node_bytes_def const_bytes_def field_reads val)
qed

lemma wi_optional_scalar_whole:
  assumes "wi_optional_scalar f r = Some (v, r')" "r_bytes r' = []"
  shows "r_bytes r = scalar_bytes f v" "unat v \<le> INT32_MAX"
  using wi_optional_scalar_accepts [OF assms(1)] assms(2) by simp_all

lemma cell_value_accepts:
  assumes "cell_value column val = Some (cell, val')" "r_bytes val' = []"
  shows "r_bytes val = value_bytes column cell \<and> (if column = 0
      then c_text cell = [] \<and> 0 \<le> c_integer cell \<and> c_integer cell \<le> int INT32_MAX
      else c_integer cell = 0)"
proof (cases "column = 0")
  case True
  then obtain number where number: "wi_optional_scalar WI_INTEGER_VALUE val = Some (number, val')"
    and cell: "cell = \<lparr>c_text = [], c_integer = sint number, c_location = 0\<rparr>"
    using assms(1) by (auto simp: cell_value_def bind_eq_Some_conv)
  note whole = wi_optional_scalar_whole [OF number assms(2)]
  show ?thesis
    using True whole sint_bounds [OF whole(2)] by (simp add: cell value_bytes_def)
next
  case False
  show ?thesis
  proof (cases "r_bytes val = []")
    case True
    then show ?thesis using assms False by (auto simp: cell_value_def value_bytes_def)
  next
    case nonempty: False
    then show ?thesis
      using assms False by (auto simp: cell_value_def value_bytes_def bind_eq_Some_conv wi_text_exact)
  qed
qed

lemma value_bytes_location [simp]: "value_bytes column (c\<lparr>c_location := l\<rparr>) = value_bytes column c"
  by (simp add: value_bytes_def)

lemma wi_cell_accepts:
  assumes "wi_cell column r = Some (c, r')"
  shows "good_cell column c" "r_bytes r = cell_bytes column c @ r_bytes r'"
    "r_at r' = r_at r + length (cell_bytes column c)"
proof -
  from assms obtain node const node' const' val cell val' number const'' where
    list: "wi_message WI_LIST_ITEMS r = Some (node, r')" and
    node: "wi_message NODE_A_CONST node = Some (const, node')" "r_bytes node' = []" and
    const: "wi_message (cell_kind column) const = Some (val, const')" and
    cell: "cell_value column val = Some (cell, val')" "r_bytes val' = []" and
    loc: "wi_scalar WI_CONST_LOCATION const' = Some (number, const'')" "r_bytes const'' = []" and
    c: "c = cell\<lparr>c_location := sint number\<rparr>"
    unfolding wi_cell_def by (auto simp: bind_eq_Some_conv)
  have number: "number \<noteq> 0" "unat number \<le> INT32_MAX"
    using loc by (auto simp: wi_scalar_exact)
  then have positive: "0 < sint number" "sint number \<le> int INT32_MAX"
    using sint_bounds [of number] by simp_all
  note payload = cell_value_accepts [OF cell]
  have const_eq: "r_bytes const = const_bytes column c"
    using const loc payload unfolding const_bytes_def wi_message_exact wi_scalar_exact by (simp add: c)
  have node_eq: "r_bytes node = node_bytes column c"
    using node const_eq unfolding node_bytes_def wi_message_exact by simp
  show "good_cell column c"
    using payload positive list node_eq unfolding good_cell_def wi_message_exact by (simp add: c)
  show "r_bytes r = cell_bytes column c @ r_bytes r'" "r_at r' = r_at r + length (cell_bytes column c)"
    using list node_eq unfolding cell_bytes_def wi_message_exact by simp_all
qed

lemma wi_cell_exact:
  "wi_cell column r = Some (c, r') \<longleftrightarrow>
     good_cell column c \<and> r_bytes r = cell_bytes column c @ r_bytes r' \<and>
     r_at r' = r_at r + length (cell_bytes column c)"
  by (rule codec_exactI) (simp_all add: wi_cell_reads wi_cell_accepts)

interpretation cell: codec "wi_cell column" "cell_bytes column" "\<lambda>_. good_cell column" for column
  by unfold_locales (rule wi_cell_exact)

lemma wi_row_reads:
  assumes "good_row cs"
  shows "wi_row \<lparr>r_at = at, r_bytes = row_bytes cs @ s\<rparr> =
           Some (cs, \<lparr>r_at = at + length (row_bytes cs), r_bytes = s\<rparr>)"
proof -
  have good: "good_cell 0 (fst cs)" "good_cell 1 (snd cs)"
    and len: "length (message_bytes NODE_LIST (list_bytes cs)) < 2 ^ 32"
    using assms by (simp_all add: good_row_def)
  then have len': "length (list_bytes cs) < 2 ^ 32" by (simp add: message_bytes_def)
  have second: "wi_cell 1 \<lparr>r_at = at', r_bytes = cell_bytes 1 (snd cs)\<rparr> =
      Some (snd cs, \<lparr>r_at = at' + length (cell_bytes 1 (snd cs)), r_bytes = []\<rparr>)" for at'
    using wi_cell_reads [OF good(2), of at' "[]"] by simp
  show ?thesis
    using len len' by (simp add: wi_row_def row_bytes_def field_reads)
      (simp add: list_bytes_def wi_cell_reads [OF good(1)] second [simplified])
qed

lemma wi_row_accepts:
  assumes "wi_row r = Some (cs, r')"
  shows "good_row cs" "r_bytes r = row_bytes cs @ r_bytes r'" "r_at r' = r_at r + length (row_bytes cs)"
proof -
  from assms obtain node list node' cell0 list1 cell1 list2 where
    node: "wi_message WI_SELECT_VALUES r = Some (node, r')" and
    list: "wi_message NODE_LIST node = Some (list, node')" "r_bytes node' = []" and
    cells: "wi_cell 0 list = Some (cell0, list1)" "wi_cell 1 list1 = Some (cell1, list2)" "r_bytes list2 = []" and
    cs: "cs = (cell0, cell1)"
    unfolding wi_row_def by (auto simp: bind_eq_Some_conv)
  have list_eq: "r_bytes list = list_bytes cs"
    using cells unfolding list_bytes_def wi_cell_exact by (simp add: cs)
  have node_eq: "r_bytes node = message_bytes NODE_LIST (list_bytes cs)"
    using list list_eq unfolding wi_message_exact by simp
  show "good_row cs"
    using cells node node_eq unfolding good_row_def wi_cell_exact wi_message_exact by (simp add: cs)
  show "r_bytes r = row_bytes cs @ r_bytes r'" "r_at r' = r_at r + length (row_bytes cs)"
    using node node_eq unfolding row_bytes_def wi_message_exact by simp_all
qed

lemma wi_row_exact:
  "wi_row r = Some (cs, r') \<longleftrightarrow>
     good_row cs \<and> r_bytes r = row_bytes cs @ r_bytes r' \<and> r_at r' = r_at r + length (row_bytes cs)"
  by (rule codec_exactI) (simp_all add: wi_row_reads wi_row_accepts)

interpretation row: codec wi_row row_bytes "\<lambda>_. good_row"
  by unfold_locales (rule wi_row_exact)

section \<open>The bounded readers agree on certified rows\<close>

text \<open>The lengths of the tags the bounded readers skip.\<close>

lemma tag_lengths:
  "length (u32_bytes (wi_tag WI_LIST_ITEMS 2)) = 1"
  "length (u32_bytes (wi_tag NODE_A_CONST 2)) = 2"
  "length (u32_bytes (wi_tag NODE_LIST 2)) = 2"
  "length (u32_bytes (wi_tag WI_SELECT_VALUES 2)) = 1"
  "length (u32_bytes (wi_tag VAL_IVAL 2)) = 1"
  "length (u32_bytes (wi_tag VAL_SVAL 2)) = 1"
  "length (u32_bytes (push_bit 3 WI_CONST_LOCATION)) = 1"
  "length (u32_bytes (push_bit 3 WI_INTEGER_VALUE)) = 1"
  by (simp_all add: u32_bytes_def wi_tag_def varint_bytes.simps)

lemma tl_one_byte: "length t = 1 \<Longrightarrow> tl (t @ s) = s"
  by (cases t) simp_all

lemmas skip_tag = tag_lengths(1,4-8) [THEN tl_one_byte]
lemmas skip_tag_normal = skip_tag [where s = "[]", simplified]

lemma envelope_skips_message:
  "length (u32_bytes (wi_tag f 2)) = n \<Longrightarrow> wi_certified_envelope n (message_bytes f p @ s) = Some (p @ s)"
  by (simp add: message_bytes_def certified_envelope_reads)

lemmas envelope_skips = tag_lengths(1-4) [THEN envelope_skips_message]

lemma u32_reads_length:
  "length p < 2 ^ 32 \<Longrightarrow> unat (of_nat (length p) :: u32) = length p"
  by (simp add: unat_of_nat take_bit_nat_eq_self)

lemma of_nat_length_eq_0: "length p < 2 ^ 32 \<Longrightarrow> ((of_nat (length p) :: u32) = 0) = (p = [])"
  using u32_reads_length [of p] by (auto simp flip: unat_eq_zero)

lemma certified_value_reads:
  assumes "good_cell column c"
  shows "certified_value column (of_nat (length (value_bytes column c))) (value_bytes column c @ s) =
           Some (c\<lparr>c_location := 0\<rparr>, s)"
proof -
  note sizes = good_cell_sizes [OF assms]
  note len0 = of_nat_length_eq_0 [OF sizes(2)]
  show ?thesis
  proof (cases "value_bytes column c = []")
    case True
    then have "c\<lparr>c_location := 0\<rparr> = \<lparr>c_text = [], c_integer = 0, c_location = 0\<rparr>"
      using assms of_int_small [of "c_integer c"]
      by (cases c) (auto simp: value_bytes_def scalar_bytes_def good_cell_def split: if_splits)
    with True show ?thesis by (simp add: certified_value_def)
  next
    case nonempty: False
    show ?thesis
    proof (cases "column = 0")
      case True
      then have n: "unat (of_int (c_integer c) :: u32) \<le> INT32_MAX" "sint (of_int (c_integer c) :: u32) = c_integer c"
        and nz: "of_int (c_integer c) \<noteq> (0 :: u32)"
        using assms nonempty of_int_small [of "c_integer c"]
        by (auto simp: good_cell_def value_bytes_def scalar_bytes_def)
      have "value_bytes column c @ s =
          u32_bytes (push_bit 3 WI_INTEGER_VALUE) @ u32_bytes (of_int (c_integer c)) @ s"
        using nz unfolding value_bytes_def scalar_bytes_def True by simp
      then have "tl (value_bytes column c @ s) = u32_bytes (of_int (c_integer c)) @ s"
        by (simp only: skip_tag)
      moreover have "c\<lparr>c_location := 0\<rparr> = \<lparr>c_text = [], c_integer = c_integer c, c_location = 0\<rparr>"
        using True assms by (cases c) (simp add: good_cell_def)
      ultimately show ?thesis
        using True nonempty len0 n by (simp add: certified_value_def)
    next
      case False
      then have "value_bytes column c @ s =
          u32_bytes (wi_tag WI_STRING_VALUE 2) @ u32_bytes (of_nat (length (c_text c))) @ c_text c @ s"
        using nonempty by (simp add: value_bytes_def message_bytes_def split: if_splits)
      then have "tl (value_bytes column c @ s) = u32_bytes (of_nat (length (c_text c))) @ c_text c @ s"
        by (simp only: skip_tag)
      moreover have "c\<lparr>c_location := 0\<rparr> = \<lparr>c_text = c_text c, c_integer = 0, c_location = 0\<rparr>"
        using False assms by (cases c) (simp add: good_cell_def)
      ultimately show ?thesis
        using False nonempty len0 sizes(3) by (simp add: certified_value_def u32_reads_length)
    qed
  qed
qed

lemma certified_cell_reads:
  assumes "good_cell column c"
  shows "wi_certified_cell column (cell_bytes column c @ s) = Some (c, s)"
proof -
  have loc: "of_int (c_location c) \<noteq> (0 :: u32)" "unat (of_int (c_location c) :: u32) \<le> INT32_MAX"
    "sint (of_int (c_location c) :: u32) = c_location c"
    using assms of_int_small [of "c_location c"] by (auto simp: good_cell_def)
  let ?loc = "scalar_bytes WI_CONST_LOCATION (of_int (c_location c))"
  have tail: "?loc @ s = u32_bytes (push_bit 3 WI_CONST_LOCATION) @ u32_bytes (of_int (c_location c)) @ s"
    using loc by (simp add: scalar_bytes_def)
  have kind: "length (u32_bytes (wi_tag (cell_kind column) 2)) = 1"
    using tag_lengths by (simp add: cell_kind_def)
  have front: "wi_certified_envelope 1 (cell_bytes column c @ s) = Some (node_bytes column c @ s)"
    "wi_certified_envelope 2 (node_bytes column c @ s) = Some (const_bytes column c @ s)"
    by (simp_all add: cell_bytes_def node_bytes_def envelope_skips del: One_nat_def)
  have len: "const_bytes column c @ s \<noteq> []"
    "wi_certified_u32 (tl (const_bytes column c @ s)) =
       Some (of_nat (length (value_bytes column c)), value_bytes column c @ ?loc @ s)"
    by (simp_all add: const_bytes_def message_bytes_def tl_one_byte [OF kind])
  show ?thesis
    using loc unfolding wi_certified_cell_def front(1)
    by (simp add: front(2) len certified_value_reads [OF assms] tail skip_tag del: append_is_Nil_conv)
      (simp add: skip_tag_normal)
qed

lemma certified_row_reads:
  assumes "good_row cs" "row_reader ins i = Some r" "r_bytes r = row_bytes cs @ s"
  shows "wire_insert_certified_row ins i = Some cs"
proof -
  have good: "good_cell 0 (fst cs)" "good_cell 1 (snd cs)"
    and len: "length (message_bytes NODE_LIST (list_bytes cs)) < 2 ^ 32"
    using assms(1) by (simp_all add: good_row_def)
  let ?node = "message_bytes NODE_LIST (list_bytes cs)"
  have outer: "wi_certified_u32 (tl (r_bytes r)) = Some (of_nat (length ?node), ?node @ s)"
    by (simp add: assms(3) row_bytes_def message_bytes_def [of WI_SELECT_VALUES] skip_tag)
  have inner: "wi_certified_envelope 2 ?node = Some (list_bytes cs)"
    using envelope_skips(3) [of "list_bytes cs" "[]"] by simp
  have cells: "wi_certified_cell 0 (list_bytes cs) = Some (fst cs, cell_bytes 1 (snd cs))"
    "wi_certified_cell 1 (cell_bytes 1 (snd cs)) = Some (snd cs, [])"
    using certified_cell_reads [OF good(1)] certified_cell_reads [OF good(2), of "[]"]
    by (simp_all add: list_bytes_def)
  show ?thesis
    unfolding wire_insert_certified_row_def assms(2)
    by (simp add: outer u32_reads_length [OF len] inner cells del: One_nat_def)
qed

end
