(* ===== verification/Scalar_Insert.thy ===== *)
theory Scalar_Insert
  imports Wire_Insert
begin

text \<open>
  The cells and rows of the scalar INSERT certificate in \<^verbatim>\<open>src/core/sqlparser_wire_insert.c\<close>
  (\<^verbatim>\<open>wsi_*\<close>): any number of columns, integers, strings, floats and value functions such as
  CURRENT_TIMESTAMP.  As for the two-column certificate there is a strict reader, which checks every
  byte and is characterised by the reference encoding \<open>scalar_cell_bytes\<close>, and a bounded reader for
  wires that are already certified.
\<close>

section \<open>Cells, read strictly\<close>

text \<open>The tag of a value function in the generated schema, and the float arm of a constant.\<close>

abbreviation NODE_SQLVALUE_FUNCTION :: u32 where "NODE_SQLVALUE_FUNCTION \<equiv> 38"
abbreviation VAL_FVAL :: u32 where "VAL_FVAL \<equiv> 2"

datatype scalar_kind = SCALAR_INTEGER | SCALAR_STRING | SCALAR_FLOAT | SCALAR_VALUE_FUNCTION

text \<open>
  \<^verbatim>\<open>sqlparser_wire_scalar_cell_t\<close>.  \<open>s_text\<close> are the bytes at \<^verbatim>\<open>text\<close>; of a value function they are not
  read before \<^verbatim>\<open>wsi_source_text\<close> sets the pointer, while \<^verbatim>\<open>length\<close> is known from the start.
\<close>

record scalar_cell =
  s_text :: "byte list"
  s_length :: nat
  s_integer :: int
  s_location :: int
  s_kind :: scalar_kind

text \<open>\<^verbatim>\<open>wsi_typmod_default\<close>: the field of a type modifier of minus one.\<close>

definition wsi_typmod_default :: "byte list" where
  "wsi_typmod_default = [0x20, 0xff, 0xff, 0xff, 0xff, 0xff, 0xff, 0xff, 0xff, 0xff, 0x01]"

definition wsi_function_word :: "u32 \<Rightarrow> string option" where
  "wsi_function_word op =
     (if op = 1 then Some ''current_date'' else if op = 2 then Some ''current_time''
      else if op = 4 then Some ''current_timestamp'' else if op = 6 then Some ''localtime''
      else if op = 8 then Some ''localtimestamp'' else if op = 10 then Some ''current_role''
      else if op = 11 then Some ''current_user'' else if op = 12 then Some ''user''
      else if op = 13 then Some ''session_user'' else if op = 14 then Some ''current_catalog''
      else if op = 15 then Some ''current_schema'' else None)"

text \<open>The body of a value function: operator, type modifier, location.\<close>

definition wsi_function :: "wi_reader \<Rightarrow> scalar_cell option" where
  "wsi_function body = do {
     (op, body1) \<leftarrow> wi_scalar 2 body;
     word \<leftarrow> wsi_function_word op;
     check (\<not> length (r_bytes body1) < length wsi_typmod_default \<and>
       take (length wsi_typmod_default) (r_bytes body1) = wsi_typmod_default);
     (number, body2) \<leftarrow> wi_scalar 5 (advance (length wsi_typmod_default) body1);
     check (r_bytes body2 = []);
     Some \<lparr>s_text = [], s_length = length word, s_integer = sint op, s_location = sint number,
           s_kind = SCALAR_VALUE_FUNCTION\<rparr> }"

text \<open>The arm of a constant.\<close>

definition wsi_constant_kind :: "scalar_kind \<Rightarrow> u32" where
  "wsi_constant_kind kind =
     (case kind of SCALAR_INTEGER \<Rightarrow> VAL_IVAL | SCALAR_STRING \<Rightarrow> VAL_SVAL | _ \<Rightarrow> VAL_FVAL)"

definition wsi_arm :: "wi_reader \<Rightarrow> scalar_kind option" where
  "wsi_arm body =
     (if wi_key_is body VAL_IVAL 2 then Some SCALAR_INTEGER
      else if wi_key_is body VAL_SVAL 2 then Some SCALAR_STRING
      else if wi_key_is body VAL_FVAL 2 then Some SCALAR_FLOAT
      else None)"

text \<open>The payload of a constant; an empty float is refused.\<close>

definition wsi_value :: "scalar_kind \<Rightarrow> wi_reader \<Rightarrow> (scalar_cell \<times> wi_reader) option" where
  "wsi_value kind val =
     (if kind = SCALAR_INTEGER then do {
        (number, val') \<leftarrow> wi_optional_scalar WI_INTEGER_VALUE val;
        Some (\<lparr>s_text = [], s_length = 0, s_integer = sint number, s_location = 0, s_kind = kind\<rparr>, val') }
      else do {
        (t, val') \<leftarrow> (if r_bytes val \<noteq> [] then wi_text 1 val else Some ([], val));
        check (\<not> (kind = SCALAR_FLOAT \<and> t = []));
        Some (\<lparr>s_text = t, s_length = length t, s_integer = 0, s_location = 0, s_kind = kind\<rparr>, val') })"

definition wsi_constant :: "wi_reader \<Rightarrow> scalar_cell option" where
  "wsi_constant body = do {
     kind \<leftarrow> wsi_arm body;
     (val, body1) \<leftarrow> wi_message (wsi_constant_kind kind) body;
     (cell, val') \<leftarrow> wsi_value kind val;
     check (r_bytes val' = []);
     (number, body2) \<leftarrow> wi_scalar WI_CONST_LOCATION body1;
     check (r_bytes body2 = []);
     Some (cell\<lparr>s_location := sint number\<rparr>) }"

definition wsi_cell :: "wi_reader \<Rightarrow> (scalar_cell \<times> wi_reader) option" where
  "wsi_cell list = do {
     (node, list') \<leftarrow> wi_message WI_LIST_ITEMS list;
     (if wi_key_is node NODE_SQLVALUE_FUNCTION 2 then do {
        (body, node') \<leftarrow> wi_message NODE_SQLVALUE_FUNCTION node;
        check (r_bytes node' = []);
        cell \<leftarrow> wsi_function body;
        Some (cell, list') }
      else do {
        (body, node') \<leftarrow> wi_message NODE_A_CONST node;
        check (r_bytes node' = []);
        cell \<leftarrow> wsi_constant body;
        Some (cell, list') }) }"

section \<open>The reference encoding of a cell\<close>

definition scalar_value_bytes :: "scalar_cell \<Rightarrow> byte list" where
  "scalar_value_bytes c =
     (if s_kind c = SCALAR_INTEGER then scalar_bytes WI_INTEGER_VALUE (of_int (s_integer c))
      else if s_text c = [] then [] else message_bytes 1 (s_text c))"

definition scalar_body_bytes :: "scalar_cell \<Rightarrow> byte list" where
  "scalar_body_bytes c =
     (if s_kind c = SCALAR_VALUE_FUNCTION
      then scalar_bytes 2 (of_int (s_integer c)) @ wsi_typmod_default @ scalar_bytes 5 (of_int (s_location c))
      else message_bytes (wsi_constant_kind (s_kind c)) (scalar_value_bytes c) @
        scalar_bytes WI_CONST_LOCATION (of_int (s_location c)))"

definition scalar_node :: "scalar_kind \<Rightarrow> u32" where
  "scalar_node kind = (if kind = SCALAR_VALUE_FUNCTION then NODE_SQLVALUE_FUNCTION else NODE_A_CONST)"

definition scalar_node_bytes :: "scalar_cell \<Rightarrow> byte list" where
  "scalar_node_bytes c = message_bytes (scalar_node (s_kind c)) (scalar_body_bytes c)"

definition scalar_cell_bytes :: "scalar_cell \<Rightarrow> byte list" where
  "scalar_cell_bytes c = message_bytes WI_LIST_ITEMS (scalar_node_bytes c)"

text \<open>The cells the wire can hold.\<close>

definition good_value :: "scalar_cell \<Rightarrow> bool" where
  "good_value c \<longleftrightarrow>
     (case s_kind c of
        SCALAR_INTEGER \<Rightarrow> s_text c = [] \<and> s_length c = 0 \<and> 0 \<le> s_integer c \<and> s_integer c \<le> int INT32_MAX
      | SCALAR_STRING \<Rightarrow> s_integer c = 0 \<and> s_length c = length (s_text c)
      | SCALAR_FLOAT \<Rightarrow> s_integer c = 0 \<and> s_length c = length (s_text c) \<and> s_text c \<noteq> []
      | SCALAR_VALUE_FUNCTION \<Rightarrow> s_text c = [] \<and> 0 \<le> s_integer c \<and> s_integer c \<le> int INT32_MAX \<and>
          (case wsi_function_word (of_int (s_integer c)) of None \<Rightarrow> False | Some w \<Rightarrow> s_length c = length w))"

definition good_scalar :: "scalar_cell \<Rightarrow> bool" where
  "good_scalar c \<longleftrightarrow> 0 < s_location c \<and> s_location c \<le> int INT32_MAX \<and> good_value c \<and>
     length (scalar_node_bytes c) < 2 ^ 32"

lemma scalar_value_location [simp]: "scalar_value_bytes (c\<lparr>s_location := l\<rparr>) = scalar_value_bytes c"
  by (simp add: scalar_value_bytes_def)

lemma good_scalar_sizes:
  assumes "good_scalar c"
  shows "length (scalar_node_bytes c) < 2 ^ 32" "length (scalar_body_bytes c) < 2 ^ 32"
    "s_kind c \<noteq> SCALAR_VALUE_FUNCTION \<Longrightarrow> length (scalar_value_bytes c) < 2 ^ 32"
    "length (s_text c) < 2 ^ 32"
proof -
  show node: "length (scalar_node_bytes c) < 2 ^ 32" using assms by (simp add: good_scalar_def)
  then show body: "length (scalar_body_bytes c) < 2 ^ 32" by (simp add: scalar_node_bytes_def message_bytes_def)
  then show val: "length (scalar_value_bytes c) < 2 ^ 32" if "s_kind c \<noteq> SCALAR_VALUE_FUNCTION"
    using that by (simp add: scalar_body_bytes_def message_bytes_def)
  show "length (s_text c) < 2 ^ 32"
    using assms val by (auto simp: good_scalar_def good_value_def scalar_value_bytes_def message_bytes_def
        split: scalar_kind.splits if_splits)
qed

lemma function_word_small: "wsi_function_word op = Some w \<Longrightarrow> op \<noteq> 0 \<and> unat op \<le> 15"
  by (auto simp: wsi_function_word_def split: if_splits)

lemma location_reads:
  assumes "0 < l" "l \<le> int INT32_MAX"
  shows "of_int l \<noteq> (0 :: u32)" "unat (of_int l :: u32) \<le> INT32_MAX" "sint (of_int l :: u32) = l"
  using of_int_small [of l] assms by auto

lemma wsi_arm_reads:
  assumes "kind \<noteq> SCALAR_VALUE_FUNCTION"
  shows "wsi_arm \<lparr>r_at = at, r_bytes = message_bytes (wsi_constant_kind kind) p @ s\<rparr> = Some kind"
  using assms by (cases kind) (simp_all add: wsi_arm_def wsi_constant_kind_def wi_tag_def)

lemma wsi_value_reads:
  assumes "good_scalar c" "s_kind c \<noteq> SCALAR_VALUE_FUNCTION"
  shows "\<exists>val'. wsi_value (s_kind c) \<lparr>r_at = at, r_bytes = scalar_value_bytes c\<rparr> =
    Some (c\<lparr>s_location := 0\<rparr>, val') \<and> r_bytes val' = []"
proof (cases "s_kind c = SCALAR_INTEGER")
  case True
  then have "unat (of_int (s_integer c) :: u32) \<le> INT32_MAX" "sint (of_int (s_integer c) :: u32) = s_integer c"
    using assms(1) of_int_small [of "s_integer c"] by (auto simp: good_scalar_def good_value_def)
  with True assms(1) show ?thesis
    by (cases c) (simp add: wsi_value_def scalar_value_bytes_def field_reads good_scalar_def good_value_def)
next
  case False
  then have "s_integer c = 0" "s_length c = length (s_text c)" "s_kind c = SCALAR_FLOAT \<longrightarrow> s_text c \<noteq> []"
    using assms by (auto simp: good_scalar_def good_value_def split: scalar_kind.splits)
  with False good_scalar_sizes(4) [OF assms(1)] show ?thesis
    by (cases c) (auto simp: wsi_value_def scalar_value_bytes_def field_reads)
qed

lemma wsi_constant_reads:
  assumes "good_scalar c" "s_kind c \<noteq> SCALAR_VALUE_FUNCTION"
  shows "wsi_constant \<lparr>r_at = at, r_bytes = scalar_body_bytes c\<rparr> = Some c"
proof -
  have loc: "of_int (s_location c) \<noteq> (0 :: u32)" "unat (of_int (s_location c) :: u32) \<le> INT32_MAX"
    "sint (of_int (s_location c) :: u32) = s_location c"
    using location_reads assms(1) by (simp_all add: good_scalar_def)
  obtain val' where "wsi_value (s_kind c) \<lparr>r_at = at', r_bytes = scalar_value_bytes c\<rparr> =
      Some (c\<lparr>s_location := 0\<rparr>, val' at') \<and> r_bytes (val' at') = []" for at'
    using wsi_value_reads [OF assms] by metis
  with loc good_scalar_sizes(3) [OF assms] assms(2) show ?thesis
    by (simp add: wsi_constant_def scalar_body_bytes_def wsi_arm_reads field_reads)
qed

lemma wsi_function_reads:
  assumes "good_scalar c" "s_kind c = SCALAR_VALUE_FUNCTION"
  shows "wsi_function \<lparr>r_at = at, r_bytes = scalar_body_bytes c\<rparr> = Some c"
proof -
  have loc: "of_int (s_location c) \<noteq> (0 :: u32)" "unat (of_int (s_location c) :: u32) \<le> INT32_MAX"
    "sint (of_int (s_location c) :: u32) = s_location c"
    using location_reads assms(1) by (simp_all add: good_scalar_def)
  obtain word where word: "wsi_function_word (of_int (s_integer c)) = Some word" "s_length c = length word"
    "s_text c = []" "0 \<le> s_integer c" "s_integer c \<le> int INT32_MAX"
    using assms by (auto simp: good_scalar_def good_value_def split: option.splits)
  note small = function_word_small [OF word(1)]
  have int: "unat (of_int (s_integer c) :: u32) \<le> INT32_MAX" "sint (of_int (s_integer c) :: u32) = s_integer c"
    using of_int_small [of "s_integer c"] word by auto
  have scalar: "wi_scalar 2 \<lparr>r_at = at, r_bytes = scalar_bytes 2 (of_int (s_integer c)) @ p\<rparr> =
      Some (of_int (s_integer c), \<lparr>r_at = at + length (scalar_bytes 2 (of_int (s_integer c))), r_bytes = p\<rparr>)" for p
    using wi_scalar_reads small int(1) by blast
  have "c = \<lparr>s_text = [], s_length = length word, s_integer = s_integer c, s_location = s_location c,
      s_kind = SCALAR_VALUE_FUNCTION\<rparr>"
    using word assms(2) by simp
  then show ?thesis
    using loc word int(2) assms(2)
    by (simp add: wsi_function_def scalar_body_bytes_def scalar advance_def field_reads)
qed

lemma node_keys:
  "wi_key_is \<lparr>r_at = at, r_bytes = message_bytes (scalar_node kind) p\<rparr> NODE_SQLVALUE_FUNCTION 2 =
     (kind = SCALAR_VALUE_FUNCTION)"
  using key_is_message [of at "scalar_node kind" p "[]"] by (simp add: scalar_node_def wi_tag_def)

lemma wsi_cell_reads:
  assumes "good_scalar c"
  shows "wsi_cell \<lparr>r_at = at, r_bytes = scalar_cell_bytes c @ s\<rparr> =
    Some (c, \<lparr>r_at = at + length (scalar_cell_bytes c), r_bytes = s\<rparr>)"
proof (cases "s_kind c = SCALAR_VALUE_FUNCTION")
  case True
  with good_scalar_sizes [OF assms] wsi_function_reads [OF assms True] show ?thesis
    by (simp add: wsi_cell_def scalar_cell_bytes_def field_reads node_keys scalar_node_bytes_def)
      (simp add: scalar_node_def field_reads)
next
  case False
  with good_scalar_sizes [OF assms] wsi_constant_reads [OF assms False] show ?thesis
    by (simp add: wsi_cell_def scalar_cell_bytes_def field_reads node_keys scalar_node_bytes_def)
      (simp add: scalar_node_def field_reads)
qed

lemma wsi_value_accepts:
  assumes "wsi_value kind val = Some (c, val')" "r_bytes val' = []" "kind \<noteq> SCALAR_VALUE_FUNCTION"
  shows "good_value c" "r_bytes val = scalar_value_bytes c" "s_kind c = kind"
proof -
  have "good_value c \<and> r_bytes val = scalar_value_bytes c \<and> s_kind c = kind"
  proof (cases "kind = SCALAR_INTEGER")
    case True
    then obtain number where number: "wi_optional_scalar WI_INTEGER_VALUE val = Some (number, val')"
      and c: "c = \<lparr>s_text = [], s_length = 0, s_integer = sint number, s_location = 0, s_kind = kind\<rparr>"
      using assms(1) by (auto simp: wsi_value_def bind_eq_Some_conv)
    note whole = wi_optional_scalar_whole [OF number assms(2)]
    show ?thesis
      using True whole sint_bounds [OF whole(2)] by (simp add: c scalar_value_bytes_def good_value_def)
  next
    case False
    then obtain t where t: "(if r_bytes val \<noteq> [] then wi_text 1 val else Some ([], val)) = Some (t, val')"
      and c: "c = \<lparr>s_text = t, s_length = length t, s_integer = 0, s_location = 0, s_kind = kind\<rparr>"
      and float: "\<not> (kind = SCALAR_FLOAT \<and> t = [])"
      using assms(1) by (auto simp: wsi_value_def bind_eq_Some_conv)
    have "r_bytes val = scalar_value_bytes c"
      using t assms(2) False by (auto simp: c scalar_value_bytes_def wi_text_exact split: if_splits)
    with False assms(3) float show ?thesis
      by (cases kind) (auto simp: c good_value_def)
  qed
  then show "good_value c" "r_bytes val = scalar_value_bytes c" "s_kind c = kind" by simp_all
qed

lemma wsi_constant_accepts:
  assumes "wsi_constant body = Some c"
  shows "good_value c" "0 < s_location c" "s_location c \<le> int INT32_MAX" "r_bytes body = scalar_body_bytes c"
    "s_kind c \<noteq> SCALAR_VALUE_FUNCTION"
proof -
  from assms obtain kind val body1 cell val' number body2 where
    arm: "wsi_arm body = Some kind" and
    val: "wi_message (wsi_constant_kind kind) body = Some (val, body1)" and
    cell: "wsi_value kind val = Some (cell, val')" "r_bytes val' = []" and
    loc: "wi_scalar WI_CONST_LOCATION body1 = Some (number, body2)" "r_bytes body2 = []" and
    c: "c = cell\<lparr>s_location := sint number\<rparr>"
    unfolding wsi_constant_def by (auto simp: bind_eq_Some_conv)
  have kind: "kind \<noteq> SCALAR_VALUE_FUNCTION" using arm by (auto simp: wsi_arm_def split: if_splits)
  note payload = wsi_value_accepts [OF cell kind]
  have number: "number \<noteq> 0" "unat number \<le> INT32_MAX" using loc by (auto simp: wi_scalar_exact)
  then show "0 < s_location c" "s_location c \<le> int INT32_MAX" using sint_bounds [of number] by (simp_all add: c)
  show "good_value c" using payload(1)
    by (auto simp: c good_value_def split: scalar_kind.splits option.splits)
  show "s_kind c \<noteq> SCALAR_VALUE_FUNCTION" using payload(3) kind by (simp add: c)
  show "r_bytes body = scalar_body_bytes c"
    using val loc payload kind unfolding wi_message_exact wi_scalar_exact
    by (simp add: c scalar_body_bytes_def)
qed

lemma wsi_function_accepts:
  assumes "wsi_function body = Some c"
  shows "good_value c" "0 < s_location c" "s_location c \<le> int INT32_MAX" "r_bytes body = scalar_body_bytes c"
    "s_kind c = SCALAR_VALUE_FUNCTION"
proof -
  from assms obtain op body1 word number body2 where
    op: "wi_scalar 2 body = Some (op, body1)" and word: "wsi_function_word op = Some word" and
    typmod: "length wsi_typmod_default \<le> length (r_bytes body1)"
      "take (length wsi_typmod_default) (r_bytes body1) = wsi_typmod_default" and
    loc: "wi_scalar 5 (advance (length wsi_typmod_default) body1) = Some (number, body2)" "r_bytes body2 = []" and
    c: "c = \<lparr>s_text = [], s_length = length word, s_integer = sint op, s_location = sint number,
           s_kind = SCALAR_VALUE_FUNCTION\<rparr>"
    unfolding wsi_function_def by (auto simp: bind_eq_Some_conv)
  have number: "number \<noteq> 0" "unat number \<le> INT32_MAX" and op_small: "unat op \<le> INT32_MAX"
    using loc op by (auto simp: wi_scalar_exact)
  then show "0 < s_location c" "s_location c \<le> int INT32_MAX" using sint_bounds [of number] by (simp_all add: c)
  show "good_value c"
    using word sint_bounds(1,2) [OF op_small] by (simp add: c good_value_def)
  show "s_kind c = SCALAR_VALUE_FUNCTION" by (simp add: c)
  have "drop (length wsi_typmod_default) (r_bytes body1) = scalar_bytes 5 number"
    using loc by (simp add: wi_scalar_exact advance_def)
  then have "r_bytes body1 = wsi_typmod_default @ scalar_bytes 5 number"
    using typmod(2) by (metis append_take_drop_id)
  with op show "r_bytes body = scalar_body_bytes c"
    by (simp add: c scalar_body_bytes_def wi_scalar_exact)
qed

lemma wsi_cell_accepts:
  assumes "wsi_cell r = Some (c, r')"
  shows "good_scalar c" "r_bytes r = scalar_cell_bytes c @ r_bytes r'" "r_at r' = r_at r + length (scalar_cell_bytes c)"
proof -
  from assms obtain node body node' where
    list: "wi_message WI_LIST_ITEMS r = Some (node, r')" and
    node: "wi_message (scalar_node (s_kind c)) node = Some (body, node')" "r_bytes node' = []" and
    cell: "good_value c" "0 < s_location c" "s_location c \<le> int INT32_MAX" "r_bytes body = scalar_body_bytes c"
  proof -
    assume *: "\<And>node body node'. wi_message WI_LIST_ITEMS r = Some (node, r') \<Longrightarrow>
      wi_message (scalar_node (s_kind c)) node = Some (body, node') \<Longrightarrow> r_bytes node' = [] \<Longrightarrow> good_value c \<Longrightarrow>
      0 < s_location c \<Longrightarrow> s_location c \<le> int INT32_MAX \<Longrightarrow> r_bytes body = scalar_body_bytes c \<Longrightarrow> thesis"
    from assms obtain node where list: "wi_message WI_LIST_ITEMS r = Some (node, r')" and
      arms: "(\<exists>body node'. wi_message NODE_SQLVALUE_FUNCTION node = Some (body, node') \<and> r_bytes node' = [] \<and>
          wsi_function body = Some c) \<or>
        (\<exists>body node'. wi_message NODE_A_CONST node = Some (body, node') \<and> r_bytes node' = [] \<and>
          wsi_constant body = Some c)"
      unfolding wsi_cell_def by (auto simp: bind_eq_Some_conv split: if_splits)
    from arms show thesis
    proof (elim disjE exE conjE)
      fix body node' assume "wi_message NODE_SQLVALUE_FUNCTION node = Some (body, node')" "r_bytes node' = []"
        "wsi_function body = Some c"
      with wsi_function_accepts [OF this(3)] show thesis by (intro * [OF list]) (simp_all add: scalar_node_def)
    next
      fix body node' assume "wi_message NODE_A_CONST node = Some (body, node')" "r_bytes node' = []"
        "wsi_constant body = Some c"
      with wsi_constant_accepts [OF this(3)] show thesis by (intro * [OF list]) (simp_all add: scalar_node_def)
    qed
  qed
  have node_eq: "r_bytes node = scalar_node_bytes c"
    using node cell(4) unfolding scalar_node_bytes_def wi_message_exact by simp
  show "good_scalar c"
    using cell list node_eq unfolding good_scalar_def wi_message_exact by simp
  show "r_bytes r = scalar_cell_bytes c @ r_bytes r'" "r_at r' = r_at r + length (scalar_cell_bytes c)"
    using list node_eq unfolding scalar_cell_bytes_def wi_message_exact by simp_all
qed

lemma wsi_cell_exact:
  "wsi_cell r = Some (c, r') \<longleftrightarrow>
     good_scalar c \<and> r_bytes r = scalar_cell_bytes c @ r_bytes r' \<and> r_at r' = r_at r + length (scalar_cell_bytes c)"
  by (rule codec_exactI) (simp_all add: wsi_cell_reads wsi_cell_accepts)

interpretation scalar_cell: codec wsi_cell scalar_cell_bytes "\<lambda>_. good_scalar"
  by unfold_locales (rule wsi_cell_exact)

section \<open>Rows of a certificate\<close>

text \<open>
  A compact statement of the patched parser (\<^verbatim>\<open>PgQueryCompactScalarInsert\<close>): only the fields that
  \<^verbatim>\<open>sqlparser_compact_projection_cell\<close> and its constructor read.
\<close>

record compact_cell =
  m_text_offset :: nat
  m_text_length :: nat
  m_location :: int
  m_integer :: int
  m_kind :: scalar_kind

record compact_insert =
  m_row_count :: nat
  m_column_count :: nat
  m_string_count :: nat
  m_text_bytes :: nat
  m_raw_length :: u32
  m_names :: "(nat \<times> nat) list"
  m_cells :: "compact_cell list"

text \<open>
  \<^verbatim>\<open>sqlparser_wire_scalar_insert_t\<close>; a \<open>None\<close> is a NULL pointer.  The names are those of the catalog,
  the schema, the relation and the columns.
\<close>

record scalar_insert =
  x_compact :: "compact_insert option"
  x_wire :: "byte list option"
  x_sql :: string
  x_row_count :: nat
  x_column_count :: nat
  x_text_bytes :: nat
  x_string_count :: nat
  x_version :: u32
  x_raw_length :: u32
  x_prefix_offset :: u32
  x_prefix_length :: u32
  x_row_offsets :: "u32 list option"
  x_names :: "byte list option list"

text \<open>The wire from the offset of a row on.\<close>

definition scalar_row_start :: "scalar_insert option \<Rightarrow> nat \<Rightarrow> wi_reader option" where
  "scalar_row_start ins row =
     (case ins of
        None \<Rightarrow> None
      | Some i \<Rightarrow>
          (case (x_wire i, x_row_offsets i) of
             (Some wire, Some offsets) \<Rightarrow>
               if row \<ge> x_row_count i \<or> length wire > PTRDIFF_MAX \<or>
                  unat (offsets ! row) \<ge> length wire
               then None
               else Some \<lparr>r_at = unat (offsets ! row), r_bytes = drop (unat (offsets ! row)) wire\<rparr>
           | _ \<Rightarrow> None))"

definition wsi_row_reader :: "scalar_insert option \<Rightarrow> nat \<Rightarrow> wi_reader option" where
  "wsi_row_reader ins row = do {
     values \<leftarrow> scalar_row_start ins row;
     (node, _) \<leftarrow> wi_message WI_SELECT_VALUES values;
     (list, node') \<leftarrow> wi_message NODE_LIST node;
     check (r_bytes node' = []);
     Some list }"

definition wsi_source_text :: "scalar_insert \<Rightarrow> scalar_cell \<Rightarrow> scalar_cell option" where
  "wsi_source_text ins c =
     (if s_kind c \<noteq> SCALAR_VALUE_FUNCTION then Some c
      else if nat (s_location c) > length (x_sql ins) \<or>
              s_length c > length (x_sql ins) - nat (s_location c) then None
      else Some (c\<lparr>s_text := map of_char (take (s_length c) (drop (nat (s_location c)) (x_sql ins)))\<rparr>))"

text \<open>The loops over the cells of a row: all of them, or the last of the first \<open>column\<close> and one.\<close>

fun read_cells ::
  "(wi_reader \<Rightarrow> (scalar_cell \<times> wi_reader) option) \<Rightarrow> (scalar_cell \<Rightarrow> scalar_cell option) \<Rightarrow> nat \<Rightarrow> wi_reader
     \<Rightarrow> (scalar_cell list \<times> wi_reader) option"
where
  "read_cells get finish 0 list = Some ([], list)"
| "read_cells get finish (Suc n) list = do {
     (c, list) \<leftarrow> get list;
     c \<leftarrow> finish c;
     (cs, list) \<leftarrow> read_cells get finish n list;
     Some (c # cs, list) }"

fun read_nth :: "(wi_reader \<Rightarrow> (scalar_cell \<times> wi_reader) option) \<Rightarrow> nat \<Rightarrow> wi_reader \<Rightarrow> scalar_cell option" where
  "read_nth get 0 list = map_option fst (get list)"
| "read_nth get (Suc n) list = do { (_, list) \<leftarrow> get list; read_nth get n list }"

definition wire_scalar_insert_row :: "scalar_insert option \<Rightarrow> nat \<Rightarrow> scalar_cell list option" where
  "wire_scalar_insert_row ins row = do {
     list \<leftarrow> wsi_row_reader ins row;
     i \<leftarrow> ins;
     (cells, list) \<leftarrow> read_cells wsi_cell (wsi_source_text i) (x_column_count i) list;
     check (r_bytes list = []);
     Some cells }"

definition wire_scalar_insert_cell :: "scalar_insert option \<Rightarrow> nat \<Rightarrow> nat \<Rightarrow> scalar_cell option" where
  "wire_scalar_insert_cell ins row column = do {
     i \<leftarrow> ins;
     check (\<not> column \<ge> x_column_count i);
     list \<leftarrow> wsi_row_reader ins row;
     c \<leftarrow> read_nth wsi_cell column list;
     wsi_source_text i c }"

section \<open>The bounded readers\<close>

definition wsi_function_length :: "u32 \<Rightarrow> nat" where
  "wsi_function_length op =
     (if op = 1 then 12 else if op = 2 then 12 else if op = 4 then 17 else if op = 6 then 9
      else if op = 8 then 14 else if op = 10 then 12 else if op = 11 then 12 else if op = 12 then 4
      else if op = 13 then 12 else if op = 14 then 15 else if op = 15 then 14 else 0)"

text \<open>A varint of three bytes, the usual length of a location; all else goes to the general reader.\<close>

definition wsi_certified_location_u32 :: "byte list \<Rightarrow> (u32 \<times> byte list) option" where
  "wsi_certified_location_u32 p =
     (case p of
        b0 # b1 # b2 # rest \<Rightarrow>
          if b0 AND 0x80 \<noteq> 0 \<and> b1 AND 0x80 \<noteq> 0 \<and> b2 AND 0x80 = 0
          then Some (ucast (b0 AND 0x7f) OR push_bit 7 (ucast (b1 AND 0x7f)) OR push_bit 14 (ucast b2), rest)
          else wi_certified_u32 p
      | _ \<Rightarrow> wi_certified_u32 p)"

text \<open>The first byte of the tag of a value function, and the one-byte tags of the arms.\<close>

definition function_mark :: byte where
  "function_mark = ucast (wi_tag NODE_SQLVALUE_FUNCTION 2 AND 0x7f OR 0x80)"

definition certified_function :: "byte list \<Rightarrow> (scalar_cell \<times> byte list) option" where
  "certified_function p = do {
     (op, p1) \<leftarrow> wi_certified_u32 (tl p);
     check (\<not> (unat op > INT32_MAX \<or> length p1 \<le> length wsi_typmod_default));
     Some (\<lparr>s_text = [], s_length = wsi_function_length op, s_integer = sint op, s_location = 0,
            s_kind = SCALAR_VALUE_FUNCTION\<rparr>, drop (length wsi_typmod_default) p1) }"

definition certified_constant :: "byte list \<Rightarrow> (scalar_cell \<times> byte list) option" where
  "certified_constant p = do {
     let arm = hd p;
     (len, p1) \<leftarrow> wi_certified_u32 (tl p);
     (if arm = ucast (wi_tag VAL_IVAL 2)
      then (if len = 0
            then Some (\<lparr>s_text = [], s_length = 0, s_integer = 0, s_location = 0, s_kind = SCALAR_INTEGER\<rparr>, p1)
            else do {
              check (p1 \<noteq> []);
              (val, p2) \<leftarrow> wi_certified_u32 (tl p1);
              check (\<not> unat val > INT32_MAX);
              Some (\<lparr>s_text = [], s_length = 0, s_integer = sint val, s_location = 0, s_kind = SCALAR_INTEGER\<rparr>, p2) })
      else
        let kind = (if arm = ucast (wi_tag VAL_SVAL 2) then SCALAR_STRING else SCALAR_FLOAT)
        in if len = 0
           then Some (\<lparr>s_text = [], s_length = 0, s_integer = 0, s_location = 0, s_kind = kind\<rparr>, p1)
           else do {
             check (p1 \<noteq> []);
             (val, p2) \<leftarrow> wi_certified_u32 (tl p1);
             check (\<not> unat val > length p2);
             Some (\<lparr>s_text = take (unat val) p2, s_length = unat val, s_integer = 0, s_location = 0, s_kind = kind\<rparr>,
                   drop (unat val) p2) }) }"

definition wsi_certified_cell :: "byte list \<Rightarrow> (scalar_cell \<times> byte list) option" where
  "wsi_certified_cell p0 = do {
     p1 \<leftarrow> wi_certified_envelope 1 p0;
     check (p1 \<noteq> []);
     let is_function = (hd p1 = function_mark);
     p2 \<leftarrow> wi_certified_envelope 2 p1;
     check (p2 \<noteq> []);
     (cell, p3) \<leftarrow> (if is_function then certified_function p2 else certified_constant p2);
     check (p3 \<noteq> []);
     (val, p4) \<leftarrow> wsi_certified_location_u32 (tl p3);
     check (\<not> unat val > INT32_MAX);
     Some (cell\<lparr>s_location := sint val\<rparr>, p4) }"

definition wsi_certified_row_reader :: "scalar_insert option \<Rightarrow> nat \<Rightarrow> wi_reader option" where
  "wsi_certified_row_reader ins row = do {
     r \<leftarrow> scalar_row_start ins row;
     (len, p) \<leftarrow> wi_certified_u32 (tl (r_bytes r));
     check (\<not> unat len > length p);
     let q = take (unat len) p;
     list \<leftarrow> wi_certified_envelope 2 q;
     Some \<lparr>r_at = r_at r + (length (r_bytes r) - length p) + (length q - length list), r_bytes = list\<rparr> }"

text \<open>The choice between the two, in the build without defensive rows.\<close>

definition wsi_read_cell :: "bool \<Rightarrow> wi_reader \<Rightarrow> (scalar_cell \<times> wi_reader) option" where
  "wsi_read_cell certified list =
     (if certified then
        (case wsi_certified_cell (r_bytes list) of
           None \<Rightarrow> None
         | Some (c, p) \<Rightarrow> Some (c, \<lparr>r_at = r_at list + (length (r_bytes list) - length p), r_bytes = p\<rparr>))
      else wsi_cell list)"

definition wsi_read_row :: "bool \<Rightarrow> scalar_insert option \<Rightarrow> nat \<Rightarrow> wi_reader option" where
  "wsi_read_row certified ins row =
     (if certified then wsi_certified_row_reader ins row else wsi_row_reader ins row)"

text \<open>The projection of a compact statement.\<close>

definition compact_projection_cell :: "scalar_insert option \<Rightarrow> nat \<Rightarrow> nat \<Rightarrow> scalar_cell option" where
  "compact_projection_cell ins row column =
     (case ins of
        None \<Rightarrow> None
      | Some i \<Rightarrow>
          (case x_compact i of
             None \<Rightarrow> None
           | Some m \<Rightarrow>
               if row \<ge> x_row_count i \<or> column \<ge> x_column_count i then None
               else let c = m_cells m ! (row * x_column_count i + column)
                 in Some \<lparr>s_text = map of_char (take (m_text_length c) (drop (m_text_offset c) (x_sql i))),
                      s_length = m_text_length c, s_integer = m_integer c, s_location = m_location c,
                      s_kind = m_kind c\<rparr>))"

fun projection_loop :: "scalar_insert option \<Rightarrow> nat \<Rightarrow> nat list \<Rightarrow> scalar_cell list option" where
  "projection_loop ins row [] = Some []"
| "projection_loop ins row (column # columns) = do {
     c \<leftarrow> compact_projection_cell ins row column;
     cs \<leftarrow> projection_loop ins row columns;
     Some (c # cs) }"

definition wire_scalar_insert_certified_row :: "scalar_insert option \<Rightarrow> nat \<Rightarrow> scalar_cell list option" where
  "wire_scalar_insert_certified_row ins row =
     (if (case ins of None \<Rightarrow> False | Some i \<Rightarrow> x_compact i \<noteq> None) then do {
        i \<leftarrow> ins;
        check (\<not> row \<ge> x_row_count i);
        projection_loop ins row [0..<x_column_count i] }
      else do {
        list \<leftarrow> wsi_read_row True ins row;
        i \<leftarrow> ins;
        (cells, list) \<leftarrow> read_cells (wsi_read_cell True) (wsi_source_text i) (x_column_count i) list;
        check (r_bytes list = []);
        Some cells })"

definition wire_scalar_insert_certified_cell :: "scalar_insert option \<Rightarrow> nat \<Rightarrow> nat \<Rightarrow> scalar_cell option" where
  "wire_scalar_insert_certified_cell ins row column =
     (if (case ins of None \<Rightarrow> False | Some i \<Rightarrow> x_compact i \<noteq> None)
      then compact_projection_cell ins row column
      else do {
        i \<leftarrow> ins;
        check (\<not> column \<ge> x_column_count i);
        list \<leftarrow> wsi_read_row True ins row;
        c \<leftarrow> read_nth (wsi_read_cell True) column list;
        wsi_source_text i c })"

section \<open>The bounded readers agree on certified rows\<close>

text \<open>The fast path is the general reader.\<close>

lemma location_fast_path: "wsi_certified_location_u32 p = wi_certified_u32 p"
proof -
  have "b AND 0x7f = b" if "b AND 0x80 = 0" for b :: byte
    by (rule word_unat_eq_iff [THEN iffD2]) (use that in \<open>simp add: unat_low7 byte_tests(1)\<close>)
  then show ?thesis
    by (auto simp: wsi_certified_location_u32_def wi_certified_u32_def byte_tests Let_def or.assoc split: list.split)
qed

lemma function_length_word: "wsi_function_word op = Some w \<Longrightarrow> wsi_function_length op = length w"
  by (auto simp: wsi_function_word_def wsi_function_length_def split: if_splits)

lemma scalar_tags:
  "length (u32_bytes (wi_tag NODE_SQLVALUE_FUNCTION 2)) = 2"
  "length (u32_bytes (push_bit 3 2)) = 1" "length (u32_bytes (push_bit 3 5)) = 1"
  "u32_bytes (wi_tag VAL_IVAL 2) = [ucast (wi_tag VAL_IVAL 2)]"
  "u32_bytes (wi_tag VAL_SVAL 2) = [ucast (wi_tag VAL_SVAL 2)]"
  "u32_bytes (wi_tag VAL_FVAL 2) = [ucast (wi_tag VAL_FVAL 2)]"
  "hd (u32_bytes (wi_tag NODE_SQLVALUE_FUNCTION 2)) = function_mark"
  "hd (u32_bytes (wi_tag NODE_A_CONST 2)) \<noteq> function_mark"
  by (simp_all add: u32_bytes_def wi_tag_def varint_bytes.simps function_mark_def)

lemma node_tag_length: "length (u32_bytes (wi_tag (scalar_node kind) 2)) = 2"
  using tag_lengths(2) scalar_tags(1) by (simp add: scalar_node_def)

lemma node_mark:
  "(hd (message_bytes (scalar_node kind) p @ s) = function_mark) = (kind = SCALAR_VALUE_FUNCTION)"
  using scalar_tags(7,8) by (simp add: message_bytes_def scalar_node_def)

lemma certified_function_reads:
  assumes "good_scalar c" "s_kind c = SCALAR_VALUE_FUNCTION"
  shows "certified_function (scalar_body_bytes c @ s) =
    Some (c\<lparr>s_location := 0\<rparr>, scalar_bytes 5 (of_int (s_location c)) @ s)"
proof -
  obtain word where word: "wsi_function_word (of_int (s_integer c)) = Some word" "s_length c = length word"
    "s_text c = []" "0 \<le> s_integer c" "s_integer c \<le> int INT32_MAX"
    using assms by (auto simp: good_scalar_def good_value_def split: option.splits)
  have op: "of_int (s_integer c) \<noteq> (0 :: u32)" "unat (of_int (s_integer c) :: u32) \<le> INT32_MAX"
    "sint (of_int (s_integer c) :: u32) = s_integer c"
    using function_word_small [OF word(1)] of_int_small [of "s_integer c"] word by auto
  let ?tail = "wsi_typmod_default @ scalar_bytes 5 (of_int (s_location c)) @ s"
  have "scalar_body_bytes c @ s = u32_bytes (push_bit 3 2) @ u32_bytes (of_int (s_integer c)) @ ?tail"
    using assms(2) op(1) by (simp add: scalar_body_bytes_def scalar_bytes_def [of 2])
  then have tail: "tl (scalar_body_bytes c @ s) = u32_bytes (of_int (s_integer c)) @ ?tail"
    by (simp only: tl_one_byte [OF scalar_tags(2)])
  have "scalar_bytes 5 (of_int (s_location c)) \<noteq> []"
    using location_reads(1) [of "s_location c"] assms(1) by (simp add: good_scalar_def scalar_bytes_def)
  moreover have "c\<lparr>s_location := 0\<rparr> = \<lparr>s_text = [], s_length = length word, s_integer = s_integer c, s_location = 0,
      s_kind = SCALAR_VALUE_FUNCTION\<rparr>"
    using word assms(2) by simp
  ultimately show ?thesis
    using op function_length_word [OF word(1)] unfolding certified_function_def tail by simp
qed

lemma certified_constant_reads:
  assumes "good_scalar c" "s_kind c \<noteq> SCALAR_VALUE_FUNCTION"
  shows "certified_constant (scalar_body_bytes c @ s) =
    Some (c\<lparr>s_location := 0\<rparr>, scalar_bytes WI_CONST_LOCATION (of_int (s_location c)) @ s)"
proof -
  let ?val = "scalar_value_bytes c" and ?s = "scalar_bytes WI_CONST_LOCATION (of_int (s_location c)) @ s"
  note sizes = good_scalar_sizes(3) [OF assms] good_scalar_sizes(4) [OF assms(1)]
  note len0 = of_nat_length_eq_0 [OF sizes(1)]
  have arm: "u32_bytes (wi_tag (wsi_constant_kind (s_kind c)) 2) = [ucast (wi_tag (wsi_constant_kind (s_kind c)) 2)]"
    using assms(2) scalar_tags(4-6) by (cases "s_kind c") (simp_all add: wsi_constant_kind_def)
  have body: "scalar_body_bytes c @ s = ucast (wi_tag (wsi_constant_kind (s_kind c)) 2) #
      u32_bytes (of_nat (length ?val)) @ ?val @ ?s"
    using assms(2) by (simp add: scalar_body_bytes_def message_bytes_def arm)
  show ?thesis
  proof (cases "s_kind c = SCALAR_INTEGER")
    case True
    have n: "unat (of_int (s_integer c) :: u32) \<le> INT32_MAX" "sint (of_int (s_integer c) :: u32) = s_integer c"
      and c: "c\<lparr>s_location := 0\<rparr> = \<lparr>s_text = [], s_length = 0, s_integer = s_integer c, s_location = 0, s_kind = SCALAR_INTEGER\<rparr>"
      using True assms(1) of_int_small [of "s_integer c"] by (auto simp: good_scalar_def good_value_def)
    show ?thesis
    proof (cases "?val = []")
      case empty: True
      then have "s_integer c = 0" using True n(2) by (auto simp: scalar_value_bytes_def scalar_bytes_def split: if_splits)
      then show ?thesis
        using empty True c unfolding certified_constant_def body by (simp add: wsi_constant_kind_def len0)
    next
      case False
      then have nz: "of_int (s_integer c) \<noteq> (0 :: u32)"
        using True by (auto simp: scalar_value_bytes_def scalar_bytes_def)
      have "?val @ ?s = u32_bytes (push_bit 3 WI_INTEGER_VALUE) @ u32_bytes (of_int (s_integer c)) @ ?s"
        using nz True by (simp add: scalar_value_bytes_def scalar_bytes_def)
      then have "tl (?val @ ?s) = u32_bytes (of_int (s_integer c)) @ ?s" by (simp only: skip_tag)
      then show ?thesis
        using False True c n unfolding certified_constant_def body by (simp add: wsi_constant_kind_def len0)
    qed
  next
    case False
    have c: "c\<lparr>s_location := 0\<rparr> = \<lparr>s_text = s_text c, s_length = length (s_text c), s_integer = 0, s_location = 0,
        s_kind = s_kind c\<rparr>" and kinds: "s_kind c = SCALAR_STRING \<or> s_kind c = SCALAR_FLOAT"
      using False assms by (auto simp: good_scalar_def good_value_def split: scalar_kind.splits)
    have arms: "(ucast (wi_tag (wsi_constant_kind (s_kind c)) 2) :: byte) \<noteq> ucast (wi_tag VAL_IVAL 2)"
      "((ucast (wi_tag (wsi_constant_kind (s_kind c)) 2) :: byte) = ucast (wi_tag VAL_SVAL 2)) = (s_kind c = SCALAR_STRING)"
      using kinds by (auto simp: wsi_constant_kind_def wi_tag_def)
    show ?thesis
    proof (cases "?val = []")
      case empty: True
      then have "s_text c = []" using False by (auto simp: scalar_value_bytes_def split: if_splits)
      then show ?thesis
        using empty False c arms kinds unfolding certified_constant_def body by (auto simp: len0)
    next
      case nonempty: False
      then have "?val @ ?s = u32_bytes (wi_tag WI_STRING_VALUE 2) @ u32_bytes (of_nat (length (s_text c))) @ s_text c @ ?s"
        using False by (auto simp: scalar_value_bytes_def message_bytes_def)
      then have "tl (?val @ ?s) = u32_bytes (of_nat (length (s_text c))) @ s_text c @ ?s" by (simp only: skip_tag)
      then show ?thesis
        using nonempty False c arms kinds unfolding certified_constant_def body
        by (auto simp: len0 u32_reads_length [OF sizes(2)])
    qed
  qed
qed

lemma certified_scalar_reads:
  assumes "good_scalar c"
  shows "wsi_certified_cell (scalar_cell_bytes c @ s) = Some (c, s)"
proof -
  have loc: "of_int (s_location c) \<noteq> (0 :: u32)" "unat (of_int (s_location c) :: u32) \<le> INT32_MAX"
    "sint (of_int (s_location c) :: u32) = s_location c"
    using location_reads assms by (simp_all add: good_scalar_def)
  have front: "wi_certified_envelope 1 (scalar_cell_bytes c @ s) = Some (scalar_node_bytes c @ s)"
    "wi_certified_envelope 2 (scalar_node_bytes c @ s) = Some (scalar_body_bytes c @ s)"
    by (simp_all add: scalar_cell_bytes_def scalar_node_bytes_def envelope_skips envelope_skips_message [OF node_tag_length]
        del: One_nat_def)
  have nonempty: "scalar_node_bytes c @ s \<noteq> []" "scalar_body_bytes c @ s \<noteq> []"
    using loc(1) by (simp_all add: scalar_node_bytes_def scalar_body_bytes_def wsi_typmod_default_def)
  have mark: "(hd (scalar_node_bytes c @ s) = function_mark) = (s_kind c = SCALAR_VALUE_FUNCTION)"
    unfolding scalar_node_bytes_def by (rule node_mark)
  let ?field = "if s_kind c = SCALAR_VALUE_FUNCTION then 5 else WI_CONST_LOCATION"
  have inner: "(if s_kind c = SCALAR_VALUE_FUNCTION then certified_function (scalar_body_bytes c @ s)
      else certified_constant (scalar_body_bytes c @ s)) =
      Some (c\<lparr>s_location := 0\<rparr>, scalar_bytes ?field (of_int (s_location c)) @ s)"
    using certified_function_reads [OF assms] certified_constant_reads [OF assms] by simp
  have one: "length (u32_bytes (push_bit 3 ?field)) = 1" using scalar_tags(3) tag_lengths(7) by simp
  have "scalar_bytes ?field (of_int (s_location c)) @ s =
      u32_bytes (push_bit 3 ?field) @ u32_bytes (of_int (s_location c)) @ s"
    using loc(1) by (simp only: scalar_bytes_def if_False append_assoc)
  then have tail: "tl (scalar_bytes ?field (of_int (s_location c)) @ s) = u32_bytes (of_int (s_location c)) @ s"
    "scalar_bytes ?field (of_int (s_location c)) @ s \<noteq> []"
    using tl_one_byte [OF one] by (simp_all only: append_is_Nil_conv u32_bytes_not_Nil simp_thms)
  show ?thesis
    using loc nonempty unfolding wsi_certified_cell_def front(1) location_fast_path
    by (simp add: front(2) mark inner tail Let_def del: append_is_Nil_conv)
qed

end
