(* ===== verification/Wire_Frame.thy ===== *)
theory Wire_Frame
  imports Wire_Insert
begin

text \<open>
  The messages around the rows of an INSERT.  Both packers of \<^verbatim>\<open>src/core/sqlparser_wire_insert.c\<close>
  measure and write them in the same steps, whatever the rows are: \<open>frame_measure\<close>, \<open>write_head\<close> and
  \<open>write_tail\<close>.  The reference is \<open>wire_bytes\<close>, the canonical encoding of the statement around given
  bytes of rows; the predicate \<open>writes\<close> relates a step of the writer to the bytes it appends.
\<close>

section \<open>Measuring and writing\<close>

text \<open>\<^verbatim>\<open>if (n > UINT32_MAX) return 0\<close> followed by the conversion of \<open>n\<close>.\<close>

definition fit32 :: "nat \<Rightarrow> u32 option" where
  "fit32 n = (if n > UINT32_MAX then None else Some (of_nat n))"

text \<open>The statement length after the edits; zero stands for the end of the text.\<close>

definition shifted_raw_length :: "u32 \<Rightarrow> int \<Rightarrow> u32 option" where
  "shifted_raw_length raw_length delta =
     (if raw_length = 0 then Some 0
      else let shifted = int (unat raw_length) + delta
        in if 0 < shifted \<and> shifted \<le> int INT32_MAX then Some (of_int shifted) else None)"

text \<open>The sizes of the messages around the rows, whose bytes are counted by \<open>n\<close>.\<close>

record frame_sizes =
  p_select :: u32
  p_select_node :: u32
  p_insert :: u32
  p_insert_node :: u32
  p_raw :: u32
  p_total :: u32

definition frame_measure :: "u32 \<Rightarrow> nat \<Rightarrow> nat \<Rightarrow> u32 \<Rightarrow> frame_sizes option" where
  "frame_measure version prefix_length n raw_length = do {
     select \<leftarrow> fit32 (n + wi_scalar_size WI_SELECT_LIMIT 1 + wi_scalar_size WI_SELECT_OP 1);
     select_node \<leftarrow> fit32 (wi_envelope NODE_SELECT_STMT select);
     insert_size \<leftarrow> fit32 (prefix_length + wi_envelope WI_INSERT_SELECT select_node +
       wi_scalar_size WI_INSERT_OVERRIDE 1);
     insert_node \<leftarrow> fit32 (wi_envelope NODE_INSERT_STMT insert_size);
     raw \<leftarrow> fit32 (wi_envelope WI_RAW_STMT insert_node + wi_scalar_size WI_RAW_LENGTH raw_length);
     total \<leftarrow> fit32 (wi_scalar_size WI_PARSE_VERSION version + wi_envelope WI_PARSE_STMTS raw);
     Some \<lparr>p_select = select, p_select_node = select_node, p_insert = insert_size,
           p_insert_node = insert_node, p_raw = raw, p_total = total\<rparr> }"

text \<open>What is written before and behind the rows.\<close>

definition write_head :: "u32 \<Rightarrow> byte list \<Rightarrow> frame_sizes \<Rightarrow> wi_writer \<Rightarrow> wi_writer" where
  "write_head version prefix z w =
     (let w = wi_write_scalar WI_PARSE_VERSION version w;
          w = wi_write_header WI_PARSE_STMTS (p_raw z) w;
          w = wi_write_header WI_RAW_STMT (p_insert_node z) w;
          w = wi_write_header NODE_INSERT_STMT (p_insert z) w;
          w = wi_write_bytes prefix w;
          w = wi_write_header WI_INSERT_SELECT (p_select_node z) w
      in wi_write_header NODE_SELECT_STMT (p_select z) w)"

definition write_tail :: "u32 \<Rightarrow> wi_writer \<Rightarrow> wi_writer" where
  "write_tail raw_length w =
     (let w = wi_write_scalar WI_SELECT_LIMIT 1 w;
          w = wi_write_scalar WI_SELECT_OP 1 w;
          w = wi_write_scalar WI_INSERT_OVERRIDE 1 w
      in wi_write_scalar WI_RAW_LENGTH raw_length w)"

section \<open>The reference encoding of a statement\<close>

definition select_bytes :: "byte list \<Rightarrow> byte list" where
  "select_bytes body = body @ scalar_bytes WI_SELECT_LIMIT 1 @ scalar_bytes WI_SELECT_OP 1"

definition insert_bytes :: "byte list \<Rightarrow> byte list \<Rightarrow> byte list" where
  "insert_bytes prefix body =
     prefix @ message_bytes WI_INSERT_SELECT (message_bytes NODE_SELECT_STMT (select_bytes body)) @
     scalar_bytes WI_INSERT_OVERRIDE 1"

definition raw_bytes :: "byte list \<Rightarrow> byte list \<Rightarrow> u32 \<Rightarrow> byte list" where
  "raw_bytes prefix body raw_length =
     message_bytes WI_RAW_STMT (message_bytes NODE_INSERT_STMT (insert_bytes prefix body)) @
     scalar_bytes WI_RAW_LENGTH raw_length"

definition wire_bytes :: "u32 \<Rightarrow> byte list \<Rightarrow> byte list \<Rightarrow> u32 \<Rightarrow> byte list" where
  "wire_bytes version prefix body raw_length =
     scalar_bytes WI_PARSE_VERSION version @
     message_bytes WI_PARSE_STMTS (raw_bytes prefix body raw_length)"

lemma message_length_mono: "length (message_bytes f p) < n \<Longrightarrow> length p < n"
  by (simp add: message_bytes_def)

lemma wire_bytes_parts:
  assumes "length (wire_bytes version prefix body rl) < n"
  shows "length (raw_bytes prefix body rl) < n"
    "length (message_bytes NODE_INSERT_STMT (insert_bytes prefix body)) < n"
    "length (insert_bytes prefix body) < n"
    "length (message_bytes NODE_SELECT_STMT (select_bytes body)) < n"
    "length (select_bytes body) < n" "length body < n"
proof -
  show raw: "length (raw_bytes prefix body rl) < n"
    using assms unfolding wire_bytes_def by - (rule message_length_mono [of WI_PARSE_STMTS], simp)
  then show node: "length (message_bytes NODE_INSERT_STMT (insert_bytes prefix body)) < n"
    unfolding raw_bytes_def by - (rule message_length_mono [of WI_RAW_STMT], simp)
  then show ins: "length (insert_bytes prefix body) < n" by (rule message_length_mono)
  then show select_node: "length (message_bytes NODE_SELECT_STMT (select_bytes body)) < n"
    unfolding insert_bytes_def by - (rule message_length_mono [of WI_INSERT_SELECT], simp)
  then show select: "length (select_bytes body) < n" by (rule message_length_mono)
  then show "length body < n" by (simp add: select_bytes_def)
qed

section \<open>The measured sizes are those of the reference encoding\<close>

lemma fit32_eq: "fit32 n = (if n < 2 ^ 32 then Some (of_nat n) else None)"
  by (simp add: fit32_def UINT32_MAX_def)

definition sizes_of :: "u32 \<Rightarrow> byte list \<Rightarrow> byte list \<Rightarrow> u32 \<Rightarrow> frame_sizes" where
  "sizes_of version prefix body rl =
     \<lparr>p_select = of_nat (length (select_bytes body)),
      p_select_node = of_nat (length (message_bytes NODE_SELECT_STMT (select_bytes body))),
      p_insert = of_nat (length (insert_bytes prefix body)),
      p_insert_node = of_nat (length (message_bytes NODE_INSERT_STMT (insert_bytes prefix body))),
      p_raw = of_nat (length (raw_bytes prefix body rl)),
      p_total = of_nat (length (wire_bytes version prefix body rl))\<rparr>"

lemma frame_measure_spec:
  "frame_measure version (length prefix) (length body) rl =
    (if length (wire_bytes version prefix body rl) < 2 ^ 32
     then Some (sizes_of version prefix body rl) else None)"
proof -
  let ?select = "length (select_bytes body)"
  let ?select_node = "length (message_bytes NODE_SELECT_STMT (select_bytes body))"
  let ?insert = "length (insert_bytes prefix body)"
  let ?insert_node = "length (message_bytes NODE_INSERT_STMT (insert_bytes prefix body))"
  let ?raw = "length (raw_bytes prefix body rl)"
  let ?wire = "length (wire_bytes version prefix body rl)"
  have sizes: "length body + wi_scalar_size WI_SELECT_LIMIT 1 + wi_scalar_size WI_SELECT_OP 1 = ?select"
    "?select_node < 2 ^ 32 \<Longrightarrow> length prefix + wi_envelope WI_INSERT_SELECT (of_nat ?select_node) +
       wi_scalar_size WI_INSERT_OVERRIDE 1 = ?insert"
    by (simp_all add: select_bytes_def insert_bytes_def wi_scalar_size_spec wi_envelope_spec)
  have nodes: "?select < 2 ^ 32 \<Longrightarrow> wi_envelope NODE_SELECT_STMT (of_nat ?select) = ?select_node"
    "?insert < 2 ^ 32 \<Longrightarrow> wi_envelope NODE_INSERT_STMT (of_nat ?insert) = ?insert_node"
    by (rule wi_envelope_spec, assumption)+
  have outer: "?insert_node < 2 ^ 32 \<Longrightarrow> wi_envelope WI_RAW_STMT (of_nat ?insert_node) +
      wi_scalar_size WI_RAW_LENGTH rl = ?raw"
    "?raw < 2 ^ 32 \<Longrightarrow> wi_scalar_size WI_PARSE_VERSION version + wi_envelope WI_PARSE_STMTS (of_nat ?raw) = ?wire"
    by (simp add: raw_bytes_def wi_scalar_size_spec wi_envelope_spec)
      (simp add: wire_bytes_def wi_scalar_size_spec wi_envelope_spec)
  show ?thesis
  proof (cases "?wire < 2 ^ 32")
    case True
    note parts = wire_bytes_parts [OF True]
    show ?thesis
      using parts True unfolding frame_measure_def
      by (simp add: fit32_eq sizes nodes outer sizes_of_def del: of_nat_add)
  next
    case False
    have "frame_measure version (length prefix) (length body) rl = None"
    proof (rule ccontr)
      assume "frame_measure version (length prefix) (length body) rl \<noteq> None"
      then obtain select select_node insert_size insert_node raw total where
        1: "fit32 ?select = Some select" and 2: "fit32 (wi_envelope NODE_SELECT_STMT select) = Some select_node"
        and 3: "fit32 (length prefix + wi_envelope WI_INSERT_SELECT select_node +
          wi_scalar_size WI_INSERT_OVERRIDE 1) = Some insert_size"
        and 4: "fit32 (wi_envelope NODE_INSERT_STMT insert_size) = Some insert_node"
        and 5: "fit32 (wi_envelope WI_RAW_STMT insert_node + wi_scalar_size WI_RAW_LENGTH rl) = Some raw"
        and 6: "fit32 (wi_scalar_size WI_PARSE_VERSION version + wi_envelope WI_PARSE_STMTS raw) = Some total"
        unfolding frame_measure_def by (auto simp: bind_eq_Some_conv sizes(1))
      from 1 have a: "?select < 2 ^ 32" "select = of_nat ?select" by (simp_all add: fit32_eq split: if_splits)
      with 2 have b: "?select_node < 2 ^ 32" "select_node = of_nat ?select_node"
        by (simp_all add: fit32_eq nodes split: if_splits)
      with 3 have c: "?insert < 2 ^ 32" "insert_size = of_nat ?insert"
        by (simp_all add: fit32_eq sizes split: if_splits)
      with 4 have d: "?insert_node < 2 ^ 32" "insert_node = of_nat ?insert_node"
        by (simp_all add: fit32_eq nodes split: if_splits)
      with 5 have e: "?raw < 2 ^ 32" "raw = of_nat ?raw"
        by (simp_all add: fit32_eq outer split: if_splits)
      with 6 False show False by (simp add: fit32_eq outer split: if_splits)
    qed
    with False show ?thesis by simp
  qed
qed

section \<open>The writer writes the reference encoding\<close>

text \<open>An operation of the writer that appends exactly \<open>bs\<close> when there is room for it.\<close>

definition writes :: "(wi_writer \<Rightarrow> wi_writer) \<Rightarrow> byte list \<Rightarrow> bool" where
  "writes step bs \<longleftrightarrow> (\<forall>w. length bs \<le> w_room w \<longrightarrow> step w = emit bs w)"

named_theorems writes_intros \<open>what the operations of the writer append\<close>

lemma writes_then:
  assumes "writes f as" "writes g bs"
  shows "writes (\<lambda>w. g (f w)) (as @ bs)"
  using assms by (simp add: writes_def)

lemma writes_header [writes_intros]:
  "writes (wi_write_header f n) (u32_bytes (wi_tag f 2) @ u32_bytes n)"
  by (simp add: writes_def wi_write_header_def write_varint_emits)

lemma writes_scalar [writes_intros]: "writes (wi_write_scalar f v) (scalar_bytes f v)"
  by (simp add: writes_def write_scalar_emits)

lemma writes_bytes [writes_intros]: "writes (wi_write_bytes bs) bs"
  by (simp add: writes_def write_bytes_emits)

text \<open>A header followed by its payload is a message.\<close>

lemma writes_message:
  assumes "writes f p"
  shows "writes (\<lambda>w. f (wi_write_header g (of_nat (length p)) w)) (message_bytes g p)"
  using writes_then [OF writes_header assms, of g "of_nat (length p)"] by (simp add: message_bytes_def)

lemma writes_emit: "writes step bs \<Longrightarrow> length bs \<le> w_room w \<Longrightarrow> step w = emit bs w"
  by (simp add: writes_def)

text \<open>The bytes before and behind the rows.\<close>

definition head_bytes :: "u32 \<Rightarrow> byte list \<Rightarrow> frame_sizes \<Rightarrow> byte list" where
  "head_bytes version prefix z = scalar_bytes WI_PARSE_VERSION version @
     u32_bytes (wi_tag WI_PARSE_STMTS 2) @ u32_bytes (p_raw z) @
     u32_bytes (wi_tag WI_RAW_STMT 2) @ u32_bytes (p_insert_node z) @
     u32_bytes (wi_tag NODE_INSERT_STMT 2) @ u32_bytes (p_insert z) @ prefix @
     u32_bytes (wi_tag WI_INSERT_SELECT 2) @ u32_bytes (p_select_node z) @
     u32_bytes (wi_tag NODE_SELECT_STMT 2) @ u32_bytes (p_select z)"

definition tail_bytes :: "u32 \<Rightarrow> byte list" where
  "tail_bytes rl = scalar_bytes WI_SELECT_LIMIT 1 @ scalar_bytes WI_SELECT_OP 1 @
     scalar_bytes WI_INSERT_OVERRIDE 1 @ scalar_bytes WI_RAW_LENGTH rl"

lemma writes_head: "writes (write_head version prefix z) (head_bytes version prefix z)"
proof -
  note steps = writes_then [OF writes_then [OF writes_then [OF writes_then [OF writes_then [OF writes_then [OF
      writes_scalar [of WI_PARSE_VERSION version] writes_header [of WI_PARSE_STMTS "p_raw z"]]
      writes_header [of WI_RAW_STMT "p_insert_node z"]] writes_header [of NODE_INSERT_STMT "p_insert z"]]
      writes_bytes [of prefix]] writes_header [of WI_INSERT_SELECT "p_select_node z"]]
      writes_header [of NODE_SELECT_STMT "p_select z"]]
  have "write_head version prefix z = (\<lambda>w. wi_write_header NODE_SELECT_STMT (p_select z)
      (wi_write_header WI_INSERT_SELECT (p_select_node z) (wi_write_bytes prefix
        (wi_write_header NODE_INSERT_STMT (p_insert z) (wi_write_header WI_RAW_STMT (p_insert_node z)
          (wi_write_header WI_PARSE_STMTS (p_raw z) (wi_write_scalar WI_PARSE_VERSION version w)))))))"
    unfolding write_head_def Let_def ..
  then show ?thesis using steps unfolding head_bytes_def by (simp only: append_assoc)
qed

lemma writes_tail: "writes (write_tail rl) (tail_bytes rl)"
proof -
  note steps = writes_then [OF writes_then [OF writes_then [OF writes_scalar [of WI_SELECT_LIMIT 1]
      writes_scalar [of WI_SELECT_OP 1]] writes_scalar [of WI_INSERT_OVERRIDE 1]]
      writes_scalar [of WI_RAW_LENGTH rl]]
  have "write_tail rl = (\<lambda>w. wi_write_scalar WI_RAW_LENGTH rl (wi_write_scalar WI_INSERT_OVERRIDE 1
      (wi_write_scalar WI_SELECT_OP 1 (wi_write_scalar WI_SELECT_LIMIT 1 w))))"
    unfolding write_tail_def Let_def ..
  then show ?thesis using steps unfolding tail_bytes_def by (simp only: append_assoc)
qed

lemma wire_bytes_parts_order:
  "wire_bytes version prefix body rl = head_bytes version prefix (sizes_of version prefix body rl) @ body @ tail_bytes rl"
proof -
  define z where "z = sizes_of version prefix body rl"
  let ?raw = "raw_bytes prefix body rl" and ?insert = "insert_bytes prefix body" and ?select = "select_bytes body"
  let ?insert_node = "message_bytes NODE_INSERT_STMT ?insert" and ?select_node = "message_bytes NODE_SELECT_STMT ?select"
  have whole: "wire_bytes version prefix body rl = scalar_bytes WI_PARSE_VERSION version @
      u32_bytes (wi_tag WI_PARSE_STMTS 2) @ u32_bytes (p_raw z) @ ?raw"
    by (simp only: wire_bytes_def message_bytes_def [of WI_PARSE_STMTS] z_def sizes_of_def frame_sizes.simps append_assoc)
  have raw: "?raw = u32_bytes (wi_tag WI_RAW_STMT 2) @ u32_bytes (p_insert_node z) @ ?insert_node @ scalar_bytes WI_RAW_LENGTH rl"
    by (simp only: raw_bytes_def message_bytes_def [of WI_RAW_STMT] z_def sizes_of_def frame_sizes.simps append_assoc)
  have insert_node: "?insert_node = u32_bytes (wi_tag NODE_INSERT_STMT 2) @ u32_bytes (p_insert z) @ ?insert"
    by (simp only: message_bytes_def [of NODE_INSERT_STMT] z_def sizes_of_def frame_sizes.simps)
  have payload: "?insert = prefix @ u32_bytes (wi_tag WI_INSERT_SELECT 2) @ u32_bytes (p_select_node z) @
      ?select_node @ scalar_bytes WI_INSERT_OVERRIDE 1"
    by (simp only: insert_bytes_def message_bytes_def [of WI_INSERT_SELECT] z_def sizes_of_def frame_sizes.simps append_assoc)
  have select_node: "?select_node = u32_bytes (wi_tag NODE_SELECT_STMT 2) @ u32_bytes (p_select z) @ ?select"
    by (simp only: message_bytes_def [of NODE_SELECT_STMT] z_def sizes_of_def frame_sizes.simps)
  show ?thesis
    unfolding whole unfolding raw unfolding insert_node unfolding payload unfolding select_node
    unfolding select_bytes_def head_bytes_def tail_bytes_def z_def [symmetric]
    by (simp only: append_assoc)
qed

text \<open>
  Head, rows and tail, written into a buffer of the measured size, fill it with the reference
  encoding.
\<close>

lemma frame_filled:
  assumes "length (wire_bytes version prefix body rl) < 2 ^ 32"
    and body: "\<And>w. length body \<le> w_room w \<Longrightarrow> \<not> w_failed w \<Longrightarrow> step w = (emit body w, x)"
  defines "z \<equiv> sizes_of version prefix body rl"
  shows "(let (w, x') = step (write_head version prefix z \<lparr>w_bytes = [], w_room = unat (p_total z), w_failed = False\<rparr>)
          in (write_tail rl w, x')) =
    (\<lparr>w_bytes = wire_bytes version prefix body rl, w_room = 0, w_failed = False\<rparr>, x)"
proof -
  let ?head = "head_bytes version prefix z" and ?tail = "tail_bytes rl"
  let ?total = "length ?head + length body + length ?tail"
  let ?w = "\<lparr>w_bytes = [], w_room = ?total, w_failed = False\<rparr>"
  have order: "wire_bytes version prefix body rl = ?head @ body @ ?tail"
    unfolding z_def by (rule wire_bytes_parts_order)
  have "p_total z = of_nat (length (wire_bytes version prefix body rl))"
    by (simp only: z_def sizes_of_def frame_sizes.simps)
  then have "unat (p_total z) = length (wire_bytes version prefix body rl)"
    by (simp only: u32_reads_length [OF assms(1)])
  then have total: "unat (p_total z) = ?total" unfolding order by (simp only: length_append add.assoc)
  have head: "write_head version prefix z ?w = emit ?head ?w"
    by (rule writes_emit [OF writes_head]) simp
  have rows: "step (emit ?head ?w) = (emit body (emit ?head ?w), x)"
    by (rule body) simp_all
  have tail: "write_tail rl (emit body (emit ?head ?w)) = emit ?tail (emit body (emit ?head ?w))"
    by (rule writes_emit [OF writes_tail]) simp
  have "emit ?tail (emit body (emit ?head ?w)) = \<lparr>w_bytes = ?head @ body @ ?tail, w_room = 0, w_failed = False\<rparr>"
    by (simp add: emit_def)
  then show ?thesis
    unfolding total head rows Let_def prod.case tail order by simp
qed

end
