(* ===== verification/Wire_Pack.thy ===== *)
theory Wire_Pack
  imports Wire_Frame
begin

text \<open>
  The packer of the two-column certificate in \<^verbatim>\<open>src/core/sqlparser_wire_insert.c\<close>: the rows after
  the pending source edits (\<^verbatim>\<open>wi_effective_row\<close>), the pass that measures every nested message, the
  pass that writes them, and \<^verbatim>\<open>wi_pack\<close>.  The reference is \<open>wire_bytes\<close>, the canonical encoding of
  the whole statement; the writer is related to it by the predicate \<open>writes\<close>.
\<close>

section \<open>Rows after the source edits\<close>

text \<open>The bytes of a C string as \<^verbatim>\<open>uint8_t\<close> values.\<close>

definition bytes_of :: "string \<Rightarrow> byte list" where
  "bytes_of t = map of_char t"

text \<open>A byte of a replacement that needs no unescaping.\<close>

definition plain_char :: "char \<Rightarrow> bool" where
  "plain_char c = (let n = (of_char c :: nat) in
     \<not> (n < 0x20 \<or> n > 0x7e \<or> c = QUOTE \<or> c = BACKSLASH))"

text \<open>The loop of \<^verbatim>\<open>wi_edits\<close>; the interior of a replacement is the text between its quotes.\<close>

definition edit_interior :: "source_edit \<Rightarrow> string" where
  "edit_interior e = (case replacement e of None \<Rightarrow> [] | Some t \<Rightarrow> take (replacement_length e - 2) (drop 1 t))"

fun edits_loop :: "bool \<Rightarrow> nat \<Rightarrow> source_edit list \<Rightarrow> bool" where
  "edits_loop proven previous_end [] = True"
| "edits_loop proven previous_end (e # es) =
     (if source_start e < previous_end \<or> source_end e \<le> source_start e \<or> source_end e > INT32_MAX
      then False
      else (case replacement e of
              None \<Rightarrow> False
            | Some t \<Rightarrow>
                if replacement_length e < 2 \<or> replacement_length e > INT32_MAX \<or>
                   char_at t 0 \<noteq> QUOTE \<or> char_at t (replacement_length e - 1) \<noteq> QUOTE
                then False
                else if \<not> proven \<and> \<not> list_all plain_char (edit_interior e) then False
                else edits_loop proven (source_end e) es))"

definition wi_edits :: "source_edits \<Rightarrow> bool \<Rightarrow> bool" where
  "wi_edits edits proven =
     (if edit_items edits \<noteq> [] \<and> edit_capacity edits = 0 then False
      else edits_loop proven 0 (edit_items edits))"

definition in_int32 :: "int \<Rightarrow> bool" where
  "in_int32 i = (0 \<le> i \<and> i \<le> int INT32_MAX)"

text \<open>\<^verbatim>\<open>wi_effective_row\<close>: the cells, \<^verbatim>\<open>*edit_index\<close> and \<^verbatim>\<open>*delta\<close> after the row; \<open>shift_row\<close> is what it does to the cells it has read.\<close>

definition shift_row ::
  "source_edit list \<Rightarrow> nat \<Rightarrow> int \<Rightarrow> insert_cell \<times> insert_cell
     \<Rightarrow> ((insert_cell \<times> insert_cell) \<times> nat \<times> int) option"
where
  "shift_row edits index delta cs = do {
     let cell0 = fst cs;
     let cell1 = snd cs;
     let old = nat (c_location cell1);
     check (in_int32 (c_location cell0 + delta));
     let cell0 = cell0\<lparr>c_location := c_location cell0 + delta\<rparr>;
     check (in_int32 (c_location cell1 + delta));
     let cell1 = cell1\<lparr>c_location := c_location cell1 + delta\<rparr>;
     (cell1, index, delta) \<leftarrow>
       (if index < length edits then
          let e = edits ! index
          in if source_start e < old then None
             else if source_start e = old then do {
               check (old + length (c_text cell1) + 2 = source_end e);
               Some (cell1\<lparr>c_text := bytes_of (edit_interior e)\<rparr>, index + 1,
                     delta + int (replacement_length e) - (int (length (c_text cell1)) + 2)) }
             else Some (cell1, index, delta)
        else Some (cell1, index, delta));
     check (nat (c_location cell1) + length (c_text cell1) + 2 \<le> INT32_MAX);
     Some ((cell0, cell1), index, delta) }"

definition wi_effective_row ::
  "wire_insert \<Rightarrow> nat \<Rightarrow> source_edit list \<Rightarrow> nat \<Rightarrow> int \<Rightarrow> ((insert_cell \<times> insert_cell) \<times> nat \<times> int) option"
where
  "wi_effective_row ins row edits index delta = do {
     cs \<leftarrow> wire_insert_certified_row (Some ins) row;
     shift_row edits index delta cs }"

section \<open>Measuring\<close>

record wi_cell_sizes =
  z_value :: u32
  z_const :: u32
  z_node :: u32

definition wi_measure_cell :: "nat \<Rightarrow> insert_cell \<Rightarrow> wi_cell_sizes option" where
  "wi_measure_cell column c = do {
     check (0 \<le> c_location c);
     check (column \<noteq> 0 \<or> 0 \<le> c_integer c);
     val \<leftarrow> fit32
       (if column = 0 then wi_scalar_size WI_INTEGER_VALUE (of_int (c_integer c))
        else if c_text c = [] then 0
        else wi_envelope WI_STRING_VALUE (of_nat (length (c_text c))));
     const \<leftarrow> fit32 (wi_envelope (cell_kind column) val +
       wi_scalar_size WI_CONST_LOCATION (of_int (c_location c)));
     node \<leftarrow> fit32 (wi_envelope NODE_A_CONST const);
     Some \<lparr>z_value = val, z_const = const, z_node = node\<rparr> }"

text \<open>The first pass of \<^verbatim>\<open>wi_pack\<close> over the rows: the row sizes, \<^verbatim>\<open>edit_index\<close>, \<^verbatim>\<open>delta\<close> and \<^verbatim>\<open>n\<close>.\<close>

fun measure_rows ::
  "wire_insert \<Rightarrow> source_edit list \<Rightarrow> nat list \<Rightarrow> nat \<Rightarrow> int \<Rightarrow> nat \<Rightarrow> (u32 list \<times> nat \<times> int \<times> nat) option"
where
  "measure_rows ins edits [] index delta n = Some ([], index, delta, n)"
| "measure_rows ins edits (row # rows) index delta n = do {
     ((cell0, cell1), index, delta) \<leftarrow> wi_effective_row ins row edits index delta;
     sizes0 \<leftarrow> wi_measure_cell 0 cell0;
     sizes1 \<leftarrow> wi_measure_cell 1 cell1;
     row_size \<leftarrow> fit32 (wi_envelope WI_LIST_ITEMS (z_node sizes0) + wi_envelope WI_LIST_ITEMS (z_node sizes1));
     row_node_size \<leftarrow> fit32 (wi_envelope NODE_LIST row_size);
     let n = n + wi_envelope WI_SELECT_VALUES row_node_size;
     check (n \<le> UINT32_MAX);
     (sizes, index, delta, n) \<leftarrow> measure_rows ins edits rows index delta n;
     Some (row_size # sizes, index, delta, n) }"

text \<open>The first pass of \<^verbatim>\<open>wi_pack\<close>: the row sizes, the new statement length and the outer sizes.\<close>

definition pack_measure :: "wire_insert \<Rightarrow> source_edit list \<Rightarrow> (u32 list \<times> u32 \<times> frame_sizes) option" where
  "pack_measure ins edits = do {
     (row_sizes, index, delta, n) \<leftarrow> measure_rows ins edits [0..<i_row_count ins] 0 0 0;
     check (index = length edits);
     raw_length \<leftarrow> shifted_raw_length (i_raw_length ins) delta;
     z \<leftarrow> frame_measure (i_version ins) (unat (i_prefix_length ins)) n raw_length;
     Some (row_sizes, raw_length, z) }"

section \<open>Writing\<close>

definition write_value :: "nat \<Rightarrow> insert_cell \<Rightarrow> wi_writer \<Rightarrow> wi_writer" where
  "write_value column c w =
     (if column = 0 then wi_write_scalar WI_INTEGER_VALUE (of_int (c_integer c)) w
      else if c_text c \<noteq> []
      then wi_write_bytes (c_text c) (wi_write_header WI_STRING_VALUE (of_nat (length (c_text c))) w)
      else w)"

definition wi_write_cell :: "nat \<Rightarrow> insert_cell \<Rightarrow> wi_writer \<Rightarrow> wi_writer" where
  "wi_write_cell column c w =
     (case wi_measure_cell column c of
        None \<Rightarrow> w\<lparr>w_failed := True\<rparr>
      | Some sizes \<Rightarrow>
          let w = wi_write_header WI_LIST_ITEMS (z_node sizes) w;
              w = wi_write_header NODE_A_CONST (z_const sizes) w;
              w = wi_write_header (cell_kind column) (z_value sizes) w;
              w = write_value column c w
          in wi_write_scalar WI_CONST_LOCATION (of_int (c_location c)) w)"

text \<open>The second pass over the rows: the writer and \<^verbatim>\<open>edit_index\<close> when the loop ends or breaks.\<close>

fun write_rows ::
  "wire_insert \<Rightarrow> source_edit list \<Rightarrow> nat list \<Rightarrow> u32 list \<Rightarrow> nat \<Rightarrow> int \<Rightarrow> wi_writer \<Rightarrow> wi_writer \<times> nat"
where
  "write_rows ins edits (row # rows) (row_size # sizes) index delta w =
     (case wi_effective_row ins row edits index delta of
        None \<Rightarrow> (w\<lparr>w_failed := True\<rparr>, index)
      | Some ((cell0, cell1), index, delta) \<Rightarrow>
          let w = wi_write_header WI_SELECT_VALUES (of_nat (wi_envelope NODE_LIST row_size)) w;
              w = wi_write_header NODE_LIST row_size w;
              w = wi_write_cell 0 cell0 w;
              w = wi_write_cell 1 cell1 w
          in write_rows ins edits rows sizes index delta w)"
| "write_rows ins edits rows sizes index delta w = (w, index)"

text \<open>\<^verbatim>\<open>insert->wire + insert->prefix_offset\<close>, \<^verbatim>\<open>insert->prefix_length\<close> bytes.\<close>

definition wire_prefix :: "wire_insert \<Rightarrow> byte list" where
  "wire_prefix ins =
     take (unat (i_prefix_length ins)) (drop (unat (i_prefix_offset ins)) (the (i_wire ins)))"

definition pack_write ::
  "wire_insert \<Rightarrow> source_edit list \<Rightarrow> u32 list \<Rightarrow> u32 \<Rightarrow> frame_sizes \<Rightarrow> wi_writer \<times> nat" where
  "pack_write ins edits row_sizes raw_length z =
     (let w = write_head (i_version ins) (wire_prefix ins) z
                \<lparr>w_bytes = [], w_room = unat (p_total z), w_failed = False\<rparr>;
          (w, index) = write_rows ins edits [0..<i_row_count ins] row_sizes 0 0 w
      in (write_tail raw_length w, index))"

definition pack_guard :: "wire_insert \<Rightarrow> source_edits \<Rightarrow> bool \<Rightarrow> bool" where
  "pack_guard ins edits proven =
     (case (i_wire ins, i_row_offsets ins) of
        (Some wire, Some _) \<Rightarrow>
          \<not> (length wire > UINT32_MAX \<or> length wire > PTRDIFF_MAX \<or>
             i_row_count ins < 32 \<or> i_row_count ins > UINT32_MAX \<or> i_row_count ins > SIZE_MAX div 4 \<or>
             unat (i_version ins) > INT32_MAX \<or> unat (i_raw_length ins) > INT32_MAX \<or>
             unat (i_prefix_offset ins) > length wire \<or>
             unat (i_prefix_length ins) > length wire - unat (i_prefix_offset ins) \<or>
             \<not> wi_edits edits proven)
      | _ \<Rightarrow> False)"

text \<open>
  \<^verbatim>\<open>wi_pack\<close>: the status of a failed call or the bytes of \<^verbatim>\<open>out\<close>.  Allocation 0 is the table of row
  sizes, allocation 1 the output.
\<close>

definition wi_pack ::
  "allocator \<Rightarrow> wire_insert option \<Rightarrow> source_edits option \<Rightarrow> bool \<Rightarrow> bool \<Rightarrow> status + byte list"
where
  "wi_pack alloc ins edits out_present proven =
     (if \<not> out_present then Inl INVALID_ARGUMENT
      else case (ins, edits) of
        (Some i, Some es) \<Rightarrow>
          if \<not> pack_guard i es proven then Inl UNSUPPORTED
          else if \<not> alloc 0 (i_row_count i * 4) then Inl UNSUPPORTED
          else (case pack_measure i (edit_items es) of
                  None \<Rightarrow> Inl UNSUPPORTED
                | Some (row_sizes, raw_length, z) \<Rightarrow>
                    if \<not> alloc 1 (unat (p_total z)) then Inl NO_MEMORY
                    else let (w, index) = pack_write i (edit_items es) row_sizes raw_length z
                      in if w_failed w \<or> w_room w \<noteq> 0 \<or> index \<noteq> length (edit_items es)
                         then Inl INTERNAL_ERROR else Inr (w_bytes w))
      | _ \<Rightarrow> Inl INVALID_ARGUMENT)"

definition wire_insert_pack ::
  "allocator \<Rightarrow> wire_insert option \<Rightarrow> source_edits option \<Rightarrow> bool \<Rightarrow> status + byte list" where
  "wire_insert_pack alloc ins edits out_present = wi_pack alloc ins edits out_present False"

definition wire_insert_pack_proven_edits ::
  "allocator \<Rightarrow> wire_insert option \<Rightarrow> source_edits option \<Rightarrow> bool \<Rightarrow> status + byte list" where
  "wire_insert_pack_proven_edits alloc ins edits out_present = wi_pack alloc ins edits out_present True"

section \<open>The rows after the edits\<close>

text \<open>The rows of a certificate after the edits, one after the other.\<close>

fun effective_rows ::
  "wire_insert \<Rightarrow> source_edit list \<Rightarrow> nat list \<Rightarrow> nat \<Rightarrow> int
     \<Rightarrow> ((insert_cell \<times> insert_cell) list \<times> nat \<times> int) option"
where
  "effective_rows ins edits [] index delta = Some ([], index, delta)"
| "effective_rows ins edits (row # rows) index delta = do {
     (cells, index, delta) \<leftarrow> wi_effective_row ins row edits index delta;
     (rest, index, delta) \<leftarrow> effective_rows ins edits rows index delta;
     Some (cells # rest, index, delta) }"

section \<open>The measuring pass computes the lengths of the reference encoding\<close>

text \<open>The cells the two passes handle.\<close>

definition packable :: "nat \<Rightarrow> insert_cell \<Rightarrow> bool" where
  "packable column c \<longleftrightarrow> in_int32 (c_location c) \<and> (column = 0 \<longrightarrow> in_int32 (c_integer c)) \<and>
     length (c_text c) < 2 ^ 32"

lemma measure_cell_spec:
  assumes "packable column c"
  shows "wi_measure_cell column c =
    (if length (node_bytes column c) < 2 ^ 32
     then Some \<lparr>z_value = of_nat (length (value_bytes column c)), z_const = of_nat (length (const_bytes column c)),
                z_node = of_nat (length (node_bytes column c))\<rparr>
     else None)"
proof -
  let ?val = "length (value_bytes column c)" and ?const = "length (const_bytes column c)"
    and ?node = "length (node_bytes column c)"
  have val: "(if column = 0 then wi_scalar_size WI_INTEGER_VALUE (of_int (c_integer c))
        else if c_text c = [] then 0
        else wi_envelope WI_STRING_VALUE (of_nat (length (c_text c)))) = ?val"
    using assms by (simp add: value_bytes_def wi_scalar_size_spec wi_envelope_spec packable_def)
  have const: "wi_envelope (cell_kind column) (of_nat ?val) +
       wi_scalar_size WI_CONST_LOCATION (of_int (c_location c)) = ?const" if "?val < 2 ^ 32"
    using that by (simp add: const_bytes_def wi_scalar_size_spec wi_envelope_spec)
  have node: "wi_envelope NODE_A_CONST (of_nat ?const) = ?node" if "?const < 2 ^ 32"
    using that by (simp add: node_bytes_def wi_envelope_spec)
  have mono: "?const \<le> ?node" "?val \<le> ?const"
    by (simp_all add: node_bytes_def const_bytes_def message_bytes_def)
  have guards: "check (0 \<le> c_location c) = Some ()" "check (column \<noteq> 0 \<or> 0 \<le> c_integer c) = Some ()"
    using assms by (auto simp: packable_def in_int32_def)
  show ?thesis
  proof (cases "?const < 2 ^ 32")
    case True
    with mono have "?val < 2 ^ 32" by linarith
    with True show ?thesis
      unfolding wi_measure_cell_def val guards by (simp add: fit32_eq const node)
  next
    case False
    with mono have "\<not> ?node < 2 ^ 32" by linarith
    with False show ?thesis
      unfolding wi_measure_cell_def val guards by (cases "?val < 2 ^ 32") (simp_all add: fit32_eq const)
  qed
qed

lemma certified_value_shape:
  assumes "certified_value column len p = Some (c, p')"
  shows "column = 0 \<longrightarrow> in_int32 (c_integer c) \<and> c_text c = []"
proof (cases "len = 0 \<or> column \<noteq> 0")
  case True
  then show ?thesis using assms by (auto simp: certified_value_def in_int32_def split: if_splits)
next
  case False
  then obtain val :: u32 where "unat val \<le> INT32_MAX" "c = \<lparr>c_text = [], c_integer = sint val, c_location = 0\<rparr>"
    using assms unfolding certified_value_def bind_eq_Some_conv by (auto simp: bind_eq_Some_conv)
  then show ?thesis using sint_bounds [of val] by (simp add: in_int32_def)
qed

lemma certified_cell_shape:
  assumes "wi_certified_cell 0 p = Some (c, p')"
  shows "in_int32 (c_integer c)" "c_text c = []"
  using assms by (auto simp: wi_certified_cell_def bind_eq_Some_conv dest: certified_value_shape)

lemma effective_row_packable:
  assumes "wi_effective_row ins row edits index delta = Some (cs, index', delta')"
  shows "packable 0 (fst cs)" "packable 1 (snd cs)"
proof -
  obtain cell0 cell1 where row: "wire_insert_certified_row (Some ins) row = Some (cell0, cell1)"
    and loc0: "in_int32 (c_location cell0 + delta)" and cs0: "fst cs = cell0\<lparr>c_location := c_location cell0 + delta\<rparr>"
    and loc1: "in_int32 (c_location (snd cs))"
    and fits: "nat (c_location (snd cs)) + length (c_text (snd cs)) + 2 \<le> INT32_MAX"
    using assms unfolding wi_effective_row_def shift_row_def Let_def
    by (auto simp: bind_eq_Some_conv split: if_splits)
  from row have "in_int32 (c_integer cell0)" "c_text cell0 = []"
    by (auto simp: wire_insert_certified_row_def bind_eq_Some_conv dest: certified_cell_shape)
  then show "packable 0 (fst cs)" using loc0 by (simp add: packable_def cs0)
  show "packable 1 (snd cs)" using loc1 fits by (simp add: packable_def INT32_MAX_def)
qed

text \<open>One row of the first pass.\<close>

definition measured_row :: "insert_cell \<times> insert_cell \<Rightarrow> (u32 \<times> nat) option" where
  "measured_row cs = do {
     sizes0 \<leftarrow> wi_measure_cell 0 (fst cs);
     sizes1 \<leftarrow> wi_measure_cell 1 (snd cs);
     row_size \<leftarrow> fit32 (wi_envelope WI_LIST_ITEMS (z_node sizes0) + wi_envelope WI_LIST_ITEMS (z_node sizes1));
     row_node_size \<leftarrow> fit32 (wi_envelope NODE_LIST row_size);
     Some (row_size, wi_envelope WI_SELECT_VALUES row_node_size) }"

lemma measured_row_spec:
  assumes "packable 0 (fst cs)" "packable 1 (snd cs)"
  shows "measured_row cs =
    (if length (message_bytes NODE_LIST (list_bytes cs)) < 2 ^ 32
     then Some (of_nat (length (list_bytes cs)), length (row_bytes cs)) else None)"
proof -
  let ?list = "length (list_bytes cs)" and ?node = "length (message_bytes NODE_LIST (list_bytes cs))"
    and ?n0 = "length (node_bytes 0 (fst cs))" and ?n1 = "length (node_bytes 1 (snd cs))"
  have env: "wi_envelope WI_LIST_ITEMS (of_nat (length (node_bytes column c))) = length (cell_bytes column c)"
    if "length (node_bytes column c) < 2 ^ 32" for column c
    using that by (simp add: cell_bytes_def wi_envelope_spec)
  have mono: "?list \<le> ?node" "?n0 \<le> ?list" "?n1 \<le> ?list"
    by (simp_all add: message_bytes_def [of NODE_LIST] list_bytes_def cell_bytes_def message_bytes_def [of WI_LIST_ITEMS])
  have list: "wi_envelope NODE_LIST (of_nat ?list) = ?node" if "?list < 2 ^ 32"
    using that by (rule wi_envelope_spec)
  have row: "wi_envelope WI_SELECT_VALUES (of_nat ?node) = length (row_bytes cs)" if "?node < 2 ^ 32"
    using that by (simp add: wi_envelope_spec row_bytes_def)
  have sum: "length (cell_bytes 0 (fst cs)) + length (cell_bytes 1 (snd cs)) = ?list"
    by (simp add: list_bytes_def)
  note measures = measure_cell_spec [OF assms(1)] measure_cell_spec [OF assms(2)]
  have whole: "measured_row cs = (if ?list < 2 ^ 32 then do {
      row_node_size \<leftarrow> fit32 ?node; Some (of_nat ?list, wi_envelope WI_SELECT_VALUES row_node_size) } else None)"
    if "?n0 < 2 ^ 32" "?n1 < 2 ^ 32"
    using that unfolding measured_row_def measures
    by (simp add: env sum fit32_eq [of ?list] list del: of_nat_add One_nat_def)
  show ?thesis
  proof (cases "?n0 < 2 ^ 32 \<and> ?n1 < 2 ^ 32")
    case True
    with mono show ?thesis by (simp add: whole fit32_eq row)
  next
    case False
    then have "measured_row cs = None" "\<not> ?node < 2 ^ 32"
      using mono unfolding measured_row_def measures by auto
    then show ?thesis by simp
  qed
qed

lemma measure_rows_Cons:
  "measure_rows ins edits (row # rows) index delta n = do {
     (cs, index, delta) \<leftarrow> wi_effective_row ins row edits index delta;
     (row_size, k) \<leftarrow> measured_row cs;
     check (n + k \<le> UINT32_MAX);
     (sizes, index, delta, n) \<leftarrow> measure_rows ins edits rows index delta (n + k);
     Some (row_size # sizes, index, delta, n) }"
  by (cases "wi_effective_row ins row edits index delta") (auto simp: measured_row_def Let_def)

abbreviation rows_bytes :: "(insert_cell \<times> insert_cell) list \<Rightarrow> byte list" where
  "rows_bytes rows \<equiv> concat (map row_bytes rows)"

definition list_sizes :: "(insert_cell \<times> insert_cell) list \<Rightarrow> u32 list" where
  "list_sizes rows = map (\<lambda>cs. of_nat (length (list_bytes cs))) rows"

lemma row_bytes_fit: "length (row_bytes cs) < n \<Longrightarrow> length (message_bytes NODE_LIST (list_bytes cs)) < n"
  by (simp add: row_bytes_def message_bytes_def [of WI_SELECT_VALUES])

lemma measure_rows_spec:
  assumes "n < 2 ^ 32"
  shows "measure_rows ins edits rows index delta n =
    (case effective_rows ins edits rows index delta of
       None \<Rightarrow> None
     | Some (rs, index', delta') \<Rightarrow>
         if n + length (rows_bytes rs) < 2 ^ 32
         then Some (list_sizes rs, index', delta', n + length (rows_bytes rs)) else None)"
  using assms
proof (induction rows arbitrary: index delta n)
  case Nil
  then show ?case by (simp add: list_sizes_def)
next
  case (Cons row rows)
  show ?case
  proof (cases "wi_effective_row ins row edits index delta")
    case None
    then show ?thesis unfolding measure_rows_Cons by simp
  next
    case (Some t)
    obtain cs index1 delta1 where t: "t = (cs, index1, delta1)" by (cases t)
    note eff = Some [unfolded t]
    note measured = measured_row_spec [OF effective_row_packable [OF eff]]
    show ?thesis
    proof (cases "n + length (row_bytes cs) < 2 ^ 32")
      case True
      then have "measured_row cs = Some (of_nat (length (list_bytes cs)), length (row_bytes cs))"
        using row_bytes_fit [of cs "2 ^ 32"] by (simp add: measured)
      then show ?thesis
        using True Cons.IH [OF True, of index1 delta1]
        unfolding measure_rows_Cons by (auto simp: eff UINT32_MAX_def list_sizes_def add.assoc split: option.splits)
    next
      case False
      then have "measure_rows ins edits (row # rows) index delta n = None"
        unfolding measure_rows_Cons by (auto simp: eff measured UINT32_MAX_def check_def)
      then show ?thesis
        using False by (auto simp: eff bind_eq_Some_conv simp del: measure_rows.simps split: option.splits)
    qed
  qed
qed

section \<open>The writing pass writes the reference encoding\<close>

lemma writes_cell:
  assumes "packable column c" "length (node_bytes column c) < 2 ^ 32"
  shows "writes (wi_write_cell column c) (cell_bytes column c)"
proof -
  have val: "writes (write_value column c) (value_bytes column c)"
    using writes_scalar [of WI_INTEGER_VALUE "of_int (c_integer c)"]
      writes_message [OF writes_bytes [of "c_text c"], of WI_STRING_VALUE]
    by (auto simp: value_bytes_def write_value_def writes_def)
  have const: "writes (\<lambda>w. wi_write_scalar WI_CONST_LOCATION (of_int (c_location c))
      (write_value column c (wi_write_header (cell_kind column) (of_nat (length (value_bytes column c))) w)))
      (const_bytes column c)"
    unfolding const_bytes_def by (rule writes_then [OF writes_message [OF val] writes_scalar])
  note cell = writes_message [OF writes_message [OF const, of NODE_A_CONST], of WI_LIST_ITEMS,
      folded node_bytes_def cell_bytes_def]
  show ?thesis
    using cell assms(2) unfolding writes_def wi_write_cell_def measure_cell_spec [OF assms(1)]
    by (simp add: Let_def)
qed

lemma writes_row:
  assumes "packable 0 (fst cs)" "packable 1 (snd cs)" "length (row_bytes cs) < 2 ^ 32"
  shows "writes (\<lambda>w. wi_write_cell 1 (snd cs) (wi_write_cell 0 (fst cs)
      (wi_write_header NODE_LIST (of_nat (length (list_bytes cs)))
        (wi_write_header WI_SELECT_VALUES
          (of_nat (wi_envelope NODE_LIST (of_nat (length (list_bytes cs))))) w)))) (row_bytes cs)"
proof -
  have node: "length (message_bytes NODE_LIST (list_bytes cs)) < 2 ^ 32"
    using assms(3) by (rule row_bytes_fit)
  then have list: "length (list_bytes cs) < 2 ^ 32" by (simp add: message_bytes_def)
  then have nodes: "length (node_bytes 0 (fst cs)) < 2 ^ 32" "length (node_bytes 1 (snd cs)) < 2 ^ 32"
    by (simp_all add: list_bytes_def cell_bytes_def message_bytes_def [of WI_LIST_ITEMS])
  have "writes (\<lambda>w. wi_write_cell 1 (snd cs) (wi_write_cell 0 (fst cs) w)) (list_bytes cs)"
    unfolding list_bytes_def by (intro writes_then writes_cell assms nodes)
  from writes_message [OF writes_message [OF this, of NODE_LIST], of WI_SELECT_VALUES]
  show ?thesis by (simp add: row_bytes_def wi_envelope_spec [OF list])
qed

lemma write_rows_spec:
  assumes "effective_rows ins edits rows index delta = Some (rs, index', delta')"
    "length (rows_bytes rs) < 2 ^ 32" "length (rows_bytes rs) \<le> w_room w"
  shows "write_rows ins edits rows (list_sizes rs) index delta w = (emit (rows_bytes rs) w, index')"
  using assms
proof (induction rows arbitrary: index delta rs w)
  case Nil
  then show ?case by (simp add: list_sizes_def)
next
  case (Cons row rows)
  then obtain cs index1 delta1 rest where eff: "wi_effective_row ins row edits index delta = Some (cs, index1, delta1)"
    and more: "effective_rows ins edits rows index1 delta1 = Some (rest, index', delta')" and rs: "rs = cs # rest"
    by (auto simp: bind_eq_Some_conv)
  note row = writes_emit [OF writes_row [OF effective_row_packable [OF eff]]]
  obtain cell0 cell1 where cs: "cs = (cell0, cell1)" by (cases cs)
  have fits: "length (row_bytes cs) < 2 ^ 32" "length (row_bytes cs) \<le> w_room w"
    using Cons.prems by (simp_all add: rs)
  have "write_rows ins edits (row # rows) (list_sizes rs) index delta w =
      write_rows ins edits rows (list_sizes rest) index1 delta1 (emit (row_bytes cs) w)"
    using row [OF fits] eff by (simp add: rs list_sizes_def cs Let_def del: One_nat_def)
  also have "... = (emit (rows_bytes rest) (emit (row_bytes cs) w), index')"
    using Cons.prems by (intro Cons.IH [OF more]) (simp_all add: rs)
  finally show ?case by (simp add: rs)
qed

section \<open>The packer returns the reference encoding\<close>

text \<open>
  The specification of the packer: the bytes of the statement with the rows after the edits, when
  every edit meets a cell and the result fits 32 bits.
\<close>

definition packed_wire :: "wire_insert \<Rightarrow> source_edit list \<Rightarrow> byte list option" where
  "packed_wire ins edits = do {
     (rows, index, delta) \<leftarrow> effective_rows ins edits [0..<i_row_count ins] 0 0;
     check (index = length edits);
     raw_length \<leftarrow> shifted_raw_length (i_raw_length ins) delta;
     let bytes = wire_bytes (i_version ins) (wire_prefix ins) (rows_bytes rows) raw_length;
     check (length bytes < 2 ^ 32);
     Some bytes }"

lemma pack_measure_spec:
  assumes "length (wire_prefix ins) = unat (i_prefix_length ins)"
  shows "pack_measure ins edits =
    (case effective_rows ins edits [0..<i_row_count ins] 0 0 of
       None \<Rightarrow> None
     | Some (rows, index, delta) \<Rightarrow>
         if index \<noteq> length edits then None
         else (case shifted_raw_length (i_raw_length ins) delta of
                 None \<Rightarrow> None
               | Some rl \<Rightarrow>
                   if length (wire_bytes (i_version ins) (wire_prefix ins) (rows_bytes rows) rl) < 2 ^ 32
                   then Some (list_sizes rows, rl, sizes_of (i_version ins) (wire_prefix ins) (rows_bytes rows) rl)
                   else None))"
proof (cases "effective_rows ins edits [0..<i_row_count ins] 0 0")
  case None
  then show ?thesis by (simp add: pack_measure_def measure_rows_spec)
next
  case (Some t)
  obtain rows index delta where t: "t = (rows, index, delta)" by (cases t)
  note frame = frame_measure_spec [of "i_version ins" "wire_prefix ins" "rows_bytes rows", unfolded assms]
  show ?thesis
  proof (cases "length (rows_bytes rows) < 2 ^ 32")
    case True
    then show ?thesis
      unfolding pack_measure_def by (simp add: measure_rows_spec Some t frame check_def split: option.split)
  next
    case False
    then have "\<not> length (wire_bytes (i_version ins) (wire_prefix ins) (rows_bytes rows) rl) < 2 ^ 32" for rl
      using wire_bytes_parts(6) by blast
    with False show ?thesis
      unfolding pack_measure_def by (simp add: measure_rows_spec Some t split: option.split)
  qed
qed

lemma pack_write_spec:
  assumes eff: "effective_rows ins edits [0..<i_row_count ins] 0 0 = Some (rows, index, delta)"
    and fits: "length (wire_bytes (i_version ins) (wire_prefix ins) (rows_bytes rows) rl) < 2 ^ 32"
  shows "pack_write ins edits (list_sizes rows) rl (sizes_of (i_version ins) (wire_prefix ins) (rows_bytes rows) rl) =
    (\<lparr>w_bytes = wire_bytes (i_version ins) (wire_prefix ins) (rows_bytes rows) rl, w_room = 0, w_failed = False\<rparr>, index)"
  unfolding pack_write_def
  using frame_filled [OF fits, of "write_rows ins edits [0..<i_row_count ins] (list_sizes rows) 0 0" index]
    write_rows_spec [OF eff wire_bytes_parts(6) [OF fits]]
  by (simp add: Let_def)

lemma pack_measure_packed:
  assumes "pack_guard ins es proven"
  shows "pack_measure ins edits = None \<and> packed_wire ins edits = None \<or>
    (\<exists>rows delta rl. effective_rows ins edits [0..<i_row_count ins] 0 0 = Some (rows, length edits, delta) \<and>
       pack_measure ins edits =
         Some (list_sizes rows, rl, sizes_of (i_version ins) (wire_prefix ins) (rows_bytes rows) rl) \<and>
       packed_wire ins edits = Some (wire_bytes (i_version ins) (wire_prefix ins) (rows_bytes rows) rl) \<and>
       length (wire_bytes (i_version ins) (wire_prefix ins) (rows_bytes rows) rl) < 2 ^ 32)"
proof -
  have prefix: "length (wire_prefix ins) = unat (i_prefix_length ins)"
    using assms by (auto simp: pack_guard_def wire_prefix_def split: option.splits)
  show ?thesis
    unfolding pack_measure_spec [OF prefix] packed_wire_def
    by (auto simp: check_def Let_def split: option.splits)
qed

lemma pack_spec:
  "wi_pack alloc (Some ins) (Some es) True proven =
     (if \<not> pack_guard ins es proven \<or> \<not> alloc 0 (i_row_count ins * 4) then Inl UNSUPPORTED
      else case packed_wire ins (edit_items es) of
        None \<Rightarrow> Inl UNSUPPORTED
      | Some bytes \<Rightarrow> if alloc 1 (length bytes) then Inr bytes else Inl NO_MEMORY)"
proof (cases "pack_guard ins es proven")
  case False
  then show ?thesis by (simp add: wi_pack_def)
next
  case True
  from pack_measure_packed [OF this, of "edit_items es"] show ?thesis
  proof (elim disjE exE conjE)
    assume "pack_measure ins (edit_items es) = None" "packed_wire ins (edit_items es) = None"
    then show ?thesis using True by (simp add: wi_pack_def)
  next
    fix rows delta rl
    let ?wire = "wire_bytes (i_version ins) (wire_prefix ins) (rows_bytes rows) rl"
      and ?z = "sizes_of (i_version ins) (wire_prefix ins) (rows_bytes rows) rl"
    assume eff: "effective_rows ins (edit_items es) [0..<i_row_count ins] 0 0 = Some (rows, length (edit_items es), delta)"
      and sizes: "pack_measure ins (edit_items es) = Some (list_sizes rows, rl, ?z)"
      and packed: "packed_wire ins (edit_items es) = Some ?wire"
      and fits: "length ?wire < 2 ^ 32"
    have total: "unat (p_total ?z) = length ?wire"
      using u32_reads_length [OF fits] by (simp only: sizes_of_def frame_sizes.simps)
    show ?thesis
      using True unfolding wi_pack_def by (simp add: sizes packed total pack_write_spec [OF eff fits])
  qed
qed

text \<open>
  C6.  The packer of an INSERT certificate, on every descriptor, every list of edits and every
  pattern of failing allocations.  Past its guards it returns the canonical encoding of the
  statement with the rows after the edits, whenever every edit meets a string cell and the result
  fits 32 bits, and it is unsupported otherwise; the two passes agree on every length, so that the
  internal error (a writer that is full, or not filled, or an edit left over) never happens.
\<close>

theorem pack_is_packed_wire:
  "wi_pack alloc (Some ins) (Some es) True proven =
     (if pack_guard ins es proven \<and> alloc 0 (i_row_count ins * 4)
      then (case packed_wire ins (edit_items es) of
              None \<Rightarrow> Inl UNSUPPORTED
            | Some bytes \<Rightarrow> if alloc 1 (length bytes) then Inr bytes else Inl NO_MEMORY)
      else Inl UNSUPPORTED)"
  by (simp add: pack_spec)

end
