(* ===== verification/Scalar_Pack.thy ===== *)
theory Scalar_Pack
  imports Scalar_Insert Wire_Pack
begin

text \<open>
  The packer of the scalar INSERT certificate in \<^verbatim>\<open>src/core/sqlparser_wire_insert.c\<close> (\<^verbatim>\<open>wsi_pack\<close>).
  Like \<^verbatim>\<open>wi_pack\<close> it measures in one pass and writes in a second one, but the first pass may keep a
  plan of all measured cells; the second pass then neither reads the wire again nor checks the room
  of a cell byte by byte.  The plan is optional: it is dropped when it would be too large or cannot
  be allocated.  The lemmas show that it makes no difference.
\<close>

section \<open>Cells after the source edits\<close>

definition wsi_effective_cell ::
  "source_edit list \<Rightarrow> nat \<Rightarrow> int \<Rightarrow> scalar_cell \<Rightarrow> (scalar_cell \<times> nat \<times> int) option"
where
  "wsi_effective_cell edits index delta cell = do {
     let old = nat (s_location cell);
     check (in_int32 (s_location cell + delta));
     let cell = cell\<lparr>s_location := s_location cell + delta\<rparr>;
     (cell, index, delta) \<leftarrow>
       (if index < length edits then
          let e = edits ! index
          in if source_start e < old then None
             else if source_start e = old then do {
               check (s_kind cell = SCALAR_STRING \<and> old + s_length cell + 2 = source_end e);
               Some (cell\<lparr>s_text := bytes_of (edit_interior e), s_length := replacement_length e - 2\<rparr>, index + 1,
                     delta + int (replacement_length e) - (int (s_length cell) + 2)) }
             else Some (cell, index, delta)
        else Some (cell, index, delta));
     check (s_kind cell \<noteq> SCALAR_STRING \<or> nat (s_location cell) + s_length cell + 2 \<le> INT32_MAX);
     Some (cell, index, delta) }"

section \<open>Measuring and writing a cell\<close>

definition wsi_measure_cell :: "scalar_cell \<Rightarrow> wi_cell_sizes option" where
  "wsi_measure_cell c = do {
     check (0 \<le> s_location c);
     (if s_kind c = SCALAR_VALUE_FUNCTION then do {
        _ \<leftarrow> wsi_function_word (of_int (s_integer c));
        let const = of_nat (wi_scalar_size 2 (of_int (s_integer c)) + length wsi_typmod_default +
          wi_scalar_size 5 (of_int (s_location c)));
        node \<leftarrow> fit32 (wi_envelope NODE_SQLVALUE_FUNCTION const);
        Some \<lparr>z_value = 0, z_const = const, z_node = node\<rparr> }
      else do {
        n \<leftarrow> (if s_kind c = SCALAR_INTEGER then do {
                check (0 \<le> s_integer c);
                Some (wi_scalar_size 1 (of_int (s_integer c))) }
              else Some (if s_length c = 0 then 0 else wi_envelope 1 (of_nat (s_length c))));
        val \<leftarrow> fit32 n;
        const \<leftarrow> fit32 (wi_envelope (wsi_constant_kind (s_kind c)) val +
          wi_scalar_size WI_CONST_LOCATION (of_int (s_location c)));
        node \<leftarrow> fit32 (wi_envelope NODE_A_CONST const);
        Some \<lparr>z_value = val, z_const = const, z_node = node\<rparr> }) }"

definition wsi_write_value :: "scalar_cell \<Rightarrow> wi_writer \<Rightarrow> wi_writer" where
  "wsi_write_value c w =
     (if s_kind c = SCALAR_INTEGER then wi_write_scalar 1 (of_int (s_integer c)) w
      else if s_length c \<noteq> 0 then wi_write_bytes (s_text c) (wi_write_header 1 (of_nat (s_length c)) w)
      else w)"

definition wsi_write_cell :: "scalar_cell \<Rightarrow> wi_cell_sizes \<Rightarrow> wi_writer \<Rightarrow> wi_writer" where
  "wsi_write_cell c z w =
     (let w = wi_write_header WI_LIST_ITEMS (z_node z) w
      in if s_kind c = SCALAR_VALUE_FUNCTION
         then let w = wi_write_header NODE_SQLVALUE_FUNCTION (z_const z) w;
                  w = wi_write_scalar 2 (of_int (s_integer c)) w;
                  w = wi_write_bytes wsi_typmod_default w
              in wi_write_scalar 5 (of_int (s_location c)) w
         else let w = wi_write_header NODE_A_CONST (z_const z) w;
                  w = wi_write_header (wsi_constant_kind (s_kind c)) (z_value z) w;
                  w = wsi_write_value c w
              in wi_write_scalar WI_CONST_LOCATION (of_int (s_location c)) w)"

section \<open>The plan\<close>

text \<open>The union of a planned cell: which member is set depends on the kind.\<close>

datatype plan_payload = PL_LENGTH u32 | PL_INTEGER int

record wsi_planned_cell =
  pl_text :: "byte list"
  pl_payload :: plan_payload
  pl_location :: int
  pl_kind :: scalar_kind
  pl_sizes :: wi_cell_sizes

definition integer_payload :: "scalar_kind \<Rightarrow> bool" where
  "integer_payload kind = (kind = SCALAR_INTEGER \<or> kind = SCALAR_VALUE_FUNCTION)"

definition wsi_plan_cell :: "scalar_cell \<Rightarrow> wi_cell_sizes \<Rightarrow> wsi_planned_cell" where
  "wsi_plan_cell c z =
     \<lparr>pl_text = s_text c,
      pl_payload = (if integer_payload (s_kind c) then PL_INTEGER (s_integer c) else PL_LENGTH (of_nat (s_length c))),
      pl_location = s_location c, pl_kind = s_kind c, pl_sizes = z\<rparr>"

text \<open>Reading a member of the union; both have 32 bits.\<close>

definition payload_integer :: "wsi_planned_cell \<Rightarrow> int" where
  "payload_integer entry = (case pl_payload entry of PL_INTEGER i \<Rightarrow> i | PL_LENGTH n \<Rightarrow> sint n)"

definition payload_length :: "wsi_planned_cell \<Rightarrow> u32" where
  "payload_length entry = (case pl_payload entry of PL_LENGTH n \<Rightarrow> n | PL_INTEGER i \<Rightarrow> of_int i)"

text \<open>The unchecked emitters: \<open>out\<close> are the bytes from \<^verbatim>\<open>start\<close> to \<^verbatim>\<open>next\<close>.\<close>

function wsi_emit_varint :: "byte list \<Rightarrow> u32 \<Rightarrow> byte list" where
  "wsi_emit_varint out val =
     (let out' = out @ [low_byte val]
      in if drop_bit 7 val \<noteq> 0 then wsi_emit_varint out' (drop_bit 7 val) else out')"
  by pat_completeness auto
termination
  by (relation "measure (\<lambda>(_, val). unat val)") (auto simp: drop_bit_7_less)

declare wsi_emit_varint.simps [simp del]

definition wsi_emit_header :: "byte list \<Rightarrow> u32 \<Rightarrow> u32 \<Rightarrow> byte list" where
  "wsi_emit_header out tag payload = wsi_emit_varint (wsi_emit_varint out (wi_tag tag 2)) payload"

definition wsi_emit_scalar :: "byte list \<Rightarrow> u32 \<Rightarrow> u32 \<Rightarrow> byte list" where
  "wsi_emit_scalar out tag val =
     (if val = 0 then out else wsi_emit_varint (wsi_emit_varint out (push_bit 3 tag)) val)"

definition planned_body :: "wsi_planned_cell \<Rightarrow> byte list \<Rightarrow> byte list" where
  "planned_body entry out =
     (if pl_kind entry = SCALAR_VALUE_FUNCTION
      then let out = wsi_emit_header out NODE_SQLVALUE_FUNCTION (z_const (pl_sizes entry));
               out = wsi_emit_scalar out 2 (of_int (payload_integer entry));
               out = out @ wsi_typmod_default
           in wsi_emit_scalar out 5 (of_int (pl_location entry))
      else let out = wsi_emit_header out NODE_A_CONST (z_const (pl_sizes entry));
               out = wsi_emit_header out (wsi_constant_kind (pl_kind entry)) (z_value (pl_sizes entry));
               out = (if pl_kind entry = SCALAR_INTEGER
                      then wsi_emit_scalar out 1 (of_int (payload_integer entry))
                      else if payload_length entry \<noteq> 0
                      then wsi_emit_header out 1 (payload_length entry) @ pl_text entry
                      else out)
           in wsi_emit_scalar out WI_CONST_LOCATION (of_int (pl_location entry)))"

text \<open>The cell the fallback writes.\<close>

definition planned_cell :: "wsi_planned_cell \<Rightarrow> scalar_cell" where
  "planned_cell entry =
     \<lparr>s_text = pl_text entry,
      s_length = (if integer_payload (pl_kind entry) then 0 else unat (payload_length entry)),
      s_integer = (if integer_payload (pl_kind entry) then payload_integer entry else 0),
      s_location = pl_location entry, s_kind = pl_kind entry\<rparr>"

definition wsi_write_planned_cell :: "wsi_planned_cell \<Rightarrow> wi_writer \<Rightarrow> wi_writer" where
  "wsi_write_planned_cell entry w =
     (let envelope = wi_envelope WI_LIST_ITEMS (z_node (pl_sizes entry))
      in if envelope > w_room w then wsi_write_cell (planned_cell entry) (pl_sizes entry) w
         else let out = planned_body entry (wsi_emit_header [] WI_LIST_ITEMS (z_node (pl_sizes entry)));
                  w = w\<lparr>w_bytes := w_bytes w @ out, w_room := w_room w - length out\<rparr>
              in if length out \<noteq> envelope then w\<lparr>w_failed := True\<rparr> else w)"

section \<open>The two passes\<close>

text \<open>The cells of a row in the first pass; the last result but one is the plan.\<close>

fun measure_cells ::
  "bool \<Rightarrow> bool \<Rightarrow> source_edit list \<Rightarrow> nat \<Rightarrow> wi_reader \<Rightarrow> nat \<Rightarrow> int \<Rightarrow> nat
     \<Rightarrow> (wi_reader \<times> nat \<times> int \<times> nat \<times> wsi_planned_cell list) option"
where
  "measure_cells certified planned edits 0 list index delta row_size = Some (list, index, delta, row_size, [])"
| "measure_cells certified planned edits (Suc k) list index delta row_size = do {
     (cell, list) \<leftarrow> wsi_read_cell certified list;
     (cell, index, delta) \<leftarrow> wsi_effective_cell edits index delta cell;
     sizes \<leftarrow> wsi_measure_cell cell;
     let row_size = row_size + wi_envelope WI_LIST_ITEMS (z_node sizes);
     check (row_size \<le> UINT32_MAX);
     (list, index, delta, row_size, plan) \<leftarrow> measure_cells certified planned edits k list index delta row_size;
     Some (list, index, delta, row_size, if planned then wsi_plan_cell cell sizes # plan else plan) }"

fun measure_scalar_rows ::
  "bool \<Rightarrow> bool \<Rightarrow> scalar_insert \<Rightarrow> source_edit list \<Rightarrow> nat list \<Rightarrow> nat \<Rightarrow> int \<Rightarrow> nat
     \<Rightarrow> (u32 list \<times> wsi_planned_cell list \<times> nat \<times> int \<times> nat) option"
where
  "measure_scalar_rows certified planned ins edits [] index delta n = Some ([], [], index, delta, n)"
| "measure_scalar_rows certified planned ins edits (row # rows) index delta n = do {
     list \<leftarrow> wsi_read_row certified (Some ins) row;
     (list, index, delta, row_size, plan) \<leftarrow>
       measure_cells certified planned edits (x_column_count ins) list index delta 0;
     check (r_bytes list = []);
     row_node_size \<leftarrow> fit32 (wi_envelope NODE_LIST (of_nat row_size));
     let n = n + wi_envelope WI_SELECT_VALUES row_node_size;
     check (n \<le> UINT32_MAX);
     (sizes, more, index, delta, n) \<leftarrow> measure_scalar_rows certified planned ins edits rows index delta n;
     Some (of_nat row_size # sizes, plan @ more, index, delta, n) }"

definition scalar_prefix :: "scalar_insert \<Rightarrow> byte list" where
  "scalar_prefix ins = take (unat (x_prefix_length ins)) (drop (unat (x_prefix_offset ins)) (the (x_wire ins)))"

definition wsi_measure ::
  "bool \<Rightarrow> bool \<Rightarrow> scalar_insert \<Rightarrow> source_edit list
     \<Rightarrow> (u32 list \<times> wsi_planned_cell list \<times> nat \<times> u32 \<times> frame_sizes) option"
where
  "wsi_measure certified planned ins edits = do {
     (row_sizes, plan, index, delta, n) \<leftarrow>
       measure_scalar_rows certified planned ins edits [0..<x_row_count ins] 0 0 0;
     check (index = length edits \<and> in_int32 (int (length (x_sql ins)) + delta));
     raw_length \<leftarrow> shifted_raw_length (x_raw_length ins) delta;
     z \<leftarrow> frame_measure (x_version ins) (unat (x_prefix_length ins)) n raw_length;
     Some (row_sizes, plan, index, raw_length, z) }"

text \<open>The cells of a row in the second pass, without a plan; a break is marked by the failure flag.\<close>

fun write_scalar_cells ::
  "bool \<Rightarrow> source_edit list \<Rightarrow> nat \<Rightarrow> wi_reader \<Rightarrow> nat \<Rightarrow> int \<Rightarrow> wi_writer
     \<Rightarrow> wi_writer \<times> wi_reader \<times> nat \<times> int"
where
  "write_scalar_cells certified edits 0 list index delta w = (w, list, index, delta)"
| "write_scalar_cells certified edits (Suc k) list index delta w =
     (case do {
        (cell, list) \<leftarrow> wsi_read_cell certified list;
        (cell, index, delta) \<leftarrow> wsi_effective_cell edits index delta cell;
        sizes \<leftarrow> wsi_measure_cell cell;
        Some (cell, sizes, list, index, delta) } of
        None \<Rightarrow> (w\<lparr>w_failed := True\<rparr>, list, index, delta)
      | Some (cell, sizes, list, index, delta) \<Rightarrow>
          write_scalar_cells certified edits k list index delta (wsi_write_cell cell sizes w))"

text \<open>The second pass over the rows: the writer and \<^verbatim>\<open>edit_index\<close> when the loop ends or breaks.\<close>

definition row_headers :: "u32 \<Rightarrow> wi_writer \<Rightarrow> wi_writer" where
  "row_headers row_size w =
     wi_write_header NODE_LIST row_size
       (wi_write_header WI_SELECT_VALUES (of_nat (wi_envelope NODE_LIST row_size)) w)"

fun write_planned_rows ::
  "nat \<Rightarrow> nat list \<Rightarrow> u32 list \<Rightarrow> wsi_planned_cell list \<Rightarrow> wi_writer \<Rightarrow> wi_writer"
where
  "write_planned_rows columns (row # rows) (row_size # sizes) plan w =
     (let w = row_headers row_size w;
          w = fold wsi_write_planned_cell (take columns plan) w
      in if w_failed w then w else write_planned_rows columns rows sizes (drop columns plan) w)"
| "write_planned_rows columns rows sizes plan w = w"

fun write_scalar_rows ::
  "bool \<Rightarrow> scalar_insert \<Rightarrow> source_edit list \<Rightarrow> nat list \<Rightarrow> u32 list \<Rightarrow> nat \<Rightarrow> int \<Rightarrow> wi_writer
     \<Rightarrow> wi_writer \<times> nat"
where
  "write_scalar_rows certified ins edits (row # rows) (row_size # sizes) index delta w =
     (case wsi_read_row certified (Some ins) row of
        None \<Rightarrow> (w\<lparr>w_failed := True\<rparr>, index)
      | Some list \<Rightarrow>
          let w = row_headers row_size w;
              (w, list, index, delta) = write_scalar_cells certified edits (x_column_count ins) list index delta w
          in if w_failed w \<or> r_bytes list \<noteq> [] then (w\<lparr>w_failed := True\<rparr>, index)
             else write_scalar_rows certified ins edits rows sizes index delta w)"
| "write_scalar_rows certified ins edits rows sizes index delta w = (w, index)"

definition wsi_write ::
  "bool \<Rightarrow> bool \<Rightarrow> scalar_insert \<Rightarrow> source_edit list \<Rightarrow> u32 list \<Rightarrow> wsi_planned_cell list \<Rightarrow> nat \<Rightarrow> u32 \<Rightarrow> frame_sizes
     \<Rightarrow> wi_writer \<times> nat"
where
  "wsi_write certified planned ins edits row_sizes plan index raw_length z =
     (let w = write_head (x_version ins) (scalar_prefix ins) z
                \<lparr>w_bytes = [], w_room = unat (p_total z), w_failed = False\<rparr>;
          (w, index) =
            (if planned then (write_planned_rows (x_column_count ins) [0..<x_row_count ins] row_sizes plan w, index)
             else write_scalar_rows certified ins edits [0..<x_row_count ins] row_sizes 0 0 w)
      in (write_tail raw_length w, index))"

section \<open>The packer\<close>

definition wsi_pack_guard :: "scalar_insert \<Rightarrow> source_edits \<Rightarrow> bool \<Rightarrow> bool" where
  "wsi_pack_guard ins edits proven =
     (case (x_wire ins, x_row_offsets ins) of
        (Some wire, Some _) \<Rightarrow>
          \<not> (length wire > UINT32_MAX \<or> length wire > PTRDIFF_MAX \<or>
             x_row_count ins < 32 \<or> x_row_count ins > UINT32_MAX \<or>
             x_column_count ins = 0 \<or> x_column_count ins > SIZE_MAX div x_row_count ins \<or>
             x_row_count ins > SIZE_MAX div 4 \<or>
             unat (x_version ins) > INT32_MAX \<or> unat (x_raw_length ins) > INT32_MAX \<or>
             unat (x_prefix_offset ins) > length wire \<or>
             unat (x_prefix_length ins) > length wire - unat (x_prefix_offset ins) \<or>
             \<not> wi_edits edits proven)
      | _ \<Rightarrow> False)"

text \<open>
  The plan is allocated only when it takes at most two megabytes; \<open>PLAN_ENTRY\<close> is the size of a
  planned cell (a pointer and six words of 32 bits).
\<close>

definition PLAN_BUDGET :: nat where "PLAN_BUDGET = 2 * 1024 * 1024"
definition PLAN_ENTRY :: nat where "PLAN_ENTRY = 32"

definition plan_kept :: "allocator \<Rightarrow> scalar_insert \<Rightarrow> bool" where
  "plan_kept alloc ins =
     (let cell_count = x_row_count ins * x_column_count ins
      in cell_count \<le> PLAN_BUDGET div PLAN_ENTRY \<and> alloc 1 (cell_count * PLAN_ENTRY))"

text \<open>
  \<^verbatim>\<open>wsi_pack\<close>: the status of a failed call or the bytes of \<^verbatim>\<open>out\<close>.  Allocation 0 is the table of row
  sizes, allocation 1 the plan, allocation 2 the output.
\<close>

definition wsi_pack ::
  "allocator \<Rightarrow> scalar_insert option \<Rightarrow> source_edits option \<Rightarrow> bool \<Rightarrow> bool \<Rightarrow> status + byte list"
where
  "wsi_pack alloc ins edits out_present proven =
     (if \<not> out_present then Inl INVALID_ARGUMENT
      else case (ins, edits) of
        (Some i, Some es) \<Rightarrow>
          if \<not> wsi_pack_guard i es proven then Inl UNSUPPORTED
          else if \<not> alloc 0 (x_row_count i * 4) then Inl UNSUPPORTED
          else let planned = plan_kept alloc i
            in (case wsi_measure proven planned i (edit_items es) of
                  None \<Rightarrow> Inl UNSUPPORTED
                | Some (row_sizes, plan, index, raw_length, z) \<Rightarrow>
                    if \<not> alloc 2 (unat (p_total z)) then Inl NO_MEMORY
                    else let (w, index) = wsi_write proven planned i (edit_items es) row_sizes plan index raw_length z
                      in if w_failed w \<or> w_room w \<noteq> 0 \<or> index \<noteq> length (edit_items es)
                         then Inl INTERNAL_ERROR else Inr (w_bytes w))
      | _ \<Rightarrow> Inl INVALID_ARGUMENT)"

definition wire_scalar_insert_pack ::
  "allocator \<Rightarrow> scalar_insert option \<Rightarrow> source_edits option \<Rightarrow> bool \<Rightarrow> status + byte list" where
  "wire_scalar_insert_pack alloc ins edits out_present = wsi_pack alloc ins edits out_present False"

definition wire_scalar_insert_pack_proven_edits ::
  "allocator \<Rightarrow> scalar_insert option \<Rightarrow> source_edits option \<Rightarrow> bool \<Rightarrow> status + byte list" where
  "wire_scalar_insert_pack_proven_edits alloc ins edits out_present = wsi_pack alloc ins edits out_present True"

section \<open>The cells the two passes handle\<close>

definition packable_scalar :: "scalar_cell \<Rightarrow> bool" where
  "packable_scalar c \<longleftrightarrow> in_int32 (s_location c) \<and>
     (case s_kind c of
        SCALAR_INTEGER \<Rightarrow> in_int32 (s_integer c)
      | SCALAR_VALUE_FUNCTION \<Rightarrow> True
      | _ \<Rightarrow> s_length c = length (s_text c) \<and> length (s_text c) < 2 ^ 32)"

definition known_function :: "scalar_cell \<Rightarrow> bool" where
  "known_function c \<longleftrightarrow>
     (s_kind c = SCALAR_VALUE_FUNCTION \<longrightarrow> wsi_function_word (of_int (s_integer c)) \<noteq> None)"

text \<open>The sizes of the reference encoding.\<close>

definition scalar_sizes :: "scalar_cell \<Rightarrow> wi_cell_sizes" where
  "scalar_sizes c =
     \<lparr>z_value = (if s_kind c = SCALAR_VALUE_FUNCTION then 0 else of_nat (length (scalar_value_bytes c))),
      z_const = of_nat (length (scalar_body_bytes c)), z_node = of_nat (length (scalar_node_bytes c))\<rparr>"

lemma function_body_small:
  "s_kind c = SCALAR_VALUE_FUNCTION \<Longrightarrow> length (scalar_body_bytes c) < 2 ^ 32"
  using scalar_bytes_length [of 2 "of_int (s_integer c)"] scalar_bytes_length [of 5 "of_int (s_location c)"]
  by (simp add: scalar_body_bytes_def wsi_typmod_default_def)

lemma scalar_value_length:
  assumes "packable_scalar c" "s_kind c \<noteq> SCALAR_VALUE_FUNCTION"
  shows "(if s_kind c = SCALAR_INTEGER then do {
            check (0 \<le> s_integer c);
            Some (wi_scalar_size 1 (of_int (s_integer c))) }
          else Some (if s_length c = 0 then 0 else wi_envelope 1 (of_nat (s_length c)))) =
         Some (length (scalar_value_bytes c))"
  using assms
  by (cases "s_kind c") (auto simp: packable_scalar_def in_int32_def scalar_value_bytes_def wi_scalar_size_spec
      wi_envelope_spec)

lemma measure_scalar_spec:
  assumes "packable_scalar c"
  shows "wsi_measure_cell c =
    (if known_function c \<and> length (scalar_node_bytes c) < 2 ^ 32 then Some (scalar_sizes c) else None)"
proof (cases "s_kind c = SCALAR_VALUE_FUNCTION")
  case True
  let ?const = "length (scalar_body_bytes c)"
  have "wi_scalar_size 2 (of_int (s_integer c)) + length wsi_typmod_default +
      wi_scalar_size 5 (of_int (s_location c)) = ?const"
    using True by (simp add: wi_scalar_size_spec scalar_body_bytes_def)
  moreover have "wi_envelope NODE_SQLVALUE_FUNCTION (of_nat ?const) = length (scalar_node_bytes c)"
    using True function_body_small [OF True] by (simp add: wi_envelope_spec scalar_node_bytes_def scalar_node_def)
  ultimately show ?thesis
    using True assms
    by (auto simp: wsi_measure_cell_def known_function_def packable_scalar_def in_int32_def scalar_sizes_def fit32_eq
        Let_def simp del: of_nat_add)
next
  case False
  let ?val = "length (scalar_value_bytes c)" and ?const = "length (scalar_body_bytes c)"
    and ?node = "length (scalar_node_bytes c)"
  have const: "wi_envelope (wsi_constant_kind (s_kind c)) (of_nat ?val) +
      wi_scalar_size WI_CONST_LOCATION (of_int (s_location c)) = ?const" if "?val < 2 ^ 32"
    using that False by (simp add: scalar_body_bytes_def wi_scalar_size_spec wi_envelope_spec)
  have node: "wi_envelope NODE_A_CONST (of_nat ?const) = ?node" if "?const < 2 ^ 32"
    using that False by (simp add: scalar_node_bytes_def scalar_node_def wi_envelope_spec)
  have mono: "?const \<le> ?node" "?val \<le> ?const"
    using False by (simp_all add: scalar_node_bytes_def scalar_body_bytes_def message_bytes_def)
  have loc: "check (0 \<le> s_location c) = Some ()" using assms by (simp add: packable_scalar_def in_int32_def)
  have known: "known_function c" using False by (simp add: known_function_def)
  note unfolded = wsi_measure_cell_def loc if_not_P [OF False] scalar_value_length [OF assms False]
  show ?thesis
  proof (cases "?const < 2 ^ 32")
    case True
    with mono have "?val < 2 ^ 32" by linarith
    with True known False show ?thesis
      unfolding unfolded by (simp add: fit32_eq const node scalar_sizes_def)
  next
    case too_long: False
    with mono have "\<not> ?node < 2 ^ 32" by linarith
    with too_long show ?thesis
      unfolding unfolded by (cases "?val < 2 ^ 32") (simp_all add: fit32_eq const)
  qed
qed

section \<open>Writing a cell, with and without a plan\<close>

lemma emit_varint_bytes: "wsi_emit_varint out v = out @ u32_bytes v"
proof (induction out v rule: wsi_emit_varint.induct)
  case (1 out v)
  have more: "drop_bit 7 v \<noteq> 0 \<longleftrightarrow> \<not> unat v < 128"
    using drop_bit_7_spec [of v] by (simp add: unat_eq_zero [symmetric] div_eq_0_iff)
  show ?case
  proof (cases "unat v < 128")
    case True
    with more show ?thesis
      by (simp add: wsi_emit_varint.simps [of out v] low_byte_spec u32_bytes_def varint_bytes.simps [of "unat v"])
  next
    case False
    have "u32_bytes v = low_byte v # u32_bytes (drop_bit 7 v)"
      unfolding u32_bytes_def drop_bit_7_spec low_byte_spec using False
      by (simp add: varint_bytes.simps [of "unat v"])
    with 1 False more show ?thesis by (simp add: wsi_emit_varint.simps [of out v])
  qed
qed

lemma emit_field_bytes:
  "wsi_emit_header out f n = out @ u32_bytes (wi_tag f 2) @ u32_bytes n"
  "wsi_emit_scalar out f v = out @ scalar_bytes f v"
  by (simp_all add: wsi_emit_header_def wsi_emit_scalar_def emit_varint_bytes scalar_bytes_def)

text \<open>The checked writer.\<close>

lemma writes_scalar_value:
  assumes "packable_scalar c" "s_kind c \<noteq> SCALAR_VALUE_FUNCTION"
  shows "writes (wsi_write_value c) (scalar_value_bytes c)"
  using assms writes_scalar [of 1 "of_int (s_integer c)"] writes_message [OF writes_bytes [of "s_text c"], of 1]
  by (cases "s_kind c") (auto simp: scalar_value_bytes_def wsi_write_value_def writes_def packable_scalar_def)

lemma writes_scalar_cell:
  assumes "packable_scalar c"
  shows "writes (wsi_write_cell c (scalar_sizes c)) (scalar_cell_bytes c)"
proof (cases "s_kind c = SCALAR_VALUE_FUNCTION")
  case True
  have "writes (\<lambda>w. wi_write_scalar 5 (of_int (s_location c)) (wi_write_bytes wsi_typmod_default
      (wi_write_scalar 2 (of_int (s_integer c)) w))) (scalar_body_bytes c)"
    using writes_then [OF writes_then [OF writes_scalar writes_bytes] writes_scalar] True
    by (simp add: scalar_body_bytes_def)
  from writes_message [OF writes_message [OF this, of NODE_SQLVALUE_FUNCTION], of WI_LIST_ITEMS] show ?thesis
    using True by (simp add: writes_def wsi_write_cell_def Let_def scalar_sizes_def scalar_cell_bytes_def
        scalar_node_bytes_def scalar_node_def)
next
  case False
  have "writes (\<lambda>w. wi_write_scalar WI_CONST_LOCATION (of_int (s_location c)) (wsi_write_value c
      (wi_write_header (wsi_constant_kind (s_kind c)) (of_nat (length (scalar_value_bytes c))) w))) (scalar_body_bytes c)"
    using writes_then [OF writes_message [OF writes_scalar_value [OF assms False]] writes_scalar] False
    by (simp add: scalar_body_bytes_def)
  from writes_message [OF writes_message [OF this, of NODE_A_CONST], of WI_LIST_ITEMS] show ?thesis
    using False by (simp add: writes_def wsi_write_cell_def Let_def scalar_sizes_def scalar_cell_bytes_def
        scalar_node_bytes_def scalar_node_def)
qed

text \<open>The fallback writes the cell that was planned.\<close>

lemma planned_fallback:
  assumes "packable_scalar c"
  shows "wsi_write_cell (planned_cell (wsi_plan_cell c z)) z w = wsi_write_cell c z w"
  using assms
  by (cases "s_kind c") (simp_all add: wsi_write_cell_def wsi_write_value_def planned_cell_def wsi_plan_cell_def
      integer_payload_def payload_integer_def payload_length_def packable_scalar_def Let_def u32_reads_length)

text \<open>The unchecked emitters write the reference encoding.\<close>

lemma planned_body_bytes:
  assumes "packable_scalar c"
  shows "planned_body (wsi_plan_cell c (scalar_sizes c)) (wsi_emit_header [] WI_LIST_ITEMS (z_node (scalar_sizes c))) =
    scalar_cell_bytes c"
proof (cases "s_kind c")
  case SCALAR_INTEGER
  then show ?thesis
    by (simp add: planned_body_def wsi_plan_cell_def integer_payload_def payload_integer_def emit_field_bytes Let_def
        scalar_sizes_def scalar_cell_bytes_def scalar_node_bytes_def scalar_node_def scalar_body_bytes_def
        scalar_value_bytes_def message_bytes_def)
next
  case SCALAR_VALUE_FUNCTION
  then show ?thesis
    by (simp add: planned_body_def wsi_plan_cell_def integer_payload_def payload_integer_def emit_field_bytes Let_def
        scalar_sizes_def scalar_cell_bytes_def scalar_node_bytes_def scalar_node_def scalar_body_bytes_def
        message_bytes_def)
qed (use assms in \<open>auto simp: planned_body_def wsi_plan_cell_def integer_payload_def payload_length_def
    emit_field_bytes Let_def scalar_sizes_def scalar_cell_bytes_def scalar_node_bytes_def scalar_node_def
    scalar_body_bytes_def scalar_value_bytes_def message_bytes_def packable_scalar_def of_nat_length_eq_0\<close>)

lemma planned_writer:
  assumes "packable_scalar c" "length (scalar_node_bytes c) < 2 ^ 32"
  shows "wsi_write_planned_cell (wsi_plan_cell c (scalar_sizes c)) w = wsi_write_cell c (scalar_sizes c) w"
proof -
  have sizes: "pl_sizes (wsi_plan_cell c (scalar_sizes c)) = scalar_sizes c" by (simp add: wsi_plan_cell_def)
  have envelope: "wi_envelope WI_LIST_ITEMS (z_node (scalar_sizes c)) = length (scalar_cell_bytes c)"
    using assms(2) by (simp add: scalar_sizes_def scalar_cell_bytes_def wi_envelope_spec)
  show ?thesis
    using writes_emit [OF writes_scalar_cell [OF assms(1)], of w]
    unfolding wsi_write_planned_cell_def sizes planned_body_bytes [OF assms(1)] envelope
    by (simp add: Let_def emit_def planned_fallback [OF assms(1)])
qed

section \<open>Every cell that is read and edited is packable\<close>

text \<open>What the readers promise of the payload.\<close>

definition read_payload :: "scalar_cell \<Rightarrow> bool" where
  "read_payload c \<longleftrightarrow>
     (case s_kind c of
        SCALAR_INTEGER \<Rightarrow> in_int32 (s_integer c)
      | SCALAR_VALUE_FUNCTION \<Rightarrow> True
      | _ \<Rightarrow> s_length c = length (s_text c) \<and> length (s_text c) < 2 ^ 32)"

lemma read_payload_location [simp]: "read_payload (c\<lparr>s_location := l\<rparr>) = read_payload c"
  by (cases "s_kind c") (simp_all add: read_payload_def)

lemma packable_payload: "packable_scalar c \<longleftrightarrow> in_int32 (s_location c) \<and> read_payload c"
  by (simp add: packable_scalar_def read_payload_def)

lemma certified_constant_payload:
  assumes "certified_constant p = Some (c, p')"
  shows "read_payload c"
  using assms u32_range
  by (auto simp: certified_constant_def bind_eq_Some_conv Let_def read_payload_def in_int32_def sint_bounds
      split: if_splits)

lemma certified_function_payload: "certified_function p = Some (c, p') \<Longrightarrow> read_payload c"
  by (auto simp: certified_function_def bind_eq_Some_conv read_payload_def)

lemma read_cell_payload:
  assumes "wsi_read_cell certified list = Some (c, list')"
  shows "read_payload c"
proof (cases certified)
  case True
  with assms obtain p q cell l where "certified_function p = Some (cell, q) \<or> certified_constant p = Some (cell, q)"
    "c = cell\<lparr>s_location := l\<rparr>"
    unfolding wsi_read_cell_def wsi_certified_cell_def
    by (auto simp: bind_eq_Some_conv Let_def split: option.splits if_splits)
  then show ?thesis using certified_constant_payload certified_function_payload by auto
next
  case False
  then have "good_scalar c" using assms by (simp add: wsi_read_cell_def wsi_cell_exact)
  then show ?thesis
    using good_scalar_sizes(4) [of c]
    by (auto simp: read_payload_def good_scalar_def good_value_def in_int32_def split: scalar_kind.splits)
qed

text \<open>The guard of the packer fixes the length of every replacement.\<close>

abbreviation exact_edits :: "source_edit list \<Rightarrow> bool" where
  "exact_edits edits \<equiv> \<forall>e \<in> set edits. length (edit_interior e) = replacement_length e - 2"

lemma edits_loop_exact: "edits_loop proven pos edits \<Longrightarrow> exact_edits edits"
proof (induction edits arbitrary: pos)
  case (Cons e es)
  then obtain t where t: "replacement e = Some t" and quote: "char_at t (replacement_length e - 1) = QUOTE"
    and long: "2 \<le> replacement_length e" and rest: "edits_loop proven (source_end e) es"
    by (auto split: if_splits option.splits)
  have "replacement_length e - 1 < length t"
    using char_at_less [of t "replacement_length e - 1"] quote by simp
  with t long have "length (edit_interior e) = replacement_length e - 2" by (simp add: edit_interior_def)
  with Cons.IH [OF rest] show ?case by simp
qed simp

lemma effective_cell_packable:
  assumes "wsi_effective_cell edits index delta c = Some (c', index', delta')" "read_payload c" "exact_edits edits"
  shows "packable_scalar c'"
proof (cases "index < length edits \<and> source_start (edits ! index) = nat (s_location c)")
  case True
  then have "length (edit_interior (edits ! index)) = replacement_length (edits ! index) - 2"
    using assms(3) by auto
  with True assms(1) show ?thesis
    by (auto simp: wsi_effective_cell_def Let_def bind_eq_Some_conv packable_scalar_def bytes_of_def INT32_MAX_def)
next
  case False
  with assms(1,2) show ?thesis
    by (auto simp: wsi_effective_cell_def Let_def bind_eq_Some_conv packable_payload split: if_splits)
qed

section \<open>The rows after the edits\<close>

text \<open>The specification of both passes over the rows: the cells after the edits.\<close>

fun effective_cells ::
  "bool \<Rightarrow> source_edit list \<Rightarrow> nat \<Rightarrow> wi_reader \<Rightarrow> nat \<Rightarrow> int
     \<Rightarrow> (scalar_cell list \<times> wi_reader \<times> nat \<times> int) option"
where
  "effective_cells certified edits 0 list index delta = Some ([], list, index, delta)"
| "effective_cells certified edits (Suc k) list index delta = do {
     (cell, list) \<leftarrow> wsi_read_cell certified list;
     (cell, index, delta) \<leftarrow> wsi_effective_cell edits index delta cell;
     check (known_function cell);
     (cells, list, index, delta) \<leftarrow> effective_cells certified edits k list index delta;
     Some (cell # cells, list, index, delta) }"

fun effective_scalar_rows ::
  "bool \<Rightarrow> scalar_insert \<Rightarrow> source_edit list \<Rightarrow> nat list \<Rightarrow> nat \<Rightarrow> int
     \<Rightarrow> (scalar_cell list list \<times> nat \<times> int) option"
where
  "effective_scalar_rows certified ins edits [] index delta = Some ([], index, delta)"
| "effective_scalar_rows certified ins edits (row # rows) index delta = do {
     list \<leftarrow> wsi_read_row certified (Some ins) row;
     (cells, list, index, delta) \<leftarrow> effective_cells certified edits (x_column_count ins) list index delta;
     check (r_bytes list = []);
     (rest, index, delta) \<leftarrow> effective_scalar_rows certified ins edits rows index delta;
     Some (cells # rest, index, delta) }"

text \<open>The first two steps of every loop over cells.\<close>

definition next_cell ::
  "bool \<Rightarrow> source_edit list \<Rightarrow> wi_reader \<Rightarrow> nat \<Rightarrow> int \<Rightarrow> (scalar_cell \<times> wi_reader \<times> nat \<times> int) option"
where
  "next_cell certified edits list index delta = do {
     (cell, list) \<leftarrow> wsi_read_cell certified list;
     (cell, index, delta) \<leftarrow> wsi_effective_cell edits index delta cell;
     Some (cell, list, index, delta) }"

lemma next_cell_packable:
  assumes "next_cell certified edits list index delta = Some (cell, list', index', delta')" "exact_edits edits"
  shows "packable_scalar cell"
  using assms effective_cell_packable read_cell_payload
  by (auto simp: next_cell_def bind_eq_Some_conv split: prod.splits)

lemma effective_cells_Suc:
  "effective_cells certified edits (Suc k) list index delta = do {
     (cell, list, index, delta) \<leftarrow> next_cell certified edits list index delta;
     check (known_function cell);
     (cells, list, index, delta) \<leftarrow> effective_cells certified edits k list index delta;
     Some (cell # cells, list, index, delta) }"
  by (auto simp: next_cell_def split: Option.bind_splits)

lemma measure_cells_Suc:
  "measure_cells certified planned edits (Suc k) list index delta row_size = do {
     (cell, list, index, delta) \<leftarrow> next_cell certified edits list index delta;
     sizes \<leftarrow> wsi_measure_cell cell;
     let row_size = row_size + wi_envelope WI_LIST_ITEMS (z_node sizes);
     check (row_size \<le> UINT32_MAX);
     (list, index, delta, row_size, plan) \<leftarrow> measure_cells certified planned edits k list index delta row_size;
     Some (list, index, delta, row_size, if planned then wsi_plan_cell cell sizes # plan else plan) }"
  by (auto simp: next_cell_def split: Option.bind_splits)

lemma write_scalar_cells_Suc:
  "write_scalar_cells certified edits (Suc k) list index delta w =
     (case do {
        (cell, list, index, delta) \<leftarrow> next_cell certified edits list index delta;
        sizes \<leftarrow> wsi_measure_cell cell;
        Some (cell, sizes, list, index, delta) } of
        None \<Rightarrow> (w\<lparr>w_failed := True\<rparr>, list, index, delta)
      | Some (cell, sizes, list, index, delta) \<Rightarrow>
          write_scalar_cells certified edits k list index delta (wsi_write_cell cell sizes w))"
  by (simp add: next_cell_def split: Option.bind_splits prod.splits)

text \<open>The reference encoding of rows.\<close>

abbreviation cells_bytes :: "scalar_cell list \<Rightarrow> byte list" where
  "cells_bytes cs \<equiv> concat (map scalar_cell_bytes cs)"

definition scalar_row_bytes :: "scalar_cell list \<Rightarrow> byte list" where
  "scalar_row_bytes cs = message_bytes WI_SELECT_VALUES (message_bytes NODE_LIST (cells_bytes cs))"

abbreviation scalar_rows_bytes :: "scalar_cell list list \<Rightarrow> byte list" where
  "scalar_rows_bytes rows \<equiv> concat (map scalar_row_bytes rows)"

lemma effective_cells_packable:
  assumes "effective_cells certified edits k list index delta = Some (cs, list', index', delta')" "exact_edits edits"
  shows "\<forall>c \<in> set cs. packable_scalar c \<and> known_function c" "length cs = k"
proof -
  have "(\<forall>c \<in> set cs. packable_scalar c \<and> known_function c) \<and> length cs = k"
    using assms(1)
  proof (induction k arbitrary: list index delta cs)
    case (Suc k)
    from Suc.prems obtain c1 list1 cell index1 delta1 cells where
      read: "wsi_read_cell certified list = Some (c1, list1)"
        "wsi_effective_cell edits index delta c1 = Some (cell, index1, delta1)" and
      known: "known_function cell" and
      rest: "effective_cells certified edits k list1 index1 delta1 = Some (cells, list', index', delta')" and
      cs: "cs = cell # cells"
      by (auto simp: bind_eq_Some_conv)
    have "packable_scalar cell"
      by (rule effective_cell_packable [OF read(2) read_cell_payload [OF read(1)] assms(2)])
    with known Suc.IH [OF rest] cs show ?case by simp
  qed simp
  then show "\<forall>c \<in> set cs. packable_scalar c \<and> known_function c" "length cs = k" by simp_all
qed

lemma effective_rows_packable:
  assumes "effective_scalar_rows certified ins edits rows index delta = Some (rs, index', delta')" "exact_edits edits"
  shows "\<forall>cs \<in> set rs. (\<forall>c \<in> set cs. packable_scalar c \<and> known_function c) \<and> length cs = x_column_count ins"
  using assms(1)
proof (induction rows arbitrary: index delta rs)
  case (Cons row rows)
  from Cons.prems obtain list cells list1 index1 delta1 rest where
    cells: "effective_cells certified edits (x_column_count ins) list index delta = Some (cells, list1, index1, delta1)" and
    rest: "effective_scalar_rows certified ins edits rows index1 delta1 = Some (rest, index', delta')" and
    rs: "rs = cells # rest"
    by (auto simp: bind_eq_Some_conv)
  from effective_cells_packable [OF cells assms(2)] Cons.IH [OF rest] rs show ?case by simp
qed simp

lemma cell_of_node:
  "length (scalar_node_bytes c) < 2 ^ 32 \<Longrightarrow> wi_envelope WI_LIST_ITEMS (of_nat (length (scalar_node_bytes c))) =
     length (scalar_cell_bytes c)"
  by (simp add: scalar_cell_bytes_def wi_envelope_spec)

lemma node_fits: "length (scalar_cell_bytes c) < n \<Longrightarrow> length (scalar_node_bytes c) < n"
  by (simp add: scalar_cell_bytes_def message_bytes_def)

definition plan_of :: "bool \<Rightarrow> scalar_cell list \<Rightarrow> wsi_planned_cell list" where
  "plan_of planned cs = (if planned then map (\<lambda>c. wsi_plan_cell c (scalar_sizes c)) cs else [])"

lemma plan_of_simps [simp]:
  "plan_of planned [] = []"
  "plan_of planned (c # cs) = (if planned then wsi_plan_cell c (scalar_sizes c) # plan_of planned cs
     else plan_of planned cs)"
  "plan_of planned (as @ bs) = plan_of planned as @ plan_of planned bs"
  by (simp_all add: plan_of_def)

section \<open>The first pass computes the lengths of the reference encoding\<close>

lemma measure_cells_spec:
  assumes "n < 2 ^ 32" "exact_edits edits"
  shows "measure_cells certified planned edits k list index delta n =
    (case effective_cells certified edits k list index delta of
       None \<Rightarrow> None
     | Some (cs, list', index', delta') \<Rightarrow>
         if n + length (cells_bytes cs) < 2 ^ 32
         then Some (list', index', delta', n + length (cells_bytes cs), plan_of planned cs) else None)"
  using assms(1)
proof (induction k arbitrary: list index delta n)
  case (Suc k)
  show ?case
  proof (cases "next_cell certified edits list index delta")
    case None
    then show ?thesis unfolding effective_cells_Suc measure_cells_Suc by simp
  next
    case (Some t)
    obtain cell list1 index1 delta1 where t: "t = (cell, list1, index1, delta1)" by (cases t)
    note cell = Some [unfolded t]
    have packable: "packable_scalar cell" by (rule next_cell_packable [OF cell assms(2)])
    note z = scalar_sizes_def [of cell]
    show ?thesis
    proof (cases "known_function cell \<and> n + length (scalar_cell_bytes cell) < 2 ^ 32")
      case True
      then have node: "length (scalar_node_bytes cell) < 2 ^ 32"
        using node_fits [of cell "2 ^ 32"] by simp
      then have envelope: "wi_envelope WI_LIST_ITEMS (z_node (scalar_sizes cell)) = length (scalar_cell_bytes cell)"
        by (simp add: scalar_sizes_def cell_of_node)
      show ?thesis
        using True node Suc.IH [of "n + length (scalar_cell_bytes cell)" list1 index1 delta1]
        unfolding effective_cells_Suc measure_cells_Suc
        by (auto simp: cell measure_scalar_spec [OF packable] envelope Let_def UINT32_MAX_def add.assoc split: option.splits)
    next
      case False
      have envelope: "wi_envelope WI_LIST_ITEMS (z_node (scalar_sizes cell)) = length (scalar_cell_bytes cell)"
        if "length (scalar_node_bytes cell) < 2 ^ 32" using that by (simp add: scalar_sizes_def cell_of_node)
      have "measure_cells certified planned edits (Suc k) list index delta n = None"
        using False unfolding measure_cells_Suc
        by (auto simp: cell measure_scalar_spec [OF packable] envelope Let_def UINT32_MAX_def check_def)
      then show ?thesis
        using False unfolding effective_cells_Suc cell
        by (auto simp: bind_eq_Some_conv simp del: measure_cells.simps split: option.splits)
    qed
  qed
qed simp

text \<open>One row.\<close>

definition scalar_list_sizes :: "scalar_cell list list \<Rightarrow> u32 list" where
  "scalar_list_sizes rows = map (\<lambda>cs. of_nat (length (cells_bytes cs))) rows"

lemma scalar_row_fits:
  "length (scalar_row_bytes cs) < n \<Longrightarrow> length (message_bytes NODE_LIST (cells_bytes cs)) < n \<and> length (cells_bytes cs) < n"
  by (simp add: scalar_row_bytes_def message_bytes_def)

definition scalar_row_length :: "nat \<Rightarrow> nat option" where
  "scalar_row_length n = map_option (wi_envelope WI_SELECT_VALUES) (fit32 (wi_envelope NODE_LIST (of_nat n)))"

lemma scalar_row_length_spec:
  assumes "length (cells_bytes cs) < 2 ^ 32"
  shows "scalar_row_length (length (cells_bytes cs)) =
    (if length (message_bytes NODE_LIST (cells_bytes cs)) < 2 ^ 32 then Some (length (scalar_row_bytes cs)) else None)"
  using assms by (simp add: scalar_row_length_def scalar_row_bytes_def wi_envelope_spec fit32_eq)

lemma measure_scalar_rows_Cons:
  "measure_scalar_rows certified planned ins edits (row # rows) index delta n = do {
     list \<leftarrow> wsi_read_row certified (Some ins) row;
     (list, index, delta, row_size, plan) \<leftarrow>
       measure_cells certified planned edits (x_column_count ins) list index delta 0;
     check (r_bytes list = []);
     k \<leftarrow> scalar_row_length row_size;
     check (n + k \<le> UINT32_MAX);
     (sizes, more, index, delta, n) \<leftarrow> measure_scalar_rows certified planned ins edits rows index delta (n + k);
     Some (of_nat row_size # sizes, plan @ more, index, delta, n) }"
  by (auto simp: scalar_row_length_def Let_def split: Option.bind_splits prod.splits)

lemma measure_scalar_rows_spec:
  assumes "n < 2 ^ 32" "exact_edits edits"
  shows "measure_scalar_rows certified planned ins edits rows index delta n =
    (case effective_scalar_rows certified ins edits rows index delta of
       None \<Rightarrow> None
     | Some (rs, index', delta') \<Rightarrow>
         if n + length (scalar_rows_bytes rs) < 2 ^ 32
         then Some (scalar_list_sizes rs, plan_of planned (concat rs), index', delta', n + length (scalar_rows_bytes rs))
         else None)"
  using assms(1)
proof (induction rows arbitrary: index delta n)
  case Nil
  then show ?case by (simp add: scalar_list_sizes_def)
next
  case (Cons row rows)
  show ?case
  proof (cases "\<exists>list cs list1 index1 delta1. wsi_read_row certified (Some ins) row = Some list \<and>
      effective_cells certified edits (x_column_count ins) list index delta = Some (cs, list1, index1, delta1) \<and>
      r_bytes list1 = []")
    case False
    then have "effective_scalar_rows certified ins edits (row # rows) index delta = None"
      by (auto simp: check_def split: Option.bind_splits prod.splits)
    moreover have "measure_scalar_rows certified planned ins edits (row # rows) index delta n = None"
      using False unfolding measure_scalar_rows_Cons
      by (auto simp: check_def measure_cells_spec [OF _ assms(2)] split: Option.bind_splits prod.splits option.splits if_splits)
    ultimately show ?thesis by simp
  next
    case True
    then obtain list cs list1 index1 delta1 where row: "wsi_read_row certified (Some ins) row = Some list"
      and cells: "effective_cells certified edits (x_column_count ins) list index delta = Some (cs, list1, index1, delta1)"
      and empty: "r_bytes list1 = []" by blast
    show ?thesis
    proof (cases "n + length (scalar_row_bytes cs) < 2 ^ 32")
      case True
      then have fits: "length (message_bytes NODE_LIST (cells_bytes cs)) < 2 ^ 32" "length (cells_bytes cs) < 2 ^ 32"
        using scalar_row_fits [of cs "2 ^ 32"] by simp_all
      show ?thesis
        using True fits Cons.IH [OF True, of index1 delta1]
        unfolding measure_scalar_rows_Cons
        by (auto simp: row cells empty measure_cells_spec [OF _ assms(2)] scalar_row_length_spec [OF fits(2)]
            UINT32_MAX_def scalar_list_sizes_def add.assoc split: option.splits)
    next
      case False
      have "measure_scalar_rows certified planned ins edits (row # rows) index delta n = None"
        using False unfolding measure_scalar_rows_Cons
        by (auto simp: row cells empty measure_cells_spec [OF _ assms(2)] scalar_row_length_spec UINT32_MAX_def check_def)
      then show ?thesis
        using False by (auto simp: row cells empty bind_eq_Some_conv simp del: measure_scalar_rows.simps split: option.splits)
    qed
  qed
qed

section \<open>The second pass writes the reference encoding\<close>

lemma writes_fold:
  assumes "\<And>c. c \<in> set cs \<Longrightarrow> writes (step c) (bytes c)"
  shows "writes (fold step cs) (concat (map bytes cs))"
  using assms
proof (induction cs)
  case Nil
  then show ?case by (simp add: writes_def)
next
  case (Cons c cs)
  then have "writes (\<lambda>w. fold step cs (step c w)) (bytes c @ concat (map bytes cs))"
    by (intro writes_then) simp_all
  then show ?case by (simp add: comp_def)
qed

text \<open>The headers of a row and its cells, by either writer.\<close>

lemma writes_scalar_row:
  assumes "writes step (cells_bytes cs)" "length (cells_bytes cs) < 2 ^ 32"
  shows "writes (\<lambda>w. step (row_headers (of_nat (length (cells_bytes cs))) w)) (scalar_row_bytes cs)"
  using writes_message [OF writes_message [OF assms(1), of NODE_LIST], of WI_SELECT_VALUES]
  by (simp add: row_headers_def scalar_row_bytes_def wi_envelope_spec [OF assms(2)])

lemma cell_fits: "c \<in> set cs \<Longrightarrow> length (cells_bytes cs) < n \<Longrightarrow> length (scalar_node_bytes c) < n"
  by (rule node_fits) (auto simp: in_set_conv_decomp)

text \<open>With a plan.\<close>

lemma writes_planned_cells:
  assumes "\<forall>c \<in> set cs. packable_scalar c" "length (cells_bytes cs) < 2 ^ 32"
  shows "writes (fold wsi_write_planned_cell (plan_of True cs)) (cells_bytes cs)"
proof -
  have cell: "writes (wsi_write_planned_cell (wsi_plan_cell c (scalar_sizes c))) (scalar_cell_bytes c)"
    if "c \<in> set cs" for c
    using writes_scalar_cell [of c] planned_writer [of c] cell_fits [OF that assms(2)] assms(1) that
    by (simp add: writes_def)
  have "writes (fold (\<lambda>c. wsi_write_planned_cell (wsi_plan_cell c (scalar_sizes c))) cs) (cells_bytes cs)"
    by (rule writes_fold) (rule cell)
  then show ?thesis by (simp add: plan_of_def fold_map comp_def)
qed

lemma write_planned_rows_spec:
  assumes "\<forall>cs \<in> set rs. (\<forall>c \<in> set cs. packable_scalar c) \<and> length cs = k" "length rows = length rs"
    "length (scalar_rows_bytes rs) < 2 ^ 32" "length (scalar_rows_bytes rs) \<le> w_room w" "\<not> w_failed w"
  shows "write_planned_rows k rows (scalar_list_sizes rs) (plan_of True (concat rs)) w = emit (scalar_rows_bytes rs) w"
  using assms
proof (induction rs arbitrary: rows w)
  case Nil
  then show ?case by simp
next
  case (Cons cs rs)
  then obtain row more where rows: "rows = row # more" "length more = length rs" by (cases rows) auto
  have fits: "length (scalar_row_bytes cs) < 2 ^ 32" "length (scalar_row_bytes cs) \<le> w_room w"
    using Cons.prems(3,4) by simp_all
  have cells: "length (cells_bytes cs) < 2 ^ 32" using scalar_row_fits [OF fits(1)] by simp
  have "length (plan_of True cs) = k" using Cons.prems(1) by (simp add: plan_of_def)
  then have plan: "take k (plan_of True (concat (cs # rs))) = plan_of True cs"
    "drop k (plan_of True (concat (cs # rs))) = plan_of True (concat rs)" by simp_all
  have "fold wsi_write_planned_cell (plan_of True cs) (row_headers (of_nat (length (cells_bytes cs))) w) =
      emit (scalar_row_bytes cs) w"
    using writes_emit [OF writes_scalar_row [OF writes_planned_cells [OF _ cells] cells] fits(2)] Cons.prems(1) by simp
  moreover have "write_planned_rows k more (scalar_list_sizes rs) (plan_of True (concat rs)) (emit (scalar_row_bytes cs) w) =
      emit (scalar_rows_bytes rs) (emit (scalar_row_bytes cs) w)"
    using Cons.prems by (intro Cons.IH rows(2)) simp_all
  ultimately show ?case
    using Cons.prems(5) plan by (simp add: rows scalar_list_sizes_def Let_def)
qed

text \<open>Without a plan.\<close>

lemma write_scalar_cells_spec:
  assumes "effective_cells certified edits k list index delta = Some (cs, list', index', delta')" "exact_edits edits"
    "length (cells_bytes cs) < 2 ^ 32"
  shows "write_scalar_cells certified edits k list index delta w =
    (fold (\<lambda>c. wsi_write_cell c (scalar_sizes c)) cs w, list', index', delta')"
  using assms(1,3)
proof (induction k arbitrary: list index delta cs w)
  case (Suc k)
  from Suc.prems(1) obtain cell list1 index1 delta1 cells where
    cell: "next_cell certified edits list index delta = Some (cell, list1, index1, delta1)" "known_function cell" and
    rest: "effective_cells certified edits k list1 index1 delta1 = Some (cells, list', index', delta')" and
    cs: "cs = cell # cells"
    unfolding effective_cells_Suc by (auto simp: bind_eq_Some_conv)
  have "length (scalar_node_bytes cell) < 2 ^ 32"
    using Suc.prems(2) by (intro cell_fits [of cell cs]) (simp_all add: cs)
  with cell(2) have measured: "wsi_measure_cell cell = Some (scalar_sizes cell)"
    by (simp add: measure_scalar_spec [OF next_cell_packable [OF cell(1) assms(2)]])
  have "length (cells_bytes cells) < 2 ^ 32" using Suc.prems(2) by (simp add: cs)
  from Suc.IH [OF rest this] show ?case
    unfolding write_scalar_cells_Suc by (simp add: cell(1) measured cs)
qed simp

lemma write_scalar_rows_spec:
  assumes "effective_scalar_rows certified ins edits rows index delta = Some (rs, index', delta')" "exact_edits edits"
    "length (scalar_rows_bytes rs) < 2 ^ 32" "length (scalar_rows_bytes rs) \<le> w_room w" "\<not> w_failed w"
  shows "write_scalar_rows certified ins edits rows (scalar_list_sizes rs) index delta w =
    (emit (scalar_rows_bytes rs) w, index')"
  using assms(1,3-)
proof (induction rows arbitrary: index delta rs w)
  case Nil
  then show ?case by simp
next
  case (Cons row rows)
  from Cons.prems(1) obtain list cs list1 index1 delta1 rest where
    row: "wsi_read_row certified (Some ins) row = Some list" and
    cells: "effective_cells certified edits (x_column_count ins) list index delta = Some (cs, list1, index1, delta1)" and
    empty: "r_bytes list1 = []" and
    rest: "effective_scalar_rows certified ins edits rows index1 delta1 = Some (rest, index', delta')" and
    rs: "rs = cs # rest"
    by (auto simp: bind_eq_Some_conv)
  have fits: "length (scalar_row_bytes cs) < 2 ^ 32" "length (scalar_row_bytes cs) \<le> w_room w"
    using Cons.prems(2,3) by (simp_all add: rs)
  have short: "length (cells_bytes cs) < 2 ^ 32" using scalar_row_fits [OF fits(1)] by simp
  have "writes (fold (\<lambda>c. wsi_write_cell c (scalar_sizes c)) cs) (cells_bytes cs)"
    using effective_cells_packable(1) [OF cells assms(2)] by (intro writes_fold writes_scalar_cell) simp
  then have "fold (\<lambda>c. wsi_write_cell c (scalar_sizes c)) cs (row_headers (of_nat (length (cells_bytes cs))) w) =
      emit (scalar_row_bytes cs) w"
    using writes_emit [OF writes_scalar_row [OF _ short] fits(2)] by simp
  moreover have "write_scalar_rows certified ins edits rows (scalar_list_sizes rest) index1 delta1
      (emit (scalar_row_bytes cs) w) = (emit (scalar_rows_bytes rest) (emit (scalar_row_bytes cs) w), index')"
    using Cons.prems by (intro Cons.IH [OF rest]) (simp_all add: rs)
  ultimately show ?case
    using Cons.prems(4) by (simp add: rs row empty scalar_list_sizes_def Let_def
        write_scalar_cells_spec [OF cells assms(2) short])
qed

section \<open>The packer returns the reference encoding\<close>

text \<open>
  The specification of the packer: the bytes of the statement with the rows after the edits, when
  every edit meets a string cell, every value function is known, the text stays within 31 bits and
  the result within 32.
\<close>

definition packed_scalar_wire :: "bool \<Rightarrow> scalar_insert \<Rightarrow> source_edit list \<Rightarrow> byte list option" where
  "packed_scalar_wire certified ins edits = do {
     (rows, index, delta) \<leftarrow> effective_scalar_rows certified ins edits [0..<x_row_count ins] 0 0;
     check (index = length edits \<and> in_int32 (int (length (x_sql ins)) + delta));
     raw_length \<leftarrow> shifted_raw_length (x_raw_length ins) delta;
     let bytes = wire_bytes (x_version ins) (scalar_prefix ins) (scalar_rows_bytes rows) raw_length;
     check (length bytes < 2 ^ 32);
     Some bytes }"

lemma wsi_measure_spec:
  assumes "wsi_pack_guard ins es proven"
  shows "wsi_measure certified planned ins (edit_items es) = None \<and>
      packed_scalar_wire certified ins (edit_items es) = None \<or>
    (\<exists>rows delta rl.
       effective_scalar_rows certified ins (edit_items es) [0..<x_row_count ins] 0 0 =
         Some (rows, length (edit_items es), delta) \<and>
       wsi_measure certified planned ins (edit_items es) =
         Some (scalar_list_sizes rows, plan_of planned (concat rows), length (edit_items es), rl,
           sizes_of (x_version ins) (scalar_prefix ins) (scalar_rows_bytes rows) rl) \<and>
       packed_scalar_wire certified ins (edit_items es) =
         Some (wire_bytes (x_version ins) (scalar_prefix ins) (scalar_rows_bytes rows) rl) \<and>
       length (wire_bytes (x_version ins) (scalar_prefix ins) (scalar_rows_bytes rows) rl) < 2 ^ 32)"
proof -
  have prefix: "length (scalar_prefix ins) = unat (x_prefix_length ins)"
    using assms by (auto simp: wsi_pack_guard_def scalar_prefix_def split: option.splits)
  have exact: "exact_edits (edit_items es)"
    using assms edits_loop_exact by (fastforce simp: wsi_pack_guard_def wi_edits_def split: option.splits if_splits)
  note frame = frame_measure_spec [of "x_version ins" "scalar_prefix ins", unfolded prefix]
  show ?thesis
  proof (cases "effective_scalar_rows certified ins (edit_items es) [0..<x_row_count ins] 0 0")
    case None
    then show ?thesis by (simp add: wsi_measure_def packed_scalar_wire_def measure_scalar_rows_spec [OF _ exact])
  next
    case (Some t)
    obtain rows index delta where t: "t = (rows, index, delta)" by (cases t)
    note eff = Some [unfolded t]
    show ?thesis
    proof (cases "length (scalar_rows_bytes rows) < 2 ^ 32")
      case True
      then show ?thesis
        unfolding wsi_measure_def packed_scalar_wire_def
        by (auto simp: measure_scalar_rows_spec [OF _ exact] eff frame check_def Let_def split: option.splits Option.bind_splits)
    next
      case False
      then have "\<not> length (wire_bytes (x_version ins) (scalar_prefix ins) (scalar_rows_bytes rows) rl) < 2 ^ 32" for rl
        using wire_bytes_parts(6) by blast
      with False show ?thesis
        unfolding wsi_measure_def packed_scalar_wire_def
        by (auto simp: measure_scalar_rows_spec [OF _ exact] eff check_def Let_def split: Option.bind_splits)
    qed
  qed
qed

lemma wsi_write_spec:
  assumes eff: "effective_scalar_rows certified ins edits [0..<x_row_count ins] 0 0 = Some (rows, index, delta)"
    and exact: "exact_edits edits"
    and fits: "length (wire_bytes (x_version ins) (scalar_prefix ins) (scalar_rows_bytes rows) rl) < 2 ^ 32"
  shows "wsi_write certified planned ins edits (scalar_list_sizes rows) (plan_of planned (concat rows)) index rl
      (sizes_of (x_version ins) (scalar_prefix ins) (scalar_rows_bytes rows) rl) =
    (\<lparr>w_bytes = wire_bytes (x_version ins) (scalar_prefix ins) (scalar_rows_bytes rows) rl, w_room = 0,
      w_failed = False\<rparr>, index)"
proof -
  have body: "length (scalar_rows_bytes rows) < 2 ^ 32" by (rule wire_bytes_parts(6) [OF fits])
  have count: "effective_scalar_rows certified ins edits rws i d = Some (rs, i', d') \<Longrightarrow> length rs = length rws"
    for rws i d rs i' d'
    by (induction rws arbitrary: i d rs) (auto simp: bind_eq_Some_conv)
  have "(if planned
      then (write_planned_rows (x_column_count ins) [0..<x_row_count ins] (scalar_list_sizes rows)
        (plan_of planned (concat rows)) w, index)
      else write_scalar_rows certified ins edits [0..<x_row_count ins] (scalar_list_sizes rows) 0 0 w) =
      (emit (scalar_rows_bytes rows) w, index)"
    if "length (scalar_rows_bytes rows) \<le> w_room w" "\<not> w_failed w" for w
    using effective_rows_packable [OF eff exact] count [OF eff] that body
    by (auto simp: write_scalar_rows_spec [OF eff exact body] intro!: write_planned_rows_spec)
  from frame_filled [OF fits this] show ?thesis by (simp add: wsi_write_def Let_def)
qed

lemma wsi_pack_spec:
  "wsi_pack alloc (Some ins) (Some es) True proven =
     (if \<not> wsi_pack_guard ins es proven \<or> \<not> alloc 0 (x_row_count ins * 4) then Inl UNSUPPORTED
      else case packed_scalar_wire proven ins (edit_items es) of
        None \<Rightarrow> Inl UNSUPPORTED
      | Some bytes \<Rightarrow> if alloc 2 (length bytes) then Inr bytes else Inl NO_MEMORY)"
proof (cases "wsi_pack_guard ins es proven")
  case False
  then show ?thesis by (simp add: wsi_pack_def)
next
  case True
  have exact: "exact_edits (edit_items es)"
    using True edits_loop_exact by (fastforce simp: wsi_pack_guard_def wi_edits_def split: option.splits if_splits)
  from wsi_measure_spec [OF True, of proven "plan_kept alloc ins"] show ?thesis
  proof (elim disjE exE conjE)
    assume "wsi_measure proven (plan_kept alloc ins) ins (edit_items es) = None"
      "packed_scalar_wire proven ins (edit_items es) = None"
    then show ?thesis using True by (simp add: wsi_pack_def)
  next
    fix rows delta rl
    let ?wire = "wire_bytes (x_version ins) (scalar_prefix ins) (scalar_rows_bytes rows) rl"
      and ?z = "sizes_of (x_version ins) (scalar_prefix ins) (scalar_rows_bytes rows) rl"
    assume eff: "effective_scalar_rows proven ins (edit_items es) [0..<x_row_count ins] 0 0 =
        Some (rows, length (edit_items es), delta)"
      and measured: "wsi_measure proven (plan_kept alloc ins) ins (edit_items es) =
        Some (scalar_list_sizes rows, plan_of (plan_kept alloc ins) (concat rows), length (edit_items es), rl, ?z)"
      and packed: "packed_scalar_wire proven ins (edit_items es) = Some ?wire"
      and fits: "length ?wire < 2 ^ 32"
    have total: "unat (p_total ?z) = length ?wire"
      using u32_reads_length [OF fits] by (simp only: sizes_of_def frame_sizes.simps)
    show ?thesis
      using True unfolding wsi_pack_def
      by (simp add: measured packed total Let_def wsi_write_spec [OF eff exact fits])
  qed
qed

end
