(* ===== verification/Wire_Certify.thy ===== *)
theory Wire_Certify
  imports Wire_Pack Sql_Dialect
begin

text \<open>
  The certification of a two-column INSERT (\<^verbatim>\<open>sqlparser_wire_insert_certify\<close>): the source of the
  handle and its protobuf wire are read side by side, and a descriptor is made only when every byte
  of the wire is accounted for and every cell stands in the source where the wire says.  The
  position \<^verbatim>\<open>*pos\<close> in the source is a value that each scanning step returns; a step that fails
  yields \<open>None\<close>, as its callers give up with \<^verbatim>\<open>return NULL\<close>.
\<close>

section \<open>Scanning the source\<close>

definition gap_char :: "char \<Rightarrow> bool" where
  "gap_char c = (c = CHR '' '' \<or> c = CHR 0x09 \<or> c = CR \<or> c = LF \<or> c = CHR 0x0C \<or> c = CHR 0x0B)"

definition wi_gap :: "string \<Rightarrow> nat \<Rightarrow> nat" where
  "wi_gap sql pos = scan_while gap_char sql (length sql) pos"

definition wi_identifier_char :: "char \<Rightarrow> bool \<Rightarrow> bool" where
  "wi_identifier_char c first = (let n = (of_char c :: nat) in
     (97 \<le> n \<and> n \<le> 122) \<or> (65 \<le> n \<and> n \<le> 90) \<or> c = CHR ''_'' \<or>
     (\<not> first \<and> 48 \<le> n \<and> n \<le> 57))"

text \<open>The loop of \<^verbatim>\<open>wi_word\<close> over the rest of the source and of the expected word.\<close>

fun word_loop :: "string \<Rightarrow> byte list \<Rightarrow> nat \<Rightarrow> nat option" where
  "word_loop [] ws pos = (if ws = [] then Some pos else None)"
| "word_loop (c # cs) ws pos =
     (if wi_identifier_char c False
      then (case ws of
              [] \<Rightarrow> None
            | w # ws' \<Rightarrow> if of_char (c_tolower c) \<noteq> w then None else word_loop cs ws' (pos + 1))
      else if ws = [] then Some pos else None)"

definition wi_word :: "string \<Rightarrow> byte list \<Rightarrow> nat \<Rightarrow> nat option" where
  "wi_word sql w pos =
     (let pos = wi_gap sql pos
      in if pos = length sql \<or> \<not> wi_identifier_char (sql ! pos) True then None
         else word_loop (drop pos sql) w pos)"

definition wi_punctuation :: "string \<Rightarrow> char \<Rightarrow> nat \<Rightarrow> nat option" where
  "wi_punctuation sql c pos =
     (let pos = wi_gap sql pos
      in if pos = length sql \<or> sql ! pos \<noteq> c then None else Some (pos + 1))"

text \<open>The digits of an integer: the value and the number of digits, \<open>None\<close> past \<^verbatim>\<open>INT32_MAX\<close>.\<close>

fun digits_loop :: "string \<Rightarrow> nat \<Rightarrow> (nat \<times> nat) option" where
  "digits_loop [] number = Some (number, 0)"
| "digits_loop (c # cs) number =
     (if \<not> c_isdigit c then Some (number, 0)
      else let digit = of_char c - 48
        in if number > (INT32_MAX - digit) div 10 then None
           else map_option (\<lambda>(n, k). (n, k + 1)) (digits_loop cs (number * 10 + digit)))"

text \<open>The bytes of a string up to its closing quote.\<close>

fun string_loop :: "string \<Rightarrow> string option" where
  "string_loop [] = None"
| "string_loop (c # cs) =
     (if c = QUOTE then Some []
      else if of_char c < (0x20 :: nat) \<or> of_char c > (0x7e :: nat) \<or> c = BACKSLASH then None
      else map_option (Cons c) (string_loop cs))"

definition wi_source_cell :: "string \<Rightarrow> insert_cell \<Rightarrow> nat \<Rightarrow> nat \<Rightarrow> nat option" where
  "wi_source_cell sql c column pos =
     (let pos = wi_gap sql pos
      in if pos = length sql \<or> c_location c \<noteq> int pos then None
         else if column = 0
         then (if \<not> c_isdigit (sql ! pos) then None
               else (case digits_loop (drop pos sql) 0 of
                       None \<Rightarrow> None
                     | Some (number, k) \<Rightarrow> if int number = c_integer c then Some (pos + k) else None))
         else (if sql ! pos \<noteq> QUOTE then None
               else (case string_loop (drop (pos + 1) sql) of
                       None \<Rightarrow> None
                     | Some t \<Rightarrow> if bytes_of t = c_text c then Some (pos + length t + 2) else None)))"

section \<open>Names\<close>

text \<open>The persistence fields that follow the name of the relation.\<close>

definition persistence :: "nat \<Rightarrow> wi_reader \<Rightarrow> wi_reader option" where
  "persistence index m =
     (if index = 0 then do {
        m1 \<leftarrow> wi_enum 4 1 m;
        (t, m2) \<leftarrow> wi_text 5 m1;
        check (t = bytes_of ''p'');
        Some m2 }
      else Some m)"

text \<open>\<^verbatim>\<open>wi_name\<close>: the name, \<^verbatim>\<open>insert->text_bytes\<close> and \<^verbatim>\<open>*pos\<close> behind it.\<close>

definition wi_name ::
  "wi_reader \<Rightarrow> u32 \<Rightarrow> u32 \<Rightarrow> nat \<Rightarrow> string \<Rightarrow> nat \<Rightarrow> nat \<Rightarrow> (byte list \<times> nat \<times> nat) option" where
  "wi_name m name_field location_field index sql text_bytes pos = do {
     (name, m1) \<leftarrow> wi_text name_field m;
     m2 \<leftarrow> persistence index m1;
     (location, m3) \<leftarrow> wi_scalar location_field m2;
     check (r_bytes m3 = []);
     let pos = wi_gap sql pos;
     check (unat location = pos);
     pos \<leftarrow> wi_word sql name pos;
     check (\<not> length name \<ge> SIZE_MAX - text_bytes);
     Some (name, text_bytes + length name + 1, pos) }"

section \<open>The certificate\<close>

text \<open>
  The fields of \<^verbatim>\<open>sqlparser_handle_t\<close> the certifier looks at.  \<open>h_sql\<close> and \<open>h_parser_sql\<close> are the
  bytes of the buffers, terminator included; a flag stands for a pointer or a list that the code
  only tests for being there.
\<close>

record wire_handle =
  h_dialect :: dialect
  h_failed :: bool
  h_sql :: "string option"
  h_parser_sql :: "string option"
  h_ast :: bool
  h_generation :: nat
  h_source_complete :: bool
  h_current_sql :: bool
  h_current_parser_sql :: bool
  h_control :: bool
  h_statement_count :: nat
  h_sql_len :: nat
  h_parser_sql_len :: nat
  h_parse_tree :: "byte list option"
  h_batch_flags :: nat
  h_edits :: source_edits
  h_mutations :: bool
  h_spellings :: bool
  h_spelling_status :: status

text \<open>
  What the certifier asks of code outside the model: whether the dialect's state is that of a plain
  insert of so many strings, whether the generated schema is the one the reader was written for,
  and the structural size of a row in the native tree.
\<close>

record wire_env =
  e_plain_strings :: "nat \<Rightarrow> bool"
  e_schemas_match :: bool
  e_row_structure :: nat

text \<open>The guards of \<^verbatim>\<open>sqlparser_wire_insert_certify\<close>, and the source and wire it goes on with.\<close>

definition certify_guard :: "wire_handle option \<Rightarrow> (string \<times> byte list) option" where
  "certify_guard handle =
     (case handle of
        None \<Rightarrow> None
      | Some h \<Rightarrow>
          if h_dialect h \<noteq> MYSQL \<or> h_failed h then None
          else (case (h_sql h, h_parser_sql h, h_parse_tree h) of
                  (Some sql, Some parser_sql, Some wire) \<Rightarrow>
                    if h_ast h \<or> (h_generation h \<noteq> 0 \<and> \<not> h_source_complete h) \<or>
                       h_current_sql h \<or> h_current_parser_sql h \<or> h_control h \<or>
                       h_statement_count h \<noteq> 1 \<or> h_sql_len h \<noteq> h_parser_sql_len h \<or>
                       h_sql_len h < 32 * 6 \<or> h_sql_len h > INT32_MAX \<or> h_sql_len h > PTRDIFF_MAX \<or>
                       length wire = 0 \<or> length wire > UINT32_MAX \<or> length wire > PTRDIFF_MAX \<or>
                       h_batch_flags h \<noteq> 0 \<or> edit_items (h_edits h) \<noteq> [] \<or> edit_capacity (h_edits h) \<noteq> 0 \<or>
                       h_mutations h \<or> h_spellings h \<or> h_spelling_status h \<noteq> STATUS_OK \<or>
                       take (h_sql_len h + 1) sql \<noteq> take (h_sql_len h + 1) parser_sql \<or>
                       sql ! h_sql_len h \<noteq> NUL
                    then None else Some (take (h_sql_len h) sql, wire)
                | _ \<Rightarrow> None))"

text \<open>The source of one row, and its bounds.\<close>

definition certify_row ::
  "string \<Rightarrow> insert_cell \<Rightarrow> insert_cell \<Rightarrow> nat \<Rightarrow> nat \<Rightarrow> nat \<Rightarrow> nat option" where
  "certify_row sql cell0 cell1 row_count text_bytes pos = do {
     check (\<not> length (c_text cell1) > 32);
     pos \<leftarrow> (if row_count \<noteq> 0 then wi_punctuation sql (CHR '','') pos else Some pos);
     pos \<leftarrow> wi_punctuation sql (CHR ''('') pos;
     pos \<leftarrow> wi_source_cell sql cell0 0 pos;
     pos \<leftarrow> wi_punctuation sql (CHR '','') pos;
     pos \<leftarrow> wi_source_cell sql cell1 1 pos;
     pos \<leftarrow> wi_punctuation sql (CHR '')'') pos;
     check (\<not> (row_count = UINT32_MAX \<or> length (c_text cell1) \<ge> SIZE_MAX - text_bytes));
     Some pos }"

text \<open>The loop over the rows: \<^verbatim>\<open>values\<close>, \<^verbatim>\<open>pos\<close>, \<^verbatim>\<open>row_count\<close> and \<^verbatim>\<open>text_bytes\<close>.\<close>

lemma wi_row_consumes: "wi_row r = Some (cs, r') \<Longrightarrow> length (r_bytes r') < length (r_bytes r)"
  by (simp add: wi_row_exact row_bytes_def)

function certify_rows ::
  "string \<Rightarrow> wi_reader \<Rightarrow> nat \<Rightarrow> nat \<Rightarrow> nat \<Rightarrow> (wi_reader \<times> nat \<times> nat \<times> nat) option" where
  "certify_rows sql values pos row_count text_bytes =
     (if \<not> wi_key_is values WI_SELECT_VALUES 2 then Some (values, pos, row_count, text_bytes)
      else (case wi_row values of
              None \<Rightarrow> None
            | Some ((cell0, cell1), values') \<Rightarrow>
                (case certify_row sql cell0 cell1 row_count text_bytes pos of
                   None \<Rightarrow> None
                 | Some pos' \<Rightarrow>
                     certify_rows sql values' pos' (row_count + 1) (text_bytes + length (c_text cell1) + 1))))"
  by pat_completeness auto
termination
  by (relation "measure (\<lambda>(sql, values, pos, row_count, text_bytes). length (r_bytes values))")
    (auto simp: wi_row_consumes)

declare certify_rows.simps [simp del]

text \<open>The second pass: the offset of every row.\<close>

fun index_rows :: "nat \<Rightarrow> wi_reader \<Rightarrow> u32 list option" where
  "index_rows 0 rows = Some []"
| "index_rows (Suc n) rows =
     (case wi_message WI_SELECT_VALUES rows of
        None \<Rightarrow> None
      | Some (_, rows') \<Rightarrow> map_option (Cons (of_nat (r_at rows))) (index_rows n rows'))"

text \<open>\<^verbatim>\<open>sizeof(sqlparser_wire_insert_t)\<close> on an LP64 target.\<close>

definition sizeof_wire_insert :: nat where "sizeof_wire_insert = 96"

text \<open>The end of the source: an optional semicolon, where the statement length points to it.\<close>

definition certify_end :: "string \<Rightarrow> u32 \<Rightarrow> nat \<Rightarrow> nat option" where
  "certify_end sql raw_length pos =
     (let pos = wi_gap sql pos
      in if pos < length sql \<and> sql ! pos = CHR '';''
         then (if unat raw_length \<noteq> pos then None else Some (wi_gap sql (pos + 1)))
         else if raw_length \<noteq> 0 then None else Some pos)"

text \<open>The storage bound of an eligible certificate.\<close>

definition certify_budget :: "wire_env \<Rightarrow> nat \<Rightarrow> nat \<Rightarrow> bool" where
  "certify_budget env row_count text_bytes =
     (let footprint = text_bytes + row_count * 4 + sizeof_wire_insert
      in \<not> (e_row_structure env = 0 \<or> row_count > (2 ^ 64 - 1) div e_row_structure env) \<and>
         \<not> (footprint > row_count * 32 \<or> footprint > row_count * e_row_structure env div 12 \<or>
            row_count > SIZE_MAX div 4))"

text \<open>A column of the target list and its name.\<close>

definition certify_column ::
  "nat \<Rightarrow> char \<Rightarrow> string \<Rightarrow> wi_reader \<Rightarrow> nat \<Rightarrow> nat \<Rightarrow> (byte list \<times> wi_reader \<times> nat \<times> nat) option" where
  "certify_column index p sql ins text_bytes pos = do {
     (column, ins') \<leftarrow> wi_message WI_INSERT_COLS ins;
     (target, column') \<leftarrow> wi_message NODE_RES_TARGET column;
     check (r_bytes column' = []);
     (name, text_bytes, pos) \<leftarrow> wi_name target 1 4 index sql text_bytes pos;
     pos \<leftarrow> wi_punctuation sql p pos;
     Some (name, ins', text_bytes, pos) }"

definition wire_insert_certify :: "allocator \<Rightarrow> wire_env \<Rightarrow> wire_handle option \<Rightarrow> wire_insert option" where
  "wire_insert_certify alloc env handle = do {
     (sql, wire) \<leftarrow> certify_guard handle;
     (version, parse) \<leftarrow> wi_optional_scalar WI_PARSE_VERSION \<lparr>r_at = 0, r_bytes = wire\<rparr>;
     (raw, parse') \<leftarrow> wi_message WI_PARSE_STMTS parse;
     check (r_bytes parse' = []);
     (node, raw1) \<leftarrow> wi_message WI_RAW_STMT raw;
     (raw_length, raw2) \<leftarrow> wi_optional_scalar WI_RAW_LENGTH raw1;
     check (r_bytes raw2 = []);
     (ins, node') \<leftarrow> wi_message NODE_INSERT_STMT node;
     check (r_bytes node' = []);
     pos \<leftarrow> wi_word sql (bytes_of ''insert'') 0;
     pos \<leftarrow> wi_word sql (bytes_of ''into'') pos;
     (relation, ins1) \<leftarrow> wi_message WI_INSERT_RELATION ins;
     (name0, text_bytes, pos) \<leftarrow> wi_name relation 3 7 0 sql 0 pos;
     pos \<leftarrow> wi_punctuation sql (CHR ''('') pos;
     (name1, ins2, text_bytes, pos) \<leftarrow> certify_column 1 (CHR '','') sql ins1 text_bytes pos;
     (name2, ins3, text_bytes, pos) \<leftarrow> certify_column 2 (CHR '')'') sql ins2 text_bytes pos;
     (select_node, ins4) \<leftarrow> wi_message WI_INSERT_SELECT ins3;
     ins5 \<leftarrow> wi_enum WI_INSERT_OVERRIDE 1 ins4;
     check (r_bytes ins5 = []);
     (values, select_node') \<leftarrow> wi_message NODE_SELECT_STMT select_node;
     check (r_bytes select_node' = []);
     pos \<leftarrow> wi_word sql (bytes_of ''values'') pos;
     (values', pos, row_count, text_bytes) \<leftarrow> certify_rows sql values pos 0 text_bytes;
     check (\<not> row_count < 32);
     values1 \<leftarrow> wi_enum WI_SELECT_LIMIT 1 values';
     values2 \<leftarrow> wi_enum WI_SELECT_OP 1 values1;
     check (r_bytes values2 = []);
     pos \<leftarrow> certify_end sql raw_length pos;
     check (\<not> (pos \<noteq> length sql \<or> \<not> e_plain_strings env row_count \<or> \<not> e_schemas_match env));
     check (certify_budget env row_count text_bytes);
     check (alloc 0 sizeof_wire_insert);
     check (alloc 1 (row_count * 4));
     offsets \<leftarrow> index_rows row_count values;
     Some \<lparr>i_wire = Some wire, i_row_count = row_count, i_text_bytes = text_bytes, i_version = version,
           i_raw_length = raw_length, i_prefix_offset = of_nat (r_at ins),
           i_prefix_length = of_nat (r_at ins3) - of_nat (r_at ins),
           i_names = [name0, name1, name2], i_row_offsets = Some offsets\<rparr> }"

end
