(* ===== verification/Wire_Properties.thy ===== *)
theory Wire_Properties
  imports Wire_Certify
begin

text \<open>
  What the certificate of an INSERT promises and what the packer makes of it.  A certificate
  \<open>describes\<close> its wire: the wire is the canonical encoding of the rows, and every row offset points
  at its row; \<open>rows_at\<close> says that the cells stand in the source, in order, where their locations
  say.  Both survive the packer: the rows of the packed wire stand in the restored source.
\<close>

section \<open>Cells in the source\<close>

definition decimal :: "string \<Rightarrow> nat" where
  "decimal ds = foldl (\<lambda>n c. n * 10 + (of_char c - 48)) 0 ds"

text \<open>An unsigned integer at \<open>p\<close> whose digits end before \<open>q\<close>, and a quoted string at \<open>p\<close>.\<close>

definition integer_at :: "string \<Rightarrow> nat \<Rightarrow> int \<Rightarrow> nat \<Rightarrow> bool" where
  "integer_at sql p n q =
     (let ds = takeWhile c_isdigit (drop p sql)
      in ds \<noteq> [] \<and> p + length ds < q \<and> n = int (decimal ds))"

definition string_at :: "string \<Rightarrow> nat \<Rightarrow> byte list \<Rightarrow> bool" where
  "string_at sql p t =
     (p + length t + 2 \<le> length sql \<and> sql ! p = QUOTE \<and> sql ! (p + 1 + length t) = QUOTE \<and>
      bytes_of (take (length t) (drop (p + 1) sql)) = t)"

fun rows_at :: "string \<Rightarrow> nat \<Rightarrow> (insert_cell \<times> insert_cell) list \<Rightarrow> bool" where
  "rows_at sql pos [] = (pos \<le> length sql)"
| "rows_at sql pos (cs # rows) =
     (0 \<le> c_location (fst cs) \<and> 0 \<le> c_location (snd cs) \<and> pos \<le> nat (c_location (fst cs)) \<and>
      integer_at sql (nat (c_location (fst cs))) (c_integer (fst cs)) (nat (c_location (snd cs))) \<and>
      string_at sql (nat (c_location (snd cs))) (c_text (snd cs)) \<and>
      rows_at sql (nat (c_location (snd cs)) + length (c_text (snd cs)) + 2) rows)"

lemma wi_gap_bounds [scan_bounds]: "pos \<le> wi_gap sql pos" "pos \<le> length sql \<Longrightarrow> wi_gap sql pos \<le> length sql"
  by (simp_all add: wi_gap_def scan_while_le_length)

lemma wi_punctuation_bounds:
  assumes "wi_punctuation sql c pos = Some pos'" "pos \<le> length sql"
  shows "pos < pos'" "pos' \<le> length sql"
proof -
  have "pos' = wi_gap sql pos + 1" "wi_gap sql pos \<noteq> length sql"
    using assms(1) by (auto simp: wi_punctuation_def Let_def split: if_splits)
  then show "pos < pos'" "pos' \<le> length sql"
    using wi_gap_bounds [of pos sql] assms(2) by linarith+
qed

lemma digits_loop_spec:
  "digits_loop cs number = Some (n, k) \<Longrightarrow>
     k = length (takeWhile c_isdigit cs) \<and>
     n = foldl (\<lambda>n c. n * 10 + (of_char c - 48)) number (takeWhile c_isdigit cs)"
proof (induction cs arbitrary: number n k)
  case (Cons c cs)
  then show ?case by (auto simp: Let_def split: if_splits)
qed simp

lemma string_loop_spec: "string_loop cs = Some t \<Longrightarrow> \<exists>rest. cs = t @ QUOTE # rest"
proof (induction cs arbitrary: t)
  case (Cons c cs)
  then show ?case by (auto split: if_splits)
qed simp

lemma length_bytes_of [simp]: "length (bytes_of t) = length t"
  by (simp add: bytes_of_def)

lemma source_integer:
  assumes "wi_source_cell sql c 0 pos = Some pos'" "pos \<le> length sql"
  shows "pos \<le> nat (c_location c)" "0 \<le> c_location c" "pos' \<le> length sql"
    "pos' < q \<Longrightarrow> integer_at sql (nat (c_location c)) (c_integer c) q"
proof -
  let ?p = "wi_gap sql pos"
  have le: "?p \<le> length sql" using wi_gap_bounds(2) assms(2) by blast
  obtain number k where p: "?p \<noteq> length sql" "c_location c = int ?p" "c_isdigit (sql ! ?p)"
    and loop: "digits_loop (drop ?p sql) 0 = Some (number, k)" and n: "int number = c_integer c" "pos' = ?p + k"
    using assms(1) by (auto simp: wi_source_cell_def Let_def split: if_splits option.splits)
  note spec = digits_loop_spec [OF loop]
  have "takeWhile c_isdigit (drop ?p sql) \<noteq> []"
    using p le by (simp add: Cons_nth_drop_Suc [symmetric, of ?p sql])
  then show "pos' < q \<Longrightarrow> integer_at sql (nat (c_location c)) (c_integer c) q"
    using spec n p(2) by (simp add: integer_at_def Let_def decimal_def)
  show "pos \<le> nat (c_location c)" "0 \<le> c_location c" using p(2) wi_gap_bounds(1) [of pos sql] by simp_all
  have "k \<le> length (drop ?p sql)" using spec length_takeWhile_le [of c_isdigit "drop ?p sql"] by simp
  then show "pos' \<le> length sql" using n le by simp
qed

lemma source_advances: "wi_source_cell sql c 0 pos = Some pos' \<Longrightarrow> pos \<le> pos'"
  using wi_gap_bounds(1) [of pos sql]
  by (auto simp: wi_source_cell_def Let_def split: if_splits option.splits)

lemma source_string:
  assumes "wi_source_cell sql c 1 pos = Some pos'" "pos \<le> length sql"
  shows "pos \<le> nat (c_location c)" "0 \<le> c_location c" "string_at sql (nat (c_location c)) (c_text c)"
    "pos' = nat (c_location c) + length (c_text c) + 2"
proof -
  let ?p = "wi_gap sql pos"
  have le: "?p \<le> length sql" using wi_gap_bounds(2) assms(2) by blast
  obtain t where p: "?p \<noteq> length sql" "c_location c = int ?p" "sql ! ?p = QUOTE"
    and loop: "string_loop (drop (?p + 1) sql) = Some t" and t: "bytes_of t = c_text c" "pos' = ?p + length t + 2"
    using assms(1) by (auto simp: wi_source_cell_def Let_def split: if_splits option.splits)
  obtain rest where rest: "drop (?p + 1) sql = t @ QUOTE # rest" using string_loop_spec [OF loop] by blast
  have len: "length sql - (?p + 1) = length t + 1 + length rest"
    using arg_cong [OF rest, of length] by simp
  have slice: "take (length t) (drop (?p + 1) sql) = t" using rest by simp
  have quote: "sql ! (?p + 1 + length t) = QUOTE"
    using arg_cong [OF rest, of "\<lambda>xs. xs ! length t"] len p le by simp
  have lt: "length (c_text c) = length t" using t(1) by (metis length_bytes_of)
  show "string_at sql (nat (c_location c)) (c_text c)"
    using p t(1) slice quote len le unfolding string_at_def lt by simp
  show "pos' = nat (c_location c) + length (c_text c) + 2" using t(2) p(2) lt by simp
  show "pos \<le> nat (c_location c)" "0 \<le> c_location c" using p(2) wi_gap_bounds(1) [of pos sql] by simp_all
qed

lemma rows_at_weaken: "rows_at sql pos rows \<Longrightarrow> pos' \<le> pos \<Longrightarrow> pos \<le> length sql \<Longrightarrow> rows_at sql pos' rows"
  by (cases rows) auto

text \<open>The row loop accounts for every byte it reads, and each row it reads stands in the source.\<close>

lemma certify_rows_accepts:
  "certify_rows sql v pos rc tb = Some (v', pos', rc', tb') \<Longrightarrow> pos \<le> length sql \<Longrightarrow>
   \<exists>rows. r_bytes v = rows_bytes rows @ r_bytes v' \<and> list_all good_row rows \<and>
     rc' = rc + length rows \<and> rows_at sql pos rows \<and> pos \<le> pos' \<and> pos' \<le> length sql"
proof (induction sql v pos rc tb rule: certify_rows.induct)
  case (1 sql v pos rc tb)
  show ?case
  proof (cases "wi_key_is v WI_SELECT_VALUES 2")
    case False
    with 1 show ?thesis by (intro exI [of _ "[]"]) (simp add: certify_rows.simps [of sql v])
  next
    case True
    obtain cell0 cell1 v1 p6 where row: "wi_row v = Some ((cell0, cell1), v1)"
      and steps: "certify_row sql cell0 cell1 rc tb pos = Some p6"
      and rest: "certify_rows sql v1 p6 (rc + 1) (tb + length (c_text cell1) + 1) = Some (v', pos', rc', tb')"
      using True "1.prems"(1)
      by (auto simp: certify_rows.simps [of sql v] split: option.splits)
    obtain p1 p2 p3 p4 p5 where
      p1: "(if rc \<noteq> 0 then wi_punctuation sql (CHR '','') pos else Some pos) = Some p1"
      and p2: "wi_punctuation sql (CHR ''('') p1 = Some p2"
      and p3: "wi_source_cell sql cell0 0 p2 = Some p3"
      and p4: "wi_punctuation sql (CHR '','') p3 = Some p4"
      and p5: "wi_source_cell sql cell1 1 p4 = Some p5"
      and p6: "wi_punctuation sql (CHR '')'') p5 = Some p6"
      using steps unfolding certify_row_def bind_eq_Some_conv by blast
    have le1: "pos \<le> p1" "p1 \<le> length sql"
      using p1 "1.prems"(2) by (auto dest: wi_punctuation_bounds split: if_splits)
    note le2 = wi_punctuation_bounds [OF p2 le1(2)]
    note int = source_integer [OF p3 le2(2)]
    note le4 = wi_punctuation_bounds [OF p4 int(3)]
    note str = source_string [OF p5 le4(2)]
    have le5: "p5 \<le> length sql" using str(3,4) by (simp add: string_at_def)
    note le6 = wi_punctuation_bounds [OF p6 le5]
    have at: "integer_at sql (nat (c_location cell0)) (c_integer cell0) (nat (c_location cell1))"
      using int(4) le4(1) str(1) by simp
    have "\<exists>rows. r_bytes v1 = rows_bytes rows @ r_bytes v' \<and> list_all good_row rows \<and>
        rc' = rc + 1 + length rows \<and> rows_at sql p6 rows \<and> p6 \<le> pos' \<and> pos' \<le> length sql"
      using 1(1) [OF _ row refl refl steps rest le6(2)] True by blast
    then obtain rows where rows: "r_bytes v1 = rows_bytes rows @ r_bytes v'" "list_all good_row rows"
        "rc' = rc + 1 + length rows" "rows_at sql p6 rows" "p6 \<le> pos'" "pos' \<le> length sql" by blast
    have "rows_at sql (nat (c_location cell1) + length (c_text cell1) + 2) rows"
      using rows_at_weaken [OF rows(4)] le6 str(4) by simp
    then have "rows_at sql pos ((cell0, cell1) # rows)"
      using le1 le2 int(1,2) at str(2,3) by simp
    moreover have "pos \<le> pos'" using le1 le2 le4 str(1,4) le6 rows(5) source_advances [OF p3] by linarith
    ultimately show ?thesis
      using row rows unfolding wi_row_exact by (intro exI [of _ "(cell0, cell1) # rows"]) simp
  qed
qed

section \<open>A certificate describes its wire\<close>

text \<open>A reader inside a wire.\<close>

definition located :: "byte list \<Rightarrow> wi_reader \<Rightarrow> bool" where
  "located wire r \<longleftrightarrow> (\<exists>pre post. wire = pre @ r_bytes r @ post \<and> length pre = r_at r)"

lemma located_start: "located wire \<lparr>r_at = 0, r_bytes = wire\<rparr>"
  unfolding located_def by (intro exI [of _ "[]"]) simp

lemma located_rest:
  assumes "located wire r" "r_bytes r = a @ r_bytes r'" "r_at r' = r_at r + length a"
  shows "located wire r'"
proof -
  obtain pre post where "wire = pre @ r_bytes r @ post" "length pre = r_at r"
    using assms(1) by (auto simp: located_def)
  then show ?thesis
    unfolding located_def using assms(2,3) by (intro exI [of _ "pre @ a"] exI [of _ post]) simp
qed

lemma located_message:
  assumes "located wire r" "wi_message f r = Some (c, r')"
  shows "located wire c" "located wire r'"
proof -
  let ?head = "u32_bytes (wi_tag f 2) @ u32_bytes (of_nat (length (r_bytes c)))"
  obtain pre post where wire: "wire = pre @ r_bytes r @ post" "length pre = r_at r"
    using assms(1) by (auto simp: located_def)
  have m: "r_bytes r = ?head @ r_bytes c @ r_bytes r'" "r_at c = r_at r + length ?head"
    using assms(2) by (simp_all add: wi_message_exact message_bytes_def)
  show "located wire c"
    unfolding located_def using wire m by (intro exI [of _ "pre @ ?head"] exI [of _ "r_bytes r' @ post"]) simp
  show "located wire r'"
    using assms by (auto simp: wi_message_exact intro: located_rest)
qed

lemma located_optional_scalar:
  "located wire r \<Longrightarrow> wi_optional_scalar f r = Some (v, r') \<Longrightarrow> located wire r'"
  using wi_optional_scalar_accepts(2,3) [of f r v r'] by (blast intro: located_rest)

lemma located_drop: "located wire r \<Longrightarrow> \<exists>post. drop (r_at r) wire = r_bytes r @ post"
  by (auto simp: located_def)

lemma located_bound: "located wire r \<Longrightarrow> r_at r + length (r_bytes r) \<le> length wire"
  by (auto simp: located_def)

definition describes :: "wire_insert \<Rightarrow> (insert_cell \<times> insert_cell) list \<Rightarrow> bool" where
  "describes ins rows \<longleftrightarrow>
     (\<exists>wire offsets. i_wire ins = Some wire \<and> length wire < 2 ^ 32 \<and>
        wire = wire_bytes (i_version ins) (wire_prefix ins) (rows_bytes rows) (i_raw_length ins) \<and>
        unat (i_version ins) \<le> INT32_MAX \<and> unat (i_raw_length ins) \<le> INT32_MAX \<and>
        i_row_count ins = length rows \<and> list_all good_row rows \<and>
        unat (i_prefix_offset ins) + unat (i_prefix_length ins) \<le> length wire \<and>
        i_row_offsets ins = Some offsets \<and>
        (\<forall>i < length rows. \<exists>s. drop (unat (offsets ! i)) wire = row_bytes (rows ! i) @ s))"

lemma row_bytes_not_Nil [simp]: "row_bytes cs \<noteq> []"
  by (simp add: row_bytes_def)

lemma describes_reader:
  assumes "describes ins rows" "i < length rows"
  shows "\<exists>r s. row_reader (Some ins) i = Some r \<and> r_bytes r = row_bytes (rows ! i) @ s"
proof -
  obtain wire offsets s where wire: "i_wire ins = Some wire" "length wire < 2 ^ 32"
    and offsets: "i_row_offsets ins = Some offsets" "i_row_count ins = length rows"
    and row: "drop (unat (offsets ! i)) wire = row_bytes (rows ! i) @ s"
    using assms unfolding describes_def by blast
  have "unat (offsets ! i) < length wire"
  proof (rule ccontr)
    assume "\<not> unat (offsets ! i) < length wire"
    then have "drop (unat (offsets ! i)) wire = []" by simp
    with row show False by simp
  qed
  then show ?thesis
    using wire offsets row assms(2) by (simp add: row_reader_def PTRDIFF_MAX_def)
qed

text \<open>Both row accessors return the described row.\<close>

lemma describes_rows:
  assumes "describes ins rows" "i < length rows"
  shows "wire_insert_row (Some ins) i = Some (rows ! i)"
    "wire_insert_certified_row (Some ins) i = Some (rows ! i)"
proof -
  have good: "good_row (rows ! i)" using assms by (auto simp: describes_def list_all_length)
  obtain r s where r: "row_reader (Some ins) i = Some r" "r_bytes r = row_bytes (rows ! i) @ s"
    using describes_reader [OF assms] by blast
  show "wire_insert_certified_row (Some ins) i = Some (rows ! i)"
    by (rule certified_row_reads [OF good r])
  have "r = \<lparr>r_at = r_at r, r_bytes = row_bytes (rows ! i) @ s\<rparr>" using r(2) by simp
  then have "wi_row r = Some (rows ! i, \<lparr>r_at = r_at r + length (row_bytes (rows ! i)), r_bytes = s\<rparr>)"
    using wi_row_reads [OF good] by metis
  then show "wire_insert_row (Some ins) i = Some (rows ! i)"
    by (simp add: wire_insert_row_def r(1))
qed

text \<open>The index of the messages that follow one another, and what the offsets point at.\<close>

lemma index_messages:
  assumes "r_bytes v = concat (map (message_bytes WI_SELECT_VALUES) nodes) @ s" "\<forall>p \<in> set nodes. length p < 2 ^ 32"
  shows "\<exists>offsets. index_rows (length nodes) v = Some offsets \<and> length offsets = length nodes \<and>
    (\<forall>i < length nodes. offsets ! i =
       of_nat (r_at v + length (concat (map (message_bytes WI_SELECT_VALUES) (take i nodes)))))"
  using assms
proof (induction nodes arbitrary: v)
  case (Cons p nodes)
  let ?rest = "concat (map (message_bytes WI_SELECT_VALUES) nodes) @ s"
  let ?v' = "\<lparr>r_at = r_at v + length (message_bytes WI_SELECT_VALUES p), r_bytes = ?rest\<rparr>"
  have "v = \<lparr>r_at = r_at v, r_bytes = message_bytes WI_SELECT_VALUES p @ ?rest\<rparr>"
    using Cons.prems(1) by simp
  then have head: "\<exists>c. wi_message WI_SELECT_VALUES v = Some (c, ?v')"
    using wi_message_reads [of p WI_SELECT_VALUES "r_at v" ?rest] Cons.prems(2) by (metis list.set_intros(1))
  obtain offsets where IH: "index_rows (length nodes) ?v' = Some offsets" "length offsets = length nodes"
    "\<forall>i < length nodes. offsets ! i =
       of_nat (r_at ?v' + length (concat (map (message_bytes WI_SELECT_VALUES) (take i nodes))))"
    using Cons.IH [of ?v'] Cons.prems(2) by auto
  have "(of_nat (r_at v) # offsets) ! i =
      of_nat (r_at v + length (concat (map (message_bytes WI_SELECT_VALUES) (take i (p # nodes)))))"
    if "i < Suc (length nodes)" for i
    using that IH(3) by (cases i) (simp_all add: add.assoc)
  with head IH(1,2) show ?case by auto
qed simp

lemma pieces_point:
  assumes "located wire v" "r_bytes v = concat bs @ s" "length wire < 2 ^ 32" "i < length bs"
  shows "\<exists>t. drop (unat (of_nat (r_at v + length (concat (take i bs))) :: u32)) wire = bs ! i @ t"
proof -
  obtain pre post where wire: "wire = pre @ concat bs @ s @ post" "length pre = r_at v"
    using assms(1,2) by (auto simp: located_def)
  have pieces: "concat bs = concat (take i bs) @ bs ! i @ concat (drop (Suc i) bs)"
    using id_take_nth_drop [OF assms(4)] by (metis concat.simps(2) concat_append)
  let ?at = "r_at v + length (concat (take i bs))"
  have "?at < 2 ^ 32" using assms(3) wire by (subst (asm) pieces) simp
  then have "unat (of_nat ?at :: u32) = ?at" by (simp only: unat_of_nat) (simp add: take_bit_nat_eq_self)
  moreover have "drop ?at wire = bs ! i @ concat (drop (Suc i) bs) @ s @ post"
    unfolding wire(1) wire(2) [symmetric] by (subst pieces) simp
  ultimately show ?thesis by metis
qed

lemma index_rows_spec:
  assumes "r_bytes v = rows_bytes rows @ s" "list_all good_row rows"
  shows "\<exists>offsets. index_rows (length rows) v = Some offsets \<and> length offsets = length rows \<and>
    (\<forall>i < length rows. offsets ! i = of_nat (r_at v + length (rows_bytes (take i rows))))"
proof -
  let ?nodes = "map (\<lambda>cs. message_bytes NODE_LIST (list_bytes cs)) rows"
  have "\<forall>p \<in> set ?nodes. length p < 2 ^ 32" using assms(2) by (auto simp: list_all_iff good_row_def)
  with index_messages [of v ?nodes s] assms(1) show ?thesis
    by (simp add: comp_def take_map row_bytes_def [abs_def])
qed

lemma offsets_point:
  assumes "located wire v" "r_bytes v = rows_bytes rows @ s" "length wire < 2 ^ 32" "i < length rows"
  shows "\<exists>t. drop (unat (of_nat (r_at v + length (rows_bytes (take i rows))) :: u32)) wire = row_bytes (rows ! i) @ t"
  using pieces_point [of wire v "map row_bytes rows" s i] assms by (simp add: take_map)

lemma certify_column_accepts:
  assumes "certify_column index p sql ins tb pos = Some (name, ins', tb', pos')"
  shows "\<exists>c. wi_message WI_INSERT_COLS ins = Some (c, ins')"
  using assms by (auto simp: certify_column_def bind_eq_Some_conv)

lemma word_loop_bounds: "word_loop cs ws pos = Some pos' \<Longrightarrow> pos \<le> pos' \<and> pos' \<le> pos + length cs"
proof (induction cs ws pos rule: word_loop.induct)
  case (2 c cs ws pos)
  then show ?case by (fastforce split: if_splits list.splits)
qed (simp split: if_splits)

lemma wi_word_bounds:
  assumes "wi_word sql w pos = Some pos'" "pos \<le> length sql"
  shows "pos \<le> pos'" "pos' \<le> length sql"
  using assms word_loop_bounds [of "drop (wi_gap sql pos) sql" w "wi_gap sql pos" pos']
    wi_gap_bounds [of pos sql]
  by (auto simp: wi_word_def Let_def split: if_splits)

lemma wi_name_bounds:
  assumes "wi_name m f g i sql tb pos = Some (name, tb', pos')" "pos \<le> length sql"
  shows "pos' \<le> length sql"
proof -
  obtain p where "wi_word sql name (wi_gap sql pos) = Some p" "pos' = p"
    using assms(1) by (auto simp: wi_name_def Let_def bind_eq_Some_conv)
  then show ?thesis using wi_word_bounds(2) wi_gap_bounds(2) assms(2) by metis
qed

lemma certify_column_bounds:
  assumes "certify_column index p sql ins tb pos = Some (name, ins', tb', pos')" "pos \<le> length sql"
  shows "pos' \<le> length sql"
proof -
  obtain target pos1 tb1 where "wi_name target 1 4 index sql tb pos = Some (name, tb1, pos1)"
    "wi_punctuation sql p pos1 = Some pos'"
    using assms(1) by (auto simp: certify_column_def bind_eq_Some_conv)
  then show ?thesis using wi_name_bounds wi_punctuation_bounds(2) assms(2) by metis
qed

text \<open>The steps of a successful certification that its properties rest on.\<close>

lemma certify_elim:
  assumes "wire_insert_certify alloc env handle = Some c"
  obtains sql wire version parse raw parse' node raw1 raw_length raw2 ins node' pos1 pos2 relation ins1
    name0 tb0 pos3 pos4 name1 ins2 tb1 pos5 name2 ins3 tb2 pos6 select_node ins4 ins5 vals select_node' pos7
    vals' pos8 row_count tb3 vals1 vals2 pos9 offsets where
    "certify_guard handle = Some (sql, wire)"
    "wi_optional_scalar WI_PARSE_VERSION \<lparr>r_at = 0, r_bytes = wire\<rparr> = Some (version, parse)"
    "wi_message WI_PARSE_STMTS parse = Some (raw, parse')" "r_bytes parse' = []"
    "wi_message WI_RAW_STMT raw = Some (node, raw1)"
    "wi_optional_scalar WI_RAW_LENGTH raw1 = Some (raw_length, raw2)" "r_bytes raw2 = []"
    "wi_message NODE_INSERT_STMT node = Some (ins, node')" "r_bytes node' = []"
    "wi_word sql (bytes_of ''insert'') 0 = Some pos1" "wi_word sql (bytes_of ''into'') pos1 = Some pos2"
    "wi_message WI_INSERT_RELATION ins = Some (relation, ins1)"
    "wi_name relation 3 7 0 sql 0 pos2 = Some (name0, tb0, pos3)"
    "wi_punctuation sql (CHR ''('') pos3 = Some pos4"
    "certify_column 1 (CHR '','') sql ins1 tb0 pos4 = Some (name1, ins2, tb1, pos5)"
    "certify_column 2 (CHR '')'') sql ins2 tb1 pos5 = Some (name2, ins3, tb2, pos6)"
    "wi_message WI_INSERT_SELECT ins3 = Some (select_node, ins4)"
    "wi_enum WI_INSERT_OVERRIDE 1 ins4 = Some ins5" "r_bytes ins5 = []"
    "wi_message NODE_SELECT_STMT select_node = Some (vals, select_node')" "r_bytes select_node' = []"
    "wi_word sql (bytes_of ''values'') pos6 = Some pos7"
    "certify_rows sql vals pos7 0 tb2 = Some (vals', pos8, row_count, tb3)" "32 \<le> row_count"
    "wi_enum WI_SELECT_LIMIT 1 vals' = Some vals1" "wi_enum WI_SELECT_OP 1 vals1 = Some vals2" "r_bytes vals2 = []"
    "certify_end sql raw_length pos8 = Some pos9"
    "\<not> (pos9 \<noteq> length sql \<or> \<not> e_plain_strings env row_count \<or> \<not> e_schemas_match env)"
    "certify_budget env row_count tb3"
    "index_rows row_count vals = Some offsets"
    "c = \<lparr>i_wire = Some wire, i_row_count = row_count, i_text_bytes = tb3, i_version = version,
           i_raw_length = raw_length, i_prefix_offset = of_nat (r_at ins),
           i_prefix_length = of_nat (r_at ins3) - of_nat (r_at ins),
           i_names = [name0, name1, name2], i_row_offsets = Some offsets\<rparr>"
proof -
  show thesis
    using assms unfolding wire_insert_certify_def
    apply (elim step_Some pair_step_Some)
    apply hypsubst
    apply (simp only: check_eq_Some option.inject not_less)
    apply (rule that; (assumption | rule sym, assumption))
    done
qed

lemma one_scalar [simp]: "unat (1 :: u32) \<le> INT32_MAX"
  by (simp add: INT32_MAX_def)

lemma certify_guard_wire: "certify_guard handle = Some (sql, wire) \<Longrightarrow> length wire < 2 ^ 32"
  by (auto simp: certify_guard_def UINT32_MAX_def split: option.splits if_splits)

lemma prefix_located:
  assumes "located wire r" "r_bytes r = prefix @ s" "length wire < 2 ^ 32"
  defines "offset \<equiv> of_nat (r_at r) :: u32" and "extent \<equiv> of_nat (r_at r + length prefix) - of_nat (r_at r) :: u32"
  shows "take (unat extent) (drop (unat offset) wire) = prefix" "unat offset + unat extent \<le> length wire"
proof -
  obtain post where post: "drop (r_at r) wire = prefix @ s @ post"
    using located_drop [OF assms(1)] assms(2) by auto
  have bound: "r_at r + length prefix \<le> length wire"
    using located_bound [OF assms(1)] assms(2) by simp
  then have "r_at r < 2 ^ 32" "length prefix < 2 ^ 32" using assms(3) by simp_all
  then have "unat offset = r_at r" "unat extent = length prefix"
    unfolding offset_def extent_def by (simp_all add: unat_of_nat take_bit_nat_eq_self)
  with post bound show "take (unat extent) (drop (unat offset) wire) = prefix" "unat offset + unat extent \<le> length wire"
    by simp_all
qed

lemma wire_prefix_located:
  assumes "located wire r" "r_bytes r = prefix @ s" "length wire < 2 ^ 32" "i_wire c = Some wire"
    "i_prefix_offset c = of_nat (r_at r)" "i_prefix_length c = of_nat (r_at r + length prefix) - of_nat (r_at r)"
  shows "wire_prefix c = prefix" "unat (i_prefix_offset c) + unat (i_prefix_length c) \<le> length wire"
  using prefix_located [OF assms(1-3)] unfolding wire_prefix_def assms(4-6) by simp_all

text \<open>The reader of the rows of a wire.\<close>

definition values_of :: "byte list \<Rightarrow> wi_reader option" where
  "values_of wire = do {
     (version, parse) \<leftarrow> wi_optional_scalar WI_PARSE_VERSION \<lparr>r_at = 0, r_bytes = wire\<rparr>;
     (raw, parse') \<leftarrow> wi_message WI_PARSE_STMTS parse;
     (node, raw1) \<leftarrow> wi_message WI_RAW_STMT raw;
     (ins, node') \<leftarrow> wi_message NODE_INSERT_STMT node;
     (relation, ins1) \<leftarrow> wi_message WI_INSERT_RELATION ins;
     (a, ins2) \<leftarrow> wi_message WI_INSERT_COLS ins1;
     (b, ins3) \<leftarrow> wi_message WI_INSERT_COLS ins2;
     (select_node, ins4) \<leftarrow> wi_message WI_INSERT_SELECT ins3;
     (vals, select_node') \<leftarrow> wi_message NODE_SELECT_STMT select_node;
     Some vals }"

text \<open>
  A certificate describes its wire, its rows stand in the source of the handle in order, and there
  are at least 32 of them.
\<close>

lemma certify_describes:
  assumes "wire_insert_certify alloc env handle = Some c"
  obtains sql wire rows vals where "certify_guard handle = Some (sql, wire)" "i_wire c = Some wire"
    "describes c rows" "rows_at sql 0 rows" "32 \<le> length rows"
    "values_of wire = Some vals" "r_bytes vals = select_bytes (rows_bytes rows)"
  using assms
proof (rule certify_elim)
  fix sql wire version parse raw parse' node raw1 raw_length raw2 ins node' pos1 pos2 relation ins1
    name0 tb0 pos3 pos4 name1 ins2 tb1 pos5 name2 ins3 tb2 pos6 select_node ins4 ins5 vals select_node' pos7
    vals' pos8 row_count tb3 vals1 vals2 offsets
  assume guard: "certify_guard handle = Some (sql, wire)"
    and version: "wi_optional_scalar WI_PARSE_VERSION \<lparr>r_at = 0, r_bytes = wire\<rparr> = Some (version, parse)"
    and raw: "wi_message WI_PARSE_STMTS parse = Some (raw, parse')" "r_bytes parse' = []"
    and node: "wi_message WI_RAW_STMT raw = Some (node, raw1)"
    and raw_length: "wi_optional_scalar WI_RAW_LENGTH raw1 = Some (raw_length, raw2)" "r_bytes raw2 = []"
    and ins: "wi_message NODE_INSERT_STMT node = Some (ins, node')" "r_bytes node' = []"
    and w1: "wi_word sql (bytes_of ''insert'') 0 = Some pos1" and w2: "wi_word sql (bytes_of ''into'') pos1 = Some pos2"
    and relation: "wi_message WI_INSERT_RELATION ins = Some (relation, ins1)"
    and name: "wi_name relation 3 7 0 sql 0 pos2 = Some (name0, tb0, pos3)"
    and open_paren: "wi_punctuation sql (CHR ''('') pos3 = Some pos4"
    and col1: "certify_column 1 (CHR '','') sql ins1 tb0 pos4 = Some (name1, ins2, tb1, pos5)"
    and col2: "certify_column 2 (CHR '')'') sql ins2 tb1 pos5 = Some (name2, ins3, tb2, pos6)"
    and select: "wi_message WI_INSERT_SELECT ins3 = Some (select_node, ins4)"
    and override: "wi_enum WI_INSERT_OVERRIDE 1 ins4 = Some ins5" "r_bytes ins5 = []"
    and vals: "wi_message NODE_SELECT_STMT select_node = Some (vals, select_node')" "r_bytes select_node' = []"
    and w3: "wi_word sql (bytes_of ''values'') pos6 = Some pos7"
    and rows: "certify_rows sql vals pos7 0 tb2 = Some (vals', pos8, row_count, tb3)" "32 \<le> row_count"
    and tail: "wi_enum WI_SELECT_LIMIT 1 vals' = Some vals1" "wi_enum WI_SELECT_OP 1 vals1 = Some vals2" "r_bytes vals2 = []"
    and offsets: "index_rows row_count vals = Some offsets"
    and c: "c = \<lparr>i_wire = Some wire, i_row_count = row_count, i_text_bytes = tb3, i_version = version,
           i_raw_length = raw_length, i_prefix_offset = of_nat (r_at ins),
           i_prefix_length = of_nat (r_at ins3) - of_nat (r_at ins),
           i_names = [name0, name1, name2], i_row_offsets = Some offsets\<rparr>"
  note small = certify_guard_wire [OF guard]
  have pos7: "pos7 \<le> length sql"
    by (meson w1 w2 w3 name open_paren col1 col2 wi_word_bounds(2) wi_name_bounds wi_punctuation_bounds(2)
        certify_column_bounds le0)
  obtain rs where rs: "r_bytes vals = rows_bytes rs @ r_bytes vals'" "list_all good_row rs"
      "row_count = length rs" "rows_at sql pos7 rs"
    using certify_rows_accepts [OF rows(1) pos7] by auto
  obtain a b where ab: "wi_message WI_INSERT_COLS ins1 = Some (a, ins2)" "wi_message WI_INSERT_COLS ins2 = Some (b, ins3)"
    using certify_column_accepts [OF col1] certify_column_accepts [OF col2] by blast
  define prefix where "prefix = message_bytes WI_INSERT_RELATION (r_bytes relation) @
      message_bytes WI_INSERT_COLS (r_bytes a) @ message_bytes WI_INSERT_COLS (r_bytes b)"
  have ins_bytes: "r_bytes ins = prefix @ r_bytes ins3" "r_at ins3 = r_at ins + length prefix"
    using relation ab by (simp_all add: prefix_def wi_message_exact)
  have vals_eq: "r_bytes vals = select_bytes (rows_bytes rs)"
    using tail rs(1) by (simp add: select_bytes_def wi_enum_exact)
  have select_eq: "r_bytes select_node = message_bytes NODE_SELECT_STMT (select_bytes (rows_bytes rs))"
    using vals vals_eq by (simp add: wi_message_exact)
  have insert_eq: "r_bytes ins = insert_bytes prefix (rows_bytes rs)"
    using select override select_eq ins_bytes(1) by (simp add: insert_bytes_def wi_message_exact wi_enum_exact)
  have node_eq: "r_bytes node = message_bytes NODE_INSERT_STMT (insert_bytes prefix (rows_bytes rs))"
    using ins insert_eq by (simp add: wi_message_exact)
  have raw_eq: "r_bytes raw = raw_bytes prefix (rows_bytes rs) raw_length"
    using node node_eq wi_optional_scalar_accepts(2) [OF raw_length(1)] raw_length(2)
    by (simp add: raw_bytes_def wi_message_exact)
  have wire_eq: "wire = wire_bytes version prefix (rows_bytes rs) raw_length"
    using wi_optional_scalar_accepts(2) [OF version] raw raw_eq
    by (simp add: wire_bytes_def wi_message_exact)
  have loc: "located wire ins" "located wire vals"
    using located_message [OF located_message(2) [OF located_message(2) [OF located_message(2)
        [OF located_message(1) [OF located_message(1) [OF located_message(1)
        [OF located_optional_scalar [OF located_start version] raw(1)] node] ins(1)] relation] ab(1)] ab(2)] select]
      located_message(1) [OF located_message(1) [OF located_message(1)
        [OF located_optional_scalar [OF located_start version] raw(1)] node] ins(1)]
      located_message(1) [OF _ vals(1)] by blast+
  have prefix: "wire_prefix c = prefix" "unat (i_prefix_offset c) + unat (i_prefix_length c) \<le> length wire"
    using wire_prefix_located [OF loc(1) ins_bytes(1) small, of c] by (simp_all add: c ins_bytes(2))
  obtain offs where offs: "index_rows (length rs) vals = Some offs"
      "\<forall>i < length rs. offs ! i = of_nat (r_at vals + length (rows_bytes (take i rs)))"
    using index_rows_spec [OF rs(1,2)] by blast
  then have "offsets = offs" using offsets rs(3) by simp
  then have points: "\<forall>i < length rs. \<exists>s. drop (unat (offsets ! i)) wire = row_bytes (rs ! i) @ s"
    using offs(2) offsets_point [OF loc(2) rs(1) small] by simp
  have "describes c rs"
    unfolding describes_def
    using small wire_eq prefix rs(2,3) points wi_optional_scalar_accepts(1) [OF version]
      wi_optional_scalar_accepts(1) [OF raw_length(1)]
    by (intro exI [of _ wire] exI [of _ offsets]) (simp add: c)
  moreover have "rows_at sql 0 rs" using rows_at_weaken [OF rs(4)] pos7 by simp
  moreover have "values_of wire = Some vals"
    unfolding values_of_def using version raw(1) node ins(1) relation ab select vals(1) by simp
  ultimately show thesis
    using that [of sql wire rs vals] guard rows(2) rs(3) vals_eq by (simp add: c)
qed

end
