(* ===== verification/Scalar_Certify.thy ===== *)
theory Scalar_Certify
  imports Scalar_Pack Wire_Properties
begin

text \<open>
  The constructors of the scalar INSERT certificate in \<^verbatim>\<open>src/core/sqlparser_wire_insert.c\<close>: the strict
  one (\<^verbatim>\<open>sqlparser_wire_scalar_insert_certify\<close>), which reads the source and the wire of a handle side
  by side, the one that relies on the attestation of the native parser
  (\<^verbatim>\<open>sqlparser_wire_scalar_insert_from_native\<close>), and the projection of a compact statement.  The steps
  up to the VALUES keyword are the same in the first two and are one definition here.
\<close>

section \<open>Cells and names in the source\<close>

text \<open>The bytes of a string up to its closing quote; bytes above ASCII are allowed.\<close>

fun scalar_string_loop :: "string \<Rightarrow> string option" where
  "scalar_string_loop [] = None"
| "scalar_string_loop (c # cs) =
     (if c = QUOTE then Some []
      else if of_char c < (0x20 :: nat) \<or> of_char c = (0x7f :: nat) \<or> c = BACKSLASH then None
      else map_option (Cons c) (scalar_string_loop cs))"

definition float_char :: "char \<Rightarrow> bool" where
  "float_char c = (c_isdigit c \<or> c = CHR ''.'' \<or> c = CHR ''e'' \<or> c = CHR ''E'' \<or> c = CHR ''+'' \<or> c = CHR ''-'')"

definition wsi_source_cell :: "string \<Rightarrow> scalar_cell \<Rightarrow> nat \<Rightarrow> nat option" where
  "wsi_source_cell sql c pos =
     (let pos = wi_gap sql pos
      in if pos = length sql \<or> s_location c \<noteq> int pos then None
         else (case s_kind c of
             SCALAR_INTEGER \<Rightarrow>
               (if \<not> c_isdigit (sql ! pos) then None
                else (case digits_loop (drop pos sql) 0 of
                        None \<Rightarrow> None
                      | Some (number, k) \<Rightarrow> if int number = s_integer c then Some (pos + k) else None))
           | SCALAR_VALUE_FUNCTION \<Rightarrow>
               (case wsi_function_word (of_int (s_integer c)) of
                  None \<Rightarrow> None
                | Some word \<Rightarrow> wi_word sql (bytes_of (take (s_length c) word)) pos)
           | SCALAR_STRING \<Rightarrow>
               (if sql ! pos \<noteq> QUOTE then None
                else (case scalar_string_loop (drop (pos + 1) sql) of
                        None \<Rightarrow> None
                      | Some t \<Rightarrow> if length t = s_length c \<and> bytes_of t = s_text c
                                 then Some (pos + length t + 2) else None))
           | SCALAR_FLOAT \<Rightarrow>
               (if s_length c > length sql - pos \<or> bytes_of (take (s_length c) (drop pos sql)) \<noteq> s_text c then None
                else if \<not> list_all float_char (take (s_length c) (drop pos sql)) then None
                else if c_isdigit (sql ! pos) then Some (pos + s_length c) else None)))"

text \<open>\<^verbatim>\<open>wsi_name_word\<close>: an identifier with exactly these bytes.\<close>

definition wsi_name_word :: "string \<Rightarrow> byte list \<Rightarrow> nat \<Rightarrow> nat option" where
  "wsi_name_word sql name pos =
     (let start = wi_gap sql pos
      in if start = length sql \<or> \<not> wi_identifier_char (sql ! start) True then None
         else let pos = scan_while (\<lambda>c. wi_identifier_char c False) sql (length sql) start
           in if pos - start = length name \<and> bytes_of (take (length name) (drop start sql)) = name
              then Some pos else None)"

definition wsi_add_text :: "nat \<Rightarrow> nat \<Rightarrow> nat option" where
  "wsi_add_text text_bytes n = (if n \<ge> SIZE_MAX - text_bytes then None else Some (text_bytes + n + 1))"

section \<open>The guards on the handle\<close>

text \<open>The members of the tables of the dialects that the certificates ask for.\<close>

definition plain_string_table :: "ops_table \<Rightarrow> bool" where
  "plain_string_table ops = (ops \<notin> {Oracle_Ops, Vastbase_Oracle_Ops, Kingbase_Oracle_Ops})"

definition native_validation_table :: "ops_table \<Rightarrow> bool" where
  "native_validation_table ops = (ops \<in> {Postgresql_Ops, Mysql_Ops, Vastbase_Mysql_Ops, Vastbase_Postgresql_Ops})"

text \<open>
  What \<^verbatim>\<open>sqlparser_wire_scalar_insert_from_native\<close> reads of the provenance of a handle; the first two
  say that its pointers are those of the handle.
\<close>

record native_provenance =
  n_sql_bound :: bool
  n_wire_bound :: bool
  n_wire_length :: nat
  n_source_length :: nat
  n_row_count :: nat
  n_column_count :: nat
  n_string_count :: nat
  n_text_bytes :: nat
  n_statement_length :: int

record scalar_handle = wire_handle +
  h_ops :: "ops_table option"
  h_sql_shared :: bool
  h_provenance :: "native_provenance option"
  h_compact :: "(nat \<times> compact_insert) option"

definition dialect_supports_plain_scalar_insert :: "scalar_handle option \<Rightarrow> bool" where
  "dialect_supports_plain_scalar_insert handle =
     (case handle of
        None \<Rightarrow> False
      | Some h \<Rightarrow>
          (case h_ops h of
             None \<Rightarrow> False
           | Some ops \<Rightarrow> Some ops = dialect_get_ops (Some (h_dialect h)) \<and> plain_string_table ops))"

definition dialect_state_is_plain_insert_strings :: "wire_env \<Rightarrow> scalar_handle option \<Rightarrow> nat \<Rightarrow> bool" where
  "dialect_state_is_plain_insert_strings env handle string_count =
     (dialect_supports_plain_scalar_insert handle \<and>
      (case handle of
         None \<Rightarrow> False
       | Some h \<Rightarrow>
           (case (h_sql h, h_parser_sql h) of
              (Some sql, Some parser_sql) \<Rightarrow>
                h_sql_len h = h_parser_sql_len h \<and>
                (h_sql_shared h \<or> take (h_sql_len h) sql = take (h_sql_len h) parser_sql) \<and>
                e_plain_strings env string_count
            | _ \<Rightarrow> False)))"

text \<open>The guards both constructors begin with; the buffers of the handle and its wire.\<close>

definition scalar_guard :: "scalar_handle option \<Rightarrow> (string \<times> string \<times> byte list) option" where
  "scalar_guard handle =
     (if \<not> dialect_supports_plain_scalar_insert handle then None
      else do {
        h \<leftarrow> handle;
        check (\<not> h_failed h);
        sql \<leftarrow> h_sql h;
        parser_sql \<leftarrow> h_parser_sql h;
        check (\<not> (h_ast h \<or> (h_generation h \<noteq> 0 \<and> \<not> h_source_complete h) \<or>
          h_current_sql h \<or> h_current_parser_sql h \<or> h_control h \<or>
          h_statement_count h \<noteq> 1 \<or> h_sql_len h \<noteq> h_parser_sql_len h \<or>
          h_sql_len h < 192 \<or> h_sql_len h > INT32_MAX \<or> h_sql_len h > PTRDIFF_MAX));
        wire \<leftarrow> h_parse_tree h;
        check (\<not> (length wire = 0 \<or> length wire > UINT32_MAX \<or> length wire > PTRDIFF_MAX \<or>
          h_batch_flags h \<noteq> 0 \<or> edit_items (h_edits h) \<noteq> [] \<or> edit_capacity (h_edits h) \<noteq> 0 \<or>
          h_mutations h \<or> h_spellings h \<or> h_spelling_status h \<noteq> STATUS_OK));
        Some (sql, parser_sql, wire) })"

section \<open>The wire up to the rows\<close>

text \<open>The columns of the target list are counted before their names are read.\<close>

lemma wi_message_consumes: "wi_message f r = Some (c, r') \<Longrightarrow> length (r_bytes r') < length (r_bytes r)"
  by (simp add: wi_message_exact message_bytes_def)

function count_columns :: "wi_reader \<Rightarrow> nat \<Rightarrow> (wi_reader \<times> nat) option" where
  "count_columns ins count =
     (if \<not> wi_key_is ins WI_INSERT_COLS 2 then Some (ins, count)
      else (case wi_message WI_INSERT_COLS ins of
              None \<Rightarrow> None
            | Some (_, ins') \<Rightarrow> count_columns ins' (count + 1)))"
  by pat_completeness auto
termination
  by (relation "measure (\<lambda>(ins, _). length (r_bytes ins))") (auto simp: wi_message_consumes)

declare count_columns.simps [simp del]

definition optional_name :: "u32 \<Rightarrow> wi_reader \<Rightarrow> (byte list option \<times> wi_reader) option" where
  "optional_name field m =
     (if wi_key_is m field 2 then map_option (map_prod Some id) (wi_text field m) else Some (None, m))"

text \<open>The relation: catalog, schema and name, and its location.\<close>

definition relation_names :: "wi_reader \<Rightarrow> (byte list option list \<times> u32) option" where
  "relation_names relation = do {
     (catalog, m) \<leftarrow> optional_name 1 relation;
     (schema, m) \<leftarrow> optional_name 2 m;
     (table, m) \<leftarrow> optional_name 3 m;
     check (\<not> (table = None \<or> catalog \<noteq> None \<and> schema = None));
     m \<leftarrow> wi_enum 4 1 m;
     (node, m) \<leftarrow> wi_message 5 m;
     check (r_bytes node = bytes_of ''p'');
     (location, m) \<leftarrow> wi_scalar 7 m;
     check (r_bytes m = []);
     Some ([catalog, schema, table], location) }"

text \<open>The qualified name in the source: every name but the last is followed by a dot.\<close>

fun certify_names :: "string \<Rightarrow> byte list option list \<Rightarrow> nat \<Rightarrow> nat \<Rightarrow> (nat \<times> nat) option" where
  "certify_names sql [] text_bytes pos = Some (text_bytes, pos)"
| "certify_names sql (None # names) text_bytes pos = certify_names sql names text_bytes pos"
| "certify_names sql (Some name # names) text_bytes pos = do {
     pos \<leftarrow> wsi_name_word sql name pos;
     text_bytes \<leftarrow> wsi_add_text text_bytes (length name);
     pos \<leftarrow> (if names \<noteq> [] then wi_punctuation sql (CHR ''.'') pos else Some pos);
     certify_names sql names text_bytes pos }"

fun certify_columns :: "string \<Rightarrow> nat \<Rightarrow> wi_reader \<Rightarrow> nat \<Rightarrow> nat \<Rightarrow> (byte list list \<times> nat \<times> nat) option" where
  "certify_columns sql 0 columns text_bytes pos = Some ([], text_bytes, pos)"
| "certify_columns sql (Suc k) columns text_bytes pos = do {
     (column, columns) \<leftarrow> wi_message WI_INSERT_COLS columns;
     (target, column) \<leftarrow> wi_message NODE_RES_TARGET column;
     check (r_bytes column = []);
     (name, target) \<leftarrow> wi_text 1 target;
     (location, target) \<leftarrow> wi_scalar 4 target;
     check (r_bytes target = []);
     let pos = wi_gap sql pos;
     check (unat location = pos);
     pos \<leftarrow> wsi_name_word sql name pos;
     text_bytes \<leftarrow> wsi_add_text text_bytes (length name);
     pos \<leftarrow> wi_punctuation sql (if k = 0 then CHR '')'' else CHR '','') pos;
     (names, text_bytes, pos) \<leftarrow> certify_columns sql k columns text_bytes pos;
     Some (name # names, text_bytes, pos) }"

text \<open>What the constructors know when they reach the rows.\<close>

record scalar_header =
  g_version :: u32
  g_raw_length :: u32
  g_prefix_offset :: u32
  g_prefix_length :: u32
  g_column_count :: nat
  g_names :: "byte list option list"
  g_text_bytes :: nat
  g_values :: wi_reader
  g_pos :: nat

text \<open>
  Allocation 0 is the table of names.  \<open>accept\<close> stands for the checks of the column count and the
  statement length, which are the only difference between the two constructors here.
\<close>

definition SIZEOF_NAME :: nat where "SIZEOF_NAME = 16"

definition scalar_header :: "allocator \<Rightarrow> (nat \<Rightarrow> u32 \<Rightarrow> bool) \<Rightarrow> string \<Rightarrow> byte list \<Rightarrow> scalar_header option" where
  "scalar_header alloc accept sql wire = do {
     (version, parse) \<leftarrow> wi_optional_scalar WI_PARSE_VERSION \<lparr>r_at = 0, r_bytes = wire\<rparr>;
     (raw, parse) \<leftarrow> wi_message WI_PARSE_STMTS parse;
     check (r_bytes parse = []);
     (node, raw) \<leftarrow> wi_message WI_RAW_STMT raw;
     (raw_length, raw) \<leftarrow> wi_optional_scalar WI_RAW_LENGTH raw;
     check (r_bytes raw = []);
     (ins, node) \<leftarrow> wi_message NODE_INSERT_STMT node;
     check (r_bytes node = []);
     pos \<leftarrow> wi_word sql (bytes_of ''insert'') 0;
     pos \<leftarrow> wi_word sql (bytes_of ''into'') pos;
     (relation, columns) \<leftarrow> wi_message WI_INSERT_RELATION ins;
     (tail, column_count) \<leftarrow> count_columns columns 0;
     check (accept column_count raw_length);
     (select_node, rest) \<leftarrow> wi_message WI_INSERT_SELECT tail;
     rest \<leftarrow> wi_enum WI_INSERT_OVERRIDE 1 rest;
     check (r_bytes rest = []);
     (vals, select_node) \<leftarrow> wi_message NODE_SELECT_STMT select_node;
     check (r_bytes select_node = []);
     check (alloc 0 ((column_count + 3) * SIZEOF_NAME));
     (table, location) \<leftarrow> relation_names relation;
     let pos = wi_gap sql pos;
     check (unat location = pos);
     (text_bytes, pos) \<leftarrow> certify_names sql table 0 pos;
     pos \<leftarrow> wi_punctuation sql (CHR ''('') pos;
     (names, text_bytes, pos) \<leftarrow> certify_columns sql column_count columns text_bytes pos;
     pos \<leftarrow> wi_word sql (bytes_of ''values'') pos;
     Some \<lparr>g_version = version, g_raw_length = raw_length, g_prefix_offset = of_nat (r_at ins),
           g_prefix_length = of_nat (r_at tail) - of_nat (r_at ins), g_column_count = column_count,
           g_names = table @ map Some names, g_text_bytes = text_bytes, g_values = vals, g_pos = pos\<rparr> }"

section \<open>The strict certificate\<close>

text \<open>The cells of a row: the rest of the list, \<^verbatim>\<open>text_bytes\<close>, \<^verbatim>\<open>string_count\<close> and \<^verbatim>\<open>pos\<close>.\<close>

fun certify_cells ::
  "string \<Rightarrow> nat \<Rightarrow> wi_reader \<Rightarrow> nat \<Rightarrow> nat \<Rightarrow> nat \<Rightarrow> (wi_reader \<times> nat \<times> nat \<times> nat) option" where
  "certify_cells sql 0 list text_bytes strings pos = Some (list, text_bytes, strings, pos)"
| "certify_cells sql (Suc k) list text_bytes strings pos = do {
     (cell, list) \<leftarrow> wsi_cell list;
     pos \<leftarrow> wsi_source_cell sql cell pos;
     pos \<leftarrow> wi_punctuation sql (if k = 0 then CHR '')'' else CHR '','') pos;
     text_bytes \<leftarrow> (if s_kind cell \<noteq> SCALAR_INTEGER then wsi_add_text text_bytes (s_length cell) else Some text_bytes);
     let strings = (if s_kind cell = SCALAR_STRING then strings + 1 else strings);
     certify_cells sql k list text_bytes strings pos }"

text \<open>One row; its number decides whether a comma is expected.\<close>

definition certify_scalar_row ::
  "string \<Rightarrow> nat \<Rightarrow> wi_reader \<Rightarrow> nat \<Rightarrow> nat \<Rightarrow> nat \<Rightarrow> nat \<Rightarrow> (nat \<times> nat \<times> nat) option" where
  "certify_scalar_row sql columns node row_count text_bytes strings pos = do {
     (list, node) \<leftarrow> wi_message NODE_LIST node;
     check (r_bytes node = []);
     pos \<leftarrow> (if row_count \<noteq> 0 then wi_punctuation sql (CHR '','') pos else Some pos);
     pos \<leftarrow> wi_punctuation sql (CHR ''('') pos;
     (list, text_bytes, strings, pos) \<leftarrow> certify_cells sql columns list text_bytes strings pos;
     check (\<not> (r_bytes list \<noteq> [] \<or> row_count = UINT32_MAX));
     Some (text_bytes, strings, pos) }"

function certify_scalar_rows ::
  "string \<Rightarrow> nat \<Rightarrow> wi_reader \<Rightarrow> nat \<Rightarrow> nat \<Rightarrow> nat \<Rightarrow> nat
     \<Rightarrow> (wi_reader \<times> nat \<times> nat \<times> nat \<times> nat) option" where
  "certify_scalar_rows sql columns vals row_count text_bytes strings pos =
     (if \<not> wi_key_is vals WI_SELECT_VALUES 2 then Some (vals, row_count, text_bytes, strings, pos)
      else (case wi_message WI_SELECT_VALUES vals of
              None \<Rightarrow> None
            | Some (node, vals') \<Rightarrow>
                (case certify_scalar_row sql columns node row_count text_bytes strings pos of
                   None \<Rightarrow> None
                 | Some (text_bytes, strings, pos) \<Rightarrow>
                     certify_scalar_rows sql columns vals' (row_count + 1) text_bytes strings pos)))"
  by pat_completeness auto
termination
  by (relation "measure (\<lambda>(sql, columns, vals, _). length (r_bytes vals))") (auto simp: wi_message_consumes)

declare certify_scalar_rows.simps [simp del]

text \<open>\<^verbatim>\<open>sizeof(sqlparser_wire_scalar_insert_t)\<close> and \<^verbatim>\<open>sizeof(*provenance)\<close> on an LP64 target.\<close>

definition SIZEOF_SCALAR_INSERT :: nat where "SIZEOF_SCALAR_INSERT = 104"
definition SIZEOF_PROVENANCE :: nat where "SIZEOF_PROVENANCE = 72"

text \<open>The storage bound: what is retained takes at most 32 bytes per cell.\<close>

definition scalar_budget :: "nat \<Rightarrow> nat \<Rightarrow> nat \<Rightarrow> nat \<Rightarrow> bool" where
  "scalar_budget extra row_count column_count text_bytes =
     (let cells = row_count * column_count;
          retained = text_bytes + SIZEOF_SCALAR_INSERT + extra + row_count * 4 + (column_count + 3) * SIZEOF_NAME
      in \<not> (cells > (2 ^ 64 - 1) div 32 \<or> retained > cells * 32))"

definition scalar_description ::
  "scalar_header \<Rightarrow> string \<Rightarrow> byte list \<Rightarrow> nat \<Rightarrow> nat \<Rightarrow> nat \<Rightarrow> u32 list \<Rightarrow> scalar_insert" where
  "scalar_description g sql wire row_count text_bytes strings offsets =
     \<lparr>x_compact = None, x_wire = Some wire, x_sql = sql, x_row_count = row_count,
      x_column_count = g_column_count g, x_text_bytes = text_bytes, x_string_count = strings,
      x_version = g_version g, x_raw_length = g_raw_length g, x_prefix_offset = g_prefix_offset g,
      x_prefix_length = g_prefix_length g, x_row_offsets = Some offsets, x_names = g_names g\<rparr>"

text \<open>Allocation 1 is the certificate, allocation 2 its row index.\<close>

definition wire_scalar_insert_certify :: "allocator \<Rightarrow> wire_env \<Rightarrow> scalar_handle option \<Rightarrow> scalar_insert option" where
  "wire_scalar_insert_certify alloc env handle = do {
     h \<leftarrow> handle;
     (buffer, parser_buffer, wire) \<leftarrow> scalar_guard handle;
     check (\<not> (take (h_sql_len h + 1) buffer \<noteq> take (h_sql_len h + 1) parser_buffer \<or> buffer ! h_sql_len h \<noteq> NUL));
     let sql = take (h_sql_len h) buffer;
     g \<leftarrow> scalar_header alloc (\<lambda>columns _. \<not> (columns = 0 \<or> columns > SIZE_MAX div SIZEOF_NAME - 3)) sql wire;
     (vals, row_count, text_bytes, strings, pos) \<leftarrow>
       certify_scalar_rows sql (g_column_count g) (g_values g) 0 (g_text_bytes g) 0 (g_pos g);
     check (\<not> row_count < 32);
     vals \<leftarrow> wi_enum WI_SELECT_LIMIT 1 vals;
     vals \<leftarrow> wi_enum WI_SELECT_OP 1 vals;
     check (r_bytes vals = []);
     pos \<leftarrow> certify_end sql (g_raw_length g) pos;
     check (\<not> (pos \<noteq> length sql \<or> \<not> dialect_state_is_plain_insert_strings env handle strings \<or> \<not> e_schemas_match env));
     check (\<not> (row_count > SIZE_MAX div g_column_count g \<or> row_count > SIZE_MAX div 4));
     check (scalar_budget 0 row_count (g_column_count g) text_bytes);
     check (alloc 1 SIZEOF_SCALAR_INSERT);
     check (alloc 2 (row_count * 4));
     offsets \<leftarrow> index_rows row_count (g_values g);
     Some (scalar_description g sql wire row_count text_bytes strings offsets) }"

section \<open>The certificate from the native parser\<close>

fun native_rows :: "nat \<Rightarrow> wi_reader \<Rightarrow> (u32 list \<times> wi_reader) option" where
  "native_rows 0 vals = Some ([], vals)"
| "native_rows (Suc n) vals = do {
     let offset = of_nat (r_at vals);
     (node, vals) \<leftarrow> wi_message WI_SELECT_VALUES vals;
     (list, node) \<leftarrow> wi_message NODE_LIST node;
     check (\<not> (r_bytes node \<noteq> [] \<or> r_bytes list = []));
     (offsets, vals) \<leftarrow> native_rows n vals;
     Some (offset # offsets, vals) }"

text \<open>The provenance of a handle, when it is bound to the handle and plausible.\<close>

definition native_guard :: "wire_env \<Rightarrow> scalar_handle option \<Rightarrow> native_provenance option" where
  "native_guard env handle = do {
     h \<leftarrow> handle;
     ops \<leftarrow> h_ops h;
     check (h_generation h = 0);
     p \<leftarrow> h_provenance h;
     check (native_validation_table ops \<or>
       h_dialect h = DAMENG \<and> ops = Dameng_Ops \<and> Some ops = dialect_get_ops (Some DAMENG));
     check (n_sql_bound p \<and> h_sql_shared h \<and> n_wire_bound p \<and>
       h_parse_tree h \<noteq> None \<and> n_wire_length p = length (the (h_parse_tree h)));
     check (\<not> (n_source_length p \<noteq> h_sql_len h \<or> n_row_count p < 32 \<or> n_row_count p > UINT32_MAX \<or>
       n_column_count p = 0 \<or> n_statement_length p < 0 \<or> n_row_count p > SIZE_MAX div n_column_count p \<or>
       n_row_count p > SIZE_MAX div 4 \<or> n_column_count p > SIZE_MAX div SIZEOF_NAME - 3 \<or>
       n_row_count p * n_column_count p > n_source_length p \<or>
       n_string_count p > n_row_count p * n_column_count p \<or>
       n_text_bytes p < n_string_count p \<or> n_text_bytes p > n_source_length p \<or> \<not> e_schemas_match env));
     Some p }"

definition wire_scalar_insert_from_native ::
  "allocator \<Rightarrow> wire_env \<Rightarrow> scalar_handle option \<Rightarrow> scalar_insert option" where
  "wire_scalar_insert_from_native alloc env handle = do {
     p \<leftarrow> native_guard env handle;
     h \<leftarrow> handle;
     (buffer, parser_buffer, wire) \<leftarrow> scalar_guard handle;
     check (buffer ! h_sql_len h = NUL);
     let sql = take (h_sql_len h) buffer;
     g \<leftarrow> scalar_header alloc (\<lambda>columns raw_length. \<not> (columns \<noteq> n_column_count p \<or>
       raw_length \<noteq> of_int (n_statement_length p))) sql wire;
     check (\<not> (g_text_bytes g > n_text_bytes p \<or>
       \<not> dialect_state_is_plain_insert_strings env handle (n_string_count p)));
     check (scalar_budget SIZEOF_PROVENANCE (n_row_count p) (g_column_count g) (n_text_bytes p));
     check (alloc 1 SIZEOF_SCALAR_INSERT);
     check (alloc 2 (n_row_count p * 4));
     (offsets, vals) \<leftarrow> native_rows (n_row_count p) (g_values g);
     vals \<leftarrow> wi_enum WI_SELECT_LIMIT 1 vals;
     vals \<leftarrow> wi_enum WI_SELECT_OP 1 vals;
     check (r_bytes vals = []);
     Some (scalar_description g sql wire (n_row_count p) (n_text_bytes p) (n_string_count p) offsets) }"

section \<open>The projection of a compact statement\<close>

text \<open>
  \<^verbatim>\<open>handle->compact_generation\<close> and \<^verbatim>\<open>handle->compact_insert\<close> are \<open>h_compact\<close>, present when the
  representation is the compact one.
\<close>

definition compact_name :: "string \<Rightarrow> nat \<times> nat \<Rightarrow> byte list option" where
  "compact_name sql name = (if snd name = 0 then None else Some (bytes_of (take (snd name) (drop (fst name) sql))))"

definition compact_insert_projection :: "allocator \<Rightarrow> scalar_handle option \<Rightarrow> scalar_insert option" where
  "compact_insert_projection alloc handle = do {
     h \<leftarrow> handle;
     (generation, m) \<leftarrow> h_compact h;
     check (\<not> (generation \<noteq> h_generation h \<or> h_failed h));
     check (alloc 0 SIZEOF_SCALAR_INSERT);
     check (alloc 1 ((m_column_count m + 3) * SIZEOF_NAME));
     buffer \<leftarrow> h_sql h;
     let sql = take (h_sql_len h) buffer;
     Some \<lparr>x_compact = Some m, x_wire = None, x_sql = sql, x_row_count = m_row_count m,
           x_column_count = m_column_count m, x_text_bytes = m_text_bytes m, x_string_count = m_string_count m,
           x_version = 0, x_raw_length = m_raw_length m, x_prefix_offset = 0, x_prefix_length = 0,
           x_row_offsets = None, x_names = map (compact_name sql) (take (m_column_count m + 3) (m_names m))\<rparr> }"

end
