(* ===== verification/Scalar_Properties.thy ===== *)
theory Scalar_Properties
  imports Scalar_Certify
begin

text \<open>
  What a scalar INSERT certificate promises: its wire is the canonical encoding of its rows, every row
  offset points at its row (\<open>scalar_describes\<close>), and the cells stand in the source one after the other
  (\<open>stand_in\<close>).  From this follow the agreement of the strict and the bounded accessors, of the two
  pack entry points, and of the two constructors.
\<close>

section \<open>Cells in the source\<close>

text \<open>The number of characters a cell takes in the source, and what stands there.\<close>

definition scalar_span :: "string \<Rightarrow> scalar_cell \<Rightarrow> nat" where
  "scalar_span sql c =
     (case s_kind c of
        SCALAR_INTEGER \<Rightarrow> length (takeWhile c_isdigit (drop (nat (s_location c)) sql))
      | SCALAR_STRING \<Rightarrow> s_length c + 2
      | _ \<Rightarrow> s_length c)"

definition scalar_at :: "string \<Rightarrow> scalar_cell \<Rightarrow> bool" where
  "scalar_at sql c =
     (let rest = drop (nat (s_location c)) sql
      in case s_kind c of
           SCALAR_INTEGER \<Rightarrow> takeWhile c_isdigit rest \<noteq> [] \<and> s_integer c = int (decimal (takeWhile c_isdigit rest))
         | SCALAR_STRING \<Rightarrow> s_length c = length (s_text c) \<and> string_at sql (nat (s_location c)) (s_text c)
         | SCALAR_FLOAT \<Rightarrow> bytes_of (take (s_length c) rest) = s_text c \<and> list_all float_char (take (s_length c) rest)
         | SCALAR_VALUE_FUNCTION \<Rightarrow>
             wsi_function_word (of_int (s_integer c)) = Some (map c_tolower (take (s_length c) rest)))"

text \<open>The cells between two positions, in order, each with a character behind it.\<close>

fun stand_in :: "string \<Rightarrow> nat \<Rightarrow> scalar_cell list \<Rightarrow> nat \<Rightarrow> bool" where
  "stand_in sql pos [] q = (pos \<le> q \<and> q \<le> length sql)"
| "stand_in sql pos (c # cs) q =
     (0 \<le> s_location c \<and> pos \<le> nat (s_location c) \<and> scalar_at sql c \<and>
      stand_in sql (nat (s_location c) + scalar_span sql c + 1) cs q)"

lemma stand_in_le: "stand_in sql pos cs q \<Longrightarrow> pos \<le> q \<and> q \<le> length sql"
proof (induction cs arbitrary: pos)
  case (Cons c cs)
  then show ?case by fastforce
qed simp

lemma stand_in_weaken: "stand_in sql pos cs q \<Longrightarrow> pos' \<le> pos \<Longrightarrow> q \<le> q' \<Longrightarrow> q' \<le> length sql \<Longrightarrow> stand_in sql pos' cs q'"
proof (induction cs arbitrary: pos pos')
  case (Cons c cs)
  from Cons.prems Cons.IH [of "nat (s_location c) + scalar_span sql c + 1" "nat (s_location c) + scalar_span sql c + 1"]
  show ?case by simp
qed simp

lemma stand_in_append:
  "stand_in sql pos as m \<Longrightarrow> stand_in sql m bs q \<Longrightarrow> stand_in sql pos (as @ bs) q"
proof (induction as arbitrary: pos)
  case Nil
  then show ?case using stand_in_weaken [of sql m bs q pos q] stand_in_le [of sql m bs q] by simp
qed simp

section \<open>The source scan accepts cells that stand there\<close>

lemma scalar_string_loop_spec: "scalar_string_loop cs = Some t \<Longrightarrow> \<exists>rest. cs = t @ QUOTE # rest"
proof (induction cs arbitrary: t)
  case (Cons c cs)
  then show ?case by (auto split: if_splits)
qed simp

lemma word_loop_spec:
  "word_loop cs ws pos = Some pos' \<Longrightarrow>
     pos' = pos + length ws \<and> length ws \<le> length cs \<and> map (of_char \<circ> c_tolower) (take (length ws) cs) = ws"
proof (induction cs ws pos rule: word_loop.induct)
  case (2 c cs ws pos)
  then show ?case by (cases ws) (auto split: if_splits)
qed (simp split: if_splits)

lemma unat_of_char: "unat (of_char c :: byte) = of_char c"
proof -
  have "unat (of_nat (of_char c) :: byte) = of_char c"
    using nat_of_char_less_256 [of c] by (simp only: unat_of_nat) (simp add: take_bit_nat_eq_self)
  then show ?thesis by (simp only: of_nat_of_char)
qed

lemma bytes_of_inject: "bytes_of s = bytes_of t \<longleftrightarrow> s = t"
proof -
  have "inj (of_char :: char \<Rightarrow> byte)"
    by (rule injI) (metis of_char_eq_iff unat_of_char)
  then show ?thesis by (simp add: bytes_of_def inj_map_eq_map)
qed

lemma wi_gap_again [simp]: "wi_gap sql (wi_gap sql pos) = wi_gap sql pos"
  by (simp add: wi_gap_def)

lemma source_word:
  assumes "wi_word sql (bytes_of w) (wi_gap sql pos) = Some pos'" "wi_gap sql pos \<le> length sql"
  shows "pos' = wi_gap sql pos + length w" "pos' \<le> length sql"
    "map c_tolower (take (length w) (drop (wi_gap sql pos) sql)) = w"
proof -
  let ?p = "wi_gap sql pos"
  have "word_loop (drop ?p sql) (bytes_of w) ?p = Some pos'"
    using assms(1) by (simp add: wi_word_def Let_def split: if_splits)
  note spec = word_loop_spec [OF this]
  show "pos' = ?p + length w" "pos' \<le> length sql" using spec assms(2) by (auto simp: bytes_of_def)
  have "bytes_of (map c_tolower (take (length w) (drop ?p sql))) = bytes_of w"
    using spec by (simp add: bytes_of_def)
  then show "map c_tolower (take (length w) (drop ?p sql)) = w" by (simp only: bytes_of_inject)
qed

text \<open>A cell that the scan accepts stands in the source, and the scan ends right behind it.\<close>

lemma source_scalar:
  assumes "wsi_source_cell sql c pos = Some pos'" "pos \<le> length sql" "good_scalar c"
  shows "0 \<le> s_location c" "pos \<le> nat (s_location c)" "scalar_at sql c"
    "pos' = nat (s_location c) + scalar_span sql c" "pos' \<le> length sql"
proof -
  let ?p = "wi_gap sql pos" and ?rest = "drop (wi_gap sql pos) sql"
  have le: "?p \<le> length sql" using wi_gap_bounds(2) assms(2) by blast
  have p: "?p \<noteq> length sql" "s_location c = int ?p"
    using assms(1) by (auto simp: wsi_source_cell_def Let_def split: if_splits)
  then show "0 \<le> s_location c" "pos \<le> nat (s_location c)" using wi_gap_bounds(1) [of pos sql] by simp_all
  have "scalar_at sql c \<and> pos' = nat (s_location c) + scalar_span sql c \<and> pos' \<le> length sql"
  proof (cases "s_kind c")
    case SCALAR_INTEGER
    then obtain number k where digit: "c_isdigit (sql ! ?p)" and loop: "digits_loop ?rest 0 = Some (number, k)"
      and n: "int number = s_integer c" "pos' = ?p + k"
      using assms(1) p by (auto simp: wsi_source_cell_def Let_def split: if_splits option.splits)
    note spec = digits_loop_spec [OF loop]
    have "takeWhile c_isdigit ?rest \<noteq> []"
      using p digit le by (simp add: Cons_nth_drop_Suc [symmetric, of ?p sql])
    moreover have "length (takeWhile c_isdigit ?rest) \<le> length ?rest" by (rule length_takeWhile_le)
    ultimately show ?thesis
      using SCALAR_INTEGER spec n p(2) le by (simp add: scalar_at_def scalar_span_def Let_def decimal_def)
  next
    case SCALAR_STRING
    then obtain t where quote: "sql ! ?p = QUOTE" and loop: "scalar_string_loop (drop (?p + 1) sql) = Some t"
      and t: "length t = s_length c" "bytes_of t = s_text c" "pos' = ?p + length t + 2"
      using assms(1) p by (auto simp: wsi_source_cell_def Let_def split: if_splits option.splits)
    obtain rest where rest: "drop (?p + 1) sql = t @ QUOTE # rest" using scalar_string_loop_spec [OF loop] by blast
    have len: "length sql - (?p + 1) = length t + 1 + length rest" using arg_cong [OF rest, of length] by simp
    have "sql ! (?p + 1 + length t) = QUOTE"
      using arg_cong [OF rest, of "\<lambda>xs. xs ! length t"] len p le by simp
    moreover have same: "length (s_text c) = length t" using t(2) by (metis length_bytes_of)
    ultimately have "string_at sql ?p (s_text c)"
      using quote rest t(2) len p le by (simp add: string_at_def)
    then show ?thesis
      using SCALAR_STRING p(2) t same len le by (simp add: scalar_at_def scalar_span_def)
  next
    case SCALAR_FLOAT
    then show ?thesis
      using assms(1) p le
      by (auto simp: wsi_source_cell_def scalar_at_def scalar_span_def Let_def not_less split: if_splits)
  next
    case SCALAR_VALUE_FUNCTION
    then obtain word where word: "wsi_function_word (of_int (s_integer c)) = Some word" "s_length c = length word"
      using assms(3) by (auto simp: good_scalar_def good_value_def split: option.splits)
    then have "wi_word sql (bytes_of word) ?p = Some pos'"
      using assms(1) p SCALAR_VALUE_FUNCTION by (simp add: wsi_source_cell_def Let_def)
    from source_word [OF this le] show ?thesis
      using SCALAR_VALUE_FUNCTION p(2) word by (simp add: scalar_at_def scalar_span_def Let_def)
  qed
  then show "scalar_at sql c" "pos' = nat (s_location c) + scalar_span sql c" "pos' \<le> length sql" by simp_all
qed

section \<open>Certified rows\<close>

lemma certify_cells_accepts:
  assumes "certify_cells sql k list tb strings pos = Some (list', tb', strings', pos')" "pos \<le> length sql"
  obtains cs where "length cs = k" "\<forall>c \<in> set cs. good_scalar c" "r_bytes list = cells_bytes cs @ r_bytes list'"
    "stand_in sql pos cs pos'"
  using assms
proof (induction k arbitrary: list tb strings pos thesis)
  case 0
  then show ?case by simp
next
  case (Suc k)
  from Suc.prems(2) obtain cell list1 pos1 pos2 tb1 strings1 where
    cell: "wsi_cell list = Some (cell, list1)" and source: "wsi_source_cell sql cell pos = Some pos1" and
    punct: "wi_punctuation sql (if k = 0 then CHR '')'' else CHR '','') pos1 = Some pos2" and
    rest: "certify_cells sql k list1 tb1 strings1 pos2 = Some (list', tb', strings', pos')"
    by (auto simp: bind_eq_Some_conv Let_def)
  have exact: "good_scalar cell" "r_bytes list = scalar_cell_bytes cell @ r_bytes list1"
    using cell by (simp_all add: wsi_cell_exact)
  note src = source_scalar [OF source Suc.prems(3) exact(1)]
  note pb = wi_punctuation_bounds [OF punct src(5)]
  from Suc.IH [OF _ rest pb(2)] obtain cs where cs: "length cs = k" "\<forall>c \<in> set cs. good_scalar c"
    "r_bytes list1 = cells_bytes cs @ r_bytes list'" "stand_in sql pos2 cs pos'" by blast
  have "stand_in sql (pos1 + 1) cs pos'"
    using stand_in_weaken [OF cs(4), of "pos1 + 1" pos'] stand_in_le [OF cs(4)] pb(1) by simp
  then show ?case
    using src cs exact by (intro Suc.prems(1) [of "cell # cs"]) auto
qed

definition good_scalar_row :: "nat \<Rightarrow> scalar_cell list \<Rightarrow> bool" where
  "good_scalar_row k cs \<longleftrightarrow> length cs = k \<and> (\<forall>c \<in> set cs. good_scalar c) \<and>
     length (message_bytes NODE_LIST (cells_bytes cs)) < 2 ^ 32"

lemma certify_scalar_row_accepts:
  assumes "certify_scalar_row sql k node rc tb strings pos = Some (tb', strings', pos')" "pos \<le> length sql"
    and "length (r_bytes node) < 2 ^ 32"
  obtains cs where "good_scalar_row k cs" "r_bytes node = message_bytes NODE_LIST (cells_bytes cs)"
    "stand_in sql pos cs pos'"
proof -
  from assms(1) obtain list node' p1 p2 list' where
    list: "wi_message NODE_LIST node = Some (list, node')" "r_bytes node' = []" and
    p1: "(if rc \<noteq> 0 then wi_punctuation sql (CHR '','') pos else Some pos) = Some p1" and
    p2: "wi_punctuation sql (CHR ''('') p1 = Some p2" and
    cells: "certify_cells sql k list tb strings p2 = Some (list', tb', strings', pos')" "r_bytes list' = []"
    unfolding certify_scalar_row_def by (auto simp: bind_eq_Some_conv)
  have le1: "pos \<le> p1" "p1 \<le> length sql"
    using p1 assms(2) by (auto dest: wi_punctuation_bounds split: if_splits)
  note le2 = wi_punctuation_bounds [OF p2 le1(2)]
  obtain cs where cs: "length cs = k" "\<forall>c \<in> set cs. good_scalar c" "r_bytes list = cells_bytes cs"
    "stand_in sql p2 cs pos'"
    using certify_cells_accepts [OF cells(1) le2(2)] cells(2) by auto
  have node: "r_bytes node = message_bytes NODE_LIST (cells_bytes cs)"
    using list cs(3) by (simp add: wi_message_exact)
  have "stand_in sql pos cs pos'"
    using stand_in_weaken [OF cs(4), of pos pos'] stand_in_le [OF cs(4)] le1(1) le2(1) by simp
  then show thesis
    using that [of cs] cs(1,2) node assms(3) by (simp add: good_scalar_row_def)
qed

lemma certify_scalar_rows_accepts:
  "certify_scalar_rows sql k v rc tb strings pos = Some (v', rc', tb', strings', pos') \<Longrightarrow> pos \<le> length sql \<Longrightarrow>
   \<exists>rows. r_bytes v = scalar_rows_bytes rows @ r_bytes v' \<and> (\<forall>cs \<in> set rows. good_scalar_row k cs) \<and>
     rc' = rc + length rows \<and> stand_in sql pos (concat rows) pos'"
proof (induction sql k v rc tb strings pos rule: certify_scalar_rows.induct)
  case (1 sql k v rc tb strings pos)
  show ?case
  proof (cases "wi_key_is v WI_SELECT_VALUES 2")
    case False
    with 1 show ?thesis by (intro exI [of _ "[]"]) (simp add: certify_scalar_rows.simps [of sql k v])
  next
    case True
    obtain node v1 tb1 strings1 pos1 where node: "wi_message WI_SELECT_VALUES v = Some (node, v1)"
      and row: "certify_scalar_row sql k node rc tb strings pos = Some (tb1, strings1, pos1)"
      and rest: "certify_scalar_rows sql k v1 (rc + 1) tb1 strings1 pos1 = Some (v', rc', tb', strings', pos')"
      using True "1.prems"(1) by (auto simp: certify_scalar_rows.simps [of sql k v] split: option.splits)
    have small: "length (r_bytes node) < 2 ^ 32" using node by (simp add: wi_message_exact)
    obtain cs where cs: "good_scalar_row k cs" "r_bytes node = message_bytes NODE_LIST (cells_bytes cs)"
      "stand_in sql pos cs pos1"
      using certify_scalar_row_accepts [OF row "1.prems"(2) small] by blast
    have le: "pos1 \<le> length sql" using stand_in_le [OF cs(3)] by simp
    have "\<exists>rows. r_bytes v1 = scalar_rows_bytes rows @ r_bytes v' \<and> (\<forall>cs \<in> set rows. good_scalar_row k cs) \<and>
        rc' = rc + 1 + length rows \<and> stand_in sql pos1 (concat rows) pos'"
      using 1(1) [OF _ node refl row refl refl rest le] True by blast
    then obtain rows where rows: "r_bytes v1 = scalar_rows_bytes rows @ r_bytes v'"
      "\<forall>cs \<in> set rows. good_scalar_row k cs" "rc' = rc + 1 + length rows" "stand_in sql pos1 (concat rows) pos'" by blast
    have "r_bytes v = scalar_row_bytes cs @ r_bytes v1"
      using node cs(2) by (simp add: wi_message_exact scalar_row_bytes_def)
    with rows cs(1) stand_in_append [OF cs(3) rows(4)] show ?thesis
      by (intro exI [of _ "cs # rows"]) simp
  qed
qed

section \<open>A certificate describes its wire\<close>

definition scalar_describes :: "scalar_insert \<Rightarrow> scalar_cell list list \<Rightarrow> bool" where
  "scalar_describes ins rows \<longleftrightarrow>
     (\<exists>wire offsets. x_compact ins = None \<and> x_wire ins = Some wire \<and> length wire < 2 ^ 32 \<and>
        wire = wire_bytes (x_version ins) (scalar_prefix ins) (scalar_rows_bytes rows) (x_raw_length ins) \<and>
        unat (x_version ins) \<le> INT32_MAX \<and> unat (x_raw_length ins) \<le> INT32_MAX \<and>
        x_row_count ins = length rows \<and> (\<forall>cs \<in> set rows. good_scalar_row (x_column_count ins) cs) \<and>
        unat (x_prefix_offset ins) + unat (x_prefix_length ins) \<le> length wire \<and>
        x_row_offsets ins = Some offsets \<and>
        (\<forall>i < length rows. \<exists>s. drop (unat (offsets ! i)) wire = scalar_row_bytes (rows ! i) @ s))"

lemma scalar_row_bytes_not_Nil [simp]: "scalar_row_bytes cs \<noteq> []"
  by (simp add: scalar_row_bytes_def)

text \<open>Both row readers find the list of cells of a described row.\<close>

lemma described_row:
  assumes "scalar_describes ins rows" "i < length rows"
  shows "\<exists>r. wsi_read_row certified (Some ins) i = Some r \<and> r_bytes r = cells_bytes (rows ! i)"
proof -
  obtain wire offsets s where wire: "x_wire ins = Some wire" "length wire < 2 ^ 32"
    and offsets: "x_row_offsets ins = Some offsets" "x_row_count ins = length rows"
    and row: "drop (unat (offsets ! i)) wire = scalar_row_bytes (rows ! i) @ s"
    and good: "good_scalar_row (x_column_count ins) (rows ! i)"
    using assms unfolding scalar_describes_def by (metis nth_mem)
  let ?list = "cells_bytes (rows ! i)"
  let ?node = "message_bytes NODE_LIST ?list"
  have small: "length ?node < 2 ^ 32" using good by (simp add: good_scalar_row_def)
  then have "length ?list < 2 ^ 32" by (simp add: message_bytes_def)
  note reads = wi_message_reads [OF small] wi_message_reads_whole [OF this]
  have "unat (offsets ! i) < length wire"
  proof (rule ccontr)
    assume "\<not> unat (offsets ! i) < length wire"
    then have "drop (unat (offsets ! i)) wire = []" by simp
    with row show False by simp
  qed
  then have start: "scalar_row_start (Some ins) i =
      Some \<lparr>r_at = unat (offsets ! i), r_bytes = message_bytes WI_SELECT_VALUES ?node @ s\<rparr>"
    using wire offsets row assms(2) by (simp add: scalar_row_start_def PTRDIFF_MAX_def scalar_row_bytes_def)
  have outer: "wi_certified_u32 (tl (message_bytes WI_SELECT_VALUES ?node @ s)) = Some (of_nat (length ?node), ?node @ s)"
    by (simp add: message_bytes_def [of WI_SELECT_VALUES] skip_tag)
  have inner: "wi_certified_envelope 2 ?node = Some ?list"
    using envelope_skips(3) [of ?list "[]"] by simp
  show ?thesis
  proof (cases certified)
    case True
    then show ?thesis
      using u32_reads_length [OF small] outer inner
      by (simp add: wsi_read_row_def wsi_certified_row_reader_def start Let_def check_def)
  next
    case False
    then show ?thesis by (simp add: wsi_read_row_def wsi_row_reader_def start reads)
  qed
qed

text \<open>Both cell readers read an encoded cell.\<close>

lemma read_cell_reads:
  assumes "good_scalar c" "r_bytes r = scalar_cell_bytes c @ s"
  shows "\<exists>r'. wsi_read_cell certified r = Some (c, r') \<and> r_bytes r' = s"
proof (cases certified)
  case True
  then show ?thesis
    using certified_scalar_reads [OF assms(1), of s] assms(2) by (simp add: wsi_read_cell_def)
next
  case False
  have "r = \<lparr>r_at = r_at r, r_bytes = scalar_cell_bytes c @ s\<rparr>" using assms(2) by simp
  then show ?thesis
    using wsi_cell_reads [OF assms(1), of "r_at r" s] False by (simp add: wsi_read_cell_def)
qed

text \<open>The loops over the cells of a row, by either reader.\<close>

fun finished :: "(scalar_cell \<Rightarrow> scalar_cell option) \<Rightarrow> scalar_cell list \<Rightarrow> scalar_cell list option" where
  "finished f [] = Some []"
| "finished f (c # cs) = do { d \<leftarrow> f c; ds \<leftarrow> finished f cs; Some (d # ds) }"

lemma read_cells_finished:
  assumes "\<forall>c \<in> set cs. good_scalar c" "r_bytes r = cells_bytes cs @ s"
  shows "map_option (map_prod id r_bytes) (read_cells (wsi_read_cell certified) f (length cs) r) =
    map_option (\<lambda>ds. (ds, s)) (finished f cs)"
  using assms
proof (induction cs arbitrary: r)
  case (Cons c cs)
  then obtain r' where r': "wsi_read_cell certified r = Some (c, r')" "r_bytes r' = cells_bytes cs @ s"
    using read_cell_reads [of c r "cells_bytes cs @ s" certified] by auto
  show ?case
  proof (cases "f c")
    case None
    then show ?thesis by (simp add: r'(1))
  next
    case (Some d)
    with Cons.IH [of r'] Cons.prems(1) r' show ?thesis
      by (cases "read_cells (wsi_read_cell certified) f (length cs) r'"; cases "finished f cs") auto
  qed
qed simp

lemma read_nth_described:
  assumes "\<forall>c \<in> set cs. good_scalar c" "r_bytes r = cells_bytes cs" "n < length cs"
  shows "read_nth (wsi_read_cell certified) n r = Some (cs ! n)"
  using assms
proof (induction n arbitrary: r cs)
  case 0
  then obtain c cs' where "cs = c # cs'" by (cases cs) auto
  with 0 read_cell_reads [of c r "cells_bytes cs'" certified] show ?case by auto
next
  case (Suc n)
  then obtain c cs' where cs: "cs = c # cs'" by (cases cs) auto
  with Suc.prems obtain r' where "wsi_read_cell certified r = Some (c, r')" "r_bytes r' = cells_bytes cs'"
    using read_cell_reads [of c r "cells_bytes cs'" certified] by auto
  with Suc.IH [of cs' r'] Suc.prems cs show ?case by simp
qed

text \<open>What the strict accessors return of a described row; the bounded ones return the same.\<close>

lemma described_strict_bounded: "wsi_row_reader = wsi_read_row False" "wsi_cell = wsi_read_cell False"
  by (simp_all add: fun_eq_iff wsi_read_row_def wsi_read_cell_def)

lemma described_row_accessors:
  assumes "scalar_describes ins rows" "i < length rows"
  shows "wire_scalar_insert_row (Some ins) i = finished (wsi_source_text ins) (rows ! i)"
    "wire_scalar_insert_certified_row (Some ins) i = finished (wsi_source_text ins) (rows ! i)"
proof -
  have row: "length (rows ! i) = x_column_count ins" "\<forall>c \<in> set (rows ! i). good_scalar c" and compact: "x_compact ins = None"
    using assms nth_mem [OF assms(2)] by (auto simp: scalar_describes_def good_scalar_row_def)
  have any: "(do { list \<leftarrow> wsi_read_row certified (Some ins) i;
       (cells, list) \<leftarrow> read_cells (wsi_read_cell certified) (wsi_source_text ins) (x_column_count ins) list;
       check (r_bytes list = []);
       Some cells }) = finished (wsi_source_text ins) (rows ! i)" for certified
  proof -
    obtain r where r: "wsi_read_row certified (Some ins) i = Some r" "r_bytes r = cells_bytes (rows ! i) @ []"
      using described_row [OF assms] by auto
    show ?thesis
      using read_cells_finished [OF row(2) r(2), of certified "wsi_source_text ins"] row(1)
      by (cases "read_cells (wsi_read_cell certified) (wsi_source_text ins) (x_column_count ins) r";
          cases "finished (wsi_source_text ins) (rows ! i)") (auto simp: r(1))
  qed
  show "wire_scalar_insert_row (Some ins) i = finished (wsi_source_text ins) (rows ! i)"
    using any [of False] by (simp add: wire_scalar_insert_row_def described_strict_bounded)
  show "wire_scalar_insert_certified_row (Some ins) i = finished (wsi_source_text ins) (rows ! i)"
    using any [of True] by (simp add: wire_scalar_insert_certified_row_def compact)
qed

lemma described_cell_accessors:
  assumes "scalar_describes ins rows" "i < length rows" "j < x_column_count ins"
  shows "wire_scalar_insert_cell (Some ins) i j = wsi_source_text ins (rows ! i ! j)"
    "wire_scalar_insert_certified_cell (Some ins) i j = wsi_source_text ins (rows ! i ! j)"
proof -
  have row: "length (rows ! i) = x_column_count ins" "\<forall>c \<in> set (rows ! i). good_scalar c" and compact: "x_compact ins = None"
    using assms nth_mem [OF assms(2)] by (auto simp: scalar_describes_def good_scalar_row_def)
  have any: "(do { list \<leftarrow> wsi_read_row certified (Some ins) i;
      c \<leftarrow> read_nth (wsi_read_cell certified) j list; wsi_source_text ins c }) =
      wsi_source_text ins (rows ! i ! j)" for certified
    using described_row [OF assms(1,2), of certified] read_nth_described [OF row(2)] row(1) assms(3) by auto
  show "wire_scalar_insert_cell (Some ins) i j = wsi_source_text ins (rows ! i ! j)"
    using any [of False] assms(3) by (simp add: wire_scalar_insert_cell_def described_strict_bounded)
  show "wire_scalar_insert_certified_cell (Some ins) i j = wsi_source_text ins (rows ! i ! j)"
    using any [of True] assms(3) by (simp add: wire_scalar_insert_certified_cell_def compact)
qed

section \<open>The constructors establish the description\<close>

lemma count_columns_accepts:
  "count_columns r n = Some (r', n') \<Longrightarrow> located wire r \<Longrightarrow>
   \<exists>columns. r_bytes r = concat columns @ r_bytes r' \<and> r_at r' = r_at r + length (concat columns) \<and>
     n' = n + length columns \<and> located wire r'"
proof (induction r n rule: count_columns.induct)
  case (1 r n)
  show ?case
  proof (cases "wi_key_is r WI_INSERT_COLS 2")
    case False
    with 1 show ?thesis by (intro exI [of _ "[]"]) (simp add: count_columns.simps [of r])
  next
    case True
    then obtain c r1 where c: "wi_message WI_INSERT_COLS r = Some (c, r1)" and rest: "count_columns r1 (n + 1) = Some (r', n')"
      using "1.prems"(1) by (auto simp: count_columns.simps [of r] split: option.splits)
    have "\<exists>columns. r_bytes r1 = concat columns @ r_bytes r' \<and> r_at r' = r_at r1 + length (concat columns) \<and>
        n' = n + 1 + length columns \<and> located wire r'"
      using 1(1) [OF _ c refl rest located_message(2) [OF "1.prems"(2) c]] True by blast
    then obtain columns where "r_bytes r1 = concat columns @ r_bytes r'" "r_at r' = r_at r1 + length (concat columns)"
      "n' = n + 1 + length columns" "located wire r'" by blast
    with c show ?thesis
      by (intro exI [of _ "message_bytes WI_INSERT_COLS (r_bytes c) # columns"]) (simp add: wi_message_exact)
  qed
qed

lemma wsi_name_word_bounds: "wsi_name_word sql name pos = Some pos' \<Longrightarrow> pos \<le> length sql \<Longrightarrow> pos' \<le> length sql"
  using wi_gap_bounds(2) [of pos sql] scan_while_le_length [of "wi_gap sql pos" sql]
  by (auto simp: wsi_name_word_def Let_def split: if_splits)

lemma certify_names_bounds:
  "certify_names sql names tb pos = Some (tb', pos') \<Longrightarrow> pos \<le> length sql \<Longrightarrow> pos' \<le> length sql"
proof (induction sql names tb pos rule: certify_names.induct)
  case (3 sql name names tb pos)
  from "3.prems"(1) obtain p1 tb1 p2 where w: "wsi_name_word sql name pos = Some p1"
    and a: "wsi_add_text tb (length name) = Some tb1"
    and p: "(if names \<noteq> [] then wi_punctuation sql (CHR ''.'') p1 else Some p1) = Some p2"
    and rest: "certify_names sql names tb1 p2 = Some (tb', pos')"
    by (auto simp: bind_eq_Some_conv)
  have "p1 \<le> length sql" using wsi_name_word_bounds [OF w "3.prems"(2)] .
  then have "p2 \<le> length sql" using p by (auto dest: wi_punctuation_bounds split: if_splits)
  from "3.IH" [OF w a p rest this] show ?case .
qed simp_all

lemma certify_columns_bounds:
  "certify_columns sql k columns tb pos = Some (names, tb', pos') \<Longrightarrow> pos \<le> length sql \<Longrightarrow> pos' \<le> length sql"
proof (induction k arbitrary: columns tb pos names)
  case (Suc k)
  from Suc.prems(1) obtain columns1 name p1 p2 tb1 names1 where
    w: "wsi_name_word sql name (wi_gap sql pos) = Some p1" and
    p: "wi_punctuation sql (if k = 0 then CHR '')'' else CHR '','') p1 = Some p2" and
    rest: "certify_columns sql k columns1 tb1 p2 = Some (names1, tb', pos')"
    by (auto simp: bind_eq_Some_conv Let_def)
  have "p1 \<le> length sql" using wsi_name_word_bounds [OF w] wi_gap_bounds(2) [OF Suc.prems(2)] by simp
  with Suc.IH [OF rest] wi_punctuation_bounds(2) [OF p] show ?case by simp
qed simp

text \<open>The messages around the rows, from the header of a statement.\<close>

lemma header_frame:
  assumes "scalar_header alloc accept sql wire = Some g" "length wire < 2 ^ 32"
  obtains prefix where
    "\<And>body. r_bytes (g_values g) = select_bytes body \<Longrightarrow> wire = wire_bytes (g_version g) prefix body (g_raw_length g)"
    "located wire (g_values g)" "g_pos g \<le> length sql" "accept (g_column_count g) (g_raw_length g)"
    "unat (g_version g) \<le> INT32_MAX" "unat (g_raw_length g) \<le> INT32_MAX"
    "take (unat (g_prefix_length g)) (drop (unat (g_prefix_offset g)) wire) = prefix"
    "unat (g_prefix_offset g) + unat (g_prefix_length g) \<le> length wire"
proof -
  from assms(1) obtain version parse raw parse' node raw1 raw_length raw2 ins node' p1 p2 relation columns tail count
    select_node rest rest' vals select_node' table location tb p3 p4 names tb1 p5 p6 where
    version: "wi_optional_scalar WI_PARSE_VERSION \<lparr>r_at = 0, r_bytes = wire\<rparr> = Some (version, parse)" and
    raw: "wi_message WI_PARSE_STMTS parse = Some (raw, parse')" "r_bytes parse' = []" and
    node: "wi_message WI_RAW_STMT raw = Some (node, raw1)" and
    raw_length: "wi_optional_scalar WI_RAW_LENGTH raw1 = Some (raw_length, raw2)" "r_bytes raw2 = []" and
    ins: "wi_message NODE_INSERT_STMT node = Some (ins, node')" "r_bytes node' = []" and
    w: "wi_word sql (bytes_of ''insert'') 0 = Some p1" "wi_word sql (bytes_of ''into'') p1 = Some p2" and
    relation: "wi_message WI_INSERT_RELATION ins = Some (relation, columns)" and
    count: "count_columns columns 0 = Some (tail, count)" and accept: "accept count raw_length" and
    select: "wi_message WI_INSERT_SELECT tail = Some (select_node, rest)" and
    override: "wi_enum WI_INSERT_OVERRIDE 1 rest = Some rest'" "r_bytes rest' = []" and
    vals: "wi_message NODE_SELECT_STMT select_node = Some (vals, select_node')" "r_bytes select_node' = []" and
    names: "certify_names sql table 0 (wi_gap sql p2) = Some (tb, p3)" and
    paren: "wi_punctuation sql (CHR ''('') p3 = Some p4" and
    cols: "certify_columns sql count columns tb p4 = Some (names, tb1, p5)" and
    word: "wi_word sql (bytes_of ''values'') p5 = Some p6" and
    g: "g = \<lparr>g_version = version, g_raw_length = raw_length, g_prefix_offset = of_nat (r_at ins),
           g_prefix_length = of_nat (r_at tail) - of_nat (r_at ins), g_column_count = count,
           g_names = table @ map Some names, g_text_bytes = tb1, g_values = vals, g_pos = p6\<rparr>"
    unfolding scalar_header_def Let_def
    by (elim step_Some pair_step_Some, hypsubst, simp only: check_eq_Some option.inject)
  have loc_ins: "located wire ins"
    using located_message(1) [OF located_message(1) [OF located_message(1)
        [OF located_optional_scalar [OF located_start version] raw(1)] node] ins(1)] .
  obtain cs where cs: "r_bytes columns = concat cs @ r_bytes tail" "r_at tail = r_at columns + length (concat cs)"
    "located wire tail"
    using count_columns_accepts [OF count located_message(2) [OF loc_ins relation]] by blast
  define prefix where "prefix = message_bytes WI_INSERT_RELATION (r_bytes relation) @ concat cs"
  have ins_bytes: "r_bytes ins = prefix @ r_bytes tail" "r_at tail = r_at ins + length prefix"
    using relation cs by (simp_all add: prefix_def wi_message_exact)
  have loc_vals: "located wire vals"
    using located_message(1) [OF located_message(1) [OF cs(3) select] vals(1)] .
  have "p2 \<le> length sql" using w wi_word_bounds(2) by (meson le0)
  then have "p6 \<le> length sql"
    using wi_word_bounds(2) [OF word] certify_columns_bounds [OF cols] wi_punctuation_bounds(2) [OF paren]
      certify_names_bounds [OF names] wi_gap_bounds(2) [of p2 sql] by simp
  moreover have "wire = wire_bytes version prefix body raw_length" if "r_bytes vals = select_bytes body" for body
  proof -
    have "r_bytes select_node = message_bytes NODE_SELECT_STMT (select_bytes body)"
      using vals that by (simp add: wi_message_exact)
    then have "r_bytes ins = insert_bytes prefix body"
      using select override ins_bytes(1) by (simp add: insert_bytes_def wi_message_exact wi_enum_exact)
    then have "r_bytes node = message_bytes NODE_INSERT_STMT (insert_bytes prefix body)"
      using ins by (simp add: wi_message_exact)
    then have "r_bytes raw = raw_bytes prefix body raw_length"
      using node wi_optional_scalar_accepts(2) [OF raw_length(1)] raw_length(2)
      by (simp add: raw_bytes_def wi_message_exact)
    then show ?thesis
      using wi_optional_scalar_accepts(2) [OF version] raw by (simp add: wire_bytes_def wi_message_exact)
  qed
  ultimately show thesis
    using that [of prefix] loc_vals accept wi_optional_scalar_accepts(1) [OF version]
      wi_optional_scalar_accepts(1) [OF raw_length(1)] prefix_located [OF loc_ins ins_bytes(1) assms(2)]
    by (simp add: g ins_bytes(2))
qed

lemma scalar_guard_wire: "scalar_guard handle = Some (buffer, parser_buffer, wire) \<Longrightarrow> length wire < 2 ^ 32"
  by (auto simp: scalar_guard_def UINT32_MAX_def bind_eq_Some_conv split: if_splits)

lemma scalar_index:
  assumes "located wire v" "length wire < 2 ^ 32" "r_bytes v = scalar_rows_bytes rows @ s"
    "\<forall>cs \<in> set rows. good_scalar_row k cs"
  shows "\<exists>offsets. index_rows (length rows) v = Some offsets \<and>
    (\<forall>i < length rows. \<exists>t. drop (unat (offsets ! i)) wire = scalar_row_bytes (rows ! i) @ t)"
proof -
  let ?nodes = "map (\<lambda>cs. message_bytes NODE_LIST (cells_bytes cs)) rows"
  have bytes: "map (message_bytes WI_SELECT_VALUES) ?nodes = map scalar_row_bytes rows"
    by (simp add: scalar_row_bytes_def)
  have "\<forall>p \<in> set ?nodes. length p < 2 ^ 32" using assms(4) by (auto simp: good_scalar_row_def)
  then obtain offsets where offsets: "index_rows (length rows) v = Some offsets"
    "\<forall>i < length rows. offsets ! i =
      of_nat (r_at v + length (concat (map (message_bytes WI_SELECT_VALUES) (take i ?nodes))))"
    using index_messages [of v ?nodes s] assms(3) unfolding bytes length_map by blast
  have "\<exists>t. drop (unat (offsets ! i)) wire = scalar_row_bytes (rows ! i) @ t" if "i < length rows" for i
    using pieces_point [OF assms(1), of "map scalar_row_bytes rows" s i] assms(2,3) that offsets(2)
    unfolding take_map [symmetric] bytes by (simp add: take_map)
  with offsets(1) show ?thesis by blast
qed

text \<open>A description from a header, the rows behind it and their index.\<close>

lemma described_from_header:
  assumes "scalar_header alloc accept sql wire = Some g" "length wire < 2 ^ 32"
    and rows: "r_bytes (g_values g) = select_bytes (scalar_rows_bytes rows)"
      "\<forall>cs \<in> set rows. good_scalar_row (g_column_count g) cs"
    and offsets: "index_rows (length rows) (g_values g) = Some offsets"
  shows "scalar_describes (scalar_description g sql' wire (length rows) tb strings offsets) rows"
proof -
  let ?c = "scalar_description g sql' wire (length rows) tb strings offsets"
  from assms(1,2) show ?thesis
  proof (rule header_frame)
    fix prefix
    assume bytes: "\<And>body. r_bytes (g_values g) = select_bytes body \<Longrightarrow>
        wire = wire_bytes (g_version g) prefix body (g_raw_length g)"
      and loc: "located wire (g_values g)" and small: "unat (g_version g) \<le> INT32_MAX" "unat (g_raw_length g) \<le> INT32_MAX"
      and prefix: "take (unat (g_prefix_length g)) (drop (unat (g_prefix_offset g)) wire) = prefix"
        "unat (g_prefix_offset g) + unat (g_prefix_length g) \<le> length wire"
    have "scalar_prefix ?c = prefix" using prefix(1) by (simp add: scalar_prefix_def scalar_description_def)
    moreover obtain offs where "index_rows (length rows) (g_values g) = Some offs"
      "\<forall>i < length rows. \<exists>t. drop (unat (offs ! i)) wire = scalar_row_bytes (rows ! i) @ t"
      using scalar_index [OF loc assms(2) _ rows(2)] rows(1) unfolding select_bytes_def by blast
    ultimately show ?thesis
      unfolding scalar_describes_def
      using assms(2) bytes [OF rows(1)] small prefix(2) rows(2) offsets
      by (intro exI [of _ wire] exI [of _ offsets]) (simp add: scalar_description_def)
  qed
qed

text \<open>
  The strict constructor: its certificate describes the wire, and the rows stand in the source of
  the handle in order.
\<close>

lemma scalar_certify_elim:
  assumes "wire_scalar_insert_certify alloc env handle = Some c"
  obtains h buffer parser_buffer wire g rows vals tb strings pos offsets accept where
    "handle = Some h" "scalar_guard handle = Some (buffer, parser_buffer, wire)"
    "scalar_header alloc accept (take (h_sql_len h) buffer) wire = Some g"
    "certify_scalar_rows (take (h_sql_len h) buffer) (g_column_count g) (g_values g) 0 (g_text_bytes g) 0 (g_pos g) =
       Some (vals, length rows, tb, strings, pos)"
    "r_bytes (g_values g) = select_bytes (scalar_rows_bytes rows)"
    "\<forall>cs \<in> set rows. good_scalar_row (g_column_count g) cs"
    "stand_in (take (h_sql_len h) buffer) (g_pos g) (concat rows) pos" "32 \<le> length rows" "0 < g_column_count g"
    "index_rows (length rows) (g_values g) = Some offsets"
    "c = scalar_description g (take (h_sql_len h) buffer) wire (length rows) tb strings offsets"
proof -
  let ?accept = "\<lambda>columns (_ :: u32). \<not> (columns = 0 \<or> columns > SIZE_MAX div SIZEOF_NAME - 3)"
  from assms obtain h buffer parser_buffer wire g vals rc tb strings pos vals1 vals2 offsets where
    h: "handle = Some h" and guard: "scalar_guard handle = Some (buffer, parser_buffer, wire)" and
    header: "scalar_header alloc ?accept (take (h_sql_len h) buffer) wire = Some g" and
    rows: "certify_scalar_rows (take (h_sql_len h) buffer) (g_column_count g) (g_values g) 0 (g_text_bytes g) 0 (g_pos g) =
       Some (vals, rc, tb, strings, pos)" "\<not> rc < 32" and
    tail: "wi_enum WI_SELECT_LIMIT 1 vals = Some vals1" "wi_enum WI_SELECT_OP 1 vals1 = Some vals2" "r_bytes vals2 = []" and
    offsets: "index_rows rc (g_values g) = Some offsets" and
    c: "c = scalar_description g (take (h_sql_len h) buffer) wire rc tb strings offsets"
    unfolding wire_scalar_insert_certify_def Let_def
    by (elim step_Some pair_step_Some, hypsubst, simp only: check_eq_Some option.inject) blast
  from header scalar_guard_wire [OF guard] have bounds: "g_pos g \<le> length (take (h_sql_len h) buffer)" "0 < g_column_count g"
    by (elim header_frame; simp)+
  obtain rs where rs: "r_bytes (g_values g) = scalar_rows_bytes rs @ r_bytes vals"
    "\<forall>cs \<in> set rs. good_scalar_row (g_column_count g) cs" "rc = length rs"
    "stand_in (take (h_sql_len h) buffer) (g_pos g) (concat rs) pos"
    using certify_scalar_rows_accepts [OF rows(1) bounds(1)] by auto
  have "r_bytes (g_values g) = select_bytes (scalar_rows_bytes rs)"
    using tail rs(1) by (simp add: select_bytes_def wi_enum_exact)
  with that [of h buffer parser_buffer wire ?accept g vals rs tb strings pos offsets] h guard header rows rs(2-4) bounds(2) offsets c
  show thesis by simp
qed

lemma scalar_certify_describes:
  assumes "wire_scalar_insert_certify alloc env handle = Some c"
  obtains rows where "scalar_describes c rows" "stand_in (x_sql c) 0 (concat rows) (length (x_sql c))"
    "32 \<le> length rows" "0 < x_column_count c"
  using assms
proof (rule scalar_certify_elim)
  fix h buffer parser_buffer wire g rows vals tb strings pos offsets accept
  assume guard: "scalar_guard handle = Some (buffer, parser_buffer, wire)"
    and header: "scalar_header alloc accept (take (h_sql_len h) buffer) wire = Some g"
    and rows: "r_bytes (g_values g) = select_bytes (scalar_rows_bytes rows)"
      "\<forall>cs \<in> set rows. good_scalar_row (g_column_count g) cs"
    and stand: "stand_in (take (h_sql_len h) buffer) (g_pos g) (concat rows) pos"
    and bounds: "32 \<le> length rows" "0 < g_column_count g"
    and offsets: "index_rows (length rows) (g_values g) = Some offsets"
    and c: "c = scalar_description g (take (h_sql_len h) buffer) wire (length rows) tb strings offsets"
  have "stand_in (take (h_sql_len h) buffer) 0 (concat rows) (length (take (h_sql_len h) buffer))"
    by (rule stand_in_weaken [OF stand]) (use stand_in_le [OF stand] in simp_all)
  with described_from_header [OF header scalar_guard_wire [OF guard] rows offsets] bounds show thesis
    by (intro that [of rows]) (simp_all add: c, simp_all add: scalar_description_def)
qed

section \<open>The two pack entry points agree\<close>

text \<open>The rows after the edits, from the described rows.\<close>

fun edit_cells ::
  "source_edit list \<Rightarrow> scalar_cell list \<Rightarrow> nat \<Rightarrow> int \<Rightarrow> (scalar_cell list \<times> nat \<times> int) option" where
  "edit_cells edits [] index delta = Some ([], index, delta)"
| "edit_cells edits (c # cs) index delta = do {
     (c, index, delta) \<leftarrow> wsi_effective_cell edits index delta c;
     (cs, index, delta) \<leftarrow> edit_cells edits cs index delta;
     Some (c # cs, index, delta) }"

fun edit_scalar_rows ::
  "source_edit list \<Rightarrow> scalar_cell list list \<Rightarrow> nat \<Rightarrow> int \<Rightarrow> (scalar_cell list list \<times> nat \<times> int) option" where
  "edit_scalar_rows edits [] index delta = Some ([], index, delta)"
| "edit_scalar_rows edits (cs # rows) index delta = do {
     (cs, index, delta) \<leftarrow> edit_cells edits cs index delta;
     (rows, index, delta) \<leftarrow> edit_scalar_rows edits rows index delta;
     Some (cs # rows, index, delta) }"

lemma effective_cell_fields:
  assumes "wsi_effective_cell edits index delta c = Some (c', index', delta')"
  shows "s_kind c' = s_kind c" "s_integer c' = s_integer c"
  using assms by (auto simp: wsi_effective_cell_def Let_def bind_eq_Some_conv split: if_splits)

lemma good_known: "good_scalar c \<Longrightarrow> known_function c"
  by (auto simp: good_scalar_def good_value_def known_function_def split: option.splits scalar_kind.splits)

lemma effective_cells_described:
  assumes "\<forall>c \<in> set cs. good_scalar c" "r_bytes r = cells_bytes cs"
  shows "map_option (\<lambda>(cs, r, i, d). (cs, r_bytes r, i, d)) (effective_cells certified edits (length cs) r index delta) =
    map_option (\<lambda>(cs, i, d). (cs, [], i, d)) (edit_cells edits cs index delta)"
  using assms
proof (induction cs arbitrary: r index delta)
  case (Cons c cs)
  then obtain r' where r': "wsi_read_cell certified r = Some (c, r')" "r_bytes r' = cells_bytes cs"
    using read_cell_reads [of c r "cells_bytes cs" certified] by auto
  show ?case
  proof (cases "wsi_effective_cell edits index delta c")
    case None
    then show ?thesis by (simp add: r'(1))
  next
    case (Some t)
    obtain c' index' delta' where t: "t = (c', index', delta')" by (cases t)
    have "known_function c'"
      using good_known [of c] Cons.prems(1) effective_cell_fields [OF Some [unfolded t]] by (simp add: known_function_def)
    with Cons.IH [OF _ r'(2), of index' delta'] Cons.prems(1) r'(1) Some t show ?thesis
      by (cases "effective_cells certified edits (length cs) r' index' delta'";
          cases "edit_cells edits cs index' delta'") auto
  qed
qed simp

lemma effective_rows_are_edited:
  assumes "scalar_describes ins rows" "set is \<subseteq> {..< length rows}"
  shows "effective_scalar_rows certified ins edits is index delta = edit_scalar_rows edits (map ((!) rows) is) index delta"
  using assms(2)
proof (induction "is" arbitrary: index delta)
  case (Cons i "is")
  then have i: "i < length rows" by simp
  then have row: "length (rows ! i) = x_column_count ins" "\<forall>c \<in> set (rows ! i). good_scalar c"
    using assms(1) nth_mem [OF i] by (auto simp: scalar_describes_def good_scalar_row_def)
  obtain r where r: "wsi_read_row certified (Some ins) i = Some r" "r_bytes r = cells_bytes (rows ! i)"
    using described_row [OF assms(1) i] by blast
  show ?case
    using effective_cells_described [OF row(2) r(2), of certified edits index delta] Cons
    by (cases "effective_cells certified edits (x_column_count ins) r index delta";
        cases "edit_cells edits (rows ! i) index delta") (auto simp: r(1) row(1))
qed simp

lemma packed_described:
  assumes "scalar_describes ins rows"
  shows "packed_scalar_wire certified ins edits = do {
     (rows, index, delta) \<leftarrow> edit_scalar_rows edits rows 0 0;
     check (index = length edits \<and> in_int32 (int (length (x_sql ins)) + delta));
     raw_length \<leftarrow> shifted_raw_length (x_raw_length ins) delta;
     let bytes = wire_bytes (x_version ins) (scalar_prefix ins) (scalar_rows_bytes rows) raw_length;
     check (length bytes < 2 ^ 32);
     Some bytes }"
proof -
  have "x_row_count ins = length rows" using assms by (auto simp: scalar_describes_def)
  then have "effective_scalar_rows certified ins edits [0..<x_row_count ins] 0 0 = edit_scalar_rows edits rows 0 0"
    using effective_rows_are_edited [OF assms, of "[0..<length rows]" certified edits 0 0] by (simp add: map_nth atLeast0LessThan)
  then show ?thesis by (simp add: packed_scalar_wire_def)
qed

end
