(* ===== verification/Wire_Restore.thy ===== *)
theory Wire_Restore
  imports Wire_Properties
begin

text \<open>
  The packer and the restored source.  The packer rewrites the cells of a certificate edit by edit,
  and \<^verbatim>\<open>sqlparser_surface_restore_source_edits\<close> rewrites the source by the same edits; here the two
  are brought together: the cells of the packed wire stand in the restored source, in order, where
  their locations say.
\<close>

section \<open>The rows after the edits\<close>

fun edit_rows ::
  "source_edit list \<Rightarrow> (insert_cell \<times> insert_cell) list \<Rightarrow> nat \<Rightarrow> int
     \<Rightarrow> ((insert_cell \<times> insert_cell) list \<times> nat \<times> int) option"
where
  "edit_rows edits [] index delta = Some ([], index, delta)"
| "edit_rows edits (cs # rows) index delta = do {
     (cs', index, delta) \<leftarrow> shift_row edits index delta cs;
     (rows', index, delta) \<leftarrow> edit_rows edits rows index delta;
     Some (cs' # rows', index, delta) }"

lemma effective_rows_described:
  assumes "describes ins rows" "k \<le> length rows"
  shows "effective_rows ins edits [k..<length rows] index delta = edit_rows edits (drop k rows) index delta"
  using assms(2)
proof (induction "length rows - k" arbitrary: k index delta)
  case 0
  then show ?case by simp
next
  case (Suc n)
  then have k: "k < length rows" by simp
  have step: "wi_effective_row ins k edits i d = shift_row edits i d (rows ! k)" for i d
    by (simp add: wi_effective_row_def describes_rows(2) [OF assms(1) k])
  have tail: "effective_rows ins edits [Suc k..<length rows] i d = edit_rows edits (drop (Suc k) rows) i d" for i d
    by (rule Suc.hyps(1)) (use Suc.hyps(2) k in simp_all)
  show ?case
    using k by (simp add: upt_conv_Cons Cons_nth_drop_Suc [symmetric] step tail del: drop_Suc)
qed

text \<open>The cases of one row: its string is replaced, or the next edit starts behind it.\<close>

lemma shift_row_cases:
  assumes "shift_row edits index delta (cell0, cell1) = Some ((cell0', cell1'), index', delta')"
  obtains (replaced) "index < length edits" "source_start (edits ! index) = nat (c_location cell1)"
      "source_end (edits ! index) = nat (c_location cell1) + length (c_text cell1) + 2"
      "cell0' = cell0\<lparr>c_location := c_location cell0 + delta\<rparr>"
      "cell1' = cell1\<lparr>c_location := c_location cell1 + delta, c_text := bytes_of (edit_interior (edits ! index))\<rparr>"
      "index' = index + 1"
      "delta' = delta + int (replacement_length (edits ! index)) - (int (length (c_text cell1)) + 2)"
  | (kept) "index < length edits \<Longrightarrow> nat (c_location cell1) < source_start (edits ! index)"
      "cell0' = cell0\<lparr>c_location := c_location cell0 + delta\<rparr>"
      "cell1' = cell1\<lparr>c_location := c_location cell1 + delta\<rparr>" "index' = index" "delta' = delta"
proof (cases "index < length edits \<and> source_start (edits ! index) = nat (c_location cell1)")
  case True
  with assms show thesis
    by (intro replaced) (auto simp: shift_row_def Let_def bind_eq_Some_conv split: if_splits)
next
  case False
  with assms show thesis
    by (intro kept) (auto simp: shift_row_def Let_def bind_eq_Some_conv split: if_splits)
qed

text \<open>When every edit is met, the next edit starts behind the rows read.\<close>

lemma edit_rows_next:
  "edit_rows edits rows index delta = Some (rows', length edits, delta') \<Longrightarrow> index < length edits \<Longrightarrow>
   rows_at sql pos rows \<Longrightarrow> pos \<le> source_start (edits ! index)"
proof (induction rows arbitrary: rows' index delta pos)
  case (Cons cs rows)
  obtain cell0 cell1 where cs: "cs = (cell0, cell1)" by (cases cs)
  obtain cell0' cell1' i d rest where
    row: "shift_row edits index delta (cell0, cell1) = Some ((cell0', cell1'), i, d)"
    and rest: "edit_rows edits rows i d = Some (rest, length edits, delta')"
    using Cons.prems(1) by (auto simp: cs bind_eq_Some_conv)
  have at: "pos \<le> nat (c_location cell1)"
    "rows_at sql (nat (c_location cell1) + length (c_text cell1) + 2) rows"
    using Cons.prems(3) by (auto simp: cs integer_at_def Let_def)
  from row show ?case
  proof (cases rule: shift_row_cases)
    case replaced
    with at show ?thesis by simp
  next
    case kept
    with Cons.IH [OF rest _ at(2)] Cons.prems(2) at(1) show ?thesis by simp
  qed
qed simp

section \<open>Two texts that agree on a range\<close>

lemma takeWhile_agrees:
  assumes "take k xs = take k ys" "k \<le> length ys" "j \<le> k" "length (takeWhile P (drop j ys)) < k - j"
  shows "takeWhile P (drop j xs) = takeWhile P (drop j ys)"
proof -
  let ?a = "drop j (take k ys)"
  have ys: "drop j ys = ?a @ drop k ys"
    using assms(2,3) by (metis append_take_drop_id drop_append length_take min.absorb2 diff_is_0_eq drop0)
  have "length xs \<ge> k"
    using arg_cong [OF assms(1), of length] assms(2) by simp
  then have xs: "drop j xs = ?a @ drop k xs"
    using assms by (metis append_take_drop_id drop_append length_take min.absorb2 diff_is_0_eq drop0)
  have stop: "\<exists>x \<in> set ?a. \<not> P x"
  proof (rule ccontr)
    assume "\<not> (\<exists>x \<in> set ?a. \<not> P x)"
    then have "length (takeWhile P (drop j ys)) \<ge> length ?a"
      unfolding ys by (simp add: takeWhile_append2 del: drop_drop)
    with assms show False by simp
  qed
  then have "takeWhile P (?a @ z) = takeWhile P ?a" for z
    by (auto simp: takeWhile_append)
  then show ?thesis unfolding xs ys by metis
qed

text \<open>Text \<open>t\<close> from \<open>w\<close> on repeats \<open>k\<close> bytes of \<open>s\<close> from \<open>c\<close> on.\<close>

definition repeats :: "string \<Rightarrow> nat \<Rightarrow> string \<Rightarrow> nat \<Rightarrow> nat \<Rightarrow> bool" where
  "repeats t w s c k \<longleftrightarrow> take k (drop w t) = take k (drop c s) \<and> c + k \<le> length s \<and> w + k \<le> length t"

lemma repeats_nth: "repeats t w s c k \<Longrightarrow> j < k \<Longrightarrow> t ! (w + j) = s ! (c + j)"
proof -
  assume r: "repeats t w s c k" "j < k"
  then have eq: "take k (drop w t) ! j = take k (drop c s) ! j" by (simp only: repeats_def)
  from r have "w + k \<le> length t" "c + k \<le> length s" by (simp_all add: repeats_def)
  with eq r(2) show ?thesis by simp
qed

lemma repeats_take:
  assumes "repeats t w s c k" "j + n \<le> k"
  shows "take n (drop (w + j) t) = take n (drop (c + j) s)"
proof -
  have "take n (drop j (take k (drop w t))) = take n (drop j (take k (drop c s)))"
    using assms(1) by (simp only: repeats_def)
  moreover have "n \<le> k - j" "min n (k - j) = n" using assms(2) by simp_all
  ultimately show ?thesis by (simp add: drop_take add.commute)
qed

lemma repeats_integer:
  assumes "repeats t w s c k" "integer_at s (c + i) n (c + j)" "j \<le> k"
  shows "integer_at t (w + i) n (w + j)"
proof -
  have len: "length (takeWhile c_isdigit (drop (c + i) s)) < j - i" "i \<le> j"
    using assms(2) by (auto simp: integer_at_def Let_def)
  have "takeWhile c_isdigit (drop i (drop w t)) = takeWhile c_isdigit (drop i (drop c s))"
    by (rule takeWhile_agrees [of k]) (use assms(1,3) len in \<open>auto simp: repeats_def add.commute\<close>)
  then have "takeWhile c_isdigit (drop (w + i) t) = takeWhile c_isdigit (drop (c + i) s)"
    by (simp add: add.commute)
  with assms(2) show ?thesis by (simp add: integer_at_def Let_def)
qed

lemma repeats_string:
  assumes "repeats t w s c k" "string_at s (c + i) x" "i + length x + 2 \<le> k"
  shows "string_at t (w + i) x"
proof -
  have "t ! (w + i) = s ! (c + i)" "t ! (w + (i + 1 + length x)) = s ! (c + (i + 1 + length x))"
    by (rule repeats_nth [OF assms(1)], use assms(3) in simp)+
  moreover have "take (length x) (drop (w + (i + 1)) t) = take (length x) (drop (c + (i + 1)) s)"
    by (rule repeats_take [OF assms(1)]) (use assms(3) in simp)
  ultimately show ?thesis
    using assms unfolding string_at_def repeats_def by (simp add: add.assoc)
qed

text \<open>A spliced text repeats the source up to its next replacement.\<close>

lemma splice_repeats:
  assumes "drop w t = splice s c es" "edits_in c (length s) es" "w \<le> length t"
    "\<And>a b r es'. es = (a, b, r) # es' \<Longrightarrow> c + k \<le> a" "c + k \<le> length s"
  shows "repeats t w s c k" "drop (w + k) t = splice s (c + k) es"
proof -
  have "splice s c es = Sql_Prelude.slice s c (c + k) @ splice s (c + k) es"
  proof (cases es)
    case Nil
    then show ?thesis by (simp add: Sql_Prelude.slice_def) (metis append_take_drop_id drop_drop add.commute)
  next
    case (Cons e es')
    obtain a b r where e: "e = (a, b, r)" by (cases e)
    then have "Sql_Prelude.slice s c a = Sql_Prelude.slice s c (c + k) @ Sql_Prelude.slice s (c + k) a"
      using assms(4) Cons by (simp add: slice_append)
    then show ?thesis by (simp add: Cons e)
  qed
  then have t: "drop w t = take k (drop c s) @ splice s (c + k) es"
    using assms(1) by (simp add: Sql_Prelude.slice_def)
  have len: "length (take k (drop c s)) = k" using assms(5) by simp
  have "length (drop w t) \<ge> k" unfolding t using len by simp
  then have "w + k \<le> length t" using assms(3) by simp
  then show "repeats t w s c k" using t len assms(3,5) by (simp add: repeats_def)
  have "drop (w + k) t = drop k (drop w t)" by (simp add: add.commute)
  then show "drop (w + k) t = splice s (c + k) es" unfolding t using len by simp
qed

section \<open>The packed rows stand in the restored source\<close>

text \<open>What \<^verbatim>\<open>wi_edits\<close> asks of an edit, the terminating byte of its replacement left aside.\<close>

definition quoted_edit :: "source_edit \<Rightarrow> bool" where
  "quoted_edit e \<longleftrightarrow> edit_wf e \<and> 2 \<le> replacement_length e \<and>
     the (replacement e) ! 0 = QUOTE \<and> the (replacement e) ! (replacement_length e - 1) = QUOTE"

lemma edits_loop_quoted:
  "edits_loop proven p es \<Longrightarrow> list_all edit_wf es \<Longrightarrow> list_all quoted_edit es"
proof (induction es arbitrary: p)
  case (Cons e es)
  from Cons.prems have "edits_loop proven (source_end e) es"
    by (auto split: if_splits option.splits)
  moreover from Cons.prems have "quoted_edit e"
    by (auto simp: quoted_edit_def edit_wf_def char_at_def split: if_splits option.splits)
  ultimately show ?case using Cons by simp
qed simp

lemma quoted_replacement:
  assumes "quoted_edit e"
  shows "the (replacement e) = QUOTE # edit_interior e @ [QUOTE]"
    "replacement_length e = length (edit_interior e) + 2"
proof -
  obtain t where t: "replacement e = Some t" "length t = replacement_length e" "2 \<le> length t"
    "t ! 0 = QUOTE" "t ! (length t - 1) = QUOTE"
    using assms by (auto simp: quoted_edit_def edit_wf_def split: option.splits)
  then obtain x u y where xuy: "t = x # u @ [y]"
    by (cases t; cases "tl t" rule: rev_cases) auto
  then have "length t - 2 = length u" "t ! (length t - 1) = y" by (simp_all add: nth_append)
  with t xuy show "the (replacement e) = QUOTE # edit_interior e @ [QUOTE]"
    "replacement_length e = length (edit_interior e) + 2"
    by (auto simp: edit_interior_def)
qed

lemma quoted_string_at:
  assumes "quoted_edit e" "drop p t = the (replacement e) @ rest"
  shows "string_at t p (bytes_of (edit_interior e))"
proof -
  let ?x = "edit_interior e"
  have t: "drop p t = QUOTE # ?x @ QUOTE # rest" using assms quoted_replacement(1) by simp
  have "length t - p = length ?x + 2 + length rest"
    using arg_cong [OF t, of length] unfolding length_drop by simp
  then have len: "length t = p + length ?x + 2 + length rest" by linarith
  have "t ! p = QUOTE" "t ! (p + 1 + length ?x) = QUOTE"
    using arg_cong [OF t, of "\<lambda>xs. xs ! 0"] arg_cong [OF t, of "\<lambda>xs. xs ! (1 + length ?x)"] len
    by (simp_all add: nth_append)
  moreover have "drop (p + 1) t = ?x @ QUOTE # rest"
    using arg_cong [OF t, of "drop 1"] by (simp add: add.commute)
  ultimately show ?thesis by (simp add: string_at_def len)
qed

text \<open>
  The invariant of the row loop: the source is read up to \<open>c\<close>, the restored text is written up to
  \<open>w\<close>, and \<open>delta\<close> is their distance.
\<close>

definition tracks :: "source_edit list \<Rightarrow> string \<Rightarrow> string \<Rightarrow> nat \<Rightarrow> int \<Rightarrow> nat \<Rightarrow> nat \<Rightarrow> bool" where
  "tracks edits sql t index delta c w \<longleftrightarrow>
     index \<le> length edits \<and> edits_in c (length sql) (map edit_view (drop index edits)) \<and>
     drop w t = splice sql c (map edit_view (drop index edits)) \<and> w \<le> length t \<and> int w = int c + delta"

lemma drop_edits: "index < length edits \<Longrightarrow> drop index edits = edits ! index # drop (index + 1) edits"
  by (simp add: Cons_nth_drop_Suc)

text \<open>Bytes before the next edit are copied.\<close>

lemma tracks_copy:
  assumes "tracks edits sql t index delta c w" "c + k \<le> length sql"
    "index < length edits \<Longrightarrow> c + k \<le> source_start (edits ! index)"
  shows "repeats t w sql c k" "tracks edits sql t index delta (c + k) (w + k)"
proof -
  note tr = assms(1) [unfolded tracks_def]
  have behind: "c + k \<le> a" if "map edit_view (drop index edits) = (a, b, r) # es'" for a b r es'
  proof -
    from that have "index < length edits" by (cases "index < length edits") simp_all
    with that assms(3) show ?thesis by (simp add: drop_edits edit_view_def)
  qed
  have copied: "repeats t w sql c k" "drop (w + k) t = splice sql (c + k) (map edit_view (drop index edits))"
    using splice_repeats [of w t sql c "map edit_view (drop index edits)" k] tr assms(2) behind by blast+
  then show "repeats t w sql c k" by simp
  have "edits_in (c + k) (length sql) (map edit_view (drop index edits))"
    using tr assms(2) behind by (cases "map edit_view (drop index edits)") auto
  with copied tr show "tracks edits sql t index delta (c + k) (w + k)"
    by (simp add: tracks_def repeats_def)
qed

text \<open>An edit at the current position replaces \<open>n\<close> bytes.\<close>

lemma tracks_edit:
  assumes "tracks edits sql t index delta c w" "index < length edits" "quoted_edit (edits ! index)"
    "source_start (edits ! index) = c" "source_end (edits ! index) = c + n"
  shows "string_at t w (bytes_of (edit_interior (edits ! index)))"
    "tracks edits sql t (index + 1) (delta + int (replacement_length (edits ! index)) - int n) (c + n)
       (w + replacement_length (edits ! index))"
proof -
  let ?e = "edits ! index" and ?es = "map edit_view (drop (index + 1) edits)"
  note tr = assms(1) [unfolded tracks_def]
  have len: "length (the (replacement ?e)) = replacement_length ?e"
    using quoted_replacement [OF assms(3)] by simp
  have es: "map edit_view (drop index edits) = (c, c + n, the (replacement ?e)) # ?es"
    using assms by (simp add: drop_edits edit_view_def)
  then have behind: "drop w t = the (replacement ?e) @ splice sql (c + n) ?es" using tr by simp
  then show "string_at t w (bytes_of (edit_interior ?e))" by (rule quoted_string_at [OF assms(3)])
  have "drop (w + replacement_length ?e) t = drop (replacement_length ?e) (drop w t)" by (simp add: add.commute)
  then have "drop (w + replacement_length ?e) t = splice sql (c + n) ?es" unfolding behind using len by simp
  moreover have "length (drop w t) \<ge> replacement_length ?e" unfolding behind using len by simp
  then have "w + replacement_length ?e \<le> length t"
    using quoted_replacement(2) [OF assms(3)] by simp
  ultimately show "tracks edits sql t (index + 1) (delta + int (replacement_length ?e) - int n) (c + n)
      (w + replacement_length ?e)"
    using tr assms(2) unfolding es by (simp add: tracks_def)
qed

lemma rows_restored:
  "edit_rows edits rows index delta = Some (rows', length edits, delta') \<Longrightarrow>
   list_all quoted_edit edits \<Longrightarrow> rows_at sql c rows \<Longrightarrow> tracks edits sql t index delta c w \<Longrightarrow> rows_at t w rows'"
proof (induction rows arbitrary: rows' index delta c w)
  case Nil
  then show ?case by (simp add: tracks_def)
next
  case (Cons cs rows)
  obtain cell0 cell1 where cs: "cs = (cell0, cell1)" by (cases cs)
  obtain cell0' cell1' i d rest where
    row: "shift_row edits index delta (cell0, cell1) = Some ((cell0', cell1'), i, d)"
    and rest: "edit_rows edits rows i d = Some (rest, length edits, delta')" and rows': "rows' = (cell0', cell1') # rest"
    using Cons.prems(1) by (auto simp: cs bind_eq_Some_conv)
  define i0 i1 where "i0 = nat (c_location cell0) - c" and "i1 = nat (c_location cell1) - c"
  let ?len = "length (c_text cell1) + 2"
  have at: "c_location cell0 = int (c + i0)" "c_location cell1 = int (c + i1)" "i0 < i1"
    "integer_at sql (c + i0) (c_integer cell0) (c + i1)" "string_at sql (c + i1) (c_text cell1)"
    "rows_at sql (c + i1 + ?len) rows"
    using Cons.prems(3) by (auto simp: cs i0_def i1_def integer_at_def Let_def)
  have fin: "c + i1 + ?len \<le> length sql" using at(5) by (simp add: string_at_def)
  have moved: "c_location cell0 + delta = int (w + i0)" "c_location cell1 + delta = int (w + i1)"
    using at(1,2) Cons.prems(4) by (simp_all add: tracks_def)
  from row show ?case
  proof (cases rule: shift_row_cases)
    case replaced
    let ?e = "edits ! index"
    have e: "quoted_edit ?e" "source_start ?e = c + i1" "source_end ?e = c + i1 + ?len"
      using replaced(1-3) Cons.prems(2) at(2) by (simp_all add: list_all_length)
    have copied: "repeats t w sql c i1" "tracks edits sql t index delta (c + i1) (w + i1)"
      using tracks_copy [OF Cons.prems(4), of i1] e(2) fin by simp_all
    note edited = tracks_edit [OF copied(2) replaced(1) e]
    have "rows_at t (w + i1 + replacement_length ?e) rest"
      using Cons.IH [OF rest Cons.prems(2) at(6)] edited(2) by (simp add: replaced(6,7) add.commute)
    with repeats_integer [OF copied(1) at(4)] edited(1) show ?thesis
      using replaced(4,5) moved quoted_replacement(2) [OF e(1)] by (simp add: rows' add.assoc nat_int_add)
  next
    case kept
    have "c + (i1 + ?len) \<le> source_start (edits ! index)" if "index < length edits"
      using edit_rows_next [OF rest _ at(6)] that kept(4) by simp
    then have copied: "repeats t w sql c (i1 + ?len)"
      "tracks edits sql t index delta (c + (i1 + ?len)) (w + (i1 + ?len))"
      using tracks_copy [OF Cons.prems(4), of "i1 + ?len"] fin by (simp_all add: add.assoc)
    have "rows_at t (w + (i1 + ?len)) rest"
      using Cons.IH [OF rest Cons.prems(2) at(6)] copied(2) by (simp add: kept(4,5) add.assoc)
    with repeats_integer [OF copied(1) at(4)] repeats_string [OF copied(1) at(5)] show ?thesis
      using kept(2,3) moved by (simp add: rows' add.assoc nat_int_add)
  qed
qed

section \<open>What becomes of a cell\<close>

text \<open>
  A cell moves by what the edits that end before it add and remove; a string with an edit at its place
  is the interior of the replacement.
\<close>

definition shift_at :: "source_edit list \<Rightarrow> nat \<Rightarrow> int" where
  "shift_at edits p =
     (\<Sum>e \<leftarrow> filter (\<lambda>e. source_end e \<le> p) edits. int (replacement_length e) - (int (source_end e) - int (source_start e)))"

definition moved_cell :: "source_edit list \<Rightarrow> insert_cell \<Rightarrow> insert_cell" where
  "moved_cell edits cell = cell\<lparr>c_location := c_location cell + shift_at edits (nat (c_location cell))\<rparr>"

definition edited_cell :: "source_edit list \<Rightarrow> insert_cell \<Rightarrow> insert_cell" where
  "edited_cell edits cell =
     (case find (\<lambda>e. source_start e = nat (c_location cell)) edits of
        None \<Rightarrow> moved_cell edits cell
      | Some e \<Rightarrow> (moved_cell edits cell)\<lparr>c_text := bytes_of (edit_interior e)\<rparr>)"

definition edited_row :: "source_edit list \<Rightarrow> insert_cell \<times> insert_cell \<Rightarrow> insert_cell \<times> insert_cell" where
  "edited_row edits cs = (moved_cell edits (fst cs), edited_cell edits (snd cs))"

text \<open>The edit replaces the whole literal of a row.\<close>

definition replaces_string :: "source_edit \<Rightarrow> insert_cell \<times> insert_cell \<Rightarrow> bool" where
  "replaces_string e cs \<longleftrightarrow> source_start e = nat (c_location (snd cs)) \<and>
     source_end e = nat (c_location (snd cs)) + length (c_text (snd cs)) + 2"

text \<open>The edits before \<open>index\<close> are behind the source position \<open>c\<close>, the others are ahead.\<close>

definition edits_met :: "source_edit list \<Rightarrow> nat \<Rightarrow> nat \<Rightarrow> int \<Rightarrow> nat \<Rightarrow> bool" where
  "edits_met edits n index delta c \<longleftrightarrow>
     index \<le> length edits \<and> (\<forall>e \<in> set (take index edits). source_start e \<le> source_end e \<and> source_end e \<le> c) \<and>
     edits_in c n (map edit_view (drop index edits)) \<and> delta = shift_at (take index edits) c"

lemma edits_ahead:
  "edits_in c n (map edit_view es) \<Longrightarrow> e \<in> set es \<Longrightarrow>
     source_start (hd es) \<le> source_start e \<and> source_end (hd es) \<le> source_end e \<and> source_start e \<le> source_end e \<and>
     (e = hd es \<or> source_end (hd es) \<le> source_start e) \<and> c \<le> source_start e"
proof (induction es arbitrary: c)
  case (Cons f es)
  have f: "c \<le> source_start f" "source_start f \<le> source_end f" "edits_in (source_end f) n (map edit_view es)"
    using Cons.prems(1) by simp_all
  show ?case
  proof (cases "e = f")
    case False
    then have "e \<in> set es" using Cons.prems(2) by simp
    from Cons.IH [OF f(3) this] f(1,2) show ?thesis by auto
  qed (use f in simp)
qed simp

lemma met_shift:
  assumes "edits_met edits n index delta c" "c \<le> p" "index < length edits \<Longrightarrow> p < source_end (edits ! index)"
  shows "shift_at edits p = delta"
proof -
  note met = assms(1) [unfolded edits_met_def]
  have ahead: "filter (\<lambda>e. source_end e \<le> p) (drop index edits) = []"
  proof (cases "index < length edits")
    case True
    have "p < source_end e" if "e \<in> set (drop index edits)" for e
      using edits_ahead [of c n "drop index edits" e] met that assms(3) [OF True] True by (simp add: hd_drop_conv_nth)
    then show ?thesis by (auto simp: filter_empty_conv not_le)
  qed simp
  have behind: "filter (\<lambda>e. source_end e \<le> q) (take index edits) = take index edits" if "c \<le> q" for q
    using met that by (intro filter_True) auto
  have "shift_at edits p = shift_at (take index edits @ drop index edits) p" by simp
  also have "\<dots> = shift_at (take index edits) p" unfolding shift_at_def filter_append ahead by simp
  also have "\<dots> = shift_at (take index edits) c" using behind [OF assms(2)] behind [OF order_refl] by (simp add: shift_at_def)
  finally show ?thesis using met by simp
qed

lemma met_find:
  assumes "edits_met edits n index delta c" "c < p" "index < length edits \<Longrightarrow> p \<le> source_start (edits ! index)"
  shows "find (\<lambda>e. source_start e = p) edits =
    (if index < length edits \<and> source_start (edits ! index) = p then Some (edits ! index) else None)"
proof -
  note met = assms(1) [unfolded edits_met_def]
  have behind: "find (\<lambda>e. source_start e = p) (take index edits) = None"
    using met assms(2) by (auto simp: find_None_iff)
  have append: "find P (xs @ ys) = (case find P xs of None \<Rightarrow> find P ys | Some x \<Rightarrow> Some x)" for P and xs ys :: "source_edit list"
    by (induction xs) auto
  have "find (\<lambda>e. source_start e = p) edits = find (\<lambda>e. source_start e = p) (drop index edits)"
    using append [of "\<lambda>e. source_start e = p" "take index edits" "drop index edits"] behind by simp
  also have "\<dots> = (if index < length edits \<and> source_start (edits ! index) = p then Some (edits ! index) else None)"
  proof (cases "index < length edits \<and> source_start (edits ! index) = p")
    case True
    then show ?thesis by (simp add: drop_edits)
  next
    case False
    have "source_start e \<noteq> p" if "e \<in> set (drop index edits)" for e
      using edits_ahead [of c n "drop index edits" e] met that assms(3) False
      by (cases "index < length edits") (auto simp: hd_drop_conv_nth)
    then show ?thesis using False by (auto simp: find_None_iff)
  qed
  finally show ?thesis .
qed

lemma met_on:
  assumes "edits_met edits n index delta c" "c \<le> q" "q \<le> n" "index < length edits \<Longrightarrow> q \<le> source_start (edits ! index)"
  shows "edits_met edits n index delta q"
proof -
  note met = assms(1) [unfolded edits_met_def]
  have "edits_in q n (map edit_view (drop index edits))"
    using met assms(3,4) by (cases "index < length edits") (auto simp: drop_edits edit_view_def)
  moreover have "shift_at (take index edits) q = shift_at (take index edits) c"
  proof -
    have "filter (\<lambda>e. source_end e \<le> r) (take index edits) = take index edits" if "c \<le> r" for r
      using met that by (intro filter_True) auto
    then show ?thesis using assms(2) by (simp add: shift_at_def)
  qed
  ultimately show ?thesis using met assms(2) by (force simp: edits_met_def)
qed

lemma met_edit:
  assumes "edits_met edits n index delta c" "index < length edits"
  shows "edits_met edits n (index + 1)
    (delta + int (replacement_length (edits ! index)) - (int (source_end (edits ! index)) - int (source_start (edits ! index))))
    (source_end (edits ! index))"
proof -
  let ?e = "edits ! index"
  note met = assms(1) [unfolded edits_met_def]
  have e: "c \<le> source_start ?e" "source_start ?e \<le> source_end ?e" "edits_in (source_end ?e) n (map edit_view (drop (index + 1) edits))"
    using met assms(2) by (simp_all add: drop_edits edit_view_def)
  have take: "take (index + 1) edits = take index edits @ [?e]" using assms(2) by (simp add: take_Suc_conv_app_nth)
  have all: "filter (\<lambda>e. source_end e \<le> r) (take index edits) = take index edits" if "c \<le> r" for r
    using met that by (intro filter_True) auto
  have "shift_at (take (index + 1) edits) (source_end ?e) =
      delta + int (replacement_length ?e) - (int (source_end ?e) - int (source_start ?e))"
    using all [of "source_end ?e"] all [of c] e(1,2) met unfolding take by (simp add: shift_at_def)
  then show ?thesis using met e assms(2) unfolding edits_met_def take by fastforce
qed

lemma rows_edited:
  "edit_rows edits rows index delta = Some (rows', length edits, delta') \<Longrightarrow> rows_at sql c rows \<Longrightarrow>
   edits_met edits (length sql) index delta c \<Longrightarrow>
   rows' = map (edited_row edits) rows \<and> (\<forall>e \<in> set (drop index edits). \<exists>cs \<in> set rows. replaces_string e cs)"
proof (induction rows arbitrary: rows' index delta c)
  case Nil
  then show ?case by simp
next
  case (Cons cs rows)
  obtain cell0 cell1 where cs: "cs = (cell0, cell1)" by (cases cs)
  obtain cell0' cell1' i d rest where
    row: "shift_row edits index delta (cell0, cell1) = Some ((cell0', cell1'), i, d)"
    and rest: "edit_rows edits rows i d = Some (rest, length edits, delta')" and rows': "rows' = (cell0', cell1') # rest"
    using Cons.prems(1) by (auto simp: cs bind_eq_Some_conv)
  let ?p0 = "nat (c_location cell0)" and ?p1 = "nat (c_location cell1)" and ?len = "length (c_text cell1) + 2"
  have at: "c \<le> ?p0" "?p0 < ?p1" "rows_at sql (?p1 + ?len) rows" "?p1 + ?len \<le> length sql"
    using Cons.prems(2) by (auto simp: cs integer_at_def string_at_def Let_def)
  from row show ?case
  proof (cases rule: shift_row_cases)
    case replaced
    let ?e = "edits ! index"
    have "edits_met edits (length sql) i d (?p1 + ?len)"
      using met_edit [OF Cons.prems(3) replaced(1)] replaced(2,3,6,7) by (simp add: add.assoc add.commute [of "2 :: int"])
    note tail = Cons.IH [OF rest at(3) this]
    have "c \<le> ?p1" "?p0 < source_end ?e" "?p1 < source_end ?e" using at(1,2) unfolding replaced(3) by linarith+
    then have shifts: "shift_at edits ?p0 = delta" "shift_at edits ?p1 = delta"
      using met_shift [OF Cons.prems(3) at(1)] met_shift [OF Cons.prems(3), of ?p1] by blast+
    have "find (\<lambda>e. source_start e = ?p1) edits = Some ?e"
      using met_find [OF Cons.prems(3), of ?p1] at(1,2) replaced(1,2) by simp
    then have "edited_row edits cs = (cell0', cell1')"
      using shifts replaced(4,5) by (simp add: edited_row_def edited_cell_def moved_cell_def cs)
    moreover have "replaces_string ?e cs" using replaced(2,3) by (simp add: replaces_string_def cs)
    ultimately show ?thesis using tail replaced(1,6) by (auto simp: rows' drop_edits)
  next
    case kept
    have next_edit: "?p1 + ?len \<le> source_start (edits ! index)" if "index < length edits"
      using edit_rows_next [OF rest _ at(3)] that kept(4) by simp
    have "edits_met edits (length sql) i d (?p1 + ?len)"
      using met_on [OF Cons.prems(3) _ at(4)] next_edit at(1,2) kept(4,5) by simp
    note tail = Cons.IH [OF rest at(3) this]
    have ends: "?p1 < source_end (edits ! index)" if "index < length edits"
      using next_edit [OF that] edits_ahead [of c "length sql" "drop index edits" "edits ! index"] Cons.prems(3) that
      by (simp add: edits_met_def drop_edits)
    have "c \<le> ?p1" using at(1,2) by linarith
    moreover have "?p0 < source_end (edits ! index)" if "index < length edits" using ends [OF that] at(2) by linarith
    ultimately have shifts: "shift_at edits ?p0 = delta" "shift_at edits ?p1 = delta"
      using met_shift [OF Cons.prems(3) at(1)] met_shift [OF Cons.prems(3), of ?p1] ends by blast+
    have "c < ?p1" using at(1,2) by linarith
    from met_find [OF Cons.prems(3) this less_imp_le [OF kept(1)]]
    have "find (\<lambda>e. source_start e = ?p1) edits =
        (if index < length edits \<and> source_start (edits ! index) = ?p1 then Some (edits ! index) else None)" by blast
    then have "find (\<lambda>e. source_start e = ?p1) edits = None" using kept(1) by (cases "index < length edits") auto
    then have "edited_row edits cs = (cell0', cell1')"
      using shifts kept(2,3) by (simp add: edited_row_def edited_cell_def moved_cell_def cs)
    then show ?thesis using tail kept(4) by (auto simp: rows')
  qed
qed

lemma measure_edits_within:
  "measure_edits n limit final c items = Inr k \<Longrightarrow> list_all (\<lambda>e. source_end e \<le> n) items"
  by (induction n limit final c items rule: measure_edits.induct) (auto simp: Let_def split: if_splits)

lemma restored_is_splice:
  assumes "edits_inv es" "restore_source_edits alloc sql (length sql) limit es = Inr t"
  shows "edits_in 0 (length sql) (map edit_view (edit_items es))" "t = splice sql 0 (map edit_view (edit_items es))"
proof -
  obtain k where "measure_edits (length sql) limit (length sql) 0 (edit_items es) = Inr k"
    using assms(2) by (auto simp: restore_source_edits_def split: if_splits sum.splits)
  then have within: "edits_within (length sql) es"
    unfolding edits_within_def by (rule measure_edits_within)
  then show "edits_in 0 (length sql) (map edit_view (edit_items es))" using edits_in_of_inv [OF assms(1)] by simp
  show "t = splice sql 0 (map edit_view (edit_items es))"
    by (rule restore_source_edits_cases [OF assms(1) within, of alloc limit]) (use assms(2) in auto)
qed

lemma packed_rows:
  assumes "describes ins rows" "packed_wire ins edits = Some out"
  obtains rows' delta rl where "edit_rows edits rows 0 0 = Some (rows', length edits, delta)"
    "out = wire_bytes (i_version ins) (wire_prefix ins) (rows_bytes rows') rl" "shifted_raw_length (i_raw_length ins) delta = Some rl"
proof -
  have "i_row_count ins = length rows" using assms(1) by (auto simp: describes_def)
  then show thesis
    using assms(2) that effective_rows_described [OF assms(1), of 0]
    by (auto simp: packed_wire_def bind_eq_Some_conv Let_def)
qed

lemma length_edit_rows: "edit_rows edits rows index delta = Some (rows', index', delta') \<Longrightarrow> length rows' = length rows"
  by (induction rows arbitrary: rows' index delta) (auto simp: bind_eq_Some_conv)

lemma pack_success:
  "wi_pack alloc (Some ins) (Some es) True proven = Inr out \<longleftrightarrow>
     pack_guard ins es proven \<and> alloc 0 (i_row_count ins * 4) \<and> packed_wire ins (edit_items es) = Some out \<and>
     alloc 1 (length out)"
  by (auto simp: pack_spec split: option.splits)

lemma packed_rows_restored:
  assumes "describes ins rows" "rows_at sql 0 rows" "edits_inv es"
    and "wi_pack alloc (Some ins) (Some es) True proven = Inr out"
    and "restore_source_edits alloc' sql (length sql) limit es = Inr t"
  obtains rl where
    "out = wire_bytes (i_version ins) (wire_prefix ins) (rows_bytes (map (edited_row (edit_items es)) rows)) rl"
    "rows_at t 0 (map (edited_row (edit_items es)) rows)"
    "\<forall>e \<in> set (edit_items es). \<exists>cs \<in> set rows. replaces_string e cs"
proof -
  note pack = assms(4) [unfolded pack_success]
  then have packed: "packed_wire ins (edit_items es) = Some out" by blast
  obtain rows' delta rl where rows': "edit_rows (edit_items es) rows 0 0 = Some (rows', length (edit_items es), delta)"
      "out = wire_bytes (i_version ins) (wire_prefix ins) (rows_bytes rows') rl"
    by (rule packed_rows [OF assms(1) packed])
  have "wi_edits es proven" using pack by (auto simp: pack_guard_def split: option.splits)
  then have quoted: "list_all quoted_edit (edit_items es)"
    using edits_loop_quoted assms(3) by (auto simp: wi_edits_def edits_inv_def split: if_splits)
  note splice = restored_is_splice [OF assms(3,5)]
  have "tracks (edit_items es) sql t 0 0 0 0" using splice by (simp add: tracks_def)
  then have at: "rows_at t 0 rows'" by (rule rows_restored [OF rows'(1) quoted assms(2)])
  have "edits_met (edit_items es) (length sql) 0 0 0" using splice(1) by (simp add: edits_met_def shift_at_def)
  from rows_edited [OF rows'(1) assms(2) this] rows'(2) at show thesis by (intro that) simp_all
qed

text \<open>With no edits the rows stay as they are.\<close>

lemma edit_rows_none:
  "list_all good_row rows \<Longrightarrow> rows_at sql pos rows \<Longrightarrow> length sql \<le> INT32_MAX \<Longrightarrow> edit_rows [] rows index 0 = Some (rows, index, 0)"
proof (induction rows arbitrary: pos)
  case (Cons cs rows)
  obtain cell0 cell1 where cs: "cs = (cell0, cell1)" by (cases cs)
  have "nat (c_location cell1) + length (c_text cell1) + 2 \<le> INT32_MAX"
    using Cons.prems by (simp add: cs string_at_def)
  then have "shift_row [] index 0 (cell0, cell1) = Some ((cell0, cell1), index, 0)"
    using Cons.prems(1) by (simp add: cs shift_row_def good_row_def good_cell_def in_int32_def Let_def)
  moreover have "rows_at sql (nat (c_location cell1) + length (c_text cell1) + 2) rows"
    using Cons.prems(2) by (simp add: cs)
  ultimately show ?case using Cons.IH [OF _ _ Cons.prems(3)] Cons.prems(1) by (simp add: cs)
qed simp

lemma shifted_raw_length_zero:
  assumes "unat rl \<le> INT32_MAX"
  shows "shifted_raw_length rl 0 = Some rl"
proof (cases "rl = 0")
  case False
  then have "0 < unat rl" using unat_eq_zero [of rl] by linarith
  then have "0 < int (unat rl) + 0" "int (unat rl) + 0 \<le> int INT32_MAX" using assms by linarith+
  then show ?thesis using False unfolding shifted_raw_length_def Let_def by simp
qed (simp add: shifted_raw_length_def)

text \<open>Every row takes a byte.\<close>

lemma rows_bytes_count: "length rows \<le> length (rows_bytes rows)"
proof (induction rows)
  case (Cons cs rows)
  have "0 < length (row_bytes cs)" by simp
  with Cons show ?case by (simp del: length_greater_0_conv)
qed simp

lemma described_guard:
  assumes "describes ins rows" "32 \<le> length rows" "wi_edits es proven"
  shows "pack_guard ins es proven"
proof -
  obtain wire offsets where d: "i_wire ins = Some wire" "length wire < 2 ^ 32"
    "wire = wire_bytes (i_version ins) (wire_prefix ins) (rows_bytes rows) (i_raw_length ins)"
    "unat (i_version ins) \<le> INT32_MAX" "unat (i_raw_length ins) \<le> INT32_MAX" "i_row_count ins = length rows"
    "unat (i_prefix_offset ins) + unat (i_prefix_length ins) \<le> length wire" "i_row_offsets ins = Some offsets"
    using assms(1) by (auto simp: describes_def)
  have "length rows < 2 ^ 32"
    using rows_bytes_count [of rows] wire_bytes_parts(6) [OF d(2) [unfolded d(3)]] by linarith
  then show ?thesis
    using d assms(2,3) by (simp add: pack_guard_def UINT32_MAX_def PTRDIFF_MAX_def SIZE_MAX_def)
qed

lemma pack_unedited:
  assumes "describes ins rows" "rows_at sql 0 rows" "length sql \<le> INT32_MAX" "i_wire ins = Some wire"
    and "32 \<le> length rows" "alloc 0 (length rows * 4)" "alloc 1 (length wire)"
  shows "wi_pack alloc (Some ins) (Some no_edits) True proven = Inr wire"
proof -
  have d: "length wire < 2 ^ 32" "wire = wire_bytes (i_version ins) (wire_prefix ins) (rows_bytes rows) (i_raw_length ins)"
    "unat (i_raw_length ins) \<le> INT32_MAX" "i_row_count ins = length rows" "list_all good_row rows"
    using assms(1,4) by (auto simp: describes_def)
  have "wi_edits no_edits proven" by (simp add: wi_edits_def no_edits_def)
  then have "pack_guard ins no_edits proven" by (rule described_guard [OF assms(1,5)])
  moreover have "packed_wire ins [] = Some wire"
    using effective_rows_described [OF assms(1), of 0 "[]" 0 0] edit_rows_none [OF d(5) assms(2,3)] d(1,2,4)
      shifted_raw_length_zero [OF d(3)]
    by (simp add: packed_wire_def check_def)
  ultimately show ?thesis using assms(6,7) d(4) by (simp add: pack_spec no_edits_def)
qed

end
