(* ===== verification/Scalar_Restore.thy ===== *)
theory Scalar_Restore
  imports Scalar_Properties Wire_Restore
begin

text \<open>
  The scalar packer and the restored source: the cells of the packed wire stand in the source that
  \<^verbatim>\<open>sqlparser_surface_restore_source_edits\<close> makes of the same edits.  The invariant \<open>tracks\<close> of the
  two-column packer carries over; here it moves from cell to cell.
\<close>

section \<open>One cell\<close>

text \<open>The cases of one cell: its string is replaced, or the next edit starts behind it.\<close>

lemma effective_cell_cases:
  assumes "wsi_effective_cell edits index delta c = Some (c', index', delta')"
  obtains (replaced) "index < length edits" "source_start (edits ! index) = nat (s_location c)"
      "source_end (edits ! index) = nat (s_location c) + s_length c + 2" "s_kind c = SCALAR_STRING"
      "c' = c\<lparr>s_location := s_location c + delta, s_text := bytes_of (edit_interior (edits ! index)),
         s_length := replacement_length (edits ! index) - 2\<rparr>"
      "index' = index + 1"
      "delta' = delta + int (replacement_length (edits ! index)) - (int (s_length c) + 2)"
  | (kept) "index < length edits \<Longrightarrow> nat (s_location c) < source_start (edits ! index)"
      "c' = c\<lparr>s_location := s_location c + delta\<rparr>" "index' = index" "delta' = delta"
proof (cases "index < length edits \<and> source_start (edits ! index) = nat (s_location c)")
  case True
  with assms show thesis
    by (intro replaced) (auto simp: wsi_effective_cell_def Let_def bind_eq_Some_conv split: if_splits)
next
  case False
  with assms show thesis
    by (intro kept) (auto simp: wsi_effective_cell_def Let_def bind_eq_Some_conv split: if_splits)
qed

text \<open>A cell stands in a text that repeats the source around it.\<close>

lemma repeats_scalar:
  assumes "repeats t w s c k" "scalar_at s cell" "s_location cell = int (c + i)" "i + scalar_span s cell + 1 \<le> k"
  shows "scalar_at t (cell\<lparr>s_location := int (w + i)\<rparr>)"
    "scalar_span t (cell\<lparr>s_location := int (w + i)\<rparr>) = scalar_span s cell"
proof -
  let ?moved = "cell\<lparr>s_location := int (w + i)\<rparr>"
  have slice: "take n (drop (w + i) t) = take n (drop (c + i) s)" if "i + n \<le> k" for n
    using repeats_take [OF assms(1) that] .
  have digits: "takeWhile c_isdigit (drop (w + i) t) = takeWhile c_isdigit (drop (c + i) s)"
    if "i + length (takeWhile c_isdigit (drop (c + i) s)) + 1 \<le> k"
  proof -
    have "takeWhile c_isdigit (drop i (drop w t)) = takeWhile c_isdigit (drop i (drop c s))"
      by (rule takeWhile_agrees [of k]) (use assms(1) that in \<open>auto simp: repeats_def add.commute\<close>)
    then show ?thesis by (simp add: add.commute)
  qed
  have "scalar_at t ?moved \<and> scalar_span t ?moved = scalar_span s cell"
  proof (cases "s_kind cell")
    case SCALAR_INTEGER
    then show ?thesis using assms(2-4) digits by (simp add: scalar_at_def scalar_span_def Let_def nat_int_add)
  next
    case SCALAR_STRING
    then show ?thesis
      using assms(2-4) repeats_string [OF assms(1), of i "s_text cell"] by (simp add: scalar_at_def scalar_span_def Let_def nat_int_add)
  next
    case SCALAR_FLOAT
    then show ?thesis using assms(2-4) slice [of "s_length cell"] by (simp add: scalar_at_def scalar_span_def Let_def nat_int_add)
  next
    case SCALAR_VALUE_FUNCTION
    then show ?thesis using assms(2-4) slice [of "s_length cell"] by (simp add: scalar_at_def scalar_span_def Let_def nat_int_add)
  qed
  then show "scalar_at t ?moved" "scalar_span t ?moved = scalar_span s cell" by simp_all
qed

section \<open>All cells\<close>

lemma edit_cells_append:
  "edit_cells edits (as @ bs) index delta = do {
     (as', index, delta) \<leftarrow> edit_cells edits as index delta;
     (bs', index, delta) \<leftarrow> edit_cells edits bs index delta;
     Some (as' @ bs', index, delta) }"
proof (induction as arbitrary: index delta)
  case Nil
  then show ?case by (cases "edit_cells edits bs index delta") auto
next
  case (Cons a as)
  then show ?case by (cases "wsi_effective_cell edits index delta a") (auto simp: split: Option.bind_splits)
qed

lemma edit_rows_concat:
  "edit_scalar_rows edits rows index delta = Some (rows', index', delta') \<Longrightarrow>
     edit_cells edits (concat rows) index delta = Some (concat rows', index', delta') \<and> length rows' = length rows"
proof (induction rows arbitrary: index delta rows')
  case (Cons cs rows)
  from Cons.prems obtain cs' i d rest where "edit_cells edits cs index delta = Some (cs', i, d)"
    "edit_scalar_rows edits rows i d = Some (rest, index', delta')" "rows' = cs' # rest"
    by (auto simp: bind_eq_Some_conv)
  with Cons.IH [of i d rest] show ?case by (simp add: edit_cells_append)
qed simp

text \<open>When every edit is met, the next edit starts behind the cells read.\<close>

lemma edit_cells_next:
  "edit_cells edits cs index delta = Some (cs', length edits, delta') \<Longrightarrow> index < length edits \<Longrightarrow>
   stand_in sql pos cs q \<Longrightarrow> pos \<le> source_start (edits ! index)"
proof (induction cs arbitrary: cs' index delta pos)
  case (Cons c cs)
  obtain c' i d rest where cell: "wsi_effective_cell edits index delta c = Some (c', i, d)"
    and rest: "edit_cells edits cs i d = Some (rest, length edits, delta')"
    using Cons.prems(1) by (auto simp: bind_eq_Some_conv)
  have at: "pos \<le> nat (s_location c)" "stand_in sql (nat (s_location c) + scalar_span sql c + 1) cs q"
    using Cons.prems(3) by simp_all
  from cell show ?case
  proof (cases rule: effective_cell_cases)
    case replaced
    with at show ?thesis by simp
  next
    case kept
    with Cons.IH [OF rest _ at(2)] Cons.prems(2) at(1) show ?thesis by simp
  qed
qed simp

lemma cells_restored:
  "edit_cells edits cs index delta = Some (cs', length edits, delta') \<Longrightarrow> list_all quoted_edit edits \<Longrightarrow>
   stand_in sql c cs (length sql) \<Longrightarrow> tracks edits sql t index delta c w \<Longrightarrow> stand_in t w cs' (length t)"
proof (induction cs arbitrary: cs' index delta c w)
  case Nil
  then show ?case by (simp add: tracks_def)
next
  case (Cons cell cs)
  obtain cell' i d rest where row: "wsi_effective_cell edits index delta cell = Some (cell', i, d)"
    and rest: "edit_cells edits cs i d = Some (rest, length edits, delta')" and cs': "cs' = cell' # rest"
    using Cons.prems(1) by (auto simp: bind_eq_Some_conv)
  define n where "n = nat (s_location cell) - c"
  let ?span = "scalar_span sql cell"
  have at: "s_location cell = int (c + n)" "scalar_at sql cell" "stand_in sql (c + n + ?span + 1) cs (length sql)"
    using Cons.prems(3) by (auto simp: n_def)
  have fin: "c + n + ?span + 1 \<le> length sql" using stand_in_le [OF at(3)] by simp
  have moved: "s_location cell + delta = int (w + n)"
    using at(1) Cons.prems(4) by (simp add: tracks_def)
  have behind: "c + n + ?span + 1 \<le> source_start (edits ! i)" if "i < length edits"
    using edit_cells_next [OF rest that at(3)] .
  from row show ?case
  proof (cases rule: effective_cell_cases)
    case replaced
    let ?e = "edits ! index"
    have span: "?span = s_length cell + 2" using replaced(4) by (simp add: scalar_span_def)
    have e: "quoted_edit ?e" "source_start ?e = c + n" "source_end ?e = c + n + ?span"
      using replaced(1-3) Cons.prems(2) at(1) span by (simp_all add: list_all_length nat_int_add)
    have copied: "tracks edits sql t index delta (c + n) (w + n)"
      using tracks_copy(2) [OF Cons.prems(4), of n] e(2) fin by simp
    note edited = tracks_edit [OF copied replaced(1) e]
    have "tracks edits sql t (index + 1) (delta + int (replacement_length ?e) - int ?span) (c + n + ?span + 1)
        (w + n + replacement_length ?e + 1)"
      using tracks_copy(2) [OF edited(2), of 1] fin behind by (simp add: replaced(6))
    then have "stand_in t (w + n + replacement_length ?e + 1) rest (length t)"
      using Cons.IH [OF rest Cons.prems(2) at(3)] replaced(6,7) span by (simp add: add.commute)
    moreover have "scalar_at t cell'"
      using edited(1) replaced(4,5) moved quoted_replacement(2) [OF e(1)]
      by (simp add: scalar_at_def nat_int_add)
    moreover have "scalar_span t cell' = replacement_length ?e"
      using replaced(4,5) quoted_replacement(2) [OF e(1)] by (simp add: scalar_span_def)
    ultimately show ?thesis
      using replaced(5) moved by (simp add: cs' nat_int_add)
  next
    case kept
    have copied: "repeats t w sql c (n + ?span + 1)"
      "tracks edits sql t index delta (c + (n + ?span + 1)) (w + (n + ?span + 1))"
      using tracks_copy [OF Cons.prems(4), of "n + ?span + 1"] fin behind kept(3) by (simp_all add: add.assoc)
    have "stand_in t (w + (n + ?span + 1)) rest (length t)"
      using Cons.IH [OF rest Cons.prems(2) at(3)] copied(2) by (simp add: kept(3,4) add.assoc)
    with repeats_scalar [OF copied(1) at(2,1)] show ?thesis
      using kept(2) moved by (simp add: cs' add.assoc nat_int_add)
  qed
qed

section \<open>The packer\<close>

lemma scalar_pack_success:
  "wsi_pack alloc (Some ins) (Some es) True proven = Inr out \<longleftrightarrow>
     wsi_pack_guard ins es proven \<and> alloc 0 (x_row_count ins * 4) \<and>
     packed_scalar_wire proven ins (edit_items es) = Some out \<and> alloc 2 (length out)"
  by (auto simp: wsi_pack_spec split: option.splits)

lemma packed_cells_restored:
  assumes "scalar_describes ins rows" "stand_in sql 0 (concat rows) (length sql)" "edits_inv es"
    and "wsi_pack alloc (Some ins) (Some es) True proven = Inr out"
    and "restore_source_edits alloc' sql (length sql) limit es = Inr t"
  obtains rows' rl where "out = wire_bytes (x_version ins) (scalar_prefix ins) (scalar_rows_bytes rows') rl"
    "length rows' = length rows" "stand_in t 0 (concat rows') (length t)"
proof -
  note pack = assms(4) [unfolded scalar_pack_success]
  then obtain rows' delta rl where rows': "edit_scalar_rows (edit_items es) rows 0 0 = Some (rows', length (edit_items es), delta)"
      "out = wire_bytes (x_version ins) (scalar_prefix ins) (scalar_rows_bytes rows') rl"
    unfolding packed_described [OF assms(1)] by (auto simp: bind_eq_Some_conv Let_def)
  note cells = edit_rows_concat [OF rows'(1)]
  have "wi_edits es proven" using pack by (auto simp: wsi_pack_guard_def split: option.splits)
  then have quoted: "list_all quoted_edit (edit_items es)"
    using edits_loop_quoted assms(3) by (auto simp: wi_edits_def edits_inv_def split: if_splits)
  have "tracks (edit_items es) sql t 0 0 0 0"
    using restored_is_splice [OF assms(3,5)] by (simp add: tracks_def)
  then have "stand_in t 0 (concat rows') (length t)"
    using cells_restored [OF _ quoted assms(2)] cells by blast
  with rows' cells that show thesis by blast
qed

end
