(* ===== verification/Wire_Complete.thy ===== *)
theory Wire_Complete
  imports Wire_Restore
begin

text \<open>
  The certifier accepts every plain INSERT.  A source rendered from a table, two column names and a
  list of rows, beside the canonical wire of the same statement, passes every test of
  \<^verbatim>\<open>sqlparser_wire_insert_certify\<close>: the certificate is not only sound, it is also given.
\<close>

section \<open>The scanning steps on a rendered source\<close>

lemma drop_append_at: "drop pos sql = u @ v \<Longrightarrow> drop (pos + length u) sql = v"
  by (metis add.commute append_eq_conv_conj drop_drop)

lemma drop_Cons_at: "drop pos sql = c # v \<Longrightarrow> drop (Suc pos) sql = v"
  by (metis drop_Suc list.sel(3) tl_drop)

lemma drop_nth_at: "drop pos sql = c # v \<Longrightarrow> pos < length sql \<and> sql ! pos = c"
  by (metis drop_all leI list.distinct(1) nth_via_drop)

lemma wi_gap_none: "drop pos sql = c # v \<Longrightarrow> \<not> gap_char c \<Longrightarrow> wi_gap sql pos = pos"
  using drop_nth_at [of pos sql c v] by (simp add: wi_gap_def scan_while_done)

lemma wi_gap_blank:
  assumes "drop pos sql = CHR '' '' # c # v" "\<not> gap_char c"
  shows "wi_gap sql pos = Suc pos"
proof -
  note here = drop_nth_at [OF assms(1)] and there = drop_nth_at [OF drop_Cons_at [OF assms(1)]]
  have "scan_while gap_char sql (length sql) (Suc pos) = Suc pos"
    by (rule scan_while_done) (use there assms(2) in simp)
  then show ?thesis
    unfolding wi_gap_def using here by (subst scan_while.simps) (simp add: gap_char_def)
qed

lemma wi_punctuation_reads:
  "drop pos sql = c # v \<Longrightarrow> \<not> gap_char c \<Longrightarrow> wi_punctuation sql c pos = Some (Suc pos)"
  using drop_nth_at [of pos sql c v] by (simp add: wi_punctuation_def wi_gap_none)

text \<open>A name in lower case, as the scanner of the wire accepts it.\<close>

definition plain_name :: "string \<Rightarrow> bool" where
  "plain_name name = (name \<noteq> [] \<and> wi_identifier_char (hd name) True \<and>
     list_all (\<lambda>c. wi_identifier_char c False \<and> c_tolower c = c) name)"

lemma identifier_not_gap: "wi_identifier_char c False \<Longrightarrow> \<not> gap_char c"
  by (auto simp: wi_identifier_char_def gap_char_def)

lemma word_loop_reads:
  "list_all (\<lambda>c. wi_identifier_char c False \<and> c_tolower c = c) name \<Longrightarrow> \<not> wi_identifier_char c False \<Longrightarrow>
   word_loop (name @ c # v) (bytes_of name) pos = Some (pos + length name)"
  by (induction name arbitrary: pos) (simp_all add: bytes_of_def)

lemma wi_word_reads:
  assumes "drop (wi_gap sql pos) sql = name @ c # v" "plain_name name" "\<not> wi_identifier_char c False"
  shows "wi_word sql (bytes_of name) pos = Some (wi_gap sql pos + length name)"
proof -
  obtain d ds where name: "name = d # ds" using assms(2) by (cases name) (auto simp: plain_name_def)
  have "wi_gap sql pos < length sql \<and> sql ! wi_gap sql pos = d"
    by (rule drop_nth_at) (use assms(1) name in simp)
  then show ?thesis
    using assms word_loop_reads [of name c v] by (simp add: wi_word_def Let_def plain_name_def name)
qed

lemma plain_name_gap:
  assumes "plain_name name"
  shows "drop pos sql = name @ v \<Longrightarrow> wi_gap sql pos = pos"
    "drop pos sql = CHR '' '' # name @ v \<Longrightarrow> wi_gap sql pos = Suc pos"
proof -
  obtain d ds where "name = d # ds" "\<not> gap_char d"
    using assms identifier_not_gap by (cases name) (auto simp: plain_name_def)
  then show "drop pos sql = name @ v \<Longrightarrow> wi_gap sql pos = pos"
    "drop pos sql = CHR '' '' # name @ v \<Longrightarrow> wi_gap sql pos = Suc pos"
    by (simp_all add: wi_gap_none wi_gap_blank)
qed

text \<open>The cells.\<close>

definition plain_digits :: "string \<Rightarrow> bool" where
  "plain_digits ds = (ds \<noteq> [] \<and> list_all c_isdigit ds \<and> decimal ds \<le> INT32_MAX)"

lemma decimal_acc_mono: "(number :: nat) \<le> foldl (\<lambda>n c. n * 10 + (of_char c - 48)) number ds"
proof (induction ds arbitrary: number)
  case (Cons d ds)
  have "number \<le> number * 10 + (of_char d - 48)" by simp
  also have "\<dots> \<le> foldl (\<lambda>n c. n * 10 + (of_char c - 48)) (number * 10 + (of_char d - 48)) ds" by (rule Cons.IH)
  finally show ?case by simp
qed simp

lemma digits_loop_reads:
  "list_all c_isdigit ds \<Longrightarrow> foldl (\<lambda>n c. n * 10 + (of_char c - 48)) number ds \<le> INT32_MAX \<Longrightarrow> \<not> c_isdigit c \<Longrightarrow>
   digits_loop (ds @ c # v) number = Some (foldl (\<lambda>n c. n * 10 + (of_char c - 48)) number ds, length ds)"
proof (induction ds arbitrary: number)
  case (Cons d ds)
  let ?digit = "of_char d - 48"
  have "number * 10 + ?digit \<le> INT32_MAX"
    using decimal_acc_mono [of "number * 10 + ?digit" ds] Cons.prems(2) by simp
  then have "\<not> number > (INT32_MAX - ?digit) div 10" by linarith
  with Cons show ?case by (simp add: Let_def)
qed simp

lemma string_loop_reads: "list_all plain_char t \<Longrightarrow> string_loop (t @ QUOTE # v) = Some t"
  by (induction t) (auto simp: plain_char_def Let_def)


lemma digit_not_gap: "c_isdigit c \<Longrightarrow> \<not> gap_char c"
  by (auto simp: c_isdigit_def gap_char_def Let_def)

lemma source_integer_reads:
  assumes "drop pos sql = ds @ c # v" "plain_digits ds" "\<not> c_isdigit c" "c_location cell = int pos"
    "c_integer cell = int (decimal ds)"
  shows "wi_source_cell sql cell 0 pos = Some (pos + length ds)"
proof -
  obtain d ds' where d: "ds = d # ds'" "c_isdigit d"
    using assms(2) by (cases ds) (auto simp: plain_digits_def)
  have here: "pos < length sql \<and> sql ! pos = d" by (rule drop_nth_at) (use assms(1) d in simp)
  have "wi_gap sql pos = pos" by (rule wi_gap_none) (use assms(1) d digit_not_gap in simp_all)
  moreover have "digits_loop (drop pos sql) 0 = Some (decimal ds, length ds)"
    unfolding assms(1) decimal_def using assms(2,3)
    by (intro digits_loop_reads) (simp_all add: plain_digits_def decimal_def)
  ultimately show ?thesis
    using here d(2) assms(4,5) by (simp add: wi_source_cell_def)
qed

lemma source_string_reads:
  assumes "drop pos sql = QUOTE # t @ QUOTE # v" "list_all plain_char t" "c_location cell = int pos"
    "c_text cell = bytes_of t"
  shows "wi_source_cell sql cell 1 pos = Some (pos + length t + 2)"
proof -
  note here = drop_nth_at [OF assms(1)]
  have "wi_gap sql pos = pos" by (rule wi_gap_none [OF assms(1)]) (simp add: gap_char_def)
  moreover have "string_loop (drop (pos + 1) sql) = Some t"
    using drop_Cons_at [OF assms(1)] string_loop_reads [OF assms(2)] by simp
  ultimately show ?thesis
    using here assms(3,4) by (simp add: wi_source_cell_def)
qed

section \<open>The rows\<close>

text \<open>A row is given by the digits of its integer and the text of its string.\<close>

definition plain_row :: "string \<times> string \<Rightarrow> bool" where
  "plain_row r = (plain_digits (fst r) \<and> list_all plain_char (snd r) \<and> length (snd r) \<le> 32)"

definition row_source :: "string \<times> string \<Rightarrow> string" where
  "row_source r = CHR ''('' # fst r @ CHR '','' # QUOTE # snd r @ QUOTE # [CHR '')'']"

definition separator :: "nat \<Rightarrow> string" where
  "separator n = (if n = 0 then [] else [CHR '',''])"

text \<open>Row number \<open>n\<close> and its successors, and their cells when the text starts at \<open>pos\<close>.\<close>

fun rows_source :: "nat \<Rightarrow> (string \<times> string) list \<Rightarrow> string" where
  "rows_source n [] = []"
| "rows_source n (r # rs) = separator n @ row_source r @ rows_source (Suc n) rs"

definition place_row :: "nat \<Rightarrow> string \<times> string \<Rightarrow> insert_cell \<times> insert_cell" where
  "place_row pos r =
     (\<lparr>c_text = [], c_integer = int (decimal (fst r)), c_location = int (pos + 1)\<rparr>,
      \<lparr>c_text = bytes_of (snd r), c_integer = 0, c_location = int (pos + length (fst r) + 2)\<rparr>)"

fun place_rows :: "nat \<Rightarrow> nat \<Rightarrow> (string \<times> string) list \<Rightarrow> (insert_cell \<times> insert_cell) list" where
  "place_rows n pos [] = []"
| "place_rows n pos (r # rs) =
     (let pos = pos + length (separator n)
      in place_row pos r # place_rows (Suc n) (pos + length (row_source r)) rs)"

definition texts_size :: "(string \<times> string) list \<Rightarrow> nat" where
  "texts_size rs = (\<Sum>r \<leftarrow> rs. length (snd r) + 1)"

lemma certify_row_reads:
  assumes "drop pos sql = separator n @ row_source r @ v" "plain_row r" "n < UINT32_MAX"
    "text_bytes < 2 ^ 62"
  shows "certify_row sql (fst (place_row (pos + length (separator n)) r)) (snd (place_row (pos + length (separator n)) r))
    n text_bytes pos = Some (pos + length (separator n) + length (row_source r))"
proof -
  let ?p = "pos + length (separator n)"
  have open': "drop ?p sql = CHR ''('' # fst r @ CHR '','' # QUOTE # snd r @ QUOTE # CHR '')'' # v"
    using drop_append_at [OF assms(1)] by (simp add: row_source_def)
  note int = drop_Cons_at [OF open']
  note comma = drop_append_at [OF int]
  note str = drop_Cons_at [OF comma]
  have "drop (Suc (?p + 1 + length (fst r)) + length (QUOTE # snd r @ [QUOTE])) sql = CHR '')'' # v"
    by (rule drop_append_at) (use str in simp)
  then have close: "drop (Suc (?p + 1 + length (fst r)) + length (snd r) + 2) sql = CHR '')'' # v" by simp
  have sep: "(if n \<noteq> 0 then wi_punctuation sql (CHR '','') pos else Some pos) = Some ?p"
    using wi_punctuation_reads [of pos sql "CHR '',''"] assms(1) by (simp add: separator_def gap_char_def)
  have steps: "wi_punctuation sql (CHR ''('') ?p = Some (Suc ?p)"
    "wi_punctuation sql (CHR '','') (Suc ?p + length (fst r)) = Some (Suc (Suc ?p + length (fst r)))"
    "wi_punctuation sql (CHR '')'') (Suc (Suc ?p + length (fst r)) + length (snd r) + 2) =
      Some (Suc (Suc (Suc ?p + length (fst r)) + length (snd r) + 2))"
    using wi_punctuation_reads [OF open'] wi_punctuation_reads [OF comma] wi_punctuation_reads [OF close]
    by (simp_all add: gap_char_def)
  have cells: "wi_source_cell sql (fst (place_row ?p r)) 0 (Suc ?p) = Some (Suc ?p + length (fst r))"
    "wi_source_cell sql (snd (place_row ?p r)) 1 (Suc (Suc ?p + length (fst r))) =
      Some (Suc (Suc ?p + length (fst r)) + length (snd r) + 2)"
    using assms(2)
    by (intro source_integer_reads [OF int] source_string_reads [OF str];
        simp add: plain_row_def place_row_def c_isdigit_def Let_def)+
  have bounds: "length (c_text (snd (place_row ?p r))) \<le> 32" "32 < SIZE_MAX - text_bytes"
    using assms(2,4) by (simp_all add: plain_row_def place_row_def SIZE_MAX_def)
  show ?thesis
    unfolding certify_row_def sep Option.bind_lunit steps cells using bounds assms(3)
    by (simp add: check_def row_source_def)
qed


section \<open>The reading steps on a canonical wire\<close>

lemma message_step:
  assumes "r_bytes r = message_bytes f p @ s" "length p < 2 ^ 32"
  obtains c r' where "wi_message f r = Some (c, r')" "r_bytes c = p" "r_bytes r' = s"
  using that wi_message_reads [OF assms(2), of f "r_at r" s] assms(1) by (cases r) simp

lemma scalar_step:
  assumes "r_bytes r = scalar_bytes f v @ s" "v \<noteq> 0" "unat v \<le> INT32_MAX"
  obtains r' where "wi_scalar f r = Some (v, r')" "r_bytes r' = s"
  using that wi_scalar_reads [OF assms(2,3), of f "r_at r" s] assms(1) by (cases r) simp

lemma enum_step:
  assumes "r_bytes r = scalar_bytes f v @ s" "v \<noteq> 0" "unat v \<le> INT32_MAX"
  obtains r' where "wi_enum f v r = Some r'" "r_bytes r' = s"
  by (rule scalar_step [OF assms]) (use that in \<open>simp add: wi_enum_def\<close>)

lemma text_step:
  assumes "r_bytes r = message_bytes f t @ s" "length t < 2 ^ 32" "t \<noteq> []"
  obtains r' where "wi_text f r = Some (t, r')" "r_bytes r' = s"
  by (rule message_step [OF assms(1,2)]) (use that assms(3) in \<open>simp add: wi_text_def\<close>)

lemma row_step:
  assumes "r_bytes r = row_bytes cs @ s" "good_row cs"
  obtains r' where "wi_row r = Some (cs, r')" "r_bytes r' = s"
  using that wi_row_reads [OF assms(2), of "r_at r" s] assms(1) by (cases r) simp

lemma small_row_is_good:
  assumes "plain_row r" "pos + length (row_source r) \<le> INT32_MAX" "length (row_bytes (place_row pos r)) < 2 ^ 32"
  shows "good_row (place_row pos r)"
proof -
  let ?cs = "place_row pos r"
  have node: "length (message_bytes NODE_LIST (list_bytes ?cs)) < 2 ^ 32"
    using assms(3) unfolding row_bytes_def by (rule message_length_mono)
  then have list: "length (list_bytes ?cs) < 2 ^ 32" by (rule message_length_mono)
  have "length (cell_bytes 0 (fst ?cs)) < 2 ^ 32" "length (cell_bytes 1 (snd ?cs)) < 2 ^ 32"
    using list by (simp_all add: list_bytes_def)
  then have "length (node_bytes 0 (fst ?cs)) < 2 ^ 32" "length (node_bytes 1 (snd ?cs)) < 2 ^ 32"
    unfolding cell_bytes_def by (blast intro: message_length_mono)+
  then show ?thesis
    using assms(1,2) node unfolding good_row_def good_cell_def plain_row_def plain_digits_def
    by (simp add: place_row_def row_source_def)
qed

lemma certify_rows_reads:
  "drop pos sql = rows_source n rs @ v \<Longrightarrow> r_bytes r = rows_bytes (place_rows n pos rs) @ s \<Longrightarrow>
   list_all plain_row rs \<Longrightarrow> length sql \<le> INT32_MAX \<Longrightarrow> length (rows_bytes (place_rows n pos rs)) < 2 ^ 32 \<Longrightarrow>
   n + length rs \<le> UINT32_MAX \<Longrightarrow> tb + texts_size rs \<le> 2 ^ 62 \<Longrightarrow>
   (\<And>at. \<not> wi_key_is \<lparr>r_at = at, r_bytes = s\<rparr> WI_SELECT_VALUES 2) \<Longrightarrow>
   \<exists>r'. certify_rows sql r pos n tb = Some (r', pos + length (rows_source n rs), n + length rs, tb + texts_size rs) \<and>
     r_bytes r' = s"
proof (induction rs arbitrary: pos r n tb)
  case Nil
  then show ?case by (cases r) (simp add: certify_rows.simps [of sql] texts_size_def)
next
  case (Cons row rs)
  let ?p = "pos + length (separator n)"
  let ?q = "?p + length (row_source row)"
  have src: "drop pos sql = separator n @ row_source row @ rows_source (Suc n) rs @ v"
    using Cons.prems(1) by simp
  then have rest: "drop ?q sql = rows_source (Suc n) rs @ v"
    using drop_append_at [OF drop_append_at [OF src]] by simp
  have "length sql - ?p = length (row_source row @ rows_source (Suc n) rs @ v)"
    using arg_cong [OF drop_append_at [OF src], of length] unfolding length_drop .
  moreover have "0 < length (row_source row)" by (simp add: row_source_def)
  ultimately have q: "?q \<le> length sql" unfolding length_append by linarith
  have bytes: "r_bytes r = row_bytes (place_row ?p row) @ rows_bytes (place_rows (Suc n) ?q rs) @ s"
    using Cons.prems(2) by (simp add: Let_def)
  have sizes: "length (row_bytes (place_row ?p row)) < 2 ^ 32" "length (rows_bytes (place_rows (Suc n) ?q rs)) < 2 ^ 32"
    using Cons.prems(5) by (simp_all add: Let_def)
  have good: "good_row (place_row ?p row)"
    using small_row_is_good [of row ?p] Cons.prems(3,4) q sizes by simp
  obtain r1 where row: "wi_row r = Some (place_row ?p row, r1)" "r_bytes r1 = rows_bytes (place_rows (Suc n) ?q rs) @ s"
    using row_step [OF bytes good] by blast
  have key: "wi_key_is r WI_SELECT_VALUES 2"
    using bytes key_is_message [of "r_at r" WI_SELECT_VALUES] by (cases r) (simp add: row_bytes_def)
  have total: "tb + (length (snd row) + 1) + texts_size rs \<le> 2 ^ 62"
    using Cons.prems(7) by (simp add: texts_size_def)
  have step: "certify_row sql (fst (place_row ?p row)) (snd (place_row ?p row)) n tb pos = Some ?q"
    by (rule certify_row_reads [OF src]) (use Cons.prems(3,6) total in simp_all)
  obtain r' where "certify_rows sql r1 ?q (Suc n) (tb + (length (snd row) + 1)) =
      Some (r', ?q + length (rows_source (Suc n) rs), Suc n + length rs, tb + (length (snd row) + 1) + texts_size rs)"
    "r_bytes r' = s"
    using Cons.IH [OF rest row(2) _ Cons.prems(4) sizes(2) _ total Cons.prems(8)] Cons.prems(3,6) by auto
  moreover have "length (c_text (snd (place_row ?p row))) = length (snd row)" by (simp add: place_row_def)
  ultimately show ?case
    using key row(1) step
    by (cases "place_row ?p row") (simp add: certify_rows.simps [of sql r] texts_size_def add.assoc)
qed


section \<open>The statement\<close>

text \<open>The source of a plain INSERT, and the places of its names and of its first row.\<close>

definition insert_source :: "string \<Rightarrow> string \<Rightarrow> string \<Rightarrow> (string \<times> string) list \<Rightarrow> string" where
  "insert_source table a b rs =
     ''insert into '' @ table @ ''('' @ a @ '','' @ b @ '')values'' @ rows_source 0 rs"

definition place_a :: "string \<Rightarrow> nat" where "place_a table = 12 + length table + 1"
definition place_b :: "string \<Rightarrow> string \<Rightarrow> nat" where "place_b table a = place_a table + length a + 1"
definition place_values :: "string \<Rightarrow> string \<Rightarrow> string \<Rightarrow> nat" where
  "place_values table a b = place_b table a + length b + 7"

text \<open>The wire of the relation and of a column.\<close>

definition name_wire :: "u32 \<Rightarrow> u32 \<Rightarrow> nat \<Rightarrow> string \<Rightarrow> nat \<Rightarrow> byte list" where
  "name_wire name_field location_field index name loc =
     message_bytes name_field (bytes_of name) @
     (if index = 0 then scalar_bytes 4 1 @ message_bytes 5 (bytes_of ''p'') else []) @
     scalar_bytes location_field (of_nat loc)"

definition column_wire :: "nat \<Rightarrow> string \<Rightarrow> nat \<Rightarrow> byte list" where
  "column_wire index name loc = message_bytes NODE_RES_TARGET (name_wire 1 4 index name loc)"

definition insert_prefix :: "string \<Rightarrow> string \<Rightarrow> string \<Rightarrow> byte list" where
  "insert_prefix table a b =
     message_bytes WI_INSERT_RELATION (name_wire 3 7 0 table 12) @
     message_bytes WI_INSERT_COLS (column_wire 1 a (place_a table)) @
     message_bytes WI_INSERT_COLS (column_wire 2 b (place_b table a))"

definition insert_wire :: "u32 \<Rightarrow> string \<Rightarrow> string \<Rightarrow> string \<Rightarrow> (string \<times> string) list \<Rightarrow> byte list" where
  "insert_wire version table a b rs =
     wire_bytes version (insert_prefix table a b) (rows_bytes (place_rows 0 (place_values table a b) rs)) 0"

lemma name_wire_not_Nil [simp]: "name_wire f g index name loc \<noteq> []"
  by (simp add: name_wire_def)

lemma persistence_step:
  assumes "r_bytes m = (if index = 0 then scalar_bytes 4 1 @ message_bytes 5 (bytes_of ''p'') else []) @ s"
  obtains m' where "persistence index m = Some m'" "r_bytes m' = s"
proof (cases "index = 0")
  case True
  with assms have m: "r_bytes m = scalar_bytes 4 1 @ message_bytes 5 (bytes_of ''p'') @ s" by simp
  obtain m1 where m1: "wi_enum 4 1 m = Some m1" "r_bytes m1 = message_bytes 5 (bytes_of ''p'') @ s"
    using enum_step [OF m] by (auto simp: INT32_MAX_def)
  have p: "length (bytes_of ''p'') < 2 ^ 32" "bytes_of ''p'' \<noteq> []" by (simp_all add: bytes_of_def)
  obtain m2 where "wi_text 5 m1 = Some (bytes_of ''p'', m2)" "r_bytes m2 = s"
    using text_step [OF m1(2) p] .
  with m1(1) True that show thesis by (simp add: persistence_def)
next
  case False
  with assms that show thesis by (simp add: persistence_def)
qed

lemma wi_name_reads:
  assumes "r_bytes m = name_wire f g index name loc" "length (name_wire f g index name loc) < 2 ^ 32"
    and "drop loc sql = name @ c # v" "plain_name name" "\<not> wi_identifier_char c False"
    and "wi_gap sql pos = loc" "0 < loc" "length sql \<le> INT32_MAX" "tb \<le> INT32_MAX"
  shows "wi_name m f g index sql tb pos = Some (bytes_of name, tb + length name + 1, loc + length name)"
proof -
  have le: "length name < length sql" "loc \<le> length sql"
    using arg_cong [OF assms(3), of length] by (cases "loc \<le> length sql"; simp)+
  have small: "length (bytes_of name) < 2 ^ 32" "bytes_of name \<noteq> []"
    using le assms(4,8) by (simp_all add: INT32_MAX_def plain_name_def bytes_of_def)
  have loc: "unat (of_nat loc :: u32) = loc"
    using le assms(8) by (simp add: unat_of_nat INT32_MAX_def take_bit_nat_eq_self)
  have nz: "of_nat loc \<noteq> (0 :: u32)" using loc assms(7) by (metis unat_0 less_numeral_extra(3))
  have top: "unat (of_nat loc :: u32) \<le> INT32_MAX" unfolding loc using le(2) assms(8) by linarith
  obtain m1 where m1: "wi_text f m = Some (bytes_of name, m1)"
    "r_bytes m1 = (if index = 0 then scalar_bytes 4 1 @ message_bytes 5 (bytes_of ''p'') else []) @
      scalar_bytes g (of_nat loc)"
    using text_step [OF assms(1) [unfolded name_wire_def] small] .
  obtain m2 where m2: "persistence index m1 = Some m2" "r_bytes m2 = scalar_bytes g (of_nat loc)"
    using persistence_step [OF m1(2)] .
  obtain m3 where m3: "wi_scalar g m2 = Some (of_nat loc, m3)" "r_bytes m3 = []"
    using scalar_step [of m2 g "of_nat loc" "[]"] m2(2) nz top by auto
  have gap: "wi_gap sql loc = loc" using plain_name_gap(1) [OF assms(4,3)] .
  have "wi_word sql (bytes_of name) loc = Some (loc + length name)"
    using wi_word_reads [of sql loc name c v] assms(3-5) by (simp add: gap)
  moreover have "\<not> SIZE_MAX - tb \<le> length name"
    using le assms(8,9) by (simp add: INT32_MAX_def SIZE_MAX_def)
  ultimately show ?thesis
    by (simp add: wi_name_def m1(1) m2(1) m3 loc assms(6))
qed


lemma certify_column_reads:
  assumes "r_bytes ins = message_bytes WI_INSERT_COLS (column_wire index name pos) @ s"
    and "length (message_bytes WI_INSERT_COLS (column_wire index name pos)) < 2 ^ 32"
    and "drop pos sql = name @ p # v" "plain_name name" "\<not> wi_identifier_char p False" "\<not> gap_char p"
    and "0 < pos" "length sql \<le> INT32_MAX" "tb \<le> INT32_MAX"
  obtains ins' where "certify_column index p sql ins tb pos =
      Some (bytes_of name, ins', tb + length name + 1, pos + length name + 1)"
    "r_bytes ins' = s"
proof -
  have col: "length (column_wire index name pos) < 2 ^ 32" using assms(2) by (rule message_length_mono)
  then have name: "length (name_wire 1 4 index name pos) < 2 ^ 32"
    unfolding column_wire_def by (rule message_length_mono)
  obtain c ins' where c: "wi_message WI_INSERT_COLS ins = Some (c, ins')" "r_bytes c = column_wire index name pos" "r_bytes ins' = s"
    using message_step [OF assms(1) col] .
  obtain t c' where t: "wi_message NODE_RES_TARGET c = Some (t, c')" "r_bytes t = name_wire 1 4 index name pos" "r_bytes c' = []"
    using message_step [of c NODE_RES_TARGET "name_wire 1 4 index name pos" "[]"] c(2) name
    by (auto simp: column_wire_def)
  have "wi_name t 1 4 index sql tb pos = Some (bytes_of name, tb + length name + 1, pos + length name)"
    by (rule wi_name_reads [OF t(2) name assms(3-5) plain_name_gap(1) [OF assms(4,3)] assms(7-9)])
  moreover have "wi_punctuation sql p (pos + length name) = Some (pos + length name + 1)"
    using wi_punctuation_reads [OF drop_append_at [OF assms(3)] assms(6)] by simp
  ultimately show thesis
    using that c t by (simp add: certify_column_def)
qed


lemma rows_source_sizes:
  "length rs \<le> length (rows_source n rs)" "texts_size rs \<le> length (rows_source n rs)"
proof -
  have "length rs + texts_size rs \<le> length (rows_source n rs)"
  proof (induction rs arbitrary: n)
    case (Cons r rs)
    from Cons [of "Suc n"] show ?case by (simp add: row_source_def texts_size_def)
  qed (simp add: texts_size_def)
  then show "length rs \<le> length (rows_source n rs)" "texts_size rs \<le> length (rows_source n rs)" by simp_all
qed

lemma certify_guard_source: "certify_guard handle = Some (sql, wire) \<Longrightarrow> length sql \<le> INT32_MAX"
  by (auto simp: certify_guard_def split: option.splits if_splits)

lemma plain_keywords: "plain_name ''insert''" "plain_name ''into''" "plain_name ''values''"
  by (simp_all add: plain_name_def wi_identifier_char_def c_tolower_def Let_def)

lemma not_identifier [simp]:
  "\<not> wi_identifier_char (CHR '' '') b" "\<not> wi_identifier_char (CHR ''('') b"
  "\<not> wi_identifier_char (CHR '','') b" "\<not> wi_identifier_char (CHR '')'') b"
  by (simp_all add: wi_identifier_char_def)

lemma not_gap [simp]: "\<not> gap_char (CHR ''('')" "\<not> gap_char (CHR '','')" "\<not> gap_char (CHR '')'')"
  by (simp_all add: gap_char_def)

lemma index_rows_total:
  assumes "r_bytes v = rows_bytes rows @ s" "list_all good_row rows"
  obtains offsets where "index_rows (length rows) v = Some offsets"
  using index_rows_spec [OF assms] that by blast

text \<open>The keywords before the table.\<close>

lemma insert_into_reads:
  assumes "drop 0 sql = ''insert into '' @ v"
  shows "wi_word sql (bytes_of ''insert'') 0 = Some 6" "wi_word sql (bytes_of ''into'') 6 = Some 11"
proof -
  have d0: "drop 0 sql = ''insert'' @ CHR '' '' # ''into '' @ v" using assms by simp
  have gap0: "wi_gap sql 0 = 0" using plain_name_gap(1) [OF plain_keywords(1) d0] .
  then show "wi_word sql (bytes_of ''insert'') 0 = Some 6"
    using wi_word_reads [of sql 0 "''insert''" "CHR '' ''"] d0 plain_keywords(1) by simp
  have d6: "drop 6 sql = CHR '' '' # ''into'' @ CHR '' '' # v"
    using drop_append_at [OF d0] by (simp add: numeral_eq_Suc)
  have gap6: "wi_gap sql 6 = 7" using plain_name_gap(2) [OF plain_keywords(2) d6] by simp
  then show "wi_word sql (bytes_of ''into'') 6 = Some 11"
    using wi_word_reads [of sql 6 "''into''" "CHR '' ''"] drop_Cons_at [OF d6] plain_keywords(2) by simp
qed


text \<open>Every message of the wire fits when the wire does.\<close>

lemma insert_wire_sizes:
  assumes "length (wire_bytes version prefix body rl) < 2 ^ 32"
  shows "length (raw_bytes prefix body rl) < 2 ^ 32"
    "length (message_bytes NODE_INSERT_STMT (insert_bytes prefix body)) < 2 ^ 32"
    "length (insert_bytes prefix body) < 2 ^ 32" "length prefix < 2 ^ 32"
    "length (message_bytes NODE_SELECT_STMT (select_bytes body)) < 2 ^ 32"
    "length (select_bytes body) < 2 ^ 32" "length (body) < 2 ^ 32"
  using wire_bytes_parts [OF assms] by (simp_all add: insert_bytes_def)

lemma place_rows_good:
  "list_all plain_row rs \<Longrightarrow> pos + length (rows_source n rs) \<le> INT32_MAX \<Longrightarrow>
   length (rows_bytes (place_rows n pos rs)) < 2 ^ 32 \<Longrightarrow> list_all good_row (place_rows n pos rs)"
proof (induction rs arbitrary: n pos)
  case (Cons r rs)
  let ?p = "pos + length (separator n)"
  have "good_row (place_row ?p r)"
    by (rule small_row_is_good) (use Cons.prems in \<open>simp_all add: Let_def\<close>)
  with Cons.IH [of "?p + length (row_source r)" "Suc n"] Cons.prems show ?case
    by (simp add: Let_def)
qed simp

lemma length_place_rows [simp]: "length (place_rows n pos rs) = length rs"
  by (induction rs arbitrary: n pos) (simp_all add: Let_def)

lemma wire_read:
  assumes "length (wire_bytes version prefix body 0) < 2 ^ 32" "unat version \<le> INT32_MAX"
  obtains parse raw parse' node raw1 raw2 ins node' where
    "wi_optional_scalar WI_PARSE_VERSION \<lparr>r_at = 0, r_bytes = wire_bytes version prefix body 0\<rparr> = Some (version, parse)"
    "wi_message WI_PARSE_STMTS parse = Some (raw, parse')" "r_bytes parse' = []"
    "wi_message WI_RAW_STMT raw = Some (node, raw1)"
    "wi_optional_scalar WI_RAW_LENGTH raw1 = Some (0, raw2)" "r_bytes raw2 = []"
    "wi_message NODE_INSERT_STMT node = Some (ins, node')" "r_bytes node' = []" "r_bytes ins = insert_bytes prefix body"
proof -
  note sizes = insert_wire_sizes [OF assms(1)]
  define parse where "parse = \<lparr>r_at = length (scalar_bytes WI_PARSE_VERSION version),
      r_bytes = message_bytes WI_PARSE_STMTS (raw_bytes prefix body 0)\<rparr>"
  have "\<not> wi_key_is \<lparr>r_at = 0, r_bytes = message_bytes WI_PARSE_STMTS (raw_bytes prefix body 0)\<rparr> WI_PARSE_VERSION 0"
    using key_is_message [of 0 WI_PARSE_STMTS "raw_bytes prefix body 0" "[]"] by (simp add: wi_tag_def)
  then have version: "wi_optional_scalar WI_PARSE_VERSION \<lparr>r_at = 0, r_bytes = wire_bytes version prefix body 0\<rparr> = Some (version, parse)"
    using wi_optional_scalar_reads [OF assms(2), of 0] by (simp add: wire_bytes_def parse_def)
  have parse_bytes: "r_bytes parse = message_bytes WI_PARSE_STMTS (raw_bytes prefix body 0) @ []" by (simp add: parse_def)
  obtain raw parse' where raw: "wi_message WI_PARSE_STMTS parse = Some (raw, parse')" "r_bytes parse' = []"
      "r_bytes raw = raw_bytes prefix body 0"
    using message_step [of parse WI_PARSE_STMTS "raw_bytes prefix body 0" "[]"] parse_bytes sizes(1) by metis
  obtain node raw1 where node: "wi_message WI_RAW_STMT raw = Some (node, raw1)"
      "r_bytes node = message_bytes NODE_INSERT_STMT (insert_bytes prefix body)" "r_bytes raw1 = []"
    using message_step [OF _ sizes(2), of raw WI_RAW_STMT "[]"] raw(3) by (auto simp: raw_bytes_def scalar_bytes_def)
  obtain ins node' where ins: "wi_message NODE_INSERT_STMT node = Some (ins, node')"
      "r_bytes ins = insert_bytes prefix body" "r_bytes node' = []"
    using message_step [OF _ sizes(3), of node NODE_INSERT_STMT "[]"] node(2) by auto
  have "wi_optional_scalar WI_RAW_LENGTH raw1 = Some (0, raw1)"
    using node(3) by (cases raw1) (simp add: wi_optional_scalar_def)
  with version raw node ins that show thesis by blast
qed

lemma select_read:
  assumes "r_bytes ins = message_bytes WI_INSERT_SELECT (message_bytes NODE_SELECT_STMT (select_bytes body)) @
      scalar_bytes WI_INSERT_OVERRIDE 1"
    and "length (message_bytes NODE_SELECT_STMT (select_bytes body)) < 2 ^ 32" "length (select_bytes body) < 2 ^ 32"
  obtains select_node ins4 ins5 vals select_node' where
    "wi_message WI_INSERT_SELECT ins = Some (select_node, ins4)" "wi_enum WI_INSERT_OVERRIDE 1 ins4 = Some ins5"
    "r_bytes ins5 = []" "wi_message NODE_SELECT_STMT select_node = Some (vals, select_node')"
    "r_bytes select_node' = []" "r_bytes vals = select_bytes body"
proof -
  obtain select_node ins4 where select: "wi_message WI_INSERT_SELECT ins = Some (select_node, ins4)"
      "r_bytes select_node = message_bytes NODE_SELECT_STMT (select_bytes body)"
      "r_bytes ins4 = scalar_bytes WI_INSERT_OVERRIDE 1"
    using message_step [OF assms(1,2)] .
  obtain ins5 where "wi_enum WI_INSERT_OVERRIDE 1 ins4 = Some ins5" "r_bytes ins5 = []"
    using enum_step [of ins4 WI_INSERT_OVERRIDE 1 "[]"] select(3) by (auto simp: INT32_MAX_def)
  moreover obtain vals select_node' where "wi_message NODE_SELECT_STMT select_node = Some (vals, select_node')"
      "r_bytes vals = select_bytes body" "r_bytes select_node' = []"
    using message_step [OF _ assms(3), of select_node NODE_SELECT_STMT "[]"] select(2) by auto
  ultimately show thesis using that select(1) by blast
qed

text \<open>The body and what follows them in the wire.\<close>

lemma values_read:
  assumes "r_bytes vals = select_bytes (rows_bytes (place_rows 0 pos rs))" "drop pos sql = rows_source 0 rs" "list_all plain_row rs"
    and "length sql \<le> INT32_MAX" "length (rows_bytes (place_rows 0 pos rs)) < 2 ^ 32" "tb \<le> 2 * INT32_MAX"
  obtains vals' vals1 vals2 offsets where
    "certify_rows sql vals pos 0 tb = Some (vals', pos + length (rows_source 0 rs), length rs, tb + texts_size rs)"
    "wi_enum WI_SELECT_LIMIT 1 vals' = Some vals1" "wi_enum WI_SELECT_OP 1 vals1 = Some vals2" "r_bytes vals2 = []"
    "index_rows (length rs) vals = Some offsets"
proof -
  let ?tail = "scalar_bytes WI_SELECT_LIMIT 1 @ scalar_bytes WI_SELECT_OP 1"
  have v: "r_bytes vals = rows_bytes (place_rows 0 pos rs) @ ?tail"
    using assms(1) by (simp add: select_bytes_def)
  have rest: "length (rows_source 0 rs) \<le> length sql" using arg_cong [OF assms(2), of length] by simp
  have tail: "\<not> wi_key_is \<lparr>r_at = at, r_bytes = ?tail\<rparr> WI_SELECT_VALUES 2" for at
    by (simp add: wi_tag_def)
  have bounds: "0 + length rs \<le> UINT32_MAX" "tb + texts_size rs \<le> 2 ^ 62"
    using rest rows_source_sizes [of rs 0] assms(4,6) by (simp_all add: INT32_MAX_def UINT32_MAX_def)
  obtain vals' where rows: "certify_rows sql vals pos 0 tb = Some (vals', pos + length (rows_source 0 rs), length rs, tb + texts_size rs)"
      "r_bytes vals' = ?tail"
    using certify_rows_reads [OF _ v assms(3,4,5) bounds tail, of "[]"] assms(2) by auto
  obtain vals1 where vals1: "wi_enum WI_SELECT_LIMIT 1 vals' = Some vals1" "r_bytes vals1 = scalar_bytes WI_SELECT_OP 1"
    using enum_step [OF rows(2)] by (auto simp: INT32_MAX_def)
  obtain vals2 where vals2: "wi_enum WI_SELECT_OP 1 vals1 = Some vals2" "r_bytes vals2 = []"
    using enum_step [of vals1 WI_SELECT_OP 1 "[]"] vals1(2) by (auto simp: INT32_MAX_def)
  have "pos \<le> length sql \<or> rs = []"
    using assms(2) by (cases "pos \<le> length sql"; cases rs) (simp_all add: row_source_def)
  then have "list_all good_row (place_rows 0 pos rs)"
    using place_rows_good [OF assms(3) _ assms(5)] arg_cong [OF assms(2), of length] assms(4) by auto
  then obtain offsets where "index_rows (length rs) vals = Some offsets"
    using index_rows_total [OF v] by auto
  with rows(1) vals1(1) vals2 that show thesis by blast
qed

text \<open>The text behind the table and behind the columns, and where the parts of the source stand.\<close>

definition after_b :: "(string \<times> string) list \<Rightarrow> string" where
  "after_b rs = CHR '')'' # ''values'' @ rows_source 0 rs"

definition after_a :: "string \<Rightarrow> (string \<times> string) list \<Rightarrow> string" where
  "after_a b rs = CHR '','' # b @ after_b rs"

definition after_table :: "string \<Rightarrow> string \<Rightarrow> (string \<times> string) list \<Rightarrow> string" where
  "after_table a b rs = CHR ''('' # a @ after_a b rs"

lemma insert_source_parts:
  shows "drop 0 (insert_source table a b rs) = ''insert into '' @ table @ after_table a b rs"
    and "drop 12 (insert_source table a b rs) = table @ after_table a b rs"
    and "drop (12 + length table) (insert_source table a b rs) = after_table a b rs"
    and "drop (place_a table) (insert_source table a b rs) = a @ after_a b rs"
    and "drop (place_b table a) (insert_source table a b rs) = b @ after_b rs"
    and "drop (place_b table a + length b + 1) (insert_source table a b rs) = ''values'' @ rows_source 0 rs"
    and "drop (place_values table a b) (insert_source table a b rs) = rows_source 0 rs"
    and "length (insert_source table a b rs) = place_values table a b + length (rows_source 0 rs)"
proof -
  let ?sql = "insert_source table a b rs"
  show d0: "drop 0 ?sql = ''insert into '' @ table @ after_table a b rs"
    by (simp add: insert_source_def after_table_def after_a_def after_b_def)
  show d12: "drop 12 ?sql = table @ after_table a b rs" using drop_append_at [OF d0] by (simp add: numeral_eq_Suc)
  show dp: "drop (12 + length table) ?sql = after_table a b rs" using drop_append_at [OF d12] .
  show da: "drop (place_a table) ?sql = a @ after_a b rs"
    using drop_Cons_at [OF dp [unfolded after_table_def]] by (simp add: place_a_def)
  show db: "drop (place_b table a) ?sql = b @ after_b rs"
    using drop_Cons_at [OF drop_append_at [OF da, unfolded after_a_def]] by (simp add: place_b_def)
  show dv: "drop (place_b table a + length b + 1) ?sql = ''values'' @ rows_source 0 rs"
    using drop_Cons_at [OF drop_append_at [OF db, unfolded after_b_def]] by simp
  show "drop (place_values table a b) ?sql = rows_source 0 rs"
    using drop_append_at [OF dv] by (simp add: place_values_def numeral_eq_Suc)
  show "length ?sql = place_values table a b + length (rows_source 0 rs)"
    by (simp add: insert_source_def place_values_def place_b_def place_a_def)
qed

text \<open>The names, in the source and in the wire.\<close>

lemma columns_read:
  assumes "plain_name table" "plain_name a" "plain_name b" "r_bytes ins = insert_prefix table a b @ s"
    and "length (insert_prefix table a b) < 2 ^ 32" "length (insert_source table a b rs) \<le> INT32_MAX"
  obtains relation ins1 ins2 ins3 where
    "wi_message WI_INSERT_RELATION ins = Some (relation, ins1)"
    "wi_name relation 3 7 0 (insert_source table a b rs) 0 11 = Some (bytes_of table, length table + 1, 12 + length table)"
    "wi_punctuation (insert_source table a b rs) (CHR ''('') (12 + length table) = Some (place_a table)"
    "certify_column 1 (CHR '','') (insert_source table a b rs) ins1 (length table + 1) (place_a table) =
      Some (bytes_of a, ins2, length table + 1 + length a + 1, place_b table a)"
    "certify_column 2 (CHR '')'') (insert_source table a b rs) ins2 (length table + 1 + length a + 1) (place_b table a) =
      Some (bytes_of b, ins3, length table + 1 + length a + 1 + length b + 1, place_b table a + length b + 1)"
    "r_bytes ins3 = s"
proof -
  let ?sql = "insert_source table a b rs"
  note parts = insert_source_parts [of table a b rs]
  have columns: "length (message_bytes WI_INSERT_RELATION (name_wire 3 7 0 table 12)) < 2 ^ 32"
    "length (message_bytes WI_INSERT_COLS (column_wire 1 a (place_a table))) < 2 ^ 32"
    "length (message_bytes WI_INSERT_COLS (column_wire 2 b (place_b table a))) < 2 ^ 32"
    using assms(5) by (simp_all add: insert_prefix_def)
  obtain relation ins1 where relation: "wi_message WI_INSERT_RELATION ins = Some (relation, ins1)"
      "r_bytes relation = name_wire 3 7 0 table 12"
      "r_bytes ins1 = message_bytes WI_INSERT_COLS (column_wire 1 a (place_a table)) @
         message_bytes WI_INSERT_COLS (column_wire 2 b (place_b table a)) @ s"
    using message_step [OF _ message_length_mono [OF columns(1)], of ins WI_INSERT_RELATION] assms(4)
    by (auto simp: insert_prefix_def)
  have "drop 11 ?sql = CHR '' '' # table @ after_table a b rs"
    using drop_append_at [of 0 ?sql "''insert into''" "CHR '' '' # table @ after_table a b rs"] parts(1)
    by (simp add: numeral_eq_Suc)
  then have "wi_gap ?sql 11 = 12" using plain_name_gap(2) [OF assms(1)] by simp
  then have name: "wi_name relation 3 7 0 ?sql 0 11 = Some (bytes_of table, length table + 1, 12 + length table)"
    using wi_name_reads [OF relation(2) message_length_mono [OF columns(1)] parts(2) [unfolded after_table_def] assms(1)]
      assms(6) by simp
  have paren: "wi_punctuation ?sql (CHR ''('') (12 + length table) = Some (place_a table)"
    using wi_punctuation_reads [OF parts(3) [unfolded after_table_def]] by (simp add: place_a_def)
  have bound: "length table + length a + 2 \<le> INT32_MAX" and pos: "0 < place_a table" "0 < place_b table a"
    using assms(6) parts(8) by (simp_all add: place_a_def place_b_def place_values_def)
  then have tb: "length table + 1 \<le> INT32_MAX" "length table + 1 + length a + 1 \<le> INT32_MAX" by simp_all
  obtain ins2 where col1: "certify_column 1 (CHR '','') ?sql ins1 (length table + 1) (place_a table) =
      Some (bytes_of a, ins2, length table + 1 + length a + 1, place_b table a)"
      "r_bytes ins2 = message_bytes WI_INSERT_COLS (column_wire 2 b (place_b table a)) @ s"
    using certify_column_reads [OF relation(3) columns(2) parts(4) [unfolded after_a_def] assms(2) _ _ pos(1) assms(6) tb(1)]
    by (auto simp: place_b_def)
  obtain ins3 where col2: "certify_column 2 (CHR '')'') ?sql ins2 (length table + 1 + length a + 1) (place_b table a) =
      Some (bytes_of b, ins3, length table + 1 + length a + 1 + length b + 1, place_b table a + length b + 1)"
      "r_bytes ins3 = s"
    using certify_column_reads [OF col1(2) columns(3) parts(5) [unfolded after_b_def] assms(3) _ _ pos(2) assms(6) tb(2)]
    by auto
  from relation(1) name paren col1(1) col2 that show thesis by blast
qed

text \<open>The keyword before the rows.\<close>

lemma values_word:
  assumes "rs \<noteq> []"
  shows "wi_word (insert_source table a b rs) (bytes_of ''values'') (place_b table a + length b + 1) =
    Some (place_values table a b)"
proof -
  let ?sql = "insert_source table a b rs"
  obtain r rs' where "rs = r # rs'" using assms by (cases rs) auto
  then have dv: "drop (place_b table a + length b + 1) ?sql = ''values'' @ CHR ''('' # tl (rows_source 0 rs)"
    using insert_source_parts(6) [of table a b rs] by (simp add: separator_def row_source_def)
  show ?thesis
    using wi_word_reads [of ?sql "place_b table a + length b + 1" "''values''"] dv
      plain_name_gap(1) [OF plain_keywords(3) dv] plain_keywords(3) by (simp add: place_values_def)
qed

lemma certify_end_reads: "certify_end sql 0 (length sql) = Some (length sql)"
  by (simp add: certify_end_def Let_def wi_gap_def scan_while_done)

text \<open>A canonical list of rows determines the rows.\<close>

lemma select_bytes_inj:
  "rows_bytes rows @ s = rows_bytes rows' @ s' \<Longrightarrow> list_all good_row rows \<Longrightarrow> list_all good_row rows' \<Longrightarrow>
   length rows = length rows' \<Longrightarrow> rows = rows'"
proof (induction rows arbitrary: rows')
  case (Cons cs rows)
  then obtain cs' rows'' where rows': "rows' = cs' # rows''" by (cases rows') auto
  have "wi_row \<lparr>r_at = 0, r_bytes = row_bytes cs @ rows_bytes rows @ s\<rparr> =
      wi_row \<lparr>r_at = 0, r_bytes = row_bytes cs' @ rows_bytes rows'' @ s'\<rparr>"
    using Cons.prems(1) by (simp add: rows')
  then have "cs = cs'" "rows_bytes rows @ s = rows_bytes rows'' @ s'"
    using Cons.prems(2,3) by (simp_all add: rows' wi_row_reads)
  with Cons rows' show ?case by simp
qed simp

text \<open>
  The certifier accepts every plain INSERT, and its certificate describes the rows as they stand.
\<close>

lemma plain_insert_certified:
  assumes "plain_name table" "plain_name a" "plain_name b" "list_all plain_row rs" "32 \<le> length rs"
    and guard: "certify_guard handle = Some (insert_source table a b rs, insert_wire version table a b rs)"
    and "unat version \<le> INT32_MAX" "e_plain_strings env (length rs)" "e_schemas_match env"
    and budget: "certify_budget env (length rs) (length table + length a + length b + 3 + texts_size rs)"
    and allocs: "alloc 0 sizeof_wire_insert" "alloc 1 (length rs * 4)"
  shows "\<exists>c. wire_insert_certify alloc env handle = Some c \<and>
    describes c (place_rows 0 (place_values table a b) rs) \<and> i_raw_length c = 0 \<and>
    i_text_bytes c = length table + length a + length b + 3 + texts_size rs"
proof -
  let ?sql = "insert_source table a b rs" and ?start = "place_values table a b"
  define cells where "cells = place_rows 0 ?start rs"
  define prefix where "prefix = insert_prefix table a b"
  define tb where "tb = length table + 1 + length a + 1 + length b + 1"
  note parts = insert_source_parts [of table a b rs]
  have len: "length ?sql \<le> INT32_MAX" using certify_guard_source [OF guard] .
  have wire: "insert_wire version table a b rs = wire_bytes version prefix (rows_bytes cells) 0"
    by (simp add: insert_wire_def prefix_def cells_def)
  have fits: "length (wire_bytes version prefix (rows_bytes cells) 0) < 2 ^ 32" using certify_guard_wire [OF guard] wire by simp
  note sizes = insert_wire_sizes [OF fits]
  obtain parse raw parse' node raw1 raw2 ins node' where outer:
    "wi_optional_scalar WI_PARSE_VERSION \<lparr>r_at = 0, r_bytes = wire_bytes version prefix (rows_bytes cells) 0\<rparr> = Some (version, parse)"
    "wi_message WI_PARSE_STMTS parse = Some (raw, parse')" "r_bytes parse' = []"
    "wi_message WI_RAW_STMT raw = Some (node, raw1)"
    "wi_optional_scalar WI_RAW_LENGTH raw1 = Some (0, raw2)" "r_bytes raw2 = []"
    "wi_message NODE_INSERT_STMT node = Some (ins, node')" "r_bytes node' = []" "r_bytes ins = insert_bytes prefix (rows_bytes cells)"
    using wire_read [OF fits assms(7)] .
  note names = columns_read [OF assms(1-3) outer(9) [unfolded insert_bytes_def prefix_def] sizes(4) [unfolded prefix_def] len,
    folded tb_def]
  have "tb \<le> 2 * INT32_MAX" using len parts(8) by (simp add: tb_def place_values_def place_b_def place_a_def)
  note loop = values_read [OF _ parts(7) assms(4) len sizes(7) [unfolded cells_def] this, folded cells_def, folded parts(8)]
  have budget': "certify_budget env (length rs) (tb + texts_size rs)"
    using budget by (simp add: tb_def add.commute add.left_commute numeral_3_eq_3)
  have good: "list_all good_row cells"
    using place_rows_good [OF assms(4)] len parts(8) sizes(7) unfolding cells_def by simp
  have "rs \<noteq> []" using assms(5) by auto
  note words = insert_into_reads [OF parts(1)] values_word [OF this, of table a b] certify_end_reads [of ?sql]
  show ?thesis
  proof (rule names)
    fix relation ins1 ins2 ins3
    assume cols: "wi_message WI_INSERT_RELATION ins = Some (relation, ins1)"
      "wi_name relation 3 7 0 ?sql 0 11 = Some (bytes_of table, length table + 1, 12 + length table)"
      "wi_punctuation ?sql (CHR ''('') (12 + length table) = Some (place_a table)"
      "certify_column 1 (CHR '','') ?sql ins1 (length table + 1) (place_a table) =
        Some (bytes_of a, ins2, length table + 1 + length a + 1, place_b table a)"
      "certify_column 2 (CHR '')'') ?sql ins2 (length table + 1 + length a + 1) (place_b table a) =
        Some (bytes_of b, ins3, tb, place_b table a + length b + 1)"
      "r_bytes ins3 = message_bytes WI_INSERT_SELECT (message_bytes NODE_SELECT_STMT (select_bytes (rows_bytes cells))) @
         scalar_bytes WI_INSERT_OVERRIDE 1"
    obtain select_node ins4 ins5 vals select_node' where inner:
      "wi_message WI_INSERT_SELECT ins3 = Some (select_node, ins4)" "wi_enum WI_INSERT_OVERRIDE 1 ins4 = Some ins5"
      "r_bytes ins5 = []" "wi_message NODE_SELECT_STMT select_node = Some (vals, select_node')"
      "r_bytes select_node' = []" "r_bytes vals = select_bytes (rows_bytes cells)"
      using select_read [OF cols(6) sizes(5,6)] .
    have "\<exists>c. wire_insert_certify alloc env handle = Some c \<and> i_row_count c = length rs \<and> i_raw_length c = 0 \<and>
        i_text_bytes c = tb + texts_size rs"
      by (rule loop [OF inner(6)])
        (use outer inner words cols budget' assms(5,8,9) allocs in
          \<open>simp add: wire_insert_certify_def guard wire\<close>)
    then obtain c where c: "wire_insert_certify alloc env handle = Some c" "i_row_count c = length rs"
      "i_raw_length c = 0" "i_text_bytes c = tb + texts_size rs" by blast
    obtain rows vals' where rows: "describes c rows" "values_of (insert_wire version table a b rs) = Some vals'"
        "r_bytes vals' = select_bytes (rows_bytes rows)"
      by (rule certify_describes [OF c(1)]) (use guard that in simp)
    obtain col_a col_b where "wi_message WI_INSERT_COLS ins1 = Some (col_a, ins2)" "wi_message WI_INSERT_COLS ins2 = Some (col_b, ins3)"
      using certify_column_accepts [OF cols(4)] certify_column_accepts [OF cols(5)] by blast
    then have "values_of (insert_wire version table a b rs) = Some vals"
      using outer inner cols(1) by (simp add: values_of_def wire)
    then have "select_bytes (rows_bytes rows) = select_bytes (rows_bytes cells)" using rows(2,3) inner(6) by simp
    moreover have "list_all good_row rows" "length rows = length cells"
      using rows(1) c(2) unfolding describes_def cells_def length_place_rows by auto
    ultimately have "rows = cells" using select_bytes_inj good unfolding select_bytes_def by blast
    with c rows(1) show ?thesis by (auto simp: cells_def tb_def)
  qed
qed

end
