(* ===== verification/Scalar_Native.thy ===== *)
theory Scalar_Native
  imports Scalar_Restore Wire_Complete
begin

text \<open>
  The two constructors of a scalar certificate, compared.  The one that relies on the attestation of
  the native parser skips the cells; where both give a certificate, it is the same one but for the
  two totals it takes over from the attestation.
\<close>

section \<open>The header does not depend on the checks that follow\<close>

lemma check_bind: "(check b \<bind> f) = (if b then f () else None)"
  by (simp add: check_def)

lemma scalar_header_checks:
  "scalar_header alloc accept sql wire = do {
     g \<leftarrow> scalar_header (\<lambda>_ _. True) (\<lambda>_ _. True) sql wire;
     check (accept (g_column_count g) (g_raw_length g) \<and> alloc 0 ((g_column_count g + 3) * SIZEOF_NAME));
     Some g }"
  unfolding scalar_header_def Let_def check_bind
  by (auto split: Option.bind_splits prod.splits if_splits)

lemma scalar_header_same:
  assumes "scalar_header alloc accept sql wire = Some g" "scalar_header alloc' accept' sql wire = Some g'"
  shows "g = g'"
  using assms unfolding scalar_header_checks [of alloc accept] scalar_header_checks [of alloc' accept']
  by (auto simp: bind_eq_Some_conv)

section \<open>Messages that follow one another\<close>

lemma message_split:
  assumes "message_bytes f p @ s = message_bytes f q @ t" "length p < 2 ^ 32" "length q < 2 ^ 32"
  shows "p = q" "s = t"
  using wi_message_reads [OF assms(2), of f 0 s] unfolding assms(1) wi_message_reads [OF assms(3)]
  by (simp_all only: option.inject prod.inject wi_reader.ext_inject)

lemma messages_inj:
  assumes "concat (map (message_bytes f) ps) = concat (map (message_bytes f) qs)"
    "\<forall>p \<in> set ps. length p < 2 ^ 32" "\<forall>q \<in> set qs. length q < 2 ^ 32"
  shows "ps = qs"
  using assms
proof (induction ps arbitrary: qs)
  case Nil
  then show ?case by (cases qs) auto
next
  case (Cons p ps)
  then obtain q qs' where qs: "qs = q # qs'" by (cases qs) auto
  have "p = q" "concat (map (message_bytes f) ps) = concat (map (message_bytes f) qs')"
    using message_split [of f p _ q] Cons.prems qs by auto
  with Cons.IH [of qs'] Cons.prems qs show ?case by simp
qed

lemma native_rows_accepts:
  assumes "native_rows n v = Some (offsets, v')"
  obtains nodes where "r_bytes v = concat (map (message_bytes WI_SELECT_VALUES) nodes) @ r_bytes v'"
    "length nodes = n" "\<forall>p \<in> set nodes. length p < 2 ^ 32" "index_rows n v = Some offsets"
  using assms
proof (induction n arbitrary: v offsets thesis)
  case 0
  then show ?case by simp
next
  case (Suc n)
  from Suc.prems(2) obtain node v1 offsets1 where node: "wi_message WI_SELECT_VALUES v = Some (node, v1)"
    and rest: "native_rows n v1 = Some (offsets1, v')" and offsets: "offsets = of_nat (r_at v) # offsets1"
    by (auto simp: bind_eq_Some_conv Let_def)
  from Suc.IH [OF _ rest] obtain nodes where
    "r_bytes v1 = concat (map (message_bytes WI_SELECT_VALUES) nodes) @ r_bytes v'"
    "length nodes = n" "\<forall>p \<in> set nodes. length p < 2 ^ 32" "index_rows n v1 = Some offsets1" by blast
  moreover from this have "index_rows (Suc n) v = Some offsets" using node offsets by simp
  ultimately show ?case
    using node by (intro Suc.prems(1) [of "r_bytes node # nodes"]) (auto simp: wi_message_exact simp del: index_rows.simps)
qed

section \<open>The certificates agree\<close>

lemma native_elim:
  assumes "wire_scalar_insert_from_native alloc env handle = Some c"
  obtains p h buffer parser_buffer wire g vals offsets accept where
    "native_guard env handle = Some p" "handle = Some h" "scalar_guard handle = Some (buffer, parser_buffer, wire)"
    "scalar_header alloc accept (take (h_sql_len h) buffer) wire = Some g"
    "native_rows (n_row_count p) (g_values g) = Some (offsets, vals)"
    "r_bytes vals = scalar_bytes WI_SELECT_LIMIT 1 @ scalar_bytes WI_SELECT_OP 1"
    "c = scalar_description g (take (h_sql_len h) buffer) wire (n_row_count p) (n_text_bytes p) (n_string_count p) offsets"
proof -
  from assms obtain p h buffer parser_buffer wire g vals vals1 vals2 offsets where
    1: "native_guard env handle = Some p" "handle = Some h" "scalar_guard handle = Some (buffer, parser_buffer, wire)" and
    2: "scalar_header alloc (\<lambda>columns raw_length. \<not> (columns \<noteq> n_column_count p \<or>
       raw_length \<noteq> of_int (n_statement_length p))) (take (h_sql_len h) buffer) wire = Some g" and
    3: "native_rows (n_row_count p) (g_values g) = Some (offsets, vals)" and
    tail: "wi_enum WI_SELECT_LIMIT 1 vals = Some vals1" "wi_enum WI_SELECT_OP 1 vals1 = Some vals2" "r_bytes vals2 = []" and
    c: "c = scalar_description g (take (h_sql_len h) buffer) wire (n_row_count p) (n_text_bytes p) (n_string_count p) offsets"
    unfolding wire_scalar_insert_from_native_def Let_def
    by (elim step_Some pair_step_Some, hypsubst, simp only: check_eq_Some option.inject)
  have "r_bytes vals = scalar_bytes WI_SELECT_LIMIT 1 @ scalar_bytes WI_SELECT_OP 1"
    using tail by (simp add: wi_enum_exact)
  from that [OF 1 2 3 this c] show thesis .
qed

lemma native_is_strict:
  assumes "wire_scalar_insert_certify alloc env handle = Some c"
    and "wire_scalar_insert_from_native alloc' env' handle = Some d"
  shows "d = c\<lparr>x_text_bytes := x_text_bytes d, x_string_count := x_string_count d\<rparr>"
  using assms(1)
proof (rule scalar_certify_elim)
  fix h buffer parser_buffer wire g rows vals tb strings pos offsets accept
  assume h: "handle = Some h" and guard: "scalar_guard handle = Some (buffer, parser_buffer, wire)"
    and header: "scalar_header alloc accept (take (h_sql_len h) buffer) wire = Some g"
    and rows: "r_bytes (g_values g) = select_bytes (scalar_rows_bytes rows)"
      "\<forall>cs \<in> set rows. good_scalar_row (g_column_count g) cs"
    and offsets: "index_rows (length rows) (g_values g) = Some offsets"
    and c: "c = scalar_description g (take (h_sql_len h) buffer) wire (length rows) tb strings offsets"
  from assms(2) show ?thesis
  proof (rule native_elim)
    fix p h' buffer' parser_buffer' wire' g' vals' offsets' accept'
    assume h': "handle = Some h'" "scalar_guard handle = Some (buffer', parser_buffer', wire')"
      and header': "scalar_header alloc' accept' (take (h_sql_len h') buffer') wire' = Some g'"
      and native: "native_rows (n_row_count p) (g_values g') = Some (offsets', vals')"
        "r_bytes vals' = scalar_bytes WI_SELECT_LIMIT 1 @ scalar_bytes WI_SELECT_OP 1"
      and d: "d = scalar_description g' (take (h_sql_len h') buffer') wire' (n_row_count p) (n_text_bytes p)
        (n_string_count p) offsets'"
    have same: "h' = h" "buffer' = buffer" "wire' = wire" using h h' guard by simp_all
    with header header' have g: "g' = g" using scalar_header_same by blast
    from native(1) obtain nodes where nodes: "r_bytes (g_values g) = concat (map (message_bytes WI_SELECT_VALUES) nodes) @ r_bytes vals'"
      "length nodes = n_row_count p" "\<forall>p \<in> set nodes. length p < 2 ^ 32"
      "index_rows (n_row_count p) (g_values g) = Some offsets'"
      unfolding g by (rule native_rows_accepts)
    let ?nodes = "map (\<lambda>cs. message_bytes NODE_LIST (cells_bytes cs)) rows"
    have rows_eq: "scalar_rows_bytes rows = concat (map (message_bytes WI_SELECT_VALUES) ?nodes)"
      by (simp add: comp_def scalar_row_bytes_def [abs_def])
    have "concat (map (message_bytes WI_SELECT_VALUES) nodes) = concat (map (message_bytes WI_SELECT_VALUES) ?nodes)"
      using nodes(1) rows(1) native(2) unfolding rows_eq [symmetric] by (simp add: select_bytes_def)
    then have "nodes = ?nodes"
      by (rule messages_inj [OF _ nodes(3)]) (use rows(2) in \<open>auto simp: good_scalar_row_def\<close>)
    then have "n_row_count p = length rows" using nodes(2) by simp
    with nodes(4) offsets show ?thesis by (simp add: c d same g scalar_description_def)
  qed
qed

text \<open>A truthful attestation of a strictly certified statement is accepted.\<close>

lemma wsi_add_text_mono: "wsi_add_text tb n = Some tb' \<Longrightarrow> tb \<le> tb'"
  by (auto simp: wsi_add_text_def split: if_splits)

lemma certify_cells_text: "certify_cells sql k list tb st pos = Some (list', tb', st', pos') \<Longrightarrow> tb \<le> tb'"
proof (induction k arbitrary: list tb st pos)
  case (Suc k)
  from Suc.prems obtain cell :: scalar_cell and list1 pos1 tb1 st1 where
    "(if s_kind cell \<noteq> SCALAR_INTEGER then wsi_add_text tb (s_length cell) else Some tb) = Some tb1"
    "certify_cells sql k list1 tb1 st1 pos1 = Some (list', tb', st', pos')"
    unfolding certify_cells.simps Let_def by (elim step_Some pair_step_Some) (rule that)
  with Suc.IH [of list1 tb1 st1 pos1] wsi_add_text_mono [of tb "s_length cell" tb1] show ?case by (auto split: if_splits)
qed simp

lemma certify_scalar_rows_text:
  "certify_scalar_rows sql k v rc tb st pos = Some (v', rc', tb', st', pos') \<Longrightarrow> tb \<le> tb'"
proof (induction sql k v rc tb st pos rule: certify_scalar_rows.induct)
  case (1 sql k v rc tb st pos)
  show ?case
  proof (cases "wi_key_is v WI_SELECT_VALUES 2")
    case False
    with "1.prems" show ?thesis by (simp add: certify_scalar_rows.simps [of sql k v])
  next
    case True
    obtain node v1 tb1 st1 pos1 where node: "wi_message WI_SELECT_VALUES v = Some (node, v1)"
      and row: "certify_scalar_row sql k node rc tb st pos = Some (tb1, st1, pos1)"
      and rest: "certify_scalar_rows sql k v1 (rc + 1) tb1 st1 pos1 = Some (v', rc', tb', st', pos')"
      using True "1.prems" by (auto simp: certify_scalar_rows.simps [of sql k v] split: option.splits)
    have "tb \<le> tb1"
      using row certify_cells_text unfolding certify_scalar_row_def by (fastforce simp: bind_eq_Some_conv)
    moreover have "tb1 \<le> tb'" using "1.IH" [OF _ node refl row refl refl rest] True by simp
    ultimately show ?thesis by simp
  qed
qed

lemma native_rows_reads:
  assumes "r_bytes v = scalar_rows_bytes rows @ s" "\<forall>cs \<in> set rows. good_scalar_row k cs" "0 < k"
  shows "\<exists>offsets v'. native_rows (length rows) v = Some (offsets, v') \<and> index_rows (length rows) v = Some offsets \<and> r_bytes v' = s"
  using assms(1,2)
proof (induction rows arbitrary: v)
  case (Cons cs rows)
  let ?node = "message_bytes NODE_LIST (cells_bytes cs)"
  let ?v' = "\<lparr>r_at = r_at v + length (scalar_row_bytes cs), r_bytes = scalar_rows_bytes rows @ s\<rparr>"
  have small: "length ?node < 2 ^ 32" and columns: "length cs = k"
    using Cons.prems(2) by (simp_all add: good_scalar_row_def)
  have "v = \<lparr>r_at = r_at v, r_bytes = message_bytes WI_SELECT_VALUES ?node @ scalar_rows_bytes rows @ s\<rparr>"
    by (rule wi_reader.equality) (simp_all add: Cons.prems(1) scalar_row_bytes_def [of cs])
  then obtain at where row: "wi_message WI_SELECT_VALUES v = Some (\<lparr>r_at = at, r_bytes = ?node\<rparr>, ?v')"
    using wi_message_reads [OF small, of WI_SELECT_VALUES "r_at v" "scalar_rows_bytes rows @ s"]
    unfolding scalar_row_bytes_def by metis
  have "length (cells_bytes cs) < 2 ^ 32" using small by (simp add: message_bytes_def)
  note list = wi_message_reads_whole [OF this, of NODE_LIST at]
  have "cs \<noteq> []" using columns assms(3) by auto
  then have "cells_bytes cs \<noteq> []" by (cases cs) (simp_all add: scalar_cell_bytes_def)
  with Cons.IH [of ?v'] Cons.prems(2) row list show ?case by (auto simp: check_bind)
qed simp

lemma native_accepts:
  assumes "wire_scalar_insert_certify alloc env handle = Some c" "native_guard env handle = Some p"
    and same: "n_row_count p = x_row_count c" "n_column_count p = x_column_count c"
      "of_int (n_statement_length p) = x_raw_length c" "n_string_count p = x_string_count c" "n_text_bytes p = x_text_bytes c"
    and budget: "scalar_budget SIZEOF_PROVENANCE (x_row_count c) (x_column_count c) (x_text_bytes c)"
  shows "wire_scalar_insert_from_native alloc env handle = Some c"
proof -
  let ?accept = "\<lambda>columns (_ :: u32). \<not> (columns = 0 \<or> columns > SIZE_MAX div SIZEOF_NAME - 3)"
  let ?native = "\<lambda>columns raw_length. \<not> (columns \<noteq> n_column_count p \<or> raw_length \<noteq> of_int (n_statement_length p))"
  from assms(1) obtain h buffer parser_buffer wire g vals rc tb strings pos vals1 vals2 pos1 offsets where
    h: "handle = Some h" and guard: "scalar_guard handle = Some (buffer, parser_buffer, wire)" and
    nul: "\<not> (take (h_sql_len h + 1) buffer \<noteq> take (h_sql_len h + 1) parser_buffer \<or> buffer ! h_sql_len h \<noteq> NUL)" and
    header: "scalar_header alloc ?accept (take (h_sql_len h) buffer) wire = Some g" and
    rows: "certify_scalar_rows (take (h_sql_len h) buffer) (g_column_count g) (g_values g) 0 (g_text_bytes g) 0 (g_pos g) =
       Some (vals, rc, tb, strings, pos)" and
    tail: "wi_enum WI_SELECT_LIMIT 1 vals = Some vals1" "wi_enum WI_SELECT_OP 1 vals1 = Some vals2" "r_bytes vals2 = []" and
    fin: "\<not> (pos1 \<noteq> length (take (h_sql_len h) buffer) \<or> \<not> dialect_state_is_plain_insert_strings env handle strings \<or>
      \<not> e_schemas_match env)" and
    allocs: "alloc 1 SIZEOF_SCALAR_INSERT" "alloc 2 (rc * 4)" and
    offsets: "index_rows rc (g_values g) = Some offsets" and
    c: "c = scalar_description g (take (h_sql_len h) buffer) wire rc tb strings offsets"
    unfolding wire_scalar_insert_certify_def Let_def
    by (elim step_Some pair_step_Some, hypsubst, simp only: check_eq_Some option.inject) blast
  have native: "scalar_header alloc ?native (take (h_sql_len h) buffer) wire = Some g"
    using header same(2,3)
    unfolding scalar_header_checks [of alloc ?accept] scalar_header_checks [of alloc ?native]
    by (auto simp: bind_eq_Some_conv c scalar_description_def)
  from header scalar_guard_wire [OF guard] have bounds: "g_pos g \<le> length (take (h_sql_len h) buffer)" "0 < g_column_count g"
    by (elim header_frame; simp)+
  obtain rs where rs: "r_bytes (g_values g) = scalar_rows_bytes rs @ r_bytes vals"
    "\<forall>cs \<in> set rs. good_scalar_row (g_column_count g) cs" "rc = length rs"
    using certify_scalar_rows_accepts [OF rows bounds(1)] by auto
  obtain vals' where read: "native_rows rc (g_values g) = Some (offsets, vals')" "r_bytes vals' = r_bytes vals"
    using native_rows_reads [OF rs(1,2) bounds(2)] offsets rs(3) by auto
  obtain v1 where v1: "wi_enum WI_SELECT_LIMIT 1 vals' = Some v1" "r_bytes v1 = r_bytes vals1"
    using tail(1) read(2) enum_step [of vals' WI_SELECT_LIMIT 1 "r_bytes vals1"] by (auto simp: wi_enum_exact)
  obtain v2 where v2: "wi_enum WI_SELECT_OP 1 v1 = Some v2" "r_bytes v2 = []"
    using tail(2,3) v1(2) enum_step [of v1 WI_SELECT_OP 1 "[]"] by (auto simp: wi_enum_exact)
  have counts: "x_row_count c = rc" "x_column_count c = g_column_count g" "x_text_bytes c = tb" "x_string_count c = strings"
    by (simp_all add: c scalar_description_def)
  show ?thesis
    unfolding wire_scalar_insert_from_native_def
    using assms(2) h guard nul native fin allocs read(1) v1(1) v2 certify_scalar_rows_text [OF rows] budget
    by (simp add: same counts check_def c scalar_description_def)
qed

section \<open>Packing without edits\<close>

lemma edit_cells_none:
  "\<forall>c \<in> set cs. good_scalar c \<Longrightarrow> stand_in sql pos cs q \<Longrightarrow> length sql \<le> INT32_MAX \<Longrightarrow>
     edit_cells [] cs index 0 = Some (cs, index, 0)"
proof (induction cs arbitrary: pos)
  case (Cons c cs)
  have "nat (s_location c) + s_length c + 2 \<le> INT32_MAX" if "s_kind c = SCALAR_STRING"
    using stand_in_le [of sql "nat (s_location c) + scalar_span sql c + 1" cs q] Cons.prems that
    by (simp add: scalar_span_def)
  then have "wsi_effective_cell [] index 0 c = Some (c, index, 0)"
    using Cons.prems(1) by (auto simp: wsi_effective_cell_def good_scalar_def in_int32_def check_def)
  with Cons.IH [of "nat (s_location c) + scalar_span sql c + 1"] Cons.prems show ?case by simp
qed simp

lemma edit_scalar_rows_none:
  "\<forall>cs \<in> set rows. \<forall>c \<in> set cs. good_scalar c \<Longrightarrow> stand_in sql pos (concat rows) q \<Longrightarrow> length sql \<le> INT32_MAX \<Longrightarrow>
     edit_scalar_rows [] rows index 0 = Some (rows, index, 0)"
proof (induction rows arbitrary: pos)
  case (Cons cs rows)
  have split: "\<exists>m. stand_in sql pos as m \<and> stand_in sql m bs q" if "stand_in sql pos (as @ bs) q" for as bs pos
    using that
  proof (induction as arbitrary: pos)
    case Nil
    then show ?case using stand_in_le [of sql pos bs q] by (intro exI [of _ pos]) auto
  qed auto
  obtain m where "stand_in sql pos cs m" "stand_in sql m (concat rows) q"
    using split [of pos cs "concat rows"] Cons.prems(2) by auto
  with Cons.IH [OF _ _ Cons.prems(3)] edit_cells_none [where cs = cs and sql = sql and pos = pos and q = m and index = index, OF _ _ Cons.prems(3)] Cons.prems(1) show ?case by simp
qed simp

lemma scalar_rows_count: "length rows \<le> length (scalar_rows_bytes rows)"
proof (induction rows)
  case (Cons cs rows)
  have "0 < length (scalar_row_bytes cs)" by simp
  with Cons show ?case by (simp del: length_greater_0_conv)
qed simp

lemma cells_count: "length cs \<le> length (cells_bytes cs)"
proof (induction cs)
  case (Cons c cs)
  have "scalar_cell_bytes c \<noteq> []" by (simp add: scalar_cell_bytes_def)
  then have "0 < length (scalar_cell_bytes c)" by simp
  with Cons show ?case by (simp del: length_greater_0_conv)
qed simp

lemma described_scalar_guard:
  assumes "scalar_describes ins rows" "32 \<le> length rows" "0 < x_column_count ins" "wi_edits es proven"
  shows "wsi_pack_guard ins es proven"
proof -
  obtain wire offsets where d: "x_wire ins = Some wire" "length wire < 2 ^ 32"
    "wire = wire_bytes (x_version ins) (scalar_prefix ins) (scalar_rows_bytes rows) (x_raw_length ins)"
    "unat (x_version ins) \<le> INT32_MAX" "unat (x_raw_length ins) \<le> INT32_MAX" "x_row_count ins = length rows"
    "\<forall>cs \<in> set rows. good_scalar_row (x_column_count ins) cs"
    "unat (x_prefix_offset ins) + unat (x_prefix_length ins) \<le> length wire" "x_row_offsets ins = Some offsets"
    using assms(1) by (auto simp: scalar_describes_def)
  have count: "length rows < 2 ^ 32"
    using scalar_rows_count [of rows] wire_bytes_parts(6) [OF d(2) [unfolded d(3)]] by linarith
  obtain cs where cs: "good_scalar_row (x_column_count ins) cs"
    using d(7) assms(2) by (cases rows) auto
  then have "length (cells_bytes cs) < 2 ^ 32" "length cs = x_column_count ins"
    by (simp_all add: good_scalar_row_def message_bytes_def)
  then have columns: "x_column_count ins < 2 ^ 32" using cells_count [of cs] by linarith
  have "x_column_count ins * length rows \<le> 2 ^ 32 * 2 ^ 32 - 1"
  proof -
    have "x_column_count ins * length rows \<le> (2 ^ 32 - 1) * (2 ^ 32 - 1)"
      using columns count by (intro mult_mono) simp_all
    also have "... \<le> 2 ^ 32 * 2 ^ 32 - (1 :: nat)" by simp
    finally show ?thesis .
  qed
  moreover have "0 < length rows" using assms(2) by linarith
  ultimately have "x_column_count ins \<le> SIZE_MAX div length rows"
    by (subst less_eq_div_iff_mult_less_eq) (simp_all add: SIZE_MAX_def)
  then show ?thesis
    using d assms(2-4) count by (simp add: wsi_pack_guard_def UINT32_MAX_def PTRDIFF_MAX_def SIZE_MAX_def)
qed

lemma scalar_pack_unedited:
  assumes "scalar_describes ins rows" "stand_in (x_sql ins) 0 (concat rows) q" "length (x_sql ins) \<le> INT32_MAX"
    and "32 \<le> length rows" "0 < x_column_count ins" "x_wire ins = Some wire"
    and "alloc 0 (length rows * 4)" "alloc 2 (length wire)"
  shows "wsi_pack alloc (Some ins) (Some no_edits) True proven = Inr wire"
proof -
  have d: "length wire < 2 ^ 32"
    "wire = wire_bytes (x_version ins) (scalar_prefix ins) (scalar_rows_bytes rows) (x_raw_length ins)"
    "unat (x_raw_length ins) \<le> INT32_MAX" "x_row_count ins = length rows"
    "\<forall>cs \<in> set rows. \<forall>c \<in> set cs. good_scalar c"
    using assms(1,6) by (auto simp: scalar_describes_def good_scalar_row_def)
  have "wi_edits no_edits proven" by (simp add: wi_edits_def no_edits_def)
  then have "wsi_pack_guard ins no_edits proven"
    by (rule described_scalar_guard [OF assms(1,4,5)])
  moreover have "packed_scalar_wire proven ins (edit_items no_edits) = Some wire"
    unfolding packed_described [OF assms(1)]
    using edit_scalar_rows_none [OF d(5) assms(2,3)] shifted_raw_length_zero [OF d(3)] d(1,2) assms(3)
    by (simp add: no_edits_def in_int32_def Let_def)
  ultimately show ?thesis using assms(7,8) d(4) by (simp add: wsi_pack_spec)
qed

end
