(* ===== verification/Wire_Statement.thy ===== *)
theory Wire_Statement
  imports Wire_Complete
begin

text \<open>
  The properties of INSERT certificates: when one is given, what its rows are, and what the packer
  makes of it with and without source edits.  Each is applied to one sample statement of 32 rows,
  which \<open>plain_insert_certified\<close> shows to have a certificate.
\<close>

section \<open>A sample statement\<close>

definition sample_rows :: "(string \<times> string) list" where
  "sample_rows = replicate 32 (''7'', ''x'')"

definition sample_sql :: string where
  "sample_sql = insert_source ''t'' ''a'' ''b'' sample_rows"

definition sample_wire :: "byte list" where
  "sample_wire = insert_wire 17 ''t'' ''a'' ''b'' sample_rows"

definition sample_handle :: wire_handle where
  "sample_handle = \<lparr>h_dialect = MYSQL, h_failed = False, h_sql = Some (sample_sql @ [NUL]),
     h_parser_sql = Some (sample_sql @ [NUL]), h_ast = False, h_generation = 0, h_source_complete = False,
     h_current_sql = False, h_current_parser_sql = False, h_control = False, h_statement_count = 1,
     h_sql_len = length sample_sql, h_parser_sql_len = length sample_sql, h_parse_tree = Some sample_wire,
     h_batch_flags = 0, h_edits = no_edits, h_mutations = False, h_spellings = False,
     h_spelling_status = STATUS_OK\<rparr>"

definition sample_env :: wire_env where
  "sample_env = \<lparr>e_plain_strings = (\<lambda>n. n = 32), e_schemas_match = True, e_row_structure = 200\<rparr>"

lemma rows_source_replicate: "length (rows_source (Suc n) (replicate k (''7'', ''x''))) = 8 * k"
  by (induction k arbitrary: n) (simp_all add: separator_def row_source_def)

lemma sample_sql_length: "length sample_sql = 279"
proof -
  have "replicate 32 (''7'', ''x'') = (''7'', ''x'') # replicate 31 (''7'', ''x'')"
    by (simp add: numeral_eq_Suc)
  then have "length (rows_source 0 sample_rows) = 255"
    using rows_source_replicate [of 0 31]
    by (simp add: sample_rows_def separator_def row_source_def)
  then show ?thesis by (simp add: sample_sql_def insert_source_def)
qed

lemma cell_bytes_length: "length (cell_bytes column c) \<le> length (c_text c) + 50"
proof -
  have "length (value_bytes column c) \<le> length (c_text c) + 10"
    using scalar_bytes_length [of WI_INTEGER_VALUE "of_int (c_integer c)"]
      message_bytes_length [of WI_STRING_VALUE "c_text c"]
    by (auto simp: value_bytes_def)
  then show ?thesis
    using message_bytes_length [of "cell_kind column" "value_bytes column c"]
      scalar_bytes_length [of WI_CONST_LOCATION "of_int (c_location c)"]
      message_bytes_length [of NODE_A_CONST "const_bytes column c"]
      message_bytes_length [of WI_LIST_ITEMS "node_bytes column c"]
    by (simp add: cell_bytes_def node_bytes_def const_bytes_def)
qed

lemma row_bytes_length: "length (row_bytes cs) \<le> length (c_text (fst cs)) + length (c_text (snd cs)) + 120"
  using cell_bytes_length [of 0 "fst cs"] cell_bytes_length [of 1 "snd cs"]
    message_bytes_length [of NODE_LIST "list_bytes cs"]
    message_bytes_length [of WI_SELECT_VALUES "message_bytes NODE_LIST (list_bytes cs)"]
  by (simp add: row_bytes_def list_bytes_def)

lemma placed_rows_length:
  "length (rows_bytes (place_rows n pos rs)) \<le> texts_size rs + 120 * length rs"
proof (induction rs arbitrary: n pos)
  case (Cons r rs)
  let ?p = "pos + length (separator n)"
  have "length (row_bytes (place_row ?p r)) \<le> length (snd r) + 120"
    using row_bytes_length [of "place_row ?p r"] by (simp add: place_row_def)
  with Cons [of "Suc n" "?p + length (row_source r)"] show ?case
    by (simp add: Let_def texts_size_def)
qed (simp add: texts_size_def)

lemma name_wire_length: "length (name_wire f g index name loc) \<le> length name + 51"
  using message_bytes_length [of f "bytes_of name"] scalar_bytes_length [of 4 1] message_bytes_length [of 5 "bytes_of ''p''"]
    scalar_bytes_length [of g "of_nat loc"]
  by (simp add: name_wire_def)

lemma wire_bytes_length:
  "length (wire_bytes version prefix body rl) \<le> length prefix + length body + 120"
  using scalar_bytes_length [of WI_SELECT_LIMIT 1] scalar_bytes_length [of WI_SELECT_OP 1]
    message_bytes_length [of NODE_SELECT_STMT "select_bytes body"]
    message_bytes_length [of WI_INSERT_SELECT "message_bytes NODE_SELECT_STMT (select_bytes body)"]
    scalar_bytes_length [of WI_INSERT_OVERRIDE 1] message_bytes_length [of NODE_INSERT_STMT "insert_bytes prefix body"]
    message_bytes_length [of WI_RAW_STMT "message_bytes NODE_INSERT_STMT (insert_bytes prefix body)"]
    scalar_bytes_length [of WI_RAW_LENGTH rl] scalar_bytes_length [of WI_PARSE_VERSION version]
    message_bytes_length [of WI_PARSE_STMTS "raw_bytes prefix body rl"]
  by (simp add: wire_bytes_def raw_bytes_def insert_bytes_def select_bytes_def)

lemma insert_wire_length:
  "length (insert_wire version table a b rs) \<le>
     length table + length a + length b + texts_size rs + 120 * length rs + 400"
proof -
  let ?rows = "place_rows 0 (place_values table a b) rs" and ?prefix = "insert_prefix table a b"
  have column: "length (column_wire index name loc) \<le> length name + 61" for index name loc
    using message_bytes_length [of NODE_RES_TARGET "name_wire 1 4 index name loc"]
      name_wire_length [of 1 4 index name loc] by (simp add: column_wire_def)
  have prefix: "length ?prefix \<le> length table + length a + length b + 203"
    using message_bytes_length [of WI_INSERT_RELATION "name_wire 3 7 0 table 12"] name_wire_length [of 3 7 0 table 12]
      message_bytes_length [of WI_INSERT_COLS "column_wire 1 a (place_a table)"] column [of 1 a "place_a table"]
      message_bytes_length [of WI_INSERT_COLS "column_wire 2 b (place_b table a)"] column [of 2 b "place_b table a"]
    by (simp add: insert_prefix_def)
  show ?thesis
    using prefix placed_rows_length [of 0 "place_values table a b" rs] wire_bytes_length [of version ?prefix "rows_bytes ?rows" 0]
    by (simp add: insert_wire_def)
qed

lemma sample_texts: "texts_size sample_rows = 64" "length sample_rows = 32" "list_all plain_row sample_rows"
  by (simp_all add: texts_size_def sample_rows_def plain_row_def plain_digits_def plain_char_def decimal_def
      INT32_MAX_def c_isdigit_def list_all_iff Let_def sum_list_replicate)

lemma sample_wire_length: "length sample_wire \<le> 4311"
  using insert_wire_length [of 17 "''t''" "''a''" "''b''" sample_rows] sample_texts by (simp add: sample_wire_def)

lemma sample_guard: "certify_guard (Some sample_handle) = Some (sample_sql, sample_wire)"
proof -
  have "sample_wire \<noteq> []" by (simp add: sample_wire_def insert_wire_def wire_bytes_def)
  moreover have "(sample_sql @ [NUL]) ! 279 = NUL" using sample_sql_length by (simp add: nth_append)
  ultimately show ?thesis
    using sample_sql_length sample_wire_length
    by (simp add: certify_guard_def sample_handle_def no_edits_def INT32_MAX_def UINT32_MAX_def PTRDIFF_MAX_def)
qed

abbreviation sample_cells :: "(insert_cell \<times> insert_cell) list" where
  "sample_cells \<equiv> place_rows 0 24 sample_rows"

lemma sample_certificate:
  obtains c where "wire_insert_certify (\<lambda>_ _. True) sample_env (Some sample_handle) = Some c"
    "describes c sample_cells" "length (wire_prefix c) \<le> 4311" "i_raw_length c = 0" "i_text_bytes c = 70"
proof -
  have place: "place_values ''t'' ''a'' ''b'' = 24" by (simp add: place_values_def place_b_def place_a_def)
  have "\<exists>c. wire_insert_certify (\<lambda>_ _. True) sample_env (Some sample_handle) = Some c \<and>
      describes c (place_rows 0 (place_values ''t'' ''a'' ''b'') sample_rows) \<and> i_raw_length c = 0 \<and>
      i_text_bytes c = length ''t'' + length ''a'' + length ''b'' + 3 + texts_size sample_rows"
  proof (rule plain_insert_certified [of "''t''" "''a''" "''b''" sample_rows _ 17])
    show "certify_guard (Some sample_handle) =
        Some (insert_source ''t'' ''a'' ''b'' sample_rows, insert_wire 17 ''t'' ''a'' ''b'' sample_rows)"
      using sample_guard by (simp add: sample_sql_def sample_wire_def)
  qed (simp_all add: sample_texts sample_env_def plain_name_def wi_identifier_char_def c_tolower_def
      certify_budget_def sizeof_wire_insert_def SIZE_MAX_def INT32_MAX_def Let_def)
  then obtain c where c: "wire_insert_certify (\<lambda>_ _. True) sample_env (Some sample_handle) = Some c"
      "describes c sample_cells" "i_raw_length c = 0" "i_text_bytes c = 70"
    unfolding place sample_texts by auto
  have "i_wire c = Some sample_wire" by (rule certify_describes [OF c(1)]) (use sample_guard in simp)
  then have "length (wire_prefix c) \<le> length sample_wire" by (simp add: wire_prefix_def)
  with that c sample_wire_length show thesis by auto
qed

section \<open>The properties\<close>

text \<open>
  C7.  Every plain INSERT is certified.  Plain is: two columns, the names in lower case; at least 32 rows,
  each of digits whose value is at most \<^verbatim>\<open>INT32_MAX\<close> and of a string of at most 32 plain characters:
  printable ones other than the quote and the backslash.  Take a source that spells such a statement in the canonical way,
  with the canonical wire beside it, and a handle that passes the guards, and let the environment report the
  strings and the schemas as plain and the storage bound and the memory have room: then a certificate is
  given, and its accessor returns every row with the values and the positions of the source.
\<close>

theorem plain_insert_is_certified:
  assumes "plain_name table" "plain_name a" "plain_name b" "list_all plain_row rs" "32 \<le> length rs"
    and "certify_guard handle = Some (insert_source table a b rs, insert_wire version table a b rs)"
    and "unat version \<le> INT32_MAX" "e_plain_strings env (length rs)" "e_schemas_match env"
    and "certify_budget env (length rs) (length table + length a + length b + 3 + texts_size rs)"
    and "alloc 0 sizeof_wire_insert" "alloc 1 (length rs * 4)"
  shows "\<exists>c. wire_insert_certify alloc env handle = Some c \<and> i_row_count c = length rs \<and>
    (\<forall>i < length rs. wire_insert_row (Some c) i = Some (place_rows 0 (place_values table a b) rs ! i))"
proof -
  obtain c where c: "wire_insert_certify alloc env handle = Some c"
    "describes c (place_rows 0 (place_values table a b) rs)"
    using plain_insert_certified [where alloc = alloc, OF assms] by blast
  have "wire_insert_row (Some c) i = Some (place_rows 0 (place_values table a b) rs ! i)" if "i < length rs" for i
    by (rule describes_rows(1) [OF c(2)]) (simp add: that)
  moreover have "i_row_count c = length rs" using c(2) by (auto simp: describes_def)
  ultimately show ?thesis using c(1) by blast
qed

text \<open>
  C5.  The rows of a certificate.  They are at least 32; they are the rows of the wire, which is
  their canonical encoding and nothing else; in the source of the handle every integer and every
  string stands, in order, where its location says; and the accessor that checks every byte and
  the accessor that trusts the certificate return the same row.
\<close>

theorem certified_rows_stand_in_source:
  assumes "wire_insert_certify alloc env handle = Some c" "certify_guard handle = Some (sql, wire)"
  shows "\<exists>rows. 32 \<le> length rows \<and> i_row_count c = length rows \<and>
    wire = wire_bytes (i_version c) (wire_prefix c) (rows_bytes rows) (i_raw_length c) \<and> rows_at sql 0 rows \<and>
    (\<forall>i < length rows. wire_insert_row (Some c) i = Some (rows ! i) \<and>
       wire_insert_certified_row (Some c) i = Some (rows ! i))"
proof -
  obtain rows where rows: "i_wire c = Some wire" "describes c rows" "rows_at sql 0 rows" "32 \<le> length rows"
    by (rule certify_describes [OF assms(1)]) (use assms(2) that in simp)
  moreover have "i_row_count c = length rows" "wire = wire_bytes (i_version c) (wire_prefix c) (rows_bytes rows) (i_raw_length c)"
    using rows(1,2) by (auto simp: describes_def)
  ultimately show ?thesis using describes_rows [OF rows(2)] by blast
qed

text \<open>
  C4.  Packing and the surface agree.  When the packer accepts the edits of a certified statement, the
  packed wire is the canonical encoding of the rows of the certificate with the edits applied, and in the
  text that the surface restores by the same edits these rows stand, in order, where their locations
  say.  Applied means: every edit replaces the whole literal of one row, whose string is then the
  interior of the replacement; every other value is the old one; and every cell is moved by what the
  edits that end before it add and remove.
\<close>

theorem packed_rows_stand_in_restored_source:
  assumes "wire_insert_certify alloc env handle = Some c" "certify_guard handle = Some (sql, wire)" "edits_inv es"
    and "wi_pack alloc' (Some c) (Some es) True proven = Inr out"
    and "restore_source_edits alloc'' sql (length sql) limit es = Inr t"
  shows "\<exists>rows rl. length rows = i_row_count c \<and> (\<forall>i < length rows. wire_insert_row (Some c) i = Some (rows ! i)) \<and>
    out = wire_bytes (i_version c) (wire_prefix c) (rows_bytes (map (edited_row (edit_items es)) rows)) rl \<and>
    rows_at t 0 (map (edited_row (edit_items es)) rows) \<and>
    (\<forall>e \<in> set (edit_items es). \<exists>cs \<in> set rows. replaces_string e cs)"
proof -
  obtain rows where rows: "describes c rows" "rows_at sql 0 rows"
    by (rule certify_describes [OF assms(1)]) (use assms(2) that in simp)
  obtain rl where "out = wire_bytes (i_version c) (wire_prefix c) (rows_bytes (map (edited_row (edit_items es)) rows)) rl"
      "rows_at t 0 (map (edited_row (edit_items es)) rows)" "\<forall>e \<in> set (edit_items es). \<exists>cs \<in> set rows. replaces_string e cs"
    by (rule packed_rows_restored [OF rows assms(3-5)])
  moreover have "length rows = i_row_count c" using rows(1) by (auto simp: describes_def)
  ultimately show ?thesis using describes_rows(1) [OF rows(1)] by blast
qed

text \<open>
  A certificate packs to its own wire: with no edits pending, and with memory, the packer
  writes back byte for byte the wire that was certified.
\<close>

lemma unedited_certificate_packs_to_its_wire:
  assumes "wire_insert_certify alloc env handle = Some c" "certify_guard handle = Some (sql, wire)"
    and "alloc' 0 (i_row_count c * 4)" "alloc' 1 (length wire)"
  shows "wi_pack alloc' (Some c) (Some no_edits) True proven = Inr wire"
proof -
  obtain rows where rows: "describes c rows" "rows_at sql 0 rows" "i_wire c = Some wire" "32 \<le> length rows"
    by (rule certify_describes [OF assms(1)]) (use assms(2) that in simp)
  moreover have "i_row_count c = length rows" using rows(1) by (auto simp: describes_def)
  ultimately show ?thesis
    using pack_unedited [OF rows(1,2) certify_guard_source [OF assms(2)] rows(3)] assms(3,4) by simp
qed

section \<open>The sample statement, edited\<close>

text \<open>The string of the first row is replaced.\<close>

definition sample_edits :: source_edits where
  "sample_edits = \<lparr>edit_items = [\<lparr>source_start = 27, source_end = 30,
     replacement = Some (QUOTE # ''y'' @ [QUOTE]), replacement_length = 3\<rparr>], edit_capacity = 4\<rparr>"

lemma sample_edits_valid: "edits_inv sample_edits" "edits_within (length sample_sql) sample_edits"
    "wi_edits sample_edits proven"
  by (simp_all add: edits_inv_def edits_within_def sample_edits_def edit_wf_def SIZE_MAX_def sizeof_edit_def
      sample_sql_length wi_edits_def INT32_MAX_def char_at_def edit_interior_def plain_char_def Let_def)

lemma rows_behind_edits:
  "list_all plain_row rs \<Longrightarrow> pos + length (rows_source n rs) < 2 ^ 20 \<Longrightarrow>
   edit_rows [e] (place_rows n pos rs) 1 0 = Some (place_rows n pos rs, 1, 0)"
proof (induction rs arbitrary: n pos)
  case (Cons r rs)
  let ?p = "pos + length (separator n)"
  have "edit_rows [e] (place_rows (Suc n) (?p + length (row_source r)) rs) 1 0 =
      Some (place_rows (Suc n) (?p + length (row_source r)) rs, 1, 0)"
    using Cons.IH [of "?p + length (row_source r)" "Suc n"] Cons.prems by simp
  moreover have "shift_row [e] 1 0 (place_row ?p r) = Some (place_row ?p r, 1, 0)"
    using Cons.prems
    by (simp add: shift_row_def place_row_def in_int32_def INT32_MAX_def row_source_def Let_def check_def nat_add_distrib)
  ultimately show ?case by (simp add: Let_def)
qed simp

abbreviation sample_edited :: "(string \<times> string) list" where
  "sample_edited \<equiv> (''7'', ''y'') # replicate 31 (''7'', ''x'')"

lemma sample_rows_split: "sample_rows = (''7'', ''x'') # replicate 31 (''7'', ''x'')"
  by (simp add: sample_rows_def numeral_eq_Suc)

lemma sample_edited_rows:
  "edit_rows (edit_items sample_edits) sample_cells 0 0 = Some (place_rows 0 24 sample_edited, 1, 0)"
proof -
  have "list_all plain_row (replicate 31 (''7'', ''x''))" using sample_texts(3) unfolding sample_rows_split by simp
  then have "edit_rows (edit_items sample_edits) (place_rows (Suc 0) 31 (replicate 31 (''7'', ''x''))) 1 0 =
      Some (place_rows (Suc 0) 31 (replicate 31 (''7'', ''x'')), 1, 0)"
    unfolding sample_edits_def source_edits.simps
    using rows_source_replicate [of 0 31] by (intro rows_behind_edits) simp_all
  then show ?thesis
    unfolding sample_rows_split
    by (simp add: separator_def row_source_def place_row_def shift_row_def sample_edits_def in_int32_def INT32_MAX_def
        edit_interior_def bytes_of_def Let_def)
qed

lemma sample_packed:
  assumes "describes c sample_cells" "length (wire_prefix c) \<le> 4311"
  shows "\<exists>out. wi_pack (\<lambda>_ _. True) (Some c) (Some sample_edits) True False = Inr out"
proof -
  let ?out = "wire_bytes (i_version c) (wire_prefix c) (rows_bytes (place_rows 0 24 sample_edited)) (i_raw_length c)"
  have d: "unat (i_raw_length c) \<le> INT32_MAX" "i_row_count c = length sample_cells"
    using assms(1) by (auto simp: describes_def)
  have "texts_size sample_edited = 64" by (simp add: texts_size_def sum_list_replicate)
  then have "length ?out < 2 ^ 32"
    using wire_bytes_length [of "i_version c" "wire_prefix c" "rows_bytes (place_rows 0 24 sample_edited)" "i_raw_length c"]
      placed_rows_length [of 0 24 sample_edited] assms(2) by simp
  then have "packed_wire c (edit_items sample_edits) = Some ?out"
    using effective_rows_described [OF assms(1), of 0 "edit_items sample_edits" 0 0] sample_edited_rows
      shifted_raw_length_zero [OF d(1)] d(2)
    by (simp add: packed_wire_def check_def sample_edits_def)
  moreover have "pack_guard c sample_edits False"
    by (rule described_guard [OF assms(1) _ sample_edits_valid(3)]) (simp add: sample_texts)
  ultimately show ?thesis by (simp add: pack_spec)
qed

lemma sample_restored:
  "\<exists>t. restore_source_edits (\<lambda>_ _. True) sample_sql (length sample_sql) 1000 sample_edits = Inr t"
  by (rule restore_source_edits_cases [OF sample_edits_valid(1,2), of "\<lambda>_ _. True" 1000])
    (simp_all add: sample_sql_length sample_edits_def edit_view_def SIZE_MAX_def)

theorem plain_insert_is_certified_witness:
  "\<exists>c. wire_insert_certify (\<lambda>_ _. True) sample_env (Some sample_handle) = Some c \<and> i_row_count c = 32 \<and>
    wire_insert_row (Some c) 0 = Some (\<lparr>c_text = [], c_integer = 7, c_location = 25\<rparr>,
      \<lparr>c_text = bytes_of ''x'', c_integer = 0, c_location = 27\<rparr>)"
proof -
  have guard: "certify_guard (Some sample_handle) =
      Some (insert_source ''t'' ''a'' ''b'' sample_rows, insert_wire 17 ''t'' ''a'' ''b'' sample_rows)"
    using sample_guard by (simp add: sample_sql_def sample_wire_def)
  have "\<exists>c. wire_insert_certify (\<lambda>_ _. True) sample_env (Some sample_handle) = Some c \<and> i_row_count c = length sample_rows \<and>
    (\<forall>i < length sample_rows. wire_insert_row (Some c) i =
       Some (place_rows 0 (place_values ''t'' ''a'' ''b'') sample_rows ! i))"
    by (rule plain_insert_is_certified [OF _ _ _ _ _ guard])
      (simp_all add: sample_texts sample_env_def plain_name_def wi_identifier_char_def c_tolower_def
        certify_budget_def sizeof_wire_insert_def SIZE_MAX_def INT32_MAX_def Let_def)
  then show ?thesis
    unfolding sample_texts(2)
    by (auto simp: sample_rows_split place_row_def separator_def place_values_def place_b_def place_a_def decimal_def Let_def)
qed

theorem certified_rows_stand_in_source_witness:
  "\<exists>c rows. wire_insert_certify (\<lambda>_ _. True) sample_env (Some sample_handle) = Some c \<and>
     32 \<le> length rows \<and> rows_at sample_sql 0 rows \<and> wire_insert_row (Some c) 0 = Some (rows ! 0)"
proof -
  obtain c where c: "wire_insert_certify (\<lambda>_ _. True) sample_env (Some sample_handle) = Some c"
    using sample_certificate by blast
  from certified_rows_stand_in_source [OF c sample_guard] obtain rows where rows: "32 \<le> length rows"
    "rows_at sample_sql 0 rows" "\<forall>i < length rows. wire_insert_row (Some c) i = Some (rows ! i) \<and>
       wire_insert_certified_row (Some c) i = Some (rows ! i)" by blast
  then have "0 < length rows" by linarith
  with c rows show ?thesis by blast
qed

theorem packed_rows_stand_in_restored_source_witness:
  "\<exists>c out t rows. wire_insert_certify (\<lambda>_ _. True) sample_env (Some sample_handle) = Some c \<and>
     wi_pack (\<lambda>_ _. True) (Some c) (Some sample_edits) True False = Inr out \<and>
     restore_source_edits (\<lambda>_ _. True) sample_sql (length sample_sql) 1000 sample_edits = Inr t \<and>
     length rows = i_row_count c \<and> rows_at t 0 (map (edited_row (edit_items sample_edits)) rows)"
proof -
  obtain c where c: "wire_insert_certify (\<lambda>_ _. True) sample_env (Some sample_handle) = Some c"
    "describes c sample_cells" "length (wire_prefix c) \<le> 4311"
    using sample_certificate by blast
  obtain out t where pack: "wi_pack (\<lambda>_ _. True) (Some c) (Some sample_edits) True False = Inr out"
    "restore_source_edits (\<lambda>_ _. True) sample_sql (length sample_sql) 1000 sample_edits = Inr t"
    using sample_packed [OF c(2,3)] sample_restored by blast
  from packed_rows_stand_in_restored_source [OF c(1) sample_guard sample_edits_valid(1) pack] c(1) pack
  show ?thesis by blast
qed

lemma unedited_certificate_packs_to_its_wire_witness:
  "\<exists>c. wire_insert_certify (\<lambda>_ _. True) sample_env (Some sample_handle) = Some c \<and>
     wi_pack (\<lambda>_ _. True) (Some c) (Some no_edits) True True = Inr sample_wire"
proof -
  obtain c where c: "wire_insert_certify (\<lambda>_ _. True) sample_env (Some sample_handle) = Some c"
    using sample_certificate by blast
  with unedited_certificate_packs_to_its_wire [OF c sample_guard, of "\<lambda>_ _. True" True] show ?thesis by blast
qed

end
