(* ===== verification/Scalar_Columns.thy ===== *)
theory Scalar_Columns
  imports Scalar_Native Wire_Statement
begin

text \<open>
  The two-column certificate is a special case of the scalar one.  Both certifiers read the same
  source and the same wire; where the narrow one is satisfied, and the source has no capital letters
  (the scalar one compares names exactly), the general one is, and finds the same rows at the same
  offsets.  This also gives the sample statement a scalar certificate.
\<close>

section \<open>Cells\<close>

definition int_cell :: "insert_cell \<Rightarrow> scalar_cell" where
  "int_cell c = \<lparr>s_text = [], s_length = 0, s_integer = c_integer c, s_location = c_location c, s_kind = SCALAR_INTEGER\<rparr>"

definition string_cell :: "insert_cell \<Rightarrow> scalar_cell" where
  "string_cell c = \<lparr>s_text = c_text c, s_length = length (c_text c), s_integer = 0, s_location = c_location c,
     s_kind = SCALAR_STRING\<rparr>"

definition pair_cells :: "insert_cell \<times> insert_cell \<Rightarrow> scalar_cell list" where
  "pair_cells cs = [int_cell (fst cs), string_cell (snd cs)]"

lemma pair_bytes:
  "scalar_cell_bytes (int_cell c) = cell_bytes 0 c" "scalar_node_bytes (int_cell c) = node_bytes 0 c"
  "scalar_cell_bytes (string_cell c) = cell_bytes 1 c" "scalar_node_bytes (string_cell c) = node_bytes 1 c"
  by (simp_all add: int_cell_def string_cell_def scalar_cell_bytes_def scalar_node_bytes_def scalar_node_def
      scalar_body_bytes_def scalar_value_bytes_def wsi_constant_kind_def cell_bytes_def node_bytes_def
      const_bytes_def value_bytes_def cell_kind_def)

lemma pair_good:
  "good_cell 0 c \<Longrightarrow> good_scalar (int_cell c)" "good_cell 1 c \<Longrightarrow> good_scalar (string_cell c)"
  by (auto simp: good_cell_def good_scalar_def pair_bytes)
    (simp_all add: int_cell_def string_cell_def good_value_def)

lemma pair_source:
  "wi_source_cell sql c 0 pos = Some pos' \<Longrightarrow> wsi_source_cell sql (int_cell c) pos = Some pos'"
  "wi_source_cell sql c 1 pos = Some pos' \<Longrightarrow> wsi_source_cell sql (string_cell c) pos = Some pos'"
proof -
  show "wi_source_cell sql c 0 pos = Some pos' \<Longrightarrow> wsi_source_cell sql (int_cell c) pos = Some pos'"
    by (auto simp: wi_source_cell_def wsi_source_cell_def int_cell_def Let_def split: if_splits option.splits)
  have "string_loop cs = Some t \<Longrightarrow> scalar_string_loop cs = Some t" for cs t
    by (induction cs arbitrary: t) (auto split: if_splits)
  then show "wi_source_cell sql c 1 pos = Some pos' \<Longrightarrow> wsi_source_cell sql (string_cell c) pos = Some pos'"
    by (auto simp: wi_source_cell_def wsi_source_cell_def string_cell_def Let_def length_bytes_of [symmetric]
        simp del: length_bytes_of split: if_splits option.splits)
qed

section \<open>Rows\<close>

lemma pair_row:
  assumes "wi_row v = Some ((cell0, cell1), v')" "certify_row sql cell0 cell1 rc tb pos = Some pos'"
  shows "\<exists>node. wi_message WI_SELECT_VALUES v = Some (node, v') \<and>
    certify_scalar_row sql 2 node rc tb strings pos = Some (tb + length (c_text cell1) + 1, strings + 1, pos')"
proof -
  from assms(1) obtain node list node' list1 list2 where
    node: "wi_message WI_SELECT_VALUES v = Some (node, v')" and
    list: "wi_message NODE_LIST node = Some (list, node')" "r_bytes node' = []" and
    cells: "wi_cell 0 list = Some (cell0, list1)" "wi_cell 1 list1 = Some (cell1, list2)" "r_bytes list2 = []"
    by (auto simp: wi_row_def bind_eq_Some_conv)
  have read: "wsi_cell list = Some (int_cell cell0, list1)" "wsi_cell list1 = Some (string_cell cell1, list2)"
    using cells(1,2) pair_good unfolding wi_cell_exact wsi_cell_exact by (simp_all add: pair_bytes)
  from assms(2) obtain p1 p2 p3 p4 p5 where
    "(if rc \<noteq> 0 then wi_punctuation sql (CHR '','') pos else Some pos) = Some p1"
    "wi_punctuation sql (CHR ''('') p1 = Some p2" "wi_source_cell sql cell0 0 p2 = Some p3"
    "wi_punctuation sql (CHR '','') p3 = Some p4" "wi_source_cell sql cell1 1 p4 = Some p5"
    "wi_punctuation sql (CHR '')'') p5 = Some pos'" "\<not> (rc = UINT32_MAX \<or> length (c_text cell1) \<ge> SIZE_MAX - tb)"
    unfolding certify_row_def by (auto simp: bind_eq_Some_conv)
  moreover have "s_kind (int_cell cell0) = SCALAR_INTEGER" "s_kind (string_cell cell1) = SCALAR_STRING"
    "s_length (string_cell cell1) = length (c_text cell1)" by (simp_all add: int_cell_def string_cell_def)
  ultimately have "certify_scalar_row sql 2 node rc tb strings pos = Some (tb + length (c_text cell1) + 1, strings + 1, pos')"
    using list read cells(3) pair_source
    by (simp add: certify_scalar_row_def numeral_2_eq_2 wsi_add_text_def del: One_nat_def)
  with node show ?thesis by blast
qed

lemma pair_rows:
  "certify_rows sql v pos rc tb = Some (v', pos', rc', tb') \<Longrightarrow>
     certify_scalar_rows sql 2 v rc tb strings pos = Some (v', rc', tb', strings + (rc' - rc), pos') \<and> rc \<le> rc'"
proof (induction sql v pos rc tb arbitrary: strings rule: certify_rows.induct)
  case (1 sql v pos rc tb)
  show ?case
  proof (cases "wi_key_is v WI_SELECT_VALUES 2")
    case False
    with "1.prems" show ?thesis
      by (simp add: certify_rows.simps [of sql v]) (simp add: certify_scalar_rows.simps [of sql 2 v'])
  next
    case True
    then obtain cell0 cell1 v1 p where row: "wi_row v = Some ((cell0, cell1), v1)"
      and steps: "certify_row sql cell0 cell1 rc tb pos = Some p"
      and rest: "certify_rows sql v1 p (rc + 1) (tb + length (c_text cell1) + 1) = Some (v', pos', rc', tb')"
      using "1.prems" by (auto simp: certify_rows.simps [of sql v] split: option.splits)
    obtain node where "wi_message WI_SELECT_VALUES v = Some (node, v1)"
      "certify_scalar_row sql 2 node rc tb strings pos = Some (tb + length (c_text cell1) + 1, strings + 1, p)"
      using pair_row [OF row steps] by blast
    with True "1.IH" [OF _ row refl refl steps rest, of "strings + 1"] show ?thesis
      by (auto simp: certify_scalar_rows.simps [of sql 2 v])
  qed
qed

section \<open>Names\<close>

lemma word_loop_identifier:
  "word_loop cs ws pos = Some pos' \<Longrightarrow> takeWhile (\<lambda>c. wi_identifier_char c False) cs = take (length ws) cs"
proof (induction cs ws pos rule: word_loop.induct)
  case (2 c cs ws pos)
  then show ?case by (cases ws) (auto split: if_splits)
qed simp

lemma scan_while_takeWhile:
  "pos \<le> length sql \<Longrightarrow> scan_while P sql (length sql) pos = pos + length (takeWhile P (drop pos sql))"
proof (induction P sql "length sql" pos rule: scan_while.induct)
  case (1 P sql pos)
  show ?case
  proof (cases "pos < length sql")
    case True
    with 1 show ?thesis
      by (subst scan_while.simps) (simp add: Cons_nth_drop_Suc [symmetric, of pos sql])
  next
    case False
    then show ?thesis by (simp add: scan_while_done)
  qed
qed

text \<open>A word of a source without capital letters stands there with exactly its bytes.\<close>

definition no_capitals :: "string \<Rightarrow> bool" where
  "no_capitals sql = list_all (\<lambda>c. c_tolower c = c) sql"

lemma exact_word:
  assumes "wi_word sql w pos = Some pos'" "no_capitals sql" "pos \<le> length sql"
  shows "wsi_name_word sql w pos = Some pos'"
proof -
  let ?p = "wi_gap sql pos"
  have le: "?p \<le> length sql" using wi_gap_bounds(2) assms(3) by blast
  have start: "?p \<noteq> length sql" "wi_identifier_char (sql ! ?p) True" and loop: "word_loop (drop ?p sql) w ?p = Some pos'"
    using assms(1) by (auto simp: wi_word_def Let_def split: if_splits)
  note spec = word_loop_spec [OF loop]
  have lower: "\<forall>c \<in> set (take (length w) (drop ?p sql)). c_tolower c = c"
    using assms(2) by (auto simp: no_capitals_def list_all_iff dest: in_set_takeD in_set_dropD)
  then have "map (of_char \<circ> c_tolower) (take (length w) (drop ?p sql)) = bytes_of (take (length w) (drop ?p sql))"
    by (simp add: bytes_of_def)
  then have "bytes_of (take (length w) (drop ?p sql)) = w" using spec by simp
  moreover have "scan_while (\<lambda>c. wi_identifier_char c False) sql (length sql) ?p = pos'"
    using scan_while_takeWhile [OF le] word_loop_identifier [OF loop] spec by simp
  ultimately show ?thesis
    using start spec by (simp add: wsi_name_word_def Let_def)
qed

lemma name_elim:
  assumes "wi_name m f g index sql tb pos = Some (name, tb', pos')" "no_capitals sql" "pos \<le> length sql"
  obtains m1 m2 m3 location where "wi_text f m = Some (name, m1)" "persistence index m1 = Some m2"
    "wi_scalar g m2 = Some (location, m3)" "r_bytes m3 = []" "unat location = wi_gap sql pos"
    "wsi_name_word sql name (wi_gap sql pos) = Some pos'" "wsi_add_text tb (length name) = Some tb'"
proof -
  from assms(1) obtain m1 m2 m3 location where fields: "wi_text f m = Some (name, m1)" "persistence index m1 = Some m2"
    "wi_scalar g m2 = Some (location, m3)" "r_bytes m3 = []" "unat location = wi_gap sql pos"
    and word: "wi_word sql name (wi_gap sql pos) = Some pos'" and tb: "\<not> length name \<ge> SIZE_MAX - tb" "tb' = tb + length name + 1"
    by (auto simp: wi_name_def bind_eq_Some_conv Let_def)
  have "wsi_name_word sql name (wi_gap sql pos) = Some pos'"
    by (rule exact_word [OF word assms(2) wi_gap_bounds(2) [OF assms(3)]])
  with fields tb that show thesis by (simp add: wsi_add_text_def)
qed

lemma pair_relation:
  assumes "wi_name relation 3 7 0 sql 0 pos = Some (name, tb, pos')" "no_capitals sql" "pos \<le> length sql"
  shows "\<exists>location. relation_names relation = Some ([None, None, Some name], location) \<and> unat location = wi_gap sql pos"
    "certify_names sql [None, None, Some name] 0 (wi_gap sql pos) = Some (tb, pos')"
proof -
  from assms obtain m1 m2 m3 location where name: "wi_text 3 relation = Some (name, m1)"
    and more: "persistence 0 m1 = Some m2" and loc: "wi_scalar 7 m2 = Some (location, m3)" "r_bytes m3 = []"
      "unat location = wi_gap sql pos"
    and word: "wsi_name_word sql name (wi_gap sql pos) = Some pos'" "wsi_add_text 0 (length name) = Some tb"
    by (rule name_elim)
  have first: "relation = \<lparr>r_at = r_at relation, r_bytes = message_bytes 3 name @ r_bytes m1\<rparr>"
    using name by (simp add: wi_text_exact)
  have keys: "wi_key_is relation 3 2" "\<not> wi_key_is relation 2 2" "\<not> wi_key_is relation 1 2"
    by (subst first, simp add: wi_tag_def)+
  obtain m' node where p: "wi_enum 4 1 m1 = Some m'" "wi_message 5 m' = Some (node, m2)" "r_bytes node = bytes_of ''p''"
    using more by (auto simp: persistence_def bind_eq_Some_conv wi_text_def split: option.splits if_splits)
  show "\<exists>location. relation_names relation = Some ([None, None, Some name], location) \<and> unat location = wi_gap sql pos"
    using keys name p loc by (simp add: relation_names_def optional_name_def)
  show "certify_names sql [None, None, Some name] 0 (wi_gap sql pos) = Some (tb, pos')"
    using word by simp
qed

lemma pair_column:
  assumes "certify_column index p sql ins tb pos = Some (name, ins', tb', pos')" "index \<noteq> 0" "no_capitals sql" "pos \<le> length sql"
    "p = (if k = 0 then CHR '')'' else CHR '','')"
  shows "certify_columns sql (Suc k) ins tb pos = (case certify_columns sql k ins' tb' pos' of
      None \<Rightarrow> None | Some (names, tb'', pos'') \<Rightarrow> Some (name # names, tb'', pos''))"
    "\<exists>c. wi_message WI_INSERT_COLS ins = Some (c, ins')"
proof -
  from assms(1) obtain column target column' tb1 p1 where
    column: "wi_message WI_INSERT_COLS ins = Some (column, ins')"
      "wi_message NODE_RES_TARGET column = Some (target, column')" "r_bytes column' = []" and
    name: "wi_name target 1 4 index sql tb pos = Some (name, tb1, p1)" and
    punct: "wi_punctuation sql p p1 = Some pos'" and tb: "tb' = tb1"
    by (auto simp: certify_column_def bind_eq_Some_conv)
  from column(1) show "\<exists>c. wi_message WI_INSERT_COLS ins = Some (c, ins')" by blast
  from name assms(3,4) obtain m1 m2 m3 location where "wi_text 1 target = Some (name, m1)" "persistence index m1 = Some m2"
    "wi_scalar 4 m2 = Some (location, m3)" "r_bytes m3 = []" "unat location = wi_gap sql pos"
    "wsi_name_word sql name (wi_gap sql pos) = Some p1" "wsi_add_text tb (length name) = Some tb1"
    by (rule name_elim)
  with column punct assms(2) show "certify_columns sql (Suc k) ins tb pos = (case certify_columns sql k ins' tb' pos' of
      None \<Rightarrow> None | Some (names, tb'', pos'') \<Rightarrow> Some (name # names, tb'', pos''))"
    unfolding assms(5) tb
    by (cases "certify_columns sql k ins' tb1 pos'") (auto simp: persistence_def Let_def)
qed

section \<open>The certificate\<close>

lemma pair_guard:
  assumes "certify_guard (Some (wire_handle.truncate h)) = Some (sql, wire)" "h_ops h = Some Mysql_Ops"
  obtains buffer parser_buffer where "scalar_guard (Some h) = Some (buffer, parser_buffer, wire)"
    "h_sql h = Some buffer" "h_parser_sql h = Some parser_buffer" "h_sql_len h = h_parser_sql_len h"
    "sql = take (h_sql_len h) buffer" "take (h_sql_len h + 1) buffer = take (h_sql_len h + 1) parser_buffer"
    "buffer ! h_sql_len h = NUL" "dialect_supports_plain_scalar_insert (Some h)"
proof -
  from assms obtain buffer parser_buffer where
    d: "h_dialect h = MYSQL" "\<not> h_failed h" "h_sql h = Some buffer" "h_parser_sql h = Some parser_buffer"
      "h_parse_tree h = Some wire" and
    g: "\<not> (h_ast h \<or> (h_generation h \<noteq> 0 \<and> \<not> h_source_complete h) \<or>
          h_current_sql h \<or> h_current_parser_sql h \<or> h_control h \<or>
          h_statement_count h \<noteq> 1 \<or> h_sql_len h \<noteq> h_parser_sql_len h \<or>
          h_sql_len h < 192 \<or> h_sql_len h > INT32_MAX \<or> h_sql_len h > PTRDIFF_MAX)" and
    w: "\<not> (length wire = 0 \<or> length wire > UINT32_MAX \<or> length wire > PTRDIFF_MAX \<or>
          h_batch_flags h \<noteq> 0 \<or> edit_items (h_edits h) \<noteq> [] \<or> edit_capacity (h_edits h) \<noteq> 0 \<or>
          h_mutations h \<or> h_spellings h \<or> h_spelling_status h \<noteq> STATUS_OK)" and
    s: "sql = take (h_sql_len h) buffer" "take (h_sql_len h + 1) buffer = take (h_sql_len h + 1) parser_buffer"
      "buffer ! h_sql_len h = NUL"
    by (auto simp: certify_guard_def wire_handle.defs split: if_splits option.splits)
  have supports: "dialect_supports_plain_scalar_insert (Some h)"
    using assms(2) d(1) by (simp add: dialect_supports_plain_scalar_insert_def plain_string_table_def)
  have "scalar_guard (Some h) = Some (buffer, parser_buffer, wire)"
    unfolding scalar_guard_def using supports d g w by (simp only: check_bind) simp
  with that d s g supports show thesis by blast
qed

lemma pair_budget:
  assumes "certify_budget env rc tb" "32 \<le> rc" "rc < 2 ^ 32"
  shows "scalar_budget 0 rc 2 tb" "\<not> (rc > SIZE_MAX div 2 \<or> rc > SIZE_MAX div 4)"
proof -
  have "tb + rc * 4 + 96 \<le> rc * 32"
    using assms(1) by (auto simp: certify_budget_def Let_def sizeof_wire_insert_def)
  with assms(2,3) show "scalar_budget 0 rc 2 tb"
    by (simp add: scalar_budget_def SIZEOF_SCALAR_INSERT_def SIZEOF_NAME_def Let_def)
  show "\<not> (rc > SIZE_MAX div 2 \<or> rc > SIZE_MAX div 4)" using assms(3) by (simp add: SIZE_MAX_def)
qed

lemma row_count_small:
  assumes "certify_rows sql v pos 0 tb = Some (v', pos', rc', tb')" "pos \<le> length sql" "length (r_bytes v) < 2 ^ 32"
  shows "rc' < 2 ^ 32"
proof -
  obtain rows where "r_bytes v = rows_bytes rows @ r_bytes v'" "rc' = length rows"
    using certify_rows_accepts [OF assms(1,2)] by auto
  with rows_bytes_count [of rows] assms(3) show ?thesis by simp
qed

lemma two_column_is_scalar:
  assumes "wire_insert_certify alloc env (Some (wire_handle.truncate h)) = Some c"
    and guard: "certify_guard (Some (wire_handle.truncate h)) = Some (sql, wire)" and ops: "h_ops h = Some Mysql_Ops"
    and lower: "no_capitals sql"
    and allocs: "alloc' 0 (5 * SIZEOF_NAME)" "alloc' 1 SIZEOF_SCALAR_INSERT" "alloc' 2 (i_row_count c * 4)"
  shows "wire_scalar_insert_certify alloc' env (Some h) =
    Some \<lparr>x_compact = None, x_wire = i_wire c, x_sql = sql, x_row_count = i_row_count c, x_column_count = 2,
      x_text_bytes = i_text_bytes c, x_string_count = i_row_count c, x_version = i_version c,
      x_raw_length = i_raw_length c, x_prefix_offset = i_prefix_offset c, x_prefix_length = i_prefix_length c,
      x_row_offsets = i_row_offsets c, x_names = [None, None] @ map Some (i_names c)\<rparr>"
  using assms(1)
proof (rule certify_elim)
  fix sql' wire' version parse raw parse' node raw1 raw_length raw2 ins node' pos1 pos2 relation ins1
    name0 tb0 pos3 pos4 name1 ins2 tb1 pos5 name2 ins3 tb2 pos6 select_node ins4 ins5 vals select_node' pos7
    vals' pos8 row_count tb3 vals1 vals2 pos9 offsets
  assume guard': "certify_guard (Some (wire_handle.truncate h)) = Some (sql', wire')"
    and version: "wi_optional_scalar WI_PARSE_VERSION \<lparr>r_at = 0, r_bytes = wire'\<rparr> = Some (version, parse)"
    and raw: "wi_message WI_PARSE_STMTS parse = Some (raw, parse')" "r_bytes parse' = []"
    and node: "wi_message WI_RAW_STMT raw = Some (node, raw1)"
    and raw_length: "wi_optional_scalar WI_RAW_LENGTH raw1 = Some (raw_length, raw2)" "r_bytes raw2 = []"
    and ins: "wi_message NODE_INSERT_STMT node = Some (ins, node')" "r_bytes node' = []"
    and w: "wi_word sql' (bytes_of ''insert'') 0 = Some pos1" "wi_word sql' (bytes_of ''into'') pos1 = Some pos2"
    and relation: "wi_message WI_INSERT_RELATION ins = Some (relation, ins1)"
    and name: "wi_name relation 3 7 0 sql' 0 pos2 = Some (name0, tb0, pos3)"
    and open_paren: "wi_punctuation sql' (CHR ''('') pos3 = Some pos4"
    and col1: "certify_column 1 (CHR '','') sql' ins1 tb0 pos4 = Some (name1, ins2, tb1, pos5)"
    and col2: "certify_column 2 (CHR '')'') sql' ins2 tb1 pos5 = Some (name2, ins3, tb2, pos6)"
    and select: "wi_message WI_INSERT_SELECT ins3 = Some (select_node, ins4)"
    and override: "wi_enum WI_INSERT_OVERRIDE 1 ins4 = Some ins5" "r_bytes ins5 = []"
    and vals: "wi_message NODE_SELECT_STMT select_node = Some (vals, select_node')" "r_bytes select_node' = []"
    and w3: "wi_word sql' (bytes_of ''values'') pos6 = Some pos7"
    and rows: "certify_rows sql' vals pos7 0 tb2 = Some (vals', pos8, row_count, tb3)" "32 \<le> row_count"
    and tail: "wi_enum WI_SELECT_LIMIT 1 vals' = Some vals1" "wi_enum WI_SELECT_OP 1 vals1 = Some vals2" "r_bytes vals2 = []"
    and fin: "certify_end sql' raw_length pos8 = Some pos9"
      "\<not> (pos9 \<noteq> length sql' \<or> \<not> e_plain_strings env row_count \<or> \<not> e_schemas_match env)"
    and budget: "certify_budget env row_count tb3"
    and offsets: "index_rows row_count vals = Some offsets"
    and c: "c = \<lparr>i_wire = Some wire', i_row_count = row_count, i_text_bytes = tb3, i_version = version,
           i_raw_length = raw_length, i_prefix_offset = of_nat (r_at ins),
           i_prefix_length = of_nat (r_at ins3) - of_nat (r_at ins),
           i_names = [name0, name1, name2], i_row_offsets = Some offsets\<rparr>"
  have same: "sql' = sql" "wire' = wire" using guard guard' by simp_all
  note names = name [unfolded same] open_paren [unfolded same] col1 [unfolded same] col2 [unfolded same]
    w [unfolded same] w3 [unfolded same]
  have le: "pos2 \<le> length sql" "pos4 \<le> length sql" "pos5 \<le> length sql" "pos7 \<le> length sql"
    by (meson names wi_word_bounds(2) wi_name_bounds wi_punctuation_bounds(2) certify_column_bounds le0)+
  obtain location where table: "relation_names relation = Some ([None, None, Some name0], location)"
    "unat location = wi_gap sql pos2" "certify_names sql [None, None, Some name0] 0 (wi_gap sql pos2) = Some (tb0, pos3)"
    using pair_relation [OF names(1) lower le(1)] by blast
  note step1 = pair_column [OF names(3) _ lower le(2), of 1]
  note step2 = pair_column [OF names(4) _ lower le(3), of 0]
  have columns: "certify_columns sql 2 ins1 tb0 pos4 = Some ([name1, name2], tb2, pos6)"
    using step1(1) step2(1) by (simp add: numeral_2_eq_2)
  obtain c1 c2 where cols: "wi_message WI_INSERT_COLS ins1 = Some (c1, ins2)" "wi_message WI_INSERT_COLS ins2 = Some (c2, ins3)"
    using step1(2) step2(2) by auto
  have key: "wi_key_is r f 2 \<longleftrightarrow> wi_tag f 2 = wi_tag g 2" if "wi_message g r = Some (x, r')" for r f g x r'
  proof -
    have "r = \<lparr>r_at = r_at r, r_bytes = message_bytes g (r_bytes x) @ r_bytes r'\<rparr>"
      using that by (simp add: wi_message_exact)
    then show ?thesis by (metis key_is_message)
  qed
  have count: "count_columns ins1 0 = Some (ins3, 2)"
    using key [OF cols(1), of WI_INSERT_COLS] key [OF cols(2), of WI_INSERT_COLS] key [OF select, of WI_INSERT_COLS] cols
    by (simp add: count_columns.simps [of ins1] count_columns.simps [of ins2] count_columns.simps [of ins3] wi_tag_def)
  define g where "g = \<lparr>g_version = version, g_raw_length = raw_length, g_prefix_offset = of_nat (r_at ins),
    g_prefix_length = of_nat (r_at ins3) - of_nat (r_at ins), g_column_count = 2,
    g_names = [None, None, Some name0] @ map Some [name1, name2], g_text_bytes = tb2, g_values = vals, g_pos = pos7\<rparr>"
  have header: "scalar_header alloc' (\<lambda>columns _. \<not> (columns = 0 \<or> columns > SIZE_MAX div SIZEOF_NAME - 3)) sql wire = Some g"
    using version raw node raw_length ins names relation count select override vals allocs(1) table columns
    unfolding same scalar_header_def Let_def by (simp add: g_def SIZE_MAX_def SIZEOF_NAME_def)
  have vals_small: "length (r_bytes vals) < 2 ^ 32"
    using vals(1) by (simp add: wi_message_exact)
  have small: "row_count < 2 ^ 32"
    using row_count_small [OF rows(1) [unfolded same] le(4) vals_small] .
  have scalar_rows: "certify_scalar_rows sql 2 vals 0 tb2 0 pos7 = Some (vals', row_count, tb3, row_count, pos8)"
    using pair_rows [OF rows(1) [unfolded same], of 0] by simp
  obtain buffer parser_buffer where h: "scalar_guard (Some h) = Some (buffer, parser_buffer, wire)"
    "h_sql h = Some buffer" "h_parser_sql h = Some parser_buffer" "h_sql_len h = h_parser_sql_len h"
    "sql = take (h_sql_len h) buffer" "take (h_sql_len h + 1) buffer = take (h_sql_len h + 1) parser_buffer"
    "buffer ! h_sql_len h = NUL" "dialect_supports_plain_scalar_insert (Some h)"
    by (rule pair_guard [OF guard ops])
  have "take (h_sql_len h) buffer = take (h_sql_len h) parser_buffer"
    using arg_cong [OF h(6), of "take (h_sql_len h)"] by simp
  then have plain: "dialect_state_is_plain_insert_strings env (Some h) row_count"
    using h(2-4,8) fin(2) by (simp add: dialect_state_is_plain_insert_strings_def)
  have count_c: "i_row_count c = row_count" by (simp add: c)
  show ?thesis
    using h(1,6,7) header scalar_rows rows(2) tail fin plain pair_budget [OF budget rows(2) small] allocs(2,3) offsets
    unfolding wire_scalar_insert_certify_def count_c
    by (simp add: h(5) [symmetric] same g_def check_def scalar_description_def c del: length_take)
qed

section \<open>The packers\<close>

text \<open>The scalar certificate of a two-column certificate, and its rows.\<close>

definition scalar_of :: "string \<Rightarrow> wire_insert \<Rightarrow> scalar_insert" where
  "scalar_of sql c =
     \<lparr>x_compact = None, x_wire = i_wire c, x_sql = sql, x_row_count = i_row_count c, x_column_count = 2,
      x_text_bytes = i_text_bytes c, x_string_count = i_row_count c, x_version = i_version c,
      x_raw_length = i_raw_length c, x_prefix_offset = i_prefix_offset c, x_prefix_length = i_prefix_length c,
      x_row_offsets = i_row_offsets c, x_names = [None, None] @ map Some (i_names c)\<rparr>"

lemma pair_row_bytes: "scalar_row_bytes (pair_cells cs) = row_bytes cs"
  by (simp add: scalar_row_bytes_def row_bytes_def list_bytes_def pair_cells_def pair_bytes)

lemma pair_rows_bytes: "scalar_rows_bytes (map pair_cells rows) = rows_bytes rows"
  by (induction rows) (simp_all add: pair_row_bytes)

lemma pair_row_good: "good_row cs \<Longrightarrow> good_scalar_row 2 (pair_cells cs)"
  by (simp add: good_row_def good_scalar_row_def pair_cells_def pair_good list_bytes_def pair_bytes)

lemma scalar_of_prefix: "scalar_prefix (scalar_of sql c) = wire_prefix c"
  by (simp add: scalar_prefix_def wire_prefix_def scalar_of_def)

lemma scalar_of_fields:
  "x_sql (scalar_of sql c) = sql" "x_row_count (scalar_of sql c) = i_row_count c" "x_version (scalar_of sql c) = i_version c"
  "x_raw_length (scalar_of sql c) = i_raw_length c" "x_column_count (scalar_of sql c) = 2"
  "x_wire (scalar_of sql c) = i_wire c" "x_string_count (scalar_of sql c) = i_row_count c"
  "x_text_bytes (scalar_of sql c) = i_text_bytes c"
  by (simp_all add: scalar_of_def)

lemma scalar_of_describes:
  assumes "describes c rows"
  shows "scalar_describes (scalar_of sql c) (map pair_cells rows)"
  using assms unfolding scalar_describes_def describes_def pair_rows_bytes scalar_of_prefix
  by (auto simp: scalar_of_def list_all_iff pair_row_good pair_row_bytes)

text \<open>What a list of edits adds to the length of the source.\<close>

definition edits_growth :: "source_edit list \<Rightarrow> int" where
  "edits_growth edits = (\<Sum>e \<leftarrow> edits. int (replacement_length e) - (int (source_end e) - int (source_start e)))"

lemma edits_growth_take:
  "i < length edits \<Longrightarrow> edits_growth (take (Suc i) edits) = edits_growth (take i edits) +
     (int (replacement_length (edits ! i)) - (int (source_end (edits ! i)) - int (source_start (edits ! i))))"
  by (simp add: edits_growth_def take_Suc_conv_app_nth)

lemma shift_row_growth:
  assumes "shift_row edits i d cs = Some (cs', i', d')"
  shows "d' - edits_growth (take i' edits) = d - edits_growth (take i edits)"
  using assms
  by (auto simp: shift_row_def Let_def bind_eq_Some_conv edits_growth_take split: if_splits)

lemma edit_rows_growth:
  "edit_rows edits rows i d = Some (rows', i', d') \<Longrightarrow>
     d' - edits_growth (take i' edits) = d - edits_growth (take i edits)"
proof (induction rows arbitrary: rows' i d)
  case (Cons cs rows)
  then show ?case by (fastforce simp: bind_eq_Some_conv dest: shift_row_growth)
qed simp

lemma shift_pair:
  assumes "shift_row edits i d cs = Some (cs', i', d')" "exact_edits edits"
    and "0 \<le> c_location (fst cs)" "c_location (fst cs) < c_location (snd cs)"
  shows "edit_cells edits (pair_cells cs) i d = Some (pair_cells cs', i', d')"
proof -
  have interior: "length (bytes_of (edit_interior (edits ! i))) = replacement_length (edits ! i) - 2" if "i < length edits"
    using assms(2) that by (simp add: nth_mem bytes_of_def)
  have less: "nat (c_location (fst cs)) < nat (c_location (snd cs))" using assms(3,4) by simp
  show ?thesis
    using assms(1) interior less
    by (auto simp: shift_row_def wsi_effective_cell_def pair_cells_def int_cell_def string_cell_def Let_def bind_eq_Some_conv
        split: if_splits)
qed

lemma rows_at_ordered:
  "rows_at sql pos rows \<Longrightarrow> cs \<in> set rows \<Longrightarrow> 0 \<le> c_location (fst cs) \<and> c_location (fst cs) < c_location (snd cs)"
proof (induction rows arbitrary: pos)
  case (Cons r rows)
  have "c_location (fst r) < c_location (snd r)"
    using Cons.prems(1) by (auto simp: integer_at_def Let_def)
  with Cons show ?case by auto
qed simp

lemma edit_rows_of_pairs:
  "edit_rows edits rows i d = Some (rows', i', d') \<Longrightarrow> exact_edits edits \<Longrightarrow> rows_at sql pos rows \<Longrightarrow>
     edit_scalar_rows edits (map pair_cells rows) i d = Some (map pair_cells rows', i', d')"
proof (induction rows arbitrary: rows' i d pos)
  case (Cons cs rows)
  obtain cs' j e rest where step: "shift_row edits i d cs = Some (cs', j, e)"
    and rest: "edit_rows edits rows j e = Some (rest, i', d')" "rows' = cs' # rest"
    using Cons.prems(1) by (auto simp: bind_eq_Some_conv)
  have "edit_cells edits (pair_cells cs) i d = Some (pair_cells cs', j, e)"
    using rows_at_ordered [OF Cons.prems(3), of cs] by (intro shift_pair [OF step Cons.prems(2)]) simp_all
  moreover have "edit_scalar_rows edits (map pair_cells rows) j e = Some (map pair_cells rest, i', d')"
    by (rule Cons.IH [OF rest(1) Cons.prems(2)]) (use Cons.prems(3) in \<open>auto simp only: rows_at.simps\<close>)
  ultimately show ?case using rest(2) by simp
qed simp

lemma pack_of_pairs:
  assumes "describes c rows" "rows_at sql pos rows"
    and "wi_pack alloc (Some c) (Some es) True proven = Inr out"
    and "in_int32 (int (length sql) + edits_growth (edit_items es))"
    and "alloc' 0 (i_row_count c * 4)" "alloc' 2 (length out)"
  shows "wsi_pack alloc' (Some (scalar_of sql c)) (Some es) True proven = Inr out"
proof -
  have guard: "pack_guard c es proven" and packed: "packed_wire c (edit_items es) = Some out"
    using assms(3) by (auto simp: pack_spec split: if_splits option.splits)
  have edits: "wi_edits es proven" and many: "32 \<le> i_row_count c"
    using guard by (auto simp: pack_guard_def split: option.splits)
  have count: "i_row_count c = length rows" using assms(1) by (auto simp: describes_def)
  have exact: "exact_edits (edit_items es)"
    using edits edits_loop_exact unfolding wi_edits_def by (fastforce split: if_splits)
  obtain rows' d rl where rows': "edit_rows (edit_items es) rows 0 0 = Some (rows', length (edit_items es), d)"
    and rl: "shifted_raw_length (i_raw_length c) d = Some rl"
    and out: "out = wire_bytes (i_version c) (wire_prefix c) (rows_bytes rows') rl" "length out < 2 ^ 32"
    using packed effective_rows_described [OF assms(1), of 0 "edit_items es" 0 0] count
    by (auto simp: packed_wire_def Let_def bind_eq_Some_conv)
  have "d = edits_growth (edit_items es)" using edit_rows_growth [OF rows'] by (simp add: edits_growth_def)
  then have "packed_scalar_wire proven (scalar_of sql c) (edit_items es) = Some out"
    unfolding packed_described [OF scalar_of_describes [OF assms(1)]] edit_rows_of_pairs [OF rows' exact assms(2)]
    unfolding scalar_of_prefix pair_rows_bytes using assms(4) rl out by (simp add: scalar_of_fields Let_def pair_rows_bytes [simplified])
  moreover have "wsi_pack_guard (scalar_of sql c) es proven"
    by (rule described_scalar_guard [OF scalar_of_describes [OF assms(1)] _ _ edits])
      (use many count in \<open>simp_all add: scalar_of_fields\<close>)
  ultimately show ?thesis using assms(5,6) by (simp add: wsi_pack_spec scalar_of_fields)
qed

end
