(* ===== verification/Scalar_Statement.thy ===== *)
theory Scalar_Statement
  imports Scalar_Columns
begin

text \<open>
  The properties of scalar INSERT certificates, each applied to the sample statement, which has a
  scalar certificate because it has a two-column one.
\<close>

section \<open>The packer\<close>

text \<open>
  C14.  The packer of a scalar certificate, on every descriptor, every list of edits and every
  pattern of failing allocations.  Past its guards it returns the canonical encoding of the statement
  with the cells after the edits, whenever every edit meets a string cell, every value function is
  known and the result fits; otherwise it is unsupported.  The internal error never happens, and
  whether the plan of measured cells (allocation 1) was kept or dropped makes no difference.
\<close>

theorem scalar_pack_is_packed_wire:
  "wsi_pack alloc (Some ins) (Some es) True proven =
     (if wsi_pack_guard ins es proven \<and> alloc 0 (x_row_count ins * 4)
      then (case packed_scalar_wire proven ins (edit_items es) of
              None \<Rightarrow> Inl UNSUPPORTED
            | Some bytes \<Rightarrow> if alloc 2 (length bytes) then Inr bytes else Inl NO_MEMORY)
      else Inl UNSUPPORTED)"
  by (simp add: wsi_pack_spec)

text \<open>
  C30.  The unchecked writer of planned cells stays within the room it has reserved.  For every cell
  that was read, edited and measured, and every state of the output, writing the planned cell does
  what the checked writer does; and when the reserved envelope fits, exactly that many bytes are
  written, the canonical encoding of the cell, although no byte is checked against the end of the
  buffer.
\<close>

theorem planned_cell_stays_in_its_room:
  assumes "wsi_read_cell certified list = Some (c0, list')"
    and "wsi_effective_cell edits index delta c0 = Some (c, index', delta')" "edits_loop proven pos edits"
    and "wsi_measure_cell c = Some z"
  shows "wsi_write_planned_cell (wsi_plan_cell c z) w = wsi_write_cell c z w \<and>
    wi_envelope WI_LIST_ITEMS (z_node z) = length (scalar_cell_bytes c) \<and>
    (if wi_envelope WI_LIST_ITEMS (z_node z) \<le> w_room w
     then wsi_write_planned_cell (wsi_plan_cell c z) w = emit (scalar_cell_bytes c) w else True)"
proof -
  have packable: "packable_scalar c"
    by (rule effective_cell_packable [OF assms(2) read_cell_payload [OF assms(1)] edits_loop_exact [OF assms(3)]])
  then have z: "z = scalar_sizes c" "length (scalar_node_bytes c) < 2 ^ 32"
    using assms(4) by (auto simp: measure_scalar_spec split: if_splits)
  then have "wi_envelope WI_LIST_ITEMS (z_node z) = length (scalar_cell_bytes c)"
    by (simp add: scalar_sizes_def cell_of_node)
  with planned_writer [OF packable z(2), of w] writes_emit [OF writes_scalar_cell [OF packable], of w] z(1)
  show ?thesis by simp
qed

section \<open>Certificates\<close>

text \<open>
  C13.  What a strict scalar certificate promises.  There are at least 32 rows; the wire is their
  canonical encoding and nothing else; in the source every cell, number, string or value function,
  stands in order where its location says; and the accessors that check every byte and those that
  trust the certificate agree on every row and every cell, in range or not.
\<close>

theorem certified_scalar_cells_stand_in_source:
  assumes "wire_scalar_insert_certify alloc env handle = Some c"
  shows "(\<exists>rows. 32 \<le> length rows \<and> x_row_count c = length rows \<and>
      x_wire c = Some (wire_bytes (x_version c) (scalar_prefix c) (scalar_rows_bytes rows) (x_raw_length c)) \<and>
      stand_in (x_sql c) 0 (concat rows) (length (x_sql c))) \<and>
    wire_scalar_insert_certified_row (Some c) i = wire_scalar_insert_row (Some c) i \<and>
    wire_scalar_insert_certified_cell (Some c) i j = wire_scalar_insert_cell (Some c) i j"
proof -
  obtain rows where rows: "scalar_describes c rows" "stand_in (x_sql c) 0 (concat rows) (length (x_sql c))" "32 \<le> length rows"
    by (rule scalar_certify_describes [OF assms])
  have fields: "x_row_count c = length rows" "x_compact c = None"
    "x_wire c = Some (wire_bytes (x_version c) (scalar_prefix c) (scalar_rows_bytes rows) (x_raw_length c))"
    using rows(1) by (auto simp: scalar_describes_def)
  have beyond: "wsi_read_row certified (Some c) i = None" if "\<not> i < length rows" for certified
    using that fields(1)
    by (simp add: wsi_read_row_def wsi_row_reader_def wsi_certified_row_reader_def scalar_row_start_def split: option.split)
  have "wire_scalar_insert_certified_row (Some c) i = wire_scalar_insert_row (Some c) i"
  proof (cases "i < length rows")
    case True
    then show ?thesis by (simp only: described_row_accessors [OF rows(1)])
  next
    case False
    then show ?thesis
      by (simp add: fields(2) beyond wire_scalar_insert_certified_row_def wire_scalar_insert_row_def
          described_strict_bounded(1) check_def)
  qed
  moreover have "wire_scalar_insert_certified_cell (Some c) i j = wire_scalar_insert_cell (Some c) i j"
  proof (cases "i < length rows \<and> j < x_column_count c")
    case True
    then show ?thesis by (simp add: described_cell_accessors [OF rows(1)])
  next
    case False
    then show ?thesis
      by (auto simp: wire_scalar_insert_certified_cell_def wire_scalar_insert_cell_def fields(2) beyond check_def
          described_strict_bounded(1))
  qed
  ultimately show ?thesis using rows fields by blast
qed

text \<open>
  The two entry points of the scalar packer agree.  On a strict certificate the defensive one,
  which reads every byte of the rows and of the replacements again, returns what the one that trusts
  the certificate and the proved edits returns, on all edits whose replacements are plain; on all
  others it is unsupported.
\<close>

lemma scalar_pack_entries_agree:
  assumes "wire_scalar_insert_certify alloc env handle = Some c"
  shows "wire_scalar_insert_pack alloc' (Some c) (Some es) True =
    (if wi_edits es False then wire_scalar_insert_pack_proven_edits alloc' (Some c) (Some es) True else Inl UNSUPPORTED)"
proof -
  obtain rows where rows: "scalar_describes c rows" by (rule scalar_certify_describes [OF assms])
  have "edits_loop False pos items \<Longrightarrow> edits_loop True pos items" for pos items
    by (induction items arbitrary: pos) (auto split: if_splits option.splits)
  then have weaker: "wi_edits es False \<Longrightarrow> wi_edits es True" by (auto simp: wi_edits_def split: if_splits)
  then have "wsi_pack_guard c es False = (wi_edits es False \<and> wsi_pack_guard c es True)"
    by (auto simp: wsi_pack_guard_def split: option.splits)
  then show ?thesis
    unfolding wire_scalar_insert_pack_def wire_scalar_insert_pack_proven_edits_def wsi_pack_spec
      packed_described [OF rows]
    by simp
qed

lemma scalar_certificate_source:
  "wire_scalar_insert_certify alloc env handle = Some c \<Longrightarrow> length (x_sql c) \<le> INT32_MAX"
  by (elim scalar_certify_elim) (auto simp: scalar_description_def scalar_guard_def bind_eq_Some_conv split: if_splits)

text \<open>
  C34.  A scalar certificate packs to its own wire: with no edits pending, and with memory, the packer
  writes back byte for byte the wire that was certified.
\<close>

theorem unedited_scalar_certificate_packs_to_its_wire:
  assumes "wire_scalar_insert_certify alloc env handle = Some c" "x_wire c = Some wire"
    and "alloc' 0 (x_row_count c * 4)" "alloc' 2 (length wire)"
  shows "wsi_pack alloc' (Some c) (Some no_edits) True proven = Inr wire"
proof -
  obtain rows where rows: "scalar_describes c rows" "stand_in (x_sql c) 0 (concat rows) (length (x_sql c))"
    "32 \<le> length rows" "0 < x_column_count c"
    by (rule scalar_certify_describes [OF assms(1)])
  moreover have "x_row_count c = length rows" using rows(1) by (auto simp: scalar_describes_def)
  ultimately show ?thesis
    using scalar_pack_unedited [OF rows(1,2) scalar_certificate_source [OF assms(1)] rows(3,4) assms(2)] assms(3,4) by simp
qed

text \<open>
  C12.  Scalar packing and the surface agree.  When the packer accepts the edits of a certified
  statement and the surface restores the source by the same edits, every cell of the packed wire
  stands, in order, where its location says in the restored source.
\<close>

theorem packed_scalar_cells_stand_in_restored_source:
  assumes "wire_scalar_insert_certify alloc env handle = Some c" "edits_inv es"
    and "wsi_pack alloc' (Some c) (Some es) True proven = Inr out"
    and "restore_source_edits alloc'' (x_sql c) (length (x_sql c)) limit es = Inr t"
  shows "\<exists>rows rl. out = wire_bytes (x_version c) (scalar_prefix c) (scalar_rows_bytes rows) rl \<and>
    length rows = x_row_count c \<and> stand_in t 0 (concat rows) (length t)"
proof -
  obtain rows where rows: "scalar_describes c rows" "stand_in (x_sql c) 0 (concat rows) (length (x_sql c))"
    by (rule scalar_certify_describes [OF assms(1)])
  obtain rows' rl where "out = wire_bytes (x_version c) (scalar_prefix c) (scalar_rows_bytes rows') rl"
      "length rows' = length rows" "stand_in t 0 (concat rows') (length t)"
    by (rule packed_cells_restored [OF rows assms(2-4)])
  then show ?thesis using rows(1) by (auto simp: scalar_describes_def)
qed

text \<open>
  C31.  The certificate from the native parser is the strict one.  Where both constructors give a
  certificate for a handle, the one that skips the cells differs at most in the two totals it takes
  from the attestation; the rows, their number, their offsets and everything around them are the same.
\<close>

theorem native_certificate_is_strict:
  assumes "wire_scalar_insert_certify alloc env handle = Some c"
    and "wire_scalar_insert_from_native alloc' env' handle = Some d"
  shows "d = c\<lparr>x_text_bytes := x_text_bytes d, x_string_count := x_string_count d\<rparr>"
  using assms by (rule native_is_strict)

text \<open>
  C33.  The two-column certificate is a special case of the scalar one.  For a MySQL handle whose
  source has no capital letters, whatever the narrow certifier accepts the general one accepts, with
  the same rows at the same offsets, the same prefix and the same names; its storage bound never
  stands in the way.
\<close>

theorem two_column_certificate_is_scalar:
  assumes "wire_insert_certify alloc env (Some (wire_handle.truncate h)) = Some c"
    and "certify_guard (Some (wire_handle.truncate h)) = Some (sql, wire)" "h_ops h = Some Mysql_Ops" "no_capitals sql"
    and "alloc' 0 (5 * SIZEOF_NAME)" "alloc' 1 SIZEOF_SCALAR_INSERT" "alloc' 2 (i_row_count c * 4)"
  shows "wire_scalar_insert_certify alloc' env (Some h) =
    Some \<lparr>x_compact = None, x_wire = i_wire c, x_sql = sql, x_row_count = i_row_count c, x_column_count = 2,
      x_text_bytes = i_text_bytes c, x_string_count = i_row_count c, x_version = i_version c,
      x_raw_length = i_raw_length c, x_prefix_offset = i_prefix_offset c, x_prefix_length = i_prefix_length c,
      x_row_offsets = i_row_offsets c, x_names = [None, None] @ map Some (i_names c)\<rparr>"
  using assms by (rule two_column_is_scalar)

text \<open>
  C32.  On two-column certificates the scalar packer is the narrow one.  Whenever the packer of the
  two-column certificate accepts a list of edits, the packer of the corresponding scalar certificate
  accepts it and returns the same bytes, provided the edited source still fits 32 bits, which only
  the scalar packer tests.
\<close>

theorem two_column_pack_is_scalar_pack:
  assumes "wire_insert_certify alloc env handle = Some c" "certify_guard handle = Some (sql, wire)"
    and "wi_pack alloc' (Some c) (Some es) True proven = Inr out"
    and "in_int32 (int (length sql) + edits_growth (edit_items es))"
    and "alloc'' 0 (i_row_count c * 4)" "alloc'' 2 (length out)"
  shows "wsi_pack alloc'' (Some (scalar_of sql c)) (Some es) True proven = Inr out"
proof -
  obtain rows where "describes c rows" "rows_at sql 0 rows"
    by (rule certify_describes [OF assms(1)]) (use assms(2) that in simp)
  then show ?thesis by (rule pack_of_pairs [OF _ _ assms(3-6)])
qed

section \<open>The sample statement\<close>

definition sample_provenance :: "int \<Rightarrow> nat \<Rightarrow> native_provenance" where
  "sample_provenance statement_length text_bytes =
     \<lparr>n_sql_bound = True, n_wire_bound = True, n_wire_length = length sample_wire, n_source_length = 279,
      n_row_count = 32, n_column_count = 2, n_string_count = 32, n_text_bytes = text_bytes,
      n_statement_length = statement_length\<rparr>"

definition sample_scalar_handle :: "int \<Rightarrow> nat \<Rightarrow> scalar_handle" where
  "sample_scalar_handle statement_length text_bytes = wire_handle.extend sample_handle
     \<lparr>h_ops = Some Mysql_Ops, h_sql_shared = True, h_provenance = Some (sample_provenance statement_length text_bytes),
      h_compact = None\<rparr>"

lemma sample_truncate [simp]: "wire_handle.truncate (sample_scalar_handle n m) = sample_handle"
  by (simp add: sample_scalar_handle_def wire_handle.defs)

lemma sample_fields [simp]:
  "h_ops (sample_scalar_handle n m) = Some Mysql_Ops" "h_sql_shared (sample_scalar_handle n m)"
  "h_provenance (sample_scalar_handle n m) = Some (sample_provenance n m)"
  "h_dialect (sample_scalar_handle n m) = MYSQL" "h_generation (sample_scalar_handle n m) = 0"
  "h_sql_len (sample_scalar_handle n m) = length sample_sql" "h_parse_tree (sample_scalar_handle n m) = Some sample_wire"
  by (simp_all add: sample_scalar_handle_def wire_handle.defs scalar_handle.defs sample_handle_def)

lemma sample_lower: "no_capitals sample_sql"
proof -
  have "no_capitals (rows_source n (replicate k (''7'', ''x'')))" for n k
    by (induction k arbitrary: n) (simp_all add: no_capitals_def separator_def row_source_def c_tolower_def)
  then have "no_capitals (rows_source 0 sample_rows)" unfolding sample_rows_def .
  then show ?thesis by (simp add: sample_sql_def insert_source_def no_capitals_def c_tolower_def)
qed

lemma sample_scalar:
  obtains c where "\<And>n m. wire_scalar_insert_certify (\<lambda>_ _. True) sample_env (Some (sample_scalar_handle n m)) =
       Some (scalar_of sample_sql c)"
    "wire_insert_certify (\<lambda>_ _. True) sample_env (Some sample_handle) = Some c" "describes c sample_cells"
    "length (wire_prefix c) \<le> 4311" "i_raw_length c = 0" "i_text_bytes c = 70" "i_row_count c = 32"
    "i_wire c = Some sample_wire"
proof -
  obtain c where c: "wire_insert_certify (\<lambda>_ _. True) sample_env (Some sample_handle) = Some c"
    "describes c sample_cells" "length (wire_prefix c) \<le> 4311" "i_raw_length c = 0" "i_text_bytes c = 70"
    by (rule sample_certificate)
  have wire: "i_wire c = Some sample_wire" by (rule certify_describes [OF c(1)]) (use sample_guard in simp)
  have count: "i_row_count c = 32" using c(2) by (auto simp: describes_def sample_texts)
  show thesis
  proof (rule that [OF _ c count wire])
    show "wire_scalar_insert_certify (\<lambda>_ _. True) sample_env (Some (sample_scalar_handle n m)) =
       Some (scalar_of sample_sql c)" for n m
      unfolding scalar_of_def
      using c(1) sample_guard sample_lower by (intro two_column_is_scalar [where wire = sample_wire]) simp_all
  qed
qed

lemma sample_native:
  assumes "wire_scalar_insert_certify (\<lambda>_ _. True) sample_env (Some (sample_scalar_handle 0 70)) = Some (scalar_of sample_sql c)"
    and "i_raw_length c = 0" "i_text_bytes c = 70" "i_row_count c = 32"
  shows "wire_scalar_insert_from_native (\<lambda>_ _. True) sample_env (Some (sample_scalar_handle 0 70)) = Some (scalar_of sample_sql c)"
proof (rule native_accepts [OF assms(1)])
  show "native_guard sample_env (Some (sample_scalar_handle 0 70)) = Some (sample_provenance 0 70)"
    by (simp add: native_guard_def sample_provenance_def native_validation_table_def sample_sql_length sample_env_def
        UINT32_MAX_def SIZE_MAX_def SIZEOF_NAME_def)
  show "scalar_budget SIZEOF_PROVENANCE (x_row_count (scalar_of sample_sql c)) (x_column_count (scalar_of sample_sql c))
      (x_text_bytes (scalar_of sample_sql c))"
    using assms(2-4) by (simp add: scalar_of_def scalar_budget_def SIZEOF_PROVENANCE_def SIZEOF_SCALAR_INSERT_def
        SIZEOF_NAME_def SIZE_MAX_def Let_def)
qed (use assms(2-4) in \<open>simp_all add: sample_provenance_def scalar_of_def\<close>)

lemma sample_scalar_packed:
  assumes "describes c sample_cells" "length (wire_prefix c) \<le> 4311"
    and "wire_insert_certify (\<lambda>_ _. True) sample_env (Some sample_handle) = Some c"
  obtains out where "wi_pack (\<lambda>_ _. True) (Some c) (Some sample_edits) True False = Inr out"
    "wsi_pack (\<lambda>_ _. True) (Some (scalar_of sample_sql c)) (Some sample_edits) True False = Inr out"
proof -
  obtain out where out: "wi_pack (\<lambda>_ _. True) (Some c) (Some sample_edits) True False = Inr out"
    using sample_packed [OF assms(1,2)] by blast
  moreover have "in_int32 (int (length sample_sql) + edits_growth (edit_items sample_edits))"
    by (simp add: sample_sql_length sample_edits_def edits_growth_def in_int32_def INT32_MAX_def)
  moreover obtain rows where "describes c rows" "rows_at sample_sql 0 rows"
    by (rule certify_describes [OF assms(3)]) (use sample_guard that in simp)
  ultimately show thesis
    using that pack_of_pairs [of c rows sample_sql 0 "\<lambda>_ _. True" sample_edits False out "\<lambda>_ _. True"] by simp
qed

lemma string_node_length: "length (scalar_node_bytes (string_cell c)) \<le> length (c_text c) + 50"
proof -
  have "length (node_bytes 1 c) \<le> length (cell_bytes 1 c)" by (simp add: cell_bytes_def message_bytes_def)
  with cell_bytes_length [of 1 c] show ?thesis by (simp add: pair_bytes)
qed

theorem planned_cell_stays_in_its_room_witness:
  "let c = \<lparr>s_text = bytes_of ''x'', s_length = 1, s_integer = 0, s_location = 27, s_kind = SCALAR_STRING\<rparr>;
     edited = \<lparr>s_text = bytes_of ''y'', s_length = 1, s_integer = 0, s_location = 27, s_kind = SCALAR_STRING\<rparr>
   in wsi_effective_cell (edit_items sample_edits) 0 0 c = Some (edited, 1, 0) \<and>
     (\<forall>w. wsi_write_planned_cell (wsi_plan_cell edited (scalar_sizes edited)) w =
       wsi_write_cell edited (scalar_sizes edited) w)"
proof -
  let ?c = "\<lparr>s_text = bytes_of ''x'', s_length = 1, s_integer = 0, s_location = 27, s_kind = SCALAR_STRING\<rparr>"
  let ?edited = "\<lparr>s_text = bytes_of ''y'', s_length = 1, s_integer = 0, s_location = 27, s_kind = SCALAR_STRING\<rparr>"
  have small: "length (scalar_node_bytes ?c) < 2 ^ 32" "length (scalar_node_bytes ?edited) < 2 ^ 32"
    using string_node_length [of "\<lparr>c_text = bytes_of ''x'', c_integer = 0, c_location = 27\<rparr>"]
      string_node_length [of "\<lparr>c_text = bytes_of ''y'', c_integer = 0, c_location = 27\<rparr>"]
    by (simp_all add: string_cell_def bytes_of_def)
  then have "good_scalar ?c" by (simp add: good_scalar_def good_value_def bytes_of_def INT32_MAX_def)
  then have read: "wsi_read_cell False \<lparr>r_at = 0, r_bytes = scalar_cell_bytes ?c @ []\<rparr> =
      Some (?c, \<lparr>r_at = 0 + length (scalar_cell_bytes ?c), r_bytes = []\<rparr>)"
    unfolding wsi_read_cell_def using wsi_cell_reads [of ?c 0 "[]"] by simp
  have edit: "wsi_effective_cell (edit_items sample_edits) 0 0 ?c = Some (?edited, 1, 0)"
    by (simp add: wsi_effective_cell_def sample_edits_def in_int32_def INT32_MAX_def edit_interior_def bytes_of_def Let_def)
  have loop: "edits_loop False 0 (edit_items sample_edits)"
    using sample_edits_valid(3) [of False] by (simp add: wi_edits_def sample_edits_def)
  have measure: "wsi_measure_cell ?edited = Some (scalar_sizes ?edited)"
    using small measure_scalar_spec [of ?edited]
    by (simp add: packable_scalar_def known_function_def in_int32_def INT32_MAX_def bytes_of_def)
  from planned_cell_stays_in_its_room [OF read edit loop measure] edit show ?thesis by (simp add: Let_def)
qed

theorem certified_scalar_cells_stand_in_source_witness:
  "\<exists>c. wire_scalar_insert_certify (\<lambda>_ _. True) sample_env (Some (sample_scalar_handle 0 70)) = Some c \<and>
     x_row_count c = 32 \<and> wire_scalar_insert_certified_cell (Some c) 3 1 = wire_scalar_insert_cell (Some c) 3 1"
proof -
  obtain c where "wire_scalar_insert_certify (\<lambda>_ _. True) sample_env (Some (sample_scalar_handle 0 70)) = Some (scalar_of sample_sql c)"
    "i_row_count c = 32" by (rule sample_scalar) blast
  with certified_scalar_cells_stand_in_source [OF this(1), of 3 1] show ?thesis by (auto simp: scalar_of_fields)
qed

lemma scalar_pack_entries_agree_witness:
  "\<exists>c out. wire_scalar_insert_certify (\<lambda>_ _. True) sample_env (Some (sample_scalar_handle 0 70)) = Some c \<and>
     wire_scalar_insert_pack (\<lambda>_ _. True) (Some c) (Some sample_edits) True = Inr out \<and>
     wire_scalar_insert_pack_proven_edits (\<lambda>_ _. True) (Some c) (Some sample_edits) True = Inr out"
proof -
  obtain c where c: "wire_scalar_insert_certify (\<lambda>_ _. True) sample_env (Some (sample_scalar_handle 0 70)) = Some (scalar_of sample_sql c)"
    "wire_insert_certify (\<lambda>_ _. True) sample_env (Some sample_handle) = Some c" "describes c sample_cells"
    "length (wire_prefix c) \<le> 4311" by (rule sample_scalar) blast
  obtain out where "wsi_pack (\<lambda>_ _. True) (Some (scalar_of sample_sql c)) (Some sample_edits) True False = Inr out"
    by (rule sample_scalar_packed [OF c(3,4,2)])
  with scalar_pack_entries_agree [OF c(1), of "\<lambda>_ _. True" sample_edits] sample_edits_valid(3) [of False] c(1)
  show ?thesis unfolding wire_scalar_insert_pack_def by (metis (full_types))
qed

theorem unedited_scalar_certificate_packs_to_its_wire_witness:
  "\<exists>c. wire_scalar_insert_certify (\<lambda>_ _. True) sample_env (Some (sample_scalar_handle 0 70)) = Some c \<and>
     wsi_pack (\<lambda>_ _. True) (Some c) (Some no_edits) True True = Inr sample_wire"
proof -
  obtain c where c: "wire_scalar_insert_certify (\<lambda>_ _. True) sample_env (Some (sample_scalar_handle 0 70)) = Some (scalar_of sample_sql c)"
    "i_wire c = Some sample_wire" by (rule sample_scalar) blast
  then have "x_wire (scalar_of sample_sql c) = Some sample_wire" by (simp add: scalar_of_fields)
  with unedited_scalar_certificate_packs_to_its_wire [OF c(1), of sample_wire "\<lambda>_ _. True" True] c(1) show ?thesis by blast
qed

theorem packed_scalar_cells_stand_in_restored_source_witness:
  "\<exists>c out t rows. wire_scalar_insert_certify (\<lambda>_ _. True) sample_env (Some (sample_scalar_handle 0 70)) = Some c \<and>
     wsi_pack (\<lambda>_ _. True) (Some c) (Some sample_edits) True False = Inr out \<and>
     restore_source_edits (\<lambda>_ _. True) sample_sql (length sample_sql) 1000 sample_edits = Inr t \<and>
     length rows = 32 \<and> stand_in t 0 (concat rows) (length t)"
proof -
  obtain c where c: "wire_scalar_insert_certify (\<lambda>_ _. True) sample_env (Some (sample_scalar_handle 0 70)) = Some (scalar_of sample_sql c)"
    "wire_insert_certify (\<lambda>_ _. True) sample_env (Some sample_handle) = Some c" "describes c sample_cells"
    "length (wire_prefix c) \<le> 4311" "i_row_count c = 32" by (rule sample_scalar) blast
  obtain out where pack: "wsi_pack (\<lambda>_ _. True) (Some (scalar_of sample_sql c)) (Some sample_edits) True False = Inr out"
    by (rule sample_scalar_packed [OF c(3,4,2)])
  obtain t where t: "restore_source_edits (\<lambda>_ _. True) sample_sql (length sample_sql) 1000 sample_edits = Inr t"
    using sample_restored by blast
  then have "restore_source_edits (\<lambda>_ _. True) (x_sql (scalar_of sample_sql c)) (length (x_sql (scalar_of sample_sql c))) 1000 sample_edits = Inr t"
    by (simp add: scalar_of_fields)
  from packed_scalar_cells_stand_in_restored_source [OF c(1) sample_edits_valid(1) pack this] c(1,5) pack t
  show ?thesis unfolding scalar_of_fields by metis
qed

theorem native_certificate_is_strict_witness:
  "\<exists>c. wire_scalar_insert_certify (\<lambda>_ _. True) sample_env (Some (sample_scalar_handle 0 70)) = Some c \<and>
     wire_scalar_insert_from_native (\<lambda>_ _. True) sample_env (Some (sample_scalar_handle 0 70)) = Some c \<and>
     c = c\<lparr>x_text_bytes := x_text_bytes c, x_string_count := x_string_count c\<rparr>"
proof -
  obtain c where c: "wire_scalar_insert_certify (\<lambda>_ _. True) sample_env (Some (sample_scalar_handle 0 70)) = Some (scalar_of sample_sql c)"
    "i_raw_length c = 0" "i_text_bytes c = 70" "i_row_count c = 32" by (rule sample_scalar) blast
  from native_certificate_is_strict [OF c(1) sample_native [OF c]] c(1) sample_native [OF c] show ?thesis by blast
qed

theorem two_column_certificate_is_scalar_witness:
  "\<exists>c d. wire_insert_certify (\<lambda>_ _. True) sample_env (Some sample_handle) = Some c \<and>
     wire_scalar_insert_certify (\<lambda>_ _. True) sample_env (Some (sample_scalar_handle 0 70)) = Some d \<and>
     x_row_offsets d = i_row_offsets c \<and> x_column_count d = 2"
proof -
  obtain c where c: "wire_insert_certify (\<lambda>_ _. True) sample_env (Some sample_handle) = Some c" by (rule sample_scalar) blast
  have "wire_insert_certify (\<lambda>_ _. True) sample_env (Some (wire_handle.truncate (sample_scalar_handle 0 70))) = Some c"
    "certify_guard (Some (wire_handle.truncate (sample_scalar_handle 0 70))) = Some (sample_sql, sample_wire)"
    using c sample_guard by simp_all
  from two_column_certificate_is_scalar [OF this sample_fields(1) sample_lower, of "\<lambda>_ _. True"] c show ?thesis by force
qed

theorem two_column_pack_is_scalar_pack_witness:
  "\<exists>c out. wire_insert_certify (\<lambda>_ _. True) sample_env (Some sample_handle) = Some c \<and>
     wi_pack (\<lambda>_ _. True) (Some c) (Some sample_edits) True False = Inr out \<and>
     wsi_pack (\<lambda>_ _. True) (Some (scalar_of sample_sql c)) (Some sample_edits) True False = Inr out"
proof -
  obtain c where c: "wire_insert_certify (\<lambda>_ _. True) sample_env (Some sample_handle) = Some c" "describes c sample_cells"
    "length (wire_prefix c) \<le> 4311" by (rule sample_scalar) blast
  obtain out where out: "wi_pack (\<lambda>_ _. True) (Some c) (Some sample_edits) True False = Inr out"
    using sample_packed [OF c(2,3)] by blast
  have "in_int32 (int (length sample_sql) + edits_growth (edit_items sample_edits))"
    by (simp add: sample_sql_length sample_edits_def edits_growth_def in_int32_def INT32_MAX_def)
  from two_column_pack_is_scalar_pack [OF c(1) sample_guard out this, of "\<lambda>_ _. True"] c(1) out show ?thesis by blast
qed

end
