(* ===== verification/Ast_Surface.thy ===== *)
theory Ast_Surface
  imports Sql_Prelude "HOL-Library.Multiset"
begin

text \<open>
  The walk over the syntax tree in the order of the source text: \<^verbatim>\<open>sqlparser_dialect_ast_surface.c\<close>.
  It delivers literals, parameters, relations, joins and set operations to the callbacks of a
  visitor, and walks a tree and its clone side by side.  The dialects number what they have rewritten
  by the position in this order.

  The tree is made of protobuf messages.  A message is its address, its descriptor and its fields;
  the generated descriptors are not part of the program: a \<open>schema\<close>, which gives the fields of a
  descriptor in their order, is an argument of every walk.  The arms of a oneof share one slot and
  one discriminator.  A repeated field always has its array (the code tests for a missing one in the
  clone walk only).

  The walks do not depend on what the callbacks do, as long as these do not change the tree, which
  none of the callbacks modelled does: a walk yields the sequence of its calls, and a visitor is run
  over it.
\<close>

section \<open>Messages\<close>

datatype message =
    Message (address: nat) (msg_type: "string option") (msg_fields: "(string \<times> field_value) list")
      (msg_case: nat) (msg_slot: "message option")
and field_value = Child "message option" | Children "message option list" | Number int

record field_descriptor =
  fd_name :: string
  fd_id :: nat
  fd_message :: bool
  fd_repeated :: bool
  fd_oneof :: bool

type_synonym schema = "string \<Rightarrow> field_descriptor list"

definition child :: "message \<Rightarrow> string \<Rightarrow> message option" where
  "child m name = (case map_of (msg_fields m) name of Some (Child c) \<Rightarrow> c | _ \<Rightarrow> None)"

definition children :: "message \<Rightarrow> string \<Rightarrow> message option list" where
  "children m name = (case map_of (msg_fields m) name of Some (Children cs) \<Rightarrow> cs | _ \<Rightarrow> [])"

definition number :: "message \<Rightarrow> string \<Rightarrow> int" where
  "number m name = (case map_of (msg_fields m) name of Some (Number n) \<Rightarrow> n | _ \<Rightarrow> 0)"

text \<open>The enumerators the walk tests.\<close>

definition VAL_SVAL :: nat where "VAL_SVAL = 4"
definition VAL_BSVAL :: nat where "VAL_BSVAL = 5"
definition SETOP_NONE :: int where "SETOP_NONE = 1"
definition SETOP_EXCEPT :: int where "SETOP_EXCEPT = 4"
definition LIMIT_STYLE_LIMIT :: int where "LIMIT_STYLE_LIMIT = 2"

definition is_string_literal :: "message \<Rightarrow> bool" where
  "is_string_literal m = ((msg_case m = VAL_SVAL \<or> msg_case m = VAL_BSVAL) \<and> msg_slot m \<noteq> None)"

definition is_limit :: "message \<Rightarrow> bool" where
  "is_limit m = (child m ''limit_count'' \<noteq> None \<and> number m ''limit_clause_style'' = LIMIT_STYLE_LIMIT)"

section \<open>The walk\<close>

datatype surface_event =
    String_Literal message | Param_Ref message | Relation message | Derived_Relation message
  | Insert_Relation message | Join message | Select_Limit message | Set_Operation message

text \<open>What the walk does at a message: it goes on to a child or calls the visitor.\<close>

datatype surface_step = Visit "message option" | Call surface_event

abbreviation visit_child :: "message \<Rightarrow> string \<Rightarrow> surface_step list" where
  "visit_child m name \<equiv> [Visit (child m name)]"

abbreviation visit_node_array :: "message \<Rightarrow> string \<Rightarrow> surface_step list" where
  "visit_node_array m name \<equiv> map Visit (children m name)"

definition visit_select :: "message \<Rightarrow> surface_step list" where
  "visit_select m =
     visit_child m ''with_clause'' @
     (if number m ''op'' \<noteq> SETOP_NONE
      then visit_child m ''larg'' @ [Call (Set_Operation m)] @ visit_child m ''rarg''
      else visit_node_array m ''distinct_clause'' @ visit_node_array m ''target_list'' @
        visit_child m ''into_clause'' @ visit_node_array m ''from_clause'' @ visit_child m ''where_clause'' @
        visit_child m ''start_with_clause'' @ visit_child m ''connect_by_clause'' @
        visit_node_array m ''group_clause'' @ visit_child m ''having_clause'' @
        visit_node_array m ''window_clause'' @ visit_node_array m ''values_lists'') @
     visit_node_array m ''sort_clause'' @
     (if is_limit m then [Call (Select_Limit m)] else []) @
     visit_child m ''limit_count'' @ visit_child m ''limit_offset'' @ visit_node_array m ''locking_clause''"

text \<open>
  The step for one field of a descriptor.  \<^verbatim>\<open>protobuf_c_message_descriptor_get_field\<close> finds the field
  with an id; in a Node every field is an arm of the one oneof, and the walk goes to the active arm
  without scanning the descriptor.
\<close>

definition field_steps :: "message \<Rightarrow> field_descriptor \<Rightarrow> surface_step list" where
  "field_steps m f =
     (if \<not> fd_message f then []
      else if fd_repeated f then visit_node_array m (fd_name f)
      else if fd_oneof f then (if msg_case m \<noteq> fd_id f then [] else [Visit (msg_slot m)])
      else visit_child m (fd_name f))"

definition descriptor_scan :: "field_descriptor list \<Rightarrow> message \<Rightarrow> surface_step list" where
  "descriptor_scan fs m = concat (map (field_steps m) fs)"

definition node_dispatch :: "field_descriptor list \<Rightarrow> message \<Rightarrow> surface_step list" where
  "node_dispatch fs m =
     (case find (\<lambda>f. fd_id f = msg_case m) fs of None \<Rightarrow> [] | Some _ \<Rightarrow> [Visit (msg_slot m)])"

definition visit_generic :: "schema \<Rightarrow> message \<Rightarrow> surface_step list" where
  "visit_generic sch m =
     (case msg_type m of
        None \<Rightarrow> []
      | Some d \<Rightarrow> if d = ''Node'' then node_dispatch (sch d) m else descriptor_scan (sch d) m)"

definition visit_insert :: "schema \<Rightarrow> message \<Rightarrow> surface_step list" where
  "visit_insert sch m =
     visit_child m ''with_clause'' @
     (case child m ''relation'' of None \<Rightarrow> [] | Some r \<Rightarrow> Call (Insert_Relation r) # visit_generic sch r) @
     visit_node_array m ''cols'' @ visit_child m ''select_stmt'' @ visit_child m ''on_conflict_clause'' @
     visit_node_array m ''returning_list''"

definition visit_update :: "message \<Rightarrow> surface_step list" where
  "visit_update m =
     visit_child m ''with_clause'' @ visit_child m ''relation'' @ visit_node_array m ''target_list'' @
     visit_node_array m ''from_clause'' @ visit_child m ''where_clause'' @ visit_node_array m ''returning_list''"

definition visit_delete :: "message \<Rightarrow> surface_step list" where
  "visit_delete m =
     visit_child m ''with_clause'' @ visit_child m ''relation'' @ visit_node_array m ''using_clause'' @
     visit_child m ''where_clause'' @ visit_node_array m ''returning_list''"

definition visit_merge :: "message \<Rightarrow> surface_step list" where
  "visit_merge m =
     visit_child m ''with_clause'' @ visit_child m ''relation'' @ visit_child m ''source_relation'' @
     visit_child m ''join_condition'' @ visit_node_array m ''merge_when_clauses'' @
     visit_node_array m ''returning_list''"

definition visit_join :: "message \<Rightarrow> surface_step list" where
  "visit_join m =
     visit_child m ''larg'' @ [Call (Join m)] @ visit_child m ''rarg'' @ visit_node_array m ''using_clause'' @
     visit_child m ''join_using_alias'' @ visit_child m ''quals'' @ visit_child m ''alias''"

definition visit_res_target :: "message \<Rightarrow> surface_step list" where
  "visit_res_target m = visit_child m ''val'' @ visit_node_array m ''indirection''"

text \<open>\<^verbatim>\<open>sqlparser_dialect_ast_surface_visit_message\<close>, one level.\<close>

definition message_steps :: "schema \<Rightarrow> message \<Rightarrow> surface_step list" where
  "message_steps sch m =
     (if msg_type m = Some ''A_Const'' then (if is_string_literal m then [Call (String_Literal m)] else [])
      else if msg_type m = Some ''ParamRef'' then [Call (Param_Ref m)]
      else if msg_type m = Some ''RangeVar'' then Call (Relation m) # visit_generic sch m
      else if msg_type m = Some ''RangeSubselect'' then Call (Derived_Relation m) # visit_generic sch m
      else if msg_type m = Some ''SelectStmt'' then visit_select m
      else if msg_type m = Some ''InsertStmt'' then visit_insert sch m
      else if msg_type m = Some ''UpdateStmt'' then visit_update m
      else if msg_type m = Some ''DeleteStmt'' then visit_delete m
      else if msg_type m = Some ''MergeStmt'' then visit_merge m
      else if msg_type m = Some ''JoinExpr'' then visit_join m
      else if msg_type m = Some ''ResTarget'' then visit_res_target m
      else if msg_type m = Some ''ViewStmt'' then
        visit_child m ''view'' @ visit_node_array m ''aliases'' @ visit_child m ''query'' @ visit_node_array m ''options''
      else if msg_type m = Some ''CreateTableAsStmt'' then visit_child m ''into'' @ visit_child m ''query''
      else visit_generic sch m)"

text \<open>A child is smaller than its message, so the walk ends.\<close>

lemma field_child_size:
  assumes "map_of fs name = Some v"
  shows "v = Child (Some c) \<Longrightarrow> size c < size_list (size_prod (\<lambda>_. 0) size) fs"
    "v = Children cs \<Longrightarrow> Some c \<in> set cs \<Longrightarrow> size c < size_list (size_prod (\<lambda>_. 0) size) fs"
proof -
  have in_fs: "(name, v) \<in> set fs" using assms by (rule map_of_SomeD)
  have le: "size v < size_list (size_prod (\<lambda>_. 0) size) fs"
    using size_list_estimation [OF in_fs, of "size v" "size_prod (\<lambda>_. 0) size"] by simp
  show "size c < size_list (size_prod (\<lambda>_. 0) size) fs" if "v = Child (Some c)" using le that by simp
  show "size c < size_list (size_prod (\<lambda>_. 0) size) fs" if "v = Children cs" "Some c \<in> set cs"
  proof -
    have "size c < size_list (size_option size) cs"
      using size_list_estimation [OF that(2), of "size c" "size_option size"] by simp
    with le that(1) show ?thesis by simp
  qed
qed

lemma child_size: "child m name = Some c \<Longrightarrow> size c < size m"
  using field_child_size(1) [of "msg_fields m" name "Child (Some c)" c]
  by (cases m) (auto simp: child_def split: option.splits field_value.splits)

lemma children_size:
  assumes "Some c \<in> set (children m name)"
  shows "size c < size m"
proof -
  obtain cs where "map_of (msg_fields m) name = Some (Children cs)" "Some c \<in> set cs"
    using assms by (cases "map_of (msg_fields m) name") (auto simp: children_def split: field_value.splits)
  from field_child_size(2) [OF this(1) refl this(2)] show ?thesis by (cases m) simp
qed

lemma slot_size: "msg_slot m = Some c \<Longrightarrow> size c < size m"
  by (cases m) simp

lemmas part_size = child_size child_size [OF sym] children_size slot_size slot_size [OF sym]

lemma generic_size: "Visit (Some c) \<in> set (visit_generic sch m) \<Longrightarrow> size c < size m"
  by (auto simp: visit_generic_def node_dispatch_def descriptor_scan_def field_steps_def
      split: option.splits if_splits intro: part_size)

lemma insert_size: "Visit (Some c) \<in> set (visit_insert sch m) \<Longrightarrow> size c < size m"
  by (auto simp: visit_insert_def split: option.splits
      intro: part_size less_trans [OF generic_size child_size [OF sym]])

lemma step_size: "Visit (Some c) \<in> set (message_steps sch m) \<Longrightarrow> size c < size m"
  by (auto simp: message_steps_def visit_select_def visit_update_def visit_delete_def visit_merge_def
      visit_join_def visit_res_target_def split: if_splits intro: part_size generic_size insert_size)

function visit_message :: "schema \<Rightarrow> message option \<Rightarrow> surface_event list" where
  "visit_message sch None = []"
| "visit_message sch (Some m) =
     concat (map (\<lambda>s. case s of Visit c \<Rightarrow> visit_message sch c | Call e \<Rightarrow> [e]) (message_steps sch m))"
  by pat_completeness auto
termination
  by (relation "measure (\<lambda>(_, m). case m of None \<Rightarrow> 0 | Some m \<Rightarrow> Suc (size m))")
    (auto simp: step_size split: option.splits)


declare visit_message.simps(2) [simp del]

text \<open>\<^verbatim>\<open>sqlparser_dialect_ast_surface_visit\<close> and \<^verbatim>\<open>_visit_roots\<close>: every call with its statement index.\<close>

definition statement_roots :: "message \<Rightarrow> message option list" where
  "statement_roots ast = map (\<lambda>raw. case raw of None \<Rightarrow> None | Some r \<Rightarrow> child r ''stmt'') (children ast ''stmts'')"

definition surface_visit :: "schema \<Rightarrow> message option \<Rightarrow> (nat \<times> surface_event) list" where
  "surface_visit sch ast =
     (case ast of
        None \<Rightarrow> []
      | Some a \<Rightarrow> concat (map (\<lambda>(i, root). map (Pair i) (visit_message sch root)) (enumerate 0 (statement_roots a))))"

definition visit_roots :: "schema \<Rightarrow> message option list \<Rightarrow> nat \<Rightarrow> (nat \<times> surface_event) list" where
  "visit_roots sch roots i = concat (map (\<lambda>root. map (Pair i) (visit_message sch root)) roots)"

section \<open>The walk over a tree and its clone\<close>

datatype clone_event =
    Clone_String_Literal message message | Clone_Relation message message | Clone_Join message message
  | Clone_Set_Operation message message | Clone_Select_Limit message message | Clone_Mismatch

datatype clone_step = Both "message option" "message option" | Differ

definition clone_calls :: "message \<Rightarrow> message \<Rightarrow> clone_event list" where
  "clone_calls s c =
     (if msg_type s = Some ''A_Const'' then [Clone_String_Literal s c]
      else if msg_type s = Some ''RangeVar'' then [Clone_Relation s c]
      else if msg_type s = Some ''JoinExpr'' then [Clone_Join s c]
      else if msg_type s = Some ''SelectStmt'' then
        (if number s ''op'' \<noteq> SETOP_NONE then [Clone_Set_Operation s c] else []) @
        (if is_limit s then [Clone_Select_Limit s c] else [])
      else [])"

definition clone_field :: "message \<Rightarrow> message \<Rightarrow> field_descriptor \<Rightarrow> clone_step list" where
  "clone_field s c f =
     (if \<not> fd_message f then []
      else if fd_oneof f \<and> msg_case s \<noteq> msg_case c then [Differ]
      else if fd_repeated f then
        (if length (children s (fd_name f)) \<noteq> length (children c (fd_name f)) then [Differ]
         else map2 Both (children s (fd_name f)) (children c (fd_name f)))
      else if fd_oneof f then (if msg_case s \<noteq> fd_id f then [] else [Both (msg_slot s) (msg_slot c)])
      else [Both (child s (fd_name f)) (child c (fd_name f))])"

definition clone_fields :: "schema \<Rightarrow> message \<Rightarrow> message \<Rightarrow> clone_step list" where
  "clone_fields sch s c =
     (case msg_type s of None \<Rightarrow> [] | Some d \<Rightarrow> concat (map (clone_field s c) (sch d)))"

lemma clone_field_size: "Both (Some s') c' \<in> set (clone_fields sch s c) \<Longrightarrow> size s' < size s"
  by (auto simp: clone_fields_def clone_field_def split: option.splits if_splits
      intro: part_size dest!: set_zip_leftD)

text \<open>The calls in their order; the walk stops at the first \<open>Clone_Mismatch\<close>.\<close>

function clone_walk :: "schema \<Rightarrow> message option \<Rightarrow> message option \<Rightarrow> clone_event list" where
  "clone_walk sch None None = []"
| "clone_walk sch None (Some c) = [Clone_Mismatch]"
| "clone_walk sch (Some s) None = [Clone_Mismatch]"
| "clone_walk sch (Some s) (Some c) =
     (if msg_type s \<noteq> msg_type c then [Clone_Mismatch]
      else clone_calls s c @
        concat (map (\<lambda>p. case p of Both s' c' \<Rightarrow> clone_walk sch s' c' | Differ \<Rightarrow> [Clone_Mismatch])
          (clone_fields sch s c)))"
  by pat_completeness auto
termination
  by (relation "measure (\<lambda>(_, m, _). case m of None \<Rightarrow> 0 | Some m \<Rightarrow> Suc (size m))")
    (auto simp: clone_field_size split: option.splits)

declare clone_walk.simps(4) [simp del]

fun run_clone :: "(clone_event \<Rightarrow> 'c \<Rightarrow> 'c \<times> status) \<Rightarrow> clone_event list \<Rightarrow> 'c \<Rightarrow> 'c \<times> status" where
  "run_clone callback [] context = (context, STATUS_OK)"
| "run_clone callback (Clone_Mismatch # es) context = (context, INTERNAL_ERROR)"
| "run_clone callback (e # es) context =
     (let (context', st) = callback e context
      in if st \<noteq> STATUS_OK then (context', st) else run_clone callback es context')"

text \<open>\<^verbatim>\<open>sqlparser_dialect_ast_surface_clone\<close>: the context of the visitor after the call, and the status.\<close>

definition surface_clone ::
  "schema \<Rightarrow> (clone_event \<Rightarrow> 'c \<Rightarrow> 'c \<times> status) \<Rightarrow> message option \<Rightarrow> message option \<Rightarrow> 'c \<Rightarrow> 'c \<times> status" where
  "surface_clone sch callback source clone context = run_clone callback (clone_walk sch source clone) context"

section \<open>The fast path of a Node\<close>

lemma node_dispatch_scan:
  assumes "\<forall>f \<in> set fs. fd_message f \<and> \<not> fd_repeated f \<and> fd_oneof f" "distinct (map fd_id fs)"
  shows "node_dispatch fs m = descriptor_scan fs m"
  using assms
proof (induction fs)
  case (Cons f fs)
  have "concat (map (field_steps m) fs) = []" if "msg_case m = fd_id f"
    using Cons.prems that by (auto simp: field_steps_def concat_eq_Nil_conv)
  with Cons show ?case
    by (auto simp: node_dispatch_def descriptor_scan_def field_steps_def)
qed (simp add: node_dispatch_def descriptor_scan_def)

end
