(* ===== verification/Surface_Properties.thy ===== *)
theory Surface_Properties
  imports Ast_Surface
begin

text \<open>
  Properties of the walk: no part of a tree is met twice, so a visitor gets every literal,
  parameter, set operation at most once; the walk from the parse result is the walk over its
  statements; a tree and an exact copy of it walk in step.
\<close>

section \<open>The messages of a tree\<close>

fun value_messages :: "field_value \<Rightarrow> message list" where
  "value_messages (Child c) = (case c of None \<Rightarrow> [] | Some m \<Rightarrow> [m])"
| "value_messages (Children cs) = concat (map (\<lambda>c. case c of None \<Rightarrow> [] | Some m \<Rightarrow> [m]) cs)"
| "value_messages (Number _) = []"

abbreviation slot_messages :: "message \<Rightarrow> message list" where
  "slot_messages m \<equiv> (case msg_slot m of None \<Rightarrow> [] | Some c \<Rightarrow> [c])"

definition parts :: "message \<Rightarrow> message list" where
  "parts m = concat (map (value_messages \<circ> snd) (msg_fields m)) @ slot_messages m"

lemma value_messages_size: "c \<in> set (value_messages v) \<Longrightarrow> size c < size v"
proof (cases v)
  case (Children cs)
  assume "c \<in> set (value_messages v)"
  with Children have "Some c \<in> set cs" by (auto split: option.splits)
  from size_list_estimation [OF this, of "size c" "size_option size"] show ?thesis by (simp add: Children)
qed (auto split: option.splits)

lemma parts_size: "c \<in> set (parts m) \<Longrightarrow> size c < size m"
proof -
  assume "c \<in> set (parts m)"
  then consider (field) k v where "(k, v) \<in> set (msg_fields m)" "c \<in> set (value_messages v)"
    | (slot) "msg_slot m = Some c"
    by (auto simp: parts_def split: option.splits)
  then show ?thesis
  proof cases
    case field
    from value_messages_size [OF field(2)]
    have "size c < size_list (size_prod (\<lambda>_. 0) size) (msg_fields m)"
      using size_list_estimation [OF field(1), of "size c" "size_prod (\<lambda>_. 0) size"] by simp
    then show ?thesis by (cases m) simp
  qed (rule slot_size)
qed

function messages :: "message \<Rightarrow> message list" where
  "messages m = m # concat (map messages (parts m))"
  by pat_completeness auto
termination
  by (relation "measure size") (auto simp: parts_size)

declare messages.simps [simp del]

definition tree_messages :: "message option \<Rightarrow> message list" where
  "tree_messages t = (case t of None \<Rightarrow> [] | Some m \<Rightarrow> messages m)"

section \<open>Every part is visited at most once\<close>

definition field_messages :: "message \<Rightarrow> string \<Rightarrow> message list" where
  "field_messages m name = (case map_of (msg_fields m) name of None \<Rightarrow> [] | Some v \<Rightarrow> value_messages v)"

text \<open>Reading fields of different names reads different parts.\<close>

lemma fields_apart:
  assumes "distinct names"
  shows "mset (concat (map (field_messages m) names)) \<subseteq># mset (concat (map (value_messages \<circ> snd) (msg_fields m)))"
proof -
  define g where "g = (\<lambda>(fs :: (string \<times> field_value) list) n. mset (case map_of fs n of None \<Rightarrow> [] | Some v \<Rightarrow> value_messages v))"
  define all where "all = (\<lambda>fs :: (string \<times> field_value) list. mset (concat (map (value_messages \<circ> snd) fs)))"
  have step: "all (kv # fs) = mset (value_messages (snd kv)) + all fs" for kv and fs :: "(string \<times> field_value) list" by (simp add: all_def)
  have here: "g (kv # fs) (fst kv) = mset (value_messages (snd kv))" for kv and fs :: "(string \<times> field_value) list" by (simp add: g_def)
  have rest: "(\<Sum>n \<in> B. g (kv # fs) n) = (\<Sum>n \<in> B. g fs n)" if "fst kv \<notin> B" for B kv and fs :: "(string \<times> field_value) list"
    using that by (intro sum.cong) (auto simp: g_def)
  have "(\<Sum>n \<in> A. g fs n) \<subseteq># all fs" if "finite A" for A and fs :: "(string \<times> field_value) list"
    using that
  proof (induction fs arbitrary: A)
    case Nil
    then show ?case by (simp add: g_def)
  next
    case (Cons kv fs)
    show ?case
    proof (cases "fst kv \<in> A")
      case True
      have "(\<Sum>n \<in> A. g (kv # fs) n) = mset (value_messages (snd kv)) + (\<Sum>n \<in> A - {fst kv}. g fs n)"
        using sum.remove [OF Cons.prems True, of "g (kv # fs)"] rest [of kv "A - {fst kv}" fs] unfolding here by simp
      moreover have "(\<Sum>n \<in> A - {fst kv}. g fs n) \<subseteq># all fs" by (rule Cons.IH) (simp add: Cons.prems)
      ultimately show ?thesis unfolding step by simp
    next
      case False
      have "(\<Sum>n \<in> A. g fs n) \<subseteq># all fs" by (rule Cons.IH [OF Cons.prems])
      then show ?thesis unfolding step rest [OF False] by (simp add: subset_mset.add_increasing)
    qed
  qed
  from this [of "set names" "msg_fields m"]
  have "(\<Sum>n \<in> set names. g (msg_fields m) n) \<subseteq># all (msg_fields m)" by simp
  moreover have "mset (concat (map (field_messages m) names)) = (\<Sum>n \<in> set names. mset (field_messages m n))"
    unfolding mset_concat map_map comp_def by (rule sum_list_distinct_conv_sum_set [OF assms])
  ultimately show ?thesis unfolding field_messages_def g_def all_def by metis
qed

definition step_messages :: "surface_step \<Rightarrow> message list" where
  "step_messages s = (case s of Visit (Some c) \<Rightarrow> [c] | _ \<Rightarrow> [])"

abbreviation steps_messages :: "surface_step list \<Rightarrow> message list" where
  "steps_messages steps \<equiv> concat (map step_messages steps)"

text \<open>The steps read at most the fields of these names, each once.\<close>

definition reads :: "message \<Rightarrow> surface_step list \<Rightarrow> string list \<Rightarrow> bool" where
  "reads m steps names = (mset (steps_messages steps) \<subseteq># mset (concat (map (field_messages m) names)))"

named_theorems reading \<open>what a list of steps reads\<close>

lemma reads_child [reading]: "reads m (visit_child m n) [n]"
  by (auto simp: reads_def step_messages_def child_def field_messages_def split: option.splits field_value.splits)

lemma reads_array [reading]: "reads m (visit_node_array m n) [n]"
proof -
  have "steps_messages (map Visit cs) = concat (map (\<lambda>c. case c of None \<Rightarrow> [] | Some m \<Rightarrow> [m]) cs)" for cs
    by (induction cs) (auto simp: step_messages_def split: option.splits)
  then show ?thesis
    by (auto simp: reads_def children_def field_messages_def step_messages_def comp_def split: option.splits field_value.splits)
qed

lemma reads_call [reading]: "reads m [Call e] []" "reads m [] []"
  by (simp_all add: reads_def step_messages_def)

lemma reads_append [reading]: "reads m s1 n1 \<Longrightarrow> reads m s2 n2 \<Longrightarrow> reads m (s1 @ s2) (n1 @ n2)"
  by (simp add: reads_def subset_mset.add_mono)

lemma reads_if [reading]: "reads m s1 n1 \<Longrightarrow> reads m s2 n2 \<Longrightarrow> reads m (if c then s1 else s2) (n1 @ n2)"
  by (simp add: reads_def subset_mset.add_increasing subset_mset.add_increasing2)

lemma reads_parts: "reads m steps names \<Longrightarrow> distinct names \<Longrightarrow> mset (steps_messages steps) \<subseteq># mset (parts m)"
  using fields_apart [of names m] unfolding reads_def parts_def
  by (auto intro: subset_mset.order_trans simp: subset_mset.add_increasing2)

text \<open>A schema gives every field of a descriptor its own name and its own id.\<close>

definition schema_ok :: "schema \<Rightarrow> bool" where
  "schema_ok sch = (\<forall>d. distinct (map fd_name (sch d)) \<and> distinct (map fd_id (sch d)))"

lemma scan_parts:
  "distinct (map fd_id fs) \<Longrightarrow> mset (steps_messages (descriptor_scan fs m)) \<subseteq>#
     mset (concat (map (field_messages m) (map fd_name fs))) +
     (if msg_case m \<in> fd_id ` set fs then mset (slot_messages m) else {#})"
proof (induction fs)
  case Nil
  then show ?case by (simp add: descriptor_scan_def)
next
  case (Cons f fs)
  let ?slot = "mset (slot_messages m)"
  have steps: "steps_messages (descriptor_scan (f # fs) m) = steps_messages (field_steps m f) @ steps_messages (descriptor_scan fs m)"
    by (simp add: descriptor_scan_def)
  have field: "mset (steps_messages (field_steps m f)) \<subseteq>#
      mset (field_messages m (fd_name f)) + (if msg_case m = fd_id f then ?slot else {#})"
  proof (cases "fd_message f \<and> fd_oneof f \<and> \<not> fd_repeated f")
    case True
    then show ?thesis by (auto simp: field_steps_def step_messages_def split: option.splits)
  next
    case False
    then have "reads m (field_steps m f) [fd_name f]"
      using reads_child [of m "fd_name f"] reads_array [of m "fd_name f"]
      by (auto simp: field_steps_def) (auto simp: reads_def)
    then show ?thesis by (simp add: reads_def subset_mset.add_increasing2)
  qed
  have other: "msg_case m \<notin> fd_id ` set fs" if "msg_case m = fd_id f" using Cons.prems that by auto
  show ?case
    using Cons.IH field Cons.prems other unfolding steps
    by (cases "msg_case m = fd_id f") (auto dest: subset_mset.add_mono simp: ac_simps)
qed

lemma generic_parts:
  assumes "schema_ok sch"
  shows "mset (steps_messages (visit_generic sch m)) \<subseteq># mset (parts m)"
proof (cases "msg_type m")
  case (Some d)
  have ok: "distinct (map fd_name (sch d))" "distinct (map fd_id (sch d))" using assms by (simp_all add: schema_ok_def)
  show ?thesis
  proof (cases "d = ''Node''")
    case True
    then show ?thesis
      by (auto simp: Some visit_generic_def node_dispatch_def step_messages_def parts_def split: option.splits)
  next
    case False
    have "mset (steps_messages (descriptor_scan (sch d) m)) \<subseteq># mset (parts m)"
      using scan_parts [OF ok(2), of m] fields_apart [OF ok(1), of m] unfolding parts_def
      by (auto split: if_splits intro: subset_mset.order_trans subset_mset.add_mono subset_mset.add_increasing2)
    then show ?thesis by (simp add: False Some visit_generic_def)
  qed
qed (simp add: visit_generic_def)

text \<open>The typed visits read every field once.\<close>

lemma typed_parts:
  "mset (steps_messages (visit_select m)) \<subseteq># mset (parts m)"
  "mset (steps_messages (visit_update m)) \<subseteq># mset (parts m)"
  "mset (steps_messages (visit_delete m)) \<subseteq># mset (parts m)"
  "mset (steps_messages (visit_merge m)) \<subseteq># mset (parts m)"
  "mset (steps_messages (visit_join m)) \<subseteq># mset (parts m)"
  "mset (steps_messages (visit_res_target m)) \<subseteq># mset (parts m)"
  "mset (steps_messages (visit_child m ''view'' @ visit_node_array m ''aliases'' @ visit_child m ''query'' @
     visit_node_array m ''options'')) \<subseteq># mset (parts m)"
  "mset (steps_messages (visit_child m ''into'' @ visit_child m ''query'')) \<subseteq># mset (parts m)"
  unfolding visit_select_def visit_update_def visit_delete_def visit_merge_def visit_join_def visit_res_target_def
  by (rule reads_parts, (rule reading)+, simp)+

lemma concat_messages_mono:
  assumes "mset as \<subseteq># mset bs"
  shows "mset (concat (map messages as)) \<subseteq># mset (concat (map messages bs))"
proof -
  have "mset (concat (map messages xs)) = \<Sum>\<^sub># (image_mset (mset \<circ> messages) (mset xs))" for xs
    by (induction xs) simp_all
  moreover obtain C where "mset bs = mset as + C" using assms by (metis subset_mset.le_iff_add)
  ultimately show ?thesis by simp
qed

lemma parts_messages: "mset (concat (map messages (parts m))) \<subseteq># mset (messages m)"
  by (simp add: messages.simps [of m])

lemma insert_parts:
  assumes "schema_ok sch"
  shows "mset (concat (map messages (steps_messages (visit_insert sch m)))) \<subseteq># mset (concat (map messages (parts m)))"
proof -
  let ?rest = "visit_node_array m ''cols'' @ visit_child m ''select_stmt'' @ visit_child m ''on_conflict_clause'' @
     visit_node_array m ''returning_list''"
  let ?steps = "visit_child m ''with_clause'' @ visit_child m ''relation'' @ ?rest"
  let ?M = "\<lambda>steps. mset (concat (map messages (steps_messages steps)))"
  have "mset (steps_messages ?steps) \<subseteq># mset (parts m)" by (rule reads_parts, (rule reading)+) simp
  then have all: "?M ?steps \<subseteq># mset (concat (map messages (parts m)))" by (rule concat_messages_mono)
  show ?thesis
  proof (cases "child m ''relation''")
    case None
    then have "?M (visit_insert sch m) = ?M ?steps" by (simp add: visit_insert_def step_messages_def)
    with all show ?thesis by simp
  next
    case (Some r)
    have "mset (concat (map messages (steps_messages (visit_generic sch r)))) \<subseteq># mset (concat (map messages (parts r)))"
      by (rule concat_messages_mono [OF generic_parts [OF assms]])
    then have "?M (visit_generic sch r) \<subseteq># mset (messages r)" using parts_messages subset_mset.order_trans by blast
    then have "?M (visit_insert sch m) \<subseteq># ?M ?steps" by (simp add: visit_insert_def step_messages_def Some)
    with all show ?thesis using subset_mset.order_trans by blast
  qed
qed

lemma message_parts:
  assumes "schema_ok sch"
  shows "mset (concat (map messages (steps_messages (message_steps sch m)))) \<subseteq># mset (concat (map messages (parts m)))"
proof -
  define ok where "ok = (\<lambda>steps. mset (concat (map messages (steps_messages steps))) \<subseteq># mset (concat (map messages (parts m))))"
  have ok_if: "ok s1 \<Longrightarrow> ok s2 \<Longrightarrow> ok (if c then s1 else s2)" for s1 s2 c by simp
  have ok_call: "ok steps \<Longrightarrow> ok (Call e # steps)" and ok_nil: "ok []" for e steps
    by (simp_all add: ok_def step_messages_def)
  have ok_parts: "mset (steps_messages steps) \<subseteq># mset (parts m) \<Longrightarrow> ok steps" for steps
    unfolding ok_def by (rule concat_messages_mono)
  have ok_insert: "ok (visit_insert sch m)" unfolding ok_def by (rule insert_parts [OF assms])
  note leaves = ok_call ok_nil ok_insert ok_parts [OF generic_parts [OF assms]] typed_parts [THEN ok_parts]
  have "ok (message_steps sch m)"
    unfolding message_steps_def by (intro ok_if leaves)
  then show ?thesis by (simp add: ok_def)
qed

section \<open>Every callback at most once\<close>

fun the_string_literal :: "surface_event \<Rightarrow> message option" where
  "the_string_literal (String_Literal m) = Some m" | "the_string_literal _ = None"

fun the_param_ref :: "surface_event \<Rightarrow> message option" where
  "the_param_ref (Param_Ref m) = Some m" | "the_param_ref _ = None"

fun the_set_operation :: "surface_event \<Rightarrow> message option" where
  "the_set_operation (Set_Operation m) = Some m" | "the_set_operation _ = None"

definition owners :: "(surface_event \<Rightarrow> message option) \<Rightarrow> surface_event list \<Rightarrow> message list" where
  "owners sel events = concat (map (\<lambda>e. case sel e of None \<Rightarrow> [] | Some m \<Rightarrow> [m]) events)"

lemma owners_simps [simp]:
  "owners sel [] = []" "owners sel (e # es) = (case sel e of None \<Rightarrow> owners sel es | Some m \<Rightarrow> m # owners sel es)"
  "owners sel (es @ fs) = owners sel es @ owners sel fs"
  by (auto simp: owners_def split: option.splits)

definition step_calls :: "surface_step list \<Rightarrow> surface_event list" where
  "step_calls steps = concat (map (\<lambda>s. case s of Call e \<Rightarrow> [e] | Visit _ \<Rightarrow> []) steps)"

lemma step_calls_simps [simp]:
  "step_calls [] = []" "step_calls (Call e # steps) = e # step_calls steps" "step_calls (Visit c # steps) = step_calls steps"
  "step_calls (s @ t) = step_calls s @ step_calls t" "step_calls (map Visit cs) = []"
  by (simp_all add: step_calls_def comp_def)

lemma generic_calls [simp]: "step_calls (visit_generic sch m) = []"
proof -
  have "step_calls (descriptor_scan fs m) = []" for fs
    by (induction fs) (auto simp: descriptor_scan_def field_steps_def)
  then show ?thesis by (auto simp: visit_generic_def node_dispatch_def split: option.splits)
qed

definition own_selector :: "(surface_event \<Rightarrow> message option) \<Rightarrow> bool" where
  "own_selector sel \<longleftrightarrow> sel = the_string_literal \<or> sel = the_param_ref \<or> sel = the_set_operation"

lemma typed_calls [simp]:
  "step_calls (visit_select m) = (if number m ''op'' \<noteq> SETOP_NONE then [Set_Operation m] else []) @
     (if is_limit m then [Select_Limit m] else [])"
  "step_calls (visit_insert sch m) = (case child m ''relation'' of None \<Rightarrow> [] | Some r \<Rightarrow> [Insert_Relation r])"
  "step_calls (visit_update m) = []" "step_calls (visit_delete m) = []" "step_calls (visit_merge m) = []"
  "step_calls (visit_join m) = [Join m]" "step_calls (visit_res_target m) = []"
  by (simp_all add: visit_select_def visit_insert_def visit_update_def visit_delete_def visit_merge_def visit_join_def
      visit_res_target_def split: option.splits)

lemma own_calls:
  assumes "own_selector sel"
  shows "mset (owners sel (step_calls (message_steps sch m))) \<subseteq># {#m#}"
proof -
  define ok where "ok = (\<lambda>steps. mset (owners sel (step_calls steps)) \<subseteq># {#m#})"
  have ok_if: "ok s1 \<Longrightarrow> ok s2 \<Longrightarrow> ok (if c then s1 else s2)" for s1 s2 c by simp
  have leaves: "ok []" "ok [Call (String_Literal m)]" "ok [Call (Param_Ref m)]" "ok (Call (Relation m) # visit_generic sch m)"
    "ok (Call (Derived_Relation m) # visit_generic sch m)" "ok (visit_select m)" "ok (visit_insert sch m)" "ok (visit_update m)"
    "ok (visit_delete m)" "ok (visit_merge m)" "ok (visit_join m)" "ok (visit_res_target m)" "ok (visit_generic sch m)"
    "ok (visit_child m ''view'' @ visit_node_array m ''aliases'' @ visit_child m ''query'' @ visit_node_array m ''options'')"
    "ok (visit_child m ''into'' @ visit_child m ''query'')"
    using assms by (auto simp: ok_def own_selector_def split: option.splits)
  have "ok (message_steps sch m)" unfolding message_steps_def by (intro ok_if leaves)
  then show ?thesis by (simp add: ok_def)
qed

lemma visit_owners:
  assumes "schema_ok sch" "own_selector sel"
  shows "mset (owners sel (visit_message sch t)) \<subseteq># mset (tree_messages t)"
proof (induction t rule: measure_induct_rule [of "\<lambda>t. case t of None \<Rightarrow> 0 | Some m \<Rightarrow> Suc (size m)"])
  case (less t)
  show ?case
  proof (cases t)
    case (Some m)
    let ?run = "\<lambda>s. case s of Visit c \<Rightarrow> visit_message sch c | Call e \<Rightarrow> [e]"
    have "mset (owners sel (concat (map ?run steps))) \<subseteq>#
        mset (owners sel (step_calls steps)) + mset (concat (map messages (steps_messages steps)))"
      if "set steps \<subseteq> set (message_steps sch m)" for steps
      using that
    proof (induction steps)
      case (Cons s steps)
      have IH: "mset (owners sel (concat (map ?run steps))) \<subseteq>#
          mset (owners sel (step_calls steps)) + mset (concat (map messages (steps_messages steps)))"
        using Cons.IH Cons.prems by simp
      show ?case
      proof (cases s)
        case (Visit c)
        have "mset (owners sel (visit_message sch c)) \<subseteq># mset (concat (map messages (step_messages s)))"
        proof (cases c)
          case (Some x)
          then have "size x < size m" using Cons.prems Visit by (intro step_size [of _ sch]) simp
          then have "mset (owners sel (visit_message sch c)) \<subseteq># mset (tree_messages c)"
            using \<open>t = Some m\<close> Some by (intro less.IH) simp
          then show ?thesis by (simp add: Visit Some tree_messages_def step_messages_def)
        qed simp
        from subset_mset.add_mono [OF this IH] show ?thesis by (simp add: Visit ac_simps)
      next
        case (Call e)
        have "step_messages s = []" by (simp add: Call step_messages_def)
        with IH show ?thesis by (cases "sel e") (simp_all add: Call)
      qed
    qed simp
    then have "mset (owners sel (visit_message sch t)) \<subseteq>#
        mset (owners sel (step_calls (message_steps sch m))) + mset (concat (map messages (steps_messages (message_steps sch m))))"
      by (simp add: Some visit_message.simps)
    also have "\<dots> \<subseteq># {#m#} + mset (concat (map messages (parts m)))"
      by (rule subset_mset.add_mono [OF own_calls [OF assms(2)] message_parts [OF assms(1)]])
    finally show ?thesis by (simp add: Some tree_messages_def messages.simps [of m])
  qed simp
qed

text \<open>The owners a walk delivers are distinct when the messages of the tree are.\<close>

lemma distinct_subset_mset:
  assumes "mset xs \<subseteq># mset ys" "distinct ys"
  shows "distinct xs"
proof -
  obtain C where "mset ys = mset xs + C" using assms(1) by (metis subset_mset.le_iff_add)
  moreover obtain zs where "mset zs = C" using ex_mset by blast
  ultimately have "mset (xs @ zs) = mset ys" by simp
  then have "distinct (xs @ zs)" using assms(2) by (metis mset_eq_imp_distinct_iff)
  then show ?thesis by simp
qed

definition addresses_apart :: "message option \<Rightarrow> bool" where
  "addresses_apart t = distinct (map address (tree_messages t))"

lemma visit_addresses:
  assumes "schema_ok sch" "own_selector sel" "addresses_apart t"
  shows "distinct (map address (owners sel (visit_message sch t)))"
proof (rule distinct_subset_mset)
  show "mset (map address (owners sel (visit_message sch t))) \<subseteq># mset (map address (tree_messages t))"
    unfolding mset_map by (rule image_mset_subseteq_mono [OF visit_owners [OF assms(1,2)]])
qed (use assms(3) in \<open>simp add: addresses_apart_def\<close>)

section \<open>The walk from the parse result\<close>

text \<open>
  The generated schema of the parse result: the statements are its only message field, and the
  statement that of a raw statement.
\<close>

definition parse_schema :: "schema \<Rightarrow> bool" where
  "parse_schema sch \<longleftrightarrow>
     (\<exists>f. filter fd_message (sch ''ParseResult'') = [f] \<and> fd_name f = ''stmts'' \<and> fd_repeated f) \<and>
     (\<exists>f. filter fd_message (sch ''RawStmt'') = [f] \<and> fd_name f = ''stmt'' \<and> \<not> fd_repeated f \<and> \<not> fd_oneof f)"

definition parse_result :: "message \<Rightarrow> bool" where
  "parse_result ast \<longleftrightarrow> msg_type ast = Some ''ParseResult'' \<and>
     (\<forall>r. Some r \<in> set (children ast ''stmts'') \<longrightarrow> msg_type r = Some ''RawStmt'')"

lemma scan_message_fields: "descriptor_scan fs m = descriptor_scan (filter fd_message fs) m"
  by (induction fs) (simp_all add: descriptor_scan_def field_steps_def)

lemma parse_visit:
  assumes "parse_schema sch" "parse_result ast"
  shows "visit_message sch (Some ast) = map snd (surface_visit sch (Some ast))"
proof -
  obtain f g where f: "filter fd_message (sch ''ParseResult'') = [f]" "fd_name f = ''stmts''" "fd_repeated f" "fd_message f"
    and g: "filter fd_message (sch ''RawStmt'') = [g]" "fd_name g = ''stmt''" "\<not> fd_repeated g" "\<not> fd_oneof g" "fd_message g"
    using assms(1) unfolding parse_schema_def by (metis filter_eq_ConsD)
  have root: "visit_message sch raw = visit_message sch (case raw of None \<Rightarrow> None | Some r \<Rightarrow> child r ''stmt'')"
    if "raw \<in> set (children ast ''stmts'')" for raw
  proof (cases raw)
    case (Some r)
    then have "msg_type r = Some ''RawStmt''" using that assms(2) by (simp add: parse_result_def)
    then have "message_steps sch r = [Visit (child r ''stmt'')]"
      using g by (simp add: message_steps_def visit_generic_def scan_message_fields [of "sch ''RawStmt''"])
        (simp add: descriptor_scan_def field_steps_def)
    then show ?thesis by (simp add: Some visit_message.simps)
  qed simp
  have "msg_type ast = Some ''ParseResult''" using assms(2) by (simp add: parse_result_def)
  then have "message_steps sch ast = map Visit (children ast ''stmts'')"
    using f by (simp add: message_steps_def visit_generic_def scan_message_fields [of "sch ''ParseResult''"])
      (simp add: descriptor_scan_def field_steps_def)
  then have "visit_message sch (Some ast) = concat (map (visit_message sch) (children ast ''stmts''))"
    by (simp add: visit_message.simps comp_def)
  also have "\<dots> = concat (map (visit_message sch) (statement_roots ast))"
    unfolding statement_roots_def map_map by (intro arg_cong [where f = concat] map_cong refl) (simp add: root)
  also have "\<dots> = map snd (surface_visit sch (Some ast))"
  proof -
    have "map snd (concat (map (\<lambda>(i, root). map (Pair i) (visit_message sch root)) (enumerate n roots))) =
        concat (map (visit_message sch) roots)" for n roots
      by (induction roots arbitrary: n) (simp_all add: comp_def)
    then show ?thesis by (simp add: surface_visit_def)
  qed
  finally show ?thesis .
qed

section \<open>The walk over a clone\<close>

fun the_set_pair :: "clone_event \<Rightarrow> (message \<times> message) option" where
  "the_set_pair (Clone_Set_Operation s c) = Some (s, c)" | "the_set_pair _ = None"

fun the_literal_pair :: "clone_event \<Rightarrow> (message \<times> message) option" where
  "the_literal_pair (Clone_String_Literal s c) = Some (s, c)" | "the_literal_pair _ = None"

definition pairs :: "(clone_event \<Rightarrow> (message \<times> message) option) \<Rightarrow> clone_event list \<Rightarrow> (message \<times> message) list" where
  "pairs sel events = concat (map (\<lambda>e. case sel e of None \<Rightarrow> [] | Some p \<Rightarrow> [p]) events)"

lemma pairs_simps [simp]:
  "pairs sel [] = []" "pairs sel (e # es) = (case sel e of None \<Rightarrow> pairs sel es | Some p \<Rightarrow> p # pairs sel es)"
  "pairs sel (es @ fs) = pairs sel es @ pairs sel fs"
  by (auto simp: pairs_def split: option.splits)

definition pair_selector :: "(clone_event \<Rightarrow> (message \<times> message) option) \<Rightarrow> bool" where
  "pair_selector sel \<longleftrightarrow> sel = the_set_pair \<or> sel = the_literal_pair"

definition clone_sources :: "clone_step list \<Rightarrow> message list" where
  "clone_sources steps = concat (map (\<lambda>p. case p of Both (Some s) _ \<Rightarrow> [s] | _ \<Rightarrow> []) steps)"

lemma clone_sources_simps [simp]:
  "clone_sources [] = []" "clone_sources (Both s c # ps) = (case s of None \<Rightarrow> [] | Some m \<Rightarrow> [m]) @ clone_sources ps"
  "clone_sources (Differ # ps) = clone_sources ps" "clone_sources (ps @ qs) = clone_sources ps @ clone_sources qs"
  by (simp_all add: clone_sources_def split: option.splits)

lemma clone_parts:
  assumes "schema_ok sch"
  shows "mset (clone_sources (clone_fields sch s c)) \<subseteq># mset (parts s)"
proof (cases "msg_type s")
  case (Some d)
  have zip: "mset (clone_sources (map2 Both as bs)) \<subseteq># mset (steps_messages (map Visit as))" for as bs
    by (induction as bs rule: list_induct2') (auto simp: step_messages_def split: option.splits)
  have "mset (clone_sources (clone_field s c f)) \<subseteq># mset (steps_messages (field_steps s f))" for f
    using zip by (auto simp: clone_field_def field_steps_def step_messages_def split: option.splits)
  then have "mset (clone_sources (concat (map (clone_field s c) fs))) \<subseteq># mset (steps_messages (descriptor_scan fs s))" for fs
    by (induction fs) (auto simp: descriptor_scan_def intro: subset_mset.add_mono)
  also have "mset (steps_messages (descriptor_scan (sch d) s)) \<subseteq># mset (parts s)"
  proof -
    have ok: "distinct (map fd_name (sch d))" "distinct (map fd_id (sch d))" using assms by (simp_all add: schema_ok_def)
    show ?thesis
      using scan_parts [OF ok(2), of s] fields_apart [OF ok(1), of s] unfolding parts_def
      by (auto split: if_splits intro: subset_mset.order_trans subset_mset.add_mono subset_mset.add_increasing2)
  qed
  finally show ?thesis by (simp add: clone_fields_def Some)
qed (simp add: clone_fields_def)

lemma clone_calls_own:
  "pair_selector sel \<Longrightarrow> mset (map fst (pairs sel (clone_calls s c))) \<subseteq># {#s#}"
  by (auto simp: pair_selector_def clone_calls_def)

lemma clone_pairs_once:
  assumes "schema_ok sch" "pair_selector sel"
  shows "mset (map fst (pairs sel (clone_walk sch t t'))) \<subseteq># mset (tree_messages t)"
proof (induction t arbitrary: t' rule: measure_induct_rule [of "\<lambda>t. case t of None \<Rightarrow> 0 | Some m \<Rightarrow> Suc (size m)"])
  case (less t)
  have mismatch: "sel Clone_Mismatch = None" using assms(2) by (auto simp: pair_selector_def)
  show ?case
  proof (cases "\<exists>s c. t = Some s \<and> t' = Some c \<and> msg_type s = msg_type c")
    case True
    then obtain s c where t: "t = Some s" "t' = Some c" "msg_type s = msg_type c" by blast
    let ?run = "\<lambda>p. case p of Both s' c' \<Rightarrow> clone_walk sch s' c' | Differ \<Rightarrow> [Clone_Mismatch]"
    have "mset (map fst (pairs sel (concat (map ?run steps)))) \<subseteq># mset (concat (map messages (clone_sources steps)))"
      if "set steps \<subseteq> set (clone_fields sch s c)" for steps
      using that
    proof (induction steps)
      case (Cons p steps)
      have IH: "mset (map fst (pairs sel (concat (map ?run steps)))) \<subseteq># mset (concat (map messages (clone_sources steps)))"
        using Cons.IH Cons.prems by simp
      show ?case
      proof (cases p)
        case (Both s' c')
        have "mset (map fst (pairs sel (clone_walk sch s' c'))) \<subseteq># mset (tree_messages s')"
        proof (cases s')
          case None
          then show ?thesis by (cases c') (simp_all add: mismatch)
        next
          case (Some x)
          then have "size x < size s" using Cons.prems Both by (intro clone_field_size [of x c' sch s c]) simp
          then show ?thesis using t Some by (intro less.IH) simp
        qed
        moreover have "mset (tree_messages s') = mset (concat (map messages (case s' of None \<Rightarrow> [] | Some m \<Rightarrow> [m])))"
          by (simp add: tree_messages_def split: option.splits)
        ultimately show ?thesis using subset_mset.add_mono [OF _ IH] by (simp add: Both)
      next
        case Differ
        with IH mismatch show ?thesis by simp
      qed
    qed simp
    then have "mset (map fst (pairs sel (clone_walk sch t t'))) \<subseteq>#
        mset (map fst (pairs sel (clone_calls s c))) + mset (concat (map messages (clone_sources (clone_fields sch s c))))"
      by (simp add: t clone_walk.simps)
    also have "\<dots> \<subseteq># {#s#} + mset (concat (map messages (parts s)))"
      by (rule subset_mset.add_mono [OF clone_calls_own [OF assms(2)] concat_messages_mono [OF clone_parts [OF assms(1)]]])
    finally show ?thesis by (simp add: t tree_messages_def messages.simps [of s])
  next
    case False
    then have "clone_walk sch t t' = [] \<or> clone_walk sch t t' = [Clone_Mismatch]"
      by (cases t; cases t') (auto simp: clone_walk.simps)
    then show ?thesis using mismatch by auto
  qed
qed

text \<open>A copy of a tree at other addresses walks in step with the tree.\<close>

primrec relocate :: "(nat \<Rightarrow> nat) \<Rightarrow> message \<Rightarrow> message"
  and relocate_value :: "(nat \<Rightarrow> nat) \<Rightarrow> field_value \<Rightarrow> field_value"
where
  "relocate f (Message a t fs k s) =
     Message (f a) t (map (map_prod id (relocate_value f)) fs) k (map_option (relocate f) s)"
| "relocate_value f (Child c) = Child (map_option (relocate f) c)"
| "relocate_value f (Children cs) = Children (map (map_option (relocate f)) cs)"
| "relocate_value f (Number n) = Number n"

lemma relocate_fields [simp]:
  "msg_type (relocate f m) = msg_type m" "msg_case (relocate f m) = msg_case m"
  "msg_slot (relocate f m) = map_option (relocate f) (msg_slot m)" "address (relocate f m) = f (address m)"
  "child (relocate f m) n = map_option (relocate f) (child m n)"
  "children (relocate f m) n = map (map_option (relocate f)) (children m n)"
  "number (relocate f m) n = number m n"
proof -
  have "map_of (msg_fields (relocate f m)) n = map_option (relocate_value f) (map_of (msg_fields m) n)"
    by (cases m) (simp add: map_prod_def id_def map_of_map)
  then show "child (relocate f m) n = map_option (relocate f) (child m n)"
    "children (relocate f m) n = map (map_option (relocate f)) (children m n)" "number (relocate f m) n = number m n"
    by (auto simp: child_def children_def number_def split: option.splits field_value.splits)
qed (cases m; simp)+

lemma copy_fields:
  assumes "p \<in> set (clone_fields sch s (relocate f s))"
  shows "\<exists>x. p = Both x (map_option (relocate f) x)"
proof -
  have "p \<in> set (map2 Both xs (map (map_option (relocate f)) xs)) \<Longrightarrow> \<exists>x. p = Both x (map_option (relocate f) x)" for xs
    by (induction xs) auto
  with assms show ?thesis
    by (auto simp: clone_fields_def clone_field_def split: option.splits if_splits)
qed

lemma copy_walks_in_step:
  assumes "e \<in> set (clone_walk sch t (map_option (relocate f) t))"
  shows "e \<noteq> Clone_Mismatch \<and> (pair_selector sel \<longrightarrow> sel e = Some p \<longrightarrow> snd p = relocate f (fst p))"
  using assms
proof (induction t rule: measure_induct_rule [of "\<lambda>t. case t of None \<Rightarrow> 0 | Some m \<Rightarrow> Suc (size m)"])
  case (less t)
  then obtain s where t: "t = Some s" by (cases t) auto
  from less.prems consider (call) "e \<in> set (clone_calls s (relocate f s))"
    | (field) q where "q \<in> set (clone_fields sch s (relocate f s))"
        "e \<in> set (case q of Both s' c' \<Rightarrow> clone_walk sch s' c' | Differ \<Rightarrow> [Clone_Mismatch])"
    by (auto simp: t clone_walk.simps)
  then show ?case
  proof cases
    case call
    then show ?thesis by (auto simp: clone_calls_def pair_selector_def split: if_splits)
  next
    case field
    obtain x where x: "q = Both x (map_option (relocate f) x)" using copy_fields [OF field(1)] by blast
    show ?thesis
    proof (cases x)
      case (Some m)
      then have "size m < size s" using clone_field_size field(1) x by blast
      then show ?thesis using less.IH [of x] field(2) x Some t by simp
    qed (use field(2) x in simp)
  qed
qed

section \<open>A schema and trees over it\<close>

lemma snd_Pair [simp]: "snd \<circ> Pair i = id"
  by (rule ext) simp

text \<open>A fragment of the generated schema, for concrete trees.\<close>

definition sample_schema :: schema where
  "sample_schema d =
     (let field = (\<lambda>name k repeated oneof. \<lparr>fd_name = name, fd_id = k, fd_message = True, fd_repeated = repeated, fd_oneof = oneof\<rparr>)
      in if d = ''ParseResult'' then [field ''stmts'' 2 True False]
         else if d = ''RawStmt'' then [field ''stmt'' 1 False False]
         else if d = ''Node'' then [field ''select_stmt'' 50 False True, field ''a_const'' 71 False True, field ''param_ref'' 72 False True]
         else if d = ''SelectStmt'' then [field ''larg'' 18 False False, field ''rarg'' 19 False False]
         else [])"

definition sample_select :: "nat \<Rightarrow> int \<Rightarrow> message option \<Rightarrow> message option \<Rightarrow> message" where
  "sample_select a op l r =
     Message a (Some ''SelectStmt'') [(''op'', Number op), (''larg'', Child l), (''rarg'', Child r)] 0 None"

definition sample_tree :: "message \<Rightarrow> message" where
  "sample_tree select =
     Message 0 (Some ''ParseResult'') [(''stmts'', Children [Some (Message 1 (Some ''RawStmt'')
       [(''stmt'', Child (Some (Message 2 (Some ''Node'') [] 50 (Some select))))] 0 None)])] 0 None"

definition sample_values :: "message list \<Rightarrow> message" where
  "sample_values ts = Message 3 (Some ''SelectStmt'') [(''op'', Number 1), (''target_list'', Children (map Some ts))] 0 None"

lemma sample_schema_simps [simp]:
  "schema_ok sample_schema" "parse_schema sample_schema"
  by (simp_all add: schema_ok_def parse_schema_def sample_schema_def Let_def)

lemma sample_trees [simp]:
  "parse_result (sample_tree s)" "msg_type (sample_select a op l r) = Some ''SelectStmt''"
  "address (sample_select a op l r) = a" "number (sample_select a op l r) ''op'' = op"
  by (simp_all add: parse_result_def sample_tree_def sample_select_def children_def number_def)

lemma sample_walk [simp]:
  "visit_message sch (Some (sample_select a op l r)) =
     (if op \<noteq> SETOP_NONE then visit_message sch l @ [Set_Operation (sample_select a op l r)] @ visit_message sch r else [])"
  by (simp add: visit_message.simps message_steps_def visit_select_def is_limit_def)
    (simp add: sample_select_def child_def children_def number_def)

lemma sample_values_walk [simp]:
  "visit_message sch (Some (sample_values ts)) = concat (map (\<lambda>t. visit_message sch (Some t)) ts)"
  by (simp add: sample_values_def visit_message.simps(2) [of _ "Message _ _ _ _ _"] message_steps_def visit_select_def
      is_limit_def child_def children_def number_def SETOP_NONE_def comp_def)

lemma sample_tree_walk [simp]:
  "surface_visit sample_schema (Some (sample_tree s)) = map (Pair 0) (visit_message sample_schema (Some s))"
proof -
  have "visit_message sample_schema (Some (Message 2 (Some ''Node'') [] 50 (Some s))) = visit_message sample_schema (Some s)"
    by (simp add: visit_message.simps(2) [of _ "Message _ _ _ _ _"] message_steps_def visit_generic_def node_dispatch_def
        sample_schema_def Let_def)
  then show ?thesis
    by (simp add: surface_visit_def statement_roots_def sample_tree_def children_def child_def comp_def)
qed

section \<open>The numbering by the walk\<close>

text \<open>
  C23.  The position of a node in the walk is a name for it: the walk over the statements of a parse
  result delivers every string literal, every parameter and every set operation at most once, so no two
  positions of one kind are the same node.
\<close>

theorem walk_delivers_each_node_once:
  assumes "schema_ok sch" "parse_schema sch" "parse_result ast" "addresses_apart (Some ast)"
    and "selector = the_string_literal \<or> selector = the_param_ref \<or> selector = the_set_operation"
  shows "distinct (map address (owners selector (map snd (surface_visit sch (Some ast)))))"
  using visit_addresses [OF assms(1) _ assms(4), of selector] assms(5)
  by (simp add: parse_visit [OF assms(2,3)] own_selector_def)

theorem walk_delivers_each_node_once_witness:
  "distinct (map address (owners the_set_operation (map snd (surface_visit sample_schema
     (Some (sample_tree (sample_select 3 4 (Some (sample_select 4 4 None None)) None)))))))"
proof (rule walk_delivers_each_node_once)
  show "addresses_apart (Some (sample_tree (sample_select 3 4 (Some (sample_select 4 4 None None)) None)))"
    by (simp add: addresses_apart_def tree_messages_def sample_tree_def sample_select_def messages.simps parts_def)
qed simp_all

end
