(* ===== verification/Ordinal_Records.thy ===== *)
theory Ordinal_Records
  imports Surface_Properties
begin

text \<open>
  The tables with which a dialect marks nodes of the syntax tree: a record holds the ordinal of a node
  in the order of the surface walk, and the node itself (its owner) once the table is bound to a tree.
  Ordinals name nodes while there is only text; owners name them while the tree is edited; after the
  edit the ordinals are computed again from the owners.  \<^verbatim>\<open>sqlparser_dialect_minus.c\<close> and
  \<^verbatim>\<open>sqlparser_dialect_national_literal.c\<close> are two copies of this code over different records, so
  what they share is one set of definitions over an extensible record.
\<close>

section \<open>Records and tables\<close>

record ordinal_record =
  rec_ordinal :: nat
  rec_owner :: "nat option"

record 'r record_table =
  tb_items :: "'r list"
  tb_capacity :: nat
  tb_total :: nat
  tb_fragment_start :: nat
  tb_fragment_base :: nat

definition empty_table :: "'r record_table" where
  "empty_table = \<lparr>tb_items = [], tb_capacity = 0, tb_total = 0, tb_fragment_start = 0, tb_fragment_base = 0\<rparr>"

text \<open>Room for one more record of \<open>size\<close> bytes: the capacity, or none when memory is short.\<close>

definition grow_table :: "allocator \<Rightarrow> nat \<Rightarrow> nat \<Rightarrow> 'r record_table \<Rightarrow> nat option" where
  "grow_table alloc request record_size tb =
     (if length (tb_items tb) \<noteq> tb_capacity tb then Some (tb_capacity tb)
      else let capacity = (if tb_capacity tb = 0 then 4 else wrap_size (tb_capacity tb * 2))
        in if capacity < tb_capacity tb \<or> capacity > SIZE_MAX div record_size then None
           else if alloc request (capacity * record_size) then Some capacity else None)"

definition begin_fragment :: "'r record_table \<Rightarrow> 'r record_table" where
  "begin_fragment tb = tb\<lparr>tb_fragment_start := length (tb_items tb), tb_fragment_base := tb_total tb\<rparr>"

section \<open>Finding a record\<close>

text \<open>The first record of the sorted table whose ordinal is not below the one sought.\<close>

function lower_bound :: "'a ordinal_record_scheme list \<Rightarrow> nat \<Rightarrow> nat \<Rightarrow> nat \<Rightarrow> nat" where
  "lower_bound items ordinal left right =
     (if left < right
      then let middle = left + (right - left) div 2
        in if rec_ordinal (items ! middle) < ordinal then lower_bound items ordinal (middle + 1) right
           else lower_bound items ordinal left middle
      else left)"
  by pat_completeness auto
termination
  by (relation "measure (\<lambda>(_, _, left, right). right - left)") auto

declare lower_bound.simps [simp del]

text \<open>
  The comparison by owner: the pointers as numbers, where NULL is below every node.
\<close>

definition owner_key :: "'a ordinal_record_scheme \<Rightarrow> nat" where
  "owner_key r = (case rec_owner r of None \<Rightarrow> 0 | Some a \<Rightarrow> Suc a)"

text \<open>
  \<^verbatim>\<open>bsearch\<close> with this comparison.  It relies on the order of the records: on a table that is not
  sorted it misses records that are there.
\<close>

function search_owner :: "'a ordinal_record_scheme list \<Rightarrow> nat \<Rightarrow> nat \<Rightarrow> nat \<Rightarrow> nat option" where
  "search_owner items key left right =
     (if left < right
      then let middle = (left + right) div 2
        in if key < owner_key (items ! middle) then search_owner items key left middle
           else if owner_key (items ! middle) < key then search_owner items key (middle + 1) right
           else Some middle
      else None)"
  by pat_completeness auto
termination
  by (relation "measure (\<lambda>(_, _, left, right). right - left)") auto

declare search_owner.simps [simp del]

text \<open>The search for an owner in the first \<open>n\<close> records, which the caller has sorted by owner.\<close>

definition find_owner :: "'a ordinal_record_scheme list \<Rightarrow> nat \<Rightarrow> nat \<Rightarrow> nat option" where
  "find_owner items n owner = search_owner items (Suc owner) 0 n"

section \<open>Binding\<close>

definition set_owner :: "nat \<Rightarrow> 'a ordinal_record_scheme \<Rightarrow> 'a ordinal_record_scheme" where
  "set_owner owner r = r\<lparr>rec_owner := Some owner\<rparr>"

text \<open>Skip the records below an ordinal.\<close>

function skip_records :: "'a ordinal_record_scheme list \<Rightarrow> nat \<Rightarrow> nat \<Rightarrow> nat \<Rightarrow> nat" where
  "skip_records items record_end ordinal next_record =
     (if next_record < record_end \<and> rec_ordinal (items ! next_record) < ordinal
      then skip_records items record_end ordinal (next_record + 1) else next_record)"
  by pat_completeness auto
termination
  by (relation "measure (\<lambda>(_, record_end, _, next_record). record_end - next_record)") auto

declare skip_records.simps [simp del]

text \<open>The visits of the nodes, in the order of the walk; \<open>seen\<close> counts them.\<close>

primrec bind_visits ::
  "nat \<Rightarrow> nat \<Rightarrow> nat list \<Rightarrow> nat \<Rightarrow> nat \<Rightarrow> 'a ordinal_record_scheme list \<Rightarrow> 'a ordinal_record_scheme list \<times> nat"
where
  "bind_visits record_end ordinal_base [] seen next_record items = (items, next_record)"
| "bind_visits record_end ordinal_base (node # nodes) seen next_record items =
     (let ordinal = wrap_size (ordinal_base + seen);
          n = skip_records items record_end ordinal next_record
      in if n < record_end \<and> rec_ordinal (items ! n) = ordinal
         then bind_visits record_end ordinal_base nodes (seen + 1) (n + 1) (items[n := set_owner node (items ! n)])
         else bind_visits record_end ordinal_base nodes (seen + 1) n items)"

text \<open>The nodes are the owners the walk over the roots delivers; the table is changed also on failure.\<close>

definition bind_nodes ::
  "string \<Rightarrow> nat \<Rightarrow> nat \<Rightarrow> nat \<Rightarrow> nat list \<Rightarrow> ('a ordinal_record_scheme) record_table
     \<Rightarrow> sql_error option \<times> ('a ordinal_record_scheme) record_table"
where
  "bind_nodes missing record_start record_end ordinal_base nodes tb =
     (if record_start \<ge> record_end then (None, tb)
      else let (items, next_record) = bind_visits record_end ordinal_base nodes 0 record_start (tb_items tb)
        in (if next_record \<noteq> record_end then Some (error_set_message INTERNAL_ERROR missing) else None,
            tb\<lparr>tb_items := items\<rparr>))"

definition bind_tree ::
  "string \<Rightarrow> nat list option \<Rightarrow> ('a ordinal_record_scheme) record_table
     \<Rightarrow> sql_error option \<times> ('a ordinal_record_scheme) record_table"
where
  "bind_tree missing nodes tb =
     (if tb_items tb = [] then (None, tb)
      else let tb = tb\<lparr>tb_items := map (\<lambda>r. r\<lparr>rec_owner := None\<rparr>) (tb_items tb)\<rparr>
        in case nodes of
             None \<Rightarrow> (None, tb)
           | Some nodes \<Rightarrow> bind_nodes missing 0 (length (tb_items tb)) 0 nodes tb)"

definition bind_parts ::
  "string \<Rightarrow> string \<Rightarrow> nat list \<Rightarrow> nat list \<Rightarrow> ('a ordinal_record_scheme) record_table
     \<Rightarrow> sql_error option \<times> ('a ordinal_record_scheme) record_table"
where
  "bind_parts checkpoint missing base_nodes nodes tb =
     (if tb_fragment_start tb > length (tb_items tb) then (Some (error_set_message INTERNAL_ERROR checkpoint), tb)
      else case bind_nodes missing 0 (tb_fragment_start tb) 0 base_nodes tb of
          (Some e, tb) \<Rightarrow> (Some e, tb)
        | (None, tb) \<Rightarrow>
            bind_nodes missing (tb_fragment_start tb) (length (tb_items tb)) (tb_fragment_base tb) nodes tb)"

section \<open>Reconciling\<close>

text \<open>
  The records are sorted by owner for the search (those without an owner come first), and again by
  ordinal when they have their new ones.
\<close>

fun reconcile_visits :: "nat list \<Rightarrow> nat \<Rightarrow> 'a ordinal_record_scheme list \<Rightarrow> 'a ordinal_record_scheme list" where
  "reconcile_visits [] seen items = items"
| "reconcile_visits (node # nodes) seen items =
     reconcile_visits nodes (seen + 1)
       (case find_owner items (length items) node of
          None \<Rightarrow> items
        | Some i \<Rightarrow> items[i := (items ! i)\<lparr>rec_ordinal := seen\<rparr>])"

definition reconcile_nodes :: "nat list \<Rightarrow> ('a ordinal_record_scheme) record_table \<Rightarrow> ('a ordinal_record_scheme) record_table" where
  "reconcile_nodes nodes tb =
     (let items = map (\<lambda>r. r\<lparr>rec_ordinal := SIZE_MAX\<rparr>) (sort_key owner_key (tb_items tb));
          items = filter (\<lambda>r. rec_ordinal r \<noteq> SIZE_MAX) (reconcile_visits nodes 0 items);
          items = sort_key rec_ordinal items
      in tb\<lparr>tb_items := items, tb_total := length nodes, tb_fragment_start := length items,
           tb_fragment_base := length nodes\<rparr>)"

section \<open>What the search finds\<close>

abbreviation ordinals :: "('a ordinal_record_scheme) list \<Rightarrow> nat list" where
  "ordinals items \<equiv> map rec_ordinal items"

abbreviation strictly_sorted :: "nat list \<Rightarrow> bool" where
  "strictly_sorted \<equiv> sorted_wrt (<)"

lemma strictly_sorted_nth: "strictly_sorted xs \<Longrightarrow> i < length xs \<Longrightarrow> j < length xs \<Longrightarrow> xs ! i < xs ! j \<longleftrightarrow> i < j"
  by (metis less_asym linorder_neqE_nat sorted_wrt_nth_less)

lemma lower_bound_step:
  "lower_bound items k left right =
     (if left < right
      then (if rec_ordinal (items ! (left + (right - left) div 2)) < k
        then lower_bound items k (left + (right - left) div 2 + 1) right
        else lower_bound items k left (left + (right - left) div 2))
      else left)"
  by (subst lower_bound.simps) (simp add: Let_def)

lemma ordinals_order:
  assumes "strictly_sorted (ordinals items)" "i \<le> j" "j < length items"
  shows "rec_ordinal (items ! i) \<le> rec_ordinal (items ! j)"
  using strictly_sorted_nth [OF assms(1), of i j] assms(2,3) by (cases "i = j") auto

definition bounds_at :: "'a ordinal_record_scheme list \<Rightarrow> nat \<Rightarrow> nat \<Rightarrow> nat \<Rightarrow> bool" where
  "bounds_at items k left right \<longleftrightarrow> left \<le> right \<and> right \<le> length items \<and> (\<forall>i < left. rec_ordinal (items ! i) < k) \<and>
     (\<forall>i. right \<le> i \<and> i < length items \<longrightarrow> k \<le> rec_ordinal (items ! i))"

lemma lower_bound_bounds:
  assumes "strictly_sorted (ordinals items)"
  shows "bounds_at items k left right \<Longrightarrow>
    bounds_at items k (lower_bound items k left right) (lower_bound items k left right)"
proof (induction "right - left" arbitrary: left right rule: less_induct)
  case less
  define m where "m = left + (right - left) div 2"
  show ?case
  proof (cases "left < right")
    case True
    then have m: "left \<le> m" "m < right" "m < length items" using less.prems unfolding m_def bounds_at_def by auto
    show ?thesis
    proof (cases "rec_ordinal (items ! m) < k")
      case low: True
      have "rec_ordinal (items ! i) < k" if "i < m + 1" for i
        using ordinals_order [OF assms, of i m] that m(3) low by simp
      then have "bounds_at items k (m + 1) right" using less.prems m unfolding bounds_at_def by simp
      moreover have "right - (m + 1) < right - left" using m by simp
      ultimately have "bounds_at items k (lower_bound items k (m + 1) right) (lower_bound items k (m + 1) right)"
        by (intro less.hyps)
      then show ?thesis
        by (subst (1 2) lower_bound_step) (use True low in \<open>simp add: m_def\<close>)
    next
      case high: False
      have "k \<le> rec_ordinal (items ! i)" if "m \<le> i" "i < length items" for i
        using ordinals_order [OF assms, of m i] that high by simp
      then have "bounds_at items k left m" using less.prems m unfolding bounds_at_def by simp
      moreover have "m - left < right - left" using m by simp
      ultimately have "bounds_at items k (lower_bound items k left m) (lower_bound items k left m)"
        by (intro less.hyps)
      then show ?thesis
        by (subst (1 2) lower_bound_step) (use True high in \<open>simp add: m_def\<close>)
    qed
  next
    case False
    then have "left = right" using less.prems by (simp add: bounds_at_def)
    moreover have "lower_bound items k left left = left" by (subst lower_bound.simps) simp
    ultimately show ?thesis using less.prems by simp
  qed
qed

lemma lower_bound_spec:
  assumes "strictly_sorted (ordinals items)"
  shows "lower_bound items k 0 (length items) \<le> length items"
    "\<forall>i < lower_bound items k 0 (length items). rec_ordinal (items ! i) < k"
    "\<forall>i. lower_bound items k 0 (length items) \<le> i \<and> i < length items \<longrightarrow> k \<le> rec_ordinal (items ! i)"
  using lower_bound_bounds [OF assms, of k 0 "length items"] by (auto simp: bounds_at_def)

text \<open>The search finds the record with the ordinal, if there is one.\<close>

lemma lower_bound_finds:
  assumes "strictly_sorted (ordinals items)" "p = lower_bound items k 0 (length items)"
  shows "(p < length items \<and> rec_ordinal (items ! p) = k) \<longleftrightarrow> k \<in> set (ordinals items)"
    "i < length items \<Longrightarrow> rec_ordinal (items ! i) = k \<Longrightarrow> p = i"
proof -
  have spec: "p \<le> length items" "\<forall>i < p. rec_ordinal (items ! i) < k"
    "\<forall>i. p \<le> i \<and> i < length items \<longrightarrow> k \<le> rec_ordinal (items ! i)"
    using lower_bound_spec [OF assms(1), of k] unfolding assms(2) by auto
  show at: "p = i" if "i < length items" "rec_ordinal (items ! i) = k" for i
  proof (rule ccontr)
    assume "p \<noteq> i"
    moreover have "\<not> i < p" using spec(2) that(2) by auto
    ultimately have "p < i" by simp
    with strictly_sorted_nth [OF assms(1), of p i] that spec(3) show False by fastforce
  qed
  show "(p < length items \<and> rec_ordinal (items ! p) = k) \<longleftrightarrow> k \<in> set (ordinals items)"
    using at by (force simp: in_set_conv_nth)
qed

section \<open>What binding does\<close>

lemma skip_none: "(n < e \<Longrightarrow> k \<le> rec_ordinal (items ! n)) \<Longrightarrow> skip_records items e k n = n"
  by (subst skip_records.simps) auto

text \<open>
  The records from \<open>n\<close> up to \<open>e\<close> are sorted and none is below the first node that is visited: then each
  is bound to the node at its ordinal, and all are bound when there are enough nodes.
\<close>

lemma bind_visits_spec:
  assumes "bind_visits e base nodes seen n items = (items', n')" "n \<le> e" "e \<le> length items"
    and "\<forall>i j. n \<le> i \<and> i < j \<and> j < e \<longrightarrow> rec_ordinal (items ! i) < rec_ordinal (items ! j)"
    and "\<forall>i. n \<le> i \<and> i < e \<longrightarrow> base + seen \<le> rec_ordinal (items ! i)" "base + seen + length nodes \<le> SIZE_MAX"
  shows "length items' = length items \<and> n' \<le> e \<and>
    (\<forall>i < length items. items' ! i = (if n \<le> i \<and> i < e \<and> rec_ordinal (items ! i) < base + seen + length nodes
       then set_owner (nodes ! (rec_ordinal (items ! i) - (base + seen))) (items ! i) else items ! i)) \<and>
    (n' = e \<longleftrightarrow> (\<forall>i. n \<le> i \<and> i < e \<longrightarrow> rec_ordinal (items ! i) < base + seen + length nodes))"
  using assms
proof (induction nodes arbitrary: seen n items)
  case Nil
  then have "items' = items" "n' = n" by simp_all
  moreover have "n = e \<longleftrightarrow> (\<forall>i. n \<le> i \<and> i < e \<longrightarrow> rec_ordinal (items ! i) < base + seen)"
    using Nil.prems(2,5) by (metis le_neq_implies_less le_refl not_less)
  ultimately show ?case using Nil.prems(2,5) by (auto simp: not_less [symmetric])
next
  case (Cons node nodes)
  have skip: "skip_records items e (base + seen) n = n" using Cons.prems(5) by (intro skip_none) simp
  have wrap: "wrap_size (base + seen) = base + seen" using Cons.prems(6) by simp
  show ?case
  proof (cases "n < e \<and> rec_ordinal (items ! n) = base + seen")
    case True
    let ?items = "items[n := set_owner node (items ! n)]"
    have nth: "?items ! i = (if i = n then set_owner node (items ! n) else items ! i)" if "i < length items" for i
      using that by (simp add: nth_list_update)
    have above: "base + Suc seen \<le> rec_ordinal (items ! i)" if "Suc n \<le> i" "i < e" for i
      using Cons.prems(4) True that by (metis Suc_le_eq add_Suc_right le_refl)
    have run: "bind_visits e base nodes (Suc seen) (Suc n) ?items = (items', n')"
      using Cons.prems(1) True by (simp add: skip wrap)
    have IH: "length items' = length ?items \<and> n' \<le> e \<and>
        (\<forall>i < length ?items. items' ! i = (if Suc n \<le> i \<and> i < e \<and> rec_ordinal (?items ! i) < base + Suc seen + length nodes
           then set_owner (nodes ! (rec_ordinal (?items ! i) - (base + Suc seen))) (?items ! i) else ?items ! i)) \<and>
        (n' = e \<longleftrightarrow> (\<forall>i. Suc n \<le> i \<and> i < e \<longrightarrow> rec_ordinal (?items ! i) < base + Suc seen + length nodes))"
    proof (rule Cons.IH [OF run])
      show "\<forall>i j. Suc n \<le> i \<and> i < j \<and> j < e \<longrightarrow> rec_ordinal (?items ! i) < rec_ordinal (?items ! j)"
        using Cons.prems(3,4) nth by auto
      show "\<forall>i. Suc n \<le> i \<and> i < e \<longrightarrow> base + Suc seen \<le> rec_ordinal (?items ! i)"
        using above Cons.prems(3) nth by auto
    qed (use True Cons.prems(3,6) in auto)
    have shift: "(node # nodes) ! (k - (base + seen)) = nodes ! (k - (base + Suc seen))" if "base + Suc seen \<le> k" for k
      using that by (simp add: nth_Cons' diff_Suc)
    have items': "items' ! i = (if n \<le> i \<and> i < e \<and> rec_ordinal (items ! i) < base + seen + length (node # nodes)
       then set_owner ((node # nodes) ! (rec_ordinal (items ! i) - (base + seen))) (items ! i) else items ! i)"
      if "i < length items" for i
    proof (cases "i = n")
      case True
      then show ?thesis using IH that nth \<open>n < e \<and> _\<close> by simp
    next
      case False
      with IH that nth [OF that] above [of i] shift show ?thesis by (auto simp: Suc_le_eq)
    qed
    moreover have "n' = e \<longleftrightarrow> (\<forall>i. n \<le> i \<and> i < e \<longrightarrow> rec_ordinal (items ! i) < base + seen + length (node # nodes))"
      using IH nth Cons.prems(3) True by (auto simp: Suc_le_eq le_less)
    ultimately show ?thesis using IH by simp
  next
    case False
    have above: "base + Suc seen \<le> rec_ordinal (items ! i)" if "n \<le> i" "i < e" for i
    proof -
      have "base + seen < rec_ordinal (items ! n)" using False Cons.prems(5) that by (metis le_less_trans le_neq_implies_less le_refl)
      then show ?thesis using Cons.prems(4) that by (metis Suc_leI add_Suc_right le_less less_trans)
    qed
    have run: "bind_visits e base nodes (Suc seen) n items = (items', n')"
      using Cons.prems(1) False by (auto simp: skip wrap)
    have shift: "(node # nodes) ! (k - (base + seen)) = nodes ! (k - Suc (base + seen))" if "Suc (base + seen) \<le> k" for k
      using that by (simp add: nth_Cons' diff_Suc)
    have IH: "length items' = length items \<and> n' \<le> e \<and>
        (\<forall>i < length items. items' ! i = (if n \<le> i \<and> i < e \<and> rec_ordinal (items ! i) < base + Suc seen + length nodes
           then set_owner (nodes ! (rec_ordinal (items ! i) - (base + Suc seen))) (items ! i) else items ! i)) \<and>
        (n' = e \<longleftrightarrow> (\<forall>i. n \<le> i \<and> i < e \<longrightarrow> rec_ordinal (items ! i) < base + Suc seen + length nodes))"
      by (rule Cons.IH [OF run Cons.prems(2-4)]) (use above Cons.prems(6) in auto)
    have "items' ! i = (if n \<le> i \<and> i < e \<and> rec_ordinal (items ! i) < base + seen + length (node # nodes)
       then set_owner ((node # nodes) ! (rec_ordinal (items ! i) - (base + seen))) (items ! i) else items ! i)"
      if "i < length items" for i
      using IH that above [of i] shift [of "rec_ordinal (items ! i)"] by (cases "n \<le> i \<and> i < e") auto
    then show ?thesis using IH by simp
  qed
qed

text \<open>A range of the table, sorted and not below the base: each record gets the node at its ordinal.\<close>

definition own :: "nat list \<Rightarrow> nat \<Rightarrow> 'a ordinal_record_scheme \<Rightarrow> 'a ordinal_record_scheme" where
  "own nodes base r = (if rec_ordinal r < base + length nodes then set_owner (nodes ! (rec_ordinal r - base)) r else r)"

lemma own_fields [simp]: "rec_ordinal (own nodes base r) = rec_ordinal r"
  by (simp add: own_def set_owner_def)

lemma bind_nodes_range:
  fixes range :: "('a ordinal_record_scheme) list"
  assumes "tb_items tb = before @ range @ after" "strictly_sorted (ordinals range)" "\<forall>r \<in> set range. base \<le> rec_ordinal r"
    and "base + length nodes \<le> SIZE_MAX"
  shows "bind_nodes missing (length before) (length before + length range) base nodes tb =
    (if \<forall>r \<in> set range. rec_ordinal r < base + length nodes then None else Some (error_set_message INTERNAL_ERROR missing),
     tb\<lparr>tb_items := before @ map (own nodes base) range @ after\<rparr>)"
proof (cases "range = []")
  case True
  then show ?thesis using assms(1) by (cases tb) (simp add: bind_nodes_def)
next
  case False
  let ?n = "length before" and ?e = "length before + length range"
  let ?items = "before @ range @ after"
  obtain items' n' where run: "bind_visits ?e base nodes 0 ?n ?items = (items', n')" by fastforce
  have at: "?items ! i = range ! (i - ?n)" if "?n \<le> i" "i < ?e" for i using that by (simp add: nth_append)
  have sorted: "\<forall>i j. ?n \<le> i \<and> i < j \<and> j < ?e \<longrightarrow> rec_ordinal (?items ! i) < rec_ordinal (?items ! j)"
  proof (intro allI impI)
    fix i j assume ij: "?n \<le> i \<and> i < j \<and> j < ?e"
    then have "i - ?n < length range" "j - ?n < length range" "i - ?n < j - ?n" by auto
    moreover from this have "ordinals range ! (i - ?n) < ordinals range ! (j - ?n)"
      by (intro sorted_wrt_nth_less [OF assms(2)]) auto
    ultimately show "rec_ordinal (?items ! i) < rec_ordinal (?items ! j)" using ij by (simp add: at)
  qed
  have above: "\<forall>i. ?n \<le> i \<and> i < ?e \<longrightarrow> base + 0 \<le> rec_ordinal (?items ! i)"
  proof (intro allI impI)
    fix i assume i: "?n \<le> i \<and> i < ?e"
    then have "range ! (i - ?n) \<in> set range" by (intro nth_mem) auto
    then show "base + 0 \<le> rec_ordinal (?items ! i)" using i assms(3) by (simp add: at)
  qed
  have spec: "length items' = length ?items \<and> n' \<le> ?e \<and>
      (\<forall>i < length ?items. items' ! i = (if ?n \<le> i \<and> i < ?e \<and> rec_ordinal (?items ! i) < base + 0 + length nodes
         then set_owner (nodes ! (rec_ordinal (?items ! i) - (base + 0))) (?items ! i) else ?items ! i)) \<and>
      (n' = ?e \<longleftrightarrow> (\<forall>i. ?n \<le> i \<and> i < ?e \<longrightarrow> rec_ordinal (?items ! i) < base + 0 + length nodes))"
    by (rule bind_visits_spec [OF run _ _ sorted above]) (use assms(4) in auto)
  have "items' = before @ map (own nodes base) range @ after"
  proof (rule nth_equalityI)
    fix i assume "i < length items'"
    then have i: "i < length ?items" using spec by simp
    show "items' ! i = (before @ map (own nodes base) range @ after) ! i"
      using spec i by (auto simp: nth_append own_def)
  qed (use spec in simp)
  moreover have "n' = ?e \<longleftrightarrow> (\<forall>r \<in> set range. rec_ordinal r < base + length nodes)"
  proof -
    have "(\<forall>i. ?n \<le> i \<and> i < ?e \<longrightarrow> rec_ordinal (?items ! i) < base + length nodes) \<longleftrightarrow>
        (\<forall>j < length range. rec_ordinal (range ! j) < base + length nodes)" (is "?L \<longleftrightarrow> ?R")
    proof
      show ?R if ?L
      proof (intro allI impI)
        fix j assume "j < length range"
        then show "rec_ordinal (range ! j) < base + length nodes" using that [rule_format, of "?n + j"] by (simp add: nth_append)
      qed
      show ?L if ?R
      proof (intro allI impI)
        fix i assume i: "?n \<le> i \<and> i < ?e"
        then have "i - ?n < length range" by auto
        with that i show "rec_ordinal (?items ! i) < base + length nodes" by (simp add: at)
      qed
    qed
    then show ?thesis using spec by (simp add: all_set_conv_all_nth)
  qed
  ultimately show ?thesis using False assms(1) run by (auto simp: bind_nodes_def not_le)
qed

section \<open>What reconciling does\<close>

definition place :: "nat list \<Rightarrow> nat \<Rightarrow> nat" where
  "place nodes a = length (takeWhile (\<lambda>x. x \<noteq> a) nodes)"

lemma place_simps [simp]: "place (x # nodes) a = (if x = a then 0 else Suc (place nodes a))" "place [] a = 0"
  by (simp_all add: place_def)

lemma place_nth: "a \<in> set nodes \<Longrightarrow> place nodes a < length nodes \<and> nodes ! place nodes a = a"
  by (induction nodes) auto

lemma place_distinct: "distinct nodes \<Longrightarrow> k < length nodes \<Longrightarrow> place nodes (nodes ! k) = k"
  by (metis distinct_conv_nth nth_mem place_nth)

text \<open>No two records have the same owner.\<close>

definition owners_apart :: "'a ordinal_record_scheme list \<Rightarrow> bool" where
  "owners_apart items = distinct (filter (\<lambda>x. x \<noteq> None) (map rec_owner items))"

lemma owners_apart_simps [simp]:
  "owners_apart []" "owners_apart (r # rs) \<longleftrightarrow> (rec_owner r \<noteq> None \<longrightarrow> rec_owner r \<notin> rec_owner ` set rs) \<and> owners_apart rs"
  by (auto simp: owners_apart_def)

lemma owners_apart_map: "(\<And>r. rec_owner (f r) = rec_owner r) \<Longrightarrow> owners_apart (map f items) = owners_apart items"
  by (simp add: owners_apart_def comp_def)

lemma owners_apart_perm:
  assumes "mset xs = mset ys" "owners_apart xs"
  shows "owners_apart ys"
proof -
  have "mset (filter (\<lambda>x. x \<noteq> None) (map rec_owner xs)) = mset (filter (\<lambda>x. x \<noteq> None) (map rec_owner ys))"
    using assms(1) by (metis mset_filter mset_map)
  then show ?thesis using assms(2) unfolding owners_apart_def by (metis mset_eq_imp_distinct_iff)
qed

text \<open>
  The search on a sorted table: outside the range that is left, the records below are smaller than the
  key and the records above are larger.
\<close>

abbreviation by_owner :: "('a ordinal_record_scheme) list \<Rightarrow> bool" where
  "by_owner items \<equiv> sorted (map owner_key items)"

lemma search_owner_finds:
  assumes "by_owner (take n items)" "n \<le> length items" "right \<le> n"
    and "\<forall>i < left. i < n \<longrightarrow> owner_key (items ! i) < key" "\<forall>i < n. right \<le> i \<longrightarrow> key < owner_key (items ! i)"
  shows "case search_owner items key left right of
      Some i \<Rightarrow> i < n \<and> owner_key (items ! i) = key
    | None \<Rightarrow> \<forall>i < n. owner_key (items ! i) \<noteq> key"
  using assms
proof (induction items key left right rule: search_owner.induct)
  case (1 items key left right)
  define m where "m = (left + right) div 2"
  note step = search_owner.simps [of items key left right, folded m_def, unfolded Let_def]
  have order: "i \<le> j \<Longrightarrow> j < n \<Longrightarrow> owner_key (items ! i) \<le> owner_key (items ! j)" for i j
    using "1.prems"(1,2) sorted_nth_mono [of "map owner_key (take n items)" i j] by simp
  show ?case
  proof (cases "left < right")
    case False
    have "owner_key (items ! i) \<noteq> key" if "i < n" for i
      using "1.prems"(4,5) that False by (cases "i < left") fastforce+
    then show ?thesis using False by (simp add: step)
  next
    case True
    then have m: "m < right" "left \<le> m" "m < n" using "1.prems"(3) by (auto simp: m_def)
    consider (below) "key < owner_key (items ! m)" | (above) "owner_key (items ! m) < key" | (hit) "owner_key (items ! m) = key"
      by linarith
    then show ?thesis
    proof cases
      case below
      then have "\<forall>i < n. m \<le> i \<longrightarrow> key < owner_key (items ! i)" using order by (meson less_le_trans)
      then show ?thesis
        using "1.IH"(1) [OF True m_def below] "1.prems" m True below by (simp add: step)
    next
      case above
      then have "\<forall>i < m + 1. i < n \<longrightarrow> owner_key (items ! i) < key"
        using order m(3) by (metis Suc_eq_plus1 le_less_trans less_Suc_eq_le)
      moreover have not_below: "\<not> key < owner_key (items ! m)" using above by simp
      ultimately show ?thesis
        using "1.IH"(2) [OF True m_def not_below above] "1.prems" m True above by (simp add: step not_below)
    next
      case hit
      then show ?thesis using m True by (simp add: step)
    qed
  qed
qed

lemma owner_key_iff: "owner_key r = Suc a \<longleftrightarrow> rec_owner r = Some a"
  by (simp add: owner_key_def split: option.splits)

lemma find_owner_cases:
  assumes "by_owner base" "length base = n"
  shows "case find_owner (base @ extra) n a of
      Some i \<Rightarrow> i < length base \<and> rec_owner (base ! i) = Some a
    | None \<Rightarrow> Some a \<notin> rec_owner ` set base"
  using search_owner_finds [of "length base" "base @ extra" "length base" 0 "Suc a"] assms
  by (auto simp: find_owner_def owner_key_iff in_set_conv_nth nth_append split: option.splits)

lemma search_owner_single [simp]:
  "search_owner [r] key 0 (Suc 0) = (if owner_key r = key then Some 0 else None)"
  by (simp add: search_owner.simps)

text \<open>Changing the record found is changing the record with the owner.\<close>

lemma apart_update:
  assumes "owners_apart items" "i < length items" "rec_owner (items ! i) = Some a"
  shows "items[i := g (items ! i)] = map (\<lambda>r. if rec_owner r = Some a then g r else r) items"
  using assms
proof (induction items arbitrary: i)
  case (Cons r rs)
  show ?case
  proof (cases i)
    case 0
    have "map (\<lambda>r. if rec_owner r = Some a then g r else r) rs = rs"
      by (rule map_idI) (use Cons.prems 0 in \<open>force simp: image_iff\<close>)
    then show ?thesis using Cons.prems 0 by simp
  next
    case (Suc j)
    then have "rec_owner r \<noteq> Some a" using Cons.prems by (force simp: in_set_conv_nth image_iff)
    then show ?thesis using Cons Suc by simp
  qed
qed simp

lemma find_owner_update:
  assumes "owners_apart items" "by_owner items"
  shows "(case find_owner items (length items) a of None \<Rightarrow> items | Some i \<Rightarrow> items[i := g (items ! i)]) =
    map (\<lambda>r. if rec_owner r = Some a then g r else r) items"
proof (cases "find_owner items (length items) a")
  case None
  then have "Some a \<notin> rec_owner ` set items" using find_owner_cases [OF assms(2) refl, where extra = "[]" and a = a] by simp
  then have "map (\<lambda>r. if rec_owner r = Some a then g r else r) items = items"
    by (intro map_idI) (force simp: image_iff)
  then show ?thesis using None by simp
next
  case (Some i)
  then show ?thesis using find_owner_cases [OF assms(2) refl, where extra = "[]" and a = a] apart_update [OF assms(1), of i a g] by simp
qed

definition renumber :: "nat list \<Rightarrow> nat \<Rightarrow> 'a ordinal_record_scheme \<Rightarrow> 'a ordinal_record_scheme" where
  "renumber nodes seen r =
     (case rec_owner r of Some a \<Rightarrow> if a \<in> set nodes then r\<lparr>rec_ordinal := seen + place nodes a\<rparr> else r | None \<Rightarrow> r)"

lemma renumber_owner [simp]: "rec_owner (renumber nodes seen r) = rec_owner r"
  by (simp add: renumber_def split: option.splits)

lemma reconcile_visits_spec:
  "owners_apart items \<Longrightarrow> by_owner items \<Longrightarrow> distinct nodes \<Longrightarrow>
     reconcile_visits nodes seen items = map (renumber nodes seen) items"
proof (induction nodes arbitrary: seen items)
  case Nil
  have "renumber [] seen r = r" for r :: "'a ordinal_record_scheme" by (simp add: renumber_def split: option.splits)
  then show ?case by (simp add: map_idI)
next
  case (Cons node nodes)
  define stamp where "stamp = (\<lambda>r :: 'a ordinal_record_scheme. if rec_owner r = Some node then r\<lparr>rec_ordinal := seen\<rparr> else r)"
  have "rec_owner (stamp r) = rec_owner r" for r by (simp add: stamp_def)
  then have apart: "owners_apart (map stamp items)" "by_owner (map stamp items)"
    using Cons.prems(1,2) by (simp_all add: owners_apart_map owner_key_def comp_def)
  have "renumber nodes (seen + 1) (stamp r) = renumber (node # nodes) seen r" for r
    using Cons.prems(3) by (auto simp: renumber_def stamp_def split: option.splits)
  then show ?case
    using Cons.IH [OF apart, of "seen + 1"] Cons.prems
    by (simp add: find_owner_update [where g = "\<lambda>r. r\<lparr>rec_ordinal := seen\<rparr>"] stamp_def [symmetric] comp_def)
qed

lemma owners_apart_filter: "owners_apart items \<Longrightarrow> owners_apart (filter P items)"
  by (induction items) auto

text \<open>The records that are kept, with their new ordinals: those whose node is in the tree.\<close>

definition relocated :: "nat list \<Rightarrow> 'a ordinal_record_scheme \<Rightarrow> 'a ordinal_record_scheme" where
  "relocated nodes r = r\<lparr>rec_ordinal := place nodes (the (rec_owner r))\<rparr>"

definition in_tree :: "nat list \<Rightarrow> 'a ordinal_record_scheme \<Rightarrow> bool" where
  "in_tree nodes r \<longleftrightarrow> rec_owner r \<in> Some ` set nodes"

lemma relocated_owner [simp]: "rec_owner (relocated nodes r) = rec_owner r"
  by (simp add: relocated_def)

lemma reconcile_records:
  assumes "owners_apart (tb_items tb)" "distinct nodes" "length nodes \<le> SIZE_MAX"
  shows "mset (tb_items (reconcile_nodes nodes tb)) =
    image_mset (relocated nodes) (filter_mset (in_tree nodes) (mset (tb_items tb)))"
proof -
  define blank where "blank = (\<lambda>r :: 'a ordinal_record_scheme. r\<lparr>rec_ordinal := SIZE_MAX\<rparr>)"
  define sorted where "sorted = sort_key owner_key (tb_items tb)"
  have same: "mset sorted = mset (tb_items tb)" by (simp add: sorted_def)
  have "owners_apart sorted" by (rule owners_apart_perm [OF same [symmetric] assms(1)])
  then have "owners_apart (map blank sorted)" by (simp add: owners_apart_map blank_def)
  moreover have "owner_key (blank r) = owner_key r" for r by (simp add: blank_def owner_key_def)
  then have "by_owner (map blank sorted)" by (simp add: sorted_def comp_def)
  ultimately have visits: "reconcile_visits nodes 0 (map blank sorted) = map (renumber nodes 0) (map blank sorted)"
    by (rule reconcile_visits_spec [OF _ _ assms(2)])
  have kept: "(rec_ordinal (renumber nodes 0 (blank r)) \<noteq> SIZE_MAX) = in_tree nodes r" for r
    using place_nth [of "the (rec_owner r)" nodes] assms(3)
    by (auto simp: renumber_def blank_def in_tree_def split: option.splits)
  have new: "in_tree nodes r \<Longrightarrow> renumber nodes 0 (blank r) = relocated nodes r" for r
    by (auto simp: renumber_def blank_def relocated_def in_tree_def)
  have "mset (tb_items (reconcile_nodes nodes tb)) =
      mset (filter (\<lambda>r. rec_ordinal r \<noteq> SIZE_MAX) (map (renumber nodes 0) (map blank sorted)))"
    by (simp add: reconcile_nodes_def Let_def blank_def [symmetric] sorted_def [symmetric] visits)
  also have "\<dots> = mset (map (\<lambda>r. renumber nodes 0 (blank r)) (filter (in_tree nodes) sorted))"
    by (simp add: filter_map comp_def kept)
  also have "\<dots> = mset (map (relocated nodes) (filter (in_tree nodes) sorted))"
    by (intro arg_cong [where f = mset] map_cong refl) (simp add: new)
  finally show ?thesis by (simp add: mset_map mset_filter same)
qed

lemma reconcile_sorted:
  assumes "owners_apart (tb_items tb)" "distinct nodes" "length nodes \<le> SIZE_MAX"
  shows "strictly_sorted (ordinals (tb_items (reconcile_nodes nodes tb)))"
    "owners_apart (tb_items (reconcile_nodes nodes tb))"
proof -
  let ?items = "tb_items (reconcile_nodes nodes tb)"
  note records = reconcile_records [OF assms]
  have member: "set ?items = relocated nodes ` {r \<in> set (tb_items tb). in_tree nodes r}"
    using arg_cong [OF records, of set_mset] by simp
  have owner: "rec_owner r = Some (nodes ! rec_ordinal r)" if "r \<in> set ?items" for r
    using that unfolding member by (auto simp: relocated_def in_tree_def place_nth)
  show apart: "owners_apart ?items"
  proof (rule owners_apart_perm)
    show "mset (map (relocated nodes) (filter (in_tree nodes) (tb_items tb))) = mset ?items"
      by (simp add: records)
    show "owners_apart (map (relocated nodes) (filter (in_tree nodes) (tb_items tb)))"
      by (simp add: owners_apart_map owners_apart_filter assms(1))
  qed
  have eq: "map rec_owner ?items = map (\<lambda>k. Some (nodes ! k)) (ordinals ?items)"
    by (simp add: owner)
  have all: "filter (\<lambda>x. x \<noteq> None) (map rec_owner ?items) = map rec_owner ?items"
    by (rule filter_True) (auto simp: owner)
  have "distinct (map (\<lambda>k. Some (nodes ! k)) (ordinals ?items))"
    using apart unfolding owners_apart_def all by (simp only: eq)
  then have "distinct (ordinals ?items)" by (rule conjunct1 [OF iffD1 [OF distinct_map]])
  moreover have "sorted (ordinals ?items)" by (simp add: reconcile_nodes_def Let_def)
  ultimately show "strictly_sorted (ordinals ?items)" by (simp add: strict_sorted_iff)
qed

text \<open>After reconciling, the search finds an ordinal exactly when the node there has a record.\<close>

definition marked :: "('a ordinal_record_scheme) record_table \<Rightarrow> nat \<Rightarrow> bool" where
  "marked tb a \<longleftrightarrow> Some a \<in> rec_owner ` set (tb_items tb)"

lemma reconcile_ordinals:
  assumes "owners_apart (tb_items tb)" "distinct nodes" "length nodes \<le> SIZE_MAX"
  shows "k \<in> set (ordinals (tb_items (reconcile_nodes nodes tb))) \<longleftrightarrow> k < length nodes \<and> marked tb (nodes ! k)"
proof -
  have "set (tb_items (reconcile_nodes nodes tb)) = relocated nodes ` {r \<in> set (tb_items tb). in_tree nodes r}"
    using arg_cong [OF reconcile_records [OF assms], of set_mset] by simp
  then have "k \<in> set (ordinals (tb_items (reconcile_nodes nodes tb))) \<longleftrightarrow>
      (\<exists>r \<in> set (tb_items tb). in_tree nodes r \<and> k = place nodes (the (rec_owner r)))"
    by (auto simp: image_iff relocated_def)
  also have "\<dots> \<longleftrightarrow> k < length nodes \<and> marked tb (nodes ! k)" (is "?L \<longleftrightarrow> ?R")
  proof
    assume ?L
    then obtain r a where "r \<in> set (tb_items tb)" "rec_owner r = Some a" "a \<in> set nodes" "k = place nodes a"
      by (auto simp: in_tree_def)
    then show ?R using place_nth [of a nodes] by (auto simp: marked_def image_iff intro!: bexI [of _ r])
  next
    assume r: ?R
    then obtain r where "r \<in> set (tb_items tb)" "rec_owner r = Some (nodes ! k)" by (auto simp: marked_def)
    then show ?L using r place_distinct [OF assms(2), of k] by (auto simp: in_tree_def intro!: bexI [of _ r])
  qed
  finally show ?thesis .
qed

end
