(* ===== verification/Owner_Cloning.thy ===== *)
theory Owner_Cloning
  imports Ordinal_Records
begin

text \<open>
  When a tree is copied, the copies of its marked nodes are marked too.  The two tables of
  \<^verbatim>\<open>sqlparser_dialect_minus.c\<close> and \<^verbatim>\<open>sqlparser_dialect_national_literal.c\<close> do this with the same
  call, each with a callback of its own that appends a record for the copy; what the callbacks promise
  is the interface below.
\<close>

section \<open>The call\<close>

text \<open>
  The first records are those of the table before the call, sorted by owner, and the callback searches
  these; on failure the appended records are dropped.
\<close>

definition clone_tree_owners ::
  "schema \<Rightarrow> (nat \<Rightarrow> clone_event \<Rightarrow> ('a ordinal_record_scheme) record_table \<times> sql_error option \<Rightarrow>
      (('a ordinal_record_scheme) record_table \<times> sql_error option) \<times> status) \<Rightarrow> string \<Rightarrow>
   ('a ordinal_record_scheme) record_table \<Rightarrow> message option \<Rightarrow> message option \<Rightarrow>
   sql_error option \<times> ('a ordinal_record_scheme) record_table"
where
  "clone_tree_owners sch visit inconsistent tb source_root clone_root =
     (if source_root = None \<or> clone_root = None \<or> tb_items tb = [] then (None, tb)
      else let original_count = length (tb_items tb);
               sorted = tb\<lparr>tb_items := sort_key owner_key (tb_items tb)\<rparr>;
               ((tb', e), st) = surface_clone sch (visit original_count) source_root clone_root (sorted, None)
        in if st = STATUS_OK then (None, tb')
           else (if st = INTERNAL_ERROR then Some (error_set_message INTERNAL_ERROR inconsistent) else e,
             tb'\<lparr>tb_items := take original_count (tb_items tb')\<rparr>))"

section \<open>What a callback promises\<close>

lemma find_owner_prefix:
  "by_owner base \<Longrightarrow> (find_owner (base @ extra) (length base) a \<noteq> None) \<longleftrightarrow> Some a \<in> rec_owner ` set base"
  using find_owner_cases [of base "length base" a extra]
  by (cases "find_owner (base @ extra) (length base) a") (auto simp: image_iff Bex_def, metis nth_mem)

lemma run_clone_Cons:
  "event \<noteq> Clone_Mismatch \<Longrightarrow> run_clone callback (event # es) context =
     (let (context', st) = callback event context
      in if st \<noteq> STATUS_OK then (context', st) else run_clone callback es context')"
  by (cases event) simp_all

text \<open>
  A callback either appends the records of the copy (\<open>copied\<close>) to the table, or runs out of memory and
  leaves the table alone; the records it appends own the copies of the wanted nodes with a record.
\<close>

locale owner_cloning =
  fixes visit :: "nat \<Rightarrow> clone_event \<Rightarrow> ('a ordinal_record_scheme) record_table \<times> sql_error option \<Rightarrow>
      (('a ordinal_record_scheme) record_table \<times> sql_error option) \<times> status"
    and copied :: "'a ordinal_record_scheme list \<Rightarrow> clone_event \<Rightarrow> 'a ordinal_record_scheme list"
    and selector :: "clone_event \<Rightarrow> (message \<times> message) option"
    and wanted :: "message \<Rightarrow> bool"
    and sane :: "'a ordinal_record_scheme \<Rightarrow> bool"
  assumes visit_spec: "tb_items tb = base @ extra \<Longrightarrow> list_all sane base \<Longrightarrow> owners_apart base \<Longrightarrow> by_owner base \<Longrightarrow>
      visit (length base) event (tb, None) = ((tb', e), st) \<Longrightarrow>
      (st = STATUS_OK \<and> e = None \<and> tb_items tb' = base @ extra @ copied base event) \<or>
      (st = NO_MEMORY \<and> e = Some (error_set_message NO_MEMORY ''out of memory'') \<and> tb_items tb' = base @ extra)"
    and copied_owners: "map rec_owner (copied base event) =
      (case selector event of
         None \<Rightarrow> []
       | Some (s, c) \<Rightarrow> if wanted s \<and> Some (address s) \<in> rec_owner ` set base then [Some (address c)] else [])"
    and selects_pairs: "pair_selector selector"
    and copied_perm: "mset base = mset base2 \<Longrightarrow> owners_apart base \<Longrightarrow> copied base = copied base2"
begin

lemma clone_run:
  assumes "run_clone (visit (length base)) events (tb, None) = ((tb', e), st)" "tb_items tb = base @ extra"
    and "list_all sane base" "owners_apart base" "by_owner base"
  shows "(\<exists>new. tb_items tb' = base @ extra @ new) \<and>
    (st = STATUS_OK \<longrightarrow> Clone_Mismatch \<notin> set events \<and>
      tb_items tb' = base @ extra @ concat (map (copied base) events)) \<and>
    (st = STATUS_OK \<or> st = INTERNAL_ERROR \<and> Clone_Mismatch \<in> set events \<or>
      st = NO_MEMORY \<and> e = Some (error_set_message NO_MEMORY ''out of memory''))"
  using assms(1,2)
proof (induction events arbitrary: tb extra)
  case (Cons event events)
  show ?case
  proof (cases "event = Clone_Mismatch")
    case True
    then show ?thesis using Cons.prems by auto
  next
    case False
    obtain tb1 e1 st1 where step: "visit (length base) event (tb, None) = ((tb1, e1), st1)"
      by (metis surj_pair)
    from visit_spec [OF Cons.prems(2) assms(3-5) step] show ?thesis
    proof
      assume ok: "st1 = STATUS_OK \<and> e1 = None \<and> tb_items tb1 = base @ extra @ copied base event"
      then have run: "run_clone (visit (length base)) events (tb1, None) = ((tb', e), st)"
        using Cons.prems(1) step False by (simp add: run_clone_Cons)
      have "tb_items tb1 = base @ (extra @ copied base event)" using ok by simp
      from Cons.IH [OF run this] False show ?thesis by auto
    next
      assume bad: "st1 = NO_MEMORY \<and> e1 = Some (error_set_message NO_MEMORY ''out of memory'') \<and> tb_items tb1 = base @ extra"
      then show ?thesis using Cons.prems step False by (auto simp: run_clone_Cons)
    qed
  qed
qed auto

lemma clone_result:
  assumes "clone_tree_owners sch visit inconsistent tb (Some source) (Some clone) = (e, tb')"
    and "list_all sane (tb_items tb)" "owners_apart (tb_items tb)"
  shows "case e of
      None \<Rightarrow> (tb_items tb \<noteq> [] \<longrightarrow> Clone_Mismatch \<notin> set (clone_walk sch (Some source) (Some clone))) \<and>
        mset (tb_items tb') = mset (tb_items tb) +
          (if tb_items tb = [] then {#}
           else mset (concat (map (copied (tb_items tb)) (clone_walk sch (Some source) (Some clone)))))
    | Some e \<Rightarrow> tb_items tb \<noteq> [] \<and> mset (tb_items tb') = mset (tb_items tb) \<and>
        (e = error_set_message INTERNAL_ERROR inconsistent \<and>
           Clone_Mismatch \<in> set (clone_walk sch (Some source) (Some clone)) \<or>
         e = error_set_message NO_MEMORY ''out of memory'')"
proof (cases "tb_items tb = []")
  case True
  then show ?thesis using assms(1) by (auto simp: clone_tree_owners_def)
next
  case False
  define base where "base = sort_key owner_key (tb_items tb)"
  have same: "mset (tb_items tb) = mset base" "length (tb_items tb) = length base" by (simp_all add: base_def)
  have base: "list_all sane base" "owners_apart base" "by_owner base" "copied (tb_items tb) = copied base"
    using assms(2,3) owners_apart_perm [OF same(1)] copied_perm [OF same(1)] by (simp_all add: base_def list_all_iff)
  obtain tb1 e' st where run: "run_clone (visit (length base)) (clone_walk sch (Some source) (Some clone))
      (tb\<lparr>tb_items := base\<rparr>, None) = ((tb1, e'), st)"
    by (metis surj_pair)
  have spec: "\<exists>new. tb_items tb1 = base @ [] @ new"
    "st = STATUS_OK \<longrightarrow> Clone_Mismatch \<notin> set (clone_walk sch (Some source) (Some clone)) \<and>
      tb_items tb1 = base @ [] @ concat (map (copied base) (clone_walk sch (Some source) (Some clone)))"
    "st = STATUS_OK \<or> st = INTERNAL_ERROR \<and> Clone_Mismatch \<in> set (clone_walk sch (Some source) (Some clone)) \<or>
      st = NO_MEMORY \<and> e' = Some (error_set_message NO_MEMORY ''out of memory'')"
    using clone_run [OF run _ base(1-3), of "[]"] by auto
  have result: "(e, tb') = (if st = STATUS_OK then (None, tb1)
      else (if st = INTERNAL_ERROR then Some (error_set_message INTERNAL_ERROR inconsistent) else e',
        tb1\<lparr>tb_items := take (length base) (tb_items tb1)\<rparr>))"
    using assms(1) False run
    by (simp add: clone_tree_owners_def surface_clone_def base_def [symmetric] Let_def same(2))
  show ?thesis
  proof (cases "st = STATUS_OK")
    case True
    then show ?thesis using result spec(2) False by (simp add: same(1) base(4))
  next
    case fails: False
    then show ?thesis using result spec(1,3) False by (auto simp: same(1))
  qed
qed

text \<open>The records appended for a copy at other addresses.\<close>

lemma clone_marks:
  assumes "schema_ok sch" "addresses_apart (Some source)" "list_all sane (tb_items tb)" "owners_apart (tb_items tb)"
    and "inj f" "\<forall>a. \<not> marked tb (f a)"
    and "clone_tree_owners sch visit inconsistent tb (Some source) (Some (relocate f source)) = (None, tb')"
  shows "owners_apart (tb_items tb') \<and>
    (marked tb' a \<longleftrightarrow> marked tb a \<or>
      (\<exists>m. m \<in> fst ` set (pairs selector (clone_walk sch (Some source) (Some (relocate f source)))) \<and>
        wanted m \<and> marked tb (address m) \<and> a = f (address m)))"
proof -
  define events where "events = clone_walk sch (Some source) (Some (relocate f source))"
  define copies where "copies = concat (map (copied (tb_items tb)) events)"
  have "copied [] e = []" for e
    using copied_owners [of "[]" e] by (auto split: option.splits)
  then have none: "tb_items tb = [] \<Longrightarrow> copies = []" by (simp add: copies_def)
  have items: "mset (tb_items tb') = mset (tb_items tb) + mset copies"
    using clone_result [OF assms(7,3,4)] none by (auto simp: copies_def events_def split: if_splits)
  have copy: "selector e = Some (s, c) \<Longrightarrow> c = relocate f s" if "e \<in> set events" for e s c
    using copy_walks_in_step [of e sch "Some source" f selector "(s, c)"] that selects_pairs
    by (simp add: events_def)
  have once: "distinct (map address (map fst (pairs selector events)))"
  proof (rule distinct_subset_mset)
    show "mset (map address (map fst (pairs selector events))) \<subseteq># mset (map address (tree_messages (Some source)))"
      using clone_pairs_once [OF assms(1) selects_pairs, of "Some source" "Some (relocate f source)"]
      by (simp only: mset_map events_def) (auto intro: image_mset_subseteq_mono)
    show "distinct (map address (tree_messages (Some source)))" using assms(2) by (simp add: addresses_apart_def)
  qed
  have owner: "map rec_owner (concat (map (copied (tb_items tb)) es)) =
      map (\<lambda>p. Some (f (address (fst p)))) (filter (\<lambda>p. wanted (fst p) \<and> marked tb (address (fst p))) (pairs selector es))"
    if "set es \<subseteq> set events" for es
    using that
  proof (induction es)
    case (Cons e es)
    then show ?case
      using copy [of e] copied_owners [of "tb_items tb" e] by (cases "selector e") (auto simp: marked_def)
  qed simp
  have owners: "map rec_owner copies = map (\<lambda>p. Some (f (address (fst p))))
      (filter (\<lambda>p. wanted (fst p) \<and> marked tb (address (fst p))) (pairs selector events))"
    unfolding copies_def by (rule owner) simp
  have before: "Some a \<in> set (map rec_owner (tb_items tb)) \<longleftrightarrow> marked tb a" by (simp add: marked_def)
  have "marked tb' a \<longleftrightarrow> Some a \<in> set (map rec_owner (tb_items tb)) \<union> set (map rec_owner copies)"
    using arg_cong [OF items, of set_mset] by (auto simp: marked_def image_Un)
  also have "\<dots> \<longleftrightarrow> marked tb a \<or> (\<exists>m. m \<in> fst ` set (pairs selector events) \<and>
        wanted m \<and> marked tb (address m) \<and> a = f (address m))"
    unfolding owners Un_iff before by force
  finally have marks: "marked tb' a \<longleftrightarrow> marked tb a \<or> (\<exists>m. m \<in> fst ` set (pairs selector events) \<and>
        wanted m \<and> marked tb (address m) \<and> a = f (address m))" .
  have "distinct (map (\<lambda>p. Some (f (address (fst p)))) (pairs selector events))"
    using once assms(5) by (auto simp: distinct_map comp_def inj_on_def dest: injD)
  then have "distinct (map rec_owner copies)" unfolding owners by (rule distinct_map_filter)
  moreover have "x \<notin> set (map rec_owner (tb_items tb))" if "x \<in> set (map rec_owner copies)" for x
    using that assms(6) unfolding owners by (auto simp: marked_def)
  moreover have "filter (\<lambda>x. x \<noteq> None) (map rec_owner copies) = map rec_owner copies"
    unfolding owners by (rule filter_True) auto
  ultimately have "owners_apart (tb_items tb @ copies)"
    using assms(4) by (auto simp: owners_apart_def)
  then have "owners_apart (tb_items tb')" by (rule owners_apart_perm [rotated]) (simp add: items)
  with marks show ?thesis by (simp add: events_def)
qed

end

end
