(* ===== verification/Minus_Records.thy ===== *)
theory Minus_Records
  imports Owner_Cloning
begin

text \<open>
  \<^verbatim>\<open>sqlparser_dialect_minus.c\<close>: the dialects that write the set difference as MINUS hand the parser
  EXCEPT, and a record remembers which set operations were written MINUS.  The table is part of the
  state of a handle; a NULL pointer to it is \<open>None\<close>.
\<close>

section \<open>The operations\<close>

type_synonym minuses = "ordinal_record record_table"

definition sizeof_minus :: nat where "sizeof_minus = 16"

definition minuses_clear :: "minuses option \<Rightarrow> minuses option" where
  "minuses_clear tb = map_option (\<lambda>_. empty_table) tb"

definition minuses_append :: "allocator \<Rightarrow> nat \<Rightarrow> minuses option \<Rightarrow> nat \<Rightarrow> sql_error option \<times> minuses option" where
  "minuses_append alloc request tb ordinal =
     (case tb of
        None \<Rightarrow> (Some (error_set_message INVALID_ARGUMENT ''MINUS state must not be NULL''), None)
      | Some tb \<Rightarrow>
          (case grow_table alloc request sizeof_minus tb of
             None \<Rightarrow> (Some (error_set_message NO_MEMORY ''out of memory''), Some tb)
           | Some capacity \<Rightarrow>
               (None, Some (tb\<lparr>tb_capacity := capacity,
                  tb_items := tb_items tb @ [\<lparr>rec_ordinal = ordinal, rec_owner = None\<rparr>]\<rparr>))))"

definition minuses_match :: "minuses option \<Rightarrow> nat \<Rightarrow> bool" where
  "minuses_match tb ordinal =
     (case tb of
        None \<Rightarrow> False
      | Some tb \<Rightarrow>
          (let left = lower_bound (tb_items tb) ordinal 0 (length (tb_items tb))
           in left < length (tb_items tb) \<and> rec_ordinal (tb_items tb ! left) = ordinal))"

primrec append_ordinals :: "allocator \<Rightarrow> nat \<Rightarrow> ordinal_record list \<Rightarrow> minuses option \<Rightarrow> sql_error option \<times> minuses option" where
  "append_ordinals alloc request [] target = (None, target)"
| "append_ordinals alloc request (r # rs) target =
     (case minuses_append alloc request target (rec_ordinal r) of
        (Some e, target) \<Rightarrow> (Some e, minuses_clear target)
      | (None, target) \<Rightarrow> append_ordinals alloc (request + 1) rs target)"

text \<open>The result holds the target, which the call overwrites.\<close>

definition minuses_clone :: "allocator \<Rightarrow> minuses option \<Rightarrow> minuses option \<Rightarrow> sql_error option \<times> minuses option" where
  "minuses_clone alloc source target =
     (case (source, target) of
        (Some s, Some _) \<Rightarrow>
          (case append_ordinals alloc 0 (tb_items s) (Some (empty_table\<lparr>tb_total := tb_total s\<rparr>)) of
             (None, Some t) \<Rightarrow> (None, Some (t\<lparr>tb_fragment_start := length (tb_items t), tb_fragment_base := tb_total t\<rparr>))
           | result \<Rightarrow> result)
      | _ \<Rightarrow> (Some (error_set_message INVALID_ARGUMENT ''MINUS state must not be NULL''), target))"

definition minuses_begin_fragment :: "minuses option \<Rightarrow> minuses option" where
  "minuses_begin_fragment tb = map_option begin_fragment tb"

text \<open>The nodes a walk delivers to the callbacks: the set operations that are EXCEPT.\<close>

definition except_nodes :: "surface_event list \<Rightarrow> nat list" where
  "except_nodes events =
     map address (filter (\<lambda>m. number m ''op'' = SETOP_EXCEPT) (owners the_set_operation events))"

abbreviation owner_missing :: string where
  "owner_missing \<equiv> ''MINUS AST owner is missing''"

definition minuses_bind_ast ::
  "schema \<Rightarrow> minuses option \<Rightarrow> message option \<Rightarrow> sql_error option \<times> minuses option" where
  "minuses_bind_ast sch tb ast =
     (case tb of
        None \<Rightarrow> (None, None)
      | Some tb \<Rightarrow>
          map_prod id Some (bind_tree owner_missing
            (map_option (\<lambda>a. except_nodes (map snd (visit_roots sch [Some a] 0))) ast) tb))"

definition minuses_bind_fragment ::
  "schema \<Rightarrow> minuses option \<Rightarrow> message option \<Rightarrow> message option list \<Rightarrow> sql_error option \<times> minuses option" where
  "minuses_bind_fragment sch tb base_ast roots =
     (case tb of
        None \<Rightarrow> (None, None)
      | Some tb \<Rightarrow>
          map_prod id Some (bind_parts ''MINUS fragment checkpoint is invalid'' owner_missing
            (except_nodes (map snd (visit_roots sch (if base_ast = None then [] else [base_ast]) 0)))
            (except_nodes (map snd (visit_roots sch roots 0))) tb))"

definition minuses_reconcile :: "schema \<Rightarrow> minuses option \<Rightarrow> message option \<Rightarrow> minuses option" where
  "minuses_reconcile sch tb ast =
     (case (tb, ast) of
        (Some t, Some _) \<Rightarrow> Some (reconcile_nodes (except_nodes (map snd (surface_visit sch ast))) t)
      | _ \<Rightarrow> tb)"

text \<open>
  \<^verbatim>\<open>sqlparser_dialect_minus_clone_visit\<close>.  The context is the table and the error of the append; the
  first \<open>source_record_count\<close> records are those of the table before the call, sorted by owner.
\<close>

definition minus_clone_visit ::
  "allocator \<Rightarrow> nat \<Rightarrow> clone_event \<Rightarrow> minuses \<times> sql_error option \<Rightarrow> (minuses \<times> sql_error option) \<times> status" where
  "minus_clone_visit alloc source_record_count event context =
     (case the_set_pair event of
        None \<Rightarrow> (context, STATUS_OK)
      | Some (source, clone) \<Rightarrow>
          if number source ''op'' \<noteq> SETOP_EXCEPT then (context, STATUS_OK)
          else (case find_owner (tb_items (fst context)) source_record_count (address source) of
              None \<Rightarrow> (context, STATUS_OK)
            | Some _ \<Rightarrow>
                (case minuses_append alloc (length (tb_items (fst context))) (Some (fst context)) SIZE_MAX of
                   (None, Some tb) \<Rightarrow>
                     let last_item = length (tb_items tb) - 1
                     in ((tb\<lparr>tb_items := (tb_items tb)[last_item := set_owner (address clone) (tb_items tb ! last_item)]\<rparr>,
                       None), STATUS_OK)
                 | (Some e, tb) \<Rightarrow> ((the tb, Some e), err_code e)
                 | (None, None) \<Rightarrow> (context, STATUS_OK))))"

definition minuses_clone_owners ::
  "schema \<Rightarrow> allocator \<Rightarrow> minuses option \<Rightarrow> message option \<Rightarrow> message option \<Rightarrow> sql_error option \<times> minuses option" where
  "minuses_clone_owners sch alloc tb source_root clone_root =
     (case tb of
        None \<Rightarrow> (None, None)
      | Some tb \<Rightarrow>
          map_prod id Some (clone_tree_owners sch (minus_clone_visit alloc)
            ''cloned MINUS AST shape is inconsistent'' tb source_root clone_root))"

section \<open>Appending and searching\<close>

lemma append_item:
  "minuses_append alloc request (Some tb) ordinal = (None, Some tb') \<Longrightarrow>
     tb_items tb' = tb_items tb @ [\<lparr>rec_ordinal = ordinal, rec_owner = None\<rparr>] \<and> tb_total tb' = tb_total tb"
  "minuses_append alloc request (Some tb) ordinal = (Some e, tb2) \<Longrightarrow>
     tb2 = Some tb \<and> e = error_set_message NO_MEMORY ''out of memory''"
  "minuses_append alloc request (Some tb) ordinal \<noteq> (None, None)"
  by (auto simp: minuses_append_def split: option.splits)

lemma match_ordinal:
  assumes "strictly_sorted (ordinals (tb_items tb))"
  shows "minuses_match (Some tb) k \<longleftrightarrow> k \<in> set (ordinals (tb_items tb))"
  using lower_bound_finds(1) [OF assms refl, of k] by (simp add: minuses_match_def Let_def)

lemma append_ordinals_spec:
  "append_ordinals alloc request rs (Some tb) = (e, t) \<Longrightarrow>
     (case e of
        None \<Rightarrow> \<exists>tb'. t = Some tb' \<and> tb_items tb' = tb_items tb @ map (\<lambda>r. r\<lparr>rec_owner := None\<rparr>) rs \<and>
          tb_total tb' = tb_total tb
      | Some e \<Rightarrow> e = error_set_message NO_MEMORY ''out of memory'' \<and> t = Some empty_table)"
proof (induction rs arbitrary: request tb)
  case (Cons r rs)
  obtain e1 t1 where step: "minuses_append alloc request (Some tb) (rec_ordinal r) = (e1, t1)" by fastforce
  show ?case
  proof (cases e1)
    case None
    then obtain tb1 where t1: "t1 = Some tb1" using step append_item(3) [of alloc request tb "rec_ordinal r"] by (cases t1) auto
    have item: "r\<lparr>rec_owner := None\<rparr> = \<lparr>rec_ordinal = rec_ordinal r, rec_owner = None\<rparr>" by simp
    show ?thesis
      using Cons.IH [of "request + 1" tb1] Cons.prems append_item(1) [of alloc request tb "rec_ordinal r" tb1] step None t1 item
      by (auto split: option.splits)
  next
    case (Some e')
    then show ?thesis using append_item(2) step Cons.prems by (fastforce simp: minuses_clear_def)
  qed
qed auto

section \<open>Binding and reconciling\<close>

text \<open>Binding sets the owners, or clears them where the tree has no node.\<close>

definition bound_to :: "nat list \<Rightarrow> 'a ordinal_record_scheme \<Rightarrow> 'a ordinal_record_scheme" where
  "bound_to nodes r = own nodes 0 (r\<lparr>rec_owner := None\<rparr>)"

lemma bind_tree_spec:
  assumes "strictly_sorted (ordinals (tb_items tb))" "length nodes \<le> SIZE_MAX"
  shows "bind_tree missing (Some nodes) tb =
    (if \<forall>r \<in> set (tb_items tb). rec_ordinal r < length nodes then None else Some (error_set_message INTERNAL_ERROR missing),
     tb\<lparr>tb_items := map (bound_to nodes) (tb_items tb)\<rparr>)"
proof (cases "tb_items tb = []")
  case True
  then show ?thesis by (cases tb) (simp add: bind_tree_def)
next
  case False
  define clear where "clear = (\<lambda>r :: 'a ordinal_record_scheme. r\<lparr>rec_owner := None\<rparr>)"
  have ord: "rec_ordinal (clear r) = rec_ordinal r" for r by (simp add: clear_def)
  have "bind_nodes missing 0 (length (tb_items tb)) 0 nodes (tb\<lparr>tb_items := map clear (tb_items tb)\<rparr>) =
    (if \<forall>r \<in> set (tb_items tb). rec_ordinal r < length nodes then None else Some (error_set_message INTERNAL_ERROR missing),
     tb\<lparr>tb_items := map (own nodes 0) (map clear (tb_items tb))\<rparr>)"
    using bind_nodes_range [of "tb\<lparr>tb_items := map clear (tb_items tb)\<rparr>" "[]" "map clear (tb_items tb)" "[]" 0 nodes missing] assms
    by (simp add: ord comp_def)
  then show ?thesis
    using False by (simp add: bind_tree_def clear_def [symmetric] bound_to_def comp_def)
qed

lemma bound_owner:
  "rec_ordinal r < length nodes \<Longrightarrow> rec_owner (bound_to nodes r) = Some (nodes ! rec_ordinal r)"
  "rec_ordinal (bound_to nodes r) = rec_ordinal r"
  by (simp_all add: bound_to_def own_def set_owner_def)

lemma bound_apart:
  assumes "distinct nodes" "\<forall>r \<in> set items. rec_ordinal r < length nodes" "distinct (ordinals items)"
  shows "owners_apart (map (bound_to nodes) items)"
  using assms(2,3)
proof (induction items)
  case (Cons r rs)
  have "rec_owner (bound_to nodes r) \<notin> rec_owner ` set (map (bound_to nodes) rs)"
    using Cons.prems assms(1) by (auto simp: bound_owner nth_eq_iff_index_eq)
  then show ?case using Cons by simp
qed simp

text \<open>The nodes a walk of a tree delivers.\<close>

abbreviation minus_nodes :: "schema \<Rightarrow> message \<Rightarrow> nat list" where
  "minus_nodes sch ast \<equiv> except_nodes (map snd (surface_visit sch (Some ast)))"

lemma roots_nodes:
  assumes "parse_schema sch" "parse_result ast"
  shows "except_nodes (map snd (visit_roots sch [Some ast] 0)) = minus_nodes sch ast"
  using parse_visit [OF assms] by (simp add: visit_roots_def comp_def)

lemma minus_nodes_distinct:
  assumes "schema_ok sch" "parse_schema sch" "parse_result ast" "addresses_apart (Some ast)"
  shows "distinct (minus_nodes sch ast)"
proof -
  have "distinct (map address (owners the_set_operation (visit_message sch (Some ast))))"
    by (rule visit_addresses) (use assms in \<open>simp_all add: own_selector_def\<close>)
  then have "distinct (except_nodes (visit_message sch (Some ast)))"
    unfolding except_nodes_def by (rule distinct_map_filter)
  then show ?thesis by (simp add: parse_visit [OF assms(2,3)])
qed

section \<open>Cloning the owners\<close>

text \<open>The record a call of the clone visitor appends, if the source is marked.\<close>

definition minus_copied :: "'a ordinal_record_scheme list \<Rightarrow> clone_event \<Rightarrow> ordinal_record list" where
  "minus_copied base event =
     (case the_set_pair event of
        None \<Rightarrow> []
      | Some (s, c) \<Rightarrow>
          if number s ''op'' = SETOP_EXCEPT \<and> Some (address s) \<in> rec_owner ` set base
          then [\<lparr>rec_ordinal = SIZE_MAX, rec_owner = Some (address c)\<rparr>] else [])"

lemma clone_visit_spec:
  assumes "tb_items tb = base @ extra" "minus_clone_visit alloc (length base) event (tb, None) = ((tb', e), st)"
    and "by_owner base"
  shows "(st = STATUS_OK \<and> e = None \<and> tb_items tb' = base @ extra @ minus_copied base event) \<or>
    (st = NO_MEMORY \<and> e = Some (error_set_message NO_MEMORY ''out of memory'') \<and> tb' = tb)"
proof (cases "the_set_pair event")
  case None
  then show ?thesis using assms by (simp add: minus_clone_visit_def minus_copied_def)
next
  case (Some p)
  obtain s c where p: "p = (s, c)" by fastforce
  let ?owned = "number s ''op'' = SETOP_EXCEPT \<and> Some (address s) \<in> rec_owner ` set base"
  note found = find_owner_prefix [OF assms(3), of extra "address s"]
  show ?thesis
  proof (cases ?owned)
    case False
    then have "number s ''op'' \<noteq> SETOP_EXCEPT \<or> find_owner (tb_items tb) (length base) (address s) = None"
      using found assms(1) by auto
    then have "minus_clone_visit alloc (length base) event (tb, None) = ((tb, None), STATUS_OK)"
      by (elim disjE) (simp_all add: minus_clone_visit_def Some p)
    then show ?thesis using assms False by (auto simp: minus_copied_def Some p)
  next
    case True
    then obtain i where i: "find_owner (tb_items tb) (length base) (address s) = Some i" using found assms(1) by auto
    obtain e1 t1 where step: "minuses_append alloc (length (tb_items tb)) (Some tb) SIZE_MAX = (e1, t1)" by fastforce
    show ?thesis
    proof (cases e1)
      case e1: None
      then obtain tb1 where t1: "t1 = Some tb1" using step append_item(3) by (cases t1) fastforce+
      then have "tb_items tb1 = tb_items tb @ [\<lparr>rec_ordinal = SIZE_MAX, rec_owner = None\<rparr>]"
        using append_item(1) step e1 by blast
      moreover from this have "minus_clone_visit alloc (length base) event (tb, None) =
          ((tb1\<lparr>tb_items := tb_items tb @ [\<lparr>rec_ordinal = SIZE_MAX, rec_owner = Some (address c)\<rparr>]\<rparr>, None), STATUS_OK)"
        using True i step e1 t1 by (simp add: minus_clone_visit_def Some p Let_def set_owner_def)
      ultimately show ?thesis using assms True by (auto simp: minus_copied_def Some p)
    next
      case e1: (Some e')
      then have "t1 = Some tb" "e' = error_set_message NO_MEMORY ''out of memory''" using append_item(2) step by blast+
      then have "minus_clone_visit alloc (length base) event (tb, None) =
          ((tb, Some (error_set_message NO_MEMORY ''out of memory'')), NO_MEMORY)"
        using True i step e1 by (simp add: minus_clone_visit_def Some p)
      then show ?thesis using assms by simp
    qed
  qed
qed

interpretation mc: owner_cloning "minus_clone_visit alloc" minus_copied the_set_pair
  "\<lambda>m. number m ''op'' = SETOP_EXCEPT" "\<lambda>_. True"
proof unfold_locales
  show "mset base = mset base2 \<Longrightarrow> owners_apart base \<Longrightarrow> minus_copied base = minus_copied base2"
    for base base2 :: "ordinal_record list"
    using mset_eq_setD [of base base2] by (auto simp: minus_copied_def fun_eq_iff split: option.splits)
  show "(st = STATUS_OK \<and> e = None \<and> tb_items tb' = base @ extra @ minus_copied base event) \<or>
      (st = NO_MEMORY \<and> e = Some (error_set_message NO_MEMORY ''out of memory'') \<and> tb_items tb' = base @ extra)"
    if "tb_items tb = base @ extra" "by_owner base" "minus_clone_visit alloc (length base) event (tb, None) = ((tb', e), st)"
    for tb tb' :: minuses and base extra event e st
    using clone_visit_spec [OF that(1,3,2)] that(1) by blast
qed (auto simp: pair_selector_def minus_copied_def split: option.splits)








section \<open>A tree\<close>

text \<open>
  Two statements over the sample schema: \<open>(a EXCEPT b) EXCEPT c\<close>, whose set operations are at 4 and 3 and
  are visited in this order, and an edited one in which the operation at 4 has become the right operand.
\<close>

abbreviation sample_leaf :: "nat \<Rightarrow> message" where
  "sample_leaf a \<equiv> sample_select a 1 None None"

definition sample_first :: message where
  "sample_first = sample_select 3 4 (Some (sample_select 4 4 (Some (sample_leaf 5)) (Some (sample_leaf 6)))) (Some (sample_leaf 7))"

definition sample_edited :: message where
  "sample_edited = sample_select 3 4 (Some (sample_leaf 7)) (Some (sample_select 4 4 (Some (sample_leaf 5)) (Some (sample_leaf 6))))"

lemma sample_except [simp]:
  "except_nodes (visit_message sample_schema (Some sample_first)) = [4, 3]"
  "except_nodes (visit_message sample_schema (Some sample_edited)) = [3, 4]"
  by (simp_all add: sample_first_def sample_edited_def except_nodes_def SETOP_NONE_def SETOP_EXCEPT_def)

lemma sample_apart [simp]:
  "addresses_apart (Some (sample_tree sample_first))" "addresses_apart (Some (sample_tree sample_edited))"
  by (simp_all add: addresses_apart_def tree_messages_def sample_tree_def sample_first_def sample_edited_def sample_select_def
      messages.simps parts_def)

section \<open>What the table says\<close>

text \<open>
  C20.  A record names a node by its place.  Binding fails, with an internal error and never silently,
  exactly when the tree has too few nodes for a record; otherwise every record names the node at its
  place.
\<close>

theorem minus_binding_needs_every_node:
  assumes "parse_schema sch" "parse_result ast" "strictly_sorted (ordinals (tb_items tb))"
    and "length (minus_nodes sch ast) \<le> SIZE_MAX"
  shows "fst (minuses_bind_ast sch (Some tb) (Some ast)) =
      (if \<exists>k. minuses_match (Some tb) k \<and> \<not> k < length (minus_nodes sch ast)
       then Some (error_set_message INTERNAL_ERROR ''MINUS AST owner is missing'') else None) \<and>
    map_option tb_items (snd (minuses_bind_ast sch (Some tb) (Some ast))) =
      Some (map (\<lambda>r. r\<lparr>rec_owner := if rec_ordinal r < length (minus_nodes sch ast)
        then Some (minus_nodes sch ast ! rec_ordinal r) else None\<rparr>) (tb_items tb))"
proof -
  note bind = bind_tree_spec [OF assms(3,4), of owner_missing]
  have all: "(\<exists>k. minuses_match (Some tb) k \<and> \<not> k < length (minus_nodes sch ast)) \<longleftrightarrow>
      \<not> (\<forall>r \<in> set (tb_items tb). rec_ordinal r < length (minus_nodes sch ast))"
    by (auto simp: match_ordinal [OF assms(3)])
  have "fst (minuses_bind_ast sch (Some tb) (Some ast)) =
      (if \<exists>k. minuses_match (Some tb) k \<and> \<not> k < length (minus_nodes sch ast)
       then Some (error_set_message INTERNAL_ERROR ''MINUS AST owner is missing'') else None)"
    unfolding all by (simp add: minuses_bind_ast_def roots_nodes [OF assms(1,2)] bind)
  moreover have "map_option tb_items (snd (minuses_bind_ast sch (Some tb) (Some ast))) =
      Some (map (\<lambda>r. r\<lparr>rec_owner := if rec_ordinal r < length (minus_nodes sch ast)
        then Some (minus_nodes sch ast ! rec_ordinal r) else None\<rparr>) (tb_items tb))"
    by (simp add: minuses_bind_ast_def roots_nodes [OF assms(1,2)] bind bound_to_def own_def set_owner_def)
  ultimately show ?thesis by blast
qed

lemma bound_marks:
  assumes "strictly_sorted (ordinals items)" "\<forall>r \<in> set items. rec_ordinal r < length nodes"
  shows "Some a \<in> rec_owner ` set (map (bound_to nodes) items) \<longleftrightarrow> (\<exists>j. j \<in> set (ordinals items) \<and> a = nodes ! j)"
  using assms(2) by (fastforce simp: bound_owner image_iff)

text \<open>
  C8.  What was written MINUS stays MINUS while the tree is edited.  The table is bound to one tree
  and reconciled with another, whose set operations are moved, removed and added: the \<open>k\<close>-th EXCEPT of
  the edited tree is then marked exactly when it is a node of the first tree that was marked there.
\<close>

theorem minus_follows_nodes:
  assumes "schema_ok sch" "parse_schema sch" "parse_result ast" "addresses_apart (Some ast)"
    and "parse_result edited" "addresses_apart (Some edited)"
    and "length (minus_nodes sch ast) \<le> SIZE_MAX" "length (minus_nodes sch edited) \<le> SIZE_MAX"
    and "strictly_sorted (ordinals (tb_items tb))" "minuses_bind_ast sch (Some tb) (Some ast) = (None, bound)"
  shows "minuses_match (minuses_reconcile sch bound (Some edited)) k \<longleftrightarrow>
    k < length (minus_nodes sch edited) \<and>
    (\<exists>j. minuses_match (Some tb) j \<and> minus_nodes sch edited ! k = minus_nodes sch ast ! j)"
proof -
  let ?tb = "tb\<lparr>tb_items := map (bound_to (minus_nodes sch ast)) (tb_items tb)\<rparr>"
  note distinct = minus_nodes_distinct [OF assms(1-4)] minus_nodes_distinct [OF assms(1,2,5,6)]
  have bind: "bound = Some ?tb" "\<forall>r \<in> set (tb_items tb). rec_ordinal r < length (minus_nodes sch ast)"
    using assms(10) unfolding minuses_bind_ast_def
    by (simp_all add: roots_nodes [OF assms(2,3)] bind_tree_spec [OF assms(9,7)] split: if_splits)
  have apart: "owners_apart (tb_items ?tb)"
    using bound_apart [OF distinct(1) bind(2)] assms(9) by (simp add: strict_sorted_iff)
  have "minuses_match (minuses_reconcile sch bound (Some edited)) k \<longleftrightarrow>
      k < length (minus_nodes sch edited) \<and> marked ?tb (minus_nodes sch edited ! k)"
    using match_ordinal [OF reconcile_sorted(1) [OF apart distinct(2) assms(8)]] reconcile_ordinals [OF apart distinct(2) assms(8)]
    by (simp add: minuses_reconcile_def bind(1))
  also have "marked ?tb (minus_nodes sch edited ! k) \<longleftrightarrow>
      (\<exists>j. minuses_match (Some tb) j \<and> minus_nodes sch edited ! k = minus_nodes sch ast ! j)"
    using bound_marks [OF assms(9) bind(2), of "minus_nodes sch edited ! k"]
    by (simp add: marked_def match_ordinal [OF assms(9)])
  finally show ?thesis .
qed

definition sample_table :: minuses where
  "sample_table = \<lparr>tb_items = [\<lparr>rec_ordinal = 0, rec_owner = None\<rparr>], tb_capacity = 4, tb_total = 2,
     tb_fragment_start = 0, tb_fragment_base = 0\<rparr>"

lemma sample_bound:
  "minuses_bind_ast sample_schema (Some sample_table) (Some (sample_tree sample_first)) =
     (None, Some (sample_table\<lparr>tb_items := [\<lparr>rec_ordinal = 0, rec_owner = Some 4\<rparr>]\<rparr>))"
  using bind_tree_spec [of sample_table "[4, 3]" owner_missing]
  by (simp add: minuses_bind_ast_def roots_nodes sample_table_def bound_to_def own_def set_owner_def SIZE_MAX_def)

theorem minus_binding_needs_every_node_witness:
  "fst (minuses_bind_ast sample_schema (Some (sample_table\<lparr>tb_items := [\<lparr>rec_ordinal = 2, rec_owner = None\<rparr>]\<rparr>))
     (Some (sample_tree sample_first))) = Some (error_set_message INTERNAL_ERROR ''MINUS AST owner is missing'')"
  using minus_binding_needs_every_node [of sample_schema "sample_tree sample_first"
      "sample_table\<lparr>tb_items := [\<lparr>rec_ordinal = 2, rec_owner = None\<rparr>]\<rparr>"]
    match_ordinal [of "sample_table\<lparr>tb_items := [\<lparr>rec_ordinal = 2, rec_owner = None\<rparr>]\<rparr>" 2]
  by (auto simp: sample_table_def SIZE_MAX_def)

theorem minus_follows_nodes_witness:
  "minuses_match (minuses_reconcile sample_schema (snd (minuses_bind_ast sample_schema (Some sample_table)
     (Some (sample_tree sample_first)))) (Some (sample_tree sample_edited))) 1"
proof -
  have "minuses_match (Some sample_table) 0" using match_ordinal [of sample_table 0] by (simp add: sample_table_def)
  then show ?thesis
    using minus_follows_nodes [of sample_schema "sample_tree sample_first" "sample_tree sample_edited" sample_table
        "snd (minuses_bind_ast sample_schema (Some sample_table) (Some (sample_tree sample_first)))" 1]
    by (auto simp: sample_bound SIZE_MAX_def) (auto simp: sample_table_def)
qed

text \<open>
  A tree is copied with its marks.  After the owners of a copy are recorded, exactly the nodes
  marked before and the copies of the marked set operations are marked, and no node has two records.
\<close>

lemma minus_clone_marks_copies:
  assumes "schema_ok sch" "addresses_apart (Some source)" "owners_apart (tb_items tb)"
    and "inj f" "\<forall>a. \<not> marked tb (f a)"
    and "minuses_clone_owners sch alloc (Some tb) (Some source) (Some (relocate f source)) = (None, Some tb')"
  shows "owners_apart (tb_items tb') \<and>
    (marked tb' a \<longleftrightarrow> marked tb a \<or>
      (\<exists>m. m \<in> fst ` set (pairs the_set_pair (clone_walk sch (Some source) (Some (relocate f source)))) \<and>
        number m ''op'' = SETOP_EXCEPT \<and> marked tb (address m) \<and> a = f (address m)))"
proof (rule mc.clone_marks [OF assms(1,2) _ assms(3-5)])
  show "clone_tree_owners sch (minus_clone_visit alloc) ''cloned MINUS AST shape is inconsistent'' tb (Some source)
      (Some (relocate f source)) = (None, tb')"
    using assms(6) by (cases "clone_tree_owners sch (minus_clone_visit alloc) ''cloned MINUS AST shape is inconsistent'' tb
      (Some source) (Some (relocate f source))") (simp add: minuses_clone_owners_def)
qed (simp add: list_all_iff)





definition sample_marked :: minuses where
  "sample_marked = sample_table\<lparr>tb_items := [\<lparr>rec_ordinal = 0, rec_owner = Some 4\<rparr>]\<rparr>"

lemma sample_clone_walk:
  "clone_walk sample_schema (Some (sample_select 4 4 None None)) (Some (relocate f (sample_select 4 4 None None))) =
     [Clone_Set_Operation (sample_select 4 4 None None) (relocate f (sample_select 4 4 None None))]"
proof -
  have "is_limit (sample_select 4 4 None None) = False" by (simp add: is_limit_def child_def sample_select_def)
  moreover have "child (sample_select 4 4 None None) n = None" for n by (simp add: child_def sample_select_def)
  ultimately show ?thesis
    by (simp add: clone_walk.simps clone_calls_def clone_fields_def clone_field_def sample_schema_def Let_def SETOP_NONE_def)
qed

lemma sample_cloned:
  "minuses_clone_owners sample_schema alloc (Some sample_marked) (Some (sample_select 4 4 None None))
     (Some (relocate (\<lambda>a. a + 10) (sample_select 4 4 None None))) =
   (None, Some (sample_marked\<lparr>tb_items := [\<lparr>rec_ordinal = 0, rec_owner = Some 4\<rparr>,
      \<lparr>rec_ordinal = SIZE_MAX, rec_owner = Some 14\<rparr>]\<rparr>))"
  by (simp add: minuses_clone_owners_def clone_tree_owners_def surface_clone_def sample_clone_walk sample_marked_def sample_table_def
      minus_clone_visit_def SETOP_EXCEPT_def find_owner_def minuses_append_def grow_table_def set_owner_def owner_key_def Let_def)

lemma minus_clone_marks_copies_witness:
  "marked (sample_marked\<lparr>tb_items := [\<lparr>rec_ordinal = 0, rec_owner = Some 4\<rparr>, \<lparr>rec_ordinal = SIZE_MAX, rec_owner = Some 14\<rparr>]\<rparr>) 14"
proof -
  have "\<forall>a. \<not> marked sample_marked (a + 10)" by (simp add: marked_def sample_marked_def)
  moreover have "addresses_apart (Some (sample_select 4 4 None None))"
    by (simp add: addresses_apart_def tree_messages_def sample_select_def messages.simps parts_def)
  moreover have "owners_apart (tb_items sample_marked)" by (simp add: sample_marked_def)
  moreover have "inj (\<lambda>a :: nat. a + 10)" by (simp add: inj_def)
  moreover have "marked sample_marked 4" by (simp add: marked_def sample_marked_def)
  ultimately show ?thesis
    using minus_clone_marks_copies [OF sample_schema_simps(1) _ _ _ _ sample_cloned, where a = 14]
    by (auto simp: sample_clone_walk SETOP_EXCEPT_def)
qed


end
