(* ===== verification/National_Literals.thy ===== *)
theory National_Literals
  imports Minus_Records
begin

text \<open>
  \<^verbatim>\<open>sqlparser_dialect_national_literal.c\<close>: literals whose spelling the parser does not know (national
  and other prefixed strings) are handed to it as plain strings, and a record remembers the spelling
  of the source.  The table works as the one of MINUS, with the string literals of the walk as its
  nodes; in addition a record that is not bound yet is recognised by its text, and the records of a
  fragment can be projected to the ordinals of that fragment.
\<close>

section \<open>The table\<close>

record national_literal = ordinal_record +
  nl_sql :: string
  nl_surface :: "string option"

type_synonym national_literals = "national_literal record_table"

definition sizeof_national :: nat where "sizeof_national = 32"

text \<open>\<^verbatim>\<open>strlen\<close> of a buffer that ends in a NUL, and \<^verbatim>\<open>sqlparser_strndup\<close>.\<close>

definition c_strlen :: "string \<Rightarrow> nat" where
  "c_strlen s = length (takeWhile (\<lambda>c. c \<noteq> NUL) s)"

definition c_strndup :: "allocator \<Rightarrow> nat \<Rightarrow> string \<Rightarrow> nat \<Rightarrow> string option" where
  "c_strndup alloc request s n = (if alloc request (wrap_size (n + 1)) then Some (take n s) else None)"

abbreviation no_memory :: sql_error where
  "no_memory \<equiv> error_set_message NO_MEMORY ''out of memory''"

definition literals_clear :: "national_literals option \<Rightarrow> national_literals option" where
  "literals_clear tb = map_option (\<lambda>_. empty_table) tb"

definition literals_append ::
  "allocator \<Rightarrow> nat \<Rightarrow> national_literals option \<Rightarrow> string option \<Rightarrow> nat \<Rightarrow> nat
     \<Rightarrow> sql_error option \<times> national_literals option"
where
  "literals_append alloc request tb literal_sql literal_sql_length ordinal =
     (case (tb, literal_sql) of
        (Some tb, Some sql) \<Rightarrow>
          (case grow_table alloc request sizeof_national tb of
             None \<Rightarrow> (Some no_memory, Some tb)
           | Some capacity \<Rightarrow>
               (let grown = tb\<lparr>tb_capacity := capacity\<rparr>
                in case c_strndup alloc (request + 1) sql literal_sql_length of
                     None \<Rightarrow> (Some no_memory, Some grown)
                   | Some copy \<Rightarrow>
                       (None, Some (grown\<lparr>tb_items := tb_items grown @
                          [\<lparr>rec_ordinal = ordinal, rec_owner = None, nl_sql = copy, nl_surface = None\<rparr>]\<rparr>))))
      | _ \<Rightarrow> (Some (error_set_message INVALID_ARGUMENT ''national literal arguments must not be NULL''), tb))"

definition literals_append_surface ::
  "allocator \<Rightarrow> nat \<Rightarrow> national_literals option \<Rightarrow> string option \<Rightarrow> nat \<Rightarrow> string option \<Rightarrow> nat \<Rightarrow> nat
     \<Rightarrow> sql_error option \<times> national_literals option"
where
  "literals_append_surface alloc request tb literal_sql literal_sql_length surface_sql surface_sql_length ordinal =
     (case surface_sql of
        None \<Rightarrow> (Some (error_set_message INVALID_ARGUMENT ''literal surface must not be NULL''), tb)
      | Some surface \<Rightarrow>
          (case literals_append alloc request tb literal_sql literal_sql_length ordinal of
             (None, Some tb) \<Rightarrow>
               (case c_strndup alloc (request + 2) surface surface_sql_length of
                  None \<Rightarrow> (Some no_memory, Some (tb\<lparr>tb_items := butlast (tb_items tb)\<rparr>))
                | Some copy \<Rightarrow>
                    (None, Some (tb\<lparr>tb_items := butlast (tb_items tb) @ [last (tb_items tb)\<lparr>nl_surface := Some copy\<rparr>]\<rparr>)))
           | result \<Rightarrow> result))"

text \<open>
  A bound record is found by its ordinal; one that is not is found only where the source text is its text.
\<close>

definition literals_find ::
  "national_literals option \<Rightarrow> nat \<Rightarrow> string option \<Rightarrow> nat \<Rightarrow> nat \<Rightarrow> national_literal option" where
  "literals_find tb ordinal sql start end_pos =
     (case (tb, sql) of
        (Some tb, Some sql) \<Rightarrow>
          if end_pos \<le> start then None
          else (let left = lower_bound (tb_items tb) ordinal 0 (length (tb_items tb)); r = tb_items tb ! left
            in if left \<ge> length (tb_items tb) \<or> rec_ordinal r \<noteq> ordinal \<or>
                  (rec_owner r = None \<and> (c_strlen (nl_sql r) \<noteq> end_pos - start \<or>
                     take (end_pos - start) (nl_sql r) \<noteq> take (end_pos - start) (drop start sql)))
               then None else Some r)
      | _ \<Rightarrow> None)"

definition literals_match :: "national_literals option \<Rightarrow> nat \<Rightarrow> string option \<Rightarrow> nat \<Rightarrow> nat \<Rightarrow> bool" where
  "literals_match tb ordinal sql start end_pos = (literals_find tb ordinal sql start end_pos \<noteq> None)"

definition literals_find_owner :: "national_literals option \<Rightarrow> nat option \<Rightarrow> national_literal option" where
  "literals_find_owner tb owner =
     (case (tb, owner) of (Some tb, Some _) \<Rightarrow> find (\<lambda>r. rec_owner r = owner) (tb_items tb) | _ \<Rightarrow> None)"

text \<open>The record is appended again, with its surface if it has one; the appends of a call are numbered by threes.\<close>

definition append_copy ::
  "allocator \<Rightarrow> nat \<Rightarrow> national_literal \<Rightarrow> nat \<Rightarrow> national_literals option \<Rightarrow> sql_error option \<times> national_literals option"
where
  "append_copy alloc request r ordinal target =
     (case nl_surface r of
        Some surface \<Rightarrow> literals_append_surface alloc request target (Some (nl_sql r)) (c_strlen (nl_sql r))
          (Some surface) (c_strlen surface) ordinal
      | None \<Rightarrow> literals_append alloc request target (Some (nl_sql r)) (c_strlen (nl_sql r)) ordinal)"

primrec append_literals ::
  "allocator \<Rightarrow> nat \<Rightarrow> national_literal list \<Rightarrow> national_literals option \<Rightarrow> sql_error option \<times> national_literals option"
where
  "append_literals alloc request [] target = (None, target)"
| "append_literals alloc request (r # rs) target =
     (case append_copy alloc request r (rec_ordinal r) target of
        (Some e, target) \<Rightarrow> (Some e, literals_clear target)
      | (None, target) \<Rightarrow> append_literals alloc (request + 3) rs target)"

definition literals_clone ::
  "allocator \<Rightarrow> national_literals option \<Rightarrow> national_literals option \<Rightarrow> sql_error option \<times> national_literals option" where
  "literals_clone alloc source target =
     (case (source, target) of
        (Some s, Some _) \<Rightarrow>
          (case append_literals alloc 0 (tb_items s) (Some (empty_table\<lparr>tb_total := tb_total s\<rparr>)) of
             (None, Some t) \<Rightarrow> (None, Some (t\<lparr>tb_fragment_start := length (tb_items t), tb_fragment_base := tb_total t\<rparr>))
           | result \<Rightarrow> result)
      | _ \<Rightarrow> (Some (error_set_message INVALID_ARGUMENT ''national literal state must not be NULL''), target))"

definition literals_begin_fragment :: "national_literals option \<Rightarrow> national_literals option" where
  "literals_begin_fragment tb = map_option begin_fragment tb"

section \<open>Binding, reconciling, cloning\<close>

definition literal_nodes :: "surface_event list \<Rightarrow> nat list" where
  "literal_nodes events = map address (owners the_string_literal events)"

abbreviation literal_missing :: string where
  "literal_missing \<equiv> ''national literal AST owner is missing''"

definition literals_bind_ast ::
  "schema \<Rightarrow> national_literals option \<Rightarrow> message option \<Rightarrow> sql_error option \<times> national_literals option" where
  "literals_bind_ast sch tb ast =
     (case tb of
        None \<Rightarrow> (None, None)
      | Some tb \<Rightarrow>
          map_prod id Some (bind_tree literal_missing
            (map_option (\<lambda>a. literal_nodes (map snd (visit_roots sch [Some a] 0))) ast) tb))"

definition literals_bind_fragment ::
  "schema \<Rightarrow> national_literals option \<Rightarrow> message option \<Rightarrow> message option list \<Rightarrow> sql_error option \<times> national_literals option"
where
  "literals_bind_fragment sch tb base_ast roots =
     (case tb of
        None \<Rightarrow> (None, None)
      | Some tb \<Rightarrow>
          map_prod id Some (bind_parts ''national literal fragment checkpoint is invalid'' literal_missing
            (literal_nodes (map snd (visit_roots sch (if base_ast = None then [] else [base_ast]) 0)))
            (literal_nodes (map snd (visit_roots sch roots 0))) tb))"

definition literals_reconcile :: "schema \<Rightarrow> national_literals option \<Rightarrow> message option \<Rightarrow> national_literals option" where
  "literals_reconcile sch tb ast =
     (case (tb, ast) of
        (Some t, Some _) \<Rightarrow> Some (reconcile_nodes (literal_nodes (map snd (surface_visit sch ast))) t)
      | _ \<Rightarrow> tb)"

definition literal_clone_visit ::
  "allocator \<Rightarrow> nat \<Rightarrow> clone_event \<Rightarrow> national_literals \<times> sql_error option \<Rightarrow>
     (national_literals \<times> sql_error option) \<times> status"
where
  "literal_clone_visit alloc source_record_count event context =
     (case the_literal_pair event of
        None \<Rightarrow> (context, STATUS_OK)
      | Some (source, clone) \<Rightarrow>
          if \<not> is_string_literal source then (context, STATUS_OK)
          else (case find_owner (tb_items (fst context)) source_record_count (address source) of
              None \<Rightarrow> (context, STATUS_OK)
            | Some i \<Rightarrow>
                (case append_copy alloc (3 * length (tb_items (fst context))) (tb_items (fst context) ! i) SIZE_MAX
                    (Some (fst context)) of
                   (None, Some tb) \<Rightarrow>
                     ((tb\<lparr>tb_items := butlast (tb_items tb) @ [set_owner (address clone) (last (tb_items tb))]\<rparr>, None),
                      STATUS_OK)
                 | (Some e, tb) \<Rightarrow> ((the tb, Some e), err_code e)
                 | (None, None) \<Rightarrow> (context, STATUS_OK))))"

definition literals_clone_owners ::
  "schema \<Rightarrow> allocator \<Rightarrow> national_literals option \<Rightarrow> message option \<Rightarrow> message option
     \<Rightarrow> sql_error option \<times> national_literals option"
where
  "literals_clone_owners sch alloc tb source_root clone_root =
     (case tb of
        None \<Rightarrow> (None, None)
      | Some tb \<Rightarrow>
          map_prod id Some (clone_tree_owners sch (literal_clone_visit alloc)
            ''cloned national literal AST shape is inconsistent'' tb source_root clone_root))"

section \<open>The projection of a fragment\<close>

text \<open>An entry of the view borrows the record; an entry takes 16 bytes.\<close>

record literal_entry =
  le_literal :: national_literal
  le_ordinal :: nat

record literal_projection =
  pj_items :: "literal_entry list"
  pj_capacity :: nat
  pj_seen :: nat
  pj_error :: "sql_error option"

definition grow_view :: "allocator \<Rightarrow> literal_projection \<Rightarrow> nat option" where
  "grow_view alloc pj =
     (if length (pj_items pj) \<noteq> pj_capacity pj then Some (pj_capacity pj)
      else let capacity = (if pj_capacity pj = 0 then 4 else wrap_size (pj_capacity pj * 2))
        in if capacity < pj_capacity pj \<or> capacity > SIZE_MAX div 16 then None
           else if alloc (length (pj_items pj)) (capacity * 16) then Some capacity else None)"

definition projection_visit :: "allocator \<Rightarrow> national_literals \<Rightarrow> nat \<Rightarrow> literal_projection \<Rightarrow> literal_projection" where
  "projection_visit alloc tb node pj =
     (if pj_error pj \<noteq> None then pj
      else if pj_seen pj = SIZE_MAX
      then pj\<lparr>pj_error := Some (error_set_message RESOURCE_LIMIT ''fragment literal count is too large'')\<rparr>
      else (case literals_find_owner (Some tb) (Some node) of
          None \<Rightarrow> pj\<lparr>pj_seen := pj_seen pj + 1\<rparr>
        | Some r \<Rightarrow>
            (case grow_view alloc pj of
               None \<Rightarrow> pj\<lparr>pj_error := Some no_memory\<rparr>
             | Some capacity \<Rightarrow>
                 pj\<lparr>pj_capacity := capacity, pj_seen := pj_seen pj + 1,
                   pj_items := pj_items pj @ [\<lparr>le_literal = r, le_ordinal = pj_seen pj\<rparr>]\<rparr>)))"

definition project_fragment ::
  "schema \<Rightarrow> allocator \<Rightarrow> bool \<Rightarrow> national_literals option \<Rightarrow> message option list option
     \<Rightarrow> sql_error option \<times> literal_entry list"
where
  "project_fragment sch alloc has_view tb roots =
     (if \<not> has_view then (Some (error_set_message INVALID_ARGUMENT ''fragment literal view must not be NULL''), [])
      else case (tb, roots) of
        (Some tb, Some roots) \<Rightarrow>
          if tb_items tb = [] \<or> roots = [] then (None, [])
          else (let pj = fold (projection_visit alloc tb) (literal_nodes (map snd (visit_roots sch roots 0)))
                  \<lparr>pj_items = [], pj_capacity = 0, pj_seen = 0, pj_error = None\<rparr>
            in (pj_error pj, if pj_error pj \<noteq> None then [] else pj_items pj))
      | _ \<Rightarrow> (None, []))"

definition view_release :: "literal_entry list option \<Rightarrow> literal_entry list option" where
  "view_release view = map_option (\<lambda>_. []) view"

text \<open>The search in a view is the search by ordinal.\<close>

definition entry_record :: "literal_entry \<Rightarrow> ordinal_record" where
  "entry_record e = \<lparr>rec_ordinal = le_ordinal e, rec_owner = None\<rparr>"

definition view_match :: "literal_entry list option \<Rightarrow> nat \<Rightarrow> string option \<Rightarrow> nat \<Rightarrow> nat \<Rightarrow> bool" where
  "view_match view ordinal sql start end_pos =
     (case (view, sql) of
        (Some items, Some sql) \<Rightarrow>
          start < end_pos \<and>
          (let left = lower_bound (map entry_record items) ordinal 0 (length items); r = le_literal (items ! left)
           in left < length items \<and> le_ordinal (items ! left) = ordinal \<and>
             (rec_owner r \<noteq> None \<or> (c_strlen (nl_sql r) = end_pos - start \<and>
                take (end_pos - start) (nl_sql r) = take (end_pos - start) (drop start sql))))
      | _ \<Rightarrow> False)"

end
