(* ===== verification/Literal_Properties.thy ===== *)
theory Literal_Properties
  imports National_Literals
begin

text \<open>
  What the table of prefixed literals promises: a copy of the table or of a tree keeps the spellings,
  an edit of the tree moves every spelling with its literal, and the view of a fragment knows exactly
  the literals of the fragment that have a spelling.
\<close>

section \<open>Appending\<close>

definition text_ok :: "national_literal \<Rightarrow> bool" where
  "text_ok r \<longleftrightarrow> NUL \<notin> set (nl_sql r) \<and> (\<forall>s. nl_surface r = Some s \<longrightarrow> NUL \<notin> set s)"

lemma strlen_text: "NUL \<notin> set s \<Longrightarrow> c_strlen s = length s"
  by (induction s) (auto simp: c_strlen_def)

lemma append_spec:
  assumes "literals_append alloc request (Some tb) (Some sql) n ordinal = (e, t)"
  shows "\<exists>tb'. t = Some tb' \<and> tb_total tb' = tb_total tb \<and>
    (if e = None then tb_items tb' = tb_items tb @
       [\<lparr>rec_ordinal = ordinal, rec_owner = None, nl_sql = take n sql, nl_surface = None\<rparr>]
     else e = Some no_memory \<and> tb_items tb' = tb_items tb)"
proof (cases "grow_table alloc request sizeof_national tb")
  case None
  then have "e = Some no_memory" "t = Some tb" using assms by (simp_all add: literals_append_def)
  then show ?thesis by simp
next
  case (Some capacity)
  show ?thesis
  proof (cases "alloc (request + 1) (wrap_size (n + 1))")
    case True
    then have "e = None" "t = Some (tb\<lparr>tb_capacity := capacity, tb_items := tb_items tb @
        [\<lparr>rec_ordinal = ordinal, rec_owner = None, nl_sql = take n sql, nl_surface = None\<rparr>]\<rparr>)"
      using assms Some by (simp_all add: literals_append_def c_strndup_def)
    then show ?thesis by simp
  next
    case False
    then have "e = Some no_memory" "t = Some (tb\<lparr>tb_capacity := capacity\<rparr>)"
      using assms Some by (simp_all add: literals_append_def c_strndup_def)
    then show ?thesis by simp
  qed
qed

lemma append_copy_spec:
  assumes "append_copy alloc request r ordinal (Some tb) = (e, t)" "text_ok r"
  shows "\<exists>tb'. t = Some tb' \<and> tb_total tb' = tb_total tb \<and>
    (if e = None then tb_items tb' = tb_items tb @ [r\<lparr>rec_ordinal := ordinal, rec_owner := None\<rparr>]
     else e = Some no_memory \<and> tb_items tb' = tb_items tb)"
proof -
  obtain e1 t1 where first: "literals_append alloc request (Some tb) (Some (nl_sql r)) (c_strlen (nl_sql r)) ordinal = (e1, t1)"
    by fastforce
  from append_spec [OF this] obtain tb1 where tb1: "t1 = Some tb1" "tb_total tb1 = tb_total tb"
    "if e1 = None then tb_items tb1 = tb_items tb @ [\<lparr>rec_ordinal = ordinal, rec_owner = None, nl_sql = nl_sql r, nl_surface = None\<rparr>]
     else e1 = Some no_memory \<and> tb_items tb1 = tb_items tb"
    using assms(2) by (auto simp: strlen_text text_ok_def)
  show ?thesis
  proof (cases "nl_surface r")
    case None
    then have "r\<lparr>rec_ordinal := ordinal, rec_owner := None\<rparr> =
        \<lparr>rec_ordinal = ordinal, rec_owner = None, nl_sql = nl_sql r, nl_surface = None\<rparr>"
      by simp
    then show ?thesis using assms(1) first tb1 None by (auto simp: append_copy_def)
  next
    case (Some surface)
    then have copy: "r\<lparr>rec_ordinal := ordinal, rec_owner := None\<rparr> =
        \<lparr>rec_ordinal = ordinal, rec_owner = None, nl_sql = nl_sql r, nl_surface = Some surface\<rparr>"
      by simp
    have "c_strlen surface = length surface" using assms(2) Some by (simp add: text_ok_def strlen_text)
    then have run: "(e, t) = (if e1 \<noteq> None then (e1, t1)
        else case c_strndup alloc (request + 2) surface (length surface) of
            None \<Rightarrow> (Some no_memory, Some (tb1\<lparr>tb_items := butlast (tb_items tb1)\<rparr>))
          | Some c \<Rightarrow> (None, Some (tb1\<lparr>tb_items := butlast (tb_items tb1) @ [last (tb_items tb1)\<lparr>nl_surface := Some c\<rparr>]\<rparr>)))"
      using assms(1) first tb1(1) Some by (auto simp: append_copy_def literals_append_surface_def split: option.splits)
    show ?thesis
    proof (cases e1)
      case None
      with run tb1 show ?thesis unfolding copy
        by (cases "alloc (request + 2) (wrap_size (length surface + 1))") (auto simp: c_strndup_def)
    qed (use run tb1 in auto)
  qed
qed

lemma append_literals_spec:
  assumes "append_literals alloc request rs (Some tb) = (e, t)" "list_all text_ok rs"
  shows "\<exists>tb'. t = Some tb' \<and>
    (if e = None then tb_items tb' = tb_items tb @ map (\<lambda>r. r\<lparr>rec_owner := None\<rparr>) rs \<and> tb_total tb' = tb_total tb
     else e = Some no_memory \<and> tb' = empty_table)"
  using assms
proof (induction rs arbitrary: request tb)
  case (Cons r rs)
  obtain e1 t1 where step: "append_copy alloc request r (rec_ordinal r) (Some tb) = (e1, t1)" by fastforce
  from append_copy_spec [OF this] Cons.prems(2) obtain tb1 where tb1: "t1 = Some tb1" "tb_total tb1 = tb_total tb"
    "if e1 = None then tb_items tb1 = tb_items tb @ [r\<lparr>rec_owner := None\<rparr>]
     else e1 = Some no_memory \<and> tb_items tb1 = tb_items tb"
    by auto
  show ?case
  proof (cases e1)
    case None
    then have "append_literals alloc (request + 3) rs (Some tb1) = (e, t)" using Cons.prems(1) step tb1(1) by simp
    from Cons.IH [OF this] Cons.prems(2) show ?thesis using tb1 None by (auto split: if_splits)
  next
    case (Some e')
    then show ?thesis using Cons.prems(1) step tb1 by (auto simp: literals_clear_def)
  qed
qed auto

section \<open>Finding an owner\<close>

lemma find_apart:
  assumes "owners_apart items"
  shows "find (\<lambda>r. rec_owner r = Some a) items = Some r \<longleftrightarrow> r \<in> set items \<and> rec_owner r = Some a"
  using assms by (induction items) (auto simp: image_iff)

lemma find_perm:
  assumes "owners_apart xs" "mset xs = mset ys"
  shows "find (\<lambda>r. rec_owner r = Some a) xs = find (\<lambda>r. rec_owner r = Some a) ys"
proof -
  have "find (\<lambda>r. rec_owner r = Some a) xs = Some r \<longleftrightarrow> find (\<lambda>r. rec_owner r = Some a) ys = Some r" for r
    using find_apart [OF assms(1)] find_apart [OF owners_apart_perm [OF assms(2,1)]] mset_eq_setD [OF assms(2)] by simp
  then show ?thesis by (metis option.exhaust)
qed

lemma find_owner_item:
  assumes "by_owner base" "owners_apart base"
  shows "map_option ((!) (base @ extra)) (find_owner (base @ extra) (length base) a) = find (\<lambda>r. rec_owner r = Some a) base"
proof (cases "find_owner (base @ extra) (length base) a")
  case None
  then have "Some a \<notin> rec_owner ` set base" using find_owner_prefix [OF assms(1), of extra a] by simp
  then have "find (\<lambda>r. rec_owner r = Some a) base = None" by (force simp: find_None_iff)
  then show ?thesis using None by simp
next
  case (Some i)
  then have "i < length base" "rec_owner (base ! i) = Some a"
    using find_owner_cases [OF assms(1) refl, of a extra] by simp_all
  then show ?thesis using Some find_apart [OF assms(2), of a "base ! i"] by (simp add: nth_append)
qed

section \<open>The callback of the copy\<close>

definition literal_copied :: "national_literal list \<Rightarrow> clone_event \<Rightarrow> national_literal list" where
  "literal_copied base event =
     (case the_literal_pair event of
        None \<Rightarrow> []
      | Some (s, c) \<Rightarrow>
          if \<not> is_string_literal s then []
          else case find (\<lambda>r. rec_owner r = Some (address s)) base of
              None \<Rightarrow> []
            | Some r \<Rightarrow> [r\<lparr>rec_ordinal := SIZE_MAX, rec_owner := Some (address c)\<rparr>])"

lemma literal_visit_spec:
  assumes "tb_items tb = base @ extra" "list_all text_ok base" "owners_apart base" "by_owner base"
    and "literal_clone_visit alloc (length base) event (tb, None) = ((tb', e), st)"
  shows "(st = STATUS_OK \<and> e = None \<and> tb_items tb' = base @ extra @ literal_copied base event) \<or>
    (st = NO_MEMORY \<and> e = Some no_memory \<and> tb_items tb' = base @ extra)"
proof (cases "the_literal_pair event")
  case None
  then show ?thesis using assms by (simp add: literal_clone_visit_def literal_copied_def)
next
  case (Some p)
  obtain s c where p: "p = (s, c)" by fastforce
  let ?found = "find_owner (base @ extra) (length base) (address s)"
  note item = find_owner_item [OF assms(4,3), of extra "address s"]
  show ?thesis
  proof (cases "is_string_literal s \<and> ?found \<noteq> None")
    case False
    then have "literal_clone_visit alloc (length base) event (tb, None) = ((tb, None), STATUS_OK)"
      using assms(1) by (auto simp: literal_clone_visit_def Some p)
    moreover have "literal_copied base event = []" using False item by (auto simp: literal_copied_def Some p)
    ultimately show ?thesis using assms by simp
  next
    case True
    then obtain i where i: "?found = Some i" by auto
    define r where "r = (base @ extra) ! i"
    have r: "find (\<lambda>r. rec_owner r = Some (address s)) base = Some r" using item i by (simp add: r_def)
    then have "text_ok r" using assms(2) by (auto simp: find_Some_iff list_all_length)
    obtain e1 t1 where step: "append_copy alloc (3 * length (tb_items tb)) r SIZE_MAX (Some tb) = (e1, t1)" by fastforce
    from append_copy_spec [OF step \<open>text_ok r\<close>] obtain tb1 where tb1: "t1 = Some tb1"
      "if e1 = None then tb_items tb1 = tb_items tb @ [r\<lparr>rec_ordinal := SIZE_MAX, rec_owner := None\<rparr>]
       else e1 = Some no_memory \<and> tb_items tb1 = tb_items tb"
      by auto
    have "literal_clone_visit alloc (length base) event (tb, None) =
        (case e1 of
           None \<Rightarrow> ((tb1\<lparr>tb_items := butlast (tb_items tb1) @ [set_owner (address c) (last (tb_items tb1))]\<rparr>, None), STATUS_OK)
         | Some e \<Rightarrow> ((tb1, Some e), err_code e))"
      using True i step tb1(1) assms(1) by (simp add: literal_clone_visit_def Some p r_def split: option.splits)
    then show ?thesis
      using assms tb1(2) True r by (cases e1) (auto simp: literal_copied_def Some p set_owner_def butlast_append)
  qed
qed

interpretation lc: owner_cloning "literal_clone_visit alloc" literal_copied the_literal_pair is_string_literal text_ok
proof unfold_locales
  show "(st = STATUS_OK \<and> e = None \<and> tb_items tb' = base @ extra @ literal_copied base event) \<or>
      (st = NO_MEMORY \<and> e = Some no_memory \<and> tb_items tb' = base @ extra)"
    if "tb_items tb = base @ extra" "list_all text_ok base" "owners_apart base" "by_owner base"
      "literal_clone_visit alloc (length base) event (tb, None) = ((tb', e), st)"
    for tb tb' :: national_literals and base extra event e st
    using literal_visit_spec [OF that] .
  show "map rec_owner (literal_copied base event) =
      (case the_literal_pair event of
         None \<Rightarrow> []
       | Some (s, c) \<Rightarrow> if is_string_literal s \<and> Some (address s) \<in> rec_owner ` set base then [Some (address c)] else [])"
    for base event
  proof -
    have "Some a \<in> rec_owner ` set base \<longleftrightarrow> find (\<lambda>r. rec_owner r = Some a) base \<noteq> None" for a
      by (force simp: find_None_iff)
    then show ?thesis by (auto simp: literal_copied_def split: option.splits)
  qed
  show "literal_copied base = literal_copied base2" if "mset base = mset base2" "owners_apart base" for base base2
    by (auto simp: literal_copied_def fun_eq_iff find_perm [OF that(2,1)] split: option.splits)
qed (simp add: pair_selector_def)

section \<open>The nodes of a tree\<close>

abbreviation text_nodes :: "schema \<Rightarrow> message \<Rightarrow> nat list" where
  "text_nodes sch ast \<equiv> literal_nodes (map snd (surface_visit sch (Some ast)))"

lemma roots_literals:
  assumes "parse_schema sch" "parse_result ast"
  shows "literal_nodes (map snd (visit_roots sch [Some ast] 0)) = text_nodes sch ast"
  using parse_visit [OF assms] by (simp add: visit_roots_def comp_def)

lemma text_nodes_distinct:
  assumes "schema_ok sch" "parse_schema sch" "parse_result ast" "addresses_apart (Some ast)"
  shows "distinct (text_nodes sch ast)"
proof -
  have "distinct (map address (owners the_string_literal (visit_message sch (Some ast))))"
    by (rule visit_addresses) (use assms in \<open>simp_all add: own_selector_def\<close>)
  then show ?thesis by (simp add: literal_nodes_def parse_visit [OF assms(2,3)])
qed

lemma payload [simp]:
  "nl_sql (bound_to nodes r) = nl_sql r" "nl_surface (bound_to nodes r) = nl_surface r"
  "nl_sql (relocated nodes r) = nl_sql r" "nl_surface (relocated nodes r) = nl_surface r"
  by (simp_all add: bound_to_def own_def set_owner_def relocated_def)

text \<open>Where every record is bound, the search is by ordinal alone.\<close>

lemma find_bound:
  assumes "strictly_sorted (ordinals (tb_items tb))" "\<forall>r \<in> set (tb_items tb). rec_owner r \<noteq> None" "start < end_pos"
  shows "literals_find (Some tb) k (Some sql) start end_pos = Some r \<longleftrightarrow> r \<in> set (tb_items tb) \<and> rec_ordinal r = k"
proof -
  define p where "p = lower_bound (tb_items tb) k 0 (length (tb_items tb))"
  note p = lower_bound_finds [OF assms(1) p_def]
  have owner: "p < length (tb_items tb) \<Longrightarrow> rec_owner (tb_items tb ! p) \<noteq> None" using assms(2) by simp
  have "literals_find (Some tb) k (Some sql) start end_pos =
      (if p < length (tb_items tb) \<and> rec_ordinal (tb_items tb ! p) = k then Some (tb_items tb ! p) else None)"
    using owner assms(3) by (auto simp: literals_find_def p_def [symmetric] Let_def not_le)
  moreover have "r \<in> set (tb_items tb) \<and> rec_ordinal r = k \<longleftrightarrow>
      p < length (tb_items tb) \<and> rec_ordinal (tb_items tb ! p) = k \<and> r = tb_items tb ! p"
    using p(2) by (auto simp: in_set_conv_nth)
  ultimately show ?thesis by auto
qed

section \<open>What the table says\<close>

text \<open>
  C10.  A spelling stays with its literal while the tree is edited: after the table is bound to one tree
  and reconciled with the edited one, the \<open>k\<close>-th string literal of the edited tree is found with a
  spelling exactly when it is a literal of the first tree that had this spelling there.
\<close>

theorem literals_follow_nodes:
  assumes "schema_ok sch" "parse_schema sch" "parse_result ast" "addresses_apart (Some ast)"
    and "parse_result edited" "addresses_apart (Some edited)"
    and "length (text_nodes sch ast) \<le> SIZE_MAX" "length (text_nodes sch edited) \<le> SIZE_MAX"
    and "strictly_sorted (ordinals (tb_items tb))" "literals_bind_ast sch (Some tb) (Some ast) = (None, bound)"
    and "start < end_pos"
  shows "(\<exists>r. literals_find (literals_reconcile sch bound (Some edited)) k (Some sql) start end_pos = Some r \<and>
      nl_sql r = spelling \<and> nl_surface r = surface) \<longleftrightarrow>
    k < length (text_nodes sch edited) \<and>
    (\<exists>r \<in> set (tb_items tb). nl_sql r = spelling \<and> nl_surface r = surface \<and>
      text_nodes sch edited ! k = text_nodes sch ast ! rec_ordinal r)"
proof -
  define nodes where "nodes = text_nodes sch ast"
  define new where "new = text_nodes sch edited"
  define tb1 where "tb1 = tb\<lparr>tb_items := map (bound_to nodes) (tb_items tb)\<rparr>"
  note distinct = text_nodes_distinct [OF assms(1-4), folded nodes_def] text_nodes_distinct [OF assms(1,2,5,6), folded new_def]
  have bind: "bound = Some tb1" "\<forall>r \<in> set (tb_items tb). rec_ordinal r < length nodes"
    using assms(10) unfolding literals_bind_ast_def tb1_def
    by (simp_all add: roots_literals [OF assms(2,3)] bind_tree_spec [OF assms(9,7)] nodes_def split: if_splits)
  have apart: "owners_apart (tb_items tb1)"
    using bound_apart [OF distinct(1) bind(2)] assms(9) by (simp add: strict_sorted_iff tb1_def)
  have new_length: "length new \<le> SIZE_MAX" using assms(8) by (simp add: new_def)
  define tb2 where "tb2 = reconcile_nodes new tb1"
  have result: "literals_reconcile sch bound (Some edited) = Some tb2"
    by (simp add: literals_reconcile_def bind(1) tb2_def new_def)
  have items: "set (tb_items tb2) = relocated new ` {r \<in> set (tb_items tb1). in_tree new r}"
    using arg_cong [OF reconcile_records [OF apart distinct(2) new_length], of set_mset] by (simp add: tb2_def)
  have "\<forall>r \<in> set (tb_items tb2). rec_owner r \<noteq> None" unfolding items by (auto simp: in_tree_def)
  note found = find_bound [OF reconcile_sorted(1) [OF apart distinct(2) new_length, folded tb2_def] this assms(11), of k sql]
  have at: "in_tree new (bound_to nodes r) \<and> place new (the (rec_owner (bound_to nodes r))) = k \<longleftrightarrow>
      k < length new \<and> new ! k = nodes ! rec_ordinal r" if "r \<in> set (tb_items tb)" for r
  proof -
    have "in_tree new (bound_to nodes r) \<longleftrightarrow> nodes ! rec_ordinal r \<in> set new"
      using bind(2) that by (auto simp: in_tree_def bound_owner)
    moreover have "rec_owner (bound_to nodes r) = Some (nodes ! rec_ordinal r)" using bind(2) that by (simp add: bound_owner)
    ultimately show ?thesis
      by (metis distinct(2) nth_mem option.sel place_distinct place_nth)
  qed
  have "(\<exists>r. literals_find (Some tb2) k (Some sql) start end_pos = Some r \<and> nl_sql r = spelling \<and> nl_surface r = surface) \<longleftrightarrow>
      (\<exists>r \<in> set (tb_items tb2). rec_ordinal r = k \<and> nl_sql r = spelling \<and> nl_surface r = surface)"
    unfolding found by blast
  also have "\<dots> \<longleftrightarrow> (\<exists>r \<in> set (tb_items tb). (in_tree new (bound_to nodes r) \<and>
      place new (the (rec_owner (bound_to nodes r))) = k) \<and> nl_sql r = spelling \<and> nl_surface r = surface)"
    unfolding items by (auto simp: tb1_def relocated_def)
  also have "\<dots> \<longleftrightarrow> k < length new \<and> (\<exists>r \<in> set (tb_items tb). nl_sql r = spelling \<and> nl_surface r = surface \<and>
      new ! k = nodes ! rec_ordinal r)"
    using at by blast
  finally show ?thesis unfolding result new_def nodes_def .
qed

text \<open>
  A copy of the table holds the same spellings at the same ordinals, bound to no tree; when memory
  is short the copy is empty and the error says so.
\<close>

lemma literals_clone_is_faithful:
  assumes "list_all text_ok (tb_items tb)"
  shows "literals_clone alloc (Some tb) (Some target) = (Some no_memory, Some empty_table) \<or>
    (\<exists>tb'. literals_clone alloc (Some tb) (Some target) = (None, Some tb') \<and>
      tb_items tb' = map (\<lambda>r. r\<lparr>rec_owner := None\<rparr>) (tb_items tb) \<and> tb_total tb' = tb_total tb \<and>
      tb_fragment_start tb' = length (tb_items tb) \<and> tb_fragment_base tb' = tb_total tb)"
proof -
  obtain e t where run: "append_literals alloc 0 (tb_items tb) (Some (empty_table\<lparr>tb_total := tb_total tb\<rparr>)) = (e, t)"
    by fastforce
  from append_literals_spec [OF this assms] show ?thesis
    using run by (cases e) (auto simp: literals_clone_def empty_table_def)
qed

text \<open>
  C18.  A copied literal has the spelling of its source: after the owners of a copied tree are recorded,
  the record of the copy of a literal is that of the literal, at no ordinal yet, and a literal without
  a spelling has a copy without one.
\<close>

theorem copied_literal_keeps_its_spelling:
  assumes "schema_ok sch" "addresses_apart (Some source)" "list_all text_ok (tb_items tb)" "owners_apart (tb_items tb)"
    and "inj f" "\<forall>a. \<not> marked tb (f a)"
    and "literals_clone_owners sch alloc (Some tb) (Some source) (Some (relocate f source)) = (None, Some tb')"
    and "(m, c) \<in> set (pairs the_literal_pair (clone_walk sch (Some source) (Some (relocate f source))))" "is_string_literal m"
  shows "literals_find_owner (Some tb') (Some (f (address m))) =
    map_option (\<lambda>r. r\<lparr>rec_ordinal := SIZE_MAX, rec_owner := Some (f (address m))\<rparr>)
      (literals_find_owner (Some tb) (Some (address m)))"
proof -
  define events where "events = clone_walk sch (Some source) (Some (relocate f source))"
  have run: "clone_tree_owners sch (literal_clone_visit alloc) ''cloned national literal AST shape is inconsistent''
      tb (Some source) (Some (relocate f source)) = (None, tb')"
    using assms(7) by (cases "clone_tree_owners sch (literal_clone_visit alloc)
      ''cloned national literal AST shape is inconsistent'' tb (Some source) (Some (relocate f source))")
      (simp add: literals_clone_owners_def)
  note marks = lc.clone_marks [OF assms(1-6) run, folded events_def]
  have marked_find: "marked t a \<longleftrightarrow> find (\<lambda>r. rec_owner r = Some a) (tb_items t) \<noteq> None" for t :: national_literals and a
    by (force simp: marked_def find_None_iff)
  show ?thesis
  proof (cases "find (\<lambda>r. rec_owner r = Some (address m)) (tb_items tb)")
    case None
    then have "\<not> marked tb' (f (address m))"
      using marks [of "f (address m)"] assms(5,6) marked_find [of tb "address m"] by (auto dest: injD)
    then show ?thesis using None marked_find by (simp add: literals_find_owner_def)
  next
    case (Some r)
    define copy where "copy = r\<lparr>rec_ordinal := SIZE_MAX, rec_owner := Some (f (address m))\<rparr>"
    obtain e where e: "e \<in> set events" "the_literal_pair e = Some (m, c)"
      using assms(8) unfolding events_def pairs_def by (auto split: option.splits)
    have "c = relocate f m"
      using copy_walks_in_step [of e sch "Some source" f the_literal_pair "(m, c)"] e by (simp add: events_def pair_selector_def)
    then have "copy \<in> set (literal_copied (tb_items tb) e)"
      using e(2) Some assms(9) by (simp add: literal_copied_def copy_def)
    moreover have "tb_items tb \<noteq> []" using Some by auto
    ultimately have "copy \<in># mset (tb_items tb')"
      using lc.clone_result [OF run assms(3,4)] e(1) by (auto simp: events_def)
    moreover have "owners_apart (tb_items tb')" using marks by blast
    ultimately have "find (\<lambda>r. rec_owner r = Some (f (address m))) (tb_items tb') = Some copy"
      by (subst find_apart) (simp_all add: copy_def)
    then show ?thesis using Some by (simp add: literals_find_owner_def copy_def)
  qed
qed

section \<open>The view of a fragment\<close>

definition entries :: "national_literals \<Rightarrow> nat \<Rightarrow> nat list \<Rightarrow> literal_entry list" where
  "entries tb seen nodes =
     concat (map (\<lambda>(k, node). case literals_find_owner (Some tb) (Some node) of
         None \<Rightarrow> [] | Some r \<Rightarrow> [\<lparr>le_literal = r, le_ordinal = k\<rparr>]) (enumerate seen nodes))"

lemma projection_fails: "pj_error pj \<noteq> None \<Longrightarrow> fold (projection_visit alloc tb) nodes pj = pj"
  by (induction nodes) (simp_all add: projection_visit_def)

lemma projection_run:
  assumes "pj_error (fold (projection_visit alloc tb) nodes pj) = None" "pj_error pj = None"
  shows "pj_items (fold (projection_visit alloc tb) nodes pj) = pj_items pj @ entries tb (pj_seen pj) nodes"
  using assms
proof (induction nodes arbitrary: pj)
  case (Cons node nodes)
  let ?pj = "projection_visit alloc tb node pj"
  have ok: "pj_error ?pj = None"
    using Cons.prems(1) projection_fails [of ?pj alloc tb nodes] by (cases "pj_error ?pj") auto
  have step: "pj_items ?pj = pj_items pj @ entries tb (pj_seen pj) [node]" "pj_seen ?pj = pj_seen pj + 1"
    using ok Cons.prems(2) by (auto simp: projection_visit_def entries_def split: option.splits if_splits)
  have "entries tb (pj_seen pj) (node # nodes) = entries tb (pj_seen pj) [node] @ entries tb (pj_seen pj + 1) nodes"
    by (simp add: entries_def)
  then show ?case using Cons.IH [OF _ ok] Cons.prems(1) step by simp
qed (simp add: entries_def)

lemma entries_Cons:
  "entries tb seen (node # nodes) =
     (case literals_find_owner (Some tb) (Some node) of None \<Rightarrow> [] | Some r \<Rightarrow> [\<lparr>le_literal = r, le_ordinal = seen\<rparr>]) @
     entries tb (Suc seen) nodes"
  by (simp add: entries_def)

lemma entries_above: "e \<in> set (entries tb seen nodes) \<Longrightarrow> seen \<le> le_ordinal e \<and> rec_owner (le_literal e) \<noteq> None"
proof (induction nodes arbitrary: seen)
  case (Cons node nodes)
  from Cons.prems consider (here) r where "literals_find_owner (Some tb) (Some node) = Some r" "e = \<lparr>le_literal = r, le_ordinal = seen\<rparr>"
    | (later) "e \<in> set (entries tb (Suc seen) nodes)"
    by (cases "literals_find_owner (Some tb) (Some node)") (auto simp: entries_Cons)
  then show ?case
  proof cases
    case here
    then have "rec_owner r = Some node" by (auto simp: literals_find_owner_def find_Some_iff)
    then show ?thesis by (simp add: here(2))
  next
    case later
    from Cons.IH [OF this] show ?thesis by auto
  qed
qed (simp add: entries_def)

lemma entries_sorted: "strictly_sorted (map le_ordinal (entries tb seen nodes))"
proof (induction nodes arbitrary: seen)
  case (Cons node nodes)
  then show ?case using entries_above [of _ tb "Suc seen" nodes] by (fastforce simp: entries_Cons split: option.splits)
qed (simp add: entries_def)

lemma entries_ordinals:
  "k \<in> le_ordinal ` set (entries tb seen nodes) \<longleftrightarrow> seen \<le> k \<and> k < seen + length nodes \<and> marked tb (nodes ! (k - seen))"
proof (induction nodes arbitrary: seen)
  case (Cons node nodes)
  have marked_find: "marked tb node \<longleftrightarrow> literals_find_owner (Some tb) (Some node) \<noteq> None"
    by (force simp: marked_def literals_find_owner_def find_None_iff)
  show ?case
  proof (cases "k = seen")
    case True
    have "seen \<notin> le_ordinal ` set (entries tb (Suc seen) nodes)" using entries_above [of _ tb "Suc seen" nodes] by fastforce
    then show ?thesis using True marked_find by (auto simp: entries_Cons split: option.splits)
  next
    case False
    then have "k \<in> le_ordinal ` set (entries tb seen (node # nodes)) \<longleftrightarrow> k \<in> le_ordinal ` set (entries tb (Suc seen) nodes)"
      by (auto simp: entries_Cons split: option.splits)
    then show ?thesis using Cons.IH [of "Suc seen"] False by (auto simp: nth_Cons' Suc_le_eq)
  qed
qed (simp add: entries_def)

text \<open>
  C21.  The view of a fragment of the tree counts the string literals of the fragment from zero and
  knows exactly those with a spelling, whatever their ordinals in the whole tree are.
\<close>

theorem fragment_view_knows_its_literals:
  assumes "project_fragment sch alloc True (Some tb) (Some roots) = (None, view)" "start < end_pos"
  shows "view_match (Some view) k (Some sql) start end_pos \<longleftrightarrow>
    k < length (literal_nodes (map snd (visit_roots sch roots 0))) \<and>
    marked tb (literal_nodes (map snd (visit_roots sch roots 0)) ! k)"
proof -
  define nodes where "nodes = literal_nodes (map snd (visit_roots sch roots 0))"
  have view: "view = entries tb 0 nodes"
  proof (cases "tb_items tb = [] \<or> roots = []")
    case True
    have "entries tb n nodes = []" for n
      using True
    proof
      assume "tb_items tb = []"
      then show ?thesis by (induction nodes arbitrary: n) (simp_all add: entries_def literals_find_owner_def)
    next
      assume "roots = []"
      then show ?thesis by (simp add: nodes_def visit_roots_def literal_nodes_def entries_def)
    qed
    then show ?thesis using assms(1) True by (auto simp: project_fragment_def)
  next
    case False
    then show ?thesis
      using assms(1) projection_run [of alloc tb nodes "\<lparr>pj_items = [], pj_capacity = 0, pj_seen = 0, pj_error = None\<rparr>"]
      by (auto simp: project_fragment_def nodes_def Let_def split: if_splits)
  qed
  define p where "p = lower_bound (map entry_record view) k 0 (length view)"
  have keys: "ordinals (map entry_record view) = map le_ordinal view" by (simp add: entry_record_def)
  have "strictly_sorted (ordinals (map entry_record view))" unfolding keys unfolding view by (rule entries_sorted)
  from lower_bound_finds(1) [OF this, of p k]
  have "p < length view \<and> le_ordinal (view ! p) = k \<longleftrightarrow> k \<in> le_ordinal ` set view"
    by (auto simp: p_def keys) (auto simp: entry_record_def)
  moreover have "p < length view \<Longrightarrow> rec_owner (le_literal (view ! p)) \<noteq> None"
    using entries_above [of "view ! p" tb 0 nodes] by (simp add: view)
  ultimately have "view_match (Some view) k (Some sql) start end_pos \<longleftrightarrow> k \<in> le_ordinal ` set view"
    using assms(2) by (auto simp: view_match_def p_def [symmetric] Let_def)
  then show ?thesis using entries_ordinals [of k tb 0 nodes] by (simp add: view nodes_def)
qed

section \<open>A tree with literals\<close>

definition sample_text :: "nat \<Rightarrow> message" where
  "sample_text a = Message a (Some ''Node'') [] 71 (Some (Message (a + 1) (Some ''A_Const'') [] 4
     (Some (Message (a + 2) (Some ''String'') [] 0 None))))"

lemma text_walk [simp]:
  "literal_nodes (visit_message sample_schema (Some (sample_text a))) = [a + 1]"
  by (simp add: sample_text_def visit_message.simps(2) [of _ "Message _ _ _ _ _"] message_steps_def visit_generic_def
      node_dispatch_def sample_schema_def Let_def literal_nodes_def is_string_literal_def VAL_SVAL_def)

lemma literal_nodes_simps [simp]:
  "literal_nodes [] = []" "literal_nodes (xs @ ys) = literal_nodes xs @ literal_nodes ys"
  by (simp_all add: literal_nodes_def)

lemma values_nodes [simp]:
  "text_nodes sample_schema (sample_tree (sample_values (map sample_text as))) = map (\<lambda>a. a + 1) as"
proof -
  have "literal_nodes (concat (map (\<lambda>a. visit_message sample_schema (Some (sample_text a))) as)) = map (\<lambda>a. a + 1) as"
    by (induction as) simp_all
  then show ?thesis by (simp add: comp_def)
qed

lemma values_apart [simp]:
  "addresses_apart (Some (sample_tree (sample_values [sample_text 10, sample_text 20])))"
  "addresses_apart (Some (sample_tree (sample_values [sample_text 20, sample_text 10])))"
  by (simp_all add: addresses_apart_def tree_messages_def sample_tree_def sample_values_def sample_text_def messages.simps parts_def)

definition sample_literals :: "nat option \<Rightarrow> national_literals" where
  "sample_literals owner = \<lparr>tb_items = [\<lparr>rec_ordinal = 0, rec_owner = owner, nl_sql = ''N'', nl_surface = None\<rparr>],
     tb_capacity = 4, tb_total = 2, tb_fragment_start = 1, tb_fragment_base = 2\<rparr>"

lemma sample_literals_items [simp]:
  "tb_items (sample_literals owner) = [\<lparr>rec_ordinal = 0, rec_owner = owner, nl_sql = ''N'', nl_surface = None\<rparr>]"
  by (simp add: sample_literals_def)

text \<open>The two literals change places, and the spelling of the first is then at the second.\<close>

theorem literals_follow_nodes_witness:
  "\<exists>bound r. literals_bind_ast sample_schema (Some (sample_literals None))
      (Some (sample_tree (sample_values [sample_text 10, sample_text 20]))) = (None, bound) \<and>
    literals_find (literals_reconcile sample_schema bound
      (Some (sample_tree (sample_values [sample_text 20, sample_text 10])))) 1 (Some ''SELECT'') 0 3 = Some r \<and>
    nl_sql r = ''N'' \<and> nl_surface r = None"
proof -
  let ?first = "sample_tree (sample_values [sample_text 10, sample_text 20])"
  let ?edited = "sample_tree (sample_values [sample_text 20, sample_text 10])"
  have nodes: "text_nodes sample_schema ?first = [11, 21]" "text_nodes sample_schema ?edited = [21, 11]"
    using values_nodes [of "[10, 20]"] values_nodes [of "[20, 10]"] by simp_all
  obtain bound where bound: "literals_bind_ast sample_schema (Some (sample_literals None)) (Some ?first) = (None, bound)"
    using bind_tree_spec [of "sample_literals None" "[11, 21]" literal_missing]
    by (simp add: literals_bind_ast_def roots_literals nodes sample_literals_def SIZE_MAX_def)
  moreover have "strictly_sorted (ordinals (tb_items (sample_literals None)))" by (simp add: sample_literals_def)
  moreover have "(0 :: nat) < 3" by simp
  ultimately show ?thesis
    using literals_follow_nodes [of sample_schema ?first ?edited "sample_literals None" bound 0 3 1 "''SELECT''" "''N''" None]
    by (simp add: nodes SIZE_MAX_def)
qed

lemma literals_clone_is_faithful_witness:
  "fst (literals_clone (\<lambda>_ _. True) (Some (sample_literals (Some 11))) (Some empty_table)) = None \<and>
   literals_clone (\<lambda>_ _. True) (Some (sample_literals (Some 11))) (Some empty_table) =
     (None, Some (sample_literals None))"
proof -
  have "list_all text_ok (tb_items (sample_literals (Some 11)))" by (simp add: sample_literals_def text_ok_def)
  from literals_clone_is_faithful [OF this, of "\<lambda>_ _. True" empty_table]
  have "fst (literals_clone (\<lambda>_ _. True) (Some (sample_literals (Some 11))) (Some empty_table)) \<noteq> None \<longrightarrow>
      literals_clone (\<lambda>_ _. True) (Some (sample_literals (Some 11))) (Some empty_table) = (Some no_memory, Some empty_table)"
    by auto
  moreover have "literals_clone (\<lambda>_ _. True) (Some (sample_literals (Some 11))) (Some empty_table) = (None, Some (sample_literals None))"
    by (simp add: literals_clone_def sample_literals_def append_copy_def literals_append_def grow_table_def c_strndup_def
        empty_table_def sizeof_national_def c_strlen_def SIZE_MAX_def)
  ultimately show ?thesis by simp
qed

lemma text_clone_walk:
  "clone_walk sample_schema (Some (sample_text 10)) (Some (relocate f (sample_text 10))) =
     [Clone_String_Literal (the (msg_slot (sample_text 10))) (relocate f (the (msg_slot (sample_text 10))))]"
  by (simp add: sample_text_def clone_walk.simps clone_calls_def clone_fields_def clone_field_def sample_schema_def Let_def)

theorem copied_literal_keeps_its_spelling_witness:
  "literals_find_owner (snd (literals_clone_owners sample_schema (\<lambda>_ _. True) (Some (sample_literals (Some 11)))
      (Some (sample_text 10)) (Some (relocate (\<lambda>a. a + 100) (sample_text 10))))) (Some 111) =
     Some \<lparr>rec_ordinal = SIZE_MAX, rec_owner = Some 111, nl_sql = ''N'', nl_surface = None\<rparr>"
proof -
  let ?tb = "sample_literals (Some 11)" and ?f = "\<lambda>a :: nat. a + 100"
  obtain tb' where run: "literals_clone_owners sample_schema (\<lambda>_ _. True) (Some ?tb) (Some (sample_text 10))
      (Some (relocate ?f (sample_text 10))) = (None, Some tb')"
    by (simp add: literals_clone_owners_def clone_tree_owners_def surface_clone_def text_clone_walk Let_def)
      (simp add: sample_literals_def sample_text_def literal_clone_visit_def is_string_literal_def VAL_SVAL_def find_owner_def
        owner_key_def append_copy_def literals_append_def grow_table_def c_strndup_def)
  have "\<forall>a. \<not> marked ?tb (?f a)" "owners_apart (tb_items ?tb)" "list_all text_ok (tb_items ?tb)"
    by (simp_all add: marked_def sample_literals_def text_ok_def)
  moreover have "addresses_apart (Some (sample_text 10))"
    by (simp add: addresses_apart_def tree_messages_def sample_text_def messages.simps parts_def)
  moreover have "inj ?f" by (simp add: inj_def)
  moreover have "is_string_literal (the (msg_slot (sample_text 10)))" "address (the (msg_slot (sample_text 10))) = 11"
    by (simp_all add: sample_text_def is_string_literal_def VAL_SVAL_def)
  ultimately show ?thesis
    using copied_literal_keeps_its_spelling [OF sample_schema_simps(1), of "sample_text 10" ?tb ?f "\<lambda>_ _. True" tb'
        "the (msg_slot (sample_text 10))"] run
    by (simp add: text_clone_walk literals_find_owner_def)
qed

theorem fragment_view_knows_its_literals_witness:
  "\<exists>view. project_fragment sample_schema (\<lambda>_ _. True) True (Some (sample_literals (Some 11))) (Some [Some (sample_text 10)]) =
      (None, view) \<and> view_match (Some view) 0 (Some ''SELECT'') 0 3"
proof -
  have nodes: "literal_nodes (map snd (visit_roots sample_schema [Some (sample_text 10)] 0)) = [11]"
    using text_walk [of 10] by (simp add: visit_roots_def comp_def)
  obtain view where view: "project_fragment sample_schema (\<lambda>_ _. True) True (Some (sample_literals (Some 11)))
      (Some [Some (sample_text 10)]) = (None, view)"
    by (simp add: project_fragment_def nodes Let_def) (simp add: sample_literals_def projection_visit_def literals_find_owner_def
        grow_view_def SIZE_MAX_def)
  moreover have "marked (sample_literals (Some 11)) 11" by (simp add: marked_def sample_literals_def)
  ultimately show ?thesis
    using fragment_view_knows_its_literals [OF view, of 0 3 0 "''SELECT''"] by (simp add: nodes)
qed

end
