(* ===== verification/Bind_Prepare.thy ===== *)
theory Bind_Prepare
  imports Surface_Properties
begin

text \<open>
  \<^verbatim>\<open>sqlparser_dialect_bind.c\<close>: before a statement is written again its parameters are numbered anew, in
  the order of the text.  Named parameters keep one number for all their occurrences, each question
  mark gets a number of its own, and the names go to a table that replaces the old one when the
  statement is accepted.
\<close>

section \<open>The state\<close>

record prepared_binds =
  pb_names :: "string list"
  pb_capacity :: nat
  pb_occurrences :: nat
  pb_valid :: bool

definition no_binds :: prepared_binds where
  "no_binds = \<lparr>pb_names = [], pb_capacity = 0, pb_occurrences = 0, pb_valid = False\<rparr>"

definition prepared_binds_clear :: "prepared_binds option \<Rightarrow> prepared_binds option" where
  "prepared_binds_clear p = map_option (\<lambda>_. no_binds) p"

text \<open>The callback that counts stops at the largest count.\<close>

definition count_visit :: "nat \<Rightarrow> nat" where
  "count_visit n = (if n \<noteq> SIZE_MAX then n + 1 else n)"

text \<open>An update holds the node and its new number.\<close>

record bind_prepare =
  bp_map :: "nat list"
  bp_prepared :: prepared_binds
  bp_updates :: "(message \<times> nat) list"
  bp_status :: status

definition named :: "string \<Rightarrow> bool" where
  "named name = (name \<noteq> ''?'')"

definition prepare_visit :: "allocator \<Rightarrow> string option list \<Rightarrow> message \<Rightarrow> bind_prepare \<Rightarrow> bind_prepare" where
  "prepare_visit alloc source_names m bp =
     (if bp_status bp \<noteq> STATUS_OK then bp
      else if number m ''number'' \<le> 0 \<or> nat (number m ''number'') > length source_names
      then bp\<lparr>bp_status := INTERNAL_ERROR\<rparr>
      else let source_number = nat (number m ''number'')
        in case source_names ! (source_number - 1) of
             None \<Rightarrow> bp\<lparr>bp_status := INTERNAL_ERROR\<rparr>
           | Some name \<Rightarrow>
               (let known = (if named name then bp_map bp ! source_number else 0)
                in if known \<noteq> 0 then bp\<lparr>bp_updates := bp_updates bp @ [(m, known)]\<rparr>
                   else if \<not> alloc (3 + length (pb_names (bp_prepared bp))) (length name + 1)
                   then bp\<lparr>bp_status := NO_MEMORY\<rparr>
                   else let names = pb_names (bp_prepared bp) @ [name]
                     in bp\<lparr>bp_prepared := bp_prepared bp\<lparr>pb_names := names\<rparr>,
                          bp_map := (if named name then (bp_map bp)[source_number := length names] else bp_map bp),
                          bp_updates := bp_updates bp @ [(m, length names)]\<rparr>))"

text \<open>
  The updates write the number of their node.  The tree is a value, so they are made by a pass over it:
  the field \<open>number\<close> of the parameter at an address.
\<close>

primrec set_numbers :: "(nat \<Rightarrow> nat option) \<Rightarrow> message \<Rightarrow> message"
  and set_numbers_value :: "(nat \<Rightarrow> nat option) \<Rightarrow> field_value \<Rightarrow> nat option \<Rightarrow> field_value"
where
  "set_numbers g (Message a t fs k s) =
     Message a t (map (\<lambda>(name, update). (name, update (if t = Some ''ParamRef'' \<and> name = ''number'' then g a else None)))
         (map (map_prod id (set_numbers_value g)) fs)) k (map_option (set_numbers g) s)"
| "set_numbers_value g (Child c) = (\<lambda>_. Child (map_option (set_numbers g) c))"
| "set_numbers_value g (Children cs) = (\<lambda>_. Children (map (map_option (set_numbers g)) cs))"
| "set_numbers_value g (Number n) = (\<lambda>new. Number (case new of None \<Rightarrow> n | Some k \<Rightarrow> int k))"

definition the_params :: "surface_event list \<Rightarrow> message list" where
  "the_params events = owners the_param_ref events"

definition bind_start :: "nat \<Rightarrow> prepared_binds \<Rightarrow> nat \<Rightarrow> bind_prepare" where
  "bind_start name_count p n =
     \<lparr>bp_map = replicate (name_count + 1) 0, bp_prepared = p\<lparr>pb_capacity := n, pb_occurrences := n\<rparr>,
      bp_updates = [], bp_status = STATUS_OK\<rparr>"

text \<open>
  The result is the error, the prepared state and the tree.  Names take 8 bytes, updates 16, and the map
  from source to prepared numbers 8 for each number; the requests are the arrays and then the copies of
  the names.
\<close>

definition prepare_binds ::
  "schema \<Rightarrow> allocator \<Rightarrow> string option list option \<Rightarrow> nat \<Rightarrow> message option \<Rightarrow> prepared_binds option
     \<Rightarrow> sql_error option \<times> prepared_binds option \<times> message option"
where
  "prepare_binds sch alloc names name_count ast prepared =
     (case (prepared, ast) of
        (Some p, Some a) \<Rightarrow>
          if name_count > 0 \<and> names = None
          then (Some (error_set_message INVALID_ARGUMENT ''bind prepare arguments must not be NULL''), prepared, ast)
          else if pb_valid p \<or> name_count = 0 then (None, prepared, ast)
          else (let params = the_params (map snd (surface_visit sch ast));
                    count = fold (\<lambda>_. count_visit) params 0
            in if count = SIZE_MAX \<or> count > INT_MAX \<or> count > SIZE_MAX div 8 \<or> count > SIZE_MAX div 16 \<or>
                  name_count = SIZE_MAX \<or> name_count + 1 > SIZE_MAX div 8
               then (Some (error_set_message NO_MEMORY ''out of memory''), prepared, ast)
               else if (count > 0 \<and> (\<not> alloc 0 (count * 8) \<or> \<not> alloc 1 (count * 16))) \<or> \<not> alloc 2 ((name_count + 1) * 8)
               then (Some (error_set_message NO_MEMORY ''out of memory''), prepared_binds_clear prepared, ast)
               else (let bp = fold (prepare_visit alloc (the names)) params (bind_start name_count p count)
                 in if bp_status bp \<noteq> STATUS_OK \<or> length (bp_updates bp) \<noteq> count
                    then (Some (error_set_message (if bp_status bp \<noteq> STATUS_OK then bp_status bp else INTERNAL_ERROR)
                        (if bp_status bp = NO_MEMORY then ''out of memory'' else ''bind AST state is inconsistent'')),
                      prepared_binds_clear prepared, ast)
                    else (None, Some ((bp_prepared bp)\<lparr>pb_valid := True\<rparr>),
                      Some (set_numbers (map_of (map (\<lambda>(m, n). (address m, n)) (bp_updates bp))) a))))
      | _ \<Rightarrow> (Some (error_set_message INVALID_ARGUMENT ''bind prepare arguments must not be NULL''), prepared, ast))"

text \<open>
  \<^verbatim>\<open>sqlparser_dialect_reconcile_binds\<close>: the table of names of the handle (names, capacity, occurrences)
  is replaced and the prepared state is empty again.
\<close>

record bind_table =
  bt_names :: "string list"
  bt_capacity :: nat
  bt_occurrences :: nat

definition reconcile_binds :: "prepared_binds option \<Rightarrow> bind_table option \<Rightarrow> prepared_binds option \<times> bind_table option" where
  "reconcile_binds prepared bt =
     (case (prepared, bt) of
        (Some p, Some b) \<Rightarrow>
          if \<not> pb_valid p then (prepared, bt)
          else (Some no_binds,
            Some \<lparr>bt_names = pb_names p, bt_capacity = pb_capacity p, bt_occurrences = pb_occurrences p\<rparr>)
      | _ \<Rightarrow> (prepared, bt))"

section \<open>A pass that keeps the shape of a tree\<close>

definition keeps_shape :: "(message \<Rightarrow> message) \<Rightarrow> bool" where
  "keeps_shape h \<longleftrightarrow>
     (\<forall>m. msg_type (h m) = msg_type m \<and> msg_case (h m) = msg_case m \<and> msg_slot (h m) = map_option h (msg_slot m) \<and>
       (\<forall>n. child (h m) n = map_option h (child m n)) \<and> (\<forall>n. children (h m) n = map (map_option h) (children m n)) \<and>
       number (h m) ''op'' = number m ''op'' \<and> number (h m) ''limit_clause_style'' = number m ''limit_clause_style'')"

primrec event_map :: "(message \<Rightarrow> message) \<Rightarrow> surface_event \<Rightarrow> surface_event" where
  "event_map h (String_Literal m) = String_Literal (h m)"
| "event_map h (Param_Ref m) = Param_Ref (h m)"
| "event_map h (Relation m) = Relation (h m)"
| "event_map h (Derived_Relation m) = Derived_Relation (h m)"
| "event_map h (Insert_Relation m) = Insert_Relation (h m)"
| "event_map h (Join m) = Join (h m)"
| "event_map h (Select_Limit m) = Select_Limit (h m)"
| "event_map h (Set_Operation m) = Set_Operation (h m)"

definition step_map :: "(message \<Rightarrow> message) \<Rightarrow> surface_step \<Rightarrow> surface_step" where
  "step_map h s = (case s of Visit c \<Rightarrow> Visit (map_option h c) | Call e \<Rightarrow> Call (event_map h e))"

lemma step_map_simps [simp]:
  "step_map h (Visit c) = Visit (map_option h c)" "step_map h (Call e) = Call (event_map h e)"
  by (simp_all add: step_map_def)

locale shape_pass =
  fixes h :: "message \<Rightarrow> message"
  assumes shape: "keeps_shape h"
begin

lemma shape_simps:
  "msg_type (h m) = msg_type m" "msg_case (h m) = msg_case m" "msg_slot (h m) = map_option h (msg_slot m)"
  "child (h m) n = map_option h (child m n)" "children (h m) n = map (map_option h) (children m n)"
  "number (h m) ''op'' = number m ''op''" "number (h m) ''limit_clause_style'' = number m ''limit_clause_style''"
  using shape by (simp_all add: keeps_shape_def)

lemma generic_map: "visit_generic sch (h m) = map (step_map h) (visit_generic sch m)"
proof -
  have "field_steps (h m) f = map (step_map h) (field_steps m f)" for f
    by (simp add: field_steps_def shape_simps comp_def)
  then have "descriptor_scan fs (h m) = map (step_map h) (descriptor_scan fs m)" for fs
    by (induction fs) (simp_all add: descriptor_scan_def)
  moreover have "node_dispatch fs (h m) = map (step_map h) (node_dispatch fs m)" for fs
    by (simp add: node_dispatch_def shape_simps split: option.split)
  ultimately show ?thesis by (simp add: visit_generic_def shape_simps split: option.split)
qed

lemma limit_map: "is_limit (h m) = is_limit m" "is_string_literal (h m) = is_string_literal m"
  by (simp_all add: is_limit_def is_string_literal_def shape_simps)

lemma typed_map:
  "visit_select (h m) = map (step_map h) (visit_select m)"
  "visit_insert sch (h m) = map (step_map h) (visit_insert sch m)"
  "visit_update (h m) = map (step_map h) (visit_update m)" "visit_delete (h m) = map (step_map h) (visit_delete m)"
  "visit_merge (h m) = map (step_map h) (visit_merge m)" "visit_join (h m) = map (step_map h) (visit_join m)"
  "visit_res_target (h m) = map (step_map h) (visit_res_target m)"
  by (simp_all add: visit_select_def visit_insert_def visit_update_def visit_delete_def visit_merge_def visit_join_def
      visit_res_target_def shape_simps limit_map generic_map comp_def split: option.split)

lemma steps_map: "message_steps sch (h m) = map (step_map h) (message_steps sch m)"
  by (simp add: message_steps_def shape_simps limit_map generic_map typed_map comp_def)

lemma walk_map: "visit_message sch (map_option h t) = map (event_map h) (visit_message sch t)"
proof (induction t rule: measure_induct_rule [of "\<lambda>t. case t of None \<Rightarrow> 0 | Some m \<Rightarrow> Suc (size m)"])
  case (less t)
  show ?case
  proof (cases t)
    case (Some m)
    have "(case step_map h s of Visit c \<Rightarrow> visit_message sch c | Call e \<Rightarrow> [e]) =
        map (event_map h) (case s of Visit c \<Rightarrow> visit_message sch c | Call e \<Rightarrow> [e])" if "s \<in> set (message_steps sch m)" for s
    proof (cases s)
      case (Visit c)
      have "visit_message sch (map_option h c) = map (event_map h) (visit_message sch c)"
      proof (cases c)
        case c: (Some a)
        then have "size a < size m" using that step_size Visit by blast
        then show ?thesis using less.IH [of c] c Some by simp
      qed simp
      then show ?thesis by (simp add: Visit)
    qed simp
    then show ?thesis
      by (simp add: Some visit_message.simps(2) steps_map map_concat comp_def cong: map_cong)
  qed simp
qed

lemma roots_map: "surface_visit sch (Some (h ast)) = map (map_prod id (event_map h)) (surface_visit sch (Some ast))"
proof -
  have roots: "statement_roots (h ast) = map (map_option h) (statement_roots ast)"
    by (auto simp: statement_roots_def shape_simps split: option.split)
  have "concat (map (\<lambda>(i, root). map (Pair i) (visit_message sch root)) (enumerate n (map (map_option h) rs))) =
      map (map_prod id (event_map h)) (concat (map (\<lambda>(i, root). map (Pair i) (visit_message sch root)) (enumerate n rs)))" for n rs
    by (induction rs arbitrary: n) (simp_all add: walk_map comp_def)
  then show ?thesis by (simp add: surface_visit_def roots)
qed

lemma params_map: "the_params (map (event_map h) events) = map h (the_params events)"
proof -
  have "the_param_ref (event_map h e) = map_option h (the_param_ref e)" for e by (cases e) simp_all
  then show ?thesis by (induction events) (simp_all add: the_params_def split: option.split)
qed

end

lemma set_numbers_field:
  "map_of (msg_fields (set_numbers g m)) n =
     map_option (\<lambda>v. set_numbers_value g v (if msg_type m = Some ''ParamRef'' \<and> n = ''number'' then g (address m) else None))
       (map_of (msg_fields m) n)"
proof (cases m)
  case (Message a t fs k s)
  have "map_of (map (\<lambda>(name, update). (name, update (c name))) (map (map_prod id f) xs)) n = map_option (\<lambda>v. f v (c n)) (map_of xs n)"
    for f :: "field_value \<Rightarrow> 'b \<Rightarrow> field_value" and c xs
    by (induction xs) auto
  from this [of "\<lambda>name. if t = Some ''ParamRef'' \<and> name = ''number'' then g a else None" "set_numbers_value g" fs]
  show ?thesis unfolding Message set_numbers.simps message.sel .
qed

interpretation sn: shape_pass "set_numbers g"
proof unfold_locales
  show "keeps_shape (set_numbers g)"
    unfolding keeps_shape_def
  proof (intro allI conjI)
    fix m :: message and n
    show "msg_type (set_numbers g m) = msg_type m" "msg_case (set_numbers g m) = msg_case m"
      "msg_slot (set_numbers g m) = map_option (set_numbers g) (msg_slot m)"
      by (cases m; simp)+
    show "child (set_numbers g m) n = map_option (set_numbers g) (child m n)"
      "children (set_numbers g m) n = map (map_option (set_numbers g)) (children m n)"
      by (auto simp: child_def children_def set_numbers_field split: option.split field_value.split)
    show "number (set_numbers g m) ''op'' = number m ''op''"
      "number (set_numbers g m) ''limit_clause_style'' = number m ''limit_clause_style''"
      by (auto simp: number_def set_numbers_field split: option.split field_value.split)
  qed
qed

lemma set_numbers_number:
  assumes "msg_type m = Some ''ParamRef''" "0 < number m ''number''" "g (address m) = Some k"
  shows "number (set_numbers g m) ''number'' = int k"
  using assms by (auto simp: number_def set_numbers_field split: option.splits field_value.splits)

end
