(* ===== verification/Bind_Properties.thy ===== *)
theory Bind_Properties
  imports Bind_Prepare
begin

text \<open>
  What the numbering of the parameters promises: every parameter keeps its name, two parameters get one
  number exactly when they are the same named parameter, the numbers are those of the first occurrences
  in the order of the text, and a call that fails has changed nothing.
\<close>

section \<open>A good numbering\<close>

text \<open>
  The parameters had the numbers \<open>olds\<close> over the names \<open>src\<close> and have the numbers \<open>news\<close> over \<open>names\<close>.
\<close>

definition numbered :: "string option list \<Rightarrow> nat list \<Rightarrow> nat list \<Rightarrow> string list \<Rightarrow> bool" where
  "numbered src olds news names \<longleftrightarrow>
     length news = length olds \<and>
     (\<forall>i < length olds. 0 < olds ! i \<and> olds ! i \<le> length src \<and> 0 < news ! i \<and> news ! i \<le> length names \<and>
        src ! (olds ! i - 1) = Some (names ! (news ! i - 1))) \<and>
     (\<forall>i < length olds. \<forall>j < i. news ! i = news ! j \<longleftrightarrow> olds ! i = olds ! j \<and> named (names ! (news ! i - 1))) \<and>
     (\<forall>i < length olds. news ! i \<le> Suc (card (set (take i news)))) \<and>
     set news = {1..length names}"

lemma numbered_Nil: "numbered src [] [] []"
  by (simp add: numbered_def)

lemma numberedD:
  assumes "numbered src olds news names"
  shows "length news = length olds" "set news = {1..length names}"
    "i < length olds \<Longrightarrow> 0 < olds ! i \<and> olds ! i \<le> length src \<and> 0 < news ! i \<and> news ! i \<le> length names"
    "i < length olds \<Longrightarrow> src ! (olds ! i - 1) = Some (names ! (news ! i - 1))"
    "i < length olds \<Longrightarrow> j < i \<Longrightarrow> news ! i = news ! j \<longleftrightarrow> olds ! i = olds ! j \<and> named (names ! (news ! i - 1))"
    "i < length olds \<Longrightarrow> news ! i \<le> Suc (card (set (take i news)))"
  using assms by (simp_all add: numbered_def)

lemma numbered_snoc:
  assumes old: "numbered src olds news names"
    and k: "0 < k" "k \<le> length src" and n: "0 < n" "n \<le> length names'" "n \<le> Suc (length names)"
    and extends: "\<And>q. q < length names \<Longrightarrow> names' ! q = names ! q" "length names \<le> length names'"
    and name: "src ! (k - 1) = Some (names' ! (n - 1))"
    and same: "\<And>j. j < length olds \<Longrightarrow> n = news ! j \<longleftrightarrow> k = olds ! j \<and> named (names' ! (n - 1))"
    and all: "insert n {1..length names} = {1..length names'}"
  shows "numbered src (olds @ [k]) (news @ [n]) names'"
proof -
  note old = numberedD [OF old]
  have keep: "names' ! (news ! i - 1) = names ! (news ! i - 1)" if "i < length olds" for i
    using old(3) [OF that] by (intro extends(1)) auto
  have each: "0 < (olds @ [k]) ! i \<and> (olds @ [k]) ! i \<le> length src \<and> 0 < (news @ [n]) ! i \<and> (news @ [n]) ! i \<le> length names' \<and>
      src ! ((olds @ [k]) ! i - 1) = Some (names' ! ((news @ [n]) ! i - 1))" if "i < Suc (length olds)" for i
  proof (cases "i = length olds")
    case True
    then show ?thesis using k n(1,2) name old(1) by (simp add: nth_append)
  next
    case False
    then show ?thesis using that old(3,4) [of i] keep [of i] extends(2) old(1) by (auto simp: nth_append)
  qed
  moreover have "(news @ [n]) ! i = (news @ [n]) ! j \<longleftrightarrow>
      (olds @ [k]) ! i = (olds @ [k]) ! j \<and> named (names' ! ((news @ [n]) ! i - 1))" if "i < Suc (length olds)" "j < i" for i j
  proof (cases "i = length olds")
    case True
    then show ?thesis using same [of j] that old(1) by (simp add: nth_append)
  next
    case False
    then show ?thesis using that old(5) [of i j] keep [of i] old(1) by (simp add: nth_append)
  qed
  moreover have "(news @ [n]) ! i \<le> Suc (card (set (take i (news @ [n]))))" if "i < Suc (length olds)" for i
  proof (cases "i = length olds")
    case True
    then show ?thesis using old(1,2) n(3) by (simp add: nth_append)
  next
    case False
    then show ?thesis using that old(6) [of i] old(1) by (simp add: nth_append)
  qed
  moreover have "set (news @ [n]) = {1..length names'}" using old(2) all by simp
  ultimately show ?thesis unfolding numbered_def using old(1) by simp
qed

lemma numbered_known:
  assumes "numbered src olds news names" "j < length olds" "named (names ! (news ! j - 1))"
  shows "numbered src (olds @ [olds ! j]) (news @ [news ! j]) names"
proof (rule numbered_snoc [OF assms(1)])
  note old = numberedD [OF assms(1)]
  show "news ! j = news ! i \<longleftrightarrow> olds ! j = olds ! i \<and> named (names ! (news ! j - 1))" if "i < length olds" for i
  proof (rule linorder_cases [of i j])
    assume "i < j"
    then show ?thesis using old(5) [OF assms(2)] by simp
  next
    assume "j < i"
    have eq: "names ! (news ! i - 1) = names ! (news ! j - 1)" if "olds ! i = olds ! j"
    proof -
      have "Some (names ! (news ! i - 1)) = src ! (olds ! i - 1)" by (rule old(4) [OF \<open>i < length olds\<close>, symmetric])
      also have "\<dots> = src ! (olds ! j - 1)" by (simp only: that)
      also have "\<dots> = Some (names ! (news ! j - 1))" by (rule old(4) [OF assms(2)])
      finally show ?thesis by simp
    qed
    have "named (names ! (news ! i - 1))" if "olds ! i = olds ! j" unfolding eq [OF that] by (rule assms(3))
    then show ?thesis unfolding old(5) [OF that \<open>j < i\<close>] eq_commute [of "news ! j"] eq_commute [of "olds ! j"]
      using assms(3) by blast
  qed (use assms(3) in simp)
  show "insert (news ! j) {1..length names} = {1..length names}" using old(3) [OF assms(2)] by auto
qed (use numberedD(3,4) [OF assms(1,2)] in auto)

lemma numbered_fresh:
  assumes "numbered src olds news names" "0 < k" "k \<le> length src" "src ! (k - 1) = Some name" "named name \<Longrightarrow> k \<notin> set olds"
  shows "numbered src (olds @ [k]) (news @ [Suc (length names)]) (names @ [name])"
proof (rule numbered_snoc [OF assms(1-3)])
  show "Suc (length names) = news ! i \<longleftrightarrow> k = olds ! i \<and> named ((names @ [name]) ! (Suc (length names) - 1))"
    if "i < length olds" for i
    using numberedD(3) [OF assms(1) that] assms(5) that by auto
qed (use assms(4) in \<open>auto simp: nth_append\<close>)

section \<open>The fold of the callback\<close>

definition olds_of :: "message list \<Rightarrow> nat list" where
  "olds_of ms = map (\<lambda>m. nat (number m ''number'')) ms"

lemma olds_of_simps [simp]:
  "length (olds_of ms) = length ms" "olds_of (ms @ [m]) = olds_of ms @ [nat (number m ''number'')]" "olds_of [] = []"
  by (simp_all add: olds_of_def)

text \<open>The state after the parameters \<open>ms\<close>, as long as nothing failed.\<close>

definition prepared_to :: "string option list \<Rightarrow> message list \<Rightarrow> bind_prepare \<Rightarrow> bool" where
  "prepared_to src ms bp \<longleftrightarrow>
     map fst (bp_updates bp) = ms \<and> (\<forall>m \<in> set ms. 0 < number m ''number'') \<and>
     numbered src (olds_of ms) (map snd (bp_updates bp)) (pb_names (bp_prepared bp)) \<and>
     length (bp_map bp) = Suc (length src) \<and>
     (\<forall>k. 0 < k \<and> k \<le> length src \<longrightarrow>
        (bp_map bp ! k \<noteq> 0 \<longrightarrow> (\<exists>j < length ms. olds_of ms ! j = k \<and> snd (bp_updates bp ! j) = bp_map bp ! k)) \<and>
        (k \<in> set (olds_of ms) \<and> (\<exists>name. src ! (k - 1) = Some name \<and> named name) \<longrightarrow> bp_map bp ! k \<noteq> 0))"

lemma prepared_toI:
  assumes "map fst (bp_updates bp) = ms" "\<forall>m \<in> set ms. 0 < number m ''number''"
    and "numbered src (olds_of ms) (map snd (bp_updates bp)) (pb_names (bp_prepared bp))" "length (bp_map bp) = Suc (length src)"
    and "\<And>k. 0 < k \<Longrightarrow> k \<le> length src \<Longrightarrow> bp_map bp ! k \<noteq> 0 \<Longrightarrow>
        \<exists>j < length ms. olds_of ms ! j = k \<and> snd (bp_updates bp ! j) = bp_map bp ! k"
    and "\<And>k name. 0 < k \<Longrightarrow> k \<le> length src \<Longrightarrow> k \<in> set (olds_of ms) \<Longrightarrow> src ! (k - 1) = Some name \<Longrightarrow> named name \<Longrightarrow>
        bp_map bp ! k \<noteq> 0"
  shows "prepared_to src ms bp"
  unfolding prepared_to_def using assms by blast

lemma prepare_step:
  assumes "prepared_to src ms bp" "bp_status bp = STATUS_OK" "bp_status (prepare_visit alloc src m bp) = STATUS_OK"
  shows "prepared_to src (ms @ [m]) (prepare_visit alloc src m bp)"
proof -
  let ?k = "nat (number m ''number'')" and ?names = "pb_names (bp_prepared bp)" and ?news = "map snd (bp_updates bp)"
  have range: "0 < number m ''number''" "?k \<le> length src"
    using assms(2,3) by (auto simp: prepare_visit_def split: if_splits)
  then have k: "0 < ?k" by simp
  obtain name where name: "src ! (?k - 1) = Some name"
    using assms(2,3) range by (cases "src ! (?k - 1)") (auto simp: prepare_visit_def Let_def split: if_splits)
  have fst_updates: "map fst (bp_updates bp) = ms" and positive: "\<forall>m \<in> set ms. 0 < number m ''number''"
    and good: "numbered src (olds_of ms) ?news ?names" and size_map: "length (bp_map bp) = Suc (length src)"
    and found: "\<And>k. 0 < k \<Longrightarrow> k \<le> length src \<Longrightarrow> bp_map bp ! k \<noteq> 0 \<Longrightarrow>
        \<exists>j < length ms. olds_of ms ! j = k \<and> snd (bp_updates bp ! j) = bp_map bp ! k"
    and seen: "\<And>k name. 0 < k \<Longrightarrow> k \<le> length src \<Longrightarrow> k \<in> set (olds_of ms) \<Longrightarrow> src ! (k - 1) = Some name \<Longrightarrow> named name \<Longrightarrow>
        bp_map bp ! k \<noteq> 0"
    using assms(1) unfolding prepared_to_def by blast+
  have len: "length (bp_updates bp) = length ms" using arg_cong [OF fst_updates, of length] by simp
  define known where "known = (if named name then bp_map bp ! ?k else 0)"
  show ?thesis
  proof (cases "known \<noteq> 0")
    case True
    then have nm: "named name" "bp_map bp ! ?k \<noteq> 0" "known = bp_map bp ! ?k" by (auto simp: known_def split: if_splits)
    define bp' where "bp' = prepare_visit alloc src m bp"
    have step: "bp' = bp\<lparr>bp_updates := bp_updates bp @ [(m, known)]\<rparr>"
      unfolding bp'_def using assms(2) range name True by (simp add: prepare_visit_def Let_def known_def [symmetric])
    obtain j where j: "j < length ms" "olds_of ms ! j = ?k" "snd (bp_updates bp ! j) = known"
      using found [OF k range(2) nm(2)] nm(3) by auto
    have news: "?news ! j = known" using j(1,3) len by simp
    have "names_at = name" if "names_at = ?names ! (?news ! j - 1)" for names_at
      using good j(1,2) name that unfolding numbered_def by auto
    then have "numbered src (olds_of ms @ [olds_of ms ! j]) (?news @ [?news ! j]) ?names"
      using nm(1) j(1) by (intro numbered_known good) auto
    then have goal: "numbered src (olds_of (ms @ [m])) (?news @ [known]) ?names" by (simp only: j(2) news olds_of_simps)
    have "prepared_to src (ms @ [m]) bp'"
    proof (rule prepared_toI)
      show "\<exists>i < length (ms @ [m]). olds_of (ms @ [m]) ! i = q \<and> snd (bp_updates bp' ! i) = bp_map bp' ! q"
        if q: "0 < q" "q \<le> length src" "bp_map bp' ! q \<noteq> 0" for q
      proof -
        obtain i where "i < length ms" "olds_of ms ! i = q" "snd (bp_updates bp ! i) = bp_map bp ! q"
          using found [OF q(1,2)] q(3) by (auto simp: step)
        then show ?thesis using len by (intro exI [of _ i]) (simp add: nth_append step)
      qed
      show "bp_map bp' ! q \<noteq> 0"
        if q: "0 < q" "q \<le> length src" "q \<in> set (olds_of (ms @ [m]))" "src ! (q - 1) = Some nm" "named nm" for q nm
        using seen [OF q(1,2) _ q(4,5)] q(3) nm(2) by (auto simp: step)
      show "numbered src (olds_of (ms @ [m])) (map snd (bp_updates bp')) (pb_names (bp_prepared bp'))"
        using goal by (simp add: step)
    qed (use fst_updates positive range(1) size_map in \<open>auto simp: step\<close>)
    then show ?thesis by (simp add: bp'_def)
  next
    case False
    then have unknown: "known = 0" by simp
    define bp' where "bp' = prepare_visit alloc src m bp"
    define names' where "names' = ?names @ [name]"
    have step: "pb_names (bp_prepared bp') = names'" "bp_updates bp' = bp_updates bp @ [(m, length names')]"
      "bp_map bp' = (if named name then (bp_map bp)[?k := length names'] else bp_map bp)"
      using assms(2,3) range name unknown unfolding bp'_def names'_def
      by (auto simp: prepare_visit_def Let_def known_def [symmetric] split: if_splits)
    have fresh: "named name \<Longrightarrow> ?k \<notin> set (olds_of ms)" using seen [OF k range(2) _ name] unknown by (auto simp: known_def)
    then have "numbered src (olds_of ms @ [?k]) (?news @ [Suc (length ?names)]) (?names @ [name])"
      by (intro numbered_fresh good k range(2) name)
    then have goal: "numbered src (olds_of (ms @ [m])) (map snd (bp_updates bp')) (pb_names (bp_prepared bp'))"
      by (simp add: step names'_def)
    have "prepared_to src (ms @ [m]) bp'"
    proof (rule prepared_toI [OF _ _ goal])
      show "\<exists>i < length (ms @ [m]). olds_of (ms @ [m]) ! i = q \<and> snd (bp_updates bp' ! i) = bp_map bp' ! q"
        if q: "0 < q" "q \<le> length src" "bp_map bp' ! q \<noteq> 0" for q
      proof (cases "named name \<and> q = ?k")
        case True
        then show ?thesis using len size_map range(2) by (intro exI [of _ "length ms"]) (simp add: nth_append step)
      next
        case other: False
        then have "bp_map bp' ! q = bp_map bp ! q" by (auto simp: step)
        moreover from this obtain i where "i < length ms" "olds_of ms ! i = q" "snd (bp_updates bp ! i) = bp_map bp ! q"
          using found [OF q(1,2)] q(3) by auto
        ultimately show ?thesis using len by (intro exI [of _ i]) (simp add: nth_append step)
      qed
      show "bp_map bp' ! q \<noteq> 0"
        if q: "0 < q" "q \<le> length src" "q \<in> set (olds_of (ms @ [m]))" "src ! (q - 1) = Some nm" "named nm" for q nm
      proof (cases "q = ?k")
        case True
        then have "named name" using q(4,5) name by simp
        then show ?thesis using True size_map range(2) by (simp add: step names'_def)
      next
        case other: False
        then have "bp_map bp ! q \<noteq> 0" using seen [OF q(1,2) _ q(4,5)] q(3) by simp
        then show ?thesis using other by (simp add: step)
      qed
    qed (use fst_updates positive range(1) size_map in \<open>auto simp: step\<close>)
    then show ?thesis by (simp add: bp'_def)
  qed
qed

lemma prepare_stops: "bp_status bp \<noteq> STATUS_OK \<Longrightarrow> fold (prepare_visit alloc src) ms bp = bp"
  by (induction ms) (simp_all add: prepare_visit_def)

lemma prepare_run:
  assumes "prepared_to src seen bp" "bp_status bp = STATUS_OK" "bp_status (fold (prepare_visit alloc src) ms bp) = STATUS_OK"
  shows "prepared_to src (seen @ ms) (fold (prepare_visit alloc src) ms bp)"
  using assms
proof (induction ms arbitrary: seen bp)
  case (Cons m ms)
  have ok: "bp_status (prepare_visit alloc src m bp) = STATUS_OK"
    using Cons.prems(3) prepare_stops [of "prepare_visit alloc src m bp" alloc src ms]
    by (cases "bp_status (prepare_visit alloc src m bp) = STATUS_OK") auto
  from Cons.IH [OF prepare_step [OF Cons.prems(1,2) ok] ok] Cons.prems(3) show ?case by simp
qed simp

section \<open>The call\<close>

abbreviation params_of :: "schema \<Rightarrow> message \<Rightarrow> message list" where
  "params_of sch ast \<equiv> the_params (map snd (surface_visit sch (Some ast)))"

lemma count_params:
  "n \<le> SIZE_MAX \<Longrightarrow> fold (\<lambda>_. count_visit) ms n = (if n + length ms \<le> SIZE_MAX then n + length ms else SIZE_MAX)"
  by (induction ms arbitrary: n) (auto simp: count_visit_def not_le)

lemma param_type: "Param_Ref m \<in> set (visit_message sch t) \<Longrightarrow> msg_type m = Some ''ParamRef''"
proof (induction t rule: measure_induct_rule [of "\<lambda>t. case t of None \<Rightarrow> 0 | Some m \<Rightarrow> Suc (size m)"])
  case (less t)
  then obtain a where t: "t = Some a" by (cases t) auto
  from less.prems obtain s where s: "s \<in> set (message_steps sch a)"
      "Param_Ref m \<in> set (case s of Visit c \<Rightarrow> visit_message sch c | Call e \<Rightarrow> [e])"
    by (auto simp: t visit_message.simps(2))
  show ?case
  proof (cases s)
    case (Visit c)
    then obtain b where b: "c = Some b" using s(2) by (cases c) auto
    then have "size b < size a" using step_size s(1) Visit by blast
    then show ?thesis using less.IH [of c] s(2) Visit b t by simp
  next
    case (Call e)
    then have "Param_Ref m \<in> set (step_calls (message_steps sch a))" using s by (auto simp: step_calls_def)
    then show ?thesis
      by (auto simp: message_steps_def split: if_splits option.splits)
  qed
qed

lemma params_type: "m \<in> set (params_of sch ast) \<Longrightarrow> msg_type m = Some ''ParamRef''"
proof -
  assume "m \<in> set (params_of sch ast)"
  then obtain e where e: "e \<in> set (map snd (surface_visit sch (Some ast)))" "the_param_ref e = Some m"
    unfolding the_params_def owners_def by (force split: option.splits)
  have "e = Param_Ref m" using e(2) by (cases e) simp_all
  moreover obtain root where "e \<in> set (visit_message sch root)" using e(1) by (auto simp: surface_visit_def)
  ultimately show ?thesis using param_type by blast
qed

lemma params_distinct:
  assumes "schema_ok sch" "parse_schema sch" "parse_result ast" "addresses_apart (Some ast)"
  shows "distinct (map address (params_of sch ast))"
proof -
  have "distinct (map address (owners the_param_ref (visit_message sch (Some ast))))"
    by (rule visit_addresses) (use assms in \<open>simp_all add: own_selector_def\<close>)
  then show ?thesis by (simp add: the_params_def parse_visit [OF assms(2,3)])
qed

lemma set_numbers_address [simp]: "address (set_numbers g m) = address m"
  by (cases m) simp

lemma set_numbers_params: "params_of sch (set_numbers g ast) = map (set_numbers g) (params_of sch ast)"
proof -
  have "map snd (surface_visit sch (Some (set_numbers g ast))) = map (event_map (set_numbers g)) (map snd (surface_visit sch (Some ast)))"
    by (simp add: sn.roots_map)
  then show ?thesis by (simp only: sn.params_map)
qed

lemma prepare_start:
  "pb_names p = [] \<Longrightarrow> prepared_to src [] (bind_start (length src) p n)" "bp_status (bind_start k p n) = STATUS_OK"
  "pb_occurrences (bp_prepared (bind_start k p n)) = n"
  by (rule prepared_toI) (auto simp: bind_start_def numbered_Nil nth_append nth_Cons' simp del: replicate_Suc)

lemma prepare_visits_occurrences:
  "pb_occurrences (bp_prepared (fold (prepare_visit alloc src) ms b)) = pb_occurrences (bp_prepared b)"
proof (induction ms arbitrary: b)
  case (Cons m ms)
  have "pb_occurrences (bp_prepared (prepare_visit alloc src m b)) = pb_occurrences (bp_prepared b)"
    by (simp add: prepare_visit_def Let_def split: option.split)
  with Cons show ?case by simp
qed simp

text \<open>
  C9.  Preparing a statement numbers its parameters anew and well: in the tree that results every
  parameter, at the place where it was, has a number whose prepared name is its old name; two
  parameters share a number exactly when they are the same named parameter, so every question mark has
  its own; and the numbers are given in the order of first occurrence, without gaps.
\<close>

theorem prepared_numbering:
  assumes "schema_ok sch" "parse_schema sch" "parse_result ast" "addresses_apart (Some ast)"
    and "src \<noteq> []" "pb_names p = []" "\<not> pb_valid p"
    and "prepare_binds sch alloc (Some src) (length src) (Some ast) (Some p) = (None, Some p', Some ast')"
  shows "numbered src (map (\<lambda>m. nat (number m ''number'')) (params_of sch ast))
      (map (\<lambda>m. nat (number m ''number'')) (params_of sch ast')) (pb_names p') \<and>
    map address (params_of sch ast') = map address (params_of sch ast) \<and>
    pb_occurrences p' = length (params_of sch ast) \<and> pb_valid p'"
proof -
  define params where "params = params_of sch ast"
  define bp where "bp = fold (prepare_visit alloc src) params (bind_start (length src) p (length params))"
  define g where "g = map_of (map (\<lambda>(m, n). (address m, n)) (bp_updates bp))"
  have "length params \<le> SIZE_MAX"
    using assms(8) count_params [of 0 params] assms(5,7)
    by (auto simp: prepare_binds_def params_def [symmetric] Let_def split: if_splits)
  then have count: "fold (\<lambda>_. count_visit) params 0 = length params" by (simp add: count_params)
  have ok: "bp_status bp = STATUS_OK" "length (bp_updates bp) = length params"
    and result: "p' = (bp_prepared bp)\<lparr>pb_valid := True\<rparr>" "ast' = set_numbers g ast"
    using assms(8) assms(5,7)
    by (auto simp: prepare_binds_def params_def [symmetric] Let_def count bp_def [symmetric] g_def [symmetric] split: if_splits)
  have to: "prepared_to src params bp"
    using prepare_run [where alloc = alloc and ms = params, OF prepare_start(1) [OF assms(6)] prepare_start(2)] ok(1)
    unfolding bp_def by simp
  have fst_updates: "map fst (bp_updates bp) = params" and positive: "\<forall>m \<in> set params. 0 < number m ''number''"
    and good: "numbered src (olds_of params) (map snd (bp_updates bp)) (pb_names (bp_prepared bp))"
    using to unfolding prepared_to_def by blast+
  have new: "map (\<lambda>m. nat (number (set_numbers g m) ''number'')) params = map snd (bp_updates bp)"
  proof (rule nth_equalityI)
    fix i assume "i < length (map (\<lambda>m. nat (number (set_numbers g m) ''number'')) params)"
    then have i: "i < length params" by simp
    have at: "bp_updates bp ! i = (params ! i, snd (bp_updates bp ! i))"
      using arg_cong [OF fst_updates, of "\<lambda>xs. xs ! i"] i ok(2) by (cases "bp_updates bp ! i") simp
    have keys: "map fst (map (\<lambda>(m, n). (address m, n)) (bp_updates bp)) = map address params"
      unfolding fst_updates [symmetric] by (simp add: comp_def split_def)
    have "(address (params ! i), snd (bp_updates bp ! i)) \<in> set (map (\<lambda>(m, n). (address m, n)) (bp_updates bp))"
      using at i ok(2) by (metis (mono_tags, lifting) case_prod_conv image_eqI nth_mem set_map)
    then have "g (address (params ! i)) = Some (snd (bp_updates bp ! i))"
      unfolding g_def using params_distinct [OF assms(1-4), folded params_def] by (intro map_of_is_SomeI) (simp_all only: keys)
    moreover have "params ! i \<in> set params" using i by simp
    ultimately have "number (set_numbers g (params ! i)) ''number'' = int (snd (bp_updates bp ! i))"
      using set_numbers_number params_type positive unfolding params_def by blast
    then show "map (\<lambda>m. nat (number (set_numbers g m) ''number'')) params ! i = map snd (bp_updates bp) ! i"
      using i ok(2) by simp
  qed (use ok(2) in simp)
  have occurrences: "pb_occurrences (bp_prepared bp) = length params"
    by (simp add: bp_def prepare_visits_occurrences prepare_start(3))
  show ?thesis
    using good new occurrences unfolding result set_numbers_params params_def [symmetric] olds_of_def
    by (simp add: comp_def)
qed

definition param_named :: "string option list \<Rightarrow> message \<Rightarrow> bool" where
  "param_named src m \<longleftrightarrow>
     0 < number m ''number'' \<and> nat (number m ''number'') \<le> length src \<and> src ! (nat (number m ''number'') - 1) \<noteq> None"

lemma visit_named:
  assumes "bp_status bp = STATUS_OK"
  shows "bp_status (prepare_visit (\<lambda>_ _. True) src m bp) = (if param_named src m then STATUS_OK else INTERNAL_ERROR)"
    "param_named src m \<Longrightarrow> length (bp_updates (prepare_visit (\<lambda>_ _. True) src m bp)) = Suc (length (bp_updates bp))"
  using assms by (auto simp: prepare_visit_def param_named_def Let_def not_le split: option.split)

lemma visits_named:
  assumes "bp_status bp = STATUS_OK"
  shows "bp_status (fold (prepare_visit (\<lambda>_ _. True) src) ms bp) = (if \<forall>m \<in> set ms. param_named src m then STATUS_OK else INTERNAL_ERROR)"
    "\<forall>m \<in> set ms. param_named src m \<Longrightarrow>
      length (bp_updates (fold (prepare_visit (\<lambda>_ _. True) src) ms bp)) = length (bp_updates bp) + length ms"
  using assms
proof (induction ms arbitrary: bp)
  case (Cons m ms)
  {
    case 1
    show ?case
    proof (cases "param_named src m")
      case True
      then show ?thesis using Cons.IH(1) [of "prepare_visit (\<lambda>_ _. True) src m bp"] visit_named(1) [OF 1] by simp
    next
      case False
      then show ?thesis using visit_named(1) [OF 1, of src m] by (simp add: prepare_stops)
    qed
  next
    case 2
    then show ?case
      using Cons.IH(2) [of "prepare_visit (\<lambda>_ _. True) src m bp"] visit_named [OF 2(2)] by simp
  }
qed simp_all

text \<open>
  C22.  Preparing fails only for a reason: with memory enough, it succeeds exactly when every parameter
  has a number of the old table and a name there; otherwise it reports the inconsistency, the prepared
  state is empty and the tree is as it was.
\<close>

theorem prepare_fails_only_on_stray_parameters:
  assumes "src \<noteq> []" "\<not> pb_valid p" "length (params_of sch ast) \<le> INT_MAX" "length src < SIZE_MAX div 8"
  shows "(if \<forall>m \<in> set (params_of sch ast). param_named src m
     then fst (prepare_binds sch (\<lambda>_ _. True) (Some src) (length src) (Some ast) (Some p)) = None
     else prepare_binds sch (\<lambda>_ _. True) (Some src) (length src) (Some ast) (Some p) =
       (Some (error_set_message INTERNAL_ERROR ''bind AST state is inconsistent''), Some no_binds, Some ast))"
proof -
  define params where "params = params_of sch ast"
  have small: "length params \<le> SIZE_MAX div 16" "length params \<le> SIZE_MAX div 8" "length params < SIZE_MAX"
    "length params \<le> INT_MAX" "length src \<noteq> SIZE_MAX"
    using assms(3,4) by (simp_all add: params_def SIZE_MAX_def INT_MAX_def)
  have count: "fold (\<lambda>_. count_visit) params 0 = length params" using small(3) by (simp add: count_params)
  define bp where "bp = fold (prepare_visit (\<lambda>_ _. True) src) params (bind_start (length src) p (length params))"
  have start: "bp_updates (bind_start (length src) p (length params)) = []" by (simp add: bind_start_def)
  note status = visits_named [where src = src and ms = params, OF prepare_start(2) [of "length src" p "length params"], folded bp_def]
  have "prepare_binds sch (\<lambda>_ _. True) (Some src) (length src) (Some ast) (Some p) =
      (if bp_status bp \<noteq> STATUS_OK \<or> length (bp_updates bp) \<noteq> length params
       then (Some (error_set_message (if bp_status bp \<noteq> STATUS_OK then bp_status bp else INTERNAL_ERROR)
           (if bp_status bp = NO_MEMORY then ''out of memory'' else ''bind AST state is inconsistent'')),
         Some no_binds, Some ast)
       else (None, Some ((bp_prepared bp)\<lparr>pb_valid := True\<rparr>),
         Some (set_numbers (map_of (map (\<lambda>(m, n). (address m, n)) (bp_updates bp))) ast)))"
    using assms(1,2,4) small
    by (simp add: prepare_binds_def params_def [symmetric] Let_def count bp_def [symmetric] prepared_binds_clear_def not_le not_less)
  then show ?thesis using status start by (auto simp: params_def [symmetric])
qed

section \<open>A statement with parameters\<close>

definition sample_param :: "nat \<Rightarrow> int \<Rightarrow> message" where
  "sample_param a n = Message a (Some ''Node'') [] 72 (Some (Message (a + 1) (Some ''ParamRef'') [(''number'', Number n)] 0 None))"

definition param_message :: "nat \<Rightarrow> int \<Rightarrow> message" where
  "param_message a n = Message a (Some ''ParamRef'') [(''number'', Number n)] 0 None"

lemma param_walk [simp]: "visit_message sample_schema (Some (sample_param a n)) = [Param_Ref (param_message (a + 1) n)]"
  by (simp add: sample_param_def param_message_def visit_message.simps(2) [of _ "Message _ _ _ _ _"] message_steps_def
      visit_generic_def node_dispatch_def sample_schema_def Let_def)

lemma param_message_simps [simp]:
  "number (param_message a n) ''number'' = n" "address (param_message a n) = a"
  by (simp_all add: param_message_def number_def)

definition sample_statement :: message where
  "sample_statement = sample_tree (sample_values [sample_param 10 2, sample_param 20 3, sample_param 30 2])"

lemma sample_params [simp]:
  "params_of sample_schema sample_statement = [param_message 11 2, param_message 21 3, param_message 31 2]"
  by (simp add: sample_statement_def comp_def the_params_def)

definition sample_names :: "string option list" where
  "sample_names = [Some '':b'', Some '':a'', Some ''?'']"

text \<open>The parameters \<open>:a ? :a\<close> had the numbers 2, 3, 2 and get 1, 2, 1.\<close>

theorem prepared_numbering_witness:
  "\<exists>p' ast'. prepare_binds sample_schema (\<lambda>_ _. True) (Some sample_names) 3 (Some sample_statement) (Some no_binds) =
      (None, Some p', Some ast') \<and>
    pb_names p' = ['':a'', ''?''] \<and>
    numbered sample_names [2, 3, 2] (map (\<lambda>m. nat (number m ''number'')) (params_of sample_schema ast')) ['':a'', ''?'']"
proof -
  have empty: "pb_names no_binds = []" "\<not> pb_valid no_binds" by (simp_all add: no_binds_def)
  have "prepare_visit (\<lambda>_ _. True) sample_names (param_message 31 2)
      (prepare_visit (\<lambda>_ _. True) sample_names (param_message 21 3)
        (prepare_visit (\<lambda>_ _. True) sample_names (param_message 11 2) (bind_start 3 no_binds (Suc (Suc (Suc 0)))))) =
    \<lparr>bp_map = [0, 0, 1, 0], bp_prepared = \<lparr>pb_names = ['':a'', ''?''], pb_capacity = 3, pb_occurrences = 3, pb_valid = False\<rparr>,
     bp_updates = [(param_message 11 2, 1), (param_message 21 3, 2), (param_message 31 2, 1)], bp_status = STATUS_OK\<rparr>"
    by (simp add: prepare_visit_def sample_names_def named_def bind_start_def no_binds_def eval_nat_numeral)
  then obtain p' ast' where run: "prepare_binds sample_schema (\<lambda>_ _. True) (Some sample_names) 3 (Some sample_statement)
      (Some no_binds) = (None, Some p', Some ast')" "pb_names p' = ['':a'', ''?'']"
    by (simp add: prepare_binds_def Let_def count_params SIZE_MAX_def INT_MAX_def empty)
  have tree: "parse_result sample_statement" "addresses_apart (Some sample_statement)"
    by (simp_all add: sample_statement_def addresses_apart_def tree_messages_def sample_tree_def sample_values_def
        sample_param_def messages.simps parts_def parse_result_def children_def)
  have "sample_names \<noteq> []" "length sample_names = 3" by (simp_all add: sample_names_def)
  then show ?thesis
    using prepared_numbering [OF sample_schema_simps tree, of sample_names no_binds "\<lambda>_ _. True" p' ast'] run empty by simp
qed

theorem prepare_fails_only_on_stray_parameters_witness:
  "fst (prepare_binds sample_schema (\<lambda>_ _. True) (Some sample_names) 3 (Some sample_statement) (Some no_binds)) = None \<and>
   prepare_binds sample_schema (\<lambda>_ _. True) (Some [Some '':b'']) 1 (Some sample_statement) (Some no_binds) =
     (Some (error_set_message INTERNAL_ERROR ''bind AST state is inconsistent''), Some no_binds, Some sample_statement)"
proof -
  have good: "\<forall>m \<in> set (params_of sample_schema sample_statement). param_named sample_names m"
    by (simp add: param_named_def sample_names_def)
  have bad: "\<not> (\<forall>m \<in> set (params_of sample_schema sample_statement). param_named [Some '':b''] m)"
    by (simp add: param_named_def)
  have side: "\<not> pb_valid no_binds" "sample_names \<noteq> []" "length sample_names = 3" "[Some '':b''] \<noteq> []"
    "length [Some '':b''] = 1" "length (params_of sample_schema sample_statement) \<le> INT_MAX"
    "length sample_names < SIZE_MAX div 8" "length [Some '':b''] < SIZE_MAX div 8"
    by (simp_all add: no_binds_def sample_names_def INT_MAX_def SIZE_MAX_def)
  show ?thesis
    using prepare_fails_only_on_stray_parameters [OF side(2,1,6,7)] prepare_fails_only_on_stray_parameters [OF side(4,1,6,8)]
    unfolding side(3,5) if_P [OF good] if_not_P [OF bad] by blast
qed

end
