(* ===== verification/Spec2Isabelle.thy ===== *)
theory Spec2Isabelle
  imports Sql_Dialect Ast_Rebase Origin_Properties Selector_Patch Envelope_Properties Scalar_Statement
    Literal_Properties Bind_Properties
begin

text \<open>
  A verification development for \<^verbatim>\<open>sqlparser\<close>, the C library that parses, inspects, edits and prints
  SQL of several dialects on top of \<^verbatim>\<open>libpg_query\<close>.

  \<^bold>\<open>The program.\<close>  A handle (\<^verbatim>\<open>src/core/sqlparser_core.c\<close>) is created from SQL text.  A dialect
  (\<^verbatim>\<open>src/dialect\<close>) rewrites that text, in a chain of passes, into the PostgreSQL text that
  \<^verbatim>\<open>libpg_query\<close> can parse; while it does so it records where every identifier came from
  (\<^verbatim>\<open>sqlparser_identifier_origin.c\<close>).  The surface (\<^verbatim>\<open>sqlparser_surface.c\<close>) keeps a list of edits
  between the text of the caller and the text parsed, so that both can be had; when it changes,
  the coordinates in the syntax tree are moved with it (\<^verbatim>\<open>sqlparser_ast_rebase.c\<close>).  A caller names
  a part of the tree with a selector (\<^verbatim>\<open>sqlparser_selector.c\<close>) and changes it with a patch.  A large
  INSERT is not unpacked into a tree: its protobuf wire is certified against the source and packed
  again after an edit (\<^verbatim>\<open>sqlparser_wire_insert.c\<close>).

  Where the parser does not know a construct of a dialect, a table beside the tree remembers it by its
  position in the order of the text (\<^verbatim>\<open>sqlparser_dialect_minus.c\<close>,
  \<^verbatim>\<open>sqlparser_dialect_national_literal.c\<close>), and the parameters are numbered in that order
  (\<^verbatim>\<open>sqlparser_dialect_bind.c\<close>); the order is that of a walk (\<^verbatim>\<open>sqlparser_dialect_ast_surface.c\<close>).

  \<^bold>\<open>The theories.\<close>

    \<^item> \<open>Sql_Prelude\<close>: status codes and the error record of \<^verbatim>\<open>sqlparser.h\<close> and their setters in
      \<^verbatim>\<open>sqlparser_core.c\<close>, \<^verbatim>\<open>size_t\<close> limits, C strings, \<^verbatim>\<open>ctype.h\<close>, the loop that advances while a byte
      satisfies a test, slices of lists.
    \<^item> \<open>Sql_Dialect\<close>: \<^verbatim>\<open>sqlparser_dialect_registry.c\<close>, the dialects, their tables and families.
    \<^item> \<open>Splice\<close>: the specification of an edited text, with no counterpart in the code: what it is to
      replace disjoint ranges of a list (\<open>splice\<close>) and where a position goes (\<open>moved\<close>).
    \<^item> \<open>Source_Edits\<close>: \<^verbatim>\<open>sqlparser_surface_source_edits_insert\<close> and its variants, \<^verbatim>\<open>_clone\<close>,
      \<^verbatim>\<open>_release\<close>, \<^verbatim>\<open>_overlap\<close>, and \<^verbatim>\<open>sqlparser_surface_restore_source_edits\<close>.
    \<^item> \<open>Public_Scan\<close>: the \<^verbatim>\<open>sqlparser_public_*\<close> functions of \<^verbatim>\<open>sqlparser_surface.c\<close>: quotes and
      comments of every dialect family, comments that carry meaning, GO lines, the terminal scan and
      the cut of a text into statement bodies (a second interpretation of \<open>item_source\<close>).
    \<^item> \<open>Source_Envelope\<close> and \<open>Envelope_Properties\<close>: \<^verbatim>\<open>sqlparser_restore_source_envelope\<close> with its
      planner, its edits on the output and their application.  The specification of the result are
      the functions \<open>woven\<close> (one gap) and \<open>enveloped\<close> (the whole text), and \<open>texts_pair\<close>, which says
      of two texts when the planner has a plan; the predicate \<open>plans\<close> says that its counting and its
      filling pass agree.
    \<^item> \<open>Ast_Rebase\<close>: the coordinate arithmetic of \<^verbatim>\<open>sqlparser_ast_rebase.c\<close>: the validation of edits
      and of statement spans, the cursor that maps a point, the planned writes and their application.
      Its locale \<open>coordinate_map\<close> is the contract of a map of coordinates (monotone, exact outside
      the edits, undefined inside), interpreted on \<^verbatim>\<open>sqlparser_rebase_point\<close>.
    \<^item> \<open>Identifier_Origin\<close> and \<open>Origin_Properties\<close>: \<^verbatim>\<open>sqlparser_identifier_origin.c\<close>, the run-length
      coded map from output bytes to source bytes, its writer and its lookups, and the entry point
      that runs a dialect's preprocessor.  The locale \<open>provenance_writer\<close> is the contract of a writer
      that appends cells, interpreted on the writer of the code; \<open>faithful\<close> and \<open>has_written\<close> say that
      the cells of a map or a writer name the bytes of the source.
    \<^item> \<open>Selector\<close> and \<open>Selector_Patch\<close>: \<^verbatim>\<open>sqlparser_selector.c\<close>, parsing and printing of selectors,
      and the entry points that turn a selector and a value into one patch of the handle.  The
      locale \<open>address_codec\<close> is the contract of a printer and its parser, interpreted on both.
    \<^item> \<open>Sqlserver_Scan\<close>: \<^verbatim>\<open>sqlparser_dialect_sqlserver_scan.c\<close>, the scanner under the SQL Server
      passes: quoted text, comments, words, GO lines, tokens with their depths, and the searches; \<open>nest\<close>
      and \<open>separates\<close> count over the tokens, without the scanner's state, what is open before one.
      The locale \<open>item_source\<close> is the contract of a source that always moves on, interpreted on
      the token scanner and on the bytes of code that the parenthesis matcher visits.

    \<^item> \<open>Wire_Codec\<close>, \<open>Wire_Insert\<close>, \<open>Wire_Frame\<close>, \<open>Wire_Pack\<close>, \<open>Wire_Certify\<close>: the first half of
      \<^verbatim>\<open>sqlparser_wire_insert.c\<close>, in its order: varints, messages and scalars of the protobuf wire;
      the strict and the bounded reader of a cell and a row; the envelopes around the rows, which both
      packers share; the measuring and the writing pass of \<^verbatim>\<open>wi_pack\<close>; \<^verbatim>\<open>sqlparser_wire_insert_certify\<close>.  The locale \<open>codec\<close> is the contract of a reader
      that accepts exactly the encoding of what it returns, interpreted on varints, messages,
      scalars, text fields, cells and rows.
    \<^item> \<open>Wire_Properties\<close>, \<open>Wire_Restore\<close>, \<open>Wire_Complete\<close>, \<open>Wire_Statement\<close>: a certificate is sound
      (\<open>describes\<close>, \<open>rows_at\<close>); the packer and the restored source move in step (\<open>tracks\<close>), and the
      edits make of a row what \<open>edited_row\<close> says; every plain INSERT is certified; the properties, applied to one statement of 32 rows.
    \<^item> \<open>Scalar_Insert\<close>, \<open>Scalar_Pack\<close>, \<open>Scalar_Certify\<close>: the second half of that file, the certificate
      of an INSERT with any number of columns whose cells are integers, floats, strings or value
      functions: its cell readers (interpreted as another \<open>codec\<close>) and accessors; \<^verbatim>\<open>wsi_pack\<close> with its
      optional plan of measured cells and the unchecked writer of planned cells; the strict certifier,
      the constructor from the attestation of the native parser, the projection of a compact statement.
    \<^item> \<open>Scalar_Properties\<close>, \<open>Scalar_Restore\<close>, \<open>Scalar_Native\<close>, \<open>Scalar_Columns\<close>, \<open>Scalar_Statement\<close>:
      soundness (\<open>scalar_describes\<close>, \<open>stand_in\<close>), the packed wire against the restored source, the
      native certificate against the strict one, the two-column certificate and packer as special
      cases of the scalar ones, and the properties.

    \<^item> \<open>Ast_Surface\<close> and \<open>Surface_Properties\<close>: \<^verbatim>\<open>sqlparser_dialect_ast_surface.c\<close>, the walk over the
      messages of a tree and the walk over a tree and its copy, as the sequences of their callbacks; no
      node is met twice, and a copy is walked in step.
    \<^item> \<open>Ordinal_Records\<close>, \<open>Owner_Cloning\<close>, \<open>Minus_Records\<close>: \<^verbatim>\<open>sqlparser_dialect_minus.c\<close>, the table of
      the set operations written MINUS; the first two hold what it shares with the table of literals:
      searching (by ordinal, and by owner with \<^verbatim>\<open>bsearch\<close>, which relies on the sorting before it),
      binding records to nodes, computing their ordinals again after an edit, recording the nodes of a copy.  The locale \<open>owner_cloning\<close> is the contract of the callback of that last call,
      interpreted on the callbacks of both tables.
    \<^item> \<open>National_Literals\<close> and \<open>Literal_Properties\<close>: \<^verbatim>\<open>sqlparser_dialect_national_literal.c\<close>, the table of
      the spellings of literals and the view of a fragment.
    \<^item> \<open>Bind_Prepare\<close> and \<open>Bind_Properties\<close>: \<^verbatim>\<open>sqlparser_dialect_bind.c\<close>, the numbering of the
      parameters.  The locale \<open>shape_pass\<close> is the contract of a pass that keeps the shape of a tree,
      interpreted on the writing of the numbers.

  \<^bold>\<open>How the code is read.\<close>  A struct is a record, an enumeration a datatype.  A buffer of bytes is a
  list of characters; a C string is the bytes before its NUL, and a pointer the code tests against
  NULL is an option.  A function that fails yields \<open>Inl\<close> of the error it leaves in \<^verbatim>\<open>*out_error\<close>;
  where the code changes an object before it fails, the changed object is part of the result.  A
  \<^verbatim>\<open>size_t\<close> is a natural number, with the overflow tests of the code kept; sums that the code leaves
  unguarded are wrapped; a \<^verbatim>\<open>uint32_t\<close> of the wire is a 32-bit word.  An allocation asks an \<^emph>\<open>allocator\<close>, a function from the number of the
  request in the call and its size to success, so every statement holds for every pattern of
  failing allocations.  A loop is a recursive function with its termination proved, so no fuel is
  used and every definition is total.

  \<^bold>\<open>Parameters.\<close>  What is not under \<^verbatim>\<open>src\<close> or is too large to model is an argument: the syntax tree
  of \<^verbatim>\<open>libpg_query\<close> (a store of coordinates in \<open>Ast_Rebase\<close>), the generated message descriptors (a schema
  in \<open>Ast_Surface\<close>), a dialect's preprocessing pass (in \<open>Origin_Properties\<close>), the rendering of an identifier path and the patch engine of the handle (in
  \<open>Selector_Patch\<close>), the state of the MySQL dialect and the generated schema (in \<open>Wire_Certify\<close>).

  \<^bold>\<open>What the lemmas show.\<close>  Recording edits keeps them ordered and apart, whatever the order in
  which they come; restoring them yields the spliced text and keeps every byte outside the edited
  ranges; it is refused exactly when the text with the first so many edits exceeds the limit; the
  coordinates of the tree move to the places of the same bytes in that text.  The envelope keeps every body as printed and every gap as written, and its internal errors cannot
  occur without GO lines.  The provenance of identifiers survives every call of the writer: copied,
  generated, renamed and unknown pieces and the map of a rewritten part; and an answer of a lookup names source bytes that really are there.
  A selector and its text determine each other.  The scanner always ends, never leaves the text,
  balances what it opens and finds exactly the first place a search asks for.  A wire is certified
  only if every byte of it is accounted for and every cell stands in the source, plain statements
  always are, and the packed wire is the canonical encoding of the cells of the restored source.
  A MINUS and the spelling of a literal stay with their node while the tree is edited and copied; a
  table that does not fit its tree is refused, and a failed call says why and leaves the records as they were.  The
  numbering of parameters keeps every name and is canonical.

  \<^bold>\<open>Not modelled.\<close>  The rewriting passes of the dialects, with the recovery of placeholders from printed
  text and of their roles, the construction and the queries of the syntax tree (\<^verbatim>\<open>sqlparser_ast*.c\<close>), the view (\<^verbatim>\<open>sqlparser_view.c\<close>), the patch engine
  (\<^verbatim>\<open>sqlparser_patch.c\<close>), the printer's spelling (\<^verbatim>\<open>sqlparser_deparse_spelling.c\<close>).  Of the insert wire
  format: the batch certificate (\<^verbatim>\<open>sqlparser_wire_insert_batch.inc\<close>), the pack straight from a tree
  (\<^verbatim>\<open>sqlparser_certified_insert_pack.c\<close>) and the comparison of the generated descriptors, which is an
  input (\<open>e_schemas_match\<close>).  The vendored libraries; tools, tests and benchmarks.
\<close>

end
